(* ===== verification/Alpine_Prelude.thy ===== *)
theory Alpine_Prelude
  imports Main "HOL-Library.Word"
begin

text \<open>
  Prelude shared by every theory of the development: the machine integer types of the C++
  sources, the values a C++ execution can end in, the error monad in which fallible code is
  written, checked array access, loops in the monad, and the list and word lemmas the
  component proofs share.
\<close>

unbundle bit_operations_syntax

section \<open>Machine integers\<close>

type_synonym u8 = "8 word"
type_synonym u16 = "16 word"
type_synonym u32 = "32 word"
type_synonym u64 = "64 word"

text \<open>An \<^verbatim>\<open>int8_t\<close> is an 8-bit word read with \<^const>\<open>sint\<close>.\<close>

type_synonym i8 = "8 word"

type_synonym Addr = u64
type_synonym Tick = u64

named_theorems result_simps \<open>unfolding of the error monad\<close>
named_theorems inv_intros \<open>preservation of component invariants\<close>

section \<open>Results: how a C++ execution ends\<close>

text \<open>
  \<open>OutOfBounds\<close>, \<open>UseAfterFree\<close> and \<open>NullDeref\<close> are undefined behaviour (a raw array
  access outside the array, a use of a deleted object, a null pointer);
  \<open>AssertFail\<close>, \<open>Panic\<close> and \<open>Fatal\<close> are the simulator's checked aborts
  (\<^verbatim>\<open>assert\<close>, \<^verbatim>\<open>panic\<close>, \<^verbatim>\<open>fatal\<close>); \<open>IntOverflow\<close> is the overflow of a
  signed \<^verbatim>\<open>int\<close> expression, and \<open>DivByZero\<close> a division by zero, whose results are undefined.
\<close>

datatype cpp_error =
    OutOfBounds | UseAfterFree | NullDeref | AssertFail | Panic | Fatal | IntOverflow | DivByZero

datatype 'a result = Error cpp_error | Ok 'a

fun bindR :: "'a result \<Rightarrow> ('a \<Rightarrow> 'b result) \<Rightarrow> 'b result" where
  "bindR (Error e) f = Error e"
| "bindR (Ok x) f = f x"

definition assertR :: "bool \<Rightarrow> cpp_error \<Rightarrow> unit result" where
  "assertR b e = (if b then Ok () else Error e)"

lemma assertR_simps [simp, result_simps]:
  "assertR True e = Ok ()" "assertR False e = Error e"
  by (simp_all add: assertR_def)

lemma assertR_Ok_iff [simp]: "assertR b e = Ok u \<longleftrightarrow> b"
  by (simp add: assertR_def)

lemma bindR_Ok_iff [result_simps]:
  "bindR m f = Ok y \<longleftrightarrow> (\<exists>x. m = Ok x \<and> f x = Ok y)"
  by (cases m) auto

lemma bindR_Error_iff [result_simps]:
  "bindR m f = Error e \<longleftrightarrow> m = Error e \<or> (\<exists>x. m = Ok x \<and> f x = Error e)"
  by (cases m) auto

lemma bindR_Ok_right [simp]: "bindR m Ok = m"
  by (cases m) auto

lemma bindR_assoc: "bindR (bindR m f) g = bindR m (\<lambda>x. bindR (f x) g)"
  by (cases m) auto

lemma bindR_assertR: "bindR (assertR b e) f = (if b then f () else Error e)"
  by (simp add: assertR_def)

lemma bindR_cong [fundef_cong]:
  "m = m' \<Longrightarrow> (\<And>x. m' = Ok x \<Longrightarrow> f x = f' x) \<Longrightarrow> bindR m f = bindR m' f'"
  by (cases m') auto

text \<open>The value of a signed 32-bit expression, \<open>x\<close> over the integers.\<close>

definition int32_ok :: "int \<Rightarrow> bool" where
  "int32_ok x \<longleftrightarrow> - (2 ^ 31) \<le> x \<and> x < 2 ^ 31"

definition intR :: "int \<Rightarrow> int result" where
  "intR x = (if int32_ok x then Ok x else Error IntOverflow)"

lemma intR_Ok [simp]: "- (2 ^ 31) \<le> x \<Longrightarrow> x < 2 ^ 31 \<Longrightarrow> intR x = Ok x"
  by (simp add: intR_def int32_ok_def)

lemma intR_of_nat: "x = int n \<Longrightarrow> n < 2 ^ 31 \<Longrightarrow> intR x = Ok (int n)"
  by (simp add: intR_def int32_ok_def)

lemma intR_Ok_iff: "intR x = Ok y \<longleftrightarrow> - (2 ^ 31) \<le> x \<and> x < 2 ^ 31 \<and> y = x"
  by (auto simp: intR_def int32_ok_def)

section \<open>Checked array access\<close>

text \<open>
  A raw array (\<^verbatim>\<open>T *\<close>, \<^verbatim>\<open>unique_ptr<T[]>\<close>, \<^verbatim>\<open>vector<T>::operator[]\<close>) is a list.
  The index is the signed value the code computes.
\<close>

definition arr_get :: "'a list \<Rightarrow> int \<Rightarrow> 'a result" where
  "arr_get xs i = (if 0 \<le> i \<and> i < int (length xs) then Ok (xs ! nat i) else Error OutOfBounds)"

definition arr_set :: "'a list \<Rightarrow> int \<Rightarrow> 'a \<Rightarrow> 'a list result" where
  "arr_set xs i v =
     (if 0 \<le> i \<and> i < int (length xs) then Ok (xs[nat i := v]) else Error OutOfBounds)"

lemma arr_get_nat [simp]: "n < length xs \<Longrightarrow> arr_get xs (int n) = Ok (xs ! n)"
  by (simp add: arr_get_def)

lemma arr_get_0 [simp]: "xs \<noteq> [] \<Longrightarrow> arr_get xs 0 = Ok (xs ! 0)"
  by (simp add: arr_get_def)

lemma arr_set_nat [simp]: "n < length xs \<Longrightarrow> arr_set xs (int n) v = Ok (xs[n := v])"
  by (simp add: arr_set_def)

lemma arr_get_Ok_iff:
  "arr_get xs i = Ok v \<longleftrightarrow> 0 \<le> i \<and> i < int (length xs) \<and> v = xs ! nat i"
  by (auto simp: arr_get_def)

lemma arr_set_Ok_iff:
  "arr_set xs i v = Ok ys \<longleftrightarrow> 0 \<le> i \<and> i < int (length xs) \<and> ys = xs[nat i := v]"
  by (auto simp: arr_set_def)

lemma arr_get_out: "i < 0 \<or> int (length xs) \<le> i \<Longrightarrow> arr_get xs i = Error OutOfBounds"
  by (auto simp: arr_get_def)

lemma arr_set_out: "i < 0 \<or> int (length xs) \<le> i \<Longrightarrow> arr_set xs i v = Error OutOfBounds"
  by (auto simp: arr_set_def)

lemma arr_set_length: "arr_set xs i v = Ok ys \<Longrightarrow> length ys = length xs"
  by (auto simp: arr_set_Ok_iff)

section \<open>Loops in the error monad\<close>

text \<open>
  \<^verbatim>\<open>for (x : xs) body\<close>: the body maps the loop's state to a result, and the loop stops at
  the first error.
\<close>

primrec foldM :: "('b \<Rightarrow> 's \<Rightarrow> 's result) \<Rightarrow> 'b list \<Rightarrow> 's \<Rightarrow> 's result" where
  "foldM f [] s = Ok s"
| "foldM f (x # xs) s = bindR (f x s) (foldM f xs)"

lemma foldM_Nil [simp]: "foldM f [] = Ok"
  by (rule ext) simp

lemma foldM_append: "foldM f (xs @ ys) s = bindR (foldM f xs s) (foldM f ys)"
proof (induction xs arbitrary: s)
  case (Cons x xs)
  then have "foldM f (xs @ ys) = (\<lambda>s. bindR (foldM f xs s) (foldM f ys))" by auto
  then show ?case by (simp add: bindR_assoc)
qed simp

lemma foldM_map: "foldM f (map g xs) s = foldM (\<lambda>x. f (g x)) xs s"
proof (induction xs arbitrary: s)
  case (Cons x xs)
  then have "foldM f (map g xs) = foldM (\<lambda>x. f (g x)) xs" by auto
  then show ?case by simp
qed simp

lemma foldM_nested:
  "foldM (\<lambda>i. foldM (\<lambda>j. f (i, j)) js) xs s = foldM f (List.product xs js) s"
proof (induction xs arbitrary: s)
  case (Cons x xs)
  then have "foldM (\<lambda>i. foldM (\<lambda>j. f (i, j)) js) xs = foldM f (List.product xs js)" by auto
  then show ?case by (simp add: foldM_append foldM_map)
qed simp

lemma foldM_upt_Suc: "foldM f [0..<Suc k] s = bindR (foldM f [0..<k] s) (f k)"
proof -
  have "foldM f [k] = f k" by (rule ext) simp
  then show ?thesis by (simp add: foldM_append)
qed

lemma foldM_cong [fundef_cong]:
  "xs = ys \<Longrightarrow> s = t \<Longrightarrow> (\<And>x u. x \<in> set ys \<Longrightarrow> f x u = g x u) \<Longrightarrow> foldM f xs s = foldM g ys t"
proof (induction ys arbitrary: xs s t)
  case (Cons y ys)
  then have "\<And>u. foldM f ys u = foldM g ys u" by (metis list.set_intros(2))
  then have "foldM f ys = foldM g ys" by auto
  with Cons.prems show ?case by simp
qed simp

text \<open>A loop whose body succeeds under an invariant is the corresponding pure fold.\<close>

lemma foldM_fold:
  assumes step: "\<And>x s. x \<in> set xs \<Longrightarrow> I s \<Longrightarrow> f x s = Ok (g x s) \<and> I (g x s)"
    and start: "I s"
  shows "foldM f xs s = Ok (fold g xs s) \<and> I (fold g xs s)"
  using assms
proof (induction xs arbitrary: s)
  case (Cons x xs)
  from Cons.prems have "f x s = Ok (g x s)" "I (g x s)" by auto
  with Cons.IH [of "g x s"] Cons.prems(1) show ?case by simp
qed simp

text \<open>An invariant of a loop, whatever the result.\<close>

lemma foldM_invariant:
  assumes "foldM f xs s = Ok t" "I s"
    and "\<And>x s t. x \<in> set xs \<Longrightarrow> I s \<Longrightarrow> f x s = Ok t \<Longrightarrow> I t"
  shows "I t"
  using assms
proof (induction xs arbitrary: s)
  case (Cons x xs)
  from Cons.prems(1) obtain u where "f x s = Ok u" "foldM f xs u = Ok t"
    by (auto simp: result_simps)
  with Cons.IH [of u] Cons.prems(2,3) show ?case by (meson list.set_intros)
qed simp

lemma fold_invariant_list:
  "(\<And>x s. x \<in> set xs \<Longrightarrow> I s \<Longrightarrow> I (g x s)) \<Longrightarrow> I s \<Longrightarrow> I (fold g xs s)"
  by (induction xs arbitrary: s) auto

section \<open>Lists\<close>

text \<open>Writing \<open>f i\<close> at every index of a prefix, in loop order.\<close>

lemma fold_list_update_upt:
  "n \<le> length xs \<Longrightarrow>
     fold (\<lambda>i ys. ys[i := f i]) [0..<n] xs = map f [0..<n] @ drop n xs"
proof (induction n)
  case (Suc n)
  then have "fold (\<lambda>i ys. ys[i := f i]) [0..<Suc n] xs = (map f [0..<n] @ drop n xs)[n := f n]"
    by simp
  also have "\<dots> = map f [0..<Suc n] @ drop (Suc n) xs"
    using Suc.prems by (simp add: list_update_append Cons_nth_drop_Suc [symmetric])
  finally show ?case .
qed simp

lemma sum_list_map_upt: "sum_list (map f [0..<n]) = (\<Sum>i<n. f i)" for f :: "nat \<Rightarrow> 'a::comm_monoid_add"
  by (induction n) (auto simp: add.commute)

text \<open>Replacing a run of elements, and the \<^verbatim>\<open>memcpy\<close> between two buffers that makes one.\<close>

definition overwrite :: "nat \<Rightarrow> 'a list \<Rightarrow> 'a list \<Rightarrow> 'a list" where
  "overwrite k xs ys = take k ys @ xs @ drop (k + length xs) ys"

lemma length_overwrite [simp]:
  "k + length xs \<le> length ys \<Longrightarrow> length (overwrite k xs ys) = length ys"
  by (simp add: overwrite_def)

lemma nth_overwrite:
  "k + length xs \<le> length ys \<Longrightarrow> i < length ys \<Longrightarrow>
     overwrite k xs ys ! i = (if k \<le> i \<and> i < k + length xs then xs ! (i - k) else ys ! i)"
  by (auto simp: overwrite_def nth_append)

definition memcpy :: "'a list \<Rightarrow> nat \<Rightarrow> 'a list \<Rightarrow> nat \<Rightarrow> nat \<Rightarrow> 'a list result" where
  "memcpy dst doff src soff n =
     (if doff + n \<le> length dst \<and> soff + n \<le> length src
      then Ok (overwrite doff (take n (drop soff src)) dst) else Error OutOfBounds)"

lemma memcpy_Ok_iff:
  "memcpy dst doff src soff n = Ok dst' \<longleftrightarrow>
     doff + n \<le> length dst \<and> soff + n \<le> length src \<and>
     dst' = overwrite doff (take n (drop soff src)) dst"
  by (auto simp: memcpy_def)

lemma memcpy_nth:
  assumes "memcpy dst doff src soff n = Ok dst'" "i < length dst"
  shows "length dst' = length dst"
    "dst' ! i = (if doff \<le> i \<and> i < doff + n then src ! (soff + (i - doff)) else dst ! i)"
  using assms by (auto simp: memcpy_Ok_iff nth_overwrite)

section \<open>Bytes of a word\<close>

lemma sint8_range: "- 128 \<le> sint (w :: 8 word)" "sint (w :: 8 word) \<le> 127"
  using sint_ge [of w] sint_lt [of w] by auto

lemma bit_0xff [simp]: "bit (0xff :: int) n \<longleftrightarrow> n < 8"
proof -
  have m: "(0xff :: int) = mask 8" by (simp add: mask_eq_exp_minus_1)
  show ?thesis unfolding m bit_mask_iff by auto
qed

lemma unat_less_u32: "unat (x :: u32) < 2 ^ 32"
  using unsigned_less [of x, where ?'a = nat] by simp

lemma unat_less_u64: "unat (x :: u64) < 2 ^ 64"
  using unsigned_less [of x, where ?'a = nat] by simp

lemma word_le_minus_one: "a < b \<Longrightarrow> a \<le> b - 1" for a b :: "'a::len word"
proof -
  assume "a < b"
  then have "b \<noteq> 0" by auto
  then show ?thesis using \<open>a < b\<close> by (simp add: word_le_nat_alt word_less_nat_alt unat_minus_one)
qed

lemma unat_2p_word: "n < LENGTH('a) \<Longrightarrow> unat (2 ^ n :: 'a::len word) = 2 ^ n"
proof -
  assume "n < LENGTH('a)"
  then have "(2 :: nat) ^ n < 2 ^ LENGTH('a)" by (intro power_strict_increasing) simp_all
  moreover have "(2 ^ n :: 'a word) = of_nat (2 ^ n)" by simp
  ultimately show ?thesis by (simp only: unsigned_of_nat take_bit_nat_eq_self of_nat_id)
qed

lemma unat_2p_u64: "n < 64 \<Longrightarrow> unat (2 ^ n :: u64) = 2 ^ n"
  by (rule unat_2p_word) simp

lemma unat_of_nat_small: "n < 2 ^ LENGTH('a) \<Longrightarrow> unat (of_nat n :: 'a::len word) = n"
  by (simp add: unsigned_of_nat take_bit_nat_eq_self)

lemma unat_ucast_u32_u64 [simp]: "unat (ucast (x :: u32) :: u64) = unat x"
  by (simp add: unsigned_ucast_eq take_bit_nat_eq_self unat_less_u32
      order_less_trans [OF unat_less_u32])

lemma sint_word_of_int8: "- 128 \<le> k \<Longrightarrow> k \<le> 127 \<Longrightarrow> sint (word_of_int k :: 8 word) = k"
  by (simp add: signed_of_int signed_take_bit_int_eq_self)

end
