(* ===== verification/Aimc_Spec.thy ===== *)
theory Aimc_Spec
  imports Alpine_Prelude
begin

text \<open>
  The abstract AIMC tile: what a program that drives a tile through the CM instructions may
  rely on. A tile is a crossbar of 8-bit weights, an input memory, an output memory and two
  counters. Two implementations refine it: the checker of AIMClib
  (\<^verbatim>\<open>aimclib/aimc_check.hh\<close>, theory \<open>Aimc_Check\<close>) and the simulated device
  (\<^verbatim>\<open>src/dev/arm/aimc_cluster.cc\<close>, theories \<open>Aimc_Cluster\<close> and \<open>Aimc_Isa\<close>). The
  theory also holds the byte packing of a 32-bit queue word.
\<close>

section \<open>Packing bytes in a queue word\<close>

definition word_byte :: "u32 \<Rightarrow> nat \<Rightarrow> i8" where
  "word_byte x i = ucast (drop_bit (8 * i) x AND 0xff)"

fun pack_bytes :: "i8 list \<Rightarrow> u32" where
  "pack_bytes [] = 0"
| "pack_bytes (b # bs) = ucast b OR push_bit 8 (pack_bytes bs)"

lemma bit_word_byte: "bit (word_byte x i) n \<longleftrightarrow> n < 8 \<and> bit x (8 * i + n)"
  by (auto simp: word_byte_def bit_ucast_iff bit_and_iff bit_drop_bit_eq bit_0xff
      dest: bit_imp_le_length)

lemma bit_pack_bytes:
  "bit (pack_bytes bs) n \<longleftrightarrow> n < 32 \<and> n div 8 < length bs \<and> bit (bs ! (n div 8)) (n mod 8)"
proof (induction bs arbitrary: n)
  case (Cons b bs)
  show ?case
  proof (cases "n < 8")
    case True
    then show ?thesis by (auto simp: bit_or_iff bit_ucast_iff bit_push_bit_iff)
  next
    case False
    then have "n div 8 = Suc ((n - 8) div 8)" "n mod 8 = (n - 8) mod 8"
      by (auto simp: div_if mod_if)
    with False Cons.IH [of "n - 8"] show ?thesis
      by (auto simp: bit_or_iff bit_ucast_iff bit_push_bit_iff dest: bit_imp_le_length)
  qed
qed simp

lemma word_byte_pack:
  assumes "length bs \<le> 4" "i < 4"
  shows "word_byte (pack_bytes bs) i = (if i < length bs then bs ! i else 0)"
proof (rule bit_word_eqI)
  fix n :: nat
  assume "n < LENGTH(8)"
  then have "(8 * i + n) div 8 = i" "(8 * i + n) mod 8 = n" "n < 8" by auto
  with assms show "bit (word_byte (pack_bytes bs) i) n = bit (if i < length bs then bs ! i else 0) n"
    by (auto simp: bit_word_byte bit_pack_bytes)
qed

lemma pack_bytes_snoc:
  "pack_bytes (bs @ [b]) = pack_bytes bs OR push_bit (8 * length bs) (ucast b)"
proof (induction bs)
  case (Cons a bs)
  have "push_bit 8 (push_bit (8 * length bs) (ucast b :: u32))
          = push_bit (8 * length (a # bs)) (ucast b)"
    by (simp add: push_bit_push_bit)
  with Cons show ?case by (simp add: push_bit_or or.assoc)
qed simp

lemma pack_bytes_replicate_0 [simp]: "pack_bytes (replicate n 0) = 0"
  by (induction n) auto

lemma pack_word_bytes: "pack_bytes (map (word_byte x) [0..<4]) = x"
proof (rule bit_word_eqI)
  fix n :: nat
  assume "n < LENGTH(32)"
  then have "n div 8 < 4" "n mod 8 < 8" "8 * (n div 8) + n mod 8 = n" by auto
  then show "bit (pack_bytes (map (word_byte x) [0..<4])) n = bit x n"
    using \<open>n < LENGTH(32)\<close> by (simp add: bit_pack_bytes bit_word_byte)
qed

section \<open>The abstract tile\<close>

record aimc_view =
  v_xbar :: "i8 list"
  v_in :: "i8 list"
  v_out :: "i8 list"
  v_ic :: nat
  v_oc :: nat

definition view_ok :: "nat \<Rightarrow> nat \<Rightarrow> aimc_view \<Rightarrow> bool" where
  "view_ok h w v \<longleftrightarrow> length (v_xbar v) = w * h \<and> length (v_in v) = h \<and> length (v_out v) = w"

definition sat8 :: "int \<Rightarrow> i8" where
  "sat8 x = word_of_int (max (-128) (min 127 x))"

lemma sint_sat8: "sint (sat8 x) = max (-128) (min 127 x)"
  unfolding sat8_def by (rule sint_word_of_int8) auto

text \<open>One column of the matrix-vector product, over the integers.\<close>

definition mvm_column :: "nat \<Rightarrow> nat \<Rightarrow> i8 list \<Rightarrow> i8 list \<Rightarrow> nat \<Rightarrow> int" where
  "mvm_column h w xb inp i = (\<Sum>j<h. sint (inp ! j) * sint (xb ! (j * w + i)))"

definition spec_queue :: "nat \<Rightarrow> u32 \<Rightarrow> aimc_view \<Rightarrow> aimc_view" where
  "spec_queue h x v =
     v\<lparr>v_in := (if v_ic v + 4 < h then overwrite (v_ic v) (map (word_byte x) [0..<4]) (v_in v)
               else v_in v),
       v_ic := v_ic v + 4\<rparr>"

definition spec_dequeue_value :: "nat \<Rightarrow> aimc_view \<Rightarrow> u32" where
  "spec_dequeue_value w v =
     (if v_oc v + 4 < w then pack_bytes (take 4 (drop (v_oc v) (v_out v))) else 0)"

definition spec_dequeue :: "aimc_view \<Rightarrow> aimc_view" where
  "spec_dequeue v = v\<lparr>v_oc := v_oc v + 4\<rparr>"

definition spec_process :: "nat \<Rightarrow> nat \<Rightarrow> aimc_view \<Rightarrow> aimc_view" where
  "spec_process h w v =
     v\<lparr>v_out := map (\<lambda>i. sat8 (mvm_column h w (v_xbar v) (v_in v) i)) [0..<w],
       v_in := replicate h 0, v_ic := 0, v_oc := 0\<rparr>"

definition spec_write :: "nat \<Rightarrow> int \<Rightarrow> int \<Rightarrow> i8 \<Rightarrow> aimc_view \<Rightarrow> aimc_view" where
  "spec_write w x y b v = v\<lparr>v_xbar := (v_xbar v)[nat (y * int w + x) := b]\<rparr>"

lemma view_ok_spec [intro, simp]:
  assumes "view_ok h w v"
  shows "view_ok h w (spec_queue h x v)" "view_ok h w (spec_dequeue v)"
    "view_ok h w (spec_process h w v)" "view_ok h w (spec_write w cx cy b v)"
  using assms
  by (auto simp: view_ok_def spec_queue_def spec_dequeue_def spec_process_def spec_write_def)

text \<open>
  The accumulator of a column is bounded by the number of rows times the largest product, so
  that the \<^verbatim>\<open>double\<close> accumulators of the implementations hold it exactly.
\<close>

lemma sint8_abs_le: "\<bar>sint (a :: 8 word)\<bar> \<le> 128"
  using sint8_range [of a] by linarith

lemma sint8_mult_bound: "\<bar>sint (a :: 8 word) * sint (b :: 8 word)\<bar> \<le> 16384"
proof -
  have "\<bar>sint a\<bar> * \<bar>sint b\<bar> \<le> 128 * (128 :: int)"
    using sint8_abs_le by (intro mult_mono) auto
  then show ?thesis by (simp add: abs_mult)
qed

lemma mvm_column_bound: "\<bar>mvm_column h w xb inp i\<bar> \<le> 16384 * int h"
proof -
  have "\<bar>mvm_column h w xb inp i\<bar> \<le> (\<Sum>j<h. \<bar>sint (inp ! j) * sint (xb ! (j * w + i))\<bar>)"
    unfolding mvm_column_def by (rule sum_abs)
  also have "\<dots> \<le> (\<Sum>j<h. 16384)"
    by (rule sum_mono) (rule sint8_mult_bound)
  finally show ?thesis by simp
qed

text \<open>Rows whose input is zero contribute nothing.\<close>

lemma mvm_column_prefix:
  assumes "n \<le> h" "\<And>j. n \<le> j \<Longrightarrow> j < h \<Longrightarrow> inp ! j = 0"
  shows "mvm_column h w xb inp i = (\<Sum>j<n. sint (inp ! j) * sint (xb ! (j * w + i)))"
proof -
  have "(\<Sum>j<n. sint (inp ! j) * sint (xb ! (j * w + i)))
          = (\<Sum>j<h. sint (inp ! j) * sint (xb ! (j * w + i)))"
    using assms by (intro sum.mono_neutral_left) auto
  then show ?thesis by (simp add: mvm_column_def)
qed

section \<open>The loops both implementations run\<close>

text \<open>The accumulation loop of one column reads inside both arrays and computes the column.\<close>

lemma mac_foldM:
  assumes "length xb = w * h" "length inp = h" "i < w"
  shows "foldM (\<lambda>j acc. bindR (arr_get inp (int j)) (\<lambda>a.
           bindR (arr_get xb (int j * int w + int i)) (\<lambda>b. Ok (acc + sint a * sint b)))) [0..<h] 0
         = Ok (mvm_column h w xb inp i)"
proof -
  have "foldM (\<lambda>j acc. bindR (arr_get inp (int j)) (\<lambda>a.
           bindR (arr_get xb (int j * int w + int i)) (\<lambda>b. Ok (acc + sint a * sint b)))) [0..<k] 0
         = Ok (mvm_column k w xb inp i)" if "k \<le> h" for k
    using that
  proof (induction k)
    case (Suc k)
    have "Suc k * w \<le> h * w" using Suc.prems by (rule mult_le_mono1)
    moreover have "k * w + i < Suc k * w" using assms(3) by simp
    ultimately have "k * w + i < w * h" unfolding mult.commute [of w h] by linarith
    then have "arr_get xb (int (k * w + i)) = Ok (xb ! (k * w + i))"
      using assms(1) by (intro arr_get_nat) simp
    then have "arr_get xb (int k * int w + int i) = Ok (xb ! (k * w + i))" by simp
    with Suc assms show ?case
      unfolding foldM_upt_Suc by (simp add: mvm_column_def)
  qed (simp add: mvm_column_def)
  then show ?thesis by simp
qed

text \<open>Writing a value computed for each index of an array, in order.\<close>

lemma foldM_write_all:
  assumes "length xs = n" "\<And>i. i < n \<Longrightarrow> g i = Ok (f i)"
  shows "foldM (\<lambda>i ys. bindR (g i) (\<lambda>a. arr_set ys (int i) (k a))) [0..<n] xs
         = Ok (map (\<lambda>i. k (f i)) [0..<n])"
proof -
  have "foldM (\<lambda>i ys. bindR (g i) (\<lambda>a. arr_set ys (int i) (k a))) [0..<m] xs
         = Ok (map (\<lambda>i. k (f i)) [0..<m] @ drop m xs)" if "m \<le> n" for m
    using that
  proof (induction m)
    case (Suc m)
    have "arr_set (map (\<lambda>i. k (f i)) [0..<m] @ drop m xs) (int m) (k (f m))
        = Ok (map (\<lambda>i. k (f i)) [0..<Suc m] @ drop (Suc m) xs)"
      using Suc.prems assms(1) by (simp add: list_update_append Cons_nth_drop_Suc [symmetric])
    with Suc assms(2) show ?case unfolding foldM_upt_Suc by simp
  qed simp
  from this [of n] assms(1) show ?thesis by simp
qed

text \<open>The four writes of a queue operation, and the four reads of a dequeue.\<close>

lemma overwrite_4:
  assumes "k + 4 \<le> length xs"
  shows "xs[k := a, k + 1 := b, k + 2 := c, k + 3 := d] = overwrite k [a, b, c, d] xs"
proof (rule nth_equalityI)
  fix i
  assume i: "i < length (xs[k := a, k + 1 := b, k + 2 := c, k + 3 := d])"
  consider "i < k" | "i = k" | "i = k + 1" | "i = k + 2" | "i = k + 3" | "k + 4 \<le> i"
    by linarith
  moreover have "Suc (Suc (Suc (Suc (i - Suc (Suc (Suc (Suc 0))))))) = i" if "k + 4 \<le> i"
    using that by linarith
  ultimately show "xs[k := a, k + 1 := b, k + 2 := c, k + 3 := d] ! i = overwrite k [a, b, c, d] xs ! i"
    by cases (use i assms in \<open>auto simp: overwrite_def nth_append nth_Cons' eval_nat_numeral\<close>)
qed (use assms in \<open>simp add: overwrite_def\<close>)

lemma upt_0_4: "[0..<4] = [0, 1, 2, 3 :: nat]"
  by (simp add: upt_rec)

lemma queue_foldM:
  assumes "idx + 4 \<le> length xs"
  shows "foldM (\<lambda>i ys. arr_set ys (int idx + int i) (f i)) [0..<4] xs
         = Ok (overwrite idx (map f [0..<4]) xs)"
proof -
  have "arr_set ys (int idx + int i) v = Ok (ys[idx + i := v])"
    if "i < 4" "length ys = length xs" for i v and ys :: "'a list"
    using that assms arr_set_nat [of "idx + i" ys v] by simp
  from this [of 0] this [of 1] this [of 2] this [of 3] show ?thesis
    using overwrite_4 [OF assms] by (simp add: upt_0_4)
qed

lemma dequeue_foldM:
  assumes "idx + 4 \<le> length xs"
  shows "foldM (\<lambda>i r. bindR (arr_get xs (int idx + int i)) (\<lambda>b.
           Ok (push_bit 8 r OR (0xff AND ucast b)))) [3, 2, 1, 0] 0
         = Ok (pack_bytes (take 4 (drop idx xs)))"
proof -
  have a: "arr_get xs (int idx + int i) = Ok (xs ! (idx + i))" if "i < 4" for i
    using that assms arr_get_nat [of "idx + i" xs] by simp
  have u: "0xff AND ucast b = (ucast b :: u32)" for b :: i8
    by (rule bit_word_eqI) (auto simp: bit_and_iff bit_ucast_iff dest: bit_imp_le_length)
  have "take 4 (drop idx xs) = map (\<lambda>i. xs ! (idx + i)) [0..<4]"
    using assms by (intro nth_equalityI) auto
  then have "take 4 (drop idx xs) = [xs ! idx, xs ! (idx + 1), xs ! (idx + 2), xs ! (idx + 3)]"
    by (simp add: upt_0_4)
  then show ?thesis
    using a [of 0] a [of 1] a [of 2] a [of 3] by (simp add: u or.commute)
qed

end
