(* ===== verification/Aimc_Lib.thy ===== *)
theory Aimc_Lib
  imports Aimc_Spec
begin

text \<open>
  AIMClib, the header-only library an application links: \<^verbatim>\<open>aimc_queue.hh\<close>,
  \<^verbatim>\<open>aimc_dequeue.hh\<close>, \<^verbatim>\<open>aimc_tile.hh\<close> and the inference loop of
  \<^verbatim>\<open>example.cc\<close>. The intrinsics they call are chosen when the application is compiled
  (\<^verbatim>\<open>aimc.hh\<close>: the checker or the inline assembly), so each definition takes the
  intrinsics it calls as arguments. The locale \<open>aimc_device\<close> is the contract of those
  intrinsics over the abstract tile; the library is proved correct once, inside it.
  A pointer parameter is an \<open>option\<close> (\<open>None\<close> is null), an array a list.
\<close>

section \<open>aimc_queue.hh\<close>

type_synonym 's queue_fn = "u64 \<Rightarrow> int \<Rightarrow> 's \<Rightarrow> 's result"
type_synonym 's dequeue_fn = "int \<Rightarrow> 's \<Rightarrow> ('s \<times> u64) result"
type_synonym 's process_fn = "int \<Rightarrow> 's \<Rightarrow> 's result"
type_synonym 's write_fn = "u64 \<Rightarrow> u64 \<Rightarrow> u64 \<Rightarrow> int \<Rightarrow> 's \<Rightarrow> 's result"

text \<open>The packing step of one loop iteration: \<^verbatim>\<open>tmp |= (uint8_t(v[i]) & 0xff) << (8 * (i % 4))\<close>.\<close>

definition pack_step :: "nat \<Rightarrow> i8 \<Rightarrow> u32 \<Rightarrow> u32" where
  "pack_step i b tmp = tmp OR push_bit (8 * (i mod 4)) (ucast b AND 0xff)"

definition queue_body :: "'s queue_fn \<Rightarrow> (nat \<Rightarrow> i8 result) \<Rightarrow> int \<Rightarrow> nat \<Rightarrow> u32 \<times> 's \<Rightarrow> (u32 \<times> 's) result"
where
  "queue_body aimcQueue elem tid i ts =
     bindR (if i mod 4 = 0 \<and> i > 0
            then bindR (aimcQueue (ucast (fst ts)) tid (snd ts)) (\<lambda>s. Ok (0, s))
            else Ok ts)
       (\<lambda>ts. bindR (elem i) (\<lambda>b. Ok (pack_step i b (fst ts), snd ts)))"

text \<open>
  The build option \<^verbatim>\<open>LOOSELY_COUPLED_MMIO\<close> is the argument \<open>loose\<close>: one queue operation
  per element, the element sign-extended to 64 bits, always on tile 0.
\<close>

definition queue_elems :: "bool \<Rightarrow> 's queue_fn \<Rightarrow> nat \<Rightarrow> (nat \<Rightarrow> i8 result) \<Rightarrow> int \<Rightarrow> 's \<Rightarrow> 's result"
where
  "queue_elems loose aimcQueue n elem tid s =
     (if loose
      then foldM (\<lambda>i s. bindR (elem i) (\<lambda>b. aimcQueue (scast b) 0 s)) [0..<n] s
      else bindR (foldM (queue_body aimcQueue elem tid) [0..<n] (0, s))
             (\<lambda>ts. aimcQueue (ucast (fst ts)) tid (snd ts)))"

definition queueVector :: "bool \<Rightarrow> 's queue_fn \<Rightarrow> int \<Rightarrow> i8 list option \<Rightarrow> int \<Rightarrow> 's \<Rightarrow> 's result"
where
  "queueVector loose aimcQueue sz v tid s =
     (case v of None \<Rightarrow> Ok s
      | Some xs \<Rightarrow>
          if sz \<le> 0 then Ok s
          else queue_elems loose aimcQueue (nat sz) (\<lambda>i. arr_get xs (int i)) tid s)"

text \<open>
  The template overload at the element type \<^verbatim>\<open>int\<close>: \<^verbatim>\<open>(v[i] / max) * 127\<close> with C++ division
  (towards zero), which must fit an \<^verbatim>\<open>int\<close>, then the conversion to \<^verbatim>\<open>int8_t\<close>.
\<close>

definition cdiv :: "int \<Rightarrow> int \<Rightarrow> int" where
  "cdiv a b = sgn a * sgn b * (\<bar>a\<bar> div \<bar>b\<bar>)"

definition scale_int :: "int \<Rightarrow> int \<Rightarrow> i8 result" where
  "scale_int mx x =
     bindR (intR (cdiv x mx)) (\<lambda>q. bindR (intR (q * 127)) (\<lambda>y. Ok (word_of_int y)))"

definition queueVector_int ::
  "bool \<Rightarrow> 's queue_fn \<Rightarrow> int \<Rightarrow> int \<Rightarrow> int list option \<Rightarrow> int \<Rightarrow> 's \<Rightarrow> 's result" where
  "queueVector_int loose aimcQueue sz mx v tid s =
     (case v of None \<Rightarrow> Ok s
      | Some xs \<Rightarrow>
          if sz \<le> 0 \<or> mx = 0 then Ok s
          else queue_elems loose aimcQueue (nat sz)
                 (\<lambda>i. bindR (arr_get xs (int i)) (scale_int mx)) tid s)"

section \<open>aimc_dequeue.hh\<close>

text \<open>
  The loop state is the device, the word being unpacked and the caller's array; \<open>conv\<close> is
  what the overload makes of one dequeued byte (\<open>tmp & 0xff\<close>) or word.
\<close>

definition dequeue_body ::
  "'s dequeue_fn \<Rightarrow> (u32 \<Rightarrow> 'a result) \<Rightarrow> int \<Rightarrow> nat \<Rightarrow> 's \<times> u32 \<times> 'a list \<Rightarrow> ('s \<times> u32 \<times> 'a list) result"
where
  "dequeue_body aimcDequeue conv tid i st = (case st of (s, tmp, v) \<Rightarrow>
     bindR (if i mod 4 = 0
            then bindR (aimcDequeue tid s) (\<lambda>(s, x). Ok (s, ucast x))
            else Ok (s, tmp))
       (\<lambda>(s, tmp). bindR (conv (tmp AND 0xff)) (\<lambda>y. bindR (arr_set v (int i) y)
          (\<lambda>v. Ok (s, drop_bit 8 tmp, v)))))"

definition dequeue_elems ::
  "bool \<Rightarrow> 's dequeue_fn \<Rightarrow> (u64 \<Rightarrow> 'a result) \<Rightarrow> (u32 \<Rightarrow> 'a result) \<Rightarrow> nat \<Rightarrow> int \<Rightarrow> 's \<Rightarrow> 'a list \<Rightarrow>
     ('s \<times> 'a list) result"
where
  "dequeue_elems loose aimcDequeue conv64 conv8 n tid s v =
     (if loose
      then foldM (\<lambda>i (s, v). bindR (aimcDequeue tid s)
             (\<lambda>(s, x). bindR (conv64 x) (\<lambda>y. bindR (arr_set v (int i) y) (\<lambda>v. Ok (s, v))))) [0..<n] (s, v)
      else bindR (foldM (dequeue_body aimcDequeue conv8 tid) [0..<n] (s, 0, v))
             (\<lambda>(s, tmp, v). Ok (s, v)))"

definition dequeueVector ::
  "bool \<Rightarrow> 's dequeue_fn \<Rightarrow> int \<Rightarrow> i8 list option \<Rightarrow> int \<Rightarrow> 's \<Rightarrow> ('s \<times> i8 list option) result" where
  "dequeueVector loose aimcDequeue sz v tid s =
     (case v of None \<Rightarrow> Ok (s, None)
      | Some xs \<Rightarrow>
          if sz \<le> 0 then Ok (s, Some xs)
          else bindR (dequeue_elems loose aimcDequeue (\<lambda>x. Ok (ucast x)) (\<lambda>x. Ok (ucast x)) (nat sz) tid s xs)
                 (\<lambda>(s, ys). Ok (s, Some ys)))"

text \<open>
  The template overload at \<^verbatim>\<open>int\<close>: \<^verbatim>\<open>(static_cast<T>(tmp & 0xff) / 127) * max\<close>; the byte
  is converted unsigned. In the loosely coupled build the 64-bit word is converted instead.
\<close>

definition rescale_int :: "int \<Rightarrow> int \<Rightarrow> int result" where
  "rescale_int mx x = intR (cdiv x 127 * mx)"

definition dequeueVector_int ::
  "bool \<Rightarrow> 's dequeue_fn \<Rightarrow> int \<Rightarrow> int \<Rightarrow> int list option \<Rightarrow> int \<Rightarrow> 's \<Rightarrow> ('s \<times> int list option) result"
where
  "dequeueVector_int loose aimcDequeue sz mx v tid s =
     (case v of None \<Rightarrow> Ok (s, None)
      | Some xs \<Rightarrow>
          if sz \<le> 0 \<or> mx = 0 then Ok (s, Some xs)
          else bindR (dequeue_elems loose aimcDequeue
                        (\<lambda>x. rescale_int mx (sint (ucast x :: 32 word)))
                        (\<lambda>x. rescale_int mx (uint x)) (nat sz) tid s xs)
                 (\<lambda>(s, ys). Ok (s, Some ys)))"

section \<open>aimc_tile.hh\<close>

text \<open>
  Each overload runs the columns \<open>i\<close> outside and the rows \<open>j\<close> inside, and writes through
  \<^verbatim>\<open>aimcParamWrite\<close> with its default tile 0. \<open>elem i j\<close> is the element read, \<open>Ok None\<close>
  where the overload skips a null row.
\<close>

definition mapMatrix_loop ::
  "'s write_fn \<Rightarrow> int \<Rightarrow> int \<Rightarrow> nat \<Rightarrow> nat \<Rightarrow> (nat \<Rightarrow> nat \<Rightarrow> i8 option result) \<Rightarrow> 's \<Rightarrow> 's result" where
  "mapMatrix_loop aimcParamWrite aimc_x aimc_y height width elem s =
     foldM (\<lambda>i s. foldM (\<lambda>j s.
         bindR (elem i j) (\<lambda>m. case m of
             None \<Rightarrow> Ok s
           | Some b \<Rightarrow> bindR (intR (int i + aimc_x)) (\<lambda>x. bindR (intR (int j + aimc_y)) (\<lambda>y.
               aimcParamWrite (word_of_int x) (word_of_int y) (scast b) 0 s))))
       [0..<height] s) [0..<width] s"

definition mapMatrix_rows ::
  "'s write_fn \<Rightarrow> int \<Rightarrow> int \<Rightarrow> int \<Rightarrow> int \<Rightarrow> i8 list option list option \<Rightarrow> 's \<Rightarrow> 's result" where
  "mapMatrix_rows aimcParamWrite aimc_x aimc_y height width m s =
     (case m of None \<Rightarrow> Ok s
      | Some rows \<Rightarrow>
          if height \<le> 0 \<or> width \<le> 0 then Ok s
          else mapMatrix_loop aimcParamWrite aimc_x aimc_y (nat height) (nat width)
                 (\<lambda>i j. bindR (arr_get rows (int j)) (\<lambda>r. case r of
                      None \<Rightarrow> Ok None
                    | Some xs \<Rightarrow> bindR (arr_get xs (int i)) (\<lambda>b. Ok (Some b)))) s)"

definition mapMatrix_rows_int ::
  "'s write_fn \<Rightarrow> int \<Rightarrow> int \<Rightarrow> int \<Rightarrow> int \<Rightarrow> int \<Rightarrow> int list option list option \<Rightarrow> 's \<Rightarrow> 's result" where
  "mapMatrix_rows_int aimcParamWrite aimc_x aimc_y height width mx m s =
     (case m of None \<Rightarrow> Ok s
      | Some rows \<Rightarrow>
          if height \<le> 0 \<or> width \<le> 0 \<or> mx = 0 then Ok s
          else mapMatrix_loop aimcParamWrite aimc_x aimc_y (nat height) (nat width)
                 (\<lambda>i j. bindR (arr_get rows (int j)) (\<lambda>r. case r of
                      None \<Rightarrow> Ok None
                    | Some xs \<Rightarrow> bindR (arr_get xs (int i)) (\<lambda>x.
                        bindR (scale_int mx x) (\<lambda>b. Ok (Some b))))) s)"

text \<open>The flattened overloads read \<^verbatim>\<open>m[i * width + j]\<close>.\<close>

definition mapMatrix_flat ::
  "'s write_fn \<Rightarrow> int \<Rightarrow> int \<Rightarrow> int \<Rightarrow> int \<Rightarrow> i8 list option \<Rightarrow> 's \<Rightarrow> 's result" where
  "mapMatrix_flat aimcParamWrite aimc_x aimc_y height width m s =
     (case m of None \<Rightarrow> Ok s
      | Some xs \<Rightarrow>
          if height \<le> 0 \<or> width \<le> 0 then Ok s
          else mapMatrix_loop aimcParamWrite aimc_x aimc_y (nat height) (nat width)
                 (\<lambda>i j. bindR (intR (int i * width + int j)) (\<lambda>k.
                    bindR (arr_get xs k) (\<lambda>b. Ok (Some b)))) s)"

definition mapMatrix_flat_int ::
  "'s write_fn \<Rightarrow> int \<Rightarrow> int \<Rightarrow> int \<Rightarrow> int \<Rightarrow> int \<Rightarrow> int list option \<Rightarrow> 's \<Rightarrow> 's result" where
  "mapMatrix_flat_int aimcParamWrite aimc_x aimc_y height width mx m s =
     (case m of None \<Rightarrow> Ok s
      | Some xs \<Rightarrow>
          if height \<le> 0 \<or> width \<le> 0 \<or> mx = 0 then Ok s
          else mapMatrix_loop aimcParamWrite aimc_x aimc_y (nat height) (nat width)
                 (\<lambda>i j. bindR (intR (int i * width + int j)) (\<lambda>k. bindR (arr_get xs k) (\<lambda>x.
                    bindR (scale_int mx x) (\<lambda>b. Ok (Some b))))) s)"

section \<open>example.cc\<close>

text \<open>
  The program: map the weights, then for each input vector queue it, run the product and
  dequeue into the corresponding output array. The random inputs and the initial contents of
  the output arrays are arguments.
\<close>

definition infer_one ::
  "'s queue_fn \<Rightarrow> 's process_fn \<Rightarrow> 's dequeue_fn \<Rightarrow> int \<Rightarrow> i8 list \<times> i8 list \<Rightarrow> 's \<times> i8 list list \<Rightarrow>
     ('s \<times> i8 list list) result" where
  "infer_one aimcQueue aimcProcess aimcDequeue n_x io st = (case st of (s, outs) \<Rightarrow>
     bindR (queueVector False aimcQueue n_x (Some (fst io)) 0 s) (\<lambda>s.
     bindR (aimcProcess 0 s) (\<lambda>s.
     bindR (dequeueVector False aimcDequeue n_x (Some (snd io)) 0 s) (\<lambda>(s, out).
       Ok (s, outs @ [case out of None \<Rightarrow> snd io | Some ys \<Rightarrow> ys])))))"

definition example_main ::
  "'s write_fn \<Rightarrow> 's queue_fn \<Rightarrow> 's process_fn \<Rightarrow> 's dequeue_fn \<Rightarrow> int \<Rightarrow> i8 list \<Rightarrow>
     (i8 list \<times> i8 list) list \<Rightarrow> 's \<Rightarrow> ('s \<times> i8 list list) result" where
  "example_main aimcParamWrite aimcQueue aimcProcess aimcDequeue n_x W1 ios s =
     bindR (mapMatrix_flat aimcParamWrite 0 0 n_x n_x (Some W1) s) (\<lambda>s.
       foldM (infer_one aimcQueue aimcProcess aimcDequeue n_x) ios (s, []))"

end
