(* ===== verification/Aimc_Device.thy ===== *)
theory Aimc_Device
  imports Aimc_Lib
begin

text \<open>
  The contract of the AIMC intrinsics, as the locale \<open>aimc_device\<close>: each intrinsic, on a
  valid tile of a well-formed device, succeeds and acts on that tile as the abstract tile of
  \<open>Aimc_Spec\<close> does, leaving the others alone. Inside the locale AIMClib is proved to
  implement a matrix-vector product with saturation. The theories of the two devices
  interpret the locale.
\<close>

section \<open>Updates of a matrix at many positions\<close>

lemma length_fold_updates [simp]:
  "length (fold (\<lambda>a xs. xs[pos a := val a]) as xs) = length xs"
  by (induction as arbitrary: xs) auto

lemma fold_updates_other:
  "p \<notin> pos ` set as \<Longrightarrow> fold (\<lambda>a xs. xs[pos a := val a]) as xs ! p = xs ! p"
  by (induction as arbitrary: xs) auto

lemma fold_updates_at:
  assumes "a \<in> set as" "pos a < length xs" "inj_on pos (set as)"
  shows "fold (\<lambda>a xs. xs[pos a := val a]) as xs ! pos a = val a"
  using assms
proof (induction as arbitrary: xs)
  case (Cons b as)
  show ?case
  proof (cases "a \<in> set as")
    case True
    with Cons show ?thesis by auto
  next
    case False
    with Cons.prems have "a = b" by simp
    with False Cons.prems have "pos a \<notin> pos ` set as" by (auto simp: inj_on_def)
    with Cons.prems \<open>a = b\<close> show ?thesis by (simp add: fold_updates_other)
  qed
qed simp

section \<open>Chunks of a vector\<close>

definition vec_prefix :: "nat \<Rightarrow> nat \<Rightarrow> i8 list \<Rightarrow> i8 list" where
  "vec_prefix h k v = take k v @ replicate (h - k) 0"

lemma overwrite_chunk:
  assumes "4 * m < k" "k \<le> 4 * m + 4" "k \<le> length v" "4 * m + 4 \<le> h"
  shows "overwrite (4 * m) (map (word_byte (pack_bytes (drop (4 * m) (take k v)))) [0..<4])
           (vec_prefix h (4 * m) v) = vec_prefix h k v"
proof -
  let ?bs = "drop (4 * m) (take k v)"
  have l: "length ?bs = k - 4 * m" using assms by simp
  have "map (word_byte (pack_bytes ?bs)) [0..<4] = ?bs @ replicate (4 - length ?bs) 0"
    using assms l by (intro nth_equalityI) (auto simp: nth_append word_byte_pack)
  moreover have "drop (4 * m + 4) (vec_prefix h (4 * m) v) = replicate (h - 4 * m - 4) 0"
    using assms by (simp add: vec_prefix_def)
  moreover have "take (4 * m) (vec_prefix h (4 * m) v) = take (4 * m) v"
    using assms by (simp add: vec_prefix_def)
  moreover have "take (4 * m) v @ ?bs = take k v"
    using append_take_drop_id [of "4 * m" "take k v"] assms(1) by (simp add: min_def)
  moreover have "4 - (k - 4 * m) + (h - 4 * m - 4) = h - k" using assms by linarith
  ultimately have "overwrite (4 * m) (map (word_byte (pack_bytes ?bs)) [0..<4]) (vec_prefix h (4 * m) v)
      = (take (4 * m) v @ ?bs) @ (replicate (4 - (k - 4 * m)) 0 @ replicate (h - 4 * m - 4) 0)"
    using l assms by (simp add: overwrite_def)
  also have "\<dots> = vec_prefix h k v"
    unfolding replicate_add [symmetric]
      \<open>take (4 * m) v @ ?bs = take k v\<close> \<open>4 - (k - 4 * m) + (h - 4 * m - 4) = h - k\<close>
    by (simp add: vec_prefix_def)
  finally show ?thesis .
qed

lemma pack_step_snoc:
  assumes "k < length v"
  shows "pack_step k (v ! k) (pack_bytes (drop (4 * (k div 4)) (take k v)))
           = pack_bytes (drop (4 * (k div 4)) (take (Suc k) v))"
proof -
  let ?bs = "drop (4 * (k div 4)) (take k v)"
  have "4 * (k div 4) \<le> k" "k - 4 * (k div 4) = k mod 4"
    by (auto simp: minus_mult_div_eq_mod)
  then have "length ?bs = k mod 4" using assms by simp
  moreover have "drop (4 * (k div 4)) (take (Suc k) v) = ?bs @ [v ! k]"
    using assms \<open>4 * (k div 4) \<le> k\<close> by (simp add: take_Suc_conv_app_nth)
  moreover have "(ucast (v ! k) AND 0xff :: u32) = ucast (v ! k)"
    by (rule bit_word_eqI) (auto simp: bit_and_iff bit_ucast_iff bit_0xff dest: bit_imp_le_length)
  ultimately show ?thesis by (simp add: pack_step_def pack_bytes_snoc)
qed

section \<open>The contract\<close>

definition tile_becomes ::
  "('s \<Rightarrow> bool) \<Rightarrow> ('s \<Rightarrow> int \<Rightarrow> bool) \<Rightarrow> ('s \<Rightarrow> int \<Rightarrow> aimc_view) \<Rightarrow> 's \<Rightarrow> int \<Rightarrow> aimc_view \<Rightarrow> 's \<Rightarrow> bool" where
  "tile_becomes ok valid view s t v s' \<longleftrightarrow>
     ok s' \<and> valid s' = valid s \<and> view s' = (view s)(t := v)"

lemma tile_becomes_trans:
  "tile_becomes ok valid view s t v s' \<Longrightarrow> tile_becomes ok valid view s' t v' s'' \<Longrightarrow>
     tile_becomes ok valid view s t v' s''"
  by (simp add: tile_becomes_def)

lemma tile_becomes_refl: "ok s \<Longrightarrow> tile_becomes ok valid view s t (view s t) s"
  by (simp add: tile_becomes_def)

locale aimc_device =
  fixes h w :: nat
    and aimcQueue :: "'s queue_fn"
    and aimcDequeue :: "'s dequeue_fn"
    and aimcProcess :: "'s process_fn"
    and aimcParamWrite :: "'s write_fn"
    and ok :: "'s \<Rightarrow> bool"
    and valid :: "'s \<Rightarrow> int \<Rightarrow> bool"
    and view :: "'s \<Rightarrow> int \<Rightarrow> aimc_view"
  assumes dims: "h < 2 ^ 31" "w < 2 ^ 31" "w * h < 2 ^ 31"
    and view_wf: "ok s \<Longrightarrow> valid s t \<Longrightarrow> view_ok h w (view s t)"
    and queue_refines: "ok s \<Longrightarrow> valid s t \<Longrightarrow> v_ic (view s t) + 4 < 2 ^ 31 \<Longrightarrow>
      \<exists>s'. aimcQueue x t s = Ok s' \<and>
           tile_becomes ok valid view s t (spec_queue h (ucast x) (view s t)) s'"
    and dequeue_refines: "ok s \<Longrightarrow> valid s t \<Longrightarrow> v_oc (view s t) + 4 < 2 ^ 31 \<Longrightarrow>
      \<exists>s'. aimcDequeue t s = Ok (s', ucast (spec_dequeue_value w (view s t))) \<and>
           tile_becomes ok valid view s t (spec_dequeue (view s t)) s'"
    and process_refines: "ok s \<Longrightarrow> valid s t \<Longrightarrow>
      \<exists>s'. aimcProcess t s = Ok s' \<and>
           tile_becomes ok valid view s t (spec_process h w (view s t)) s'"
    and write_refines: "ok s \<Longrightarrow> valid s t \<Longrightarrow> px < w \<Longrightarrow> py < h \<Longrightarrow>
      \<exists>s'. aimcParamWrite (word_of_int (int px)) (word_of_int (int py)) (scast b) t s = Ok s' \<and>
           tile_becomes ok valid view s t (spec_write w (int px) (int py) b (view s t)) s'"
begin

subsection \<open>Queueing a vector\<close>

lemma queue_chunk:
  assumes "ok s'" "valid s' t" "view s' t = V\<lparr>v_in := vec_prefix h (4 * m) v, v_ic := 4 * m\<rparr>"
    and "4 * m < k" "k \<le> 4 * m + 4" "k \<le> length v" "4 * m + 4 < h"
  shows "\<exists>s''. aimcQueue (ucast (pack_bytes (drop (4 * m) (take k v)))) t s' = Ok s'' \<and>
           tile_becomes ok valid view s' t
             (V\<lparr>v_in := vec_prefix h k v, v_ic := 4 * m + 4\<rparr>) s''"
proof -
  let ?x = "ucast (pack_bytes (drop (4 * m) (take k v))) :: u64"
  obtain s'' where s'': "aimcQueue ?x t s' = Ok s''"
    "tile_becomes ok valid view s' t (spec_queue h (ucast ?x) (view s' t)) s''"
    using queue_refines [OF assms(1,2), of ?x] assms(3,7) dims(1) by auto
  have "ucast ?x = pack_bytes (drop (4 * m) (take k v))"
    by (rule bit_word_eqI) (auto simp: bit_ucast_iff dest: bit_imp_le_length)
  then have "spec_queue h (ucast ?x) (view s' t) = V\<lparr>v_in := vec_prefix h k v, v_ic := 4 * m + 4\<rparr>"
    using assms(3-7) overwrite_chunk [of m k v h] by (simp add: spec_queue_def)
  with s'' show ?thesis by auto
qed

lemma queue_loop:
  assumes "ok s" "valid s t" "v_in (view s t) = replicate h 0" "v_ic (view s t) = 0"
    and "k < length v" "4 * (k div 4) < h"
  shows "\<exists>s'. foldM (queue_body aimcQueue (\<lambda>i. arr_get v (int i)) t) [0..<Suc k] (0, s)
           = Ok (pack_bytes (drop (4 * (k div 4)) (take (Suc k) v)), s') \<and>
         tile_becomes ok valid view s t
           ((view s t)\<lparr>v_in := vec_prefix h (4 * (k div 4)) v, v_ic := 4 * (k div 4)\<rparr>) s'"
  using assms(5,6)
proof (induction k)
  case 0
  have "tile_becomes ok valid view s t
          ((view s t)\<lparr>v_in := vec_prefix h 0 v, v_ic := 0\<rparr>) s"
    using assms(1,3,4) by (simp add: tile_becomes_def vec_prefix_def fun_eq_iff)
  with 0 pack_step_snoc [of 0 v] show ?case by (simp add: queue_body_def)
next
  case (Suc k)
  let ?m = "k div 4"
  have "?m \<le> Suc k div 4" by (rule div_le_mono) simp
  with Suc.prems have "4 * ?m < h" by linarith
  with Suc obtain s' where IH: "foldM (queue_body aimcQueue (\<lambda>i. arr_get v (int i)) t) [0..<Suc k] (0, s)
           = Ok (pack_bytes (drop (4 * ?m) (take (Suc k) v)), s')"
    "tile_becomes ok valid view s t ((view s t)\<lparr>v_in := vec_prefix h (4 * ?m) v, v_ic := 4 * ?m\<rparr>) s'"
    by auto
  show ?case
  proof (cases "Suc k mod 4 = 0")
    case True
    then have km: "Suc k = 4 * ?m + 4" "Suc k div 4 = Suc ?m" by presburger+
    then have e: "4 * (Suc k div 4) = Suc k" by linarith
    from IH(2) assms(1,2) have "ok s'" "valid s' t"
      "view s' t = (view s t)\<lparr>v_in := vec_prefix h (4 * ?m) v, v_ic := 4 * ?m\<rparr>"
      by (auto simp: tile_becomes_def)
    from queue_chunk [OF this, of "Suc k"] km Suc.prems obtain s'' where
      s'': "aimcQueue (ucast (pack_bytes (drop (4 * ?m) (take (Suc k) v)))) t s' = Ok s''"
      "tile_becomes ok valid view s' t
         ((view s t)\<lparr>v_in := vec_prefix h (Suc k) v, v_ic := 4 * ?m + 4\<rparr>) s''"
      by auto
    have "pack_step (Suc k) (v ! Suc k) 0 = pack_bytes (drop (4 * (Suc k div 4)) (take (Suc (Suc k)) v))"
      using pack_step_snoc [of "Suc k" v] Suc.prems unfolding km(2) by (simp add: km(1) [symmetric])
    then have "queue_body aimcQueue (\<lambda>i. arr_get v (int i)) t (Suc k)
        (pack_bytes (drop (4 * ?m) (take (Suc k) v)), s')
      = Ok (pack_bytes (drop (4 * (Suc k div 4)) (take (Suc (Suc k)) v)), s'')"
      using s''(1) True Suc.prems(1) arr_get_nat [OF Suc.prems(1)] by (simp add: queue_body_def)
    moreover have "tile_becomes ok valid view s t
        ((view s t)\<lparr>v_in := vec_prefix h (4 * (Suc k div 4)) v, v_ic := 4 * (Suc k div 4)\<rparr>) s''"
      using tile_becomes_trans [OF IH(2) s''(2)] e by (simp only: km(1) [symmetric] e)
    ultimately show ?thesis unfolding foldM_upt_Suc [of _ "Suc k"] IH(1) by simp
  next
    case False
    then have m: "Suc k div 4 = ?m" by presburger
    have "queue_body aimcQueue (\<lambda>i. arr_get v (int i)) t (Suc k)
        (pack_bytes (drop (4 * ?m) (take (Suc k) v)), s')
      = Ok (pack_bytes (drop (4 * (Suc k div 4)) (take (Suc (Suc k)) v)), s')"
      using False pack_step_snoc [OF Suc.prems(1)] arr_get_nat [OF Suc.prems(1)]
      by (simp add: queue_body_def m)
    then show ?thesis unfolding foldM_upt_Suc [of _ "Suc k"] IH(1) using IH(2) m by simp
  qed
qed

lemma queueVector_correct:
  assumes "ok s" "valid s t" "v_in (view s t) = replicate h 0" "v_ic (view s t) = 0"
    and "0 < n" "n \<le> length v" "4 * ((n + 3) div 4) < h"
  shows "\<exists>s'. queueVector False aimcQueue (int n) (Some v) t s = Ok s' \<and>
         tile_becomes ok valid view s t
           ((view s t)\<lparr>v_in := vec_prefix h n v, v_ic := 4 * ((n + 3) div 4)\<rparr>) s'"
proof -
  obtain k where n: "n = Suc k" using assms(5) by (cases n) auto
  have m: "4 * (k div 4) + 4 = 4 * ((n + 3) div 4)" "4 * (k div 4) < n" "n \<le> 4 * (k div 4) + 4"
    using n by presburger+
  have "k < length v" "4 * (k div 4) < h" using assms(6,7) n m by linarith+
  from queue_loop [OF assms(1-4) this] obtain s' where loop:
    "foldM (queue_body aimcQueue (\<lambda>i. arr_get v (int i)) t) [0..<n] (0, s)
           = Ok (pack_bytes (drop (4 * (k div 4)) (take n v)), s')"
    "tile_becomes ok valid view s t
       ((view s t)\<lparr>v_in := vec_prefix h (4 * (k div 4)) v, v_ic := 4 * (k div 4)\<rparr>) s'"
    unfolding n by blast
  then have "ok s'" "valid s' t"
    "view s' t = (view s t)\<lparr>v_in := vec_prefix h (4 * (k div 4)) v, v_ic := 4 * (k div 4)\<rparr>"
    using assms(1,2) by (auto simp: tile_becomes_def)
  from queue_chunk [OF this m(2,3) assms(6)] m assms(7) obtain s'' where
    s'': "aimcQueue (ucast (pack_bytes (drop (4 * (k div 4)) (take n v)))) t s' = Ok s''"
    "tile_becomes ok valid view s' t
       ((view s t)\<lparr>v_in := vec_prefix h n v, v_ic := 4 * ((n + 3) div 4)\<rparr>) s''"
    by auto
  from loop(1) s'' tile_becomes_trans [OF loop(2) s''(2)] show ?thesis
    using assms(5) by (auto simp: queueVector_def queue_elems_def)
qed

end

section \<open>Dequeueing a vector\<close>

text \<open>The word left to unpack before element \<open>k\<close>.\<close>

definition chunk_word :: "i8 list \<Rightarrow> nat \<Rightarrow> u32" where
  "chunk_word out k = drop_bit (8 * (k mod 4)) (pack_bytes (take 4 (drop (4 * (k div 4)) out)))"

lemma chunk_word_byte:
  assumes "4 * (k div 4) + 4 \<le> length out"
  shows "ucast (chunk_word out k AND 0xff) = out ! k"
proof -
  let ?bs = "take 4 (drop (4 * (k div 4)) out)"
  have "ucast (chunk_word out k AND 0xff) = word_byte (pack_bytes ?bs) (k mod 4)"
    by (simp add: chunk_word_def word_byte_def)
  also have "\<dots> = ?bs ! (k mod 4)" using assms by (simp add: word_byte_pack)
  also have "\<dots> = out ! k" using assms by (simp add: nth_drop)
  finally show ?thesis .
qed

lemma chunk_word_Suc: "Suc k mod 4 \<noteq> 0 \<Longrightarrow> drop_bit 8 (chunk_word out k) = chunk_word out (Suc k)"
proof -
  assume "Suc k mod 4 \<noteq> 0"
  then have "Suc k div 4 = k div 4" "Suc k mod 4 = Suc (k mod 4)" by presburger+
  then show ?thesis by (simp add: chunk_word_def drop_bit_drop_bit)
qed

context aimc_device
begin

lemma dequeue_loop:
  assumes "ok s" "valid s t" "v_oc (view s t) = 0" "length out = w" "v_out (view s t) = out"
    and "k \<le> length xs" "4 * ((k + 3) div 4) < w"
  shows "\<exists>s' tmp. foldM (dequeue_body aimcDequeue (\<lambda>x. Ok (ucast x)) t) [0..<k] (s, 0, xs)
           = Ok (s', tmp, take k out @ drop k xs) \<and>
         (k mod 4 \<noteq> 0 \<longrightarrow> tmp = chunk_word out k) \<and>
         tile_becomes ok valid view s t ((view s t)\<lparr>v_oc := 4 * ((k + 3) div 4)\<rparr>) s'"
  using assms(6,7)
proof (induction k)
  case 0
  have "(view s t)\<lparr>v_oc := 0\<rparr> = view s t" using assms(3) by simp
  then show ?case using tile_becomes_refl [of ok s valid view t] assms(1) by simp
next
  case (Suc k)
  have "(k + 3) div 4 \<le> (Suc k + 3) div 4" by (rule div_le_mono) simp
  with Suc obtain s' tmp where IH: "foldM (dequeue_body aimcDequeue (\<lambda>x. Ok (ucast x)) t) [0..<k] (s, 0, xs)
           = Ok (s', tmp, take k out @ drop k xs)" "k mod 4 \<noteq> 0 \<longrightarrow> tmp = chunk_word out k"
    "tile_becomes ok valid view s t ((view s t)\<lparr>v_oc := 4 * ((k + 3) div 4)\<rparr>) s'"
    by auto
  have e: "(Suc k + 3) div 4 = k div 4 + 1" by presburger
  then have kw: "4 * (k div 4) + 4 < w" "4 * ((Suc k + 3) div 4) = 4 * (k div 4) + 4"
    using Suc.prems(2) by linarith+
  moreover have "k < 4 * (k div 4) + 4" by presburger
  ultimately have "k < w" by linarith
  have upd: "arr_set (take k out @ drop k xs) (int k) (ucast (chunk_word out k AND 0xff))
      = Ok (take (Suc k) out @ drop (Suc k) xs)"
  proof -
    have "(take k out @ drop k xs)[k := out ! k] = take (Suc k) out @ drop (Suc k) xs"
      using Suc.prems assms(4) \<open>k < w\<close>
      by (simp add: list_update_append take_Suc_conv_app_nth Cons_nth_drop_Suc [symmetric])
    then show ?thesis
      using Suc.prems assms(4) \<open>k < w\<close> kw chunk_word_byte [of k out] by simp
  qed
  have "\<exists>s''. (if k mod 4 = 0 then bindR (aimcDequeue t s') (\<lambda>(s, x). Ok (s, ucast x))
               else Ok (s', tmp)) = Ok (s'', chunk_word out k) \<and>
         tile_becomes ok valid view s t ((view s t)\<lparr>v_oc := 4 * (k div 4) + 4\<rparr>) s''"
  proof (cases "k mod 4 = 0")
    case True
    from IH(3) assms(1,2) have v: "ok s'" "valid s' t"
      "view s' t = (view s t)\<lparr>v_oc := 4 * ((k + 3) div 4)\<rparr>"
      by (auto simp: tile_becomes_def)
    have k4: "(k + 3) div 4 = k div 4" using True by presburger
    have "v_oc (view s' t) + 4 < 2 ^ 31" using v(3) k4 kw(1) dims(2) by simp
    then obtain s'' where s'': "aimcDequeue t s' = Ok (s'', ucast (spec_dequeue_value w (view s' t)))"
      "tile_becomes ok valid view s' t (spec_dequeue (view s' t)) s''"
      using dequeue_refines [OF v(1,2)] by blast
    have "spec_dequeue_value w (view s' t) = chunk_word out k"
      using v(3) kw True assms(5) by (simp add: spec_dequeue_value_def chunk_word_def k4)
    moreover have "spec_dequeue (view s' t) = (view s t)\<lparr>v_oc := 4 * (k div 4) + 4\<rparr>"
      using v(3) by (simp add: spec_dequeue_def k4)
    moreover have "ucast (ucast (chunk_word out k) :: u64) = chunk_word out k"
      by (rule bit_word_eqI) (auto simp: bit_ucast_iff dest: bit_imp_le_length)
    ultimately show ?thesis
      using s'' True tile_becomes_trans [OF IH(3) s''(2)] by simp
  next
    case False
    then have "(k + 3) div 4 = k div 4 + 1" by presburger
    with False IH show ?thesis by (simp add: algebra_simps)
  qed
  then obtain s'' where s'':
    "(if k mod 4 = 0 then bindR (aimcDequeue t s') (\<lambda>(s, x). Ok (s, ucast x))
               else Ok (s', tmp)) = Ok (s'', chunk_word out k)"
    "tile_becomes ok valid view s t ((view s t)\<lparr>v_oc := 4 * (k div 4) + 4\<rparr>) s''" by blast
  have "dequeue_body aimcDequeue (\<lambda>x. Ok (ucast x)) t k (s', tmp, take k out @ drop k xs)
      = Ok (s'', drop_bit 8 (chunk_word out k), take (Suc k) out @ drop (Suc k) xs)"
    using s''(1) upd by (simp add: dequeue_body_def)
  then show ?case
    unfolding foldM_upt_Suc IH(1) kw(2) using s''(2) by (simp add: chunk_word_Suc)
qed

lemma dequeueVector_correct:
  assumes "ok s" "valid s t" "v_oc (view s t) = 0" "0 < n" "n \<le> length xs" "4 * ((n + 3) div 4) < w"
  shows "\<exists>s'. dequeueVector False aimcDequeue (int n) (Some xs) t s
           = Ok (s', Some (take n (v_out (view s t)) @ drop n xs)) \<and>
         tile_becomes ok valid view s t ((view s t)\<lparr>v_oc := 4 * ((n + 3) div 4)\<rparr>) s'"
proof -
  have "length (v_out (view s t)) = w" using view_wf [OF assms(1,2)] by (simp add: view_ok_def)
  from dequeue_loop [OF assms(1-3) this refl assms(5,6)] show ?thesis
    using assms(4) by (auto simp: dequeueVector_def dequeue_elems_def)
qed

end

section \<open>Mapping a matrix\<close>

text \<open>The crossbar after writing \<open>f i j\<close> at column \<open>ax + i\<close>, row \<open>ay + j\<close>, in loop order.\<close>

definition xbar_pos :: "nat \<Rightarrow> nat \<Rightarrow> nat \<Rightarrow> nat \<times> nat \<Rightarrow> nat" where
  "xbar_pos w ax ay p = (ay + snd p) * w + (ax + fst p)"

definition xbar_block ::
  "nat \<Rightarrow> nat \<Rightarrow> nat \<Rightarrow> (nat \<times> nat) list \<Rightarrow> (nat \<Rightarrow> nat \<Rightarrow> i8) \<Rightarrow> i8 list \<Rightarrow> i8 list" where
  "xbar_block w ax ay ps f xb =
     fold (\<lambda>p xs. xs[xbar_pos w ax ay p := f (fst p) (snd p)]) ps xb"

lemma xbar_pos_less:
  assumes "ax + i < w" "ay + j < h"
  shows "xbar_pos w ax ay (i, j) < w * h"
proof -
  have "(ay + j) * w + (ax + i) < (ay + j) * w + w" using assms(1) by simp
  also have "\<dots> = Suc (ay + j) * w" by simp
  also have "\<dots> \<le> h * w" using assms(2) by (intro mult_le_mono1) simp
  finally show ?thesis by (simp add: xbar_pos_def mult.commute)
qed

lemma xbar_pos_inj:
  assumes "ax + i < w" "ax + i' < w" "xbar_pos w ax ay (i, j) = xbar_pos w ax ay (i', j')"
  shows "i = i' \<and> j = j'"
proof -
  have e: "(ay + j) * w + (ax + i) = (ay + j') * w + (ax + i')"
    using assms(3) by (simp add: xbar_pos_def)
  have "((ay + j) * w + (ax + i)) mod w = ax + i" "((ay + j') * w + (ax + i')) mod w = ax + i'"
    using assms(1,2) by simp_all
  moreover have "((ay + j) * w + (ax + i)) div w = ay + j" "((ay + j') * w + (ax + i')) div w = ay + j'"
    using assms(1,2) by simp_all
  ultimately show ?thesis using e by (metis add_left_cancel)
qed

lemma xbar_block_at:
  assumes "i < wd" "j < ht" "ax + wd \<le> w" "ay + ht \<le> h" "length xb = w * h"
  shows "xbar_block w ax ay (List.product [0..<wd] [0..<ht]) f xb ! ((ay + j) * w + (ax + i)) = f i j"
proof -
  have "xbar_pos w ax ay (i, j) < length xb"
    using assms by (auto intro: xbar_pos_less)
  moreover have "inj_on (xbar_pos w ax ay) (set (List.product [0..<wd] [0..<ht]))"
    using assms(3) by (auto simp: inj_on_def dest!: xbar_pos_inj [rotated 2])
  ultimately show ?thesis
    using fold_updates_at [of "(i, j)" "List.product [0..<wd] [0..<ht]" "xbar_pos w ax ay" xb
        "\<lambda>p. f (fst p) (snd p)"] assms(1,2)
    by (simp add: xbar_block_def xbar_pos_def)
qed

context aimc_device
begin

lemma write_list:
  assumes "ok s" "valid s 0"
    and "\<And>i j. (i, j) \<in> set ps \<Longrightarrow> ax + i < w \<and> ay + j < h \<and> elem i j = Ok (Some (f i j))"
  shows "\<exists>s'. foldM (\<lambda>p s. bindR (elem (fst p) (snd p)) (\<lambda>m. case m of
             None \<Rightarrow> Ok s
           | Some b \<Rightarrow> bindR (intR (int (fst p) + int ax)) (\<lambda>x. bindR (intR (int (snd p) + int ay)) (\<lambda>y.
               aimcParamWrite (word_of_int x) (word_of_int y) (scast b) 0 s)))) ps s = Ok s' \<and>
         tile_becomes ok valid view s 0
           ((view s 0)\<lparr>v_xbar := xbar_block w ax ay ps f (v_xbar (view s 0))\<rparr>) s'"
  using assms
proof (induction ps arbitrary: s)
  case Nil
  then show ?case by (auto simp: tile_becomes_def xbar_block_def)
next
  case (Cons p ps)
  obtain i j where p: "p = (i, j)" by (cases p)
  from Cons.prems(3) [of i j] p have b: "ax + i < w" "ay + j < h" "elem i j = Ok (Some (f i j))" by auto
  obtain s1 where s1: "aimcParamWrite (word_of_int (int (ax + i))) (word_of_int (int (ay + j)))
      (scast (f i j)) 0 s = Ok s1"
    "tile_becomes ok valid view s 0
       (spec_write w (int (ax + i)) (int (ay + j)) (f i j) (view s 0)) s1"
    using write_refines [OF Cons.prems(1,2) b(1,2)] by blast
  have pos: "nat (int (ay + j) * int w + int (ax + i)) = xbar_pos w ax ay (i, j)"
    unfolding xbar_pos_def of_nat_mult [symmetric] of_nat_add [symmetric] nat_int by simp
  from s1(2) Cons.prems(2) have v: "ok s1" "valid s1 0" "view s1 0 =
      (view s 0)\<lparr>v_xbar := (v_xbar (view s 0))[xbar_pos w ax ay (i, j) := f i j]\<rparr>"
    by (auto simp: tile_becomes_def spec_write_def pos simp del: of_nat_add)
  have "\<And>i j. (i, j) \<in> set ps \<Longrightarrow> ax + i < w \<and> ay + j < h \<and> elem i j = Ok (Some (f i j))"
    using Cons.prems(3) by (meson list.set_intros(2))
  from Cons.IH [OF v(1,2) this] obtain s2 where s2:
    "foldM (\<lambda>p s. bindR (elem (fst p) (snd p)) (\<lambda>m. case m of
             None \<Rightarrow> Ok s
           | Some b \<Rightarrow> bindR (intR (int (fst p) + int ax)) (\<lambda>x. bindR (intR (int (snd p) + int ay)) (\<lambda>y.
               aimcParamWrite (word_of_int x) (word_of_int y) (scast b) 0 s)))) ps s1 = Ok s2"
    "tile_becomes ok valid view s1 0
       ((view s1 0)\<lparr>v_xbar := xbar_block w ax ay ps f (v_xbar (view s1 0))\<rparr>) s2"
    by blast
  have "tile_becomes ok valid view s 0
           ((view s 0)\<lparr>v_xbar := xbar_block w ax ay (p # ps) f (v_xbar (view s 0))\<rparr>) s2"
    using tile_becomes_trans [OF s1(2) s2(2)] v(3) p by (simp add: xbar_block_def)
  moreover have "intR (int i + int ax) = Ok (int (ax + i))" "intR (int j + int ay) = Ok (int (ay + j))"
    using b(1,2) dims(1,2) by (auto simp: intR_Ok_iff)
  ultimately show ?case using s1(1) s2(1) b p by simp
qed

lemma mapMatrix_loop_correct:
  assumes "ok s" "valid s 0" "ax + wd \<le> w" "ay + ht \<le> h"
    and "\<And>i j. i < wd \<Longrightarrow> j < ht \<Longrightarrow> elem i j = Ok (Some (f i j))"
  shows "\<exists>s'. mapMatrix_loop aimcParamWrite (int ax) (int ay) ht wd elem s = Ok s' \<and>
         tile_becomes ok valid view s 0 ((view s 0)\<lparr>v_xbar :=
           xbar_block w ax ay (List.product [0..<wd] [0..<ht]) f (v_xbar (view s 0))\<rparr>) s'"
proof -
  have "mapMatrix_loop aimcParamWrite (int ax) (int ay) ht wd elem s =
     foldM (\<lambda>p s. bindR (elem (fst p) (snd p)) (\<lambda>m. case m of
             None \<Rightarrow> Ok s
           | Some b \<Rightarrow> bindR (intR (int (fst p) + int ax)) (\<lambda>x. bindR (intR (int (snd p) + int ay)) (\<lambda>y.
               aimcParamWrite (word_of_int x) (word_of_int y) (scast b) 0 s))))
       (List.product [0..<wd] [0..<ht]) s"
    unfolding mapMatrix_loop_def foldM_nested [symmetric] by simp
  moreover have "\<And>i j. (i, j) \<in> set (List.product [0..<wd] [0..<ht]) \<Longrightarrow>
      ax + i < w \<and> ay + j < h \<and> elem i j = Ok (Some (f i j))"
    using assms(3-5) by fastforce
  ultimately show ?thesis using write_list [OF assms(1,2)] by presburger
qed

end

section \<open>The inference loop\<close>

text \<open>The product of a row-major \<open>n \<times> n\<close> matrix and a vector, saturated to 8 bits.\<close>

definition mvm_sat :: "nat \<Rightarrow> i8 list \<Rightarrow> i8 list \<Rightarrow> i8 list" where
  "mvm_sat n M x = map (\<lambda>i. sat8 (\<Sum>j<n. sint (x ! j) * sint (M ! (i * n + j)))) [0..<n]"

context aimc_device
begin

lemma infer_one_correct:
  assumes "ok s" "valid s 0" "v_in (view s 0) = replicate h 0" "v_ic (view s 0) = 0"
    and "0 < n" "n \<le> length x" "n \<le> length y" "4 * ((n + 3) div 4) < h" "4 * ((n + 3) div 4) < w"
  shows "\<exists>s'. infer_one aimcQueue aimcProcess aimcDequeue (int n) (x, y) (s, outs)
      = Ok (s', outs @ [map (\<lambda>i. sat8 (\<Sum>j<n. sint (x ! j) * sint (v_xbar (view s 0) ! (j * w + i)))) [0..<n]
                         @ drop n y]) \<and>
    ok s' \<and> valid s' = valid s \<and> v_in (view s' 0) = replicate h 0 \<and> v_ic (view s' 0) = 0 \<and>
    v_xbar (view s' 0) = v_xbar (view s 0)"
proof -
  have "n \<le> 4 * ((n + 3) div 4)" by presburger
  then have nh: "n \<le> h" "n \<le> w" using assms(8,9) by linarith+
  obtain s1 where s1: "queueVector False aimcQueue (int n) (Some x) 0 s = Ok s1"
    "tile_becomes ok valid view s 0
       ((view s 0)\<lparr>v_in := vec_prefix h n x, v_ic := 4 * ((n + 3) div 4)\<rparr>) s1"
    using queueVector_correct [OF assms(1-6,8)] by blast
  then have v1: "ok s1" "valid s1 0" "valid s1 = valid s"
    "v_in (view s1 0) = vec_prefix h n x" "v_xbar (view s1 0) = v_xbar (view s 0)"
    using assms(2) by (auto simp: tile_becomes_def)
  obtain s2 where s2: "aimcProcess 0 s1 = Ok s2"
    "tile_becomes ok valid view s1 0 (spec_process h w (view s1 0)) s2"
    using process_refines [OF v1(1,2)] by blast
  then have v2: "ok s2" "valid s2 0" "valid s2 = valid s" "v_oc (view s2 0) = 0"
    "v_in (view s2 0) = replicate h 0" "v_ic (view s2 0) = 0"
    "v_xbar (view s2 0) = v_xbar (view s 0)"
    "v_out (view s2 0) =
       map (\<lambda>i. sat8 (mvm_column h w (v_xbar (view s 0)) (vec_prefix h n x) i)) [0..<w]"
    using v1 by (auto simp: tile_becomes_def spec_process_def)
  obtain s3 where s3: "dequeueVector False aimcDequeue (int n) (Some y) 0 s2
      = Ok (s3, Some (take n (v_out (view s2 0)) @ drop n y))"
    "tile_becomes ok valid view s2 0 ((view s2 0)\<lparr>v_oc := 4 * ((n + 3) div 4)\<rparr>) s3"
    using dequeueVector_correct [OF v2(1,2,4) assms(5,7,9)] by blast
  have col: "mvm_column h w xb (vec_prefix h n x) i = (\<Sum>j<n. sint (x ! j) * sint (xb ! (j * w + i)))"
    for xb i
  proof -
    have "mvm_column h w xb (vec_prefix h n x) i
        = (\<Sum>j<n. sint (vec_prefix h n x ! j) * sint (xb ! (j * w + i)))"
      using nh assms(6) by (intro mvm_column_prefix) (auto simp: vec_prefix_def nth_append)
    then show ?thesis using assms(6) by (simp add: vec_prefix_def nth_append)
  qed
  have "take n (v_out (view s2 0)) = map (\<lambda>i. sat8 (\<Sum>j<n. sint (x ! j) * sint (v_xbar (view s 0) ! (j * w + i)))) [0..<n]"
    using nh by (simp add: v2(8) col take_map)
  then show ?thesis
    using s1(1) s2(1) s3 v2 by (auto simp: infer_one_def tile_becomes_def)
qed

lemma infer_all_correct:
  assumes "ok s" "valid s 0" "v_in (view s 0) = replicate h 0" "v_ic (view s 0) = 0"
    and "0 < n" "4 * ((n + 3) div 4) < h" "4 * ((n + 3) div 4) < w"
    and "\<forall>(x, y) \<in> set ios. n \<le> length x \<and> n \<le> length y"
  shows "\<exists>s'. foldM (infer_one aimcQueue aimcProcess aimcDequeue (int n)) ios (s, outs)
      = Ok (s', outs @ map (\<lambda>(x, y). map (\<lambda>i. sat8 (\<Sum>j<n. sint (x ! j) *
                 sint (v_xbar (view s 0) ! (j * w + i)))) [0..<n] @ drop n y) ios) \<and>
    ok s' \<and> v_xbar (view s' 0) = v_xbar (view s 0)"
  using assms(1-4,8)
proof (induction ios arbitrary: s outs)
  case Nil
  then show ?case by simp
next
  case (Cons io ios)
  obtain x y where io: "io = (x, y)" by (cases io)
  with Cons.prems(5) have l: "n \<le> length x" "n \<le> length y"
    "\<forall>(x, y) \<in> set ios. n \<le> length x \<and> n \<le> length y" by auto
  from infer_one_correct [OF Cons.prems(1-4) assms(5) l(1,2) assms(6,7), of outs]
  obtain s1 where s1: "infer_one aimcQueue aimcProcess aimcDequeue (int n) (x, y) (s, outs)
      = Ok (s1, outs @ [map (\<lambda>i. sat8 (\<Sum>j<n. sint (x ! j) * sint (v_xbar (view s 0) ! (j * w + i)))) [0..<n]
                         @ drop n y])" "ok s1" "valid s1 = valid s" "v_in (view s1 0) = replicate h 0"
    "v_ic (view s1 0) = 0" "v_xbar (view s1 0) = v_xbar (view s 0)" by blast
  then have "valid s1 0" using Cons.prems(2) by simp
  let ?out = "map (\<lambda>i. sat8 (\<Sum>j<n. sint (x ! j) * sint (v_xbar (view s 0) ! (j * w + i)))) [0..<n] @ drop n y"
  from Cons.IH [OF s1(2) \<open>valid s1 0\<close> s1(4,5) l(3), of "outs @ [?out]"] s1 show ?case
    by (simp add: io)
qed

lemma example_main_correct:
  assumes "ok s" "valid s 0" "v_in (view s 0) = replicate h 0" "v_ic (view s 0) = 0"
    and "0 < n" "4 * ((n + 3) div 4) < h" "4 * ((n + 3) div 4) < w" "n * n \<le> length W1"
    and "\<forall>(x, y) \<in> set ios. n \<le> length x \<and> n \<le> length y"
  shows "\<exists>s'. example_main aimcParamWrite aimcQueue aimcProcess aimcDequeue (int n) W1 ios s
      = Ok (s', map (\<lambda>(x, y). mvm_sat n W1 x @ drop n y) ios) \<and> ok s'"
proof -
  have "n \<le> 4 * ((n + 3) div 4)" by presburger
  then have nh: "0 + n \<le> h" "0 + n \<le> w" using assms(6,7) by linarith+
  let ?elem = "\<lambda>i j. bindR (intR (int i * int n + int j)) (\<lambda>k. bindR (arr_get W1 k) (\<lambda>b. Ok (Some b)))"
  let ?ps = "List.product [0..<n] [0..<n]"
  have el: "?elem i j = Ok (Some (W1 ! (i * n + j)))" if "i < n" "j < n" for i j
  proof -
    have "i * n + j < n * n" using xbar_pos_less [of 0 j n 0 i n] that by (simp add: xbar_pos_def)
    then have "i * n + j < length W1" using assms(8) by linarith
    then have "arr_get W1 (int (i * n + j)) = Ok (W1 ! (i * n + j))" by (rule arr_get_nat)
    moreover have "n * n \<le> w * h" using nh by (intro mult_le_mono) auto
    then have "i * n + j < 2 ^ 31" using \<open>i * n + j < n * n\<close> dims(3) by linarith
    then have "intR (int (i * n + j)) = Ok (int (i * n + j))"
      by (intro intR_Ok) (simp_all del: of_nat_add of_nat_mult)
    ultimately show ?thesis by simp
  qed
  obtain s1 where s1: "mapMatrix_loop aimcParamWrite (int 0) (int 0) n n ?elem s = Ok s1"
    "tile_becomes ok valid view s 0 ((view s 0)\<lparr>v_xbar :=
       xbar_block w 0 0 ?ps (\<lambda>i j. W1 ! (i * n + j)) (v_xbar (view s 0))\<rparr>) s1"
    using mapMatrix_loop_correct [OF assms(1,2) nh(2,1), of ?elem "\<lambda>i j. W1 ! (i * n + j)"] el by blast
  then have v1: "ok s1" "valid s1 0" "v_in (view s1 0) = replicate h 0" "v_ic (view s1 0) = 0"
    "v_xbar (view s1 0) = xbar_block w 0 0 ?ps (\<lambda>i j. W1 ! (i * n + j)) (v_xbar (view s 0))"
    using assms(2-4) by (auto simp: tile_becomes_def)
  have xb: "v_xbar (view s1 0) ! (j * w + i) = W1 ! (i * n + j)" if "i < n" "j < n" for i j
  proof -
    have "length (v_xbar (view s 0)) = w * h" using view_wf [OF assms(1,2)] by (simp add: view_ok_def)
    from xbar_block_at [OF that nh(2,1) this, of "\<lambda>i j. W1 ! (i * n + j)"] show ?thesis
      by (simp add: v1(5))
  qed
  have mv: "map (\<lambda>i. sat8 (\<Sum>j<n. sint (x ! j) * sint (v_xbar (view s1 0) ! (j * w + i)))) [0..<n]
      = mvm_sat n W1 x" for x
    unfolding mvm_sat_def using xb by (auto intro!: arg_cong [where f = sat8] sum.cong)
  have "mapMatrix_flat aimcParamWrite 0 0 (int n) (int n) (Some W1) s = Ok s1"
    using s1(1) assms(5) by (simp add: mapMatrix_flat_def)
  with infer_all_correct [OF v1(1-4) assms(5-7,9), of "[]"] show ?thesis
    by (auto simp: example_main_def mv)
qed

end

end
