(* ===== verification/Bit_Field.thy ===== *)
theory Bit_Field
  imports Alpine_Prelude
begin

text \<open>
  \<^verbatim>\<open>base/bitfield.hh\<close> and the table of \<^verbatim>\<open>base/bitfield.cc\<close>: extraction, insertion and search of
  bits, at the element type \<^verbatim>\<open>uint64_t\<close>. Bit positions are the signed integers of the source; a
  shift by a negative amount or by more than 63 has no defined result in C++, and the lemmas
  assume positions inside the word.
\<close>

section \<open>Operations\<close>

definition mask_bits :: "int \<Rightarrow> u64" where
  "mask_bits nbits = (if nbits = 64 then - 1 else push_bit (nat nbits) 1 - 1)"

definition bits :: "u64 \<Rightarrow> int \<Rightarrow> int \<Rightarrow> u64" where
  "bits val hi lo =
     (let nbits = hi - lo + 1 in drop_bit (nat lo) val AND mask_bits nbits)"

definition bits_one :: "u64 \<Rightarrow> int \<Rightarrow> u64" where
  "bits_one val i = bits val i i"

definition mbits :: "u64 \<Rightarrow> int \<Rightarrow> int \<Rightarrow> u64" where
  "mbits val hi lo = val AND (mask_bits (hi + 1) AND NOT (mask_bits lo))"

definition mask_range :: "int \<Rightarrow> int \<Rightarrow> u64" where
  "mask_range hi lo = mbits (- 1) hi lo"

definition sext :: "int \<Rightarrow> u64 \<Rightarrow> u64" where
  "sext N val =
     (let sign_bit = bits val (N - 1) (N - 1) in if sign_bit \<noteq> 0 then val OR NOT (mask_bits N) else val)"

definition insertBits :: "u64 \<Rightarrow> int \<Rightarrow> int \<Rightarrow> u64 \<Rightarrow> u64" where
  "insertBits val hi lo bit_val =
     (let bmask = push_bit (nat lo) (mask_bits (hi - lo + 1))
      in (push_bit (nat lo) bit_val AND bmask) OR (val AND NOT bmask))"

definition replaceBits :: "u64 \<Rightarrow> int \<Rightarrow> int \<Rightarrow> u64 \<Rightarrow> u64" where
  "replaceBits val hi lo bit_val = insertBits val hi lo bit_val"

definition reverseLookUpTable :: "u8 list" where
  "reverseLookUpTable = [
    0x00, 0x80, 0x40, 0xc0, 0x20, 0xa0, 0x60, 0xe0, 0x10, 0x90, 0x50, 0xd0,
    0x30, 0xb0, 0x70, 0xf0, 0x08, 0x88, 0x48, 0xc8, 0x28, 0xa8, 0x68, 0xe8,
    0x18, 0x98, 0x58, 0xd8, 0x38, 0xb8, 0x78, 0xf8, 0x04, 0x84, 0x44, 0xc4,
    0x24, 0xa4, 0x64, 0xe4, 0x14, 0x94, 0x54, 0xd4, 0x34, 0xb4, 0x74, 0xf4,
    0x0c, 0x8c, 0x4c, 0xcc, 0x2c, 0xac, 0x6c, 0xec, 0x1c, 0x9c, 0x5c, 0xdc,
    0x3c, 0xbc, 0x7c, 0xfc, 0x02, 0x82, 0x42, 0xc2, 0x22, 0xa2, 0x62, 0xe2,
    0x12, 0x92, 0x52, 0xd2, 0x32, 0xb2, 0x72, 0xf2, 0x0a, 0x8a, 0x4a, 0xca,
    0x2a, 0xaa, 0x6a, 0xea, 0x1a, 0x9a, 0x5a, 0xda, 0x3a, 0xba, 0x7a, 0xfa,
    0x06, 0x86, 0x46, 0xc6, 0x26, 0xa6, 0x66, 0xe6, 0x16, 0x96, 0x56, 0xd6,
    0x36, 0xb6, 0x76, 0xf6, 0x0e, 0x8e, 0x4e, 0xce, 0x2e, 0xae, 0x6e, 0xee,
    0x1e, 0x9e, 0x5e, 0xde, 0x3e, 0xbe, 0x7e, 0xfe, 0x01, 0x81, 0x41, 0xc1,
    0x21, 0xa1, 0x61, 0xe1, 0x11, 0x91, 0x51, 0xd1, 0x31, 0xb1, 0x71, 0xf1,
    0x09, 0x89, 0x49, 0xc9, 0x29, 0xa9, 0x69, 0xe9, 0x19, 0x99, 0x59, 0xd9,
    0x39, 0xb9, 0x79, 0xf9, 0x05, 0x85, 0x45, 0xc5, 0x25, 0xa5, 0x65, 0xe5,
    0x15, 0x95, 0x55, 0xd5, 0x35, 0xb5, 0x75, 0xf5, 0x0d, 0x8d, 0x4d, 0xcd,
    0x2d, 0xad, 0x6d, 0xed, 0x1d, 0x9d, 0x5d, 0xdd, 0x3d, 0xbd, 0x7d, 0xfd,
    0x03, 0x83, 0x43, 0xc3, 0x23, 0xa3, 0x63, 0xe3, 0x13, 0x93, 0x53, 0xd3,
    0x33, 0xb3, 0x73, 0xf3, 0x0b, 0x8b, 0x4b, 0xcb, 0x2b, 0xab, 0x6b, 0xeb,
    0x1b, 0x9b, 0x5b, 0xdb, 0x3b, 0xbb, 0x7b, 0xfb, 0x07, 0x87, 0x47, 0xc7,
    0x27, 0xa7, 0x67, 0xe7, 0x17, 0x97, 0x57, 0xd7, 0x37, 0xb7, 0x77, 0xf7,
    0x0f, 0x8f, 0x4f, 0xcf, 0x2f, 0xaf, 0x6f, 0xef, 0x1f, 0x9f, 0x5f, 0xdf,
    0x3f, 0xbf, 0x7f, 0xff]"

definition reverse_body :: "u64 \<times> u64 \<Rightarrow> (u64 \<times> u64) result" where
  "reverse_body st = (case st of (output, val) \<Rightarrow>
     bindR (arr_get reverseLookUpTable (uint (val AND 0xFF))) (\<lambda>b.
       Ok (push_bit 8 output OR ucast b, drop_bit 8 val)))"

definition reverseBits :: "u64 \<Rightarrow> nat \<Rightarrow> u64 result" where
  "reverseBits val sz =
     bindR (assertR (sz \<le> 8) AssertFail) (\<lambda>_.
     bindR (foldM (\<lambda>_. reverse_body) [0..<sz] (0, val)) (\<lambda>(output, _). Ok output))"

text \<open>One line of the binary searches: if the test holds, count and shift.\<close>

definition search_step :: "bool \<Rightarrow> nat \<Rightarrow> nat \<times> 'a::len word \<Rightarrow> nat \<times> 'a word" where
  "search_step b k nv = (if b then (fst nv + k, drop_bit k (snd nv)) else nv)"

definition findMsbSet :: "u64 \<Rightarrow> nat" where
  "findMsbSet val =
     (if val = 0 then 0
      else let nv = (0, val);
               nv = search_step (bits (snd nv) 63 32 \<noteq> 0) 32 nv;
               nv = search_step (bits (snd nv) 31 16 \<noteq> 0) 16 nv;
               nv = search_step (bits (snd nv) 15 8 \<noteq> 0) 8 nv;
               nv = search_step (bits (snd nv) 7 4 \<noteq> 0) 4 nv;
               nv = search_step (bits (snd nv) 3 2 \<noteq> 0) 2 nv
           in if bits (snd nv) 1 1 \<noteq> 0 then fst nv + 1 else fst nv)"

definition findLsbSet :: "u64 \<Rightarrow> nat" where
  "findLsbSet val =
     (if val = 0 then 64
      else let nv = (0, val);
               nv = search_step (bits (snd nv) 31 0 = 0) 32 nv;
               nv = search_step (bits (snd nv) 15 0 = 0) 16 nv;
               nv = search_step (bits (snd nv) 7 0 = 0) 8 nv;
               nv = search_step (bits (snd nv) 3 0 = 0) 4 nv;
               nv = search_step (bits (snd nv) 1 0 = 0) 2 nv
           in if bits (snd nv) 0 0 = 0 then fst nv + 1 else fst nv)"

definition isPow2 :: "u64 \<Rightarrow> bool" where
  "isPow2 v \<longleftrightarrow> v AND (v - 1) = 0"

definition alignToPowerOfTwo :: "u64 \<Rightarrow> u64" where
  "alignToPowerOfTwo val =
     (let v = val - 1;
          v = v OR drop_bit 1 v;
          v = v OR drop_bit 2 v;
          v = v OR drop_bit 4 v;
          v = v OR drop_bit 8 v;
          v = v OR drop_bit 16 v;
          v = v OR drop_bit 32 v
      in v + 1)"

section \<open>Masks and fields, bit by bit\<close>

lemma mask_bits_mask: "0 \<le> n \<Longrightarrow> n \<le> 64 \<Longrightarrow> mask_bits n = mask (nat n)"
  by (auto simp: mask_bits_def mask_eq_exp_minus_1 push_bit_eq_mult)

lemma bit_mask_bits:
  "0 \<le> n \<Longrightarrow> n \<le> 64 \<Longrightarrow> bit (mask_bits n) i \<longleftrightarrow> int i < n"
  by (auto simp: mask_bits_mask bit_mask_iff nat_less_iff zless_nat_eq_int_zless)

lemma bit_bits:
  assumes "0 \<le> lo" "lo \<le> hi + 1" "hi < 64"
  shows "bit (bits v hi lo) i \<longleftrightarrow> int i \<le> hi - lo \<and> bit v (nat lo + i)"
  using assms by (auto simp: bits_def Let_def bit_and_iff bit_drop_bit_eq bit_mask_bits)

lemma bits_eq_take_drop:
  assumes "0 \<le> lo" "lo \<le> hi + 1" "hi < 64"
  shows "bits v hi lo = take_bit (nat (hi - lo + 1)) (drop_bit (nat lo) v)"
  using assms by (simp add: bits_def Let_def mask_bits_mask take_bit_eq_mask)

lemma bits_less:
  assumes "0 \<le> lo" "lo \<le> hi + 1" "hi < 64"
  shows "unat (bits v hi lo) < 2 ^ nat (hi - lo + 1)"
proof -
  have "unat (take_bit n (w :: u64)) < 2 ^ n" for n w
    by (simp add: unsigned_take_bit_eq)
  then show ?thesis using assms by (simp add: bits_eq_take_drop)
qed

lemma bit_insertBits:
  assumes "0 \<le> lo" "lo \<le> hi + 1" "hi < 64"
  shows "bit (insertBits v hi lo b) i \<longleftrightarrow>
    (if lo \<le> int i \<and> int i \<le> hi then bit b (i - nat lo) else bit v i)"
proof -
  have m: "bit (push_bit (nat lo) (mask_bits (hi - lo + 1))) i \<longleftrightarrow> lo \<le> int i \<and> int i \<le> hi"
    if "i < 64"
    using assms that by (auto simp: bit_push_bit_iff bit_mask_bits)
  show ?thesis
  proof (cases "i < 64")
    case True
    then show ?thesis
      using assms m [OF True] by (auto simp: insertBits_def Let_def bit_or_iff bit_and_iff bit_not_iff bit_push_bit_iff)
  next
    case False
    then have "\<not> bit w i" for w :: u64 using bit_imp_le_length by fastforce
    then show ?thesis using assms False by auto
  qed
qed

section \<open>Searching for a bit\<close>

lemma drop_bit_eq_1_iff:
  "drop_bit n (v :: 'a::len word) = 1 \<longleftrightarrow> bit v n \<and> (\<forall>i>n. \<not> bit v i)"
proof
  assume e: "drop_bit n v = 1"
  have "bit v (n + j) \<longleftrightarrow> j = 0" for j
    using arg_cong [where f = "\<lambda>w. bit w j", OF e] by (simp add: bit_drop_bit_eq bit_1_iff)
  then show "bit v n \<and> (\<forall>i>n. \<not> bit v i)"
    by (metis add.right_neutral less_imp_add_positive less_numeral_extra(3))
next
  assume "bit v n \<and> (\<forall>i>n. \<not> bit v i)"
  then show "drop_bit n v = 1"
    by (intro bit_word_eqI) (auto simp: bit_drop_bit_eq bit_1_iff intro: ccontr)
qed

lemma fst_search_step: "fst (search_step b k nv) = (if b then fst nv + k else fst nv)"
  by (simp add: search_step_def)

lemma take_bit_u64: "take_bit 64 v = (v :: u64)"
  by (rule bit_word_eqI) (auto simp: bit_take_bit_iff)

lemma take_bit_1_self:
  assumes "take_bit 1 (w :: 'a::len word) = w" "w \<noteq> 0"
  shows "w = 1"
proof -
  have n: "bit w n \<Longrightarrow> n = 0" for n using assms(1) by (metis bit_take_bit_iff less_one)
  with assms(2) have "bit w 0" by (metis bit_0_eq bit_word_eqI bot_apply bot_bool_def)
  with n show ?thesis by (intro bit_word_eqI) (auto simp: bit_1_iff)
qed

lemma take_bit_1_drop_bit: "take_bit 1 (drop_bit n (v :: u64)) \<noteq> 0 \<Longrightarrow> bit v n"
  by (rule ccontr, erule notE, rule bit_word_eqI)
    (auto simp: bit_take_bit_iff bit_drop_bit_eq even_drop_bit_iff_not_bit)

lemma bits_half:
  assumes "k \<le> 32" "take_bit (2 * k) w = w" "0 < k"
  shows "bits w (2 * int k - 1) (int k) = drop_bit k w"
proof -
  have "bits w (2 * int k - 1) (int k) = take_bit k (drop_bit k w)"
    using assms by (simp add: bits_eq_take_drop)
  also have "\<dots> = drop_bit k (take_bit (2 * k) w)" by (simp add: take_bit_drop_bit mult_2)
  finally show ?thesis using assms(2) by simp
qed

text \<open>The invariant of the search for the most significant bit: what is left fits \<open>k\<close> bits.\<close>

definition msb_inv :: "'a::len word \<Rightarrow> nat \<Rightarrow> nat \<times> 'a word \<Rightarrow> bool" where
  "msb_inv v k nv \<longleftrightarrow> drop_bit (fst nv) v = snd nv \<and> snd nv \<noteq> 0 \<and> take_bit k (snd nv) = snd nv"

lemma msb_step:
  assumes "msb_inv v (2 * k) nv" "b \<longleftrightarrow> drop_bit k (snd nv) \<noteq> 0"
  shows "msb_inv v k (search_step b k nv)"
proof (cases b)
  case False
  with assms(2) have "take_bit k (snd nv) = snd nv" by (simp add: take_bit_eq_self_iff_drop_bit_eq_0)
  then show ?thesis using False assms(1) by (simp add: msb_inv_def search_step_def)
next
  case True
  have "take_bit k (drop_bit k (snd nv)) = drop_bit k (snd nv)"
    using assms(1) by (simp add: msb_inv_def take_bit_drop_bit mult_2)
  moreover have "drop_bit (fst nv + k) v = drop_bit k (snd nv)"
    using assms(1) drop_bit_drop_bit [of k "fst nv" v] by (simp add: msb_inv_def add.commute)
  ultimately show ?thesis using True assms(2) by (simp add: msb_inv_def search_step_def)
qed

lemma msb_last: "msb_inv v 1 nv \<Longrightarrow> drop_bit (fst nv) v = 1"
  using take_bit_1_self by (auto simp: msb_inv_def)

lemma msb_step_bits:
  assumes "msb_inv v (2 * k) nv" "0 < k" "k \<le> 32"
  shows "msb_inv v k (search_step (bits (snd nv) (2 * int k - 1) (int k) \<noteq> 0) k nv)"
  using assms bits_half [of k "snd nv"] by (intro msb_step) (auto simp: msb_inv_def)

lemma msb_search:
  assumes "v \<noteq> 0"
  shows "drop_bit (findMsbSet v) v = 1"
proof -
  let ?a = "search_step (bits v 63 32 \<noteq> 0) 32 (0, v)"
  let ?b = "search_step (bits (snd ?a) 31 16 \<noteq> 0) 16 ?a"
  let ?c = "search_step (bits (snd ?b) 15 8 \<noteq> 0) 8 ?b"
  let ?d = "search_step (bits (snd ?c) 7 4 \<noteq> 0) 4 ?c"
  let ?e = "search_step (bits (snd ?d) 3 2 \<noteq> 0) 2 ?d"
  let ?f = "search_step (bits (snd ?e) 1 1 \<noteq> 0) 1 ?e"
  have "msb_inv v 64 (0, v)" using assms by (simp add: msb_inv_def take_bit_u64)
  from msb_step_bits [of v 32, simplified, OF this] have "msb_inv v 32 ?a" by simp
  from msb_step_bits [of v 16, simplified, OF this] have "msb_inv v 16 ?b" by simp
  from msb_step_bits [of v 8, simplified, OF this] have "msb_inv v 8 ?c" by simp
  from msb_step_bits [of v 4, simplified, OF this] have "msb_inv v 4 ?d" by simp
  from msb_step_bits [of v 2, simplified, OF this] have "msb_inv v 2 ?e" by simp
  from msb_step_bits [of v 1, simplified, OF this] have f: "msb_inv v 1 ?f" by simp
  have "findMsbSet v = fst ?f"
    unfolding findMsbSet_def Let_def fst_search_step snd_conv if_not_P [OF assms] ..
  with msb_last [OF f] show ?thesis by simp
qed

text \<open>The invariant of the search for the least significant bit.\<close>

definition lsb_inv :: "u64 \<Rightarrow> nat \<Rightarrow> nat \<times> u64 \<Rightarrow> bool" where
  "lsb_inv v k nv \<longleftrightarrow> drop_bit (fst nv) v = snd nv \<and> take_bit (fst nv) v = 0 \<and> take_bit k (snd nv) \<noteq> 0"

lemma take_bit_add_0:
  "take_bit n (v :: u64) = 0 \<Longrightarrow> take_bit k (drop_bit n v) = 0 \<Longrightarrow> take_bit (n + k) v = 0"
proof -
  assume a: "take_bit n v = 0" "take_bit k (drop_bit n v) = 0"
  have z: "\<not> bit (take_bit n v) i" "\<not> bit (take_bit k (drop_bit n v)) i" for i
    using a by simp_all
  show ?thesis
  proof (rule bit_word_eqI)
    fix i
    from z(1) [of i] z(2) [of "i - n"] show "bit (take_bit (n + k) v) i = bit 0 i"
      by (cases "i < n") (auto simp: bit_take_bit_iff bit_drop_bit_eq)
  qed
qed

lemma lsb_step:
  assumes "lsb_inv v (2 * k) nv" "0 < k" "k \<le> 32"
  shows "lsb_inv v k (search_step (bits (snd nv) (int k - 1) 0 = 0) k nv)"
proof -
  have b: "bits (snd nv) (int k - 1) 0 = take_bit k (snd nv)"
    using assms by (simp add: bits_eq_take_drop)
  show ?thesis
  proof (cases "take_bit k (snd nv) = 0")
    case True
    have "take_bit (fst nv + k) v = 0"
      using True assms(1) by (intro take_bit_add_0) (auto simp: lsb_inv_def)
    moreover have "drop_bit (fst nv + k) v = drop_bit k (snd nv)"
      using assms(1) drop_bit_drop_bit [of k "fst nv" v] by (simp add: lsb_inv_def add.commute)
    moreover have "take_bit k (drop_bit k (snd nv)) \<noteq> 0"
    proof
      assume "take_bit k (drop_bit k (snd nv)) = 0"
      with True have "take_bit (k + k) (snd nv) = 0" by (rule take_bit_add_0)
      with assms(1) show False by (simp add: lsb_inv_def mult_2)
    qed
    ultimately show ?thesis using b True by (simp add: lsb_inv_def search_step_def)
  next
    case False
    then show ?thesis using b assms(1) by (simp add: lsb_inv_def search_step_def)
  qed
qed

lemma lsb_search:
  assumes "v \<noteq> 0"
  shows "take_bit (findLsbSet v) v = 0" "bit v (findLsbSet v)"
proof -
  let ?a = "search_step (bits v 31 0 = 0) 32 (0, v)"
  let ?b = "search_step (bits (snd ?a) 15 0 = 0) 16 ?a"
  let ?c = "search_step (bits (snd ?b) 7 0 = 0) 8 ?b"
  let ?d = "search_step (bits (snd ?c) 3 0 = 0) 4 ?c"
  let ?e = "search_step (bits (snd ?d) 1 0 = 0) 2 ?d"
  let ?f = "search_step (bits (snd ?e) 0 0 = 0) 1 ?e"
  have "lsb_inv v 64 (0, v)" using assms by (simp add: lsb_inv_def take_bit_u64)
  from lsb_step [of v 32, simplified, OF this] have "lsb_inv v 32 ?a" by simp
  from lsb_step [of v 16, simplified, OF this] have "lsb_inv v 16 ?b" by simp
  from lsb_step [of v 8, simplified, OF this] have "lsb_inv v 8 ?c" by simp
  from lsb_step [of v 4, simplified, OF this] have "lsb_inv v 4 ?d" by simp
  from lsb_step [of v 2, simplified, OF this] have "lsb_inv v 2 ?e" by simp
  from lsb_step [of v 1, simplified, OF this] have f: "lsb_inv v 1 ?f" by simp
  have e: "findLsbSet v = fst ?f"
    unfolding findLsbSet_def Let_def fst_search_step snd_conv if_not_P [OF assms] ..
  from f show "take_bit (findLsbSet v) v = 0" unfolding e lsb_inv_def by blast
  from f have "take_bit 1 (drop_bit (fst ?f) v) \<noteq> 0" unfolding lsb_inv_def by metis
  then show "bit v (findLsbSet v)" unfolding e
    by (rule take_bit_1_drop_bit)
qed

section \<open>Reversing bits\<close>

definition rev_byte :: "u8 \<Rightarrow> u8 \<Rightarrow> bool" where
  "rev_byte b r \<longleftrightarrow> list_all (\<lambda>i. bit r i = bit b (7 - i)) [0..<8]"

lemma reverse_table: "b < 256 \<Longrightarrow> rev_byte (word_of_nat b) (reverseLookUpTable ! b)"
proof -
  have "list_all (\<lambda>b. rev_byte (word_of_nat b) (reverseLookUpTable ! b)) [0..<256]"
    by code_simp
  then show "b < 256 \<Longrightarrow> rev_byte (word_of_nat b) (reverseLookUpTable ! b)"
    by (simp add: list_all_iff)
qed

lemma reverse_body_Ok:
  "\<exists>r. reverse_body (out, v) = Ok (push_bit 8 out OR r, drop_bit 8 v) \<and>
     (\<forall>i. bit r i \<longleftrightarrow> i < 8 \<and> bit v (7 - i))"
proof -
  let ?b = "unat (v AND 0xFF)"
  have lt: "?b < 256"
  proof -
    have "v AND 0xFF = take_bit 8 v" by (simp add: take_bit_eq_mask mask_eq_exp_minus_1)
    then have "?b = take_bit 8 (unat v)" by (simp add: unsigned_take_bit_eq)
    then show ?thesis using take_bit_nat_less_exp [of 8 "unat v"] by simp
  qed
  let ?r = "reverseLookUpTable ! ?b"
  have "length reverseLookUpTable = 256" by (simp add: reverseLookUpTable_def)
  then have g: "arr_get reverseLookUpTable (uint (v AND 0xFF)) = Ok ?r"
    using lt arr_get_nat [of ?b reverseLookUpTable] by (simp flip: uint_nat)
  have "bit ?r i \<longleftrightarrow> bit v (7 - i)" if "i < 8" for i
  proof -
    from reverse_table [OF lt] that have "bit ?r i = bit (word_of_nat ?b :: u8) (7 - i)"
      by (simp add: rev_byte_def list_all_iff)
    also have "(word_of_nat ?b :: u8) = ucast v"
      by (rule bit_word_eqI) (auto simp: bit_ucast_iff bit_and_iff of_nat_unat dest: bit_imp_le_length)
    finally show ?thesis by (simp add: bit_ucast_iff less_imp_diff_less)
  qed
  moreover have "bit ?r i \<Longrightarrow> i < 8" for i using bit_imp_le_length [of ?r i] by simp
  ultimately have "bit (ucast ?r :: u64) i \<longleftrightarrow> i < 8 \<and> bit v (7 - i)" for i
    by (cases "i < 8") (auto simp: bit_ucast_iff)
  with g show ?thesis by (auto simp: reverse_body_def)
qed

lemma reverse_loop:
  assumes "sz \<le> 8"
  shows "\<exists>r. foldM (\<lambda>_. reverse_body) [0..<sz] (0, v) = Ok (r, drop_bit (8 * sz) v) \<and>
     (\<forall>i. bit r i \<longleftrightarrow> i < 8 * sz \<and> bit v (8 * sz - 1 - i))"
  using assms
proof (induction sz)
  case (Suc n)
  then obtain r where r: "foldM (\<lambda>_. reverse_body) [0..<n] (0, v) = Ok (r, drop_bit (8 * n) v)"
    "\<And>i. bit r i \<longleftrightarrow> i < 8 * n \<and> bit v (8 * n - 1 - i)" by auto
  obtain t where t: "reverse_body (r, drop_bit (8 * n) v) =
      Ok (push_bit 8 r OR t, drop_bit 8 (drop_bit (8 * n) v))"
    "\<And>i. bit t i \<longleftrightarrow> i < 8 \<and> bit (drop_bit (8 * n) v) (7 - i)"
    using reverse_body_Ok by blast
  have "bit (push_bit 8 r OR t) i \<longleftrightarrow> i < 8 * Suc n \<and> bit v (8 * Suc n - 1 - i)" for i
  proof (cases "i < 8")
    case True
    then have "8 * n + (7 - i) = 8 * Suc n - 1 - i" by simp
    with True t(2) show ?thesis by (auto simp: bit_or_iff bit_push_bit_iff bit_drop_bit_eq)
  next
    case False
    then have e: "8 * n - 1 - (i - 8) = 8 * Suc n - 1 - i" "i - 8 < 8 * n \<longleftrightarrow> i < 8 * Suc n" by auto
    have "i < 64" if "i < 8 * Suc n" using that Suc.prems by simp
    moreover have "bit (push_bit 8 r OR t) i \<longleftrightarrow> i < 64 \<and> bit r (i - 8)"
      using False t(2) [of i] by (simp add: bit_or_iff bit_push_bit_iff)
    ultimately show ?thesis unfolding r(2) e by blast
  qed
  with r(1) t(1) show ?case unfolding foldM_upt_Suc by (simp add: drop_bit_drop_bit)
qed simp

section \<open>Powers of two\<close>

lemma smear_step:
  assumes "\<And>i. bit w i \<longleftrightarrow> (\<exists>j<k. bit (v :: u64) (i + j))"
  shows "bit (w OR drop_bit k w) i \<longleftrightarrow> (\<exists>j<2 * k. bit v (i + j))"
proof -
  have "(\<exists>j<2 * k. bit v (i + j)) \<longleftrightarrow> (\<exists>j<k. bit v (i + j)) \<or> (\<exists>j<k. bit v (i + k + j))"
  proof
    assume "\<exists>j<2 * k. bit v (i + j)"
    then obtain j where j: "j < 2 * k" "bit v (i + j)" by blast
    show "(\<exists>j<k. bit v (i + j)) \<or> (\<exists>j<k. bit v (i + k + j))"
    proof (cases "j < k")
      case False
      then have "i + k + (j - k) = i + j" "j - k < k" using j(1) by auto
      then show ?thesis using j(2) by metis
    qed (use j in blast)
  next
    assume "(\<exists>j<k. bit v (i + j)) \<or> (\<exists>j<k. bit v (i + k + j))"
    then show "\<exists>j<2 * k. bit v (i + j)"
    proof
      assume "\<exists>j<k. bit v (i + k + j)"
      then obtain j where "j < k" "bit v (i + (k + j))" by (auto simp: add.assoc)
      then show ?thesis by (intro exI [of _ "k + j"]) auto
    qed (use less_le_trans in fastforce)
  qed
  then show ?thesis by (simp add: bit_or_iff bit_drop_bit_eq assms add.commute add.left_commute)
qed

lemma smear_all:
  fixes v :: u64
  defines "a \<equiv> v OR drop_bit 1 v"
  defines "b \<equiv> a OR drop_bit 2 a"
  defines "c \<equiv> b OR drop_bit 4 b"
  defines "d \<equiv> c OR drop_bit 8 c"
  defines "e \<equiv> d OR drop_bit 16 d"
  defines "f \<equiv> e OR drop_bit 32 e"
  shows "f = (if v = 0 then 0 else mask (Suc (findMsbSet v)))"
proof -
  have "bit a i \<longleftrightarrow> (\<exists>j<2. bit v (i + j))" for i
    using smear_step [of v 1 v] unfolding a_def by simp
  then have "bit b i \<longleftrightarrow> (\<exists>j<4. bit v (i + j))" for i
    using smear_step [of a 2 v] unfolding b_def by simp
  then have "bit c i \<longleftrightarrow> (\<exists>j<8. bit v (i + j))" for i
    using smear_step [of b 4 v] unfolding c_def by simp
  then have "bit d i \<longleftrightarrow> (\<exists>j<16. bit v (i + j))" for i
    using smear_step [of c 8 v] unfolding d_def by simp
  then have "bit e i \<longleftrightarrow> (\<exists>j<32. bit v (i + j))" for i
    using smear_step [of d 16 v] unfolding e_def by simp
  then have f: "bit f i \<longleftrightarrow> (\<exists>j<64. bit v (i + j))" for i
    using smear_step [of e 32 v] unfolding f_def by simp
  show ?thesis
  proof (cases "v = 0")
    case True
    then show ?thesis using f by (intro bit_word_eqI) simp
  next
    case False
    then have m: "bit v (findMsbSet v)" "\<And>i. findMsbSet v < i \<Longrightarrow> \<not> bit v i"
      using msb_search drop_bit_eq_1_iff by blast+
    have "bit f i \<longleftrightarrow> i < Suc (findMsbSet v)" for i
    proof
      assume "i < Suc (findMsbSet v)"
      then have "i + (findMsbSet v - i) = findMsbSet v" "findMsbSet v - i < 64"
        using bit_imp_le_length [OF m(1)] by auto
      then show "bit f i" using m(1) f by metis
    qed (use f m(2) in \<open>metis add_leD1 leI less_Suc_eq_le not_less_eq_eq\<close>)
    then show ?thesis using False bit_imp_le_length [OF m(1)]
      by (intro bit_word_eqI) (auto simp: bit_mask_iff)
  qed
qed

lemma findMsbSet_log:
  assumes "v \<noteq> 0"
  shows "2 ^ findMsbSet v \<le> unat v" "unat v < 2 ^ Suc (findMsbSet v)" "findMsbSet v < 64"
proof -
  let ?n = "findMsbSet v"
  have d: "drop_bit ?n v = 1" by (rule msb_search [OF assms])
  have "unat v div 2 ^ ?n = 1"
    using arg_cong [where f = unat, OF d] unfolding unat_drop_bit_eq by (simp add: drop_bit_eq_div)
  then have "1 \<le> unat v div 2 ^ ?n" "unat v div 2 ^ ?n < 2" by auto
  then show "2 ^ ?n \<le> unat v" "unat v < 2 ^ Suc ?n"
    by (auto simp: less_eq_div_iff_mult_less_eq div_less_iff_less_mult)
  show "?n < 64" using d bit_imp_le_length [of v ?n] by (simp add: drop_bit_eq_1_iff)
qed

lemma alignToPowerOfTwo_mask:
  "alignToPowerOfTwo v = (if v = 1 then 1 else mask (Suc (findMsbSet (v - 1))) + 1)"
  unfolding alignToPowerOfTwo_def Let_def smear_all by simp

lemma isPow2_iff: "isPow2 v \<longleftrightarrow> v = 0 \<or> (\<exists>k<64. v = 2 ^ k)"
proof
  assume p: "isPow2 v"
  show "v = 0 \<or> (\<exists>k<64. v = 2 ^ k)"
  proof (cases "v = 0")
    case False
    let ?n = "findMsbSet v"
    note m = findMsbSet_log [OF False]
    have "v = 2 ^ ?n"
    proof (rule ccontr)
      assume ne: "v \<noteq> 2 ^ ?n"
      have u: "unat (2 ^ ?n :: u64) = 2 ^ ?n" using m(3) by (simp add: unat_2p_u64)
      with ne m(1) have "2 ^ ?n \<le> unat v - 1" by (metis le_antisym not_less_eq_eq Suc_pred' word_unat_eq_iff
            le_0_eq neq0_conv power_not_zero zero_neq_numeral)
      moreover have "unat (v - 1) = unat v - 1" using False by (simp add: unat_minus_one)
      ultimately have "v - 1 \<noteq> 0" "unat (v - 1) div 2 ^ ?n = 1"
        using m(2) by (auto simp: div_nat_eqI)
      then have "drop_bit ?n (v - 1) = 1"
        by (simp add: word_unat_eq_iff unat_drop_bit_eq flip: drop_bit_eq_div)
      then have "bit (v - 1) ?n" "bit v ?n" using msb_search [OF False] by (auto simp: drop_bit_eq_1_iff)
      then have "bit (v AND (v - 1)) ?n" by (simp add: bit_and_iff)
      with p show False by (simp add: isPow2_def)
    qed
    then show ?thesis using m(3) by blast
  qed simp
next
  assume "v = 0 \<or> (\<exists>k<64. v = 2 ^ k)"
  then show "isPow2 v"
  proof
    assume "\<exists>k<64. v = 2 ^ k"
    then obtain k where k: "k < 64" "v = 2 ^ k" by blast
    have "(2 ^ k :: u64) AND mask k = 0"
      by (rule bit_word_eqI) (auto simp: bit_and_iff bit_mask_iff bit_exp_iff)
    then show ?thesis using k by (simp add: isPow2_def mask_eq_exp_minus_1)
  qed (simp add: isPow2_def)
qed

section \<open>Properties\<close>

text \<open>Inserting a field and reading it back gives the low bits of the value inserted, and every
  bit outside the field keeps its value.\<close>

theorem insertBits_extract:
  assumes "0 \<le> lo" "lo \<le> hi" "hi < 64"
  shows "bits (insertBits v hi lo b) hi lo = take_bit (nat (hi - lo + 1)) b \<and>
    (\<forall>i. (int i < lo \<or> hi < int i) \<longrightarrow> bit (insertBits v hi lo b) i = bit v i)"
proof
  show "bits (insertBits v hi lo b) hi lo = take_bit (nat (hi - lo + 1)) b"
    using assms by (intro bit_word_eqI) (auto simp: bit_bits bit_insertBits bit_take_bit_iff)
  show "\<forall>i. (int i < lo \<or> hi < int i) \<longrightarrow> bit (insertBits v hi lo b) i = bit v i"
    using assms by (auto simp: bit_insertBits)
qed

theorem insertBits_extract_witness:
  "bits (insertBits 0xffff 11 4 0x5a) 11 4 = take_bit 8 0x5a"
  using insertBits_extract [of 4 11 "0xffff" "0x5a"] by simp

text \<open>\<^verbatim>\<open>reverseBits\<close> accepts exactly the sizes up to eight bytes, mirrors the bits of that many
  bytes with its lookup table, and reversing twice restores them.\<close>

theorem reverseBits_mirror:
  "(\<exists>r. reverseBits v sz = Ok r \<and> (\<forall>i. bit r i = (i < 8 * sz \<and> bit v (8 * sz - 1 - i))) \<and>
      reverseBits r sz = Ok (take_bit (8 * sz) v)) = (sz \<le> 8)"
proof
  assume "sz \<le> 8"
  obtain r where r: "foldM (\<lambda>_. reverse_body) [0..<sz] (0, v) = Ok (r, drop_bit (8 * sz) v)"
    "\<And>i. bit r i \<longleftrightarrow> i < 8 * sz \<and> bit v (8 * sz - 1 - i)"
    using reverse_loop [OF \<open>sz \<le> 8\<close>] by blast
  obtain t where t: "foldM (\<lambda>_. reverse_body) [0..<sz] (0, r) = Ok (t, drop_bit (8 * sz) r)"
    "\<And>i. bit t i \<longleftrightarrow> i < 8 * sz \<and> bit r (8 * sz - 1 - i)"
    using reverse_loop [OF \<open>sz \<le> 8\<close>] by blast
  have "t = take_bit (8 * sz) v"
    by (rule bit_word_eqI) (auto simp: t(2) r(2) bit_take_bit_iff)
  with r t \<open>sz \<le> 8\<close> show "\<exists>r. reverseBits v sz = Ok r \<and>
      (\<forall>i. bit r i = (i < 8 * sz \<and> bit v (8 * sz - 1 - i))) \<and> reverseBits r sz = Ok (take_bit (8 * sz) v)"
    by (auto simp: reverseBits_def)
qed (auto simp: reverseBits_def result_simps)

text \<open>On every value up to \<open>2 ^ 63\<close>, \<^verbatim>\<open>alignToPowerOfTwo\<close> returns the least power of two that is
  not below it.\<close>

theorem alignToPowerOfTwo_least:
  assumes "0 < v" "v \<le> 2 ^ 63"
  shows "\<exists>k. unat (alignToPowerOfTwo v) = 2 ^ k \<and> unat v \<le> 2 ^ k \<and> (\<forall>j. unat v \<le> 2 ^ j \<longrightarrow> k \<le> j)"
proof (cases "v = 1")
  case True
  then show ?thesis by (intro exI [of _ 0]) (simp add: alignToPowerOfTwo_mask)
next
  case False
  then have ne: "v - 1 \<noteq> 0" by simp
  let ?n = "findMsbSet (v - 1)"
  note m = findMsbSet_log [OF ne]
  have u: "unat (v - 1) = unat v - 1" "0 < unat v" using assms(1) by (auto simp: unat_minus_one unat_gt_0)
  have "unat v \<le> 2 ^ 63" using assms(2) by (simp add: word_le_nat_alt)
  with m(1) u have "2 ^ ?n < (2 ^ 63 :: nat)" by linarith
  then have "?n < 63" by (rule power_less_imp_less_exp [rotated]) simp
  then have "alignToPowerOfTwo v = 2 ^ Suc ?n"
    using False by (simp add: alignToPowerOfTwo_mask mask_eq_exp_minus_1)
  then have "unat (alignToPowerOfTwo v) = 2 ^ Suc ?n" using \<open>?n < 63\<close> by (simp only: unat_2p_u64)
  moreover have "unat v \<le> 2 ^ Suc ?n" using m(2) u by linarith
  moreover have "Suc ?n \<le> j" if "unat v \<le> 2 ^ j" for j
  proof -
    have "2 ^ ?n < (2 ^ j :: nat)" using that m(1) u by linarith
    then show ?thesis using power_less_imp_less_exp [of 2 ?n j] by simp
  qed
  ultimately show ?thesis by blast
qed

theorem alignToPowerOfTwo_least_witness:
  "\<exists>k. unat (alignToPowerOfTwo 1000) = 2 ^ k \<and> unat (1000 :: u64) \<le> 2 ^ k"
  using alignToPowerOfTwo_least [of 1000] by auto

end
