(* ===== verification/Addr_Range.thy ===== *)
theory Addr_Range
  imports Bit_Field
begin

text \<open>
  \<^verbatim>\<open>base/addr_range.hh\<close>: contiguous and interleaved address ranges. An interleaved range keeps the
  addresses whose interleaving bits, possibly hashed with a second field, equal the match value.
\<close>

section \<open>State and constructors\<close>

record AddrRange =
  rg_start :: Addr
  rg_end :: Addr
  rg_intlvHighBit :: u8
  rg_xorHighBit :: u8
  rg_intlvBits :: u8
  rg_intlvMatch :: u8

definition AddrRange_empty :: AddrRange where
  "AddrRange_empty = \<lparr>rg_start = 1, rg_end = 0, rg_intlvHighBit = 0, rg_xorHighBit = 0,
     rg_intlvBits = 0, rg_intlvMatch = 0\<rparr>"

definition AddrRange_plain :: "Addr \<Rightarrow> Addr \<Rightarrow> AddrRange" where
  "AddrRange_plain st en = \<lparr>rg_start = st, rg_end = en, rg_intlvHighBit = 0, rg_xorHighBit = 0,
     rg_intlvBits = 0, rg_intlvMatch = 0\<rparr>"

text \<open>The high bits are promoted to \<^verbatim>\<open>int\<close> in the checks. \<^verbatim>\<open>ULL(1) << intlvBits\<close> needs fewer than
  64 interleaving bits.\<close>

definition AddrRange_intlv :: "Addr \<Rightarrow> Addr \<Rightarrow> u8 \<Rightarrow> u8 \<Rightarrow> u8 \<Rightarrow> u8 \<Rightarrow> AddrRange result" where
  "AddrRange_intlv st en hb xb nb mt =
     bindR (assertR (\<not> (nb \<noteq> 0 \<and> (ucast mt :: u64) \<ge> push_bit (unat nb) 1)) Fatal) (\<lambda>_.
     bindR (if nb \<noteq> 0 \<and> xb \<noteq> 0
            then if xb = hb then Error Fatal
                 else if xb > hb
                 then assertR (\<not> (uint xb - uint hb < uint nb)) Fatal
                 else assertR (\<not> (uint hb - uint xb < uint nb)) Fatal
            else Ok ()) (\<lambda>_.
       Ok \<lparr>rg_start = st, rg_end = en, rg_intlvHighBit = hb, rg_xorHighBit = xb,
           rg_intlvBits = nb, rg_intlvMatch = mt\<rparr>))"

definition mergesWith :: "AddrRange \<Rightarrow> AddrRange \<Rightarrow> bool" where
  "mergesWith self r \<longleftrightarrow> rg_start r = rg_start self \<and> rg_end r = rg_end self \<and>
     rg_intlvHighBit r = rg_intlvHighBit self \<and> rg_xorHighBit r = rg_xorHighBit self \<and>
     rg_intlvBits r = rg_intlvBits self"

text \<open>The merging constructor: the match values must count up from 0 (in 8 bits).\<close>

definition merge_step :: "AddrRange \<Rightarrow> AddrRange \<Rightarrow> u8 \<Rightarrow> u8 result" where
  "merge_step self r mt =
     bindR (assertR (mergesWith self r) Fatal) (\<lambda>_.
     bindR (assertR (\<not> (rg_intlvMatch r \<noteq> mt)) Fatal) (\<lambda>_. Ok (mt + 1)))"

definition AddrRange_merge :: "AddrRange list \<Rightarrow> AddrRange result" where
  "AddrRange_merge ranges =
     (case ranges of [] \<Rightarrow> Ok AddrRange_empty
      | front # _ \<Rightarrow>
          let self = front\<lparr>rg_intlvMatch := 0\<rparr> in
          bindR (assertR (\<not> (of_nat (length ranges) \<noteq> (push_bit (unat (rg_intlvBits self)) 1 :: u64))) Fatal) (\<lambda>_.
          bindR (foldM (merge_step self) ranges 0) (\<lambda>_.
            Ok (self\<lparr>rg_intlvHighBit := 0, rg_xorHighBit := 0, rg_intlvBits := 0\<rparr>))))"

section \<open>Queries\<close>

definition interleaved :: "AddrRange \<Rightarrow> bool" where
  "interleaved r \<longleftrightarrow> rg_intlvBits r \<noteq> 0"

definition hashed :: "AddrRange \<Rightarrow> bool" where
  "hashed r \<longleftrightarrow> interleaved r \<and> rg_xorHighBit r \<noteq> 0"

definition range_size :: "AddrRange \<Rightarrow> Addr" where
  "range_size r = drop_bit (unat (rg_intlvBits r)) (rg_end r - rg_start r + 1)"

text \<open>The low bits are stored in \<^verbatim>\<open>uint8_t\<close>.\<close>

definition granularity :: "AddrRange \<Rightarrow> u64" where
  "granularity r =
     (if interleaved r
      then let intlv_low_bit = rg_intlvHighBit r - rg_intlvBits r + 1 in
           if hashed r
           then let xor_low_bit = rg_xorHighBit r - rg_intlvBits r + 1
                in push_bit (unat (min intlv_low_bit xor_low_bit)) 1
           else push_bit (unat intlv_low_bit) 1
      else range_size r)"

definition stripes :: "AddrRange \<Rightarrow> u32" where
  "stripes r = ucast (push_bit (unat (rg_intlvBits r)) 1 :: u64)"

definition range_valid :: "AddrRange \<Rightarrow> bool" where
  "range_valid r \<longleftrightarrow> rg_start r \<le> rg_end r"

text \<open>The field of \<open>intlvBits\<close> bits whose high bit is \<open>hb\<close>.\<close>

definition intlv_field :: "AddrRange \<Rightarrow> u8 \<Rightarrow> Addr \<Rightarrow> u64" where
  "intlv_field r hb a = bits a (uint hb) (uint hb - uint (rg_intlvBits r) + 1)"

definition intlv_value :: "AddrRange \<Rightarrow> Addr \<Rightarrow> u64" where
  "intlv_value r a =
     (if \<not> hashed r then intlv_field r (rg_intlvHighBit r) a
      else intlv_field r (rg_intlvHighBit r) a XOR intlv_field r (rg_xorHighBit r) a)"

definition range_contains :: "AddrRange \<Rightarrow> Addr \<Rightarrow> bool" where
  "range_contains r a =
     (let in_range = a \<ge> rg_start r \<and> a \<le> rg_end r in
      if \<not> interleaved r then in_range
      else if in_range then intlv_value r a = ucast (rg_intlvMatch r)
      else False)"

definition range_intersects :: "AddrRange \<Rightarrow> AddrRange \<Rightarrow> bool result" where
  "range_intersects self r =
     (if rg_start self > rg_end r \<or> rg_end self < rg_start r then Ok False
      else if \<not> interleaved self \<and> \<not> interleaved r then Ok True
      else if range_size r = 1 then Ok (range_contains self (rg_start r))
      else if mergesWith self r then Ok (rg_intlvMatch self = rg_intlvMatch r)
      else Error Panic)"

definition isSubset :: "AddrRange \<Rightarrow> AddrRange \<Rightarrow> bool result" where
  "isSubset self r =
     bindR (assertR (\<not> interleaved self) Panic) (\<lambda>_.
       if interleaved r
       then Ok (range_contains r (rg_start self) \<and> range_contains r (rg_end self) \<and>
                range_size self \<le> granularity r)
       else Ok (rg_start self \<ge> rg_start r \<and> rg_end self \<le> rg_end r))"

definition removeIntlvBits :: "AddrRange \<Rightarrow> Addr \<Rightarrow> Addr" where
  "removeIntlvBits r a =
     (let intlv_low_bit = uint (rg_intlvHighBit r) - uint (rg_intlvBits r) + 1
      in insertBits (drop_bit (unat (rg_intlvBits r)) a) (intlv_low_bit - 1) 0 a)"

definition MaxAddr :: Addr where "MaxAddr = - 1"

definition range_getOffset :: "AddrRange \<Rightarrow> Addr \<Rightarrow> Addr" where
  "range_getOffset r a =
     (let in_range = a \<ge> rg_start r \<and> a \<le> rg_end r in
      if \<not> in_range then MaxAddr
      else if interleaved r then removeIntlvBits r a - removeIntlvBits r (rg_start r)
      else a - rg_start r)"

definition range_less :: "AddrRange \<Rightarrow> AddrRange \<Rightarrow> bool" where
  "range_less self r =
     (if rg_start self \<noteq> rg_start r then rg_start self < rg_start r
      else rg_intlvMatch self < rg_intlvMatch r)"

definition range_eq :: "AddrRange \<Rightarrow> AddrRange \<Rightarrow> bool" where
  "range_eq self r =
     (if rg_start self \<noteq> rg_start r then False
      else if rg_end self \<noteq> rg_end r then False
      else if rg_intlvBits self \<noteq> rg_intlvBits r then False
      else if rg_intlvBits self \<noteq> 0
           then if rg_intlvHighBit self \<noteq> rg_intlvHighBit r then False
                else if rg_intlvMatch self \<noteq> rg_intlvMatch r then False
                else True
           else True)"

definition RangeEx :: "Addr \<Rightarrow> Addr \<Rightarrow> AddrRange" where "RangeEx st en = AddrRange_plain st (en - 1)"
definition RangeIn :: "Addr \<Rightarrow> Addr \<Rightarrow> AddrRange" where "RangeIn st en = AddrRange_plain st en"
definition RangeSize :: "Addr \<Rightarrow> Addr \<Rightarrow> AddrRange" where
  "RangeSize st sz = AddrRange_plain st (st + sz - 1)"

section \<open>Well-formed interleaving\<close>

text \<open>
  What the constructor checks, together with the fields lying inside the address: every
  interleaved range the simulator builds satisfies it.
\<close>

definition range_ok :: "AddrRange \<Rightarrow> bool" where
  "range_ok r \<longleftrightarrow>
     (let h = unat (rg_intlvHighBit r); x = unat (rg_xorHighBit r); n = unat (rg_intlvBits r) in
      n \<le> 8 \<and> unat (rg_intlvMatch r) < 2 ^ n \<and>
      (interleaved r \<longrightarrow> h < 64 \<and> n \<le> h + 1) \<and>
      (hashed r \<longrightarrow> x < 64 \<and> n \<le> x + 1 \<and> (h + n \<le> x \<or> x + n \<le> h)))"

lemma interleaved_pos: "interleaved r \<longleftrightarrow> 0 < unat (rg_intlvBits r)"
  by (simp add: interleaved_def unat_gt_0)

definition field_ok :: "AddrRange \<Rightarrow> u8 \<Rightarrow> bool" where
  "field_ok r hb \<longleftrightarrow> interleaved r \<and> unat hb < 64 \<and> unat (rg_intlvBits r) \<le> unat hb + 1 \<and> unat (rg_intlvBits r) \<le> 8"

definition field_low :: "AddrRange \<Rightarrow> u8 \<Rightarrow> nat" where
  "field_low r hb = unat hb + 1 - unat (rg_intlvBits r)"

lemma bits_field:
  assumes "h < 64" "n \<le> h + 1"
  shows "bits a (int h) (int h - int n + 1) = take_bit n (drop_bit (h + 1 - n) a)"
proof -
  have "nat (int h - int n + 1) = h + 1 - n" "nat (int h - (int h - int n + 1) + 1) = n"
    using assms(2) by linarith+
  then show ?thesis using assms bits_eq_take_drop [of "int h - int n + 1" "int h" a] by simp
qed

lemma intlv_field_bits:
  assumes "field_ok r hb"
  shows "intlv_field r hb a = take_bit (unat (rg_intlvBits r)) (drop_bit (field_low r hb) a)"
  using assms bits_field [of "unat hb" "unat (rg_intlvBits r)" a]
  by (simp add: field_ok_def intlv_field_def field_low_def)

lemma bit_intlv_field:
  assumes "field_ok r hb"
  shows "bit (intlv_field r hb a) i \<longleftrightarrow> i < unat (rg_intlvBits r) \<and> bit a (field_low r hb + i)"
  using assms by (auto simp: intlv_field_bits bit_take_bit_iff bit_drop_bit_eq)

lemma range_ok_fields:
  assumes "range_ok r" "interleaved r"
  shows "field_ok r (rg_intlvHighBit r)" "hashed r \<Longrightarrow> field_ok r (rg_xorHighBit r)"
  using assms by (auto simp: range_ok_def field_ok_def Let_def)

lemma intlv_value_less:
  assumes "range_ok r" "interleaved r"
  shows "unat (intlv_value r a) < 2 ^ unat (rg_intlvBits r)"
proof -
  have "take_bit (unat (rg_intlvBits r)) (intlv_value r a) = intlv_value r a"
    using range_ok_fields [OF assms]
    by (intro bit_word_eqI) (auto simp: intlv_value_def bit_take_bit_iff bit_intlv_field bit_xor_iff)
  then show ?thesis using take_bit_nat_less_exp [of "unat (rg_intlvBits r)" "unat (intlv_value r a)"]
    by (metis unsigned_take_bit_eq)
qed

text \<open>The interleaving value depends on the address bits above the granularity only.\<close>

definition gran_bits :: "AddrRange \<Rightarrow> nat" where
  "gran_bits r = (if hashed r then min (field_low r (rg_intlvHighBit r)) (field_low r (rg_xorHighBit r))
                  else field_low r (rg_intlvHighBit r))"

lemma intlv_value_block:
  assumes "range_ok r" "interleaved r" "drop_bit (gran_bits r) a = drop_bit (gran_bits r) b"
  shows "intlv_value r a = intlv_value r b"
proof -
  have "drop_bit k a = drop_bit k b" if "gran_bits r \<le> k" for k
    using arg_cong [where f = "drop_bit (k - gran_bits r)", OF assms(3)] that
    by (simp add: drop_bit_drop_bit)
  then show ?thesis
    using range_ok_fields [OF assms(1,2)] by (auto simp: intlv_value_def intlv_field_bits gran_bits_def)
qed

lemma unat_low_bit:
  assumes "field_ok r hb"
  shows "unat (hb - rg_intlvBits r + 1) = field_low r hb"
proof -
  let ?n = "unat (rg_intlvBits r)" and ?h = "unat hb"
  have le: "?n \<le> ?h + 1" "?h < 64" using assms by (auto simp: field_ok_def)
  have e: "hb - rg_intlvBits r + 1 = (hb + 1) - rg_intlvBits r" by simp
  have u: "unat (hb + 1) = ?h + 1" using le by (simp add: unat_word_ariths)
  then have "rg_intlvBits r \<le> hb + 1" using le by (simp add: word_le_nat_alt)
  then show ?thesis unfolding e by (simp only: unat_sub u field_low_def)
qed

lemma granularity_gran_bits:
  assumes "range_ok r" "interleaved r"
  shows "granularity r = 2 ^ gran_bits r"
proof -
  note f = range_ok_fields [OF assms]
  have m: "unat (min a b) = min (unat a) (unat b)" for a b :: u8
    by (auto simp: min_def word_le_nat_alt)
  show ?thesis
    using f unat_low_bit [OF f(1)] unat_low_bit [OF f(2)] assms(2)
    by (auto simp: granularity_def gran_bits_def Let_def m push_bit_eq_mult)
qed

lemma gran_bits_less: "range_ok r \<Longrightarrow> interleaved r \<Longrightarrow> gran_bits r < 64"
  by (auto simp: range_ok_def gran_bits_def field_low_def Let_def interleaved_pos)

section \<open>Offsets\<close>

lemma bit_removeIntlvBits:
  assumes "range_ok r" "interleaved r"
  defines "l \<equiv> field_low r (rg_intlvHighBit r)"
  shows "bit (removeIntlvBits r a) i \<longleftrightarrow>
    (if i < l then bit a i else bit a (unat (rg_intlvBits r) + i))"
proof -
  let ?n = "unat (rg_intlvBits r)" and ?h = "unat (rg_intlvHighBit r)"
  have f: "?h < 64" "?n \<le> ?h + 1" "0 < ?n"
    using range_ok_fields(1) [OF assms(1,2)] assms(2) by (auto simp: field_ok_def interleaved_pos)
  have l64: "l < 64" using f by (simp add: l_def field_low_def)
  have l: "int ?h - int ?n + 1 - 1 = int l - 1" using f(2) by (simp add: l_def field_low_def)
  have "bit (insertBits (drop_bit ?n a) (int l - 1) 0 a) i \<longleftrightarrow>
      (if 0 \<le> int i \<and> int i \<le> int l - 1 then bit a (i - nat 0) else bit (drop_bit ?n a) i)"
    using l64 by (intro bit_insertBits) auto
  then show ?thesis unfolding removeIntlvBits_def Let_def
    using l by (auto simp: bit_drop_bit_eq)
qed

text \<open>Dropping the interleaving bits loses nothing once the interleaving value is known.\<close>

lemma removeIntlvBits_inj:
  assumes "range_ok r" "interleaved r" "removeIntlvBits r a = removeIntlvBits r b"
    and "intlv_value r a = intlv_value r b"
  shows "a = b"
proof -
  let ?n = "unat (rg_intlvBits r)" and ?l = "field_low r (rg_intlvHighBit r)"
  let ?m = "field_low r (rg_xorHighBit r)"
  note f = range_ok_fields [OF assms(1,2)]
  note rm = bit_removeIntlvBits [OF assms(1,2)]
  have outside: "bit a i = bit b i" if "i < ?l \<or> ?l + ?n \<le> i" for i
  proof (cases "i < ?l")
    case True
    then show ?thesis using rm [of a i] rm [of b i] assms(3) by simp
  next
    case False
    with that have "\<not> i - ?n < ?l" "?n + (i - ?n) = i" by auto
    then show ?thesis using rm [of a "i - ?n"] rm [of b "i - ?n"] assms(3) by simp
  qed
  have inside: "bit a (?l + i) = bit b (?l + i)" if "i < ?n" for i
  proof (cases "hashed r")
    case False
    then show ?thesis using assms(4) bit_intlv_field [OF f(1), of a i] bit_intlv_field [OF f(1), of b i] that
      by (simp add: intlv_value_def)
  next
    case True
    have "?m + i < ?l \<or> ?l + ?n \<le> ?m + i"
      using assms(1,2) True that by (auto simp: range_ok_def Let_def field_low_def)
    then have "bit a (?m + i) = bit b (?m + i)" by (rule outside)
    then have "bit (intlv_field r (rg_xorHighBit r) a) i = bit (intlv_field r (rg_xorHighBit r) b) i"
      using bit_intlv_field [OF f(2) [OF True]] by simp
    moreover have "bit (intlv_value r a) i = bit (intlv_value r b) i" using assms(4) by simp
    ultimately show ?thesis
      using bit_intlv_field [OF f(1), of a i] bit_intlv_field [OF f(1), of b i] that True
      by (auto simp: intlv_value_def bit_xor_iff)
  qed
  show ?thesis
  proof (rule bit_word_eqI)
    fix i
    show "bit a i = bit b i"
      using outside [of i] inside [of "i - ?l"] by (cases "i < ?l \<or> ?l + ?n \<le> i") auto
  qed
qed

section \<open>Merging\<close>

lemma merge_loop:
  assumes "foldM (merge_step self) rs m = Ok m'"
  shows "i < length rs \<Longrightarrow> mergesWith self (rs ! i) \<and> rg_intlvMatch (rs ! i) = m + of_nat i"
  using assms
proof (induction rs arbitrary: i m)
  case (Cons r rs)
  from Cons.prems(2) obtain k where k: "merge_step self r m = Ok k" "foldM (merge_step self) rs k = Ok m'"
    by (auto simp: result_simps)
  from k(1) have "mergesWith self r" "rg_intlvMatch r = m" "k = m + 1"
    by (auto simp: merge_step_def result_simps)
  with k(2) have r: "mergesWith self r" "rg_intlvMatch r = m" "foldM (merge_step self) rs (m + 1) = Ok m'"
    by simp_all
  show ?case
  proof (cases i)
    case (Suc k)
    with Cons.IH [OF _ r(3), of k] Cons.prems(1) show ?thesis by (simp add: algebra_simps)
  qed (use r in simp)
qed simp

lemma merge_ranges:
  assumes "AddrRange_merge rs = Ok m" "rs \<noteq> []" "range_ok (hd rs)" "length rs < 2 ^ 64"
  defines "n \<equiv> unat (rg_intlvBits (hd rs))"
  shows "length rs = 2 ^ n" "n \<le> 8"
    "\<And>i. i < length rs \<Longrightarrow> mergesWith (hd rs) (rs ! i) \<and> unat (rg_intlvMatch (rs ! i)) = i"
    "m = AddrRange_plain (rg_start (hd rs)) (rg_end (hd rs))"
proof -
  obtain r rs' where rs: "rs = r # rs'" using assms(2) by (cases rs) auto
  let ?self = "r\<lparr>rg_intlvMatch := 0\<rparr>"
  show n: "n \<le> 8" using assms(3) by (simp add: n_def range_ok_def Let_def)
  from assms(1) rs have len: "of_nat (length rs) = (push_bit n 1 :: u64)"
    and m: "m = ?self\<lparr>rg_intlvHighBit := 0, rg_xorHighBit := 0, rg_intlvBits := 0\<rparr>"
    and loop: "\<exists>k. foldM (merge_step ?self) rs 0 = Ok k"
    by (auto simp: AddrRange_merge_def n_def Let_def result_simps)
  have "unat (of_nat (length rs) :: u64) = length rs"
    using assms(4) by (simp add: unsigned_of_nat take_bit_nat_eq_self)
  moreover have "unat (push_bit n 1 :: u64) = 2 ^ n" using n by (simp add: push_bit_eq_mult unat_2p_u64)
  ultimately show l: "length rs = 2 ^ n" using arg_cong [where f = unat, OF len] by simp
  have le: "(2 :: nat) ^ n \<le> 2 ^ 8" using n by (intro power_increasing) auto
  fix i
  assume i: "i < length rs"
  with l le have "unat (of_nat i :: u8) = i" by (simp add: unsigned_of_nat take_bit_nat_eq_self)
  then show "mergesWith (hd rs) (rs ! i) \<and> unat (rg_intlvMatch (rs ! i)) = i"
    using merge_loop i loop rs by (auto simp: mergesWith_def)
next
  show "m = AddrRange_plain (rg_start (hd rs)) (rg_end (hd rs))"
  proof -
    obtain r rs' where rs: "rs = r # rs'" using assms(2) by (cases rs) auto
    with assms(1) show ?thesis by (auto simp: AddrRange_merge_def AddrRange_plain_def Let_def result_simps)
  qed
qed

lemma merged_contains:
  assumes "mergesWith q r" "range_ok q" "interleaved q"
  shows "range_contains r a \<longleftrightarrow> rg_start q \<le> a \<and> a \<le> rg_end q \<and>
    unat (intlv_value q a) = unat (rg_intlvMatch r)"
proof -
  have "intlv_value r a = intlv_value q a" "interleaved r"
    using assms by (auto simp: mergesWith_def intlv_value_def intlv_field_def hashed_def interleaved_def)
  moreover have "unat (ucast (rg_intlvMatch r) :: u64) = unat (rg_intlvMatch r)"
    using unsigned_less [of "rg_intlvMatch r", where ?'a = nat]
    by (simp add: unsigned_ucast_eq take_bit_nat_eq_self)
  then have "intlv_value q a = ucast (rg_intlvMatch r) \<longleftrightarrow> unat (intlv_value q a) = unat (rg_intlvMatch r)"
    by (metis word_unat_eq_iff)
  ultimately show ?thesis
    using assms(1) by (auto simp: range_contains_def Let_def mergesWith_def)
qed

lemma div_between:
  fixes s a e :: nat
  assumes "s \<le> a" "a \<le> e" "e - s < g" "0 < g"
  shows "a div g = s div g \<or> a div g = e div g"
proof -
  have "s div g \<le> a div g" "a div g \<le> e div g" using assms by (auto intro: div_le_mono)
  moreover have "e div g \<le> Suc (s div g)"
  proof -
    have "e < s + g" using assms by linarith
    then have "e div g \<le> (s + g) div g" by (intro div_le_mono) simp
    then show ?thesis using assms(4) div_add_self2 [of g s] by simp
  qed
  ultimately show ?thesis by linarith
qed

lemma drop_bit_between:
  fixes s a e :: u64
  assumes "s \<le> a" "a \<le> e" "unat e - unat s < 2 ^ g"
  shows "drop_bit g a = drop_bit g s \<or> drop_bit g a = drop_bit g e"
proof -
  have "unat a div 2 ^ g = unat s div 2 ^ g \<or> unat a div 2 ^ g = unat e div 2 ^ g"
    using assms by (intro div_between) (auto simp: word_le_nat_alt)
  moreover have "unat (drop_bit g x) = unat x div 2 ^ g" for x :: u64
    by (simp add: unat_drop_bit_eq flip: drop_bit_eq_div)
  ultimately show ?thesis by (metis word_unat_eq_iff)
qed

section \<open>Properties\<close>

text \<open>C28: a complete set of interleaved ranges partitions the contiguous range it merges to: every
  address of the merged range lies in exactly one of the interleaved ranges, an address outside
  in none, with or without hashing.\<close>

theorem merge_partition:
  assumes "AddrRange_merge rs = Ok m" "rs \<noteq> []" "range_ok (hd rs)" "length rs < 2 ^ 64"
  shows "(range_contains m a \<longrightarrow> (\<exists>!i. i < length rs \<and> range_contains (rs ! i) a)) \<and>
    (\<not> range_contains m a \<longrightarrow> \<not> (\<exists>r\<in>set rs. range_contains r a))"
proof -
  let ?q = "hd rs"
  note mg = merge_ranges [OF assms]
  have m: "range_contains m a \<longleftrightarrow> rg_start ?q \<le> a \<and> a \<le> rg_end ?q"
    unfolding mg(4) by (simp add: AddrRange_plain_def range_contains_def interleaved_def)
  show ?thesis
  proof (cases "interleaved ?q")
    case True
    let ?v = "unat (intlv_value ?q a)"
    have c: "range_contains (rs ! i) a \<longleftrightarrow> range_contains m a \<and> i = ?v" if "i < length rs" for i
      using merged_contains [of ?q "rs ! i" a] mg(3) [OF that] assms(3) True m by auto
    have "?v < length rs" using intlv_value_less [OF assms(3) True] mg(1) by simp
    then show ?thesis using c by (auto simp: in_set_conv_nth)
  next
    case False
    then have "length rs = 1" using mg(1) by (simp add: interleaved_def)
    then obtain r where r: "rs = [r]" by (auto simp: length_Suc_conv)
    then show ?thesis using m False by (auto simp: range_contains_def)
  qed
qed

definition two_banks :: "AddrRange list" where
  "two_banks = map (\<lambda>i. \<lparr>rg_start = 0, rg_end = 0xfff, rg_intlvHighBit = 6, rg_xorHighBit = 9,
     rg_intlvBits = 1, rg_intlvMatch = i\<rparr>) [0, 1]"

lemma two_banks_merge: "AddrRange_merge two_banks = Ok (RangeIn 0 0xfff)" "range_ok (hd two_banks)"
  by (simp_all add: two_banks_def AddrRange_merge_def merge_step_def mergesWith_def Let_def RangeIn_def
      AddrRange_plain_def range_ok_def interleaved_def hashed_def)

theorem merge_partition_witness:
  "\<exists>!i. i < length two_banks \<and> range_contains (two_banks ! i) 0x240"
proof -
  have "range_contains (RangeIn 0 0xfff) 0x240"
    by (simp add: RangeIn_def AddrRange_plain_def range_contains_def interleaved_def)
  moreover have "two_banks \<noteq> []" "length two_banks < 2 ^ 64" by (simp_all add: two_banks_def)
  ultimately show ?thesis using merge_partition [OF two_banks_merge(1) _ two_banks_merge(2), of "0x240"] by blast
qed

text \<open>The offset of an address inside an interleaved or contiguous range identifies the address:
  two addresses of the range with the same offset are equal.\<close>

theorem getOffset_unique:
  assumes "range_ok r" "range_contains r a" "range_contains r b" "range_getOffset r a = range_getOffset r b"
  shows "a = b"
proof (cases "interleaved r")
  case True
  with assms have "removeIntlvBits r a = removeIntlvBits r b" "intlv_value r a = intlv_value r b"
    by (auto simp: range_contains_def range_getOffset_def Let_def split: if_splits)
  then show ?thesis using removeIntlvBits_inj assms(1) True by blast
next
  case False
  with assms show ?thesis by (auto simp: range_contains_def range_getOffset_def Let_def split: if_splits)
qed

theorem getOffset_unique_witness:
  "range_contains (two_banks ! 0) 0x80 \<and> range_contains (two_banks ! 0) 0x240 \<and>
   range_getOffset (two_banks ! 0) 0x80 \<noteq> range_getOffset (two_banks ! 0) 0x240"
proof -
  have c: "range_contains (two_banks ! 0) 0x80" "range_contains (two_banks ! 0) 0x240"
    by (simp_all add: two_banks_def range_contains_def interleaved_def intlv_value_def hashed_def intlv_field_def
        bits_def mask_bits_def)
  have "range_ok (two_banks ! 0)" using two_banks_merge(2) by (simp add: two_banks_def)
  with getOffset_unique [OF _ c] c show ?thesis by auto
qed

text \<open>\<^verbatim>\<open>isSubset\<close> never wrongly reports a subset: when it answers true for a range that is not the
  whole address space, every address of the first range is in the second, interleaved or not.\<close>

theorem isSubset_sound:
  assumes "isSubset self r = Ok True" "range_ok r" "range_valid self"
    and "\<not> (rg_start self = 0 \<and> rg_end self = MaxAddr)" "range_contains self a"
  shows "range_contains r a"
proof -
  from assms(1) have ni: "\<not> interleaved self" by (auto simp: isSubset_def result_simps)
  with assms(5) have a: "rg_start self \<le> a" "a \<le> rg_end self" by (auto simp: range_contains_def Let_def)
  show ?thesis
  proof (cases "interleaved r")
    case False
    with assms(1) ni a show ?thesis
      by (auto simp: isSubset_def range_contains_def Let_def)
  next
    case True
    from assms(1) ni True have c: "range_contains r (rg_start self)" "range_contains r (rg_end self)"
      "range_size self \<le> granularity r" by (auto simp: isSubset_def)
    let ?d = "rg_end self - rg_start self"
    have d: "unat ?d = unat (rg_end self) - unat (rg_start self)"
      using assms(3) by (simp add: range_valid_def unat_sub)
    have "?d \<noteq> MaxAddr"
    proof
      assume max: "?d = MaxAddr"
      then have "unat (rg_end self) - unat (rg_start self) = 2 ^ 64 - 1"
        using d by (simp add: MaxAddr_def unsigned_minus_1_eq_mask mask_eq_exp_minus_1)
      then have "unat (rg_start self) = 0" using unat_less_u64 [of "rg_end self"] by simp
      then have "rg_start self = 0" by (simp add: unat_eq_zero)
      with max assms(4) show False by simp
    qed
    then have "?d + 1 \<noteq> 0" by (metis MaxAddr_def eq_neg_iff_add_eq_0)
    then have "unat (?d + 1) = Suc (unat ?d)" by (simp add: unatSuc add.commute)
    moreover have "range_size self = ?d + 1" using ni by (simp add: range_size_def interleaved_def)
    moreover have "unat (granularity r) = 2 ^ gran_bits r"
      using granularity_gran_bits gran_bits_less assms(2) True by (simp add: unat_2p_u64)
    ultimately have "unat (rg_end self) - unat (rg_start self) < 2 ^ gran_bits r"
      using c(3) d by (simp add: word_le_nat_alt)
    from drop_bit_between [OF a this] have "intlv_value r a = intlv_value r (rg_start self) \<or>
        intlv_value r a = intlv_value r (rg_end self)"
      using intlv_value_block [OF assms(2) True, of a] by blast
    then have "intlv_value r a = ucast (rg_intlvMatch r)"
      using c(1,2) True by (auto simp: range_contains_def Let_def split: if_splits)
    then show ?thesis using a c(1,2) True by (auto simp: range_contains_def Let_def split: if_splits)
  qed
qed

theorem isSubset_sound_witness: "range_contains (two_banks ! 0) 0x90"
proof -
  have "isSubset (RangeSize 0x80 0x40) (two_banks ! 0) = Ok True"
    by (simp add: two_banks_def RangeSize_def AddrRange_plain_def isSubset_def range_contains_def interleaved_def
        intlv_value_def hashed_def intlv_field_def bits_def mask_bits_def range_size_def granularity_def)
  moreover have "range_ok (two_banks ! 0)" using two_banks_merge(2) by (simp add: two_banks_def)
  ultimately show ?thesis
    by (rule isSubset_sound)
      (simp_all add: RangeSize_def AddrRange_plain_def range_valid_def range_contains_def interleaved_def)
qed

text \<open>Against a contiguous range, \<^verbatim>\<open>intersects\<close> is exact: the answer says whether the two ranges
  have an address in common.\<close>

theorem intersects_exact:
  assumes "range_intersects self r = Ok b" "\<not> interleaved r" "range_valid self" "range_valid r"
  shows "b \<longleftrightarrow> (\<exists>a. range_contains self a \<and> range_contains r a)"
proof (cases "rg_start self > rg_end r \<or> rg_end self < rg_start r")
  case True
  then show ?thesis using assms by (auto simp: range_intersects_def range_contains_def Let_def split: if_splits)
next
  case False
  show ?thesis
  proof (cases "interleaved self")
    case ni: False
    then have "b" using False assms(1,2) by (simp add: range_intersects_def)
    moreover have "range_contains self (max (rg_start self) (rg_start r))"
      "range_contains r (max (rg_start self) (rg_start r))"
      using False ni assms(2-4) by (auto simp: range_contains_def range_valid_def max_def)
    ultimately show ?thesis by blast
  next
    case True
    then have nm: "\<not> mergesWith self r" using assms(2) by (auto simp: mergesWith_def interleaved_def)
    with True False assms(1,2) have s: "range_size r = 1" "b = range_contains self (rg_start r)"
      by (auto simp: range_intersects_def split: if_splits)
    have "rg_end r - rg_start r + 1 = 1"
      using s(1) assms(2) by (simp add: range_size_def interleaved_def)
    then have "rg_end r = rg_start r" by simp
    then have "range_contains r a \<longleftrightarrow> a = rg_start r" for a
      using assms(2) by (auto simp: range_contains_def)
    then show ?thesis using s(2) by auto
  qed
qed

theorem intersects_exact_witness:
  "\<exists>a. range_contains (RangeSize 0x1000 0x100) a \<and> range_contains (RangeSize 0x10ff 0x100) a"
proof -
  have "range_intersects (RangeSize 0x1000 0x100) (RangeSize 0x10ff 0x100) = Ok True"
    by (simp add: range_intersects_def RangeSize_def AddrRange_plain_def interleaved_def)
  from intersects_exact [OF this] show ?thesis
    by (simp add: RangeSize_def AddrRange_plain_def interleaved_def range_valid_def)
qed

end
