(* ===== verification/Mem_Cmd.thy ===== *)
theory Mem_Cmd
  imports Alpine_Prelude
begin

text \<open>
  Memory commands (\<^verbatim>\<open>class MemCmd\<close> of \<^verbatim>\<open>mem/packet.hh\<close>) and the table
  \<^verbatim>\<open>MemCmd::commandInfo\<close> of \<^verbatim>\<open>mem/packet.cc\<close> that gives every command its attributes, its
  response and its name. The bit set of attributes is the list of the attributes set.
\<close>

section \<open>Commands and attributes\<close>

datatype Command =
  InvalidCmd | ReadReq | ReadResp | ReadRespWithInvalidate | WriteReq | WriteResp
   | WritebackDirty | WritebackClean | WriteClean | CleanEvict | SoftPFReq | HardPFReq
   | SoftPFResp | HardPFResp | WriteLineReq | UpgradeReq | SCUpgradeReq | UpgradeResp
   | SCUpgradeFailReq | UpgradeFailResp | ReadExReq | ReadExResp | ReadCleanReq
   | ReadSharedReq | LoadLockedReq | StoreCondReq | StoreCondFailReq | StoreCondResp
   | SwapReq | SwapResp | MessageReq | MessageResp | MemFenceReq | MemFenceResp
   | CleanSharedReq | CleanSharedResp | CleanInvalidReq | CleanInvalidResp
   | InvalidDestError | BadAddressError | FunctionalReadError | FunctionalWriteError
   | PrintReq | FlushReq | InvalidateReq | InvalidateResp

datatype Attribute =
  IsRead | IsWrite | IsUpgrade | IsInvalidate | IsClean | NeedsWritable | IsRequest
   | IsResponse | NeedsResponse | IsEviction | IsSWPrefetch | IsHWPrefetch | IsLlsc
   | HasData | IsError | IsPrint | IsFlush | FromCache

text \<open>The command table, row by row.\<close>

fun commandInfo :: "Command \<Rightarrow> Attribute list \<times> Command \<times> string" where
  "commandInfo InvalidCmd =
     ([], InvalidCmd, ''InvalidCmd'')"
| "commandInfo ReadReq =
     ([IsRead, IsRequest, NeedsResponse], ReadResp, ''ReadReq'')"
| "commandInfo ReadResp =
     ([IsRead, IsResponse, HasData], InvalidCmd, ''ReadResp'')"
| "commandInfo ReadRespWithInvalidate =
     ([IsRead, IsResponse, HasData, IsInvalidate], InvalidCmd, ''ReadRespWithInvalidate'')"
| "commandInfo WriteReq =
     ([IsWrite, NeedsWritable, IsRequest, NeedsResponse, HasData], WriteResp, ''WriteReq'')"
| "commandInfo WriteResp =
     ([IsWrite, IsResponse], InvalidCmd, ''WriteResp'')"
| "commandInfo WritebackDirty =
     ([IsWrite, IsRequest, IsEviction, HasData, FromCache], InvalidCmd, ''WritebackDirty'')"
| "commandInfo WritebackClean =
     ([IsWrite, IsRequest, IsEviction, HasData, FromCache], InvalidCmd, ''WritebackClean'')"
| "commandInfo WriteClean =
     ([IsWrite, IsRequest, HasData, FromCache], InvalidCmd, ''WriteClean'')"
| "commandInfo CleanEvict =
     ([IsRequest, IsEviction, FromCache], InvalidCmd, ''CleanEvict'')"
| "commandInfo SoftPFReq =
     ([IsRead, IsRequest, IsSWPrefetch, NeedsResponse], SoftPFResp, ''SoftPFReq'')"
| "commandInfo HardPFReq =
     ([IsRead, IsRequest, IsHWPrefetch, NeedsResponse, FromCache], HardPFResp, ''HardPFReq'')"
| "commandInfo SoftPFResp =
     ([IsRead, IsResponse, IsSWPrefetch, HasData], InvalidCmd, ''SoftPFResp'')"
| "commandInfo HardPFResp =
     ([IsRead, IsResponse, IsHWPrefetch, HasData], InvalidCmd, ''HardPFResp'')"
| "commandInfo WriteLineReq =
     ([IsWrite, NeedsWritable, IsRequest, NeedsResponse, HasData], WriteResp, ''WriteLineReq'')"
| "commandInfo UpgradeReq =
     ([IsInvalidate, NeedsWritable, IsUpgrade, IsRequest, NeedsResponse, FromCache], UpgradeResp, ''UpgradeReq'')"
| "commandInfo SCUpgradeReq =
     ([IsInvalidate, NeedsWritable, IsUpgrade, IsLlsc, IsRequest, NeedsResponse, FromCache], UpgradeResp, ''SCUpgradeReq'')"
| "commandInfo UpgradeResp =
     ([IsUpgrade, IsResponse], InvalidCmd, ''UpgradeResp'')"
| "commandInfo SCUpgradeFailReq =
     ([IsRead, NeedsWritable, IsInvalidate, IsLlsc, IsRequest, NeedsResponse, FromCache], UpgradeFailResp, ''SCUpgradeFailReq'')"
| "commandInfo UpgradeFailResp =
     ([IsRead, IsResponse, HasData], InvalidCmd, ''UpgradeFailResp'')"
| "commandInfo ReadExReq =
     ([IsRead, NeedsWritable, IsInvalidate, IsRequest, NeedsResponse, FromCache], ReadExResp, ''ReadExReq'')"
| "commandInfo ReadExResp =
     ([IsRead, IsResponse, HasData], InvalidCmd, ''ReadExResp'')"
| "commandInfo ReadCleanReq =
     ([IsRead, IsRequest, NeedsResponse, FromCache], ReadResp, ''ReadCleanReq'')"
| "commandInfo ReadSharedReq =
     ([IsRead, IsRequest, NeedsResponse, FromCache], ReadResp, ''ReadSharedReq'')"
| "commandInfo LoadLockedReq =
     ([IsRead, IsLlsc, IsRequest, NeedsResponse], ReadResp, ''LoadLockedReq'')"
| "commandInfo StoreCondReq =
     ([IsWrite, NeedsWritable, IsLlsc, IsRequest, NeedsResponse, HasData], StoreCondResp, ''StoreCondReq'')"
| "commandInfo StoreCondFailReq =
     ([IsWrite, NeedsWritable, IsLlsc, IsRequest, NeedsResponse, HasData], StoreCondResp, ''StoreCondFailReq'')"
| "commandInfo StoreCondResp =
     ([IsWrite, IsLlsc, IsResponse], InvalidCmd, ''StoreCondResp'')"
| "commandInfo SwapReq =
     ([IsRead, IsWrite, NeedsWritable, IsRequest, HasData, NeedsResponse], SwapResp, ''SwapReq'')"
| "commandInfo SwapResp =
     ([IsRead, IsWrite, IsResponse, HasData], InvalidCmd, ''SwapResp'')"
| "commandInfo MessageReq =
     ([IsWrite, IsRequest, NeedsResponse, HasData], MessageResp, ''MessageReq'')"
| "commandInfo MessageResp =
     ([IsWrite, IsResponse], InvalidCmd, ''MessageResp'')"
| "commandInfo MemFenceReq =
     ([IsRequest, NeedsResponse], MemFenceResp, ''MemFenceReq'')"
| "commandInfo MemFenceResp =
     ([IsResponse], InvalidCmd, ''MemFenceResp'')"
| "commandInfo CleanSharedReq =
     ([IsRequest, IsClean, NeedsResponse, FromCache], CleanSharedResp, ''CleanSharedReq'')"
| "commandInfo CleanSharedResp =
     ([IsResponse, IsClean], InvalidCmd, ''CleanSharedResp'')"
| "commandInfo CleanInvalidReq =
     ([IsRequest, IsInvalidate, IsClean, NeedsResponse, FromCache], CleanInvalidResp, ''CleanInvalidReq'')"
| "commandInfo CleanInvalidResp =
     ([IsResponse, IsInvalidate, IsClean], InvalidCmd, ''CleanInvalidResp'')"
| "commandInfo InvalidDestError =
     ([IsResponse, IsError], InvalidCmd, ''InvalidDestError'')"
| "commandInfo BadAddressError =
     ([IsResponse, IsError], InvalidCmd, ''BadAddressError'')"
| "commandInfo FunctionalReadError =
     ([IsRead, IsResponse, IsError], InvalidCmd, ''FunctionalReadError'')"
| "commandInfo FunctionalWriteError =
     ([IsWrite, IsResponse, IsError], InvalidCmd, ''FunctionalWriteError'')"
| "commandInfo PrintReq =
     ([IsRequest, IsPrint], InvalidCmd, ''PrintReq'')"
| "commandInfo FlushReq =
     ([IsRequest, IsFlush, NeedsWritable], InvalidCmd, ''FlushReq'')"
| "commandInfo InvalidateReq =
     ([IsInvalidate, IsRequest, NeedsWritable, NeedsResponse, FromCache], InvalidateResp, ''InvalidateReq'')"
| "commandInfo InvalidateResp =
     ([IsInvalidate, IsResponse], InvalidCmd, ''InvalidateResp'')"

definition testCmdAttrib :: "Command \<Rightarrow> Attribute \<Rightarrow> bool" where
  "testCmdAttrib c a \<longleftrightarrow> a \<in> set (fst (commandInfo c))"

definition cmd_isRead :: "Command \<Rightarrow> bool" where "cmd_isRead c = testCmdAttrib c IsRead"
definition cmd_isWrite :: "Command \<Rightarrow> bool" where "cmd_isWrite c = testCmdAttrib c IsWrite"
definition cmd_isUpgrade :: "Command \<Rightarrow> bool" where "cmd_isUpgrade c = testCmdAttrib c IsUpgrade"
definition cmd_isRequest :: "Command \<Rightarrow> bool" where "cmd_isRequest c = testCmdAttrib c IsRequest"
definition cmd_isResponse :: "Command \<Rightarrow> bool" where "cmd_isResponse c = testCmdAttrib c IsResponse"
definition cmd_needsWritable :: "Command \<Rightarrow> bool" where "cmd_needsWritable c = testCmdAttrib c NeedsWritable"
definition cmd_needsResponse :: "Command \<Rightarrow> bool" where "cmd_needsResponse c = testCmdAttrib c NeedsResponse"
definition cmd_isInvalidate :: "Command \<Rightarrow> bool" where "cmd_isInvalidate c = testCmdAttrib c IsInvalidate"
definition cmd_isEviction :: "Command \<Rightarrow> bool" where "cmd_isEviction c = testCmdAttrib c IsEviction"
definition cmd_isClean :: "Command \<Rightarrow> bool" where "cmd_isClean c = testCmdAttrib c IsClean"
definition cmd_fromCache :: "Command \<Rightarrow> bool" where "cmd_fromCache c = testCmdAttrib c FromCache"
definition cmd_hasData :: "Command \<Rightarrow> bool" where "cmd_hasData c = testCmdAttrib c HasData"
definition cmd_isLLSC :: "Command \<Rightarrow> bool" where "cmd_isLLSC c = testCmdAttrib c IsLlsc"
definition cmd_isSWPrefetch :: "Command \<Rightarrow> bool" where "cmd_isSWPrefetch c = testCmdAttrib c IsSWPrefetch"
definition cmd_isHWPrefetch :: "Command \<Rightarrow> bool" where "cmd_isHWPrefetch c = testCmdAttrib c IsHWPrefetch"
definition cmd_isError :: "Command \<Rightarrow> bool" where "cmd_isError c = testCmdAttrib c IsError"
definition cmd_isPrint :: "Command \<Rightarrow> bool" where "cmd_isPrint c = testCmdAttrib c IsPrint"
definition cmd_isFlush :: "Command \<Rightarrow> bool" where "cmd_isFlush c = testCmdAttrib c IsFlush"

text \<open>A writeback is an eviction that carries data.\<close>

definition cmd_isWriteback :: "Command \<Rightarrow> bool" where
  "cmd_isWriteback c = (testCmdAttrib c IsEviction \<and> testCmdAttrib c HasData)"

definition cmd_isPrefetch :: "Command \<Rightarrow> bool" where
  "cmd_isPrefetch c = (testCmdAttrib c IsSWPrefetch \<or> testCmdAttrib c IsHWPrefetch)"

definition responseCommand :: "Command \<Rightarrow> Command" where
  "responseCommand c = fst (snd (commandInfo c))"

definition cmd_toString :: "Command \<Rightarrow> string" where
  "cmd_toString c = snd (snd (commandInfo c))"

lemmas cmd_defs = testCmdAttrib_def cmd_isRead_def cmd_isWrite_def cmd_isUpgrade_def cmd_isRequest_def cmd_isResponse_def cmd_needsWritable_def cmd_needsResponse_def cmd_isInvalidate_def cmd_isEviction_def cmd_isClean_def cmd_fromCache_def cmd_hasData_def cmd_isLLSC_def cmd_isSWPrefetch_def cmd_isHWPrefetch_def cmd_isError_def cmd_isPrint_def cmd_isFlush_def cmd_isWriteback_def
  cmd_isPrefetch_def responseCommand_def cmd_toString_def

section \<open>The table is coherent\<close>

text \<open>
  The facts the memory system relies on when it turns a request into a response in place. Each
  is checked on every row of the table.
\<close>

lemma request_xor_response:
  "c \<noteq> InvalidCmd \<Longrightarrow> cmd_isRequest c \<longleftrightarrow> \<not> cmd_isResponse c"
  by (cases c) (simp_all add: cmd_defs)

lemma needsResponse_isRequest: "cmd_needsResponse c \<Longrightarrow> cmd_isRequest c"
  by (cases c) (simp_all add: cmd_defs)

lemma needsResponse_responseCommand:
  "cmd_needsResponse c \<longleftrightarrow> responseCommand c \<noteq> InvalidCmd"
  by (cases c) (simp_all add: cmd_defs)

lemma response_of_request:
  "cmd_needsResponse c \<Longrightarrow>
     cmd_isResponse (responseCommand c) \<and> \<not> cmd_needsResponse (responseCommand c) \<and>
     \<not> cmd_isError (responseCommand c)"
  by (cases c) (simp_all add: cmd_defs)

text \<open>A read whose command needs a response gets its data back; a write request carries it.\<close>

lemma read_response_has_data:
  "cmd_isRead c \<Longrightarrow> cmd_needsResponse c \<Longrightarrow> cmd_hasData (responseCommand c)"
  by (cases c) (simp_all add: cmd_defs)

lemma write_request_has_data:
  "cmd_isWrite c \<Longrightarrow> cmd_isRequest c \<Longrightarrow> cmd_hasData c"
  by (cases c) (simp_all add: cmd_defs)

lemma response_direction:
  "cmd_needsResponse c \<Longrightarrow> cmd_isWrite (responseCommand c) = cmd_isWrite c"
  by (cases c) (simp_all add: cmd_defs)

lemma eviction_fromCache: "cmd_isEviction c \<Longrightarrow> cmd_fromCache c \<and> \<not> cmd_needsResponse c"
  by (cases c) (simp_all add: cmd_defs)

end
