(* ===== verification/Base_Flags.thy ===== *)
theory Base_Flags
  imports Alpine_Prelude
begin

text \<open>
  \<^verbatim>\<open>base/flags.hh\<close>: the \<^verbatim>\<open>Flags<T>\<close> wrapper of an unsigned integer, as functions on words of
  any width. Requests, packets and events keep their flags in it.
\<close>

definition flags_isSet :: "'a::len word \<Rightarrow> 'a word \<Rightarrow> bool" where
  "flags_isSet fl f \<longleftrightarrow> fl AND f \<noteq> 0"

definition flags_allSet :: "'a::len word \<Rightarrow> 'a word \<Rightarrow> bool" where
  "flags_allSet fl f \<longleftrightarrow> fl AND f = f"

definition flags_noneSet :: "'a::len word \<Rightarrow> 'a word \<Rightarrow> bool" where
  "flags_noneSet fl f \<longleftrightarrow> fl AND f = 0"

definition flags_clear :: "'a::len word \<Rightarrow> 'a word \<Rightarrow> 'a word" where
  "flags_clear fl f = fl AND NOT f"

definition flags_set :: "'a::len word \<Rightarrow> 'a word \<Rightarrow> 'a word" where
  "flags_set fl f = fl OR f"

definition flags_assign :: "'a::len word \<Rightarrow> 'a word \<Rightarrow> bool \<Rightarrow> 'a word" where
  "flags_assign fl f val = (fl AND NOT f) OR (if val then f else 0)"

definition flags_update :: "'a::len word \<Rightarrow> 'a word \<Rightarrow> 'a word \<Rightarrow> 'a word" where
  "flags_update fl f m = (fl AND NOT m) OR (f AND m)"

lemma flags_isSet_noneSet: "flags_isSet fl f \<longleftrightarrow> \<not> flags_noneSet fl f"
  by (simp add: flags_isSet_def flags_noneSet_def)

lemma flags_isSet_set: "flags_isSet (flags_set fl f) g \<longleftrightarrow> flags_isSet fl g \<or> flags_isSet f g"
  by (simp add: flags_isSet_def flags_set_def bit.conj_disj_distrib2 or_eq_0_iff)

lemma flags_isSet_clear_disjoint:
  assumes "f AND g = 0"
  shows "flags_isSet (flags_clear fl f) g \<longleftrightarrow> flags_isSet fl g"
proof -
  have "\<not> (bit f n \<and> bit g n)" for n
    using assms by (metis bit_0_eq bit_and_iff bot_apply bot_bool_def)
  then have "NOT f AND g = g"
    by (intro bit_word_eqI) (auto simp: bit_and_iff bit_not_iff)
  then show ?thesis by (simp add: flags_isSet_def flags_clear_def and.assoc)
qed

lemma flags_noneSet_clear [simp]: "flags_noneSet (flags_clear fl f) f"
  by (simp add: flags_noneSet_def flags_clear_def and.assoc)

lemma flags_allSet_set [simp]: "flags_allSet (flags_set fl f) f"
  by (simp add: flags_allSet_def flags_set_def)

lemma flags_isSet_set_self: "f \<noteq> 0 \<Longrightarrow> flags_isSet (flags_set fl f) f"
  using flags_allSet_set [of fl f] by (simp add: flags_isSet_def flags_allSet_def)

lemma flags_assign_cases: "flags_assign fl f b = (if b then flags_set fl f else flags_clear fl f)"
proof -
  have "(fl AND NOT f) OR f = fl OR f"
    by (simp add: bit.disj_conj_distrib2)
  then show ?thesis by (simp add: flags_assign_def flags_set_def flags_clear_def)
qed

text \<open>Updating under a mask changes the masked bits only.\<close>

lemma flags_update_masked: "flags_update fl f m AND m = f AND m"
  by (rule bit_word_eqI) (auto simp: flags_update_def bit_and_iff bit_or_iff bit_not_iff)

lemma flags_update_unmasked: "flags_update fl f m AND NOT m = fl AND NOT m"
  by (rule bit_word_eqI) (auto simp: flags_update_def bit_and_iff bit_or_iff bit_not_iff)

end
