(* ===== verification/Mem_Request.thy ===== *)
theory Mem_Request
  imports Base_Flags
begin

text \<open>
  \<^verbatim>\<open>mem/request.hh\<close>: a \<^verbatim>\<open>Request\<close> travels from the requester to the memory and back. Its
  private flags record which of its fields are valid, and every accessor asserts that its
  field is. \<^verbatim>\<open>curTick()\<close> is an argument of the operations that read it. An
  \<^verbatim>\<open>AtomicOpFunctor *\<close> is an optional identifier of the operation.
\<close>

section \<open>Flags\<close>

definition ARCH_BITS :: u64 where "ARCH_BITS = 0x000000FF"
definition INST_FETCH :: u64 where "INST_FETCH = 0x00000100"
definition UNCACHEABLE :: u64 where "UNCACHEABLE = 0x00000400"
definition STRICT_ORDER :: u64 where "STRICT_ORDER = 0x00000800"
definition KERNEL :: u64 where "KERNEL = 0x00001000"
definition MMAPPED_IPR :: u64 where "MMAPPED_IPR = 0x00002000"
definition PRIVILEGED :: u64 where "PRIVILEGED = 0x00008000"
definition CACHE_BLOCK_ZERO :: u64 where "CACHE_BLOCK_ZERO = 0x00010000"
definition ACQUIRE :: u64 where "ACQUIRE = 0x00020000"
definition RELEASE :: u64 where "RELEASE = 0x00040000"
definition LOCKED_RMW :: u64 where "LOCKED_RMW = 0x00100000"
definition LLSC :: u64 where "LLSC = 0x00200000"
definition MEM_SWAP :: u64 where "MEM_SWAP = 0x00400000"
definition MEM_SWAP_COND :: u64 where "MEM_SWAP_COND = 0x00800000"
definition PREFETCH :: u64 where "PREFETCH = 0x01000000"
definition SECURE :: u64 where "SECURE = 0x10000000"
definition PT_WALK :: u64 where "PT_WALK = 0x20000000"
definition ATOMIC_RETURN_OP :: u64 where "ATOMIC_RETURN_OP = 0x40000000"
definition ATOMIC_NO_RETURN_OP :: u64 where "ATOMIC_NO_RETURN_OP = 0x80000000"
definition INVALIDATE :: u64 where "INVALIDATE = 0x0000000100000000"
definition CLEAN :: u64 where "CLEAN = 0x0000000200000000"
definition DST_POU :: u64 where "DST_POU = 0x0000001000000000"
definition DST_POC :: u64 where "DST_POC = 0x0000002000000000"
definition STICKY_FLAGS :: u64 where "STICKY_FLAGS = INST_FETCH"

lemmas req_flag_defs = ARCH_BITS_def INST_FETCH_def UNCACHEABLE_def STRICT_ORDER_def KERNEL_def
  MMAPPED_IPR_def PRIVILEGED_def CACHE_BLOCK_ZERO_def ACQUIRE_def RELEASE_def LOCKED_RMW_def LLSC_def
  MEM_SWAP_def MEM_SWAP_COND_def PREFETCH_def SECURE_def PT_WALK_def ATOMIC_RETURN_OP_def
  ATOMIC_NO_RETURN_OP_def INVALIDATE_def CLEAN_def DST_POU_def DST_POC_def STICKY_FLAGS_def

definition REQ_VALID_SIZE :: u8 where "REQ_VALID_SIZE = 0x01"
definition REQ_VALID_PADDR :: u8 where "REQ_VALID_PADDR = 0x02"
definition REQ_VALID_VADDR :: u8 where "REQ_VALID_VADDR = 0x04"
definition REQ_VALID_INST_SEQ_NUM :: u8 where "REQ_VALID_INST_SEQ_NUM = 0x08"
definition REQ_VALID_PC :: u8 where "REQ_VALID_PC = 0x10"
definition REQ_VALID_CONTEXT_ID :: u8 where "REQ_VALID_CONTEXT_ID = 0x20"
definition REQ_VALID_EXTRA_DATA :: u8 where "REQ_VALID_EXTRA_DATA = 0x80"
definition STICKY_PRIVATE_FLAGS :: u8 where "STICKY_PRIVATE_FLAGS = REQ_VALID_CONTEXT_ID"

lemmas req_private_defs = REQ_VALID_SIZE_def REQ_VALID_PADDR_def REQ_VALID_VADDR_def
  REQ_VALID_INST_SEQ_NUM_def REQ_VALID_PC_def REQ_VALID_CONTEXT_ID_def REQ_VALID_EXTRA_DATA_def
  STICKY_PRIVATE_FLAGS_def

section \<open>State\<close>

record Request =
  rq_paddr :: Addr
  rq_size :: u32
  rq_masterId :: u16
  rq_flags :: u64
  rq_memSpaceConfigFlags :: u32
  rq_privateFlags :: u8
  rq_time :: Tick
  rq_taskId :: u32
  rq_asid :: int
  rq_vaddr :: Addr
  rq_extraData :: u64
  rq_contextId :: int
  rq_pc :: Addr
  rq_reqInstSeqNum :: u64
  rq_atomicOpFunctor :: "nat option"
  rq_translateDelta :: Tick
  rq_accessDelta :: Tick
  rq_depth :: int

text \<open>\<^verbatim>\<open>invldMasterId\<close> is the largest \<^verbatim>\<open>MasterID\<close>; \<open>unknown_task\<close> stands for
  \<^verbatim>\<open>ContextSwitchTaskId::Unknown\<close>.\<close>

definition invldMasterId :: u16 where "invldMasterId = 0xffff"
definition unknown_task :: u32 where "unknown_task = 1024"

definition empty_Request :: Request where
  "empty_Request = \<lparr>rq_paddr = 0, rq_size = 0, rq_masterId = invldMasterId, rq_flags = 0,
     rq_memSpaceConfigFlags = 0, rq_privateFlags = 0, rq_time = 0, rq_taskId = unknown_task,
     rq_asid = 0, rq_vaddr = 0, rq_extraData = 0, rq_contextId = 0, rq_pc = 0,
     rq_reqInstSeqNum = 0, rq_atomicOpFunctor = None, rq_translateDelta = 0, rq_accessDelta = 0,
     rq_depth = 0\<rparr>"

section \<open>Setting up a request\<close>

definition setPhys :: "Addr \<Rightarrow> u32 \<Rightarrow> u64 \<Rightarrow> u16 \<Rightarrow> Tick \<Rightarrow> Request \<Rightarrow> Request" where
  "setPhys paddr sz fl mid tm r =
     r\<lparr>rq_paddr := paddr, rq_size := sz, rq_time := tm, rq_masterId := mid,
       rq_flags := flags_set (flags_clear (rq_flags r) (NOT STICKY_FLAGS)) fl,
       rq_privateFlags := flags_set (flags_clear (rq_privateFlags r) (NOT STICKY_PRIVATE_FLAGS))
                            (REQ_VALID_PADDR OR REQ_VALID_SIZE),
       rq_depth := 0, rq_accessDelta := 0\<rparr>"

definition setVirt ::
  "Tick \<Rightarrow> int \<Rightarrow> Addr \<Rightarrow> u32 \<Rightarrow> u64 \<Rightarrow> u16 \<Rightarrow> Addr \<Rightarrow> nat option \<Rightarrow> Request \<Rightarrow> Request" where
  "setVirt now asid vaddr sz fl mid pc amo_op r =
     r\<lparr>rq_asid := asid, rq_vaddr := vaddr, rq_size := sz, rq_masterId := mid, rq_pc := pc,
       rq_time := now,
       rq_flags := flags_set (flags_clear (rq_flags r) (NOT STICKY_FLAGS)) fl,
       rq_privateFlags := flags_set (flags_clear (rq_privateFlags r) (NOT STICKY_PRIVATE_FLAGS))
                            (REQ_VALID_VADDR OR REQ_VALID_SIZE OR REQ_VALID_PC),
       rq_depth := 0, rq_accessDelta := 0, rq_translateDelta := 0, rq_atomicOpFunctor := amo_op\<rparr>"

definition setContext :: "int \<Rightarrow> Request \<Rightarrow> Request" where
  "setContext cid r = r\<lparr>rq_contextId := cid,
     rq_privateFlags := flags_set (rq_privateFlags r) REQ_VALID_CONTEXT_ID\<rparr>"

definition setPaddr :: "Addr \<Rightarrow> Request \<Rightarrow> Request" where
  "setPaddr paddr r = r\<lparr>rq_paddr := paddr,
     rq_privateFlags := flags_set (rq_privateFlags r) REQ_VALID_PADDR\<rparr>"

definition Request_phys_seq :: "Tick \<Rightarrow> Addr \<Rightarrow> u32 \<Rightarrow> u64 \<Rightarrow> u16 \<Rightarrow> u64 \<Rightarrow> int \<Rightarrow> Request" where
  "Request_phys_seq now paddr sz fl mid seq_num cid =
     (let r = setContext cid (setPhys paddr sz fl mid now (empty_Request\<lparr>rq_reqInstSeqNum := seq_num\<rparr>))
      in r\<lparr>rq_privateFlags := flags_set (rq_privateFlags r) REQ_VALID_INST_SEQ_NUM\<rparr>)"

definition Request_phys :: "Addr \<Rightarrow> u32 \<Rightarrow> u64 \<Rightarrow> u16 \<Rightarrow> Tick \<Rightarrow> Request" where
  "Request_phys paddr sz fl mid tm = setPhys paddr sz fl mid tm empty_Request"

definition Request_phys_pc :: "Addr \<Rightarrow> u32 \<Rightarrow> u64 \<Rightarrow> u16 \<Rightarrow> Tick \<Rightarrow> Addr \<Rightarrow> Request" where
  "Request_phys_pc paddr sz fl mid tm pc =
     (let r = setPhys paddr sz fl mid tm (empty_Request\<lparr>rq_pc := pc\<rparr>)
      in r\<lparr>rq_privateFlags := flags_set (rq_privateFlags r) REQ_VALID_PC\<rparr>)"

definition Request_virt :: "Tick \<Rightarrow> int \<Rightarrow> Addr \<Rightarrow> u32 \<Rightarrow> u64 \<Rightarrow> u16 \<Rightarrow> Addr \<Rightarrow> int \<Rightarrow> Request" where
  "Request_virt now asid vaddr sz fl mid pc cid =
     setContext cid (setVirt now asid vaddr sz fl mid pc None empty_Request)"

section \<open>Accessors\<close>

definition req_isSet :: "Request \<Rightarrow> u64 \<Rightarrow> bool" where
  "req_isSet r f = flags_isSet (rq_flags r) f"

definition req_private :: "Request \<Rightarrow> u8 \<Rightarrow> bool" where
  "req_private r f = flags_isSet (rq_privateFlags r) f"

definition req_hasPaddr :: "Request \<Rightarrow> bool" where
  "req_hasPaddr r = req_private r REQ_VALID_PADDR"
definition req_getPaddr :: "Request \<Rightarrow> Addr result" where
  "req_getPaddr r = bindR (assertR (req_private r REQ_VALID_PADDR) AssertFail) (\<lambda>_. Ok (rq_paddr r))"
definition req_hasSize :: "Request \<Rightarrow> bool" where
  "req_hasSize r = req_private r REQ_VALID_SIZE"
definition req_getSize :: "Request \<Rightarrow> u32 result" where
  "req_getSize r = bindR (assertR (req_private r REQ_VALID_SIZE) AssertFail) (\<lambda>_. Ok (rq_size r))"
definition req_hasVaddr :: "Request \<Rightarrow> bool" where
  "req_hasVaddr r = req_private r REQ_VALID_VADDR"
definition req_getVaddr :: "Request \<Rightarrow> Addr result" where
  "req_getVaddr r = bindR (assertR (req_private r REQ_VALID_VADDR) AssertFail) (\<lambda>_. Ok (rq_vaddr r))"
definition req_getFlags :: "Request \<Rightarrow> u64 result" where
  "req_getFlags r =
     bindR (assertR (req_private r (REQ_VALID_PADDR OR REQ_VALID_VADDR)) AssertFail) (\<lambda>_. Ok (rq_flags r))"
definition req_setFlags :: "u64 \<Rightarrow> Request \<Rightarrow> Request result" where
  "req_setFlags fl r =
     bindR (assertR (req_private r (REQ_VALID_PADDR OR REQ_VALID_VADDR)) AssertFail)
       (\<lambda>_. Ok (r\<lparr>rq_flags := flags_set (rq_flags r) fl\<rparr>))"
definition req_setExtraData :: "u64 \<Rightarrow> Request \<Rightarrow> Request" where
  "req_setExtraData x r = r\<lparr>rq_extraData := x,
     rq_privateFlags := flags_set (rq_privateFlags r) REQ_VALID_EXTRA_DATA\<rparr>"
definition req_getExtraData :: "Request \<Rightarrow> u64 result" where
  "req_getExtraData r =
     bindR (assertR (req_private r REQ_VALID_EXTRA_DATA) AssertFail) (\<lambda>_. Ok (rq_extraData r))"
definition req_hasContextId :: "Request \<Rightarrow> bool" where
  "req_hasContextId r = req_private r REQ_VALID_CONTEXT_ID"
definition req_contextId :: "Request \<Rightarrow> int result" where
  "req_contextId r =
     bindR (assertR (req_private r REQ_VALID_CONTEXT_ID) AssertFail) (\<lambda>_. Ok (rq_contextId r))"
definition req_setPC :: "Addr \<Rightarrow> Request \<Rightarrow> Request" where
  "req_setPC pc r = r\<lparr>rq_privateFlags := flags_set (rq_privateFlags r) REQ_VALID_PC, rq_pc := pc\<rparr>"
definition req_getPC :: "Request \<Rightarrow> Addr result" where
  "req_getPC r = bindR (assertR (req_private r REQ_VALID_PC) AssertFail) (\<lambda>_. Ok (rq_pc r))"
definition req_setReqInstSeqNum :: "u64 \<Rightarrow> Request \<Rightarrow> Request" where
  "req_setReqInstSeqNum n r =
     r\<lparr>rq_privateFlags := flags_set (rq_privateFlags r) REQ_VALID_INST_SEQ_NUM, rq_reqInstSeqNum := n\<rparr>"
definition req_getReqInstSeqNum :: "Request \<Rightarrow> u64 result" where
  "req_getReqInstSeqNum r =
     bindR (assertR (req_private r REQ_VALID_INST_SEQ_NUM) AssertFail) (\<lambda>_. Ok (rq_reqInstSeqNum r))"

definition setTranslateLatency :: "Tick \<Rightarrow> Request \<Rightarrow> Request" where
  "setTranslateLatency now r = r\<lparr>rq_translateDelta := now - rq_time r\<rparr>"
definition setAccessLatency :: "Tick \<Rightarrow> Request \<Rightarrow> Request" where
  "setAccessLatency now r = r\<lparr>rq_accessDelta := now - rq_time r - rq_translateDelta r\<rparr>"
definition incAccessDepth :: "Request \<Rightarrow> Request" where
  "incAccessDepth r = r\<lparr>rq_depth := rq_depth r + 1\<rparr>"

definition req_isUncacheable where "req_isUncacheable r = req_isSet r UNCACHEABLE"
definition req_isInstFetch where "req_isInstFetch r = req_isSet r INST_FETCH"
definition req_isPrefetch where "req_isPrefetch r = req_isSet r PREFETCH"
definition req_isLLSC where "req_isLLSC r = req_isSet r LLSC"
definition req_isSwap where "req_isSwap r = req_isSet r (MEM_SWAP OR MEM_SWAP_COND)"
definition req_isSecure where "req_isSecure r = req_isSet r SECURE"
definition req_isAtomic where
  "req_isAtomic r = (req_isSet r ATOMIC_RETURN_OP \<or> req_isSet r ATOMIC_NO_RETURN_OP)"
definition req_isCacheClean where "req_isCacheClean r = req_isSet r CLEAN"
definition req_isCacheInvalidate where "req_isCacheInvalidate r = req_isSet r INVALIDATE"
definition req_isCacheMaintenance where
  "req_isCacheMaintenance r = req_isSet r (CLEAN OR INVALIDATE)"

definition req_isCondSwap where "req_isCondSwap r = req_isSet r MEM_SWAP_COND"
definition req_hasAtomicOpFunctor :: "Request \<Rightarrow> bool" where
  "req_hasAtomicOpFunctor r = (rq_atomicOpFunctor r \<noteq> None)"
definition req_getAtomicOpFunctor :: "Request \<Rightarrow> nat result" where
  "req_getAtomicOpFunctor r = (case rq_atomicOpFunctor r of None \<Rightarrow> Error AssertFail | Some f \<Rightarrow> Ok f)"
definition req_extraDataValid :: "Request \<Rightarrow> bool" where
  "req_extraDataValid r = req_private r REQ_VALID_EXTRA_DATA"
definition req_hasPC :: "Request \<Rightarrow> bool" where "req_hasPC r = req_private r REQ_VALID_PC"
definition req_hasInstSeqNum :: "Request \<Rightarrow> bool" where "req_hasInstSeqNum r = req_private r REQ_VALID_INST_SEQ_NUM"
definition req_time :: "Request \<Rightarrow> Tick result" where
  "req_time r = bindR (assertR (req_private r (REQ_VALID_PADDR OR REQ_VALID_VADDR)) AssertFail) (\<lambda>_. Ok (rq_time r))"
definition req_getAsid :: "Request \<Rightarrow> int result" where
  "req_getAsid r = bindR (assertR (req_private r REQ_VALID_VADDR) AssertFail) (\<lambda>_. Ok (rq_asid r))"
definition req_getArchFlags :: "Request \<Rightarrow> u8 result" where
  "req_getArchFlags r =
     bindR (assertR (req_private r (REQ_VALID_PADDR OR REQ_VALID_VADDR)) AssertFail) (\<lambda>_. Ok (ucast (rq_flags r AND ARCH_BITS)))"

section \<open>Splitting a request\<close>

text \<open>\<^verbatim>\<open>_vaddr + _size\<close> is a 64-bit sum; the sizes are narrowed to 32 bits when they are stored.\<close>

definition splitOnVaddr :: "Addr \<Rightarrow> Request \<Rightarrow> (Request \<times> Request) result" where
  "splitOnVaddr split_addr r =
     bindR (assertR (req_private r REQ_VALID_VADDR) AssertFail) (\<lambda>_.
     bindR (assertR (flags_noneSet (rq_privateFlags r) REQ_VALID_PADDR) AssertFail) (\<lambda>_.
     bindR (assertR (split_addr > rq_vaddr r \<and> split_addr < rq_vaddr r + ucast (rq_size r)) AssertFail) (\<lambda>_.
       let r1 = r\<lparr>rq_size := ucast (split_addr - rq_vaddr r)\<rparr>;
           r2 = r\<lparr>rq_vaddr := split_addr, rq_size := rq_size r - rq_size r1\<rparr>
       in Ok (r1, r2))))"

section \<open>Properties\<close>

text \<open>
  A split succeeds exactly when the virtual address is valid, the request is not translated
  yet and the split point lies strictly inside it; the two halves then partition the range.
\<close>

lemma split_offset:
  fixes v :: u64 and sz :: u32
  assumes "v < a" "a < v + ucast sz"
  shows "unat (a - v) < unat sz" "0 < unat (a - v)"
proof -
  have "unat (v + ucast sz) \<le> unat v + unat sz"
    by (simp add: unat_word_ariths)
  with assms have "unat v < unat a" "unat a < unat v + unat sz"
    by (auto simp: word_less_nat_alt)
  moreover have "unat (a - v) = unat a - unat v"
    using assms(1) by (simp add: unat_sub)
  ultimately show "unat (a - v) < unat sz" "0 < unat (a - v)" by auto
qed

lemma splitOnVaddr_partition:
  assumes "splitOnVaddr a r = Ok (r1, r2)"
  shows "rq_vaddr r1 = rq_vaddr r" "rq_vaddr r2 = a"
    "unat a = unat (rq_vaddr r) + unat (rq_size r1)"
    "unat (rq_size r1) + unat (rq_size r2) = unat (rq_size r)"
    "0 < unat (rq_size r1)" "0 < unat (rq_size r2)"
proof -
  from assms have lt: "rq_vaddr r < a" "a < rq_vaddr r + ucast (rq_size r)"
    and r1: "r1 = r\<lparr>rq_size := ucast (a - rq_vaddr r)\<rparr>"
    and r2: "r2 = r\<lparr>rq_vaddr := a, rq_size := rq_size r - rq_size r1\<rparr>"
    by (auto simp: splitOnVaddr_def Let_def result_simps)
  note off = split_offset [OF lt]
  have "unat (a - rq_vaddr r) < 2 ^ 32" using off(1) unat_less_u32 [of "rq_size r"] by linarith
  then have s1: "unat (rq_size r1) = unat (a - rq_vaddr r)"
    using r1 by (simp add: unsigned_ucast_eq take_bit_nat_eq_self)
  then have "rq_size r1 \<le> rq_size r" using off by (simp add: word_le_nat_alt)
  then have s2: "unat (rq_size r2) = unat (rq_size r) - unat (rq_size r1)"
    using r2 by (simp add: unat_sub)
  show "rq_vaddr r1 = rq_vaddr r" "rq_vaddr r2 = a" using r1 r2 by simp_all
  show "unat a = unat (rq_vaddr r) + unat (rq_size r1)"
    using s1 lt(1) by (simp add: unat_sub word_less_nat_alt word_le_nat_alt)
  show "unat (rq_size r1) + unat (rq_size r2) = unat (rq_size r)"
    "0 < unat (rq_size r1)" "0 < unat (rq_size r2)"
    using s1 s2 off by simp_all
qed

text \<open>
  Reusing a request object: of the old request only the context and the instruction-fetch
  flag survive.
\<close>

lemma flags_after_reuse: "flags_set (flags_clear fl (NOT m)) f = (fl AND m) OR f"
  by (simp add: flags_set_def flags_clear_def)

lemma setPhys_valid:
  "req_hasPaddr (setPhys p sz fl mid tm r)" "req_hasSize (setPhys p sz fl mid tm r)"
  "\<not> req_hasVaddr (setPhys p sz fl mid tm r)"
  "req_hasContextId (setPhys p sz fl mid tm r) = req_hasContextId r"
  "rq_flags (setPhys p sz fl mid tm r) = (rq_flags r AND INST_FETCH) OR fl"
proof -
  have "rq_privateFlags (setPhys p sz fl mid tm r)
      = (rq_privateFlags r AND STICKY_PRIVATE_FLAGS) OR (REQ_VALID_PADDR OR REQ_VALID_SIZE)"
    by (simp add: setPhys_def flags_after_reuse)
  then show "req_hasPaddr (setPhys p sz fl mid tm r)" "req_hasSize (setPhys p sz fl mid tm r)"
    "\<not> req_hasVaddr (setPhys p sz fl mid tm r)"
    "req_hasContextId (setPhys p sz fl mid tm r) = req_hasContextId r"
    by (simp_all add: req_hasPaddr_def req_hasSize_def req_hasVaddr_def req_hasContextId_def
        req_private_def flags_isSet_def req_private_defs bit.conj_disj_distrib2 and.assoc)
  show "rq_flags (setPhys p sz fl mid tm r) = (rq_flags r AND INST_FETCH) OR fl"
    by (simp add: setPhys_def flags_after_reuse STICKY_FLAGS_def)
qed

end
