(* ===== verification/Mem_Packet.thy ===== *)
theory Mem_Packet
  imports Mem_Cmd Mem_Request
begin

text \<open>
  \<^verbatim>\<open>class Packet\<close> of \<^verbatim>\<open>mem/packet.hh\<close> and \<^verbatim>\<open>mem/packet.cc\<close>: the unit of communication between
  two memory objects. The buffer the data pointer refers to is part of the packet's value
  (\<open>None\<close> is the null pointer), the stack of sender states is a list of identifiers. Every
  assertion of the source is a branch of the definitions.
\<close>

section \<open>State\<close>

definition COPY_FLAGS :: u32 where "COPY_FLAGS = 0x0000003F"
definition HAS_SHARERS :: u32 where "HAS_SHARERS = 0x00000001"
definition EXPRESS_SNOOP :: u32 where "EXPRESS_SNOOP = 0x00000002"
definition RESPONDER_HAD_WRITABLE :: u32 where "RESPONDER_HAD_WRITABLE = 0x00000004"
definition CACHE_RESPONDING :: u32 where "CACHE_RESPONDING = 0x00000008"
definition WRITE_THROUGH :: u32 where "WRITE_THROUGH = 0x00000010"
definition SATISFIED :: u32 where "SATISFIED = 0x00000020"
definition VALID_ADDR :: u32 where "VALID_ADDR = 0x00000100"
definition VALID_SIZE :: u32 where "VALID_SIZE = 0x00000200"
definition STATIC_DATA :: u32 where "STATIC_DATA = 0x00001000"
definition DYNAMIC_DATA :: u32 where "DYNAMIC_DATA = 0x00002000"
definition SUPPRESS_FUNC_ERROR :: u32 where "SUPPRESS_FUNC_ERROR = 0x00008000"
definition BLOCK_CACHED :: u32 where "BLOCK_CACHED = 0x00010000"

lemmas pkt_flag_defs = COPY_FLAGS_def HAS_SHARERS_def EXPRESS_SNOOP_def RESPONDER_HAD_WRITABLE_def
  CACHE_RESPONDING_def WRITE_THROUGH_def SATISFIED_def VALID_ADDR_def VALID_SIZE_def STATIC_DATA_def
  DYNAMIC_DATA_def SUPPRESS_FUNC_ERROR_def BLOCK_CACHED_def

record Packet =
  pk_flags :: u32
  pk_cmd :: Command
  pk_id :: u64
  pk_req :: Request
  pk_data :: "u8 list option"
  pk_addr :: Addr
  pk_isSecure :: bool
  pk_size :: u32
  pk_bytesValid :: "bool list"
  pk_headerDelay :: u32
  pk_snoopDelay :: u32
  pk_payloadDelay :: u32
  pk_senderState :: "nat list"

definition pkt_isSet :: "Packet \<Rightarrow> u32 \<Rightarrow> bool" where
  "pkt_isSet p f = flags_isSet (pk_flags p) f"

definition pkt_set :: "u32 \<Rightarrow> Packet \<Rightarrow> Packet" where
  "pkt_set f p = p\<lparr>pk_flags := flags_set (pk_flags p) f\<rparr>"

definition pkt_clear :: "u32 \<Rightarrow> Packet \<Rightarrow> Packet" where
  "pkt_clear f p = p\<lparr>pk_flags := flags_clear (pk_flags p) f\<rparr>"

section \<open>Sender states\<close>

definition pushSenderState :: "nat \<Rightarrow> Packet \<Rightarrow> Packet" where
  "pushSenderState st p = p\<lparr>pk_senderState := st # pk_senderState p\<rparr>"

definition popSenderState :: "Packet \<Rightarrow> (nat \<times> Packet) result" where
  "popSenderState p =
     (case pk_senderState p of [] \<Rightarrow> Error AssertFail
      | st # rest \<Rightarrow> Ok (st, p\<lparr>pk_senderState := rest\<rparr>))"

text \<open>The first state of a given dynamic type, top of the stack first.\<close>

definition findNextSenderState :: "(nat \<Rightarrow> bool) \<Rightarrow> Packet \<Rightarrow> nat option" where
  "findNextSenderState is_T p = find is_T (pk_senderState p)"

section \<open>Attributes and snoop flags\<close>

definition pkt_needsWritable :: "Packet \<Rightarrow> bool result" where
  "pkt_needsWritable p =
     bindR (assertR (cmd_isRequest (pk_cmd p)) AssertFail) (\<lambda>_. Ok (cmd_needsWritable (pk_cmd p)))"

definition pkt_hasRespData :: "Packet \<Rightarrow> bool" where
  "pkt_hasRespData p = cmd_hasData (responseCommand (pk_cmd p))"

definition setCacheResponding :: "Packet \<Rightarrow> Packet result" where
  "setCacheResponding p =
     bindR (assertR (cmd_isRequest (pk_cmd p)) AssertFail) (\<lambda>_.
     bindR (assertR (\<not> pkt_isSet p CACHE_RESPONDING) AssertFail) (\<lambda>_. Ok (pkt_set CACHE_RESPONDING p)))"

definition pkt_cacheResponding :: "Packet \<Rightarrow> bool" where
  "pkt_cacheResponding p = pkt_isSet p CACHE_RESPONDING"
definition setHasSharers :: "Packet \<Rightarrow> Packet" where "setHasSharers p = pkt_set HAS_SHARERS p"
definition pkt_hasSharers :: "Packet \<Rightarrow> bool" where "pkt_hasSharers p = pkt_isSet p HAS_SHARERS"
definition setExpressSnoop :: "Packet \<Rightarrow> Packet" where "setExpressSnoop p = pkt_set EXPRESS_SNOOP p"
definition isExpressSnoop :: "Packet \<Rightarrow> bool" where "isExpressSnoop p = pkt_isSet p EXPRESS_SNOOP"
definition pkt_responderHadWritable :: "Packet \<Rightarrow> bool" where
  "pkt_responderHadWritable p = pkt_isSet p RESPONDER_HAD_WRITABLE"

definition setResponderHadWritable :: "Packet \<Rightarrow> Packet result" where
  "setResponderHadWritable p =
     bindR (assertR (pkt_cacheResponding p) AssertFail) (\<lambda>_.
     bindR (assertR (\<not> pkt_responderHadWritable p) AssertFail) (\<lambda>_. Ok (pkt_set RESPONDER_HAD_WRITABLE p)))"

definition setWriteThrough :: "Packet \<Rightarrow> Packet result" where
  "setWriteThrough p =
     bindR (assertR (cmd_isWrite (pk_cmd p) \<and> (cmd_isEviction (pk_cmd p) \<or> pk_cmd p = WriteClean)) AssertFail)
       (\<lambda>_. Ok (pkt_set WRITE_THROUGH p))"
definition clearWriteThrough :: "Packet \<Rightarrow> Packet" where "clearWriteThrough p = pkt_clear WRITE_THROUGH p"
definition pkt_writeThrough :: "Packet \<Rightarrow> bool" where "pkt_writeThrough p = pkt_isSet p WRITE_THROUGH"

definition setSatisfied :: "Packet \<Rightarrow> Packet result" where
  "setSatisfied p =
     bindR (assertR (cmd_isClean (pk_cmd p)) AssertFail) (\<lambda>_.
     bindR (assertR (\<not> pkt_isSet p SATISFIED) AssertFail) (\<lambda>_. Ok (pkt_set SATISFIED p)))"
definition pkt_satisfied :: "Packet \<Rightarrow> bool" where "pkt_satisfied p = pkt_isSet p SATISFIED"

definition setBlockCached :: "Packet \<Rightarrow> Packet" where "setBlockCached p = pkt_set BLOCK_CACHED p"
definition isBlockCached :: "Packet \<Rightarrow> bool" where "isBlockCached p = pkt_isSet p BLOCK_CACHED"
definition clearBlockCached :: "Packet \<Rightarrow> Packet" where "clearBlockCached p = pkt_clear BLOCK_CACHED p"

definition setBadAddress :: "Packet \<Rightarrow> Packet result" where
  "setBadAddress p =
     bindR (assertR (cmd_isResponse (pk_cmd p)) AssertFail) (\<lambda>_. Ok (p\<lparr>pk_cmd := BadAddressError\<rparr>))"

definition copyError :: "Packet \<Rightarrow> Packet \<Rightarrow> Packet result" where
  "copyError other p =
     bindR (assertR (cmd_isError (pk_cmd other)) AssertFail) (\<lambda>_. Ok (p\<lparr>pk_cmd := pk_cmd other\<rparr>))"

section \<open>Address and size\<close>

definition pkt_getAddr :: "Packet \<Rightarrow> Addr result" where
  "pkt_getAddr p = bindR (assertR (pkt_isSet p VALID_ADDR) AssertFail) (\<lambda>_. Ok (pk_addr p))"

definition pkt_setAddr :: "Addr \<Rightarrow> Packet \<Rightarrow> Packet result" where
  "pkt_setAddr a p = bindR (assertR (pkt_isSet p VALID_ADDR) AssertFail) (\<lambda>_. Ok (p\<lparr>pk_addr := a\<rparr>))"

definition pkt_getSize :: "Packet \<Rightarrow> u32 result" where
  "pkt_getSize p = bindR (assertR (pkt_isSet p VALID_SIZE) AssertFail) (\<lambda>_. Ok (pk_size p))"

definition pkt_setSize :: "u32 \<Rightarrow> Packet \<Rightarrow> Packet result" where
  "pkt_setSize sz p =
     bindR (assertR (\<not> pkt_isSet p VALID_SIZE) AssertFail) (\<lambda>_. Ok (pkt_set VALID_SIZE (p\<lparr>pk_size := sz\<rparr>)))"

text \<open>\<^verbatim>\<open>Addr(blk_size - 1)\<close>: the subtraction is in 32 bits, the mask in 64.\<close>

definition pkt_getOffset :: "u32 \<Rightarrow> Packet \<Rightarrow> Addr result" where
  "pkt_getOffset blk_size p = bindR (pkt_getAddr p) (\<lambda>a. Ok (a AND ucast (blk_size - 1)))"

definition pkt_getBlockAddr :: "u32 \<Rightarrow> Packet \<Rightarrow> Addr result" where
  "pkt_getBlockAddr blk_size p = bindR (pkt_getAddr p) (\<lambda>a. Ok (a AND NOT (ucast (blk_size - 1))))"

definition pkt_isSecure :: "Packet \<Rightarrow> bool result" where
  "pkt_isSecure p = bindR (assertR (pkt_isSet p VALID_ADDR) AssertFail) (\<lambda>_. Ok (pk_isSecure p))"

definition convertScToWrite :: "Packet \<Rightarrow> Packet result" where
  "convertScToWrite p =
     bindR (assertR (cmd_isLLSC (pk_cmd p)) AssertFail) (\<lambda>_.
     bindR (assertR (cmd_isWrite (pk_cmd p)) AssertFail) (\<lambda>_. Ok (p\<lparr>pk_cmd := WriteReq\<rparr>)))"

definition convertLlToRead :: "Packet \<Rightarrow> Packet result" where
  "convertLlToRead p =
     bindR (assertR (cmd_isLLSC (pk_cmd p)) AssertFail) (\<lambda>_.
     bindR (assertR (cmd_isRead (pk_cmd p)) AssertFail) (\<lambda>_. Ok (p\<lparr>pk_cmd := ReadReq\<rparr>)))"

section \<open>Construction\<close>

definition blank_Packet :: "u64 \<Rightarrow> Request \<Rightarrow> Command \<Rightarrow> Packet" where
  "blank_Packet ident req c = \<lparr>pk_flags = 0, pk_cmd = c, pk_id = ident, pk_req = req, pk_data = None,
     pk_addr = 0, pk_isSecure = False, pk_size = 0, pk_bytesValid = [], pk_headerDelay = 0,
     pk_snoopDelay = 0, pk_payloadDelay = 0, pk_senderState = []\<rparr>"

text \<open>\<open>ident\<close> is the address of the request object, which the constructor uses as the packet's id.\<close>

definition new_Packet :: "u64 \<Rightarrow> Request \<Rightarrow> Command \<Rightarrow> Packet result" where
  "new_Packet ident req c =
     bindR (if req_hasPaddr req
            then bindR (req_getPaddr req) (\<lambda>a.
                   Ok (pkt_set VALID_ADDR ((blank_Packet ident req c)\<lparr>pk_addr := a, pk_isSecure := req_isSecure req\<rparr>)))
            else Ok (blank_Packet ident req c)) (\<lambda>p.
     if req_hasSize req
     then bindR (req_getSize req) (\<lambda>sz. Ok (pkt_set VALID_SIZE (p\<lparr>pk_size := sz\<rparr>)))
     else Ok p)"

text \<open>A packet for a whole block: \<^verbatim>\<open>req->getPaddr() & ~(_blkSize - 1)\<close> with a signed block size.\<close>

definition new_block_Packet :: "u64 \<Rightarrow> Request \<Rightarrow> Command \<Rightarrow> int \<Rightarrow> Packet result" where
  "new_block_Packet ident req c blkSize =
     bindR (if req_hasPaddr req
            then bindR (req_getPaddr req) (\<lambda>a.
                   Ok (pkt_set VALID_ADDR ((blank_Packet ident req c)
                     \<lparr>pk_addr := a AND NOT (word_of_int (blkSize - 1)), pk_isSecure := req_isSecure req\<rparr>)))
            else Ok (blank_Packet ident req c)) (\<lambda>p.
     Ok (pkt_set VALID_SIZE (p\<lparr>pk_size := word_of_int blkSize\<rparr>)))"

definition pkt_allocate :: "Packet \<Rightarrow> Packet result" where
  "pkt_allocate p =
     (if cmd_hasData (pk_cmd p) \<or> pkt_hasRespData p
      then bindR (assertR (\<not> pkt_isSet p (STATIC_DATA OR DYNAMIC_DATA)) AssertFail) (\<lambda>_.
           bindR (pkt_getSize p) (\<lambda>sz.
             Ok ((pkt_set DYNAMIC_DATA p)\<lparr>pk_data := Some (replicate (unat sz) 0)\<rparr>)))
      else Ok p)"

definition copy_Packet :: "Packet \<Rightarrow> bool \<Rightarrow> bool \<Rightarrow> Packet result" where
  "copy_Packet pkt clear_flags alloc_data =
     (let p = pkt\<lparr>pk_data := None, pk_snoopDelay := 0,
                 pk_flags := (if clear_flags then 0 else pk_flags pkt AND COPY_FLAGS)
                             OR (pk_flags pkt AND (VALID_ADDR OR VALID_SIZE))\<rparr>
      in if alloc_data
         then if pkt_isSet pkt STATIC_DATA
              then Ok (pkt_set STATIC_DATA (p\<lparr>pk_data := pk_data pkt\<rparr>))
              else pkt_allocate p
         else Ok p)"

definition makeReadCmd :: "Request \<Rightarrow> Command" where
  "makeReadCmd req =
     (if req_isLLSC req then LoadLockedReq
      else if req_isPrefetch req then SoftPFReq
      else ReadReq)"

definition makeWriteCmd :: "Request \<Rightarrow> Command" where
  "makeWriteCmd req =
     (if req_isLLSC req then StoreCondReq
      else if req_isSwap req \<or> req_isAtomic req then SwapReq
      else if req_isCacheInvalidate req
           then (if req_isCacheClean req then CleanInvalidReq else InvalidateReq)
      else if req_isCacheClean req then CleanSharedReq
      else WriteReq)"

definition createRead :: "u64 \<Rightarrow> Request \<Rightarrow> Packet result" where
  "createRead ident req = new_Packet ident req (makeReadCmd req)"

definition createWrite :: "u64 \<Rightarrow> Request \<Rightarrow> Packet result" where
  "createWrite ident req = new_Packet ident req (makeWriteCmd req)"

section \<open>Responses\<close>

definition makeResponse :: "Packet \<Rightarrow> Packet result" where
  "makeResponse p =
     bindR (assertR (cmd_needsResponse (pk_cmd p)) AssertFail) (\<lambda>_.
     bindR (assertR (cmd_isRequest (pk_cmd p)) AssertFail) (\<lambda>_.
       Ok (pkt_clear EXPRESS_SNOOP (p\<lparr>pk_cmd := responseCommand (pk_cmd p)\<rparr>))))"

definition makeAtomicResponse :: "Packet \<Rightarrow> Packet result" where
  "makeAtomicResponse p = makeResponse p"

definition makeTimingResponse :: "Packet \<Rightarrow> Packet result" where
  "makeTimingResponse p = makeResponse p"

definition setFunctionalResponseStatus :: "bool \<Rightarrow> Packet \<Rightarrow> Packet" where
  "setFunctionalResponseStatus success p =
     (if \<not> success
      then if cmd_isWrite (pk_cmd p) then p\<lparr>pk_cmd := FunctionalWriteError\<rparr>
           else p\<lparr>pk_cmd := FunctionalReadError\<rparr>
      else p)"

definition mustCheckAbove :: "Packet \<Rightarrow> bool" where
  "mustCheckAbove p = (pk_cmd p = HardPFReq \<or> cmd_isEviction (pk_cmd p))"

definition isCleanEviction :: "Packet \<Rightarrow> bool" where
  "isCleanEviction p = (pk_cmd p = CleanEvict \<or> pk_cmd p = WritebackClean)"

section \<open>Data\<close>

definition dataStatic :: "u8 list \<Rightarrow> Packet \<Rightarrow> Packet result" where
  "dataStatic buf p =
     bindR (assertR (\<not> pkt_isSet p (STATIC_DATA OR DYNAMIC_DATA)) AssertFail)
       (\<lambda>_. Ok (pkt_set STATIC_DATA (p\<lparr>pk_data := Some buf\<rparr>)))"

definition dataDynamic :: "u8 list \<Rightarrow> Packet \<Rightarrow> Packet result" where
  "dataDynamic buf p =
     bindR (assertR (\<not> pkt_isSet p (STATIC_DATA OR DYNAMIC_DATA)) AssertFail)
       (\<lambda>_. Ok (pkt_set DYNAMIC_DATA (p\<lparr>pk_data := Some buf\<rparr>)))"

definition pkt_getPtr :: "Packet \<Rightarrow> u8 list result" where
  "pkt_getPtr p =
     bindR (assertR (pkt_isSet p (STATIC_DATA OR DYNAMIC_DATA)) AssertFail)
       (\<lambda>_. case pk_data p of None \<Rightarrow> Error NullDeref | Some d \<Rightarrow> Ok d)"

text \<open>\<open>same\<close> says whether the source pointer is the packet's own buffer.\<close>

definition pkt_setData :: "bool \<Rightarrow> u8 list \<Rightarrow> nat \<Rightarrow> Packet \<Rightarrow> Packet result" where
  "pkt_setData same src off p =
     bindR (pkt_getPtr p) (\<lambda>d.
     bindR (assertR (\<not> same \<or> pkt_isSet p STATIC_DATA) AssertFail) (\<lambda>_.
       if \<not> same
       then bindR (pkt_getSize p) (\<lambda>sz. bindR (memcpy d 0 src off (unat sz)) (\<lambda>d'. Ok (p\<lparr>pk_data := Some d'\<rparr>)))
       else Ok p))"

definition setDataFromBlock :: "u8 list \<Rightarrow> u32 \<Rightarrow> Packet \<Rightarrow> Packet result" where
  "setDataFromBlock blk_data blkSize p =
     bindR (pkt_getOffset blkSize p) (\<lambda>off. pkt_setData False blk_data (unat off) p)"

definition pkt_writeData :: "u8 list \<Rightarrow> nat \<Rightarrow> Packet \<Rightarrow> u8 list result" where
  "pkt_writeData dst off p =
     bindR (pkt_getPtr p) (\<lambda>d. bindR (pkt_getSize p) (\<lambda>sz. memcpy dst off d 0 (unat sz)))"

definition writeDataToBlock :: "u8 list \<Rightarrow> u32 \<Rightarrow> Packet \<Rightarrow> u8 list result" where
  "writeDataToBlock blk_data blkSize p =
     bindR (pkt_getOffset blkSize p) (\<lambda>off. pkt_writeData blk_data (unat off) p)"

definition deleteData :: "Packet \<Rightarrow> Packet" where
  "deleteData p = (pkt_clear (STATIC_DATA OR DYNAMIC_DATA) p)\<lparr>pk_data := None\<rparr>"

section \<open>Functional accesses\<close>

text \<open>
  \<^verbatim>\<open>trySatisfyFunctional\<close>: check this functional request against a value \<open>vdata\<close> stored at
  \<open>base\<close>. A read copies the overlap in and records which bytes are valid; a write copies the
  overlap out. The result says whether the request is complete. The loops over the valid
  bytes are their conjunctions.
\<close>

definition func_read ::
  "nat \<Rightarrow> nat \<Rightarrow> nat \<Rightarrow> u8 list \<Rightarrow> Packet \<Rightarrow> (bool \<times> Packet) result" where
  "func_read func_offset val_offset overlap vdata p =
     bindR (pkt_getPtr p) (\<lambda>d.
     bindR (memcpy d func_offset vdata val_offset overlap) (\<lambda>d'.
     bindR (pkt_getSize p) (\<lambda>sz.
       let bv = (if pk_bytesValid p = [] then replicate (unat sz) False else pk_bytesValid p) in
       bindR (memcpy bv func_offset (replicate overlap True) 0 overlap) (\<lambda>bv'.
         let before = list_all (\<lambda>b. b) (take func_offset bv);
             after = list_all (\<lambda>b. b) (take (unat sz - (func_offset + overlap)) (drop (func_offset + overlap) bv'))
         in Ok (before \<and> after, p\<lparr>pk_data := Some d', pk_bytesValid := bv'\<rparr>)))))"

definition func_write ::
  "nat \<Rightarrow> nat \<Rightarrow> nat \<Rightarrow> u8 list \<Rightarrow> Packet \<Rightarrow> u8 list result" where
  "func_write func_offset val_offset overlap vdata p =
     bindR (pkt_getPtr p) (\<lambda>d. memcpy vdata val_offset d func_offset overlap)"

definition trySatisfyFunctional ::
  "Addr \<Rightarrow> bool \<Rightarrow> int \<Rightarrow> u8 list option \<Rightarrow> Packet \<Rightarrow> (bool \<times> Packet \<times> u8 list option) result" where
  "trySatisfyFunctional base is_secure vsize vdata p =
     bindR (pkt_getAddr p) (\<lambda>func_start.
     bindR (pkt_getSize p) (\<lambda>sz.
       let func_end = func_start + ucast sz - 1; val_start = base;
           val_end = val_start + word_of_int vsize - 1 in
       if is_secure \<noteq> pk_isSecure p \<or> func_start > val_end \<or> val_start > func_end
       then Ok (False, p, vdata)
       else if cmd_isPrint (pk_cmd p)
       then bindR (assertR (vdata = None) AssertFail) (\<lambda>_. Ok (False, p, vdata))
       else (case vdata of None \<Rightarrow> Ok (False, p, vdata)
         | Some buf \<Rightarrow>
           let val_offset = (if func_start > val_start then func_start - val_start else 0);
               func_offset = (if func_start < val_start then val_start - func_start else 0);
               overlap_size = min val_end func_end + 1 - max val_start func_start in
           if cmd_isRead (pk_cmd p)
           then bindR (func_read (unat func_offset) (unat val_offset) (unat overlap_size) buf p)
                  (\<lambda>(done, p'). Ok (done, p', vdata))
           else if cmd_isWrite (pk_cmd p)
           then bindR (func_write (unat func_offset) (unat val_offset) (unat overlap_size) buf p)
                  (\<lambda>buf'. Ok (False, p, Some buf'))
           else Error Panic)))"

text \<open>The overload on another packet, which offers its data only if its command carries some.\<close>

definition trySatisfyFunctional_packet :: "Packet \<Rightarrow> Packet \<Rightarrow> (bool \<times> Packet \<times> u8 list option) result" where
  "trySatisfyFunctional_packet other p =
     bindR (pkt_getAddr other) (\<lambda>a. bindR (pkt_isSecure other) (\<lambda>sec. bindR (pkt_getSize other) (\<lambda>sz.
     bindR (if cmd_hasData (pk_cmd other) then bindR (pkt_getPtr other) (\<lambda>d. Ok (Some d)) else Ok None) (\<lambda>d.
       trySatisfyFunctional a sec (sint sz) d p))))"

section \<open>Overlap of a request and a stored value\<close>

lemma unat_range_end:
  fixes a :: u64
  assumes "0 < n" "unat a + n \<le> 2 ^ 64"
  shows "unat (a + of_nat n - 1) = unat a + n - 1"
proof -
  obtain m where m: "n = Suc m" using assms(1) by (cases n) auto
  have "unat (of_nat m :: u64) = m"
    using assms(2) m by (simp add: unsigned_of_nat take_bit_nat_eq_self)
  moreover have "a + of_nat n - 1 = a + of_nat m" by (simp add: m)
  ultimately show ?thesis using assms m by (simp add: unat_word_ariths)
qed

lemma ucast_u32_of_nat: "(ucast (sz :: u32) :: u64) = of_nat (unat sz)"
  by (simp add: word_unat_eq_iff unsigned_of_nat take_bit_nat_eq_self order_less_trans [OF unat_less_u32])

text \<open>The request covers \<open>n\<close> bytes from \<open>fs\<close>, the value \<open>v\<close> bytes from \<open>b\<close>.\<close>

lemma overlap_offsets:
  fixes fs b :: u64
  assumes "0 < n" "unat fs + n \<le> 2 ^ 64" "0 < v" "unat b + v \<le> 2 ^ 64" and n32: "n < 2 ^ 32"
  defines "fe \<equiv> fs + of_nat n - 1" and "ve \<equiv> b + of_nat v - 1"
  assumes ov: "\<not> (fs > ve \<or> b > fe)"
  shows "unat (if fs > b then fs - b else 0) = unat fs - unat b"
    "unat (if fs < b then b - fs else 0) = unat b - unat fs"
    "unat (min ve fe + 1 - max b fs) =
       min (unat b + v) (unat fs + n) - max (unat b) (unat fs)"
    "unat b < unat fs + n" "unat fs < unat b + v"
proof -
  have e: "unat fe = unat fs + n - 1" "unat ve = unat b + v - 1"
    unfolding fe_def ve_def using assms(1-4) by (auto simp: unat_range_end)
  from ov have "unat fs \<le> unat ve" "unat b \<le> unat fe" by (auto simp: word_less_nat_alt)
  then show lt: "unat b < unat fs + n" "unat fs < unat b + v" using e assms(1,3) by linarith+
  show "unat (if fs > b then fs - b else 0) = unat fs - unat b"
    "unat (if fs < b then b - fs else 0) = unat b - unat fs"
    by (auto simp: unat_sub word_le_nat_alt word_less_nat_alt)
  have m: "unat (min ve fe) = min (unat ve) (unat fe)" "unat (max b fs) = max (unat b) (unat fs)"
    by (auto simp: min_def max_def word_le_nat_alt)
  have le: "max b fs \<le> min ve fe"
    using lt e assms(1,3) by (auto simp: word_le_nat_alt m)
  have d: "unat (min ve fe - max b fs) = min (unat ve) (unat fe) - max (unat b) (unat fs)"
    using unat_sub [OF le] m by simp
  moreover have "min (unat ve) (unat fe) \<le> unat fs + n - 1" "unat fs \<le> max (unat b) (unat fs)"
    using e(1) by auto
  ultimately have "unat (min ve fe - max b fs) \<le> n" by linarith
  then have "unat (min ve fe - max b fs) + 1 < 2 ^ 64" using n32 by simp
  then have s1: "unat (min ve fe - max b fs + 1) = unat (min ve fe - max b fs) + 1"
    by (simp add: unat_word_ariths)
  have q: "min ve fe + 1 - max b fs = min ve fe - max b fs + 1" by simp
  have "unat (min ve fe + 1 - max b fs) =
      min (unat b + v - 1) (unat fs + n - 1) - max (unat b) (unat fs) + 1"
    unfolding q using s1 d e by simp
  moreover have "min (unat b + v - 1) (unat fs + n - 1) - max (unat b) (unat fs) + 1 =
      min (unat b + v) (unat fs + n) - max (unat b) (unat fs)"
    using lt assms(1,3) by (auto simp: min_def max_def)
  ultimately show "unat (min ve fe + 1 - max b fs) =
       min (unat b + v) (unat fs + n) - max (unat b) (unat fs)" by simp
qed

section \<open>Functional reads and writes\<close>

text \<open>What a request of \<open>n\<close> bytes at \<open>fs\<close> gets from the \<open>buf\<close> stored at \<open>b\<close>, byte by byte.\<close>

definition in_value :: "nat \<Rightarrow> nat \<Rightarrow> nat \<Rightarrow> nat \<Rightarrow> bool" where
  "in_value fs b v i \<longleftrightarrow> b \<le> fs + i \<and> fs + i < b + v"

text \<open>A functional packet: its address, size and data are there and the data has its size.\<close>

definition func_ok :: "Packet \<Rightarrow> bool" where
  "func_ok p \<longleftrightarrow> pkt_isSet p VALID_ADDR \<and> pkt_isSet p VALID_SIZE \<and> pkt_isSet p (STATIC_DATA OR DYNAMIC_DATA) \<and>
     (\<exists>d. pk_data p = Some d \<and> length d = unat (pk_size p)) \<and>
     (pk_bytesValid p = [] \<or> length (pk_bytesValid p) = unat (pk_size p)) \<and>
     0 < unat (pk_size p) \<and> unat (pk_addr p) + unat (pk_size p) \<le> 2 ^ 64"

definition valid_byte :: "Packet \<Rightarrow> nat \<Rightarrow> bool" where
  "valid_byte p i \<longleftrightarrow> i < length (pk_bytesValid p) \<and> pk_bytesValid p ! i"

lemma func_read_exact:
  assumes "func_ok p" "pk_data p = Some d" "0 < v" "v = length buf"
    and "b < unat (pk_addr p) + unat (pk_size p)" "unat (pk_addr p) < b + v"
  defines "fs \<equiv> unat (pk_addr p)" and "n \<equiv> unat (pk_size p)"
  shows "\<exists>p'. func_read (b - fs) (fs - b) (min (b + v) (fs + n) - max b fs) buf p
      = Ok (\<forall>i<n. valid_byte p' i, p') \<and>
    length (pk_bytesValid p') = n \<and> (\<forall>i<n. valid_byte p' i \<longleftrightarrow> valid_byte p i \<or> in_value fs b v i) \<and>
    (\<exists>d'. pk_data p' = Some d' \<and> length d' = n \<and>
       (\<forall>i<n. d' ! i = (if in_value fs b v i then buf ! (fs + i - b) else d ! i)))"
proof -
  define fo vo ov where "fo = b - fs" "vo = fs - b" "ov = min (b + v) (fs + n) - max b fs"
  have l: "length d = n" using assms(1,2) by (auto simp: func_ok_def n_def)
  have b: "b < fs + n" "fs < b + v" using assms(5,6) by (auto simp: fs_def n_def)
  have bd: "fo + ov \<le> n" "vo + ov \<le> length buf" using b assms(4) by (auto simp: fo_vo_ov_def)
  have iv: "in_value fs b v i \<longleftrightarrow> fo \<le> i \<and> i < fo + ov" if "i < n" for i
    using that b by (auto simp: in_value_def fo_vo_ov_def)
  have off: "vo + (i - fo) = fs + i - b" if "i < n" "in_value fs b v i" for i
    using that b by (auto simp: in_value_def fo_vo_ov_def)
  obtain d' where d': "memcpy d fo buf vo ov = Ok d'" using bd l by (auto simp: memcpy_def)
  define bv where "bv = (if pk_bytesValid p = [] then replicate n False else pk_bytesValid p)"
  have lbv: "length bv = n" using assms(1) by (auto simp: bv_def func_ok_def n_def)
  obtain bv' where bv': "memcpy bv fo (replicate ov True) 0 ov = Ok bv'" using bd lbv by (auto simp: memcpy_def)
  note nd = memcpy_nth [OF d'] and nb = memcpy_nth [OF bv']
  have n0: "0 < n" using assms(1) by (simp add: func_ok_def n_def)
  have ln: "length d' = n" "length bv' = n" using nd(1) [of 0] nb(1) [of 0] l lbv n0 by auto
  have vb: "bv ! i \<longleftrightarrow> valid_byte p i" if "i < n" for i
    using that lbv by (auto simp: bv_def valid_byte_def)
  have nbv: "bv' ! i \<longleftrightarrow> bv ! i \<or> in_value fs b v i" if "i < n" for i
    using nb(2) [of i] that lbv iv [OF that] by auto
  let ?p = "p\<lparr>pk_data := Some d', pk_bytesValid := bv'\<rparr>"
  let ?before = "list_all (\<lambda>b. b) (take fo bv)"
  let ?after = "list_all (\<lambda>b. b) (take (n - (fo + ov)) (drop (fo + ov) bv'))"
  have "func_read fo vo ov buf p = Ok (?before \<and> ?after, ?p)"
  proof -
    have "pkt_getPtr p = Ok d" "pkt_getSize p = Ok (pk_size p)"
      using assms(1,2) by (auto simp: pkt_getPtr_def pkt_getSize_def func_ok_def)
    then show ?thesis
      by (simp only: func_read_def bindR.simps d' Let_def n_def [symmetric] bv_def [symmetric] bv')
  qed
  moreover have "(?before \<and> ?after) = (\<forall>i<n. valid_byte ?p i)"
  proof -
    have be: "?before \<longleftrightarrow> (\<forall>i<fo. bv ! i)" using bd lbv by (auto simp: list_all_length)
    have af: "?after \<longleftrightarrow> (\<forall>i<n - (fo + ov). bv' ! (fo + ov + i))" using ln by (auto simp: list_all_length)
    have "(\<forall>i<n. bv' ! i) \<longleftrightarrow> (\<forall>i<fo. bv ! i) \<and> (\<forall>i<n - (fo + ov). bv' ! (fo + ov + i))"
    proof (intro iffI conjI allI impI)
      fix i
      assume "\<forall>i<n. bv' ! i" "i < fo"
      then show "bv ! i" using nbv [of i] iv [of i] bd by auto
    next
      fix i
      assume a: "(\<forall>i<fo. bv ! i) \<and> (\<forall>i<n - (fo + ov). bv' ! (fo + ov + i))" "i < n"
      consider "i < fo" | "fo \<le> i" "i < fo + ov" | "fo + ov \<le> i" by linarith
      then show "bv' ! i"
      proof cases
        case 3
        then have "i - (fo + ov) < n - (fo + ov)" "fo + ov + (i - (fo + ov)) = i" using a(2) by auto
        then show ?thesis using a(1) by metis
      qed (use a nbv [of i] iv [of i] in auto)
    qed auto
    then show ?thesis using be af ln by (auto simp: valid_byte_def)
  qed
  moreover have "\<forall>i<n. valid_byte ?p i \<longleftrightarrow> valid_byte p i \<or> in_value fs b v i"
    using nbv vb ln by (auto simp: valid_byte_def)
  moreover have "\<forall>i<n. d' ! i = (if in_value fs b v i then buf ! (fs + i - b) else d ! i)"
    using nd(2) l iv off by auto
  ultimately show ?thesis using ln unfolding fo_vo_ov_def by auto
qed

lemma func_write_exact:
  assumes "func_ok p" "pk_data p = Some d" "0 < v" "v = length buf"
    and "b < unat (pk_addr p) + unat (pk_size p)" "unat (pk_addr p) < b + v"
  defines "fs \<equiv> unat (pk_addr p)" and "n \<equiv> unat (pk_size p)"
  shows "\<exists>buf'. func_write (b - fs) (fs - b) (min (b + v) (fs + n) - max b fs) buf p = Ok buf' \<and>
    length buf' = v \<and>
    (\<forall>j<v. buf' ! j = (if fs \<le> b + j \<and> b + j < fs + n then d ! (b + j - fs) else buf ! j))"
proof -
  define fo vo ov where "fo = b - fs" "vo = fs - b" "ov = min (b + v) (fs + n) - max b fs"
  have l: "length d = n" using assms(1,2) by (auto simp: func_ok_def n_def)
  have b: "b < fs + n" "fs < b + v" using assms(5,6) by (auto simp: fs_def n_def)
  have bd: "vo + ov \<le> length buf" "fo + ov \<le> n" using b assms(4) by (auto simp: fo_vo_ov_def)
  obtain buf' where c: "memcpy buf vo d fo ov = Ok buf'" using bd l by (auto simp: memcpy_def)
  note nc = memcpy_nth [OF c]
  have "buf' ! j = (if fs \<le> b + j \<and> b + j < fs + n then d ! (b + j - fs) else buf ! j)" if "j < v" for j
  proof -
    have "vo \<le> j \<and> j < vo + ov \<longleftrightarrow> fs \<le> b + j \<and> b + j < fs + n"
      using that b by (auto simp: fo_vo_ov_def)
    moreover have "fo + (j - vo) = b + j - fs" if "fs \<le> b + j \<and> b + j < fs + n"
      using that b by (auto simp: fo_vo_ov_def)
    ultimately show ?thesis using nc(2) [of j] \<open>j < v\<close> assms(4) by auto
  qed
  moreover have "length buf' = v" using nc(1) [of 0] assms(3,4) by simp
  moreover have "pkt_getPtr p = Ok d" using assms(1,2) by (auto simp: pkt_getPtr_def func_ok_def)
  ultimately show ?thesis using c unfolding func_write_def fo_vo_ov_def by auto
qed

section \<open>Properties\<close>

text \<open>C9: a functional read against a stored value copies exactly the bytes of the request the value
  covers, leaves the others, marks them valid, and reports completion exactly when every byte of the
  request is valid by now. The value overlaps the request and lies in the same security space,
  and neither range wraps around the address space.\<close>

theorem functional_read:
  assumes "func_ok p" "cmd_isRead (pk_cmd p)" "pk_data p = Some d" "0 < length buf"
    and "unat base + length buf \<le> 2 ^ 64"
    and "unat base < unat (pk_addr p) + unat (pk_size p)" "unat (pk_addr p) < unat base + length buf"
  shows "\<exists>p'. trySatisfyFunctional base (pk_isSecure p) (int (length buf)) (Some buf) p
      = Ok (\<forall>i<unat (pk_size p). valid_byte p' i, p', Some buf) \<and>
    (\<forall>i<unat (pk_size p). valid_byte p' i =
       (valid_byte p i \<or> in_value (unat (pk_addr p)) (unat base) (length buf) i)) \<and>
    (\<exists>d'. pk_data p' = Some d' \<and> length d' = unat (pk_size p) \<and> (\<forall>i<unat (pk_size p). d' ! i =
       (if in_value (unat (pk_addr p)) (unat base) (length buf) i
        then buf ! (unat (pk_addr p) + i - unat base) else d ! i)))"
proof -
  let ?n = "unat (pk_size p)" and ?v = "length buf"
  let ?fe = "pk_addr p + of_nat ?n - 1" and ?ve = "base + of_nat ?v - 1"
  have ok: "0 < ?n" "unat (pk_addr p) + ?n \<le> 2 ^ 64" "?n < 2 ^ 32"
    using assms(1) unat_less_u32 by (auto simp: func_ok_def)
  have "unat ?fe = unat (pk_addr p) + ?n - 1" "unat ?ve = unat base + ?v - 1"
    using ok assms(4,5) by (auto simp only: unat_range_end)
  then have ov: "\<not> (pk_addr p > ?ve \<or> base > ?fe)" using assms(6,7) by (auto simp: word_less_nat_alt)
  note off = overlap_offsets [OF ok(1,2) assms(4,5) ok(3) ov]
  obtain p' where p': "func_read (unat base - unat (pk_addr p)) (unat (pk_addr p) - unat base)
      (min (unat base + ?v) (unat (pk_addr p) + ?n) - max (unat base) (unat (pk_addr p))) buf p
      = Ok (\<forall>i<?n. valid_byte p' i, p')"
    "\<forall>i<?n. valid_byte p' i = (valid_byte p i \<or> in_value (unat (pk_addr p)) (unat base) ?v i)"
    "\<exists>d'. pk_data p' = Some d' \<and> length d' = ?n \<and> (\<forall>i<?n. d' ! i =
       (if in_value (unat (pk_addr p)) (unat base) ?v i then buf ! (unat (pk_addr p) + i - unat base) else d ! i))"
    using func_read_exact [OF assms(1,3,4) refl assms(6,7)] by blast
  have g: "pkt_getAddr p = Ok (pk_addr p)" "pkt_getSize p = Ok (pk_size p)"
    using assms(1) by (auto simp: pkt_getAddr_def pkt_getSize_def func_ok_def)
  have np: "\<not> cmd_isPrint (pk_cmd p)" using assms(2) by (cases "pk_cmd p") (simp_all add: cmd_defs)
  have "trySatisfyFunctional base (pk_isSecure p) (int ?v) (Some buf) p = Ok (\<forall>i<?n. valid_byte p' i, p', Some buf)"
    unfolding trySatisfyFunctional_def g bindR.simps Let_def ucast_u32_of_nat of_int_of_nat_eq off option.case
    using ov np assms(2) p'(1) by simp
  with p'(2,3) show ?thesis by blast
qed

definition demo_read :: Packet where
  "demo_read = (blank_Packet 1 empty_Request ReadReq)\<lparr>pk_flags := VALID_ADDR OR VALID_SIZE OR STATIC_DATA,
     pk_addr := 0x1002, pk_size := 4, pk_data := Some [0, 0, 0, 0]\<rparr>"

lemma demo_read_ok: "func_ok demo_read"
  by (simp add: func_ok_def demo_read_def blank_Packet_def pkt_isSet_def flags_isSet_def pkt_flag_defs)

theorem functional_read_witness:
  "\<exists>b p'. trySatisfyFunctional 0x1000 False 4 (Some [1, 2, 3, 4]) demo_read = Ok (b, p', Some [1, 2, 3, 4]) \<and>
     valid_byte p' 1"
proof -
  have d: "pk_addr demo_read = 0x1002" "pk_size demo_read = 4" "pk_data demo_read = Some [0, 0, 0, 0]"
    "pk_isSecure demo_read = False" "cmd_isRead (pk_cmd demo_read)"
    by (simp_all add: demo_read_def blank_Packet_def cmd_defs)
  define buf :: "u8 list" where "buf = [1, 2, 3, 4]"
  have l: "length buf = 4" by (simp add: buf_def)
  obtain p' b where p': "trySatisfyFunctional 0x1000 False (int 4) (Some buf) demo_read = Ok (b, p', Some buf)"
    "\<forall>i<4. valid_byte p' i = (valid_byte demo_read i \<or> in_value 4098 4096 4 i)"
    using functional_read [OF demo_read_ok d(5,3), of buf "0x1000"] d by (auto simp: l)
  have "valid_byte p' 1" using p'(2) by (auto simp: in_value_def)
  with p'(1) show ?thesis by (auto simp: buf_def)
qed

text \<open>C10: a functional write stores exactly the bytes the request and the value share, leaves the other
  bytes of the value and the packet alone, and never reports completion. The value overlaps the
  request and lies in the same security space, and neither range wraps around.\<close>

theorem functional_write:
  assumes "func_ok p" "cmd_isWrite (pk_cmd p)" "\<not> cmd_isRead (pk_cmd p)" "pk_data p = Some d" "0 < length buf"
    and "unat base + length buf \<le> 2 ^ 64"
    and "unat base < unat (pk_addr p) + unat (pk_size p)" "unat (pk_addr p) < unat base + length buf"
  shows "\<exists>buf'. trySatisfyFunctional base (pk_isSecure p) (int (length buf)) (Some buf) p
      = Ok (False, p, Some buf') \<and> length buf' = length buf \<and>
    (\<forall>j<length buf. buf' ! j =
      (if unat (pk_addr p) \<le> unat base + j \<and> unat base + j < unat (pk_addr p) + unat (pk_size p)
       then d ! (unat base + j - unat (pk_addr p)) else buf ! j))"
proof -
  let ?n = "unat (pk_size p)" and ?v = "length buf"
  let ?fe = "pk_addr p + of_nat ?n - 1" and ?ve = "base + of_nat ?v - 1"
  have ok: "0 < ?n" "unat (pk_addr p) + ?n \<le> 2 ^ 64" "?n < 2 ^ 32"
    using assms(1) unat_less_u32 by (auto simp: func_ok_def)
  have "unat ?fe = unat (pk_addr p) + ?n - 1" "unat ?ve = unat base + ?v - 1"
    using ok assms(5,6) by (auto simp only: unat_range_end)
  then have ov: "\<not> (pk_addr p > ?ve \<or> base > ?fe)" using assms(7,8) by (auto simp: word_less_nat_alt)
  note off = overlap_offsets [OF ok(1,2) assms(5,6) ok(3) ov]
  obtain buf' where b: "func_write (unat base - unat (pk_addr p)) (unat (pk_addr p) - unat base)
      (min (unat base + ?v) (unat (pk_addr p) + ?n) - max (unat base) (unat (pk_addr p))) buf p = Ok buf'"
    "length buf' = ?v" "\<forall>j<?v. buf' ! j =
      (if unat (pk_addr p) \<le> unat base + j \<and> unat base + j < unat (pk_addr p) + ?n
       then d ! (unat base + j - unat (pk_addr p)) else buf ! j)"
    using func_write_exact [OF assms(1,4,5) refl assms(7,8)] by blast
  have g: "pkt_getAddr p = Ok (pk_addr p)" "pkt_getSize p = Ok (pk_size p)"
    using assms(1) by (auto simp: pkt_getAddr_def pkt_getSize_def func_ok_def)
  have np: "\<not> cmd_isPrint (pk_cmd p)" using assms(2) by (cases "pk_cmd p") (simp_all add: cmd_defs)
  have "trySatisfyFunctional base (pk_isSecure p) (int ?v) (Some buf) p = Ok (False, p, Some buf')"
    unfolding trySatisfyFunctional_def g bindR.simps Let_def ucast_u32_of_nat of_int_of_nat_eq off option.case
    using ov np assms(2,3) b(1) by simp
  with b(2,3) show ?thesis by blast
qed

theorem functional_write_witness:
  "\<exists>buf'. trySatisfyFunctional 0x1000 False (int 4) (Some [1, 2, 3, 4])
      (demo_read\<lparr>pk_cmd := WriteReq, pk_data := Some [5, 6, 7, 8]\<rparr>)
      = Ok (False, demo_read\<lparr>pk_cmd := WriteReq, pk_data := Some [5, 6, 7, 8]\<rparr>, Some buf') \<and> buf' ! 3 = 6"
proof -
  let ?p = "demo_read\<lparr>pk_cmd := WriteReq, pk_data := Some [5, 6, 7, 8]\<rparr>"
  have ok: "func_ok ?p" using demo_read_ok by (simp add: func_ok_def pkt_isSet_def demo_read_def)
  have d: "pk_addr ?p = 0x1002" "pk_size ?p = 4" "pk_data ?p = Some [5, 6, 7, 8]" "pk_isSecure ?p = False"
    "cmd_isWrite (pk_cmd ?p)" "\<not> cmd_isRead (pk_cmd ?p)"
    by (simp_all add: demo_read_def blank_Packet_def cmd_defs)
  show ?thesis using functional_write [OF ok d(5,6,3), of "[1, 2, 3, 4]" "0x1000"] d by auto
qed

text \<open>Turning a request into its response in place succeeds exactly on requests that need one, gives a
  response that needs none and is no error, clears the express snoop flag and touches nothing else;
  a second attempt fails.\<close>

theorem makeResponse_spec:
  "makeResponse p = (if cmd_needsResponse (pk_cmd p)
     then Ok (p\<lparr>pk_cmd := responseCommand (pk_cmd p), pk_flags := pk_flags p AND NOT EXPRESS_SNOOP\<rparr>)
     else Error AssertFail) \<and>
   (cmd_needsResponse (pk_cmd p) \<longrightarrow>
     cmd_isResponse (responseCommand (pk_cmd p)) \<and> \<not> cmd_isError (responseCommand (pk_cmd p)) \<and>
     (cmd_isRead (pk_cmd p) \<longrightarrow> cmd_hasData (responseCommand (pk_cmd p))) \<and>
     bindR (makeResponse p) makeResponse = Error AssertFail)"
proof -
  have e: "makeResponse q = (if cmd_needsResponse (pk_cmd q)
      then Ok (q\<lparr>pk_cmd := responseCommand (pk_cmd q), pk_flags := pk_flags q AND NOT EXPRESS_SNOOP\<rparr>)
      else Error AssertFail)" for q
    using needsResponse_isRequest [of "pk_cmd q"]
    by (auto simp: makeResponse_def bindR_assertR pkt_clear_def flags_clear_def)
  show ?thesis
    using response_of_request [of "pk_cmd p"] read_response_has_data [of "pk_cmd p"] e [of p]
    by (auto simp: e)
qed

theorem makeResponse_spec_witness:
  "cmd_isResponse (responseCommand (pk_cmd demo_read)) \<and> bindR (makeResponse demo_read) makeResponse = Error AssertFail"
proof -
  have "cmd_needsResponse (pk_cmd demo_read)" by (simp add: demo_read_def blank_Packet_def cmd_defs)
  then show ?thesis using makeResponse_spec [of demo_read] by blast
qed

text \<open>An address is its block address plus its offset in the block, for every power-of-two block
  size, and the block address is a multiple of the block size.\<close>

lemma pkt_block_split:
  "k < 32 \<Longrightarrow> pkt_isSet p VALID_ADDR \<Longrightarrow>
     pkt_getOffset (2 ^ k) p = Ok (take_bit k (pk_addr p)) \<and>
     pkt_getBlockAddr (2 ^ k) p = Ok (push_bit k (drop_bit k (pk_addr p)))"
proof -
  assume k: "k < 32" and p: "pkt_isSet p VALID_ADDR"
  have m: "(ucast ((2 :: u32) ^ k - 1) :: u64) = mask k"
  proof (rule bit_word_eqI)
    fix n
    have "bit ((2 :: u32) ^ k - 1) n \<longleftrightarrow> n < 32 \<and> n < k"
      using bit_mask_iff [of k n, where ?'a = u32] by (simp add: mask_eq_exp_minus_1)
    then show "bit (ucast ((2 :: u32) ^ k - 1) :: u64) n = bit (mask k :: u64) n" if "n < LENGTH(64)"
      using k that by (auto simp: bit_ucast_iff bit_mask_iff)
  qed
  have "a AND mask k = take_bit k a" "a AND NOT (mask k) = push_bit k (drop_bit k a)" for a :: u64
    by (rule bit_word_eqI; auto simp: bit_and_iff bit_not_iff bit_mask_iff bit_push_bit_iff bit_drop_bit_eq
        bit_take_bit_iff)+
  then show ?thesis using p by (simp add: pkt_getOffset_def pkt_getBlockAddr_def pkt_getAddr_def m)
qed

text \<open>Reading a packet's data from a cache block and writing it back leaves the block as it was, for any
  packet that fits in the block at its offset.\<close>

theorem block_data_roundtrip:
  assumes "setDataFromBlock blk blkSize p = Ok p'"
  shows "writeDataToBlock blk blkSize p' = Ok blk"
proof -
  from assms obtain off where off: "pkt_getOffset blkSize p = Ok off" "pkt_setData False blk (unat off) p = Ok p'"
    by (auto simp: setDataFromBlock_def result_simps)
  then obtain d sz d' where d: "pkt_getPtr p = Ok d" "pkt_getSize p = Ok sz"
    "memcpy d 0 blk (unat off) (unat sz) = Ok d'" "p' = p\<lparr>pk_data := Some d'\<rparr>"
    by (auto simp: pkt_setData_def result_simps split: if_splits)
  have g: "pkt_getPtr p' = Ok d'" "pkt_getSize p' = Ok sz" "pkt_getOffset blkSize p' = Ok off"
    using d off(1)
    by (auto simp: pkt_getPtr_def pkt_getSize_def pkt_getOffset_def pkt_getAddr_def pkt_isSet_def result_simps
        split: option.splits)
  have le: "unat sz \<le> length d" "unat off + unat sz \<le> length blk"
    and d': "d' = overwrite 0 (take (unat sz) (drop (unat off) blk)) d"
    using d(3) by (auto simp: memcpy_Ok_iff)
  then have "take (unat sz) d' = take (unat sz) (drop (unat off) blk)" "unat sz \<le> length d'"
    by (simp_all add: overwrite_def)
  then have "memcpy blk (unat off) d' 0 (unat sz) = Ok (overwrite (unat off) (take (unat sz) (drop (unat off) blk)) blk)"
    using le by (simp add: memcpy_def)
  also have "overwrite (unat off) (take (unat sz) (drop (unat off) blk)) blk = blk"
    using le by (intro nth_equalityI) (auto simp: nth_overwrite)
  finally show ?thesis using g by (simp add: writeDataToBlock_def pkt_writeData_def)
qed

theorem block_data_roundtrip_witness:
  "\<exists>p'. setDataFromBlock [1, 2, 3, 4, 5, 6, 7, 8] 8 demo_read = Ok p' \<and> pk_data p' = Some [3, 4, 5, 6] \<and>
     writeDataToBlock [1, 2, 3, 4, 5, 6, 7, 8] 8 p' = Ok [1, 2, 3, 4, 5, 6, 7, 8]"
proof -
  have "setDataFromBlock [1, 2, 3, 4, 5, 6, 7, 8] 8 demo_read = Ok (demo_read\<lparr>pk_data := Some [3, 4, 5, 6]\<rparr>)"
    by (simp add: setDataFromBlock_def pkt_getOffset_def pkt_getAddr_def pkt_isSet_def pkt_setData_def pkt_getPtr_def
        pkt_getSize_def memcpy_def overwrite_def demo_read_def blank_Packet_def flags_isSet_def pkt_flag_defs)
  from this block_data_roundtrip [OF this] show ?thesis by auto
qed

text \<open>Sender states come back in the reverse order of their pushes, with the packet otherwise as it
  was; popping an empty stack is caught.\<close>

lemma senderState_stack:
  "popSenderState (pushSenderState st p) = Ok (st, p) \<and>
   findNextSenderState is_T (pushSenderState st p) = (if is_T st then Some st else findNextSenderState is_T p) \<and>
   (popSenderState p = Error AssertFail) = (pk_senderState p = [])"
  by (auto simp: popSenderState_def pushSenderState_def findNextSenderState_def split: list.splits)

end
