(* ===== verification/Aimc_Cluster.thy ===== *)
theory Aimc_Cluster
  imports Aimc_Device Addr_Range Mem_Packet
begin

text \<open>
  The simulated device, \<^verbatim>\<open>dev/arm/aimc_cluster.hh\<close> and \<^verbatim>\<open>dev/arm/aimc_cluster.cc\<close>: a memory-mapped
  object that owns one tile per CPU, and the pointer to it that \<^verbatim>\<open>ArmSystem\<close> hands to the
  instructions. A tile pointer is an \<open>option\<close>, \<open>None\<close> once the tile was deleted. The
  \<^verbatim>\<open>double\<close> accumulator is exact for sums of 2000 products of bytes and is an \<open>int\<close> here.
\<close>

section \<open>Tiles\<close>

record AIMCTile =
  crossbarHeight :: nat
  crossbarWidth :: nat
  crossbar :: "i8 list"
  inputMemory :: "i8 list"
  outputMemory :: "i8 list"
  inputMemoryCounter :: int
  outputMemoryCounter :: int
  vectorization :: nat

definition new_AIMCTile :: AIMCTile where
  "new_AIMCTile = \<lparr>crossbarHeight = 2000, crossbarWidth = 2000, crossbar = replicate (2000 * 2000) 0,
     inputMemory = replicate 2000 0, outputMemory = replicate 2000 0, inputMemoryCounter = 0,
     outputMemoryCounter = 0, vectorization = 4\<rparr>"

definition tile_column :: "AIMCTile \<Rightarrow> nat \<Rightarrow> int result" where
  "tile_column t i =
     foldM (\<lambda>j acc. bindR (arr_get (inputMemory t) (int j)) (\<lambda>a.
        bindR (arr_get (crossbar t) (int j * int (crossbarWidth t) + int i)) (\<lambda>b.
          Ok (acc + sint a * sint b)))) [0..<crossbarHeight t] 0"

definition tile_saturate :: "int \<Rightarrow> i8" where
  "tile_saturate acc = (if acc > 127 then 127 else if acc < -128 then -128 else word_of_int acc)"

definition tile_process :: "AIMCTile \<Rightarrow> AIMCTile result" where
  "tile_process t =
     bindR (foldM (\<lambda>i out. bindR (tile_column t i) (\<lambda>acc. arr_set out (int i) (tile_saturate acc)))
              [0..<crossbarWidth t] (outputMemory t)) (\<lambda>out.
     bindR (foldM (\<lambda>i inp. arr_set inp (int i) 0) [0..<crossbarHeight t] (inputMemory t)) (\<lambda>inp.
       Ok (t\<lparr>outputMemory := out, inputMemory := inp, inputMemoryCounter := 0, outputMemoryCounter := 0\<rparr>)))"

definition tile_queue :: "u32 \<Rightarrow> AIMCTile \<Rightarrow> AIMCTile result" where
  "tile_queue val t =
     (let idx = inputMemoryCounter t; len = int (vectorization t) in
      bindR (intR (idx + len)) (\<lambda>next.
      bindR (if next < int (crossbarHeight t)
             then foldM (\<lambda>i inp. arr_set inp (idx + int i) (ucast (drop_bit (8 * i) val AND 0xff)))
                    [0..<vectorization t] (inputMemory t)
             else Ok (inputMemory t)) (\<lambda>inp.
      Ok (t\<lparr>inputMemory := inp, inputMemoryCounter := next\<rparr>))))"

definition tile_queue_single :: "i8 \<Rightarrow> AIMCTile \<Rightarrow> AIMCTile result" where
  "tile_queue_single val t =
     (let idx = inputMemoryCounter t in
      bindR (if idx < int (crossbarHeight t) then arr_set (inputMemory t) idx val else Ok (inputMemory t)) (\<lambda>inp.
      bindR (intR (idx + 1)) (\<lambda>next. Ok (t\<lparr>inputMemory := inp, inputMemoryCounter := next\<rparr>))))"

definition tile_dequeue :: "AIMCTile \<Rightarrow> (AIMCTile \<times> u32) result" where
  "tile_dequeue t =
     (let idx = outputMemoryCounter t; len = int (vectorization t) in
      bindR (intR (idx + len)) (\<lambda>next.
      bindR (if next < int (crossbarWidth t)
             then foldM (\<lambda>i res. bindR (arr_get (outputMemory t) (idx + int i)) (\<lambda>b.
                    Ok (push_bit 8 res OR (0xff AND ucast b)))) (rev [0..<vectorization t]) 0
             else Ok 0) (\<lambda>res.
      Ok (t\<lparr>outputMemoryCounter := next\<rparr>, res))))"

definition tile_dequeue_single :: "AIMCTile \<Rightarrow> (AIMCTile \<times> i8) result" where
  "tile_dequeue_single t =
     (let idx = outputMemoryCounter t in
      bindR (intR (idx + 1)) (\<lambda>next.
      bindR (if next < int (crossbarWidth t) then arr_get (outputMemory t) idx else Ok 0) (\<lambda>res.
      Ok (t\<lparr>outputMemoryCounter := next\<rparr>, res))))"

text \<open>The flat index has no lower bound check.\<close>

definition tile_index :: "AIMCTile \<Rightarrow> int \<Rightarrow> int \<Rightarrow> int result" where
  "tile_index t x y = bindR (intR (y * int (crossbarWidth t))) (\<lambda>row. intR (row + x))"

definition tile_param_read :: "int \<Rightarrow> int \<Rightarrow> AIMCTile \<Rightarrow> i8 result" where
  "tile_param_read x y t =
     bindR (tile_index t x y) (\<lambda>idx.
       if idx < int (crossbarWidth t * crossbarHeight t) then arr_get (crossbar t) idx else Ok 0)"

definition tile_param_write :: "int \<Rightarrow> int \<Rightarrow> i8 \<Rightarrow> AIMCTile \<Rightarrow> AIMCTile result" where
  "tile_param_write x y val t =
     bindR (tile_index t x y) (\<lambda>idx.
       if idx < int (crossbarWidth t * crossbarHeight t)
       then bindR (arr_set (crossbar t) idx val) (\<lambda>xb. Ok (t\<lparr>crossbar := xb\<rparr>))
       else Ok t)"

section \<open>The cluster\<close>

record AIMCCluster =
  cpus :: "nat option list"
  tiles :: "AIMCTile option list"
  pioAddr :: Addr
  pioSize :: Addr
  pioDelay :: Tick

record AIMCClusterParams =
  p_pio_addr :: Addr
  p_pio_size :: u32
  p_pio_latency :: Tick
  p_cpus :: "nat option list"

definition new_AIMCCluster :: "AIMCClusterParams \<Rightarrow> AIMCCluster" where
  "new_AIMCCluster p =
     fold (\<lambda>cpu c. c\<lparr>cpus := cpus c @ [cpu], tiles := tiles c @ [Some new_AIMCTile]\<rparr>) (p_cpus p)
       \<lparr>cpus = [], tiles = [], pioAddr = p_pio_addr p, pioSize = scast (p_pio_size p),
        pioDelay = p_pio_latency p\<rparr>"

text \<open>
  Deleting every tile: the body of the destructor and of \<^verbatim>\<open>serialize\<close>. The code frees a tile
  with \<^verbatim>\<open>delete[] tile\<close> although it was made with \<^verbatim>\<open>new\<close>, whose behaviour C++ leaves undefined; the
  model takes it as the plain \<^verbatim>\<open>delete\<close> it stands for. Either way the tile is gone afterwards.
\<close>

definition delete_tiles :: "AIMCCluster \<Rightarrow> AIMCCluster result" where
  "delete_tiles c =
     bindR (foldM (\<lambda>t ts. case t of None \<Rightarrow> Error UseAfterFree | Some _ \<Rightarrow> Ok (ts @ [None])) (tiles c) [])
       (\<lambda>ts. Ok (c\<lparr>tiles := ts\<rparr>))"

definition delete_AIMCCluster :: "AIMCCluster \<Rightarrow> AIMCCluster result" where
  "delete_AIMCCluster c = delete_tiles c"

definition serialize :: "AIMCCluster \<Rightarrow> AIMCCluster result" where
  "serialize c = delete_tiles c"

text \<open>\<^verbatim>\<open>tiles[tid]->\<close>: an unchecked index into the vector, then a dereference.\<close>

definition get_tile :: "AIMCCluster \<Rightarrow> int \<Rightarrow> AIMCTile result" where
  "get_tile c tid =
     bindR (arr_get (tiles c) tid) (\<lambda>t. case t of None \<Rightarrow> Error UseAfterFree | Some t \<Rightarrow> Ok t)"

definition put_tile :: "AIMCCluster \<Rightarrow> int \<Rightarrow> AIMCTile \<Rightarrow> AIMCCluster result" where
  "put_tile c tid t = bindR (arr_set (tiles c) tid (Some t)) (\<lambda>ts. Ok (c\<lparr>tiles := ts\<rparr>))"

definition aimcProcess :: "int \<Rightarrow> AIMCCluster \<Rightarrow> AIMCCluster result" where
  "aimcProcess tid c = bindR (get_tile c tid) (\<lambda>t. bindR (tile_process t) (put_tile c tid))"

definition aimcQueue :: "int \<Rightarrow> u32 \<Rightarrow> AIMCCluster \<Rightarrow> AIMCCluster result" where
  "aimcQueue tid val c = bindR (get_tile c tid) (\<lambda>t. bindR (tile_queue val t) (put_tile c tid))"

definition aimcQueueSingle :: "int \<Rightarrow> i8 \<Rightarrow> AIMCCluster \<Rightarrow> AIMCCluster result" where
  "aimcQueueSingle tid val c = bindR (get_tile c tid) (\<lambda>t. bindR (tile_queue_single val t) (put_tile c tid))"

definition aimcDequeue :: "int \<Rightarrow> AIMCCluster \<Rightarrow> (AIMCCluster \<times> u32) result" where
  "aimcDequeue tid c = bindR (get_tile c tid) (\<lambda>t. bindR (tile_dequeue t) (\<lambda>(t', res).
     bindR (put_tile c tid t') (\<lambda>c'. Ok (c', res))))"

definition aimcDequeueSingle :: "int \<Rightarrow> AIMCCluster \<Rightarrow> (AIMCCluster \<times> i8) result" where
  "aimcDequeueSingle tid c = bindR (get_tile c tid) (\<lambda>t. bindR (tile_dequeue_single t) (\<lambda>(t', res).
     bindR (put_tile c tid t') (\<lambda>c'. Ok (c', res))))"

definition aimcParamRead :: "int \<Rightarrow> int \<Rightarrow> int \<Rightarrow> AIMCCluster \<Rightarrow> i8 result" where
  "aimcParamRead tid x y c = bindR (get_tile c tid) (tile_param_read x y)"

definition aimcParamWrite :: "int \<Rightarrow> int \<Rightarrow> int \<Rightarrow> i8 \<Rightarrow> AIMCCluster \<Rightarrow> AIMCCluster result" where
  "aimcParamWrite tid x y val c =
     bindR (get_tile c tid) (\<lambda>t. bindR (tile_param_write x y val t) (put_tile c tid))"

section \<open>Memory-mapped accesses\<close>

definition check_pio :: "AIMCCluster \<Rightarrow> Packet \<Rightarrow> unit result" where
  "check_pio c pkt =
     bindR (pkt_getAddr pkt) (\<lambda>a. assertR (a \<ge> pioAddr c \<and> a < pioAddr c + pioSize c) AssertFail)"

definition cluster_read :: "AIMCCluster \<Rightarrow> Packet \<Rightarrow> (Packet \<times> Tick) result" where
  "cluster_read c pkt =
     bindR (check_pio c pkt) (\<lambda>_. bindR (makeAtomicResponse pkt) (\<lambda>pkt. Ok (pkt, pioDelay c)))"

text \<open>\<^verbatim>\<open>pkt->get<uint8_t>()\<close> asserts that the packet has data of at least one byte.\<close>

definition pkt_get_u8 :: "Packet \<Rightarrow> u8 result" where
  "pkt_get_u8 p =
     bindR (assertR (pkt_isSet p (STATIC_DATA OR DYNAMIC_DATA)) AssertFail) (\<lambda>_.
     bindR (assertR (1 \<le> pk_size p) AssertFail) (\<lambda>_.
       case pk_data p of None \<Rightarrow> Error NullDeref | Some d \<Rightarrow> arr_get d 0))"

definition cluster_write :: "AIMCCluster \<Rightarrow> Packet \<Rightarrow> (Packet \<times> Tick) result" where
  "cluster_write c pkt =
     bindR (check_pio c pkt) (\<lambda>_. bindR (pkt_get_u8 pkt) (\<lambda>_.
     bindR (makeAtomicResponse pkt) (\<lambda>pkt. Ok (pkt, pioDelay c))))"

definition cluster_getAddrRanges :: "AIMCCluster \<Rightarrow> AddrRange list" where
  "cluster_getAddrRanges c = [RangeSize (pioAddr c) (pioSize c)]"

text \<open>\<^verbatim>\<open>PioPort::recvAtomic\<close>: the port consumes the packet's delays and dispatches on the command.\<close>

definition recvAtomic :: "AIMCCluster \<Rightarrow> Packet \<Rightarrow> (Packet \<times> Tick) result" where
  "recvAtomic c pkt =
     (let receive_delay = ucast (pk_headerDelay pkt + pk_payloadDelay pkt);
          pkt = pkt\<lparr>pk_headerDelay := 0, pk_payloadDelay := 0\<rparr> in
      bindR (if cmd_isRead (pk_cmd pkt) then cluster_read c pkt else cluster_write c pkt) (\<lambda>(pkt, delay).
      bindR (assertR (cmd_isResponse (pk_cmd pkt) \<or> cmd_isError (pk_cmd pkt)) AssertFail) (\<lambda>_.
        Ok (pkt, delay + receive_delay))))"

section \<open>The system's pointer to the cluster\<close>

text \<open>The static pointer \<^verbatim>\<open>theSystem\<close> and the field \<^verbatim>\<open>aimc\<close> of the system it points to.\<close>

record ArmSystem =
  theSystem :: bool
  sys_aimc :: "AIMCCluster option"

definition setAIMCCluster :: "AIMCCluster \<Rightarrow> ArmSystem \<Rightarrow> ArmSystem" where
  "setAIMCCluster c s = s\<lparr>sys_aimc := Some c, theSystem := (if \<not> theSystem s then True else theSystem s)\<rparr>"

definition getArmSystem :: "ArmSystem \<Rightarrow> ArmSystem result" where
  "getArmSystem s = (if \<not> theSystem s then Error Fatal else Ok s)"

definition getAIMCCluster :: "ArmSystem \<Rightarrow> AIMCCluster result" where
  "getAIMCCluster s = (case sys_aimc s of None \<Rightarrow> Error NullDeref | Some c \<Rightarrow> Ok c)"

text \<open>\<^verbatim>\<open>init\<close> panics on an unconnected port, then registers the cluster.\<close>

definition cluster_init :: "bool \<Rightarrow> AIMCCluster \<Rightarrow> ArmSystem \<Rightarrow> ArmSystem result" where
  "cluster_init connected c s =
     bindR (assertR connected Panic) (\<lambda>_. Ok (setAIMCCluster c s))"

text \<open>
  \<^verbatim>\<open>unserialize\<close> runs \<^verbatim>\<open>init\<close> again and then appends a new tile per CPU to the vector it has, old
  pointers included. The system holds a pointer to the cluster, so that it sees the tiles
  appended after \<^verbatim>\<open>init\<close>. \<^verbatim>\<open>p->system\<close> is taken to be an \<^verbatim>\<open>ArmSystem\<close>, as in the constructor.
\<close>

definition unserialize :: "bool \<Rightarrow> AIMCClusterParams \<Rightarrow> AIMCCluster \<Rightarrow> ArmSystem \<Rightarrow> (AIMCCluster \<times> ArmSystem) result"
where
  "unserialize connected p c s =
     bindR (cluster_init connected c s) (\<lambda>s.
       let c = fold (\<lambda>cpu c. c\<lparr>cpus := cpus c @ [cpu], tiles := tiles c @ [Some new_AIMCTile]\<rparr>) (p_cpus p) c in
       Ok (c, s\<lparr>sys_aimc := Some c\<rparr>))"

section \<open>Well-formed tiles\<close>

definition tile_ok :: "AIMCTile \<Rightarrow> bool" where
  "tile_ok t \<longleftrightarrow> crossbarHeight t = 2000 \<and> crossbarWidth t = 2000 \<and> vectorization t = 4 \<and>
     length (crossbar t) = 2000 * 2000 \<and> length (inputMemory t) = 2000 \<and> length (outputMemory t) = 2000 \<and>
     0 \<le> inputMemoryCounter t \<and> 0 \<le> outputMemoryCounter t"

definition tile_view :: "AIMCTile \<Rightarrow> aimc_view" where
  "tile_view t = \<lparr>v_xbar = crossbar t, v_in = inputMemory t, v_out = outputMemory t,
     v_ic = nat (inputMemoryCounter t), v_oc = nat (outputMemoryCounter t)\<rparr>"

text \<open>A deleted tile violates nothing: it cannot be reached without an error.\<close>

definition cluster_ok :: "AIMCCluster \<Rightarrow> bool" where
  "cluster_ok c \<longleftrightarrow> list_all (\<lambda>t. case t of None \<Rightarrow> True | Some t \<Rightarrow> tile_ok t) (tiles c)"

definition cluster_valid :: "AIMCCluster \<Rightarrow> int \<Rightarrow> bool" where
  "cluster_valid c tid \<longleftrightarrow> 0 \<le> tid \<and> tid < int (length (tiles c)) \<and> tiles c ! nat tid \<noteq> None"

definition cluster_view :: "AIMCCluster \<Rightarrow> int \<Rightarrow> aimc_view" where
  "cluster_view c tid = (if cluster_valid c tid then tile_view (the (tiles c ! nat tid))
     else \<lparr>v_xbar = [], v_in = [], v_out = [], v_ic = 0, v_oc = 0\<rparr>)"

lemma tile_ok_new: "tile_ok new_AIMCTile"
  unfolding tile_ok_def new_AIMCTile_def by simp

lemma tiles_fold_new:
  "tiles (fold (\<lambda>cpu c. c\<lparr>cpus := cpus c @ [cpu], tiles := tiles c @ [Some new_AIMCTile]\<rparr>) ps c)
     = tiles c @ replicate (length ps) (Some new_AIMCTile)"
  by (induction ps arbitrary: c) (auto simp: replicate_append_same)

lemma tiles_new_AIMCCluster: "tiles (new_AIMCCluster p) = replicate (length (p_cpus p)) (Some new_AIMCTile)"
  by (simp add: new_AIMCCluster_def tiles_fold_new)

lemma cluster_ok_new: "cluster_ok (new_AIMCCluster p)"
  by (simp add: cluster_ok_def tiles_new_AIMCCluster tile_ok_new list_all_iff)

lemma valid_tile:
  assumes "cluster_ok c" "cluster_valid c tid"
  shows "\<exists>t. get_tile c tid = Ok t \<and> tile_ok t \<and> tiles c ! nat tid = Some t \<and> cluster_view c tid = tile_view t"
proof -
  obtain t where t: "tiles c ! nat tid = Some t" using assms(2) by (auto simp: cluster_valid_def)
  moreover have "tile_ok t"
    using assms t by (auto simp: cluster_ok_def cluster_valid_def list_all_length dest!: spec [of _ "nat tid"])
  ultimately show ?thesis
    using assms(2) by (auto simp: get_tile_def arr_get_def cluster_valid_def cluster_view_def)
qed

lemma put_tile_ok:
  assumes "cluster_ok c" "cluster_valid c tid" "tile_ok t'"
  shows "\<exists>c'. put_tile c tid t' = Ok c' \<and>
    tile_becomes cluster_ok cluster_valid cluster_view c tid (tile_view t') c'"
proof -
  let ?k = "nat tid" and ?c = "c\<lparr>tiles := (tiles c)[nat tid := Some t']\<rparr>"
  have k: "?k < length (tiles c)" "tid = int ?k" using assms(2) by (auto simp: cluster_valid_def)
  have "put_tile c tid t' = Ok ?c"
    using k arr_set_nat [OF k(1)] by (metis bindR.simps(2) put_tile_def)
  moreover have "cluster_ok ?c"
    using assms(1,3) k by (auto simp: cluster_ok_def list_all_length nth_list_update)
  moreover have v: "cluster_valid ?c = cluster_valid c"
    using assms(2) by (auto simp: cluster_valid_def fun_eq_iff nth_list_update split: if_splits)
  moreover have "cluster_view ?c = (cluster_view c)(tid := tile_view t')"
    using k assms(2) unfolding fun_eq_iff cluster_view_def v
    by (auto simp: cluster_valid_def nth_list_update)
  ultimately show ?thesis by (auto simp: tile_becomes_def)
qed

section \<open>Each operation refines the abstract tile\<close>

lemma tile_saturate_sat8: "tile_saturate acc = sat8 acc"
  by (simp add: tile_saturate_def sat8_def max_def min_def)

lemma foldM_zero:
  "length xs = n \<Longrightarrow> foldM (\<lambda>i ys. arr_set ys (int i) (0 :: i8)) [0..<n] xs = Ok (replicate n 0)"
  using foldM_write_all [of xs n "\<lambda>_. Ok 0" "\<lambda>_. 0" id]
  by (simp add: map_replicate_const)

lemma tile_process_ok:
  assumes "tile_ok t"
  shows "\<exists>t'. tile_process t = Ok t' \<and> tile_ok t' \<and> tile_view t' = spec_process 2000 2000 (tile_view t)"
proof -
  have "tile_column t i = Ok (mvm_column 2000 2000 (crossbar t) (inputMemory t) i)" if "i < 2000" for i
    using assms that mac_foldM [of "crossbar t" 2000 2000 "inputMemory t" i]
    unfolding tile_column_def tile_ok_def by auto
  then have "foldM (\<lambda>i out. bindR (tile_column t i) (\<lambda>acc. arr_set out (int i) (tile_saturate acc)))
      [0..<2000] (outputMemory t)
      = Ok (map (\<lambda>i. sat8 (mvm_column 2000 2000 (crossbar t) (inputMemory t) i)) [0..<2000])"
    using assms foldM_write_all [where g = "tile_column t" and k = tile_saturate and n = 2000]
    by (simp add: tile_ok_def tile_saturate_sat8 del: upt_rec_numeral)
  then show ?thesis
    using assms foldM_zero [of "inputMemory t" 2000]
    by (simp add: tile_process_def tile_ok_def tile_view_def spec_process_def del: upt_rec_numeral)
qed

lemma tile_queue_ok:
  assumes "tile_ok t" "inputMemoryCounter t + 4 < 2 ^ 31"
  shows "\<exists>t'. tile_queue val t = Ok t' \<and> tile_ok t' \<and> tile_view t' = spec_queue 2000 val (tile_view t)"
proof -
  obtain k where k: "inputMemoryCounter t = int k" using assms by (metis tile_ok_def zero_le_imp_eq_int)
  have i: "intR (int k + 4) = Ok (int (k + 4))" using assms(2) k by (intro intR_of_nat) auto
  have t: "vectorization t = 4" "crossbarHeight t = 2000" "length (inputMemory t) = 2000"
    using assms(1) by (auto simp: tile_ok_def)
  have q: "k + 4 < 2000 \<Longrightarrow>
      foldM (\<lambda>i ys. arr_set ys (int k + int i) (ucast (drop_bit (8 * i) val AND 0xff))) [0..<4] (inputMemory t)
        = Ok (overwrite k (map (word_byte val) [0..<4]) (inputMemory t))"
    using queue_foldM [of k "inputMemory t" "word_byte val"] t(3) by (simp add: word_byte_def [abs_def])
  have e: "tile_queue val t = Ok (t\<lparr>inputMemory := v_in (spec_queue 2000 val (tile_view t)),
      inputMemoryCounter := int (k + 4)\<rparr>)"
    unfolding tile_queue_def Let_def t k of_nat_numeral i bindR.simps
    using q by (auto simp: spec_queue_def tile_view_def k)
  have "length (v_in (spec_queue 2000 val (tile_view t))) = 2000"
    using t(3) by (simp add: spec_queue_def tile_view_def k)
  then show ?thesis
    using e assms(1) by (auto simp: tile_ok_def tile_view_def spec_queue_def k nat_add_distrib)
qed

lemma tile_dequeue_ok:
  assumes "tile_ok t" "outputMemoryCounter t + 4 < 2 ^ 31"
  shows "\<exists>t'. tile_dequeue t = Ok (t', spec_dequeue_value 2000 (tile_view t)) \<and> tile_ok t' \<and>
    tile_view t' = spec_dequeue (tile_view t)"
proof -
  obtain k where k: "outputMemoryCounter t = int k" using assms by (metis tile_ok_def zero_le_imp_eq_int)
  have i: "intR (int k + 4) = Ok (int (k + 4))" using assms(2) k by (intro intR_of_nat) auto
  have t: "vectorization t = 4" "crossbarWidth t = 2000" "length (outputMemory t) = 2000"
    using assms(1) by (auto simp: tile_ok_def)
  have r: "rev [0..<4] = [3, 2, 1, 0 :: nat]" by (simp add: upt_0_4)
  have "tile_dequeue t = Ok (t\<lparr>outputMemoryCounter := int (k + 4)\<rparr>, spec_dequeue_value 2000 (tile_view t))"
    unfolding tile_dequeue_def Let_def t k of_nat_numeral i bindR.simps r
    using dequeue_foldM [of k "outputMemory t"] t(3)
    by (auto simp: spec_dequeue_value_def tile_view_def k simp del: foldM.simps)
  then show ?thesis
    using assms(1) by (auto simp: tile_ok_def tile_view_def spec_dequeue_def k nat_add_distrib)
qed

lemma tile_write_ok:
  assumes "tile_ok t" "px < 2000" "py < 2000"
  shows "\<exists>t'. tile_param_write (int px) (int py) b t = Ok t' \<and> tile_ok t' \<and>
    tile_view t' = spec_write 2000 (int px) (int py) b (tile_view t)"
proof -
  let ?idx = "py * 2000 + px"
  have t: "crossbarHeight t = 2000" "crossbarWidth t = 2000" "length (crossbar t) = 2000 * 2000"
    using assms(1) by (auto simp: tile_ok_def)
  have lt: "?idx < 2000 * 2000" using assms by simp
  have i: "tile_index t (int px) (int py) = Ok (int ?idx)"
    using lt unfolding tile_index_def t by (subst intR_of_nat [of _ "py * 2000"]; simp add: intR_of_nat)
  have "tile_param_write (int px) (int py) b t = Ok (t\<lparr>crossbar := (crossbar t)[?idx := b]\<rparr>)"
    unfolding tile_param_write_def i bindR.simps t of_nat_less_iff using lt t(3)
    by (simp del: of_nat_add of_nat_mult)
  moreover have "nat (int py * 2000 + int px) = ?idx" by simp
  ultimately show ?thesis using assms(1) by (simp add: tile_ok_def tile_view_def spec_write_def)
qed

end
