(* ===== verification/Aimc_Check.thy ===== *)
theory Aimc_Check
  imports Aimc_Device
begin

text \<open>
  The checker (\<^verbatim>\<open>aimclib/aimc_check.hh\<close>): the emulation of the AIMC tiles an application is
  linked with when it is built with \<^verbatim>\<open>USE_CHECKER\<close>. One record per class, one definition per
  method, the intrinsics at the end. The accumulator of \<^verbatim>\<open>aimcProcess\<close> is a
  \<^verbatim>\<open>double\<close>; it is an \<open>int\<close> here, exact because the sums stay far below \<open>2 ^ 53\<close>
  (\<open>mvm_column_bound\<close> with 4000 rows). The theory interprets \<open>aimc_device\<close> on the intrinsics.
\<close>

section \<open>State\<close>

definition crossbarHeight_c :: nat where "crossbarHeight_c = 4000"
definition crossbarWidth_c :: nat where "crossbarWidth_c = 4000"
definition vectorization_c :: nat where "vectorization_c = 4"

record AnalogComputationalMemoryCore =
  core_crossbar :: "i8 list"
  core_inputMemory :: "i8 list"
  core_outputMemory :: "i8 list"
  core_inputMemoryCounter :: int
  core_outputMemoryCounter :: int

definition new_core :: AnalogComputationalMemoryCore where
  "new_core = \<lparr>core_crossbar = replicate (crossbarWidth_c * crossbarHeight_c) 0,
     core_inputMemory = replicate crossbarHeight_c 0,
     core_outputMemory = replicate crossbarWidth_c 0,
     core_inputMemoryCounter = 0, core_outputMemoryCounter = 0\<rparr>"

record AnalogComputationalMemory =
  cores :: "AnalogComputationalMemoryCore list"

text \<open>A negative count makes \<^verbatim>\<open>reserve\<close> throw; only non-negative counts are built here.\<close>

definition make_ACM :: "nat \<Rightarrow> AnalogComputationalMemory" where
  "make_ACM numOfCores = \<lparr>cores = fold (\<lambda>_ cs. cs @ [new_core]) [0..<numOfCores] []\<rparr>"

text \<open>The global \<^verbatim>\<open>aimc\<close> object.\<close>

definition aimc_init :: AnalogComputationalMemory where
  "aimc_init = make_ACM 8"

definition ACM_valid :: "AnalogComputationalMemory \<Rightarrow> int \<Rightarrow> bool" where
  "ACM_valid m tid \<longleftrightarrow> \<not> (tid < 0 \<or> tid \<ge> int (length (cores m)))"

section \<open>Debug output\<close>

text \<open>What the print helpers send to \<^verbatim>\<open>cout\<close>, as a list of tokens.\<close>

datatype out_token = OStr string | OInt int | OTab | ONewline | OEndl

definition print_memory :: "string \<Rightarrow> nat \<Rightarrow> i8 list \<Rightarrow> int \<Rightarrow> int \<Rightarrow> out_token list result" where
  "print_memory what bound mem tid limit =
     bindR (foldM (\<lambda>i out. bindR (arr_get mem (int i)) (\<lambda>b.
              Ok (out @ (if i mod 10 = 0 \<and> i > 0 then [OEndl] else []) @ [OInt (sint b), OTab])))
            [0..<min bound (nat limit)] [OStr ''AIMC Core '', OInt tid, OStr what, ONewline])
       (\<lambda>out. Ok (out @ [OEndl]))"

definition printInputMemory :: "AnalogComputationalMemory \<Rightarrow> int \<Rightarrow> int \<Rightarrow> out_token list result" where
  "printInputMemory m tid limit =
     (if \<not> ACM_valid m tid then Ok []
      else bindR (arr_get (cores m) tid) (\<lambda>c.
             print_memory '' Input Memory ='' crossbarHeight_c (core_inputMemory c) tid limit))"

definition printOutputMemory :: "AnalogComputationalMemory \<Rightarrow> int \<Rightarrow> int \<Rightarrow> out_token list result" where
  "printOutputMemory m tid limit =
     (if \<not> ACM_valid m tid then Ok []
      else bindR (arr_get (cores m) tid) (\<lambda>c.
             print_memory '' Output Memory ='' crossbarWidth_c (core_outputMemory c) tid limit))"

definition printCrossbar :: "AnalogComputationalMemory \<Rightarrow> int \<Rightarrow> int \<Rightarrow> out_token list result" where
  "printCrossbar m tid limit =
     (if \<not> ACM_valid m tid then Ok []
      else bindR (arr_get (cores m) tid) (\<lambda>c.
             bindR (foldM (\<lambda>i out.
                 bindR (foldM (\<lambda>j out.
                     bindR (arr_get (core_crossbar c) (int i * int crossbarWidth_c + int j)) (\<lambda>b.
                       Ok (out @ [OInt (sint b), OTab]))) [0..<nat limit] out)
                   (\<lambda>out. Ok (out @ [OEndl])))
               [0..<min crossbarWidth_c (nat limit)] [OStr ''AIMC Core '', OInt tid, OStr '' Crossbar ='', ONewline])
               (\<lambda>out. Ok (out @ [OEndl]))))"

section \<open>Tile operations\<close>

definition update_core ::
  "AnalogComputationalMemory \<Rightarrow> int \<Rightarrow> (AnalogComputationalMemoryCore \<Rightarrow> AnalogComputationalMemoryCore result)
     \<Rightarrow> AnalogComputationalMemory result" where
  "update_core m tid f =
     bindR (arr_get (cores m) tid) (\<lambda>c. bindR (f c) (\<lambda>c'.
       bindR (arr_set (cores m) tid c') (\<lambda>cs. Ok (m\<lparr>cores := cs\<rparr>))))"

text \<open>\<^verbatim>\<open>std::clamp\<close> of the accumulator, then the conversion to \<^verbatim>\<open>int8_t\<close>.\<close>

definition clamp_i8 :: "int \<Rightarrow> i8" where
  "clamp_i8 acc = word_of_int (if acc < -128 then -128 else if 127 < acc then 127 else acc)"

definition core_column :: "AnalogComputationalMemoryCore \<Rightarrow> nat \<Rightarrow> int result" where
  "core_column c i =
     foldM (\<lambda>j acc. bindR (arr_get (core_inputMemory c) (int j)) (\<lambda>a.
        bindR (arr_get (core_crossbar c) (int j * int crossbarWidth_c + int i)) (\<lambda>b.
          Ok (acc + sint a * sint b)))) [0..<crossbarHeight_c] 0"

definition process_core :: "AnalogComputationalMemoryCore \<Rightarrow> AnalogComputationalMemoryCore result" where
  "process_core c =
     bindR (foldM (\<lambda>i out. bindR (core_column c i) (\<lambda>acc. arr_set out (int i) (clamp_i8 acc)))
              [0..<crossbarWidth_c] (core_outputMemory c)) (\<lambda>out.
     Ok (c\<lparr>core_outputMemory := out,
           core_inputMemory := replicate crossbarHeight_c 0 @ drop crossbarHeight_c (core_inputMemory c),
           core_inputMemoryCounter := 0, core_outputMemoryCounter := 0\<rparr>))"

definition ACM_aimcProcess :: "int \<Rightarrow> AnalogComputationalMemory \<Rightarrow> AnalogComputationalMemory result" where
  "ACM_aimcProcess tid m = (if \<not> ACM_valid m tid then Ok m else update_core m tid process_core)"

definition queue_core :: "u32 \<Rightarrow> AnalogComputationalMemoryCore \<Rightarrow> AnalogComputationalMemoryCore result" where
  "queue_core val c =
     (let idx = core_inputMemoryCounter c; len = int vectorization_c in
      bindR (intR (idx + len)) (\<lambda>next.
      bindR (if next < int crossbarHeight_c
             then foldM (\<lambda>i inp. arr_set inp (idx + int i) (ucast (drop_bit (8 * i) val AND 0xff)))
                    [0..<vectorization_c] (core_inputMemory c)
             else Ok (core_inputMemory c)) (\<lambda>inp.
      Ok (c\<lparr>core_inputMemory := inp,
            core_inputMemoryCounter := next\<rparr>))))"

definition ACM_aimcQueue :: "int \<Rightarrow> u32 \<Rightarrow> AnalogComputationalMemory \<Rightarrow> AnalogComputationalMemory result" where
  "ACM_aimcQueue tid val m = (if \<not> ACM_valid m tid then Ok m else update_core m tid (queue_core val))"

definition dequeue_core_value :: "AnalogComputationalMemoryCore \<Rightarrow> u32 result" where
  "dequeue_core_value c =
     (let idx = core_outputMemoryCounter c; len = int vectorization_c in
      bindR (intR (idx + len)) (\<lambda>next.
      if next < int crossbarWidth_c
      then foldM (\<lambda>i res. bindR (arr_get (core_outputMemory c) (idx + int i)) (\<lambda>b.
             Ok (push_bit 8 res OR (0xff AND ucast b)))) (rev [0..<vectorization_c]) 0
      else Ok 0))"

definition ACM_aimcDequeue ::
  "int \<Rightarrow> AnalogComputationalMemory \<Rightarrow> (AnalogComputationalMemory \<times> u32) result" where
  "ACM_aimcDequeue tid m =
     (if \<not> ACM_valid m tid then Ok (m, 0)
      else bindR (arr_get (cores m) tid) (\<lambda>c. bindR (dequeue_core_value c) (\<lambda>res.
        bindR (update_core m tid (\<lambda>c. Ok (c\<lparr>core_outputMemoryCounter :=
                 core_outputMemoryCounter c + int vectorization_c\<rparr>))) (\<lambda>m. Ok (m, res)))))"

definition ACM_aimcParamRead :: "int \<Rightarrow> int \<Rightarrow> int \<Rightarrow> AnalogComputationalMemory \<Rightarrow> i8 result" where
  "ACM_aimcParamRead tid x y m =
     (if \<not> ACM_valid m tid then Ok 0
      else bindR (arr_get (cores m) tid) (\<lambda>c.
        bindR (intR (y * int crossbarWidth_c)) (\<lambda>row. bindR (intR (row + x)) (\<lambda>idx.
        if idx \<ge> 0 \<and> idx < int (crossbarWidth_c * crossbarHeight_c)
        then arr_get (core_crossbar c) idx else Ok 0))))"

definition write_core ::
  "int \<Rightarrow> int \<Rightarrow> i8 \<Rightarrow> AnalogComputationalMemoryCore \<Rightarrow> AnalogComputationalMemoryCore result" where
  "write_core x y val c =
     bindR (intR (y * int crossbarWidth_c)) (\<lambda>row. bindR (intR (row + x)) (\<lambda>idx.
       if idx \<ge> 0 \<and> idx < int (crossbarWidth_c * crossbarHeight_c)
       then bindR (arr_set (core_crossbar c) idx val) (\<lambda>xb. Ok (c\<lparr>core_crossbar := xb\<rparr>))
       else Ok c))"

definition ACM_aimcParamWrite ::
  "int \<Rightarrow> int \<Rightarrow> int \<Rightarrow> i8 \<Rightarrow> AnalogComputationalMemory \<Rightarrow> AnalogComputationalMemory result" where
  "ACM_aimcParamWrite tid x y val m =
     (if \<not> ACM_valid m tid then Ok m else update_core m tid (write_core x y val))"

section \<open>Intrinsics emulation\<close>

text \<open>
  The wrappers over the global object: 64-bit operands are narrowed to the methods' parameter
  types (\<^verbatim>\<open>uint32_t\<close>, \<^verbatim>\<open>int\<close>, \<^verbatim>\<open>int8_t\<close>).
\<close>

definition check_aimcProcess :: "int \<Rightarrow> AnalogComputationalMemory \<Rightarrow> AnalogComputationalMemory result" where
  "check_aimcProcess tid aimc = ACM_aimcProcess tid aimc"

definition check_aimcQueue :: "u64 \<Rightarrow> int \<Rightarrow> AnalogComputationalMemory \<Rightarrow> AnalogComputationalMemory result" where
  "check_aimcQueue rm tid aimc = ACM_aimcQueue tid (ucast rm) aimc"

definition check_aimcDequeue ::
  "int \<Rightarrow> AnalogComputationalMemory \<Rightarrow> (AnalogComputationalMemory \<times> u64) result" where
  "check_aimcDequeue tid aimc = bindR (ACM_aimcDequeue tid aimc) (\<lambda>(m, r). Ok (m, ucast r))"

definition to_int32 :: "u64 \<Rightarrow> int" where
  "to_int32 x = sint (ucast x :: u32)"

definition check_aimcParamRead :: "u64 \<Rightarrow> u64 \<Rightarrow> u64 \<Rightarrow> int \<Rightarrow> AnalogComputationalMemory \<Rightarrow> u64 result" where
  "check_aimcParamRead rm rn ra tid aimc =
     bindR (ACM_aimcParamRead tid (to_int32 rm) (to_int32 rn) aimc) (\<lambda>b. Ok (scast b))"

definition check_aimcParamWrite ::
  "u64 \<Rightarrow> u64 \<Rightarrow> u64 \<Rightarrow> int \<Rightarrow> AnalogComputationalMemory \<Rightarrow> AnalogComputationalMemory result" where
  "check_aimcParamWrite rm rn ra tid aimc =
     ACM_aimcParamWrite tid (to_int32 rm) (to_int32 rn) (ucast ra) aimc"

section \<open>Well-formedness\<close>

definition core_ok :: "AnalogComputationalMemoryCore \<Rightarrow> bool" where
  "core_ok c \<longleftrightarrow> length (core_crossbar c) = crossbarWidth_c * crossbarHeight_c \<and>
     length (core_inputMemory c) = crossbarHeight_c \<and> length (core_outputMemory c) = crossbarWidth_c \<and>
     0 \<le> core_inputMemoryCounter c \<and> 0 \<le> core_outputMemoryCounter c"

definition ACM_ok :: "AnalogComputationalMemory \<Rightarrow> bool" where
  "ACM_ok m \<longleftrightarrow> list_all core_ok (cores m)"

definition core_view :: "AnalogComputationalMemoryCore \<Rightarrow> aimc_view" where
  "core_view c = \<lparr>v_xbar = core_crossbar c, v_in = core_inputMemory c, v_out = core_outputMemory c,
     v_ic = nat (core_inputMemoryCounter c), v_oc = nat (core_outputMemoryCounter c)\<rparr>"

definition ACM_view :: "AnalogComputationalMemory \<Rightarrow> int \<Rightarrow> aimc_view" where
  "ACM_view m tid = (if ACM_valid m tid then core_view (cores m ! nat tid)
     else \<lparr>v_xbar = [], v_in = [], v_out = [], v_ic = 0, v_oc = 0\<rparr>)"

lemma cores_make_ACM: "cores (make_ACM n) = replicate n new_core"
proof -
  have "fold (\<lambda>_ cs. cs @ [new_core]) xs ys = ys @ replicate (length xs) new_core"
    for xs :: "nat list" and ys
    by (induction xs arbitrary: ys) (auto simp: replicate_append_same)
  then show ?thesis by (simp add: make_ACM_def)
qed

lemma core_ok_new: "core_ok new_core"
  by (simp add: core_ok_def new_core_def)

lemma ACM_ok_make: "ACM_ok (make_ACM n)"
  by (simp add: ACM_ok_def cores_make_ACM core_ok_new list_all_iff)

lemma valid_core:
  assumes "ACM_ok m" "ACM_valid m tid"
  shows "core_ok (cores m ! nat tid)" "arr_get (cores m) tid = Ok (cores m ! nat tid)"
    "ACM_view m tid = core_view (cores m ! nat tid)"
  using assms by (auto simp: ACM_ok_def ACM_valid_def list_all_length arr_get_def ACM_view_def)

lemma update_core_ok:
  assumes "ACM_ok m" "ACM_valid m tid" "f (cores m ! nat tid) = Ok c'" "core_ok c'"
  shows "\<exists>m'. update_core m tid f = Ok m' \<and>
           tile_becomes ACM_ok ACM_valid ACM_view m tid (core_view c') m'"
proof -
  let ?k = "nat tid"
  from assms(2) have k: "?k < length (cores m)" "tid = int ?k" by (auto simp: ACM_valid_def)
  let ?m = "m\<lparr>cores := (cores m)[?k := c']\<rparr>"
  have "update_core m tid f = Ok ?m"
    using assms(3) k arr_get_nat [OF k(1)] arr_set_nat [OF k(1)]
    by (metis bindR.simps(2) update_core_def)
  moreover have "ACM_ok ?m"
    using assms(1,4) k by (auto simp: ACM_ok_def list_all_length nth_list_update)
  moreover have "ACM_valid ?m = ACM_valid m" by (auto simp: ACM_valid_def fun_eq_iff)
  moreover have "ACM_view ?m = (ACM_view m)(tid := core_view c')"
    using k assms(2) by (auto simp: ACM_view_def ACM_valid_def fun_eq_iff nth_list_update)
  ultimately show ?thesis by (auto simp: tile_becomes_def)
qed

section \<open>Each operation refines the abstract tile\<close>

lemma clamp_i8_sat8: "clamp_i8 acc = sat8 acc"
  by (simp add: clamp_i8_def sat8_def max_def min_def)

lemma process_core_ok:
  assumes "core_ok c"
  shows "process_core c = Ok (c\<lparr>core_outputMemory :=
      map (\<lambda>i. sat8 (mvm_column crossbarHeight_c crossbarWidth_c (core_crossbar c) (core_inputMemory c) i))
        [0..<crossbarWidth_c],
      core_inputMemory := replicate crossbarHeight_c 0,
      core_inputMemoryCounter := 0, core_outputMemoryCounter := 0\<rparr>)"
proof -
  have "core_column c i = Ok (mvm_column crossbarHeight_c crossbarWidth_c (core_crossbar c) (core_inputMemory c) i)"
    if "i < crossbarWidth_c" for i
    using assms that unfolding core_column_def by (intro mac_foldM) (auto simp: core_ok_def)
  then show ?thesis
    using assms foldM_write_all [where g = "core_column c" and k = clamp_i8 and n = crossbarWidth_c]
    by (simp add: process_core_def core_ok_def clamp_i8_sat8)
qed

lemma queue_core_ok:
  assumes "core_ok c" "core_inputMemoryCounter c + 4 < 2 ^ 31"
  shows "queue_core val c = Ok (c\<lparr>
      core_inputMemory := (if nat (core_inputMemoryCounter c) + 4 < crossbarHeight_c
        then overwrite (nat (core_inputMemoryCounter c)) (map (word_byte val) [0..<4]) (core_inputMemory c)
        else core_inputMemory c),
      core_inputMemoryCounter := core_inputMemoryCounter c + 4\<rparr>)"
proof -
  obtain k where k: "core_inputMemoryCounter c = int k"
    using assms by (metis core_ok_def zero_le_imp_eq_int)
  have i: "intR (int k + 4) = Ok (int (k + 4))"
    using assms(2) k by (intro intR_of_nat) auto
  have "k + 4 \<le> length (core_inputMemory c)" if "k + 4 < crossbarHeight_c"
    using that assms by (simp add: core_ok_def)
  from queue_foldM [OF this, of "word_byte val"] show ?thesis
    unfolding queue_core_def Let_def vectorization_c_def of_nat_numeral k i bindR.simps of_nat_less_iff
    by (auto simp: word_byte_def [abs_def])
qed

lemma dequeue_core_ok:
  assumes "core_ok c" "core_outputMemoryCounter c + 4 < 2 ^ 31"
  shows "dequeue_core_value c = Ok (spec_dequeue_value crossbarWidth_c (core_view c))"
proof -
  obtain k where k: "core_outputMemoryCounter c = int k"
    using assms by (metis core_ok_def zero_le_imp_eq_int)
  have i: "intR (int k + 4) = Ok (int (k + 4))"
    using assms(2) k by (intro intR_of_nat) auto
  have "k + 4 \<le> length (core_outputMemory c)" if "k + 4 < crossbarWidth_c"
    using that assms by (simp add: core_ok_def)
  moreover have r: "rev [0..<4] = [3, 2, 1, 0 :: nat]" by (simp add: upt_0_4)
  ultimately show ?thesis
    using dequeue_foldM [of k "core_outputMemory c"]
    unfolding dequeue_core_value_def Let_def vectorization_c_def of_nat_numeral k i bindR.simps
      of_nat_less_iff r
    by (auto simp: spec_dequeue_value_def core_view_def k simp del: foldM.simps)
qed

lemma to_int32_word_of_int: "- (2 ^ 31) \<le> k \<Longrightarrow> k < 2 ^ 31 \<Longrightarrow> to_int32 (word_of_int k) = k"
  by (simp add: to_int32_def signed_of_int signed_take_bit_int_eq_self unsigned_of_int
      signed_take_bit_take_bit)

lemma ucast_scast_i8: "ucast (scast (b :: i8) :: u64) = b"
  by (rule bit_word_eqI) (auto simp: bit_ucast_iff bit_signed_iff dest: bit_imp_le_length)

lemma write_core_ok:
  assumes "core_ok c" "px < crossbarWidth_c" "py < crossbarHeight_c"
  shows "write_core (int px) (int py) b c
    = Ok (c\<lparr>core_crossbar := (core_crossbar c)[py * crossbarWidth_c + px := b]\<rparr>)"
proof -
  let ?idx = "py * crossbarWidth_c + px"
  have lt: "?idx < crossbarWidth_c * crossbarHeight_c"
    using xbar_pos_less [of 0 px crossbarWidth_c 0 py crossbarHeight_c] assms by (simp add: xbar_pos_def)
  have "?idx < 2 ^ 31" using lt by (simp add: crossbarWidth_c_def crossbarHeight_c_def)
  then have i: "intR (int py * int crossbarWidth_c) = Ok (int (py * crossbarWidth_c))"
    "intR (int (py * crossbarWidth_c) + int px) = Ok (int ?idx)"
    by (intro intR_of_nat; simp)+
  have "?idx < length (core_crossbar c)" using assms(1) lt by (simp add: core_ok_def)
  then show ?thesis
    unfolding write_core_def i bindR.simps of_nat_less_iff using lt by (simp del: of_nat_add of_nat_mult)
qed

interpretation chk: aimc_device crossbarHeight_c crossbarWidth_c check_aimcQueue check_aimcDequeue
  check_aimcProcess check_aimcParamWrite ACM_ok ACM_valid ACM_view
proof (unfold_locales, goal_cases)
  case (4 s t)
  then show ?case
    using valid_core [OF 4] by (simp add: core_ok_def core_view_def view_ok_def)
next
  case (5 s t x)
  note c = valid_core [OF 5(1,2)]
  let ?c = "cores s ! nat t"
  let ?c' = "?c\<lparr>core_inputMemory := (if nat (core_inputMemoryCounter ?c) + 4 < crossbarHeight_c
        then overwrite (nat (core_inputMemoryCounter ?c)) (map (word_byte (ucast x)) [0..<4]) (core_inputMemory ?c)
        else core_inputMemory ?c), core_inputMemoryCounter := core_inputMemoryCounter ?c + 4\<rparr>"
  have "core_inputMemoryCounter ?c + 4 < 2 ^ 31" using 5(3) c(1) by (simp add: c(3) core_view_def core_ok_def)
  from queue_core_ok [OF c(1) this] have "queue_core (ucast x) ?c = Ok ?c'" .
  moreover have "core_ok ?c'" using c(1) by (simp add: core_ok_def)
  moreover have "core_view ?c' = spec_queue crossbarHeight_c (ucast x) (ACM_view s t)"
    using c(1) by (simp add: c(3) core_view_def spec_queue_def core_ok_def nat_add_distrib)
  ultimately show ?case
    using update_core_ok [OF 5(1,2), where f = "queue_core (ucast x)"] 5(2)
    by (simp add: check_aimcQueue_def ACM_aimcQueue_def)
next
  case (6 s t)
  note c = valid_core [OF 6(1,2)]
  let ?c = "cores s ! nat t"
  let ?c' = "?c\<lparr>core_outputMemoryCounter := core_outputMemoryCounter ?c + int vectorization_c\<rparr>"
  have "core_outputMemoryCounter ?c + 4 < 2 ^ 31" using 6(3) c(1) by (simp add: c(3) core_view_def core_ok_def)
  then have "dequeue_core_value ?c = Ok (spec_dequeue_value crossbarWidth_c (ACM_view s t))"
    using dequeue_core_ok [OF c(1)] by (simp add: c(3))
  moreover have "core_ok ?c'" using c(1) by (simp add: core_ok_def)
  moreover have "core_view ?c' = spec_dequeue (ACM_view s t)"
    using c(1) by (simp add: c(3) core_view_def spec_dequeue_def core_ok_def vectorization_c_def nat_add_distrib)
  ultimately show ?case
    using update_core_ok [OF 6(1,2), where f = "\<lambda>c. Ok (c\<lparr>core_outputMemoryCounter :=
        core_outputMemoryCounter c + int vectorization_c\<rparr>)", OF refl] 6(2) c(2)
    by (auto simp: check_aimcDequeue_def ACM_aimcDequeue_def)
next
  case (7 s t)
  note c = valid_core [OF 7]
  let ?c = "cores s ! nat t"
  let ?c' = "?c\<lparr>core_outputMemory :=
      map (\<lambda>i. sat8 (mvm_column crossbarHeight_c crossbarWidth_c (core_crossbar ?c) (core_inputMemory ?c) i))
        [0..<crossbarWidth_c],
      core_inputMemory := replicate crossbarHeight_c 0,
      core_inputMemoryCounter := 0, core_outputMemoryCounter := 0\<rparr>"
  have "core_ok ?c'" using c(1) by (simp add: core_ok_def)
  moreover have "core_view ?c' = spec_process crossbarHeight_c crossbarWidth_c (ACM_view s t)"
    by (simp add: c(3) core_view_def spec_process_def)
  ultimately show ?case
    using update_core_ok [OF 7, where f = process_core, OF process_core_ok [OF c(1)]] 7(2)
    by (simp add: check_aimcProcess_def ACM_aimcProcess_def)
next
  case (8 s t px py b)
  note c = valid_core [OF 8(1,2)]
  let ?c = "cores s ! nat t"
  let ?c' = "?c\<lparr>core_crossbar := (core_crossbar ?c)[py * crossbarWidth_c + px := b]\<rparr>"
  have "to_int32 (word_of_int (int px)) = int px" "to_int32 (word_of_int (int py)) = int py"
    using 8(3,4) by (intro to_int32_word_of_int; simp add: crossbarWidth_c_def crossbarHeight_c_def)+
  moreover have "core_ok ?c'" using c(1) by (simp add: core_ok_def)
  moreover have "core_view ?c' = spec_write crossbarWidth_c (int px) (int py) b (ACM_view s t)"
    by (simp add: c(3) core_view_def spec_write_def nat_int flip: of_nat_mult of_nat_add)
  ultimately show ?case
    using update_core_ok [OF 8(1,2), where f = "write_core (int px) (int py) b", OF write_core_ok [OF c(1) 8(3,4)]] 8(2)
    by (simp add: check_aimcParamWrite_def ACM_aimcParamWrite_def ucast_scast_i8)
qed (simp_all add: crossbarHeight_c_def crossbarWidth_c_def)

end
