(* ===== verification/Aimc_Isa.thy ===== *)
theory Aimc_Isa
  imports Aimc_Cluster Aimc_Check
begin

text \<open>
  The CM instructions: their decoder (\<^verbatim>\<open>arch/arm/isa/formats/aarch64.isa\<close>), their bodies
  (\<^verbatim>\<open>arch/arm/isa/insts/data64.isa\<close>) over the cluster, and the inline assembly of
  \<^verbatim>\<open>aimclib/aimc_intrinsics.hh\<close> that issues them. The instructions act on the tile of the thread's
  \<^verbatim>\<open>threadId()\<close>. The theory interprets \<open>aimc_device\<close> on the instruction bodies.
\<close>

section \<open>Instruction bodies\<close>

definition with_cluster :: "(AIMCCluster \<Rightarrow> (AIMCCluster \<times> 'a) result) \<Rightarrow> ArmSystem \<Rightarrow> (ArmSystem \<times> 'a) result"
where
  "with_cluster f s =
     bindR (getArmSystem s) (\<lambda>s. bindR (getAIMCCluster s) (\<lambda>c.
     bindR (f c) (\<lambda>(c', r). Ok (s\<lparr>sys_aimc := Some c'\<rparr>, r))))"

definition cmprocess :: "int \<Rightarrow> ArmSystem \<Rightarrow> ArmSystem result" where
  "cmprocess tid s =
     bindR (with_cluster (\<lambda>c. bindR (aimcProcess tid c) (\<lambda>c'. Ok (c', ()))) s) (\<lambda>(s, _). Ok s)"

text \<open>\<^verbatim>\<open>int val = Op264\<close>, then the conversion to \<^verbatim>\<open>uint32_t\<close>.\<close>

definition cmqueue :: "u64 \<Rightarrow> int \<Rightarrow> ArmSystem \<Rightarrow> ArmSystem result" where
  "cmqueue Op264 tid s =
     bindR (with_cluster (\<lambda>c. bindR (aimcQueue tid (ucast Op264) c) (\<lambda>c'. Ok (c', ()))) s) (\<lambda>(s, _). Ok s)"

definition cmdequeue :: "int \<Rightarrow> ArmSystem \<Rightarrow> (ArmSystem \<times> u64) result" where
  "cmdequeue tid s = bindR (with_cluster (aimcDequeue tid) s) (\<lambda>(s, r). Ok (s, ucast r))"

definition cmparamread :: "u64 \<Rightarrow> u64 \<Rightarrow> int \<Rightarrow> ArmSystem \<Rightarrow> (ArmSystem \<times> u64) result" where
  "cmparamread Op164 Op264 tid s =
     bindR (with_cluster (\<lambda>c. bindR (aimcParamRead tid (to_int32 Op264) (to_int32 Op164) c) (\<lambda>b. Ok (c, b))) s)
       (\<lambda>(s, b). Ok (s, scast b))"

definition cmparamwrite :: "u64 \<Rightarrow> u64 \<Rightarrow> u64 \<Rightarrow> int \<Rightarrow> ArmSystem \<Rightarrow> ArmSystem result" where
  "cmparamwrite Op164 Op264 Op364 tid s =
     bindR (with_cluster (\<lambda>c. bindR (aimcParamWrite tid (to_int32 Op264) (to_int32 Op164) (ucast Op364) c)
       (\<lambda>c'. Ok (c', ()))) s) (\<lambda>(s, _). Ok s)"

section \<open>Decoding\<close>

text \<open>An instruction keeps its destination and its three source registers.\<close>

datatype CmInst =
    Cmprocess64 nat nat nat nat
  | Cmqueue64 nat nat nat nat
  | Cmdequeue64 nat nat nat nat
  | Cmparamread64 nat nat nat nat
  | Cmparamwrite64 nat nat nat nat
  | Unknown64

definition inst_field :: "u32 \<Rightarrow> int \<Rightarrow> int \<Rightarrow> nat" where
  "inst_field machInst hi lo = unat (bits (ucast machInst) hi lo)"

text \<open>The constructors are called with \<^verbatim>\<open>(rd, ra, rn, rm)\<close>: the first operand is \<^verbatim>\<open>ra\<close>.\<close>

definition decodeCusDataProcImm :: "u32 \<Rightarrow> CmInst" where
  "decodeCusDataProcImm machInst =
     (let rd = inst_field machInst 4 0; rn = inst_field machInst 9 5;
          rm = inst_field machInst 20 16; ra = inst_field machInst 14 10;
          opc = inst_field machInst 30 29; rwb = inst_field machInst 15 15 in
      if inst_field machInst 25 23 < 4
      then if opc = 0 then Cmprocess64 rd ra rn rm
           else if opc = 1
           then if rwb \<noteq> 0 then Cmqueue64 rd ra rn rm else Cmdequeue64 rd ra rn rm
           else if opc = 2
           then if rwb \<noteq> 0 then Cmparamread64 rd ra rn rm else Cmparamwrite64 rd ra rn rm
           else Unknown64
      else Unknown64)"

text \<open>An unknown instruction raises an undefined-instruction fault, here \<open>Panic\<close>.\<close>

type_synonym machine = "(nat \<Rightarrow> u64) \<times> ArmSystem"

definition cm_execute :: "CmInst \<Rightarrow> int \<Rightarrow> machine \<Rightarrow> machine result" where
  "cm_execute inst tid m = (case m of (x, s) \<Rightarrow>
     (case inst of
        Cmprocess64 rd op1 op2 op3 \<Rightarrow> bindR (cmprocess tid s) (\<lambda>s. Ok (x, s))
      | Cmqueue64 rd op1 op2 op3 \<Rightarrow> bindR (cmqueue (x op2) tid s) (\<lambda>s. Ok (x, s))
      | Cmdequeue64 rd op1 op2 op3 \<Rightarrow> bindR (cmdequeue tid s) (\<lambda>(s, r). Ok (x(rd := r), s))
      | Cmparamread64 rd op1 op2 op3 \<Rightarrow> bindR (cmparamread (x op1) (x op2) tid s) (\<lambda>(s, r). Ok (x(rd := r), s))
      | Cmparamwrite64 rd op1 op2 op3 \<Rightarrow> bindR (cmparamwrite (x op1) (x op2) (x op3) tid s) (\<lambda>s. Ok (x, s))
      | Unknown64 \<Rightarrow> Error Panic))"

section \<open>Inline assembly\<close>

text \<open>
  \<open>tid\<close> is the hardware thread the program runs on; the intrinsics ignore their own \<^verbatim>\<open>tid\<close>
  argument. Results are read from X10.
\<close>

definition asm_aimcProcess :: "int \<Rightarrow> machine \<Rightarrow> machine result" where
  "asm_aimcProcess tid m = cm_execute (decodeCusDataProcImm 0x01000000) tid m"

definition asm_aimcQueue :: "u64 \<Rightarrow> int \<Rightarrow> machine \<Rightarrow> machine result" where
  "asm_aimcQueue rm tid m = (case m of (x, s) \<Rightarrow>
     cm_execute (decodeCusDataProcImm 0x21088000) tid (x(9 := rm), s))"

definition asm_aimcDequeue :: "int \<Rightarrow> machine \<Rightarrow> (machine \<times> u64) result" where
  "asm_aimcDequeue tid m =
     bindR (cm_execute (decodeCusDataProcImm 0x2100000A) tid m) (\<lambda>(x, s). Ok ((x, s), x 10))"

definition asm_aimcParamRead :: "u64 \<Rightarrow> u64 \<Rightarrow> u64 \<Rightarrow> int \<Rightarrow> machine \<Rightarrow> (machine \<times> u64) result" where
  "asm_aimcParamRead rm rn ra tid m = (case m of (x, s) \<Rightarrow>
     bindR (cm_execute (decodeCusDataProcImm 0x4108812A) tid (x(9 := rm, 7 := rn), s))
       (\<lambda>(x, s). Ok ((x, s), x 10)))"

definition asm_aimcParamWrite :: "u64 \<Rightarrow> u64 \<Rightarrow> u64 \<Rightarrow> int \<Rightarrow> machine \<Rightarrow> (machine \<times> u64) result" where
  "asm_aimcParamWrite rm rn ra tid m = (case m of (x, s) \<Rightarrow>
     bindR (cm_execute (decodeCusDataProcImm 0x41081D2A) tid (x(8 := ra, 9 := rm, 7 := rn), s))
       (\<lambda>(x, s). Ok ((x, s), x 10)))"

lemma decode_asm:
  "decodeCusDataProcImm 0x01000000 = Cmprocess64 0 0 0 0"
  "decodeCusDataProcImm 0x21088000 = Cmqueue64 0 0 0 8"
  "decodeCusDataProcImm 0x2100000A = Cmdequeue64 10 0 0 0"
  "decodeCusDataProcImm 0x4108812A = Cmparamread64 10 0 9 8"
  "decodeCusDataProcImm 0x41081D2A = Cmparamwrite64 10 7 9 8"
  by (simp_all add: decodeCusDataProcImm_def inst_field_def bits_def mask_bits_def Let_def)

section \<open>The instructions implement the device contract\<close>

definition sys_ok :: "ArmSystem \<Rightarrow> bool" where
  "sys_ok s \<longleftrightarrow> theSystem s \<and> (case sys_aimc s of None \<Rightarrow> False | Some c \<Rightarrow> cluster_ok c)"

definition sys_valid :: "ArmSystem \<Rightarrow> int \<Rightarrow> bool" where
  "sys_valid s tid \<longleftrightarrow> (case sys_aimc s of None \<Rightarrow> False | Some c \<Rightarrow> cluster_valid c tid)"

definition sys_view :: "ArmSystem \<Rightarrow> int \<Rightarrow> aimc_view" where
  "sys_view s tid = (case sys_aimc s of
      None \<Rightarrow> \<lparr>v_xbar = [], v_in = [], v_out = [], v_ic = 0, v_oc = 0\<rparr> | Some c \<Rightarrow> cluster_view c tid)"

text \<open>
  What the parameter-write intrinsic does to the system: its assembly moves \<open>rm\<close>, \<open>rn\<close> and \<open>ra\<close> to the
  registers its encoding names as second, first and third operand (theorem \<open>asm_intended\<close> of
  \<open>Aimc_Correct\<close> proves it of the assembly).
\<close>

definition cm_write :: "u64 \<Rightarrow> u64 \<Rightarrow> u64 \<Rightarrow> int \<Rightarrow> ArmSystem \<Rightarrow> ArmSystem result" where
  "cm_write rm rn ra tid s = cmparamwrite rn rm ra tid s"

lemma with_cluster_ok:
  assumes "sys_ok s" "sys_valid s tid"
    and f: "\<And>c t. cluster_ok c \<Longrightarrow> cluster_valid c tid \<Longrightarrow> get_tile c tid = Ok t \<Longrightarrow> tile_ok t \<Longrightarrow>
      sys_view s tid = tile_view t \<Longrightarrow>
      \<exists>c'. f c = Ok (c', r) \<and> tile_becomes cluster_ok cluster_valid cluster_view c tid v c'"
  shows "\<exists>s'. with_cluster f s = Ok (s', r) \<and> tile_becomes sys_ok sys_valid sys_view s tid v s'"
proof -
  obtain c where c: "sys_aimc s = Some c" "theSystem s" "cluster_ok c" "cluster_valid c tid"
    using assms(1,2) by (auto simp: sys_ok_def sys_valid_def split: option.splits)
  obtain t where t: "get_tile c tid = Ok t" "tile_ok t" "cluster_view c tid = tile_view t"
    using valid_tile [OF c(3,4)] by blast
  moreover have "sys_view s tid = tile_view t" using c(1) t(3) by (simp add: sys_view_def)
  ultimately obtain c' where c': "f c = Ok (c', r)" "tile_becomes cluster_ok cluster_valid cluster_view c tid v c'"
    using f [OF c(3,4)] by blast
  have "with_cluster f s = Ok (s\<lparr>sys_aimc := Some c'\<rparr>, r)"
    using c c'(1) by (simp add: with_cluster_def getArmSystem_def getAIMCCluster_def)
  moreover have "tile_becomes sys_ok sys_valid sys_view s tid v (s\<lparr>sys_aimc := Some c'\<rparr>)"
    using c c'(2) by (auto simp: tile_becomes_def sys_ok_def sys_valid_def sys_view_def fun_eq_iff)
  ultimately show ?thesis by blast
qed

lemma sys_tile:
  assumes "sys_ok s" "sys_valid s tid"
  shows "\<exists>t. tile_ok t \<and> sys_view s tid = tile_view t"
  using assms valid_tile by (fastforce simp: sys_ok_def sys_valid_def sys_view_def split: option.splits)

interpretation dev: aimc_device 2000 2000 cmqueue cmdequeue cmprocess cm_write sys_ok sys_valid sys_view
proof (unfold_locales, goal_cases)
  case (3 s t)
  from sys_tile [OF this] show ?case by (auto simp: tile_ok_def tile_view_def view_ok_def)
next
  case (4 s t x)
  have "\<exists>s'. with_cluster (\<lambda>c. bindR (aimcQueue t (ucast x) c) (\<lambda>c'. Ok (c', ()))) s = Ok (s', ()) \<and>
      tile_becomes sys_ok sys_valid sys_view s t (spec_queue 2000 (ucast x) (sys_view s t)) s'"
  proof (rule with_cluster_ok [OF 4(1,2)])
    fix c tl
    assume a: "cluster_ok c" "cluster_valid c t" "get_tile c t = Ok tl" "tile_ok tl" "sys_view s t = tile_view tl"
    have "inputMemoryCounter tl + 4 < 2 ^ 31" using 4(3) a(4) unfolding a(5) by (simp add: tile_view_def tile_ok_def)
    from tile_queue_ok [OF a(4) this] obtain t' where t': "tile_queue (ucast x) tl = Ok t'" "tile_ok t'"
      "tile_view t' = spec_queue 2000 (ucast x) (tile_view tl)" by blast
    from put_tile_ok [OF a(1,2) t'(2)] t' a(3,5) show "\<exists>c'. bindR (aimcQueue t (ucast x) c) (\<lambda>c'. Ok (c', ())) = Ok (c', ()) \<and>
        tile_becomes cluster_ok cluster_valid cluster_view c t (spec_queue 2000 (ucast x) (sys_view s t)) c'"
      by (auto simp: aimcQueue_def)
  qed
  then show ?case by (auto simp: cmqueue_def)
next
  case (5 s t)
  have "\<exists>s'. with_cluster (aimcDequeue t) s = Ok (s', spec_dequeue_value 2000 (sys_view s t)) \<and>
      tile_becomes sys_ok sys_valid sys_view s t (spec_dequeue (sys_view s t)) s'"
  proof (rule with_cluster_ok [OF 5(1,2)])
    fix c tl
    assume a: "cluster_ok c" "cluster_valid c t" "get_tile c t = Ok tl" "tile_ok tl" "sys_view s t = tile_view tl"
    have "outputMemoryCounter tl + 4 < 2 ^ 31" using 5(3) a(4) unfolding a(5) by (simp add: tile_view_def tile_ok_def)
    from tile_dequeue_ok [OF a(4) this] obtain t' where t':
      "tile_dequeue tl = Ok (t', spec_dequeue_value 2000 (tile_view tl))" "tile_ok t'"
      "tile_view t' = spec_dequeue (tile_view tl)" by blast
    from put_tile_ok [OF a(1,2) t'(2)] t' a(3,5)
    show "\<exists>c'. aimcDequeue t c = Ok (c', spec_dequeue_value 2000 (sys_view s t)) \<and>
        tile_becomes cluster_ok cluster_valid cluster_view c t (spec_dequeue (sys_view s t)) c'"
      by (auto simp: aimcDequeue_def)
  qed
  then show ?case by (auto simp: cmdequeue_def)
next
  case (6 s t)
  have "\<exists>s'. with_cluster (\<lambda>c. bindR (aimcProcess t c) (\<lambda>c'. Ok (c', ()))) s = Ok (s', ()) \<and>
      tile_becomes sys_ok sys_valid sys_view s t (spec_process 2000 2000 (sys_view s t)) s'"
  proof (rule with_cluster_ok [OF 6])
    fix c tl
    assume a: "cluster_ok c" "cluster_valid c t" "get_tile c t = Ok tl" "tile_ok tl" "sys_view s t = tile_view tl"
    from tile_process_ok [OF a(4)] obtain t' where t': "tile_process tl = Ok t'" "tile_ok t'"
      "tile_view t' = spec_process 2000 2000 (tile_view tl)" by blast
    from put_tile_ok [OF a(1,2) t'(2)] t' a(3,5) show "\<exists>c'. bindR (aimcProcess t c) (\<lambda>c'. Ok (c', ())) = Ok (c', ()) \<and>
        tile_becomes cluster_ok cluster_valid cluster_view c t (spec_process 2000 2000 (sys_view s t)) c'"
      by (auto simp: aimcProcess_def)
  qed
  then show ?case by (auto simp: cmprocess_def)
next
  case (7 s t px py b)
  have "to_int32 (word_of_int (int px)) = int px" "to_int32 (word_of_int (int py)) = int py"
    using 7(3,4) by (intro to_int32_word_of_int; simp)+
  moreover have "\<exists>s'. with_cluster (\<lambda>c. bindR (aimcParamWrite t (int px) (int py) b c) (\<lambda>c'. Ok (c', ()))) s = Ok (s', ()) \<and>
      tile_becomes sys_ok sys_valid sys_view s t (spec_write 2000 (int px) (int py) b (sys_view s t)) s'"
  proof (rule with_cluster_ok [OF 7(1,2)])
    fix c tl
    assume a: "cluster_ok c" "cluster_valid c t" "get_tile c t = Ok tl" "tile_ok tl" "sys_view s t = tile_view tl"
    from tile_write_ok [OF a(4) 7(3,4), of b] obtain t' where t': "tile_param_write (int px) (int py) b tl = Ok t'" "tile_ok t'"
      "tile_view t' = spec_write 2000 (int px) (int py) b (tile_view tl)" by blast
    from put_tile_ok [OF a(1,2) t'(2)] t' a(3,5)
    show "\<exists>c'. bindR (aimcParamWrite t (int px) (int py) b c) (\<lambda>c'. Ok (c', ())) = Ok (c', ()) \<and>
        tile_becomes cluster_ok cluster_valid cluster_view c t (spec_write 2000 (int px) (int py) b (sys_view s t)) c'"
      by (auto simp: aimcParamWrite_def)
  qed
  ultimately show ?case by (auto simp: cm_write_def cmparamwrite_def ucast_scast_i8)
qed simp_all

end
