(* ===== verification/Aimc_Correct.thy ===== *)
theory Aimc_Correct
  imports Aimc_Isa
begin

text \<open>
  The properties of the AIMC stack: the library over the checker and over the simulated
  instructions, what an instruction does to the tiles, the life of the cluster's tiles, and the inline assembly.
\<close>

section \<open>Fresh devices\<close>

definition fresh_system :: "AIMCClusterParams \<Rightarrow> ArmSystem" where
  "fresh_system p = setAIMCCluster (new_AIMCCluster p) \<lparr>theSystem = False, sys_aimc = None\<rparr>"

lemma sys_aimc_fresh: "sys_aimc (fresh_system p) = Some (new_AIMCCluster p)" "theSystem (fresh_system p)"
  by (simp_all add: fresh_system_def setAIMCCluster_def)

lemma cluster_valid_new: "cluster_valid (new_AIMCCluster p) t \<longleftrightarrow> 0 \<le> t \<and> t < int (length (p_cpus p))"
  by (auto simp: cluster_valid_def tiles_new_AIMCCluster)

lemma fresh_system_view:
  assumes "p_cpus p \<noteq> []"
  shows "sys_ok (fresh_system p)" "sys_valid (fresh_system p) 0"
    "v_in (sys_view (fresh_system p) 0) = replicate 2000 0" "v_ic (sys_view (fresh_system p) 0) = 0"
  using assms
  by (simp_all add: sys_ok_def sys_valid_def sys_view_def sys_aimc_fresh cluster_ok_new cluster_valid_new
      cluster_view_def tiles_new_AIMCCluster tile_view_def new_AIMCTile_def)

lemma aimc_init_view:
  "ACM_ok aimc_init" "ACM_valid aimc_init 0" "v_in (ACM_view aimc_init 0) = replicate crossbarHeight_c 0"
  "v_ic (ACM_view aimc_init 0) = 0"
  by (simp_all add: aimc_init_def ACM_ok_make ACM_valid_def ACM_view_def cores_make_ACM core_view_def new_core_def)

section \<open>Inference\<close>

text \<open>C1: the example program run over the checker computes, for every input vector, the product of the
  weight matrix with it, saturated to 8 bits, for every size that leaves one queue word unused.\<close>

theorem checker_inference:
  assumes "0 < n" "4 * ((n + 3) div 4) < 4000" "n * n \<le> length W"
    and "\<forall>(x, y) \<in> set ios. n \<le> length x \<and> n \<le> length y"
  shows "\<exists>s. example_main check_aimcParamWrite check_aimcQueue check_aimcProcess check_aimcDequeue (int n) W ios
      aimc_init = Ok (s, map (\<lambda>(x, y). mvm_sat n W x @ drop n y) ios) \<and> ACM_ok s"
  using chk.example_main_correct [OF aimc_init_view assms(1)] assms(2-4)
  by (simp add: crossbarHeight_c_def crossbarWidth_c_def)

theorem checker_inference_witness:
  "\<exists>s. example_main check_aimcParamWrite check_aimcQueue check_aimcProcess check_aimcDequeue 2 [1, 2, 3, 100]
      [([1, 2], [0, 0, 7])] aimc_init = Ok (s, [[5, 127, 7]])"
proof -
  have "mvm_sat 2 [1, 2, 3, 100] [1, 2] = [5, 127]"
    by (simp add: mvm_sat_def sat8_def lessThan_Suc eval_nat_numeral)
  then show ?thesis using checker_inference [of 2 "[1, 2, 3, 100]" "[([1, 2], [0, 0, 7])]"] by auto
qed

text \<open>C2: the same program over the instructions of the simulated device computes the same products on a
  freshly created cluster with at least one CPU.\<close>

theorem device_inference:
  assumes "p_cpus p \<noteq> []" "0 < n" "4 * ((n + 3) div 4) < 2000" "n * n \<le> length W"
    and "\<forall>(x, y) \<in> set ios. n \<le> length x \<and> n \<le> length y"
  shows "\<exists>s. example_main cm_write cmqueue cmprocess cmdequeue (int n) W ios (fresh_system p)
      = Ok (s, map (\<lambda>(x, y). mvm_sat n W x @ drop n y) ios) \<and> sys_ok s"
  using dev.example_main_correct [OF fresh_system_view [OF assms(1)] assms(2,3,3,4,5)] .

definition demo_params :: AIMCClusterParams where
  "demo_params = \<lparr>p_pio_addr = 0x10020000, p_pio_size = 0x1000, p_pio_latency = 100000, p_cpus = [Some 0]\<rparr>"

theorem device_inference_witness:
  "\<exists>s. example_main cm_write cmqueue cmprocess cmdequeue 2 [1, 2, 3, 100] [([1, 2], [0, 0, 7])]
      (fresh_system demo_params) = Ok (s, [[5, 127, 7]])"
proof -
  have "mvm_sat 2 [1, 2, 3, 100] [1, 2] = [5, 127]"
    by (simp add: mvm_sat_def sat8_def lessThan_Suc eval_nat_numeral)
  then show ?thesis
    using device_inference [of demo_params 2 "[1, 2, 3, 100]" "[([1, 2], [0, 0, 7])]"]
    by (auto simp: demo_params_def)
qed

section \<open>Tiles\<close>

text \<open>
  When an instruction can be executed on a tile: the counters must not overflow, and the flat index of
  a parameter, which the code bounds from above only, must be representable and not negative.
\<close>

definition param_safe :: "int \<Rightarrow> int \<Rightarrow> bool" where
  "param_safe px py \<longleftrightarrow> int32_ok (py * 2000) \<and> int32_ok (py * 2000 + px) \<and> 0 \<le> py * 2000 + px"

definition cm_safe :: "CmInst \<Rightarrow> (nat \<Rightarrow> u64) \<Rightarrow> aimc_view \<Rightarrow> bool" where
  "cm_safe inst x v = (case inst of
      Cmprocess64 rd op1 op2 op3 \<Rightarrow> True
    | Cmqueue64 rd op1 op2 op3 \<Rightarrow> v_ic v + 4 < 2 ^ 31
    | Cmdequeue64 rd op1 op2 op3 \<Rightarrow> v_oc v + 4 < 2 ^ 31
    | Cmparamread64 rd op1 op2 op3 \<Rightarrow> param_safe (to_int32 (x op2)) (to_int32 (x op1))
    | Cmparamwrite64 rd op1 op2 op3 \<Rightarrow> param_safe (to_int32 (x op2)) (to_int32 (x op1))
    | Unknown64 \<Rightarrow> False)"

lemma tile_index_exact:
  "tile_ok t \<Longrightarrow> tile_index t px py = (if int32_ok (py * 2000) \<and> int32_ok (py * 2000 + px)
     then Ok (py * 2000 + px) else Error IntOverflow)"
  by (simp add: tile_index_def tile_ok_def intR_def)

lemma tile_param_safe:
  assumes "tile_ok t"
  shows "if param_safe px py then (\<exists>b. tile_param_read px py t = Ok b) \<and> (\<exists>t'. tile_param_write px py v t = Ok t' \<and> tile_ok t')
    else (\<exists>e. tile_param_read px py t = Error e) \<and> (\<exists>e. tile_param_write px py v t = Error e)"
  using assms
  by (auto simp: tile_param_read_def tile_param_write_def tile_index_exact param_safe_def arr_get_def arr_set_def
      tile_ok_def)

text \<open>What an instruction may do to the system: nothing to any tile but its own.\<close>

definition only_tile :: "ArmSystem \<Rightarrow> int \<Rightarrow> ArmSystem \<Rightarrow> bool" where
  "only_tile s t s' \<longleftrightarrow> (\<exists>v. tile_becomes sys_ok sys_valid sys_view s t v s')"

lemma only_tileI: "tile_becomes sys_ok sys_valid sys_view s t v s' \<Longrightarrow> only_tile s t s'"
  by (auto simp: only_tile_def)

lemma tile_queue_safe:
  assumes "tile_ok t"
  shows "if v_ic (tile_view t) + 4 < 2 ^ 31 then \<exists>t'. tile_queue val t = Ok t' \<and> tile_ok t'
    else \<exists>e. tile_queue val t = Error e"
proof (cases "v_ic (tile_view t) + 4 < 2 ^ 31")
  case True
  then have "inputMemoryCounter t + 4 < 2 ^ 31" using assms by (simp add: tile_view_def tile_ok_def)
  from tile_queue_ok [OF assms this, of val] True show ?thesis by auto
next
  case False
  then have "\<not> int32_ok (inputMemoryCounter t + 4)" using assms by (auto simp: tile_view_def int32_ok_def tile_ok_def)
  with False assms show ?thesis by (simp add: tile_queue_def tile_ok_def intR_def)
qed

lemma tile_dequeue_safe:
  assumes "tile_ok t"
  shows "if v_oc (tile_view t) + 4 < 2 ^ 31 then \<exists>t' r. tile_dequeue t = Ok (t', r) \<and> tile_ok t'
    else \<exists>e. tile_dequeue t = Error e"
proof (cases "v_oc (tile_view t) + 4 < 2 ^ 31")
  case True
  then have "outputMemoryCounter t + 4 < 2 ^ 31" using assms by (simp add: tile_view_def tile_ok_def)
  from tile_dequeue_ok [OF assms this] True show ?thesis by auto
next
  case False
  then have "\<not> int32_ok (outputMemoryCounter t + 4)" using assms by (auto simp: tile_view_def int32_ok_def tile_ok_def)
  with False assms show ?thesis by (simp add: tile_dequeue_def tile_ok_def intR_def)
qed

text \<open>The tile an instruction works on, and what storing it back does to the system.\<close>

lemma system_tile:
  assumes "sys_ok s" "sys_valid s tid"
  obtains c t where "sys_aimc s = Some c" "theSystem s" "get_tile c tid = Ok t" "tile_ok t" "sys_view s tid = tile_view t"
    "\<And>t'. tile_ok t' \<Longrightarrow> \<exists>c'. put_tile c tid t' = Ok c' \<and> only_tile s tid (s\<lparr>sys_aimc := Some c'\<rparr>)"
    "only_tile s tid (s\<lparr>sys_aimc := Some c\<rparr>)"
proof -
  obtain c where c: "sys_aimc s = Some c" "theSystem s" "cluster_ok c" "cluster_valid c tid"
    using assms(1,2) by (auto simp: sys_ok_def sys_valid_def split: option.splits)
  obtain t where t: "get_tile c tid = Ok t" "tile_ok t" "cluster_view c tid = tile_view t"
    using valid_tile [OF c(3,4)] by blast
  have lift: "only_tile s tid (s\<lparr>sys_aimc := Some c'\<rparr>)" if "tile_becomes cluster_ok cluster_valid cluster_view c tid v c'" for v c'
    by (rule only_tileI [where v = v]) (use c that in \<open>auto simp: tile_becomes_def sys_ok_def sys_valid_def sys_view_def fun_eq_iff\<close>)
  have "tile_becomes cluster_ok cluster_valid cluster_view c tid (cluster_view c tid) c"
    using c(3) by (simp add: tile_becomes_def)
  then show ?thesis
    using that [OF c(1,2) t(1,2)] c(1) t(3) lift put_tile_ok [OF c(3,4)] by (simp add: sys_view_def) blast
qed

text \<open>C29: on a well-formed system, an instruction on an existing tile succeeds exactly when it is safe: the
  product always, a queue or dequeue when its counter does not overflow, a parameter read or write
  when its flat index is representable and not negative; an undefined encoding never. When it
  succeeds it leaves every other tile as it was and keeps the system well-formed, with the same
  tiles.\<close>

theorem tile_isolation:
  assumes "sys_ok s" "sys_valid s t"
  shows "if cm_safe inst x (sys_view s t)
    then \<exists>x' s'. cm_execute inst t (x, s) = Ok (x', s') \<and> sys_ok s' \<and> sys_valid s' = sys_valid s \<and>
      (\<forall>t'. t' \<noteq> t \<longrightarrow> sys_view s' t' = sys_view s t')
    else \<exists>e. cm_execute inst t (x, s) = Error e"
proof -
  obtain c tl where c: "sys_aimc s = Some c" "theSystem s" "get_tile c t = Ok tl" "tile_ok tl"
      "sys_view s t = tile_view tl" "only_tile s t (s\<lparr>sys_aimc := Some c\<rparr>)"
    and put: "\<And>t'. tile_ok t' \<Longrightarrow> \<exists>c'. put_tile c t t' = Ok c' \<and> only_tile s t (s\<lparr>sys_aimc := Some c'\<rparr>)"
    using system_tile [OF assms] by metis
  note ops = with_cluster_def getArmSystem_def getAIMCCluster_def c(1-3)
  have "if cm_safe inst x (sys_view s t) then \<exists>x' s'. cm_execute inst t (x, s) = Ok (x', s') \<and> only_tile s t s'
    else \<exists>e. cm_execute inst t (x, s) = Error e"
  proof (cases inst)
    case (Cmprocess64 rd op1 op2 op3)
    obtain t' where t': "tile_process tl = Ok t'" "tile_ok t'" using tile_process_ok [OF c(4)] by blast
    with put [OF t'(2)] show ?thesis
      by (auto simp: Cmprocess64 cm_safe_def cm_execute_def cmprocess_def aimcProcess_def ops)
  next
    case (Cmqueue64 rd op1 op2 op3)
    with tile_queue_safe [OF c(4), of "ucast (x op2)"] put show ?thesis
      by (fastforce simp: cm_safe_def cm_execute_def cmqueue_def aimcQueue_def ops c(5) split: if_splits)
  next
    case (Cmdequeue64 rd op1 op2 op3)
    with tile_dequeue_safe [OF c(4)] put show ?thesis
      by (fastforce simp: cm_safe_def cm_execute_def cmdequeue_def aimcDequeue_def ops c(5) split: if_splits)
  next
    case (Cmparamread64 rd op1 op2 op3)
    with tile_param_safe [OF c(4), of "to_int32 (x op2)" "to_int32 (x op1)" 0] c(6) show ?thesis
      by (fastforce simp: cm_safe_def cm_execute_def cmparamread_def aimcParamRead_def ops split: if_splits)
  next
    case (Cmparamwrite64 rd op1 op2 op3)
    with tile_param_safe [OF c(4), of "to_int32 (x op2)" "to_int32 (x op1)" "ucast (x op3)"] put show ?thesis
      by (fastforce simp: cm_safe_def cm_execute_def cmparamwrite_def aimcParamWrite_def ops split: if_splits)
  next
    case Unknown64
    then show ?thesis by (simp add: cm_safe_def cm_execute_def)
  qed
  then show ?thesis by (auto simp: only_tile_def tile_becomes_def split: if_splits)
qed

definition two_cpu_params :: AIMCClusterParams where
  "two_cpu_params = demo_params\<lparr>p_cpus := [Some 0, Some 1]\<rparr>"

theorem tile_isolation_witness:
  "\<exists>x' s'. cm_execute (Cmqueue64 0 0 9 0) 0 (\<lambda>_. 77, fresh_system two_cpu_params) = Ok (x', s') \<and>
     sys_view s' 1 = sys_view (fresh_system two_cpu_params) 1"
proof -
  have p: "p_cpus two_cpu_params \<noteq> []" by (simp add: two_cpu_params_def)
  have "cm_safe (Cmqueue64 0 0 9 0) (\<lambda>_. 77) (sys_view (fresh_system two_cpu_params) 0)"
    using fresh_system_view(4) [OF p] by (simp add: cm_safe_def)
  then show ?thesis using tile_isolation [OF fresh_system_view(1,2) [OF p], of "Cmqueue64 0 0 9 0" "\<lambda>_. 77"] by auto
qed

text \<open>A parameter written through the cluster is read back, for every position of the crossbar and
  whatever was stored before.\<close>

theorem param_roundtrip:
  assumes "cluster_ok c" "cluster_valid c tid" "px < 2000" "py < 2000"
  shows "\<exists>c'. aimcParamWrite tid (int px) (int py) b c = Ok c' \<and> aimcParamRead tid (int px) (int py) c' = Ok b"
proof -
  obtain t where t: "get_tile c tid = Ok t" "tile_ok t" using valid_tile [OF assms(1,2)] by blast
  obtain t' where t': "tile_param_write (int px) (int py) b t = Ok t'" "tile_ok t'"
    "tile_view t' = spec_write 2000 (int px) (int py) b (tile_view t)"
    using tile_write_ok [OF t(2) assms(3,4)] by blast
  obtain c' where c': "put_tile c tid t' = Ok c'" using put_tile_ok [OF assms(1,2) t'(2)] by blast
  let ?idx = "py * 2000 + px"
  have lt: "?idx < 2000 * 2000" using assms(3,4) by simp
  have n: "nat (int py * 2000 + int px) = ?idx" by simp
  have "crossbar t' = (crossbar t)[?idx := b]" using t'(3) n by (simp add: tile_view_def spec_write_def)
  then have x: "crossbar t' ! ?idx = b" "length (crossbar t') = 2000 * 2000" using t(2) lt by (auto simp: tile_ok_def)
  have i: "tile_index t' (int px) (int py) = Ok (int ?idx)"
    using lt t'(2) unfolding tile_index_def tile_ok_def by (simp add: intR_of_nat [of _ "py * 2000"] intR_of_nat [of _ ?idx])
  have "tile_param_read (int px) (int py) t' = Ok b"
    unfolding tile_param_read_def i bindR.simps using lt x t'(2) arr_get_nat [of ?idx "crossbar t'"]
    by (simp add: tile_ok_def del: of_nat_add of_nat_mult)
  moreover have "get_tile c' tid = Ok t'"
    using c' assms(2) by (auto simp: put_tile_def get_tile_def arr_set_def arr_get_def cluster_valid_def split: if_splits)
  ultimately show ?thesis using t(1) t'(1) c' by (auto simp: aimcParamWrite_def aimcParamRead_def)
qed

theorem param_roundtrip_witness:
  "\<exists>c'. aimcParamWrite 0 (int 1999) (int 7) 42 (new_AIMCCluster demo_params) = Ok c' \<and>
     aimcParamRead 0 (int 1999) (int 7) c' = Ok 42"
  by (rule param_roundtrip) (simp_all add: cluster_ok_new cluster_valid_new demo_params_def)

text \<open>C32: the guard of the queue operation is strict, so that the queue that would fill the last word of the
  input memory writes nothing: with the counter at the start of that word it advances the counter
  and changes nothing else.\<close>

theorem queue_drops_last_word:
  assumes "tile_ok t" "inputMemoryCounter t = 1996"
  shows "tile_queue val t = Ok (t\<lparr>inputMemoryCounter := 2000\<rparr>)"
  using assms by (simp add: tile_queue_def tile_ok_def)

theorem queue_drops_last_word_witness:
  "tile_queue 0x01010101 (new_AIMCTile\<lparr>inputMemoryCounter := 1996\<rparr>)
     = Ok (new_AIMCTile\<lparr>inputMemoryCounter := 1996\<rparr>\<lparr>inputMemoryCounter := 2000\<rparr>)"
proof (rule queue_drops_last_word)
  show "tile_ok (new_AIMCTile\<lparr>inputMemoryCounter := 1996\<rparr>)" using tile_ok_new by (simp add: tile_ok_def)
qed simp

section \<open>Checkpoints\<close>

lemma delete_tiles_loop:
  "foldM (\<lambda>t ts. case t of None \<Rightarrow> Error UseAfterFree | Some _ \<Rightarrow> Ok (ts @ [None])) ts acc
     = (if None \<in> set ts then Error UseAfterFree else Ok (acc @ replicate (length ts) None))"
proof (induction ts arbitrary: acc)
  case (Cons t ts)
  then show ?case by (cases t) auto
qed simp

lemma delete_tiles_exact:
  "delete_tiles c = (if None \<in> set (tiles c) then Error UseAfterFree
     else Ok (c\<lparr>tiles := replicate (length (tiles c)) None\<rparr>))"
  by (simp add: delete_tiles_def delete_tiles_loop)

text \<open>Every operation of the cluster goes through \<^verbatim>\<open>tiles[tid]\<close>, so that none survives a deleted tile.\<close>

lemma deleted_tile_fails:
  assumes "get_tile c tid = Error e"
  shows "aimcProcess tid c = Error e" "aimcQueue tid v c = Error e" "aimcQueueSingle tid b c = Error e"
    "aimcDequeue tid c = Error e" "aimcDequeueSingle tid c = Error e"
    "aimcParamRead tid x y c = Error e" "aimcParamWrite tid x y b c = Error e"
  using assms
  by (simp_all add: aimcProcess_def aimcQueue_def aimcQueueSingle_def aimcDequeue_def aimcDequeueSingle_def
      aimcParamRead_def aimcParamWrite_def)

lemma deleted_prefix:
  assumes "tiles d = replicate n None @ ts" "0 \<le> tid" "tid < int n"
  shows "get_tile d tid = Error UseAfterFree" "serialize d = Error UseAfterFree"
    "delete_AIMCCluster d = Error UseAfterFree"
proof -
  have n: "nat tid < n" "0 < n" using assms(2,3) by auto
  have "arr_get (tiles d) tid = Ok None" unfolding arr_get_def assms(1) using assms(2,3) n by (simp add: nth_append)
  then show "get_tile d tid = Error UseAfterFree" by (simp add: get_tile_def)
  have "None \<in> set (tiles d)" unfolding assms(1) using n by simp
  then show "serialize d = Error UseAfterFree" "delete_AIMCCluster d = Error UseAfterFree"
    by (simp_all add: serialize_def delete_AIMCCluster_def delete_tiles_exact)
qed

text \<open>C33: taking a checkpoint of a cluster that has tiles deletes the tiles the simulation still uses. Both
  right after it and after an unserialize that follows it, each of the seven operations on a tile
  the cluster had, a second checkpoint and the destructor use a deleted tile; the unserialize itself
  succeeds on a connected port and leaves the system with that cluster.\<close>

theorem checkpoint_frees_tiles:
  assumes "None \<notin> set (tiles c)" "0 \<le> tid" "tid < int (length (tiles c))"
  shows "\<exists>c' c'' s'. serialize c = Ok c' \<and> unserialize True p c' s = Ok (c'', s') \<and> sys_aimc s' = Some c'' \<and>
    (\<forall>d\<in>{c', c''}. aimcProcess tid d = Error UseAfterFree \<and>
       aimcQueue tid v d = Error UseAfterFree \<and> aimcQueueSingle tid b d = Error UseAfterFree \<and>
       aimcDequeue tid d = Error UseAfterFree \<and> aimcDequeueSingle tid d = Error UseAfterFree \<and>
       aimcParamRead tid x y d = Error UseAfterFree \<and> aimcParamWrite tid x y b d = Error UseAfterFree \<and>
       serialize d = Error UseAfterFree \<and> delete_AIMCCluster d = Error UseAfterFree)"
proof -
  let ?n = "length (tiles c)" and ?c = "c\<lparr>tiles := replicate (length (tiles c)) None\<rparr>"
  define c2 where "c2 = fold (\<lambda>cpu c. c\<lparr>cpus := cpus c @ [cpu], tiles := tiles c @ [Some new_AIMCTile]\<rparr>) (p_cpus p) ?c"
  have t2: "tiles c2 = replicate ?n None @ replicate (length (p_cpus p)) (Some new_AIMCTile)"
    unfolding c2_def tiles_fold_new by simp
  have ser: "serialize c = Ok ?c" using assms(1) by (simp add: serialize_def delete_tiles_exact)
  obtain s' where un: "unserialize True p ?c s = Ok (c2, s')" "sys_aimc s' = Some c2"
    by (simp add: unserialize_def cluster_init_def bindR_assertR c2_def Let_def)
  have gone: "aimcProcess tid d = Error UseAfterFree \<and>
       aimcQueue tid v d = Error UseAfterFree \<and> aimcQueueSingle tid b d = Error UseAfterFree \<and>
       aimcDequeue tid d = Error UseAfterFree \<and> aimcDequeueSingle tid d = Error UseAfterFree \<and>
       aimcParamRead tid x y d = Error UseAfterFree \<and> aimcParamWrite tid x y b d = Error UseAfterFree \<and>
       serialize d = Error UseAfterFree \<and> delete_AIMCCluster d = Error UseAfterFree"
    if "tiles d = replicate ?n None @ ts" for d ts
    using deleted_prefix [OF that assms(2,3)] by (simp only: deleted_tile_fails simp_thms)
  have "tiles ?c = replicate ?n None @ []" by simp
  from ser un gone [OF this] gone [OF t2] show ?thesis
    by (intro exI [of _ ?c] exI [of _ c2] exI [of _ s']) (simp only: ball_simps insert_iff empty_iff simp_thms)
qed

theorem checkpoint_frees_tiles_witness:
  "\<exists>c' c'' s'. serialize (new_AIMCCluster demo_params) = Ok c' \<and>
     unserialize True demo_params c' (fresh_system demo_params) = Ok (c'', s') \<and>
     aimcProcess 0 c' = Error UseAfterFree \<and> aimcQueue 0 7 c'' = Error UseAfterFree"
  using checkpoint_frees_tiles [of "new_AIMCCluster demo_params" 0 demo_params "fresh_system demo_params" 7 0 0 0]
  by (auto simp: tiles_new_AIMCCluster demo_params_def)

section \<open>Memory-mapped accesses\<close>

lemma makeResponse_exact:
  "makeResponse p = (if cmd_needsResponse (pk_cmd p) \<and> cmd_isRequest (pk_cmd p)
     then Ok (pkt_clear EXPRESS_SNOOP (p\<lparr>pk_cmd := responseCommand (pk_cmd p)\<rparr>)) else Error AssertFail)"
  by (simp add: makeResponse_def bindR_assertR)

text \<open>The cluster answers every read request inside its address range that needs a response, after
  the packet's own delays plus the device's latency, and turns it into the matching response; the
  range is the one it announces.\<close>

theorem cluster_answers_reads:
  assumes "pkt_isSet pkt VALID_ADDR" "cmd_isRead (pk_cmd pkt)" "cmd_needsResponse (pk_cmd pkt)"
    and "pioAddr c \<le> pk_addr pkt" "pk_addr pkt < pioAddr c + pioSize c"
  shows "\<exists>pkt'. recvAtomic c pkt = Ok (pkt', pioDelay c + ucast (pk_headerDelay pkt + pk_payloadDelay pkt)) \<and>
    pk_cmd pkt' = responseCommand (pk_cmd pkt) \<and> cmd_isResponse (pk_cmd pkt') \<and>
    pk_headerDelay pkt' = 0 \<and> pk_payloadDelay pkt' = 0 \<and>
    (\<exists>r\<in>set (cluster_getAddrRanges c). range_contains r (pk_addr pkt))"
proof -
  let ?p = "pkt\<lparr>pk_headerDelay := 0, pk_payloadDelay := 0\<rparr>"
  let ?r = "pkt_clear EXPRESS_SNOOP (?p\<lparr>pk_cmd := responseCommand (pk_cmd pkt)\<rparr>)"
  have req: "cmd_isRequest (pk_cmd pkt)" using assms(3) by (rule needsResponse_isRequest)
  have "makeAtomicResponse ?p = Ok ?r"
    using assms(3) req by (simp add: makeAtomicResponse_def makeResponse_exact)
  moreover have "check_pio c ?p = Ok ()"
    using assms(1,4,5) by (simp add: check_pio_def pkt_getAddr_def pkt_isSet_def)
  ultimately have "cluster_read c ?p = Ok (?r, pioDelay c)" by (simp add: cluster_read_def)
  moreover have resp: "cmd_isResponse (pk_cmd ?r)"
    using response_of_request [OF assms(3)] by (simp add: pkt_clear_def)
  ultimately have "recvAtomic c pkt = Ok (?r, pioDelay c + ucast (pk_headerDelay pkt + pk_payloadDelay pkt))"
    using assms(2) by (simp add: recvAtomic_def Let_def pkt_clear_def)
  moreover have "range_contains (RangeSize (pioAddr c) (pioSize c)) (pk_addr pkt)"
    using assms(4) word_le_minus_one [OF assms(5)]
    by (auto simp: RangeSize_def AddrRange_plain_def range_contains_def interleaved_def)
  ultimately show ?thesis using resp by (auto simp: pkt_clear_def cluster_getAddrRanges_def)
qed

definition demo_packet :: Packet where
  "demo_packet = (blank_Packet 1 empty_Request ReadReq)\<lparr>pk_flags := VALID_ADDR OR VALID_SIZE, pk_addr := 0x10020010,
     pk_size := 4, pk_headerDelay := 5\<rparr>"

theorem cluster_answers_reads_witness:
  "\<exists>pkt' d. recvAtomic (new_AIMCCluster demo_params) demo_packet = Ok (pkt', d) \<and> pk_cmd pkt' = ReadResp"
proof -
  have c: "pioAddr (new_AIMCCluster demo_params) = 0x10020000" "pioSize (new_AIMCCluster demo_params) = 0x1000"
    by (simp_all add: new_AIMCCluster_def demo_params_def)
  show ?thesis
    using cluster_answers_reads [of demo_packet "new_AIMCCluster demo_params"]
    by (auto simp: c demo_packet_def blank_Packet_def pkt_isSet_def flags_isSet_def pkt_flag_defs cmd_defs)
qed

section \<open>Inline assembly\<close>

text \<open>The encodings of the process, dequeue and parameter write intrinsics issue the intended
  instruction with the intended operands, and the dequeued word is returned.\<close>

theorem asm_intended:
  "asm_aimcProcess tid (x, s) = bindR (cmprocess tid s) (\<lambda>s. Ok (x, s)) \<and>
   asm_aimcDequeue tid (x, s) = bindR (cmdequeue tid s) (\<lambda>(s, r). Ok ((x(10 := r), s), r)) \<and>
   asm_aimcParamWrite rm rn ra tid (x, s) =
     bindR (cm_write rm rn ra tid s) (\<lambda>s. Ok ((x(8 := ra, 9 := rm, 7 := rn), s), x 10))"
proof -
  have "bindR (cmdequeue tid s) (\<lambda>(s, r). Ok ((x(10 := r), s), r)) =
      bindR (bindR (cmdequeue tid s) (\<lambda>(s, r). Ok (x(10 := r), s))) (\<lambda>(x, s). Ok ((x, s), x 10))"
    by (cases "cmdequeue tid s") auto
  then show ?thesis
    by (auto simp: asm_aimcProcess_def asm_aimcDequeue_def asm_aimcParamWrite_def decode_asm cm_execute_def
        cm_write_def bindR_assoc)
qed

text \<open>C34: the encoding of the queue intrinsic names register X0, not the X9 its argument was moved to: what
  is queued does not depend on the argument. The parameter read takes its row from X0 the same way.\<close>

theorem asm_operands_lost:
  "asm_aimcQueue v tid (x, s) = bindR (cmqueue (x 0) tid s) (\<lambda>s. Ok (x(9 := v), s)) \<and>
   asm_aimcParamRead rm rn ra tid (x, s) =
     bindR (cmparamread (x 0) rm tid s) (\<lambda>(s, r). Ok ((x(9 := rm, 7 := rn, 10 := r), s), r))"
proof -
  have "bindR (cmparamread (x 0) rm tid s) (\<lambda>(s, r). Ok ((x(9 := rm, 7 := rn, 10 := r), s), r)) =
      bindR (bindR (cmparamread (x 0) rm tid s) (\<lambda>(s, r). Ok (x(9 := rm, 7 := rn, 10 := r), s)))
        (\<lambda>(x, s). Ok ((x, s), x 10))"
    by (cases "cmparamread (x 0) rm tid s") auto
  then show ?thesis
    by (simp add: asm_aimcQueue_def asm_aimcParamRead_def decode_asm cm_execute_def)
qed

section \<open>Bounds\<close>

text \<open>The cluster checks the flat crossbar index from above only: a negative one is read outside the
  array, where the checker returns 0.\<close>

theorem param_read_negative:
  assumes "cluster_ok c" "cluster_valid c tid" "ACM_valid m tid" "ACM_ok m" "0 < k" "k \<le> 2 ^ 31"
  shows "aimcParamRead tid (- k) 0 c = Error OutOfBounds \<and> ACM_aimcParamRead tid (- k) 0 m = Ok 0"
proof -
  obtain t where t: "get_tile c tid = Ok t" "tile_ok t" using valid_tile [OF assms(1,2)] by blast
  have "tile_index t (- k) 0 = Ok (- k)" using assms(5,6) by (simp add: tile_index_def)
  then have "tile_param_read (- k) 0 t = Error OutOfBounds"
    using t(2) assms(5) by (simp add: tile_param_read_def arr_get_out tile_ok_def)
  moreover have "ACM_aimcParamRead tid (- k) 0 m = Ok 0"
    using assms(3,5,6) valid_core(2) [OF assms(4,3)] by (simp add: ACM_aimcParamRead_def)
  ultimately show ?thesis using t(1) by (simp add: aimcParamRead_def)
qed

theorem param_read_negative_witness:
  "aimcParamRead 0 (- 1) 0 (new_AIMCCluster demo_params) = Error OutOfBounds"
  using param_read_negative [of "new_AIMCCluster demo_params" 0 aimc_init 1] aimc_init_view(1,2)
  by (simp add: cluster_ok_new cluster_valid_new demo_params_def)

text \<open>A loop returns only when every iteration does.\<close>

lemma foldM_Ok_each: "foldM f xs s = Ok t \<Longrightarrow> x \<in> set xs \<Longrightarrow> \<exists>u v. f x u = Ok v"
  by (induction xs arbitrary: s) (auto simp: result_simps)

lemma flat_element:
  assumes "h * w < 2 ^ 31" "length xs = h * w" "i \<le> h" "j < w" "i = h \<longrightarrow> j = 0"
  shows "bindR (intR (int i * int w + int j)) (\<lambda>k. bindR (arr_get xs k) (\<lambda>b. Ok (Some b)))
    = (if i < h then Ok (Some (xs ! (i * w + j))) else Error OutOfBounds)"
proof -
  have in_row: "i * w + j < h * w" if "i < h"
    using xbar_pos_less [of 0 j w 0 i h] that assms(4) by (simp add: xbar_pos_def mult.commute)
  have "i * w + j < 2 ^ 31" using in_row assms(1,3,5) by (cases "i < h") auto
  then have "intR (int i * int w + int j) = Ok (int (i * w + j))" by (intro intR_of_nat) auto
  moreover have "arr_get xs (int (i * w + j)) = (if i < h then Ok (xs ! (i * w + j)) else Error OutOfBounds)"
    using in_row assms(2,3,5) by (auto simp: arr_get_out simp del: of_nat_add of_nat_mult)
  ultimately show ?thesis by simp
qed

text \<open>No device lets the loop end: column \<open>h\<close> begins past the end of the array.\<close>

lemma mapMatrix_flat_never:
  assumes "0 < h" "h < w" "length xs = h * w" "h * w < 2 ^ 31"
  shows "mapMatrix_flat write ax ay (int h) (int w) (Some xs) s \<noteq> Ok s'"
proof
  assume "mapMatrix_flat write ax ay (int h) (int w) (Some xs) s = Ok s'"
  then have "mapMatrix_loop write ax ay h w (\<lambda>i j. bindR (intR (int i * int w + int j)) (\<lambda>k.
      bindR (arr_get xs k) (\<lambda>b. Ok (Some b)))) s = Ok s'"
    using assms(1,2) by (simp add: mapMatrix_flat_def)
  from foldM_Ok_each [OF this [unfolded mapMatrix_loop_def], of h] assms(2) obtain u v where
    "foldM (\<lambda>j s. bindR (bindR (intR (int h * int w + int j)) (\<lambda>k. bindR (arr_get xs k) (\<lambda>b. Ok (Some b))))
      (\<lambda>m. case m of None \<Rightarrow> Ok s | Some b \<Rightarrow> bindR (intR (int h + ax)) (\<lambda>x. bindR (intR (int j + ay)) (\<lambda>y.
        write (word_of_int x) (word_of_int y) (scast b) 0 s)))) [0..<h] u = Ok v" by auto
  from foldM_Ok_each [OF this, of 0] assms(1) flat_element [OF assms(4,3), of h 0] assms(2) show False by simp
qed

context aimc_device
begin

lemma mapMatrix_flat_wide:
  assumes "ok s" "valid s 0" "0 < mh" "mh < mw" "length xs = mh * mw" "mh * mw < 2 ^ 31" "ax + mh \<le> w" "ay + mh \<le> h"
  shows "mapMatrix_flat aimcParamWrite (int ax) (int ay) (int mh) (int mw) (Some xs) s = Error OutOfBounds"
proof -
  let ?elem = "\<lambda>i j. bindR (intR (int i * int mw + int j)) (\<lambda>k. bindR (arr_get xs k) (\<lambda>b. Ok (Some b)))"
  define row where "row i s = foldM (\<lambda>j s. bindR (?elem i j) (\<lambda>m. case m of None \<Rightarrow> Ok s
      | Some b \<Rightarrow> bindR (intR (int i + int ax)) (\<lambda>x. bindR (intR (int j + int ay)) (\<lambda>y.
          aimcParamWrite (word_of_int x) (word_of_int y) (scast b) 0 s)))) [0..<mh] s" for i s
  have loop: "mapMatrix_loop aimcParamWrite (int ax) (int ay) mh wd ?elem s = foldM row [0..<wd] s" for wd
    unfolding mapMatrix_loop_def row_def [abs_def] ..
  have "?elem i j = Ok (Some (xs ! (i * mw + j)))" if "i < mh" "j < mh" for i j
    using flat_element [OF assms(6,5), of i j] that assms(4) by simp
  then obtain s' where "foldM row [0..<mh] s = Ok s'"
    using mapMatrix_loop_correct [OF assms(1,2,7,8), of ?elem "\<lambda>i j. xs ! (i * mw + j)"] loop by auto
  moreover have "row mh u = Error OutOfBounds" for u
    using flat_element [OF assms(6,5), of mh 0] assms(3,4) upt_conv_Cons [of 0 mh] by (simp add: row_def)
  ultimately have "foldM row [0..<Suc mh] s = Error OutOfBounds" unfolding foldM_upt_Suc by simp
  moreover have "[0..<mw] = [0..<Suc mh] @ [Suc mh..<mw]"
    using assms(4) upt_add_eq_append [of 0 "Suc mh" "mw - Suc mh"] by simp
  ultimately have "foldM row [0..<mw] s = Error OutOfBounds" by (simp add: foldM_append del: upt_Suc)
  then show ?thesis using assms(3,4) loop [of mw] by (simp add: mapMatrix_flat_def)
qed

end

text \<open>C35: mapping a flattened matrix that is wider than high reads past its end: the element index uses the
  width as the length of a column. Whatever the parameter write does, the mapping never returns; on the
  checker and on the simulated device, in any well-formed state and at any position of a crossbar
  that holds the columns read before, it fails with exactly that access.\<close>

theorem mapMatrix_flat_overrun:
  assumes "0 < mh" "mh < mw" "length xs = mh * mw" "mh * mw < 2 ^ 31"
  shows "mapMatrix_flat write ax ay (int mh) (int mw) (Some xs) u \<noteq> Ok u' \<and>
    (ACM_ok m \<and> ACM_valid m 0 \<and> px + mh \<le> 4000 \<and> py + mh \<le> 4000 \<longrightarrow>
      mapMatrix_flat check_aimcParamWrite (int px) (int py) (int mh) (int mw) (Some xs) m = Error OutOfBounds) \<and>
    (sys_ok s \<and> sys_valid s 0 \<and> px + mh \<le> 2000 \<and> py + mh \<le> 2000 \<longrightarrow>
      mapMatrix_flat cm_write (int px) (int py) (int mh) (int mw) (Some xs) s = Error OutOfBounds)"
  using mapMatrix_flat_never [OF assms] chk.mapMatrix_flat_wide [OF _ _ assms] dev.mapMatrix_flat_wide [OF _ _ assms]
  by (simp add: crossbarHeight_c_def crossbarWidth_c_def)

theorem mapMatrix_flat_overrun_witness:
  "mapMatrix_flat check_aimcParamWrite 0 0 1 2 (Some [1, 2]) aimc_init = Error OutOfBounds \<and>
   mapMatrix_flat cm_write 0 0 1 2 (Some [1, 2]) (fresh_system demo_params) = Error OutOfBounds"
proof -
  have "p_cpus demo_params \<noteq> []" by (simp add: demo_params_def)
  from mapMatrix_flat_overrun [of 1 2 "[1, 2]" cm_write 0 0 "fresh_system demo_params" "fresh_system demo_params" aimc_init 0 0
      "fresh_system demo_params"] fresh_system_view(1,2) [OF this] aimc_init_view(1,2)
  show ?thesis by simp
qed

end
