(* ===== verification/Addr_Range_Map.thy ===== *)
theory Addr_Range_Map
  imports Addr_Range
begin

text \<open>
  \<^verbatim>\<open>base/addr_range_map.hh\<close>: the interval map that routes an address to a port or a memory. The
  \<^verbatim>\<open>std::map\<close> is the list of its entries in key order, an iterator is the key of the entry it
  points to, and the cache of recent iterators is the list of their keys. Reading through an
  iterator whose entry was erased is an error of the model.
\<close>

section \<open>State and operations\<close>

record 'v AddrRangeMap =
  rm_tree :: "(AddrRange \<times> 'v) list"
  rm_cache :: "AddrRange list"

definition rm_empty :: "'v AddrRangeMap" where
  "rm_empty = \<lparr>rm_tree = [], rm_cache = []\<rparr>"

text \<open>\<open>mx\<close> is the template parameter \<^verbatim>\<open>max_cache_size\<close>.\<close>

definition addNewEntryToCache :: "nat \<Rightarrow> AddrRange \<Rightarrow> AddrRange list \<Rightarrow> AddrRange list" where
  "addNewEntryToCache mx it cache =
     (if mx \<noteq> 0
      then if length cache \<ge> mx
           then if mx > 1 then it # butlast cache else butlast cache @ [it]
           else it # cache
      else cache)"

text \<open>The scan of the cache: the first matching iterator is moved to the front.\<close>

fun cache_scan ::
  "(AddrRange \<Rightarrow> bool result) \<Rightarrow> AddrRange set \<Rightarrow> AddrRange list \<Rightarrow> AddrRange list \<Rightarrow>
     (AddrRange option \<times> AddrRange list) result" where
  "cache_scan cond live pre [] = Ok (None, rev pre)"
| "cache_scan cond live pre (k # ks) =
     (if k \<notin> live then Error UseAfterFree
      else bindR (cond k) (\<lambda>b.
        if b then Ok (Some k, k # rev pre @ ks) else cache_scan cond live (k # pre) ks))"

definition upper_bound :: "AddrRange \<Rightarrow> AddrRange list \<Rightarrow> nat" where
  "upper_bound r ks = length (takeWhile (\<lambda>k. \<not> range_less r k) ks)"

text \<open>The backward walk over the ranges that merge with each other.\<close>

fun walk_back :: "(AddrRange \<Rightarrow> bool result) \<Rightarrow> AddrRange list \<Rightarrow> nat \<Rightarrow> AddrRange option result" where
  "walk_back cond ks i =
     bindR (cond (ks ! i)) (\<lambda>b.
       if b then Ok (Some (ks ! i))
       else case i of 0 \<Rightarrow> Ok None
            | Suc j \<Rightarrow> if mergesWith (ks ! j) (ks ! i) then walk_back cond ks j else Ok None)"

declare walk_back.simps [simp del]

definition tree_search :: "(AddrRange \<Rightarrow> bool result) \<Rightarrow> AddrRange \<Rightarrow> AddrRange list \<Rightarrow> AddrRange option result"
where
  "tree_search cond r ks =
     (let i = upper_bound r ks in
      bindR (if i < length ks then cond (ks ! i) else Ok False) (\<lambda>b.
        if b then Ok (Some (ks ! i))
        else case i of 0 \<Rightarrow> Ok None | Suc j \<Rightarrow> walk_back cond ks j))"

definition rm_find ::
  "nat \<Rightarrow> AddrRange \<Rightarrow> (AddrRange \<Rightarrow> bool result) \<Rightarrow> 'v AddrRangeMap \<Rightarrow>
     (AddrRange option \<times> 'v AddrRangeMap) result" where
  "rm_find mx r cond m =
     (let ks = map fst (rm_tree m) in
      bindR (cache_scan cond (set ks) [] (rm_cache m)) (\<lambda>(hit, cache).
        case hit of Some k \<Rightarrow> Ok (Some k, m\<lparr>rm_cache := cache\<rparr>)
        | None \<Rightarrow>
            bindR (tree_search cond r ks) (\<lambda>found.
              case found of None \<Rightarrow> Ok (None, m)
              | Some k \<Rightarrow> Ok (Some k, m\<lparr>rm_cache := addNewEntryToCache mx k (rm_cache m)\<rparr>))))"

definition rm_contains :: "nat \<Rightarrow> AddrRange \<Rightarrow> 'v AddrRangeMap \<Rightarrow> (AddrRange option \<times> 'v AddrRangeMap) result"
where
  "rm_contains mx r m = rm_find mx r (\<lambda>r1. isSubset r r1) m"

definition rm_contains_addr :: "nat \<Rightarrow> Addr \<Rightarrow> 'v AddrRangeMap \<Rightarrow> (AddrRange option \<times> 'v AddrRangeMap) result"
where
  "rm_contains_addr mx a m = rm_contains mx (RangeSize a 1) m"

definition rm_intersects :: "nat \<Rightarrow> AddrRange \<Rightarrow> 'v AddrRangeMap \<Rightarrow> (AddrRange option \<times> 'v AddrRangeMap) result"
where
  "rm_intersects mx r m = rm_find mx r (\<lambda>r1. range_intersects r r1) m"

text \<open>\<^verbatim>\<open>std::map::insert\<close>: an entry with an equivalent key keeps its place.\<close>

fun tree_insert :: "AddrRange \<Rightarrow> 'v \<Rightarrow> (AddrRange \<times> 'v) list \<Rightarrow> AddrRange \<times> (AddrRange \<times> 'v) list" where
  "tree_insert r d [] = (r, [(r, d)])"
| "tree_insert r d ((k, v) # t) =
     (if range_less r k then (r, (r, d) # (k, v) # t)
      else if range_less k r then (let (it, t') = tree_insert r d t in (it, (k, v) # t'))
      else (k, (k, v) # t))"

definition rm_insert ::
  "nat \<Rightarrow> AddrRange \<Rightarrow> 'v \<Rightarrow> 'v AddrRangeMap \<Rightarrow> (AddrRange option \<times> 'v AddrRangeMap) result" where
  "rm_insert mx r d m =
     bindR (rm_intersects mx r m) (\<lambda>(found, m).
       if found \<noteq> None then Ok (None, m)
       else let (it, t) = tree_insert r d (rm_tree m) in Ok (Some it, m\<lparr>rm_tree := t\<rparr>))"

definition rm_erase :: "AddrRange \<Rightarrow> 'v AddrRangeMap \<Rightarrow> 'v AddrRangeMap" where
  "rm_erase p m = m\<lparr>rm_cache := removeAll p (rm_cache m), rm_tree := filter (\<lambda>e. fst e \<noteq> p) (rm_tree m)\<rparr>"

text \<open>
  Erasing the entries from position \<open>i\<close> up to \<open>j\<close>: the loop removes the first iterator from the
  cache once per erased entry.
\<close>

definition rm_erase_range :: "nat \<Rightarrow> nat \<Rightarrow> 'v AddrRangeMap \<Rightarrow> 'v AddrRangeMap" where
  "rm_erase_range i j m =
     m\<lparr>rm_cache := fold (\<lambda>_ c. removeAll (fst (rm_tree m ! i)) c) [i..<j] (rm_cache m),
       rm_tree := take i (rm_tree m) @ drop j (rm_tree m)\<rparr>"

definition rm_clear :: "'v AddrRangeMap \<Rightarrow> 'v AddrRangeMap" where
  "rm_clear m = m\<lparr>rm_cache := [], rm_tree := []\<rparr>"

definition rm_size :: "'v AddrRangeMap \<Rightarrow> nat" where "rm_size m = length (rm_tree m)"
definition rm_is_empty :: "'v AddrRangeMap \<Rightarrow> bool" where "rm_is_empty m = (rm_tree m = [])"

section \<open>Invariant\<close>

text \<open>
  An entry is a valid range, and an interleaved one starts on a stripe boundary. Two
  entries either are stripes of the same range with different match values, or do not overlap
  at all; the cache points into the tree.
\<close>

definition entry_ok :: "AddrRange \<Rightarrow> bool" where
  "entry_ok r \<longleftrightarrow> range_ok r \<and> range_valid r \<and>
     (interleaved r \<longrightarrow> intlv_value r (rg_start r) = 0 \<and> range_size r \<noteq> 1)"

definition apart :: "AddrRange \<Rightarrow> AddrRange \<Rightarrow> bool" where
  "apart r k \<longleftrightarrow> (mergesWith r k \<and> interleaved r \<and> rg_intlvMatch r \<noteq> rg_intlvMatch k) \<or>
     rg_end r < rg_start k \<or> rg_end k < rg_start r"

definition keys_ok :: "AddrRange list \<Rightarrow> bool" where
  "keys_ok ks \<longleftrightarrow> list_all entry_ok ks \<and> sorted_wrt range_less ks \<and>
     (\<forall>k\<in>set ks. \<forall>l\<in>set ks. k \<noteq> l \<longrightarrow> apart k l)"

definition rm_ok :: "'v AddrRangeMap \<Rightarrow> bool" where
  "rm_ok m \<longleftrightarrow> keys_ok (map fst (rm_tree m)) \<and> set (rm_cache m) \<subseteq> set (map fst (rm_tree m))"

lemma range_less_trans: "range_less a b \<Longrightarrow> range_less b c \<Longrightarrow> range_less a c"
  by (auto simp: range_less_def split: if_splits)

lemma range_less_irrefl [simp]: "\<not> range_less a a"
  by (simp add: range_less_def)

lemma range_less_start: "range_less a b \<Longrightarrow> rg_start a \<le> rg_start b"
  by (auto simp: range_less_def split: if_splits)

lemma mergesWith_eq: "mergesWith a a" "mergesWith a b \<Longrightarrow> mergesWith b a"
  "mergesWith a b \<Longrightarrow> mergesWith b c \<Longrightarrow> mergesWith a c"
  by (auto simp: mergesWith_def)

lemma apart_sym: "apart a b \<longleftrightarrow> apart b a"
  by (auto simp: apart_def mergesWith_def interleaved_def)

lemma keys_ok_nth:
  assumes "keys_ok ks" "i < j" "j < length ks"
  shows "range_less (ks ! i) (ks ! j)" "apart (ks ! i) (ks ! j)"
proof -
  show l: "range_less (ks ! i) (ks ! j)"
    using assms by (auto simp: keys_ok_def sorted_wrt_iff_nth_less)
  then have "ks ! i \<noteq> ks ! j" by auto
  then show "apart (ks ! i) (ks ! j)" using assms by (auto simp: keys_ok_def)
qed

lemma keys_ok_entry: "keys_ok ks \<Longrightarrow> k \<in> set ks \<Longrightarrow> entry_ok k"
  by (auto simp: keys_ok_def list_all_iff)

text \<open>No address is in two entries.\<close>

lemma contains_unique:
  assumes "keys_ok ks" "k \<in> set ks" "l \<in> set ks" "range_contains k a" "range_contains l a"
  shows "k = l"
proof (rule ccontr)
  assume "k \<noteq> l"
  with assms(1-3) have ap: "apart k l" by (auto simp: keys_ok_def)
  have "rg_start k \<le> a" "a \<le> rg_end k" "rg_start l \<le> a" "a \<le> rg_end l"
    using assms(4,5) by (auto simp: range_contains_def Let_def split: if_splits)
  with ap have m: "mergesWith k l" "interleaved k" "rg_intlvMatch k \<noteq> rg_intlvMatch l"
    by (auto simp: apart_def)
  have "range_ok k" using keys_ok_entry [OF assms(1,2)] by (simp add: entry_ok_def)
  then have "unat (rg_intlvMatch k) = unat (rg_intlvMatch l)"
    using merged_contains [OF m(1) _ m(2), of a] merged_contains [OF mergesWith_eq(1) _ m(2), of a] assms(4,5) by simp
  with m(3) show False by (simp add: word_unat_eq_iff)
qed

section \<open>Searching\<close>

lemma upper_bound_before: "j < upper_bound r ks \<Longrightarrow> j < length ks \<and> \<not> range_less r (ks ! j)"
proof -
  assume j: "j < upper_bound r ks"
  then have "takeWhile (\<lambda>k. \<not> range_less r k) ks ! j \<in> set (takeWhile (\<lambda>k. \<not> range_less r k) ks)"
    unfolding upper_bound_def by (rule nth_mem)
  then have "\<not> range_less r (takeWhile (\<lambda>k. \<not> range_less r k) ks ! j)"
    by (rule set_takeWhileD [THEN conjunct2])
  moreover have "length (takeWhile (\<lambda>k. \<not> range_less r k) ks) \<le> length ks" by (rule length_takeWhile_le)
  ultimately show ?thesis using j by (simp add: upper_bound_def takeWhile_nth)
qed

lemma upper_bound_at: "upper_bound r ks < length ks \<Longrightarrow> range_less r (ks ! upper_bound r ks)"
  unfolding upper_bound_def using nth_length_takeWhile [of "\<lambda>k. \<not> range_less r k" ks] by simp

lemma walk_back_total:
  assumes "\<forall>k\<in>set ks. cond k = Ok (c k)" "i < length ks"
  shows "\<exists>x. walk_back cond ks i = Ok x \<and> (\<forall>k. x = Some k \<longrightarrow> k \<in> set ks \<and> c k)"
  using assms(2)
proof (induction i)
  case 0
  then show ?case using assms(1) by (simp add: walk_back.simps [of cond ks 0])
next
  case (Suc i)
  then show ?case using assms(1) by (auto simp: walk_back.simps [of cond ks "Suc i"])
qed

lemma walk_back_finds:
  assumes "\<forall>k\<in>set ks. cond k = Ok (c k)" "t \<le> j" "j < length ks" "c (ks ! t)"
    and "\<And>l. t \<le> l \<Longrightarrow> l < j \<Longrightarrow> mergesWith (ks ! l) (ks ! Suc l)"
  shows "\<exists>k. walk_back cond ks j = Ok (Some k)"
  using assms(2,3,5)
proof (induction j)
  case 0
  then show ?case using assms(1,4) by (simp add: walk_back.simps [of cond ks 0])
next
  case (Suc j)
  show ?case
  proof (cases "t = Suc j")
    case True
    then show ?thesis using assms(1,4) Suc.prems by (simp add: walk_back.simps [of cond ks "Suc j"])
  next
    case False
    with Suc.prems have "t \<le> j" "mergesWith (ks ! j) (ks ! Suc j)" by auto
    with Suc show ?thesis using assms(1) by (auto simp: walk_back.simps [of cond ks "Suc j"])
  qed
qed

lemma cache_scan_total:
  assumes "\<forall>k\<in>set cs. k \<in> live \<and> cond k = Ok (c k)"
  shows "\<exists>x cs'. cache_scan cond live pre cs = Ok (x, cs') \<and> set cs' = set pre \<union> set cs \<and>
    (x = None \<longrightarrow> cs' = rev pre @ cs) \<and> (\<forall>k. x = Some k \<longrightarrow> k \<in> set cs \<and> c k)"
  using assms
proof (induction cs arbitrary: pre)
  case (Cons k cs)
  then show ?case using Cons.IH [of "k # pre"] by (cases "c k") auto
qed simp

lemma tree_search_total:
  assumes "\<forall>k\<in>set ks. cond k = Ok (c k)"
  shows "\<exists>x. tree_search cond r ks = Ok x \<and> (\<forall>k. x = Some k \<longrightarrow> k \<in> set ks \<and> c k)"
proof (cases "upper_bound r ks")
  case 0
  then show ?thesis using assms by (auto simp: tree_search_def Let_def)
next
  case (Suc j)
  then have "j < length ks" using upper_bound_before [of j r ks] by simp
  from walk_back_total [OF assms this] show ?thesis
    using Suc assms by (auto simp: tree_search_def Let_def)
qed

lemma addNewEntryToCache_set: "set (addNewEntryToCache mx k cs) \<subseteq> insert k (set cs)"
  by (auto simp: addNewEntryToCache_def dest: in_set_butlastD)

lemma rm_find_total:
  assumes "\<forall>k\<in>set (map fst (rm_tree m)). cond k = Ok (c k)" "rm_ok m"
  shows "\<exists>x m'. rm_find mx r cond m = Ok (x, m') \<and> rm_ok m' \<and> rm_tree m' = rm_tree m \<and>
    (\<forall>k. x = Some k \<longrightarrow> k \<in> set (map fst (rm_tree m)) \<and> c k) \<and>
    (x = None \<longrightarrow> tree_search cond r (map fst (rm_tree m)) = Ok None)"
proof -
  let ?ks = "map fst (rm_tree m)"
  have sub: "set (rm_cache m) \<subseteq> set ?ks" using assms(2) by (simp add: rm_ok_def)
  have "\<forall>k\<in>set (rm_cache m). k \<in> set ?ks \<and> cond k = Ok (c k)" using assms(1) sub by blast
  then obtain x cs' where cs: "cache_scan cond (set ?ks) [] (rm_cache m) = Ok (x, cs')" "set cs' = set (rm_cache m)"
    "x = None \<Longrightarrow> cs' = rm_cache m" "\<And>k. x = Some k \<Longrightarrow> k \<in> set (rm_cache m) \<and> c k"
    using cache_scan_total [of "rm_cache m" "set ?ks" cond c "[]"] by auto
  show ?thesis
  proof (cases x)
    case (Some k)
    then show ?thesis using cs assms(2) sub by (auto simp: rm_find_def rm_ok_def)
  next
    case None
    obtain y where y: "tree_search cond r ?ks = Ok y" "\<And>k. y = Some k \<Longrightarrow> k \<in> set ?ks \<and> c k"
      using tree_search_total [OF assms(1)] by blast
    show ?thesis
    proof (cases y)
      case None
      then show ?thesis using \<open>x = None\<close> cs y assms(2) by (auto simp: rm_find_def)
    next
      case (Some k)
      then have "set (addNewEntryToCache mx k (rm_cache m)) \<subseteq> set ?ks"
        using addNewEntryToCache_set [of mx k "rm_cache m"] sub y(2) by blast
      then show ?thesis using \<open>x = None\<close> Some cs y assms(2) by (auto simp: rm_find_def rm_ok_def)
    qed
  qed
qed

section \<open>Routing an address\<close>

lemma subset_point:
  assumes "entry_ok k"
  shows "isSubset (RangeSize a 1) k = Ok (range_contains k a)"
proof (cases "interleaved k")
  case True
  have "range_ok k" using assms by (simp add: entry_ok_def)
  then have "unat (granularity k) = 2 ^ gran_bits k"
    using True granularity_gran_bits gran_bits_less by (simp add: unat_2p_u64)
  then have "1 \<le> granularity k" by (simp add: word_le_nat_alt)
  then show ?thesis using True
    by (simp add: isSubset_def RangeSize_def AddrRange_plain_def interleaved_def range_size_def)
next
  case False
  then show ?thesis
    by (simp add: isSubset_def RangeSize_def AddrRange_plain_def interleaved_def range_contains_def Let_def)
qed

lemma entry_match_at_start:
  assumes "entry_ok k" "range_contains k (rg_start k)"
  shows "rg_intlvMatch k = 0"
proof (cases "interleaved k")
  case True
  with assms have "ucast (rg_intlvMatch k) = (0 :: u64)"
    by (auto simp: entry_ok_def range_contains_def Let_def split: if_splits)
  then have "\<not> bit (ucast (rg_intlvMatch k) :: u64) i" for i by simp
  then show ?thesis by (intro bit_word_eqI) (auto simp: bit_ucast_iff)
next
  case False
  then show ?thesis using assms(1) by (auto simp: entry_ok_def range_ok_def Let_def interleaved_def unat_eq_zero)
qed

lemma route_complete:
  assumes "keys_ok ks" "t < length ks" "range_contains (ks ! t) a"
    and "\<forall>k\<in>set ks. cond k = Ok (range_contains k a)"
  shows "\<exists>k. tree_search cond (RangeSize a 1) ks = Ok (Some k)"
proof -
  let ?r = "RangeSize a 1" and ?i = "upper_bound (RangeSize a 1) ks"
  have r: "rg_start ?r = a" "rg_intlvMatch ?r = 0" by (simp_all add: RangeSize_def AddrRange_plain_def)
  have at: "rg_start (ks ! t) \<le> a" "a \<le> rg_end (ks ! t)"
    using assms(3) by (auto simp: range_contains_def Let_def split: if_splits)
  have "\<not> range_less ?r (ks ! t)"
  proof
    assume "range_less ?r (ks ! t)"
    with at r have "rg_start (ks ! t) = a" "rg_intlvMatch (ks ! t) \<noteq> 0"
      by (auto simp: range_less_def split: if_splits)
    then show False using entry_match_at_start [of "ks ! t"] keys_ok_entry [OF assms(1)] assms(2,3) by simp
  qed
  moreover have "range_less ?r (ks ! t)" if "?i \<le> t"
    using that upper_bound_at [of ?r ks] keys_ok_nth(1) [OF assms(1), of ?i t] assms(2) range_less_trans
    by (cases "?i = t") auto
  ultimately have "t < ?i" by fastforce
  then obtain j where j: "?i = Suc j" "t \<le> j" by (cases ?i) auto
  then have jl: "j < length ks" using upper_bound_before [of j ?r ks] by simp
  have mt: "mergesWith (ks ! t) (ks ! l)" if "t \<le> l" "l \<le> j" for l
  proof (cases "l = t")
    case False
    with that have tl: "t < l" "l < length ks" using jl by auto
    have "\<not> range_less ?r (ks ! l)" using upper_bound_before [of l ?r ks] that j by simp
    then have "rg_start (ks ! l) \<le> a" using r by (auto simp: range_less_def split: if_splits)
    moreover have "rg_start (ks ! t) \<le> rg_start (ks ! l)"
      using keys_ok_nth(1) [OF assms(1) tl] by (rule range_less_start)
    moreover have "rg_start (ks ! l) \<le> rg_end (ks ! l)"
      using keys_ok_entry [OF assms(1), of "ks ! l"] tl by (simp add: entry_ok_def range_valid_def)
    ultimately show ?thesis using keys_ok_nth(2) [OF assms(1) tl] at by (auto simp: apart_def)
  qed (simp add: mergesWith_eq(1))
  have "mergesWith (ks ! l) (ks ! Suc l)" if "t \<le> l" "l < j" for l
    using mt [of l] mt [of "Suc l"] that mergesWith_eq(2,3) by (meson Suc_leI le_SucI less_imp_le)
  from walk_back_finds [OF assms(4) j(2) jl assms(3) this]
  obtain k where "walk_back cond ks j = Ok (Some k)" by blast
  then show ?thesis using assms(4) j by (auto simp: tree_search_def Let_def)
qed

lemma rm_contains_addr_exact:
  assumes "rm_ok m"
  shows "\<exists>x m'. rm_contains_addr mx a m = Ok (x, m') \<and> rm_ok m' \<and> rm_tree m' = rm_tree m \<and>
    (\<forall>k. x = Some k \<longleftrightarrow> k \<in> set (map fst (rm_tree m)) \<and> range_contains k a)"
proof -
  let ?ks = "map fst (rm_tree m)"
  have ks: "keys_ok ?ks" using assms by (simp add: rm_ok_def)
  have c: "\<forall>k\<in>set ?ks. isSubset (RangeSize a 1) k = Ok (range_contains k a)"
    using keys_ok_entry [OF ks] subset_point by blast
  obtain x m' where x: "rm_contains_addr mx a m = Ok (x, m')" "rm_ok m'" "rm_tree m' = rm_tree m"
    "\<And>k. x = Some k \<Longrightarrow> k \<in> set ?ks \<and> range_contains k a"
    "x = None \<Longrightarrow> tree_search (isSubset (RangeSize a 1)) (RangeSize a 1) ?ks = Ok None"
    using rm_find_total [OF c assms, of mx "RangeSize a 1"]
    unfolding rm_contains_addr_def rm_contains_def by blast
  have "x = Some k" if k: "k \<in> set ?ks" "range_contains k a" for k
  proof -
    obtain t where "t < length ?ks" "?ks ! t = k" using k(1) by (metis in_set_conv_nth)
    with route_complete [OF ks _ _ c, of t] k(2) obtain y where
      "tree_search (isSubset (RangeSize a 1)) (RangeSize a 1) ?ks = Ok (Some y)" by blast
    with x(5) obtain l where "x = Some l" by (cases x) auto
    with x(4) contains_unique [OF ks _ k(1) _ k(2)] show ?thesis by blast
  qed
  with x show ?thesis by blast
qed

section \<open>Inserting a range\<close>

lemma intersects_apart:
  assumes "entry_ok r" "\<not> interleaved r" "entry_ok k" "interleaved k \<longrightarrow> apart r k"
  shows "range_intersects r k = Ok (\<not> apart r k)"
  using assms by (auto simp: range_intersects_def apart_def not_less mergesWith_def)

lemma insert_complete:
  assumes "keys_ok ks" "entry_ok r" "\<not> interleaved r" "\<forall>k\<in>set ks. interleaved k \<longrightarrow> apart r k"
    and "t < length ks" "\<not> apart r (ks ! t)"
    and "\<forall>k\<in>set ks. cond k = Ok (\<not> apart r k)"
  shows "\<exists>k. tree_search cond r ks = Ok (Some k)"
proof -
  let ?i = "upper_bound r ks"
  have t: "\<not> interleaved (ks ! t)" using assms(4-6) by auto
  have ov: "rg_start (ks ! t) \<le> rg_end r" "rg_start r \<le> rg_end (ks ! t)"
    using assms(6) by (auto simp: apart_def)
  have vr: "rg_start r \<le> rg_end r" using assms(2) by (simp add: entry_ok_def range_valid_def)
  have vk: "rg_start (ks ! l) \<le> rg_end (ks ! l)" if "l < length ks" for l
    using keys_ok_entry [OF assms(1), of "ks ! l"] that by (simp add: entry_ok_def range_valid_def)
  show ?thesis
  proof (cases "?i \<le> t")
    case True
    then have il: "?i < length ks" using assms(5) by simp
    have "rg_start (ks ! ?i) \<le> rg_start (ks ! t)"
      using keys_ok_nth(1) [OF assms(1), of ?i t] True assms(5) range_less_start
      by (cases "?i = t") auto
    moreover have "rg_start r \<le> rg_start (ks ! ?i)" using upper_bound_at [OF il] by (rule range_less_start)
    ultimately have "\<not> apart r (ks ! ?i)" using ov vk [OF il] assms(3) by (auto simp: apart_def)
    then show ?thesis using il assms(7) by (auto simp: tree_search_def Let_def)
  next
    case False
    then obtain j where j: "?i = Suc j" "t \<le> j" by (cases ?i) auto
    then have jl: "j < length ks" "\<not> range_less r (ks ! j)" using upper_bound_before [of j r ks] by auto
    have "t = j"
    proof (rule ccontr)
      assume "t \<noteq> j"
      with j have tj: "t < j" by simp
      have "rg_start (ks ! j) \<le> rg_start r" using jl(2) by (auto simp: range_less_def split: if_splits)
      moreover have "rg_start (ks ! t) \<le> rg_start (ks ! j)"
        using keys_ok_nth(1) [OF assms(1) tj jl(1)] by (rule range_less_start)
      ultimately show False
        using keys_ok_nth(2) [OF assms(1) tj jl(1)] ov t vk [OF jl(1)] by (auto simp: apart_def)
    qed
    then have "walk_back cond ks j = Ok (Some (ks ! j))"
      using assms(6,7) jl(1) by (simp add: walk_back.simps [of cond ks j])
    then show ?thesis using assms(7) j(1) by (auto simp: tree_search_def Let_def)
  qed
qed

lemma tree_insert_new:
  assumes "sorted_wrt range_less (map fst t)" "\<forall>k\<in>set (map fst t). range_less r k \<or> range_less k r"
  shows "\<exists>t'. tree_insert r d t = (r, t') \<and> set t' = insert (r, d) (set t) \<and> sorted_wrt range_less (map fst t')"
  using assms
proof (induction t)
  case (Cons e t)
  obtain k v where e: "e = (k, v)" by (cases e)
  show ?case
  proof (cases "range_less r k")
    case True
    then have "\<forall>l\<in>set (map fst t). range_less r l" using Cons.prems(1) e range_less_trans by auto
    then show ?thesis using True Cons.prems(1) e by auto
  next
    case False
    then have kr: "range_less k r" using Cons.prems(2) e by auto
    from Cons obtain t' where t': "tree_insert r d t = (r, t')" "set t' = insert (r, d) (set t)"
      "sorted_wrt range_less (map fst t')" by auto
    have "\<forall>l\<in>set (map fst t'). range_less k l" using t'(2) kr Cons.prems(1) e by auto
    then show ?thesis using False kr t' e by auto
  qed
qed simp

lemma apart_comparable:
  assumes "entry_ok r" "entry_ok k" "\<not> interleaved r" "apart r k"
  shows "range_less r k \<or> range_less k r"
proof -
  have "rg_start r \<noteq> rg_start k"
    using assms by (auto simp: apart_def entry_ok_def range_valid_def)
  then show ?thesis by (auto simp: range_less_def)
qed

lemma rm_insert_exact:
  assumes "rm_ok m" "entry_ok r" "\<not> interleaved r"
    and "\<forall>k\<in>set (map fst (rm_tree m)). interleaved k \<longrightarrow> apart r k"
  shows "\<exists>x m'. rm_insert mx r d m = Ok (x, m') \<and> rm_ok m' \<and>
    (if \<forall>k\<in>set (map fst (rm_tree m)). apart r k
     then x = Some r \<and> set (rm_tree m') = insert (r, d) (set (rm_tree m))
     else x = None \<and> rm_tree m' = rm_tree m)"
proof -
  let ?ks = "map fst (rm_tree m)"
  have ks: "keys_ok ?ks" using assms(1) by (simp add: rm_ok_def)
  have c: "\<forall>k\<in>set ?ks. range_intersects r k = Ok (\<not> apart r k)"
    using intersects_apart [OF assms(2,3)] keys_ok_entry [OF ks] assms(4) by blast
  obtain x m' where x: "rm_intersects mx r m = Ok (x, m')" "rm_ok m'" "rm_tree m' = rm_tree m"
    "\<And>k. x = Some k \<Longrightarrow> k \<in> set ?ks \<and> \<not> apart r k"
    "x = None \<Longrightarrow> tree_search (range_intersects r) r ?ks = Ok None"
    using rm_find_total [OF c assms(1), of mx r] unfolding rm_intersects_def by blast
  show ?thesis
  proof (cases "\<forall>k\<in>set ?ks. apart r k")
    case True
    then have "x = None" using x(4) by (cases x) auto
    have cmp: "\<forall>k\<in>set ?ks. range_less r k \<or> range_less k r"
      using True apart_comparable [OF assms(2) _ assms(3)] keys_ok_entry [OF ks] by blast
    have "sorted_wrt range_less ?ks" using ks by (simp add: keys_ok_def)
    from tree_insert_new [OF this cmp, of d] obtain t' where t': "tree_insert r d (rm_tree m) = (r, t')"
      "set t' = insert (r, d) (set (rm_tree m))" "sorted_wrt range_less (map fst t')" by blast
    have set': "set (map fst t') = insert r (set ?ks)" using t'(2) by auto
    have "keys_ok (map fst t')"
      unfolding keys_ok_def list_all_iff set'
      using t'(3) ks True assms(2) apart_sym by (auto simp: keys_ok_def list_all_iff)
    then have "rm_ok (m'\<lparr>rm_tree := t'\<rparr>)"
      using x(2,3) set' by (auto simp: rm_ok_def)
    then show ?thesis using True \<open>x = None\<close> x(1,3) t' by (auto simp: rm_insert_def)
  next
    case False
    then obtain t where "t < length ?ks" "\<not> apart r (?ks ! t)" by (metis in_set_conv_nth)
    from insert_complete [OF ks assms(2-4) this c] x(5) have "x \<noteq> None" by (cases x) auto
    then show ?thesis using False x(1-3) by (auto simp: rm_insert_def)
  qed
qed

lemma rm_ok_empty: "rm_ok rm_empty"
  by (simp add: rm_ok_def rm_empty_def keys_ok_def)

lemma keys_ok_filter: "keys_ok ks \<Longrightarrow> keys_ok (filter P ks)"
  by (auto simp: keys_ok_def list_all_iff intro: sorted_wrt_filter)

lemma rm_ok_erase: "rm_ok m \<Longrightarrow> rm_ok (rm_erase p m)"
proof -
  assume m: "rm_ok m"
  have "map fst (filter (\<lambda>e. fst e \<noteq> p) (rm_tree m)) = filter (\<lambda>k. k \<noteq> p) (map fst (rm_tree m))"
    by (simp add: filter_map o_def)
  with m keys_ok_filter show ?thesis by (auto simp: rm_ok_def rm_erase_def)
qed

section \<open>The interface of an address decoder\<close>

text \<open>
  What the crossbars and memories that own such a map rely on: a lookup changes no answer and
  returns the entry that contains the address; adding a contiguous range succeeds exactly when it
  overlaps no entry. Building a decoder from disjoint ranges and then routing any sequence of
  addresses is proved here once.
\<close>

locale addr_decoder =
  fixes lookup :: "Addr \<Rightarrow> 's \<Rightarrow> (AddrRange option \<times> 's) result"
    and add :: "AddrRange \<Rightarrow> 'v \<Rightarrow> 's \<Rightarrow> (AddrRange option \<times> 's) result"
    and good :: "'s \<Rightarrow> bool"
    and entries :: "'s \<Rightarrow> (AddrRange \<times> 'v) set"
  assumes lookup_law: "good s \<Longrightarrow>
      \<exists>x s'. lookup a s = Ok (x, s') \<and> good s' \<and> entries s' = entries s \<and>
        (\<forall>k. x = Some k \<longleftrightarrow> k \<in> fst ` entries s \<and> range_contains k a)"
    and add_law: "good s \<Longrightarrow> entry_ok r \<Longrightarrow> \<not> interleaved r \<Longrightarrow> \<forall>k\<in>fst ` entries s. apart r k \<Longrightarrow>
      \<exists>s'. add r d s = Ok (Some r, s') \<and> good s' \<and> entries s' = insert (r, d) (entries s)"
begin

definition add_all :: "(AddrRange \<times> 'v) list \<Rightarrow> 's \<Rightarrow> 's result" where
  "add_all rs s = foldM (\<lambda>(r, d) s. bindR (add r d s) (\<lambda>(_, s'). Ok s')) rs s"

definition lookup_all :: "Addr list \<Rightarrow> 's \<Rightarrow> (AddrRange option list \<times> 's) result" where
  "lookup_all as s = foldM (\<lambda>a (xs, s). bindR (lookup a s) (\<lambda>(x, s'). Ok (xs @ [x], s'))) as ([], s)"

lemma add_all_entries:
  assumes "good s" "\<forall>(r, d)\<in>set rs. entry_ok r \<and> \<not> interleaved r \<and> (\<forall>k\<in>fst ` entries s. apart r k)"
    and "sorted_wrt (\<lambda>x y. apart (fst x) (fst y)) rs"
  shows "\<exists>s'. add_all rs s = Ok s' \<and> good s' \<and> entries s' = entries s \<union> set rs"
  using assms
proof (induction rs arbitrary: s)
  case Nil
  then show ?case by (simp add: add_all_def)
next
  case (Cons e rs)
  obtain r d where e: "e = (r, d)" by (cases e)
  with Cons.prems(2) obtain s1 where s1: "add r d s = Ok (Some r, s1)" "good s1"
    "entries s1 = insert (r, d) (entries s)"
    using add_law [OF Cons.prems(1), of r d] by auto
  have "\<forall>(q, c)\<in>set rs. entry_ok q \<and> \<not> interleaved q \<and> (\<forall>k\<in>fst ` entries s1. apart q k)"
    using Cons.prems(2,3) s1(3) e apart_sym by auto
  with Cons.IH [OF s1(2)] Cons.prems(3) obtain s' where
    "add_all rs s1 = Ok s'" "good s'" "entries s' = entries s1 \<union> set rs" by auto
  then show ?case using s1 e by (auto simp: add_all_def)
qed

lemma lookup_unique:
  assumes "good s" "k \<in> fst ` entries s" "range_contains k a"
  shows "\<exists>s'. lookup a s = Ok (Some k, s') \<and> good s' \<and> entries s' = entries s"
proof -
  obtain x s' where x: "lookup a s = Ok (x, s')" "good s'" "entries s' = entries s"
    "\<forall>k. x = Some k \<longleftrightarrow> k \<in> fst ` entries s \<and> range_contains k a"
    using lookup_law [OF assms(1)] by metis
  from x(4) assms(2,3) have "x = Some k" by blast
  with x(1-3) show ?thesis by simp
qed

lemma lookup_all_stable:
  assumes "good s"
  shows "\<exists>xs s'. lookup_all as s = Ok (xs, s') \<and> good s' \<and> entries s' = entries s \<and> length xs = length as \<and>
    (\<forall>i<length as. \<forall>k. xs ! i = Some k \<longleftrightarrow> k \<in> fst ` entries s \<and> range_contains k (as ! i))"
proof (induction as rule: rev_induct)
  case Nil
  then show ?case using assms by (simp add: lookup_all_def)
next
  case (snoc a as)
  then obtain xs s1 where s1: "lookup_all as s = Ok (xs, s1)" "good s1" "entries s1 = entries s" "length xs = length as"
    "\<forall>i<length as. \<forall>k. xs ! i = Some k \<longleftrightarrow> k \<in> fst ` entries s \<and> range_contains k (as ! i)" by metis
  obtain x s2 where s2: "lookup a s1 = Ok (x, s2)" "good s2" "entries s2 = entries s1"
    "\<forall>k. x = Some k \<longleftrightarrow> k \<in> fst ` entries s1 \<and> range_contains k a"
    using lookup_law [OF s1(2)] by metis
  have "lookup_all (as @ [a]) s = Ok (xs @ [x], s2)"
    using s1(1) s2(1) by (simp add: lookup_all_def foldM_append)
  moreover have "(xs @ [x]) ! i = Some k \<longleftrightarrow> k \<in> fst ` entries s \<and> range_contains k ((as @ [a]) ! i)"
    if "i < length (as @ [a])" for i k
  proof (cases "i < length as")
    case True
    with s1(4) s1(5) [rule_format, OF True, of k] show ?thesis by (simp add: nth_append)
  next
    case False
    with that have "i = length as" by simp
    with s1(3,4) s2(4) [rule_format, of k] show ?thesis by (simp add: nth_append)
  qed
  moreover have "length (xs @ [x]) = length (as @ [a])" using s1(4) by simp
  ultimately show ?case using s1(3) s2(2,3) by blast
qed

lemma build_and_route:
  assumes "good s" "entries s = {}" "sorted_wrt (\<lambda>x y. apart (fst x) (fst y)) rs"
    and "\<forall>(r, d)\<in>set rs. entry_ok r \<and> \<not> interleaved r"
  shows "\<exists>s'. add_all rs s = Ok s' \<and> (\<exists>xs s''. lookup_all as s' = Ok (xs, s'') \<and> length xs = length as \<and>
    (\<forall>i<length as. \<forall>k. xs ! i = Some k \<longleftrightarrow> k \<in> fst ` set rs \<and> range_contains k (as ! i)))"
proof -
  have "\<forall>(r, d)\<in>set rs. entry_ok r \<and> \<not> interleaved r \<and> (\<forall>k\<in>fst ` entries s. apart r k)"
    using assms(2,4) by auto
  from add_all_entries [OF assms(1) this assms(3)] obtain s' where
    s': "add_all rs s = Ok s'" "good s'" "entries s' = set rs" using assms(2) by auto
  with lookup_all_stable [OF s'(2), of as] show ?thesis unfolding s'(3) by blast
qed

end

interpretation rm: addr_decoder "rm_contains_addr mx" "rm_insert mx" rm_ok "\<lambda>m. set (rm_tree m)" for mx
proof (unfold_locales, goal_cases)
  case (1 s a)
  from rm_contains_addr_exact [OF this, of mx a] show ?case by auto
next
  case (2 s r d)
  from rm_insert_exact [OF 2(1-3), of mx d] 2(4) show ?case by auto
qed

section \<open>Properties\<close>

definition build_map :: "nat \<Rightarrow> (AddrRange \<times> 'v) list \<Rightarrow> 'v AddrRangeMap result" where
  "build_map mx rs = foldM (\<lambda>(r, d) m. bindR (rm_insert mx r d m) (\<lambda>(_, m'). Ok m')) rs rm_empty"

definition route_all :: "nat \<Rightarrow> Addr list \<Rightarrow> 'v AddrRangeMap \<Rightarrow> (AddrRange option list \<times> 'v AddrRangeMap) result"
where
  "route_all mx as m = foldM (\<lambda>a (xs, m). bindR (rm_contains_addr mx a m) (\<lambda>(x, m'). Ok (xs @ [x], m'))) as ([], m)"

text \<open>C27: a map built from contiguous ranges that do not overlap routes every address of any sequence of
  lookups to the one range that contains it, or to none, whatever the size of the lookup cache
  and its contents.\<close>

theorem map_routes:
  assumes "sorted_wrt (\<lambda>x y. apart (fst x) (fst y)) rs" "\<forall>(r, d)\<in>set rs. entry_ok r \<and> \<not> interleaved r"
  shows "\<exists>m. build_map mx rs = Ok m \<and> (\<exists>xs m'. route_all mx as m = Ok (xs, m') \<and> length xs = length as \<and>
    (\<forall>i<length as. \<forall>k. (xs ! i = Some k) = (k \<in> fst ` set rs \<and> range_contains k (as ! i))))"
  using rm.build_and_route [OF rm_ok_empty, of rs mx as] assms
  unfolding rm.add_all_def rm.lookup_all_def build_map_def route_all_def by (simp add: rm_empty_def)

definition demo_map :: "(AddrRange \<times> nat) list" where
  "demo_map = [(RangeSize 0x1000 0x100, 1), (RangeSize 0x2000 0x80, 2)]"

lemma demo_map_ok:
  "sorted_wrt (\<lambda>x y. apart (fst x) (fst y)) demo_map"
  "\<forall>(r, d)\<in>set demo_map. entry_ok r \<and> \<not> interleaved r"
  by (simp_all add: demo_map_def apart_def RangeSize_def AddrRange_plain_def entry_ok_def range_ok_def
      range_valid_def interleaved_def hashed_def)

theorem map_routes_witness:
  "\<exists>m xs m'. build_map 3 demo_map = Ok m \<and> route_all 3 [0x2010, 0x1fff] m = Ok (xs, m') \<and>
     xs ! 0 = Some (RangeSize 0x2000 0x80)"
proof -
  obtain m xs m' where r: "build_map 3 demo_map = Ok m" "route_all 3 [0x2010, 0x1fff] m = Ok (xs, m')"
    "\<forall>i<2. \<forall>k. (xs ! i = Some k) = (k \<in> fst ` set demo_map \<and> range_contains k ([0x2010, 0x1fff] ! i))"
    using map_routes [OF demo_map_ok, of 3 "[0x2010, 0x1fff]"] by auto
  have "range_contains (RangeSize 0x2000 0x80) 0x2010"
    by (simp add: RangeSize_def AddrRange_plain_def range_contains_def interleaved_def)
  moreover have "RangeSize 0x2000 0x80 \<in> fst ` set demo_map" by (simp add: demo_map_def)
  ultimately have "xs ! 0 = Some (RangeSize 0x2000 0x80)" using r(3) by simp
  with r(1,2) show ?thesis by blast
qed

text \<open>Inserting a contiguous range keeps the invariant; it takes effect exactly when the range overlaps
  no entry, and leaves the entries alone otherwise.\<close>

theorem insert_exact:
  assumes "rm_ok m" "entry_ok r" "\<not> interleaved r"
    and "\<forall>k\<in>set (map fst (rm_tree m)). interleaved k \<longrightarrow> apart r k"
  shows "\<exists>x m'. rm_insert mx r d m = Ok (x, m') \<and> rm_ok m' \<and>
    (if \<forall>k\<in>set (map fst (rm_tree m)). apart r k
     then x = Some r \<and> set (rm_tree m') = insert (r, d) (set (rm_tree m))
     else x = None \<and> rm_tree m' = rm_tree m)"
  by (rule rm_insert_exact [OF assms])

theorem insert_exact_witness:
  "\<exists>x m'. rm_insert 0 (RangeSize 0x1000 0x100) (7 :: nat) rm_empty = Ok (x, m') \<and>
     set (rm_tree m') = {(RangeSize 0x1000 0x100, 7)}"
proof -
  have "entry_ok (RangeSize 0x1000 0x100)" "\<not> interleaved (RangeSize 0x1000 0x100)"
    by (simp_all add: RangeSize_def AddrRange_plain_def entry_ok_def range_ok_def range_valid_def
        interleaved_def hashed_def)
  from insert_exact [OF rm_ok_empty this, of 0 7] show ?thesis by (auto simp: rm_empty_def)
qed

text \<open>Erasing a range of entries drops only its first iterator from the cache, so that a later lookup
  follows an iterator to an erased entry.\<close>

theorem erase_range_dangles:
  "\<exists>m m' x m''. build_map 2 demo_map = Ok m \<and> rm_contains_addr 2 0x1010 m = Ok (x, m') \<and>
     rm_contains_addr 2 0x2010 m' = Ok (Some (RangeSize 0x2000 0x80), m'') \<and>
     rm_contains_addr 2 0x1010 (rm_erase_range 0 2 m'') = Error UseAfterFree"
  by (simp add: build_map_def demo_map_def rm_insert_def rm_intersects_def rm_contains_addr_def rm_contains_def
      rm_find_def rm_empty_def tree_search_def upper_bound_def walk_back.simps range_intersects_def isSubset_def
      RangeSize_def AddrRange_plain_def range_less_def interleaved_def addNewEntryToCache_def Let_def
      rm_erase_range_def upt_rec)

end
