(* ===== verification/Int_Math.thy ===== *)
theory Int_Math
  imports Bit_Field
begin

text \<open>
  \<^verbatim>\<open>base/intmath.hh\<close> and \<^verbatim>\<open>base/intmath.cc\<close>: primes, logarithms, powers of two, rounding and
  character classes. The templates are instantiated at \<^verbatim>\<open>int\<close> for the primes (their only user) and at
  \<^verbatim>\<open>uint64_t\<close> elsewhere.
\<close>

section \<open>Primes\<close>

function isPrime_loop :: "int \<Rightarrow> nat \<Rightarrow> bool result" where
  "isPrime_loop n i =
     (if \<not> int32_ok (int i * int i) then Error IntOverflow
      else if int i * int i \<le> n
      then (if n mod int i = 0 \<or> n mod (int i + 2) = 0 then Ok False else isPrime_loop n (i + 6))
      else Ok True)"
  by pat_completeness auto
termination
proof (relation "measure (\<lambda>(n, i). nat n + 1 - i)", goal_cases)
  case (2 n i)
  have "int i \<le> int i * int i" by (cases i) auto
  with 2 have "int i \<le> n" by linarith
  then show ?case by auto
qed simp

declare isPrime_loop.simps [simp del]

definition isPrime :: "int \<Rightarrow> bool result" where
  "isPrime n = (if n = 2 \<or> n = 3 then Ok True else isPrime_loop n 5)"

text \<open>The decrement toggles between 2 (\<open>two\<close>) and 4.\<close>

lemma isPrime_loop_small: "n < 25 \<Longrightarrow> isPrime_loop n 5 = Ok True"
  by (simp add: isPrime_loop.simps [of n 5] int32_ok_def)

lemma isPrime_small: "n < 25 \<Longrightarrow> isPrime n = Ok True"
  by (simp add: isPrime_def isPrime_loop_small)

function prevPrime_loop :: "int \<Rightarrow> bool \<Rightarrow> int result" where
  "prevPrime_loop n two =
     bindR (isPrime n) (\<lambda>p.
       if p then Ok n else prevPrime_loop (n - (if two then 2 else 4)) (\<not> two))"
  by pat_completeness auto
termination
proof (relation "measure (\<lambda>(n, two). nat n)", goal_cases)
  case (2 n two p)
  then have "\<not> n < 25" using isPrime_small [of n] by auto
  then show ?case by auto
qed simp

declare prevPrime_loop.simps [simp del]

text \<open>\<^verbatim>\<open>%\<close> truncates: the remainder of a negative number is never positive.\<close>

definition cmod :: "int \<Rightarrow> int \<Rightarrow> int" where
  "cmod a b = sgn a * (\<bar>a\<bar> mod \<bar>b\<bar>)"

definition prevPrime :: "int \<Rightarrow> int result" where
  "prevPrime n =
     bindR (intR (if even n then n - 1 else n)) (\<lambda>n.
       let decr = cmod n 3 in
       if decr = 0 then bindR (intR (n - 2)) (\<lambda>n. prevPrime_loop n True)
       else prevPrime_loop n (decr \<noteq> 1))"

section \<open>Powers and logarithms\<close>

definition leastSigBit :: "u64 \<Rightarrow> u64" where
  "leastSigBit n = n AND NOT (n - 1)"

definition isPowerOf2 :: "u64 \<Rightarrow> bool" where
  "isPowerOf2 n \<longleftrightarrow> n \<noteq> 0 \<and> leastSigBit n = n"

text \<open>The warnings about slow or overflowing computations are not part of the result.\<close>

definition power_u :: "u32 \<Rightarrow> u32 \<Rightarrow> u64" where
  "power_u n e = (if e = 0 then 1 else fold (\<lambda>_ r. r * ucast n) [1..<unat e] (ucast n))"

definition floorLog2_32 :: "u32 \<Rightarrow> nat result" where
  "floorLog2_32 x =
     bindR (assertR (x > 0) AssertFail) (\<lambda>_.
       let yx = (0, x);
           yx = search_step (snd yx AND 0xffff0000 \<noteq> 0) 16 yx;
           yx = search_step (snd yx AND 0x0000ff00 \<noteq> 0) 8 yx;
           yx = search_step (snd yx AND 0x000000f0 \<noteq> 0) 4 yx;
           yx = search_step (snd yx AND 0x0000000c \<noteq> 0) 2 yx
       in Ok (if snd yx AND 0x00000002 \<noteq> 0 then fst yx + 1 else fst yx))"

definition floorLog2_64 :: "u64 \<Rightarrow> nat result" where
  "floorLog2_64 x =
     bindR (assertR (x > 0) AssertFail) (\<lambda>_.
       let yx = (0, x);
           yx = search_step (snd yx AND 0xffffffff00000000 \<noteq> 0) 32 yx;
           yx = search_step (snd yx AND 0x00000000ffff0000 \<noteq> 0) 16 yx;
           yx = search_step (snd yx AND 0x000000000000ff00 \<noteq> 0) 8 yx;
           yx = search_step (snd yx AND 0x00000000000000f0 \<noteq> 0) 4 yx;
           yx = search_step (snd yx AND 0x000000000000000c \<noteq> 0) 2 yx
       in Ok (if snd yx AND 0x0000000000000002 \<noteq> 0 then fst yx + 1 else fst yx))"

definition floorLog2_int :: "int \<Rightarrow> nat result" where
  "floorLog2_int x = bindR (assertR (x > 0) AssertFail) (\<lambda>_. floorLog2_32 (word_of_int x))"

definition floorLog2_long :: "int \<Rightarrow> nat result" where
  "floorLog2_long x = bindR (assertR (x > 0) AssertFail) (\<lambda>_. floorLog2_64 (word_of_int x))"

definition ceilLog2 :: "u64 \<Rightarrow> nat result" where
  "ceilLog2 n = (if n = 1 then Ok 0 else bindR (floorLog2_64 (n - 1)) (\<lambda>y. Ok (y + 1)))"

text \<open>A shift of a 64-bit value by 64 is undefined.\<close>

definition shl_one :: "nat \<Rightarrow> u64 result" where
  "shl_one k = (if k < 64 then Ok (push_bit k 1) else Error IntOverflow)"

definition floorPow2 :: "u64 \<Rightarrow> u64 result" where
  "floorPow2 n = bindR (floorLog2_64 n) shl_one"

definition ceilPow2 :: "u64 \<Rightarrow> u64 result" where
  "ceilPow2 n = bindR (ceilLog2 n) shl_one"

section \<open>Rounding\<close>

definition divCeil :: "u64 \<Rightarrow> u64 \<Rightarrow> u64" where
  "divCeil a b = (a + b - 1) div b"

definition roundUp :: "u64 \<Rightarrow> u64 \<Rightarrow> u64" where
  "roundUp val align = (let m = align - 1 in (val + m) AND NOT m)"

definition roundDown :: "u64 \<Rightarrow> u64 \<Rightarrow> u64" where
  "roundDown val align = (let m = align - 1 in val AND NOT m)"

section \<open>Characters\<close>

definition isHex :: "int \<Rightarrow> bool" where
  "isHex c \<longleftrightarrow> (c \<ge> 48 \<and> c \<le> 57) \<or> (c \<ge> 65 \<and> c \<le> 70) \<or> (c \<ge> 97 \<and> c \<le> 102)"

definition isOct :: "int \<Rightarrow> bool" where
  "isOct c \<longleftrightarrow> c \<ge> 48 \<and> c \<le> 55"

definition isDec :: "int \<Rightarrow> bool" where
  "isDec c \<longleftrightarrow> c \<ge> 48 \<and> c \<le> 57"

definition hex2Int :: "int \<Rightarrow> int" where
  "hex2Int c =
     (if c \<ge> 48 \<and> c \<le> 57 then c - 48
      else if c \<ge> 65 \<and> c \<le> 70 then (c - 65) + 10
      else if c \<ge> 97 \<and> c \<le> 102 then (c - 97) + 10
      else 0)"

section \<open>The wheel sieve\<close>

definition prime_int :: "int \<Rightarrow> bool" where
  "prime_int p \<longleftrightarrow> 1 < p \<and> (\<forall>d. 1 < d \<and> d < p \<longrightarrow> \<not> d dvd p)"

lemma small_divisor:
  assumes "1 < n" "\<not> prime_int n"
  shows "\<exists>d. 1 < d \<and> d * d \<le> n \<and> d dvd n"
proof -
  from assms obtain d where d: "1 < d" "d < n" "d dvd n" by (auto simp: prime_int_def)
  then obtain e where e: "n = d * e" by blast
  with d assms(1) have "0 < e" by (metis less_trans zero_less_mult_pos zero_less_one)
  moreover have "e \<noteq> 1" using e d(2) by auto
  ultimately have e1: "1 < e" by linarith
  show ?thesis
  proof (cases "d \<le> e")
    case True
    then have "d * d \<le> n" using e d(1) by (simp add: mult_left_mono)
    with d show ?thesis by blast
  next
    case False
    then have "e * e \<le> n" using e e1 by (simp add: mult_right_mono)
    with e e1 show ?thesis by (intro exI [of _ e]) simp
  qed
qed

text \<open>
  For a number prime to 6 it is enough to try the numbers that are 5 and 1 modulo 6, which the
  loop does in pairs.
\<close>

definition wheel_free :: "int \<Rightarrow> nat \<Rightarrow> bool" where
  "wheel_free n i \<longleftrightarrow> (\<forall>d. 1 < d \<and> d < int i \<longrightarrow> \<not> d dvd n)"

lemma coprime6_divisor: "odd (n :: int) \<Longrightarrow> n mod 3 \<noteq> 0 \<Longrightarrow> d dvd n \<Longrightarrow> odd d \<and> d mod 3 \<noteq> 0"
  by (auto elim: dvd_trans simp: mod_eq_0_iff_dvd)

lemma isPrime_loop_correct:
  assumes "odd n" "n mod 3 \<noteq> 0" "n < 2147117569" "i mod 6 = 5" "i \<le> 46337" "wheel_free n i" "1 < n"
  shows "isPrime_loop n i = Ok (prime_int n)"
  using assms
proof (induction n i rule: isPrime_loop.induct)
  case (1 n i)
  have "int i * int i \<le> 46337 * 46337" using 1(6) by (intro mult_mono) auto
  moreover have "- (2 ^ 31) \<le> int i * int i" by (rule order_trans [of _ 0]) simp_all
  ultimately have ok: "int32_ok (int i * int i)" by (simp add: int32_ok_def)
  have i5: "5 \<le> i" using 1(5) by presburger
  show ?case
  proof (cases "int i * int i \<le> n")
    case False
    have "prime_int n"
    proof (rule ccontr)
      assume "\<not> prime_int n"
      then obtain d where d: "1 < d" "d * d \<le> n" "d dvd n" using small_divisor 1(8) by blast
      then have "d < int i" using False mult_mono [of "int i" d "int i" d] by fastforce
      with d 1(7) show False by (simp add: wheel_free_def)
    qed
    then show ?thesis using False ok by (simp add: isPrime_loop.simps [of n i])
  next
    case True
    have "5 * int i \<le> int i * int i" using i5 by (intro mult_right_mono) auto
    with True i5 have lt: "int i + 2 < n" by linarith
    show ?thesis
    proof (cases "n mod int i = 0 \<or> n mod (int i + 2) = 0")
      case d: True
      then have "int i dvd n \<or> (int i + 2) dvd n" by (simp add: dvd_eq_mod_eq_0)
      moreover have "1 < int i" "int i < n" "1 < int i + 2" using lt i5 by auto
      ultimately have "\<not> prime_int n" using lt unfolding prime_int_def by blast
      then show ?thesis using d True ok by (simp add: isPrime_loop.simps [of n i])
    next
      case d: False
      have "\<not> e dvd n" if "1 < e" "e < int (i + 6)" for e
      proof
        assume e: "e dvd n"
        then have c: "odd e" "e mod 3 \<noteq> 0" using coprime6_divisor [OF 1(2,3) e] by auto
        have "\<not> e < int i" using 1(7) e that(1) by (auto simp: wheel_free_def)
        moreover have "e \<noteq> int i" "e \<noteq> int i + 2" using d e by (auto simp: dvd_eq_mod_eq_0)
        ultimately show False using c that(2) 1(5) by presburger
      qed
      then have wf: "wheel_free n (i + 6)" by (simp add: wheel_free_def)
      have "i \<noteq> 46337" using True 1(4) by auto
      then have "i + 6 \<le> 46337" using 1(5,6) by presburger
      moreover have "(i + 6) mod 6 = 5" using 1(5) by simp
      ultimately have "isPrime_loop n (i + 6) = Ok (prime_int n)"
        using 1(1) [OF _ True d] ok 1(2-4,8) wf by blast
      then show ?thesis using d True ok by (simp add: isPrime_loop.simps [of n i])
    qed
  qed
qed

lemma isPrime_correct:
  assumes "odd n" "n mod 3 \<noteq> 0" "1 < n" "n < 2147117569"
  shows "isPrime n = Ok (prime_int n)"
proof -
  have "\<not> d dvd n" if "1 < d" "d < 5" for d
  proof
    assume "d dvd n"
    with coprime6_divisor [OF assms(1,2)] have "odd d" "d mod 3 \<noteq> 0" by auto
    with that show False by presburger
  qed
  then have "wheel_free n 5" by (simp add: wheel_free_def)
  moreover have "n \<noteq> 2" "n \<noteq> 3" using assms by auto
  ultimately show ?thesis
    using assms isPrime_loop_correct [of n 5] by (simp add: isPrime_def)
qed

lemma prevPrime_loop_correct:
  assumes "odd n" "n mod 3 = (if two then 1 else 2)" "5 \<le> n" "n < 2147117569"
  shows "\<exists>p. prevPrime_loop n two = Ok p \<and> prime_int p \<and> p \<le> n \<and>
    (\<forall>q. prime_int q \<and> q \<le> n \<longrightarrow> q \<le> p)"
  using assms
proof (induction n two rule: prevPrime_loop.induct)
  case (1 n two)
  have ip: "isPrime n = Ok (prime_int n)"
    using 1(2-5) by (intro isPrime_correct) (auto split: if_splits)
  show ?case
  proof (cases "prime_int n")
    case True
    then show ?thesis using ip by (simp add: prevPrime_loop.simps [of n two])
  next
    case False
    let ?n = "n - (if two then 2 else 4)"
    have "\<not> n < 25" using False ip isPrime_small [of n] by auto
    then have "5 \<le> ?n" "?n < 2147117569" "odd ?n" using 1(2,5) by auto
    moreover have "?n mod 3 = (if \<not> two then 1 else 2)" using 1(3) by (cases two) (simp_all, presburger+)
    ultimately have n: "odd ?n" "?n mod 3 = (if \<not> two then 1 else 2)" "5 \<le> ?n" "?n < 2147117569" by blast+
    from 1(1) [OF ip _ n] False obtain p where p: "prevPrime_loop ?n (\<not> two) = Ok p" "prime_int p" "p \<le> ?n"
      "\<And>q. prime_int q \<Longrightarrow> q \<le> ?n \<Longrightarrow> q \<le> p" by blast
    have "q \<le> p" if q: "prime_int q" "q \<le> n" for q
    proof (rule p(4) [OF q(1)])
      show "q \<le> ?n"
      proof (rule ccontr)
        assume "\<not> q \<le> ?n"
        with q False have b: "?n < q" "q < n" "3 < q" using \<open>\<not> n < 25\<close> by (auto simp: order_less_le split: if_splits)
        then have "even q \<or> 3 dvd q" using 1(2,3) by (auto split: if_splits; presburger)
        then show False using q(1) b(3) by (auto simp: prime_int_def)
      qed
    qed
    moreover have "p \<le> n" using p(3) by (auto split: if_splits)
    ultimately show ?thesis using p(1,2) ip False by (auto simp: prevPrime_loop.simps [of n two])
  qed
qed

lemma prevPrime_wheel:
  assumes "n mod 6 = 3 \<or> n mod 6 = 4" "9 \<le> n" "n < 2147117569"
  shows "\<exists>p. prevPrime n = Ok p \<and> prime_int p \<and> p \<le> n \<and> (\<forall>q. prime_int q \<and> q \<le> n \<longrightarrow> q \<le> p)"
proof -
  define m where "m = (if even n then n - 1 else n)"
  have "m mod 6 = 3 \<and> 9 \<le> m \<and> (n = m \<or> n = m + 1)"
  proof (cases "n mod 6 = 3")
    case True
    then have "odd n" by presburger
    with True assms(2) show ?thesis by (simp add: m_def)
  next
    case False
    with assms(1,2) have "even n" "(n - 1) mod 6 = 3" "9 \<le> n - 1" by presburger+
    then show ?thesis by (simp add: m_def)
  qed
  then have m: "m mod 6 = 3" "9 \<le> m" "m \<le> n" "n \<le> m + 1" by auto
  then have "odd (m - 2)" "(m - 2) mod 3 = 1" "m mod 3 = 0" by presburger+
  moreover have "cmod m 3 = 0" using m \<open>m mod 3 = 0\<close> by (simp add: cmod_def)
  ultimately have e: "prevPrime n = prevPrime_loop (m - 2) True"
    using m assms(3) by (simp add: prevPrime_def Let_def flip: m_def)
  have "\<exists>p. prevPrime_loop (m - 2) True = Ok p \<and> prime_int p \<and> p \<le> m - 2 \<and>
      (\<forall>q. prime_int q \<and> q \<le> m - 2 \<longrightarrow> q \<le> p)"
    using \<open>odd (m - 2)\<close> \<open>(m - 2) mod 3 = 1\<close> m assms(3) by (intro prevPrime_loop_correct) auto
  then obtain p where p: "prevPrime_loop (m - 2) True = Ok p" "prime_int p" "p \<le> m - 2"
    "\<And>q. prime_int q \<Longrightarrow> q \<le> m - 2 \<Longrightarrow> q \<le> p" by blast
  have "q \<le> p" if "prime_int q" "q \<le> n" for q
  proof (rule p(4) [OF that(1)], rule ccontr)
    assume "\<not> q \<le> m - 2"
    with that(2) m have b: "q = m - 1 \<or> q = m \<or> q = m + 1" "3 < q" by linarith+
    then have "even q \<or> 3 dvd q" using m(1) by presburger
    then show False using that(1) b(2) by (auto simp: prime_int_def)
  qed
  with p e m(3) show ?thesis by force
qed

section \<open>Logarithms\<close>

lemma and_field:
  "(w AND push_bit k (mask k) = 0) = (take_bit k (drop_bit k w) = 0)" for w :: "'a::len word"
proof -
  have "w AND push_bit k (mask k) = push_bit k (take_bit k (drop_bit k w))"
    by (rule bit_word_eqI)
      (auto simp: bit_and_iff bit_push_bit_iff bit_mask_iff bit_take_bit_iff bit_drop_bit_eq)
  moreover have "push_bit k (take_bit k (drop_bit k w)) = 0 \<longleftrightarrow> take_bit k (drop_bit k w) = 0"
  proof
    assume z: "push_bit k (take_bit k (drop_bit k w)) = 0"
    show "take_bit k (drop_bit k w) = 0"
    proof (rule bit_word_eqI)
      fix n
      have "\<not> bit (push_bit k (take_bit k (drop_bit k w))) (k + n)" using z by simp
      then show "bit (take_bit k (drop_bit k w)) n = bit 0 n"
        using bit_imp_le_length [of w "k + n"]
        by (auto simp: bit_push_bit_iff bit_take_bit_iff bit_drop_bit_eq)
    qed
  qed simp
  ultimately show ?thesis by simp
qed

lemma msb_step_and:
  assumes "msb_inv v (2 * k) nv" "m = push_bit k (mask k)"
  shows "msb_inv v k (search_step (snd nv AND m \<noteq> 0) k nv)"
proof (rule msb_step [OF assms(1)])
  have "take_bit k (drop_bit k (snd nv)) = drop_bit k (snd nv)"
    using assms(1) by (simp add: msb_inv_def take_bit_drop_bit mult_2)
  then show "(snd nv AND m \<noteq> 0) = (drop_bit k (snd nv) \<noteq> 0)" by (simp add: assms(2) and_field)
qed

lemma floorLog2_64_msb: "0 < x \<Longrightarrow> \<exists>y. floorLog2_64 x = Ok y \<and> drop_bit y x = 1"
proof -
  assume "0 < x"
  let ?a = "search_step (x AND 0xffffffff00000000 \<noteq> 0) 32 (0, x)"
  let ?b = "search_step (snd ?a AND 0xffff0000 \<noteq> 0) 16 ?a"
  let ?c = "search_step (snd ?b AND 0xff00 \<noteq> 0) 8 ?b"
  let ?d = "search_step (snd ?c AND 0xf0 \<noteq> 0) 4 ?c"
  let ?e = "search_step (snd ?d AND 0xc \<noteq> 0) 2 ?d"
  let ?f = "search_step (snd ?e AND 2 \<noteq> 0) 1 ?e"
  have "msb_inv x (2 * 32) (0, x)" using \<open>0 < x\<close> by (simp add: msb_inv_def take_bit_u64)
  from msb_step_and [OF this, of "0xffffffff00000000"] have "msb_inv x (2 * 16) ?a"
    by (simp add: mask_eq_exp_minus_1)
  from msb_step_and [OF this, of "0xffff0000"] have "msb_inv x (2 * 8) ?b" by (simp add: mask_eq_exp_minus_1)
  from msb_step_and [OF this, of "0xff00"] have "msb_inv x (2 * 4) ?c" by (simp add: mask_eq_exp_minus_1)
  from msb_step_and [OF this, of "0xf0"] have "msb_inv x (2 * 2) ?d" by (simp add: mask_eq_exp_minus_1)
  from msb_step_and [OF this, of "0xc"] have "msb_inv x (2 * 1) ?e" by (simp add: mask_eq_exp_minus_1)
  from msb_step_and [OF this, of "2"] have "msb_inv x 1 ?f" by (simp add: mask_eq_exp_minus_1)
  moreover have "floorLog2_64 x = Ok (fst ?f)"
    unfolding floorLog2_64_def Let_def fst_search_step snd_conv using \<open>0 < x\<close> by (simp only: assertR_simps bindR.simps)
  ultimately show ?thesis using msb_last by blast
qed

lemma floorLog2_32_msb: "0 < x \<Longrightarrow> \<exists>y. floorLog2_32 x = Ok y \<and> drop_bit y x = 1"
proof -
  assume "0 < x"
  let ?b = "search_step (x AND 0xffff0000 \<noteq> 0) 16 (0, x)"
  let ?c = "search_step (snd ?b AND 0xff00 \<noteq> 0) 8 ?b"
  let ?d = "search_step (snd ?c AND 0xf0 \<noteq> 0) 4 ?c"
  let ?e = "search_step (snd ?d AND 0xc \<noteq> 0) 2 ?d"
  let ?f = "search_step (snd ?e AND 2 \<noteq> 0) 1 ?e"
  have "take_bit 32 x = x" by (rule bit_word_eqI) (auto simp: bit_take_bit_iff)
  then have "msb_inv x (2 * 16) (0, x)" using \<open>0 < x\<close> by (simp add: msb_inv_def)
  from msb_step_and [OF this, of "0xffff0000"] have "msb_inv x (2 * 8) ?b" by (simp add: mask_eq_exp_minus_1)
  from msb_step_and [OF this, of "0xff00"] have "msb_inv x (2 * 4) ?c" by (simp add: mask_eq_exp_minus_1)
  from msb_step_and [OF this, of "0xf0"] have "msb_inv x (2 * 2) ?d" by (simp add: mask_eq_exp_minus_1)
  from msb_step_and [OF this, of "0xc"] have "msb_inv x (2 * 1) ?e" by (simp add: mask_eq_exp_minus_1)
  from msb_step_and [OF this, of "2"] have "msb_inv x 1 ?f" by (simp add: mask_eq_exp_minus_1)
  moreover have "floorLog2_32 x = Ok (fst ?f)"
    unfolding floorLog2_32_def Let_def fst_search_step snd_conv using \<open>0 < x\<close> by (simp only: assertR_simps bindR.simps)
  ultimately show ?thesis using msb_last by blast
qed

lemma drop_bit_1_log:
  assumes "drop_bit y (x :: u64) = 1"
  shows "2 ^ y \<le> unat x" "unat x < 2 ^ Suc y"
proof -
  have "unat x div 2 ^ y = 1"
    using arg_cong [where f = unat, OF assms] unfolding unat_drop_bit_eq by (simp add: drop_bit_eq_div)
  then have "1 \<le> unat x div 2 ^ y" "unat x div 2 ^ y < 2" by auto
  then show "2 ^ y \<le> unat x" "unat x < 2 ^ Suc y"
    by (auto simp: less_eq_div_iff_mult_less_eq div_less_iff_less_mult)
qed

lemma floorLog2_64_log: "0 < x \<Longrightarrow> \<exists>y. floorLog2_64 x = Ok y \<and> 2 ^ y \<le> unat x \<and> unat x < 2 ^ Suc y"
  using floorLog2_64_msb drop_bit_1_log by blast

lemma leastSigBit_findLsbSet:
  assumes "n \<noteq> 0"
  shows "leastSigBit n = 2 ^ findLsbSet n"
proof -
  let ?k = "findLsbSet n"
  have t: "take_bit ?k n = 0" "bit n ?k" by (rule lsb_search [OF assms])+
  have k: "?k < 64" using bit_imp_le_length [OF t(2)] by simp
  define m where "m = drop_bit (Suc ?k) n"
  have n: "n = push_bit (Suc ?k) m OR 2 ^ ?k"
  proof (rule bit_word_eqI)
    fix i
    have "\<not> bit (take_bit ?k n) i" using t(1) by simp
    then show "bit n i = bit (push_bit (Suc ?k) m OR 2 ^ ?k) i" if "i < LENGTH(64)"
      using t(2) that by (auto simp: m_def bit_or_iff bit_push_bit_iff bit_drop_bit_eq bit_exp_iff bit_take_bit_iff
          not_less le_less_Suc_eq simp del: push_bit_Suc)
  qed
  have "n = push_bit (Suc ?k) m + 2 ^ ?k"
    by (subst n, rule disjunctive_add [symmetric]) (auto simp: bit_push_bit_iff bit_exp_iff simp del: push_bit_Suc)
  then have "n - 1 = push_bit (Suc ?k) m + mask ?k" by (simp add: mask_eq_exp_minus_1 del: push_bit_Suc)
  also have "\<dots> = push_bit (Suc ?k) m OR mask ?k"
    by (rule disjunctive_add) (auto simp: bit_push_bit_iff bit_mask_iff simp del: push_bit_Suc)
  finally have p: "n - 1 = push_bit (Suc ?k) m OR mask ?k" .
  show ?thesis unfolding leastSigBit_def p
    by (subst (1) n, rule bit_word_eqI)
      (auto simp: bit_and_iff bit_or_iff bit_not_iff bit_push_bit_iff bit_exp_iff bit_mask_iff
        simp del: push_bit_Suc)
qed

lemma isPowerOf2_iff: "isPowerOf2 n \<longleftrightarrow> (\<exists>k<64. n = 2 ^ k)"
proof
  assume "isPowerOf2 n"
  then have "n \<noteq> 0" "n = 2 ^ findLsbSet n" by (auto simp: isPowerOf2_def leastSigBit_findLsbSet)
  moreover have "findLsbSet n < 64"
    using lsb_search(2) [OF \<open>n \<noteq> 0\<close>] bit_imp_le_length by fastforce
  ultimately show "\<exists>k<64. n = 2 ^ k" by blast
next
  assume "\<exists>k<64. n = 2 ^ k"
  then obtain k where k: "k < 64" "n = 2 ^ k" by blast
  then have "unat n = 2 ^ k" by (simp add: unat_2p_u64)
  then have "n \<noteq> 0" by auto
  have "bit n (findLsbSet n)" by (rule lsb_search(2) [OF \<open>n \<noteq> 0\<close>])
  then have "findLsbSet n = k" using k by (simp add: bit_exp_iff)
  then show "isPowerOf2 n" using \<open>n \<noteq> 0\<close> k(2) by (simp add: isPowerOf2_def leastSigBit_findLsbSet)
qed

lemma roundDown_push_drop: "k < 64 \<Longrightarrow> roundDown v (2 ^ k) = push_bit k (drop_bit k v)"
proof -
  have "v AND NOT (mask k) = push_bit k (drop_bit k v)"
    by (rule bit_word_eqI) (auto simp: bit_and_iff bit_not_iff bit_mask_iff bit_push_bit_iff bit_drop_bit_eq)
  then show ?thesis by (simp add: roundDown_def Let_def mask_eq_exp_minus_1)
qed

lemma unat_roundDown: "k < 64 \<Longrightarrow> unat (roundDown v (2 ^ k)) = unat v div 2 ^ k * 2 ^ k"
proof -
  assume "k < 64"
  have "unat v div 2 ^ k * 2 ^ k \<le> unat v" by (rule div_times_less_eq_dividend)
  then have "unat v div 2 ^ k * 2 ^ k < 2 ^ 64" using unat_less_u64 [of v] by linarith
  then have "take_bit 64 (push_bit k (drop_bit k (unat v))) = unat v div 2 ^ k * 2 ^ k"
    by (simp add: push_bit_eq_mult drop_bit_eq_div take_bit_nat_eq_self)
  then show ?thesis using \<open>k < 64\<close>
    by (simp add: roundDown_push_drop unsigned_push_bit_eq unat_drop_bit_eq take_bit_push_bit)
qed

section \<open>Properties\<close>

text \<open>On every positive 64-bit value \<^verbatim>\<open>floorLog2\<close> and \<^verbatim>\<open>ceilLog2\<close> return the floor and the ceiling of
  its binary logarithm.\<close>

theorem log2_correct:
  assumes "0 < n"
  shows "\<exists>f c. floorLog2_64 n = Ok f \<and> 2 ^ f \<le> unat n \<and> unat n < 2 ^ Suc f \<and>
    ceilLog2 n = Ok c \<and> unat n \<le> 2 ^ c \<and> (\<forall>j. unat n \<le> 2 ^ j \<longrightarrow> c \<le> j)"
proof -
  obtain f where f: "floorLog2_64 n = Ok f" "2 ^ f \<le> unat n" "unat n < 2 ^ Suc f"
    using floorLog2_64_log [OF assms] by blast
  have "\<exists>c. ceilLog2 n = Ok c \<and> unat n \<le> 2 ^ c \<and> (\<forall>j. unat n \<le> 2 ^ j \<longrightarrow> c \<le> j)"
  proof (cases "n = 1")
    case False
    have u: "unat (n - 1) = unat n - 1" "0 < unat n" using assms by (auto simp: unat_minus_one unat_gt_0)
    have "0 < n - 1" using False by (simp add: word_neq_0_conv [symmetric])
    then obtain y where y: "floorLog2_64 (n - 1) = Ok y" "2 ^ y \<le> unat (n - 1)" "unat (n - 1) < 2 ^ Suc y"
      using floorLog2_64_log by blast
    have "Suc y \<le> j" if "unat n \<le> 2 ^ j" for j
    proof -
      have "2 ^ y < (2 ^ j :: nat)" using that y(2) u by linarith
      then show ?thesis using power_less_imp_less_exp [of 2 y j] by simp
    qed
    moreover have "unat n \<le> 2 ^ Suc y" using y(3) u by linarith
    ultimately show ?thesis using y(1) False by (intro exI [of _ "Suc y"]) (simp add: ceilLog2_def)
  qed (auto simp: ceilLog2_def)
  with f show ?thesis by blast
qed

theorem log2_correct_witness:
  "\<exists>f. floorLog2_64 1000 = Ok f \<and> 2 ^ f \<le> unat (1000 :: u64) \<and> unat (1000 :: u64) < 2 ^ Suc f"
  using log2_correct [of 1000] by auto

text \<open>Rounding to a power of two gives the nearest multiple below, and the nearest multiple above
  when the sum does not leave the 64-bit range.\<close>

theorem round_power_of_2:
  assumes "k < 64"
  shows "unat (roundDown v (2 ^ k)) = unat v div 2 ^ k * 2 ^ k \<and>
    (unat v + (2 ^ k - 1) < 2 ^ 64 \<longrightarrow>
       unat (roundUp v (2 ^ k)) = (unat v + (2 ^ k - 1)) div 2 ^ k * 2 ^ k)"
proof (intro conjI impI)
  show "unat (roundDown v (2 ^ k)) = unat v div 2 ^ k * 2 ^ k" by (rule unat_roundDown [OF assms])
  assume "unat v + (2 ^ k - 1) < 2 ^ 64"
  moreover have "unat (2 ^ k - 1 :: u64) = 2 ^ k - 1"
  proof -
    have "(2 ^ k :: u64) \<noteq> 0" using unat_2p_u64 [OF assms] by (metis power_not_zero unsigned_0 zero_neq_numeral)
    then show ?thesis using unat_2p_u64 [OF assms] by (simp add: unat_minus_one)
  qed
  ultimately have "unat (v + (2 ^ k - 1)) = unat v + (2 ^ k - 1)" by (simp add: unat_word_ariths)
  moreover have "roundUp v (2 ^ k) = roundDown (v + (2 ^ k - 1)) (2 ^ k)"
    by (simp add: roundUp_def roundDown_def Let_def)
  ultimately show "unat (roundUp v (2 ^ k)) = (unat v + (2 ^ k - 1)) div 2 ^ k * 2 ^ k"
    using unat_roundDown [OF assms] by simp
qed

theorem round_power_of_2_witness: "unat (roundDown 100 (2 ^ 6)) = 64 \<and> unat (roundUp 100 (2 ^ 6)) = 128"
  using round_power_of_2 [of 6 100] by simp

text \<open>When the candidate \<^verbatim>\<open>prevPrime\<close> starts from is a multiple of 3, it returns the largest prime
  not above its argument, for every argument whose square root computation stays in range.\<close>

theorem prevPrime_largest:
  assumes "n mod 6 = 3 \<or> n mod 6 = 4" "9 \<le> n" "n < 2147117569"
  shows "\<exists>p. prevPrime n = Ok p \<and> prime_int p \<and> p \<le> n \<and> (\<forall>q. prime_int q \<and> q \<le> n \<longrightarrow> q \<le> p)"
  by (rule prevPrime_wheel [OF assms])

theorem prevPrime_largest_witness:
  "\<exists>p. prevPrime 1000000 = Ok p \<and> prime_int p \<and> p \<le> 1000000"
proof -
  have "(1000000 :: int) mod 6 = 4" by simp
  then show ?thesis using prevPrime_largest [of 1000000] by auto
qed

text \<open>On the other arguments the decrement starts on the wrong foot and the search can return a
  multiple of 3: the comment of the declaration promises a prime.\<close>

theorem prevPrime_composite: "prevPrime 25 = Ok 21 \<and> prevPrime 35 = Ok 33 \<and> isPrime 4 = Ok True"
proof -
  have "isPrime 25 = Ok False" "isPrime 35 = Ok False"
    by (simp_all add: isPrime_def isPrime_loop.simps [of 25] isPrime_loop.simps [of 35] int32_ok_def)
  moreover have "isPrime 33 = Ok True"
    by (simp add: isPrime_def isPrime_loop.simps [of 33 5] isPrime_loop.simps [of 33 11] int32_ok_def)
  moreover have "isPrime 21 = Ok True" "isPrime 4 = Ok True" by (rule isPrime_small; simp)+
  ultimately show ?thesis
    by (simp add: prevPrime_def cmod_def Let_def intR_def int32_ok_def prevPrime_loop.simps [of 25]
        prevPrime_loop.simps [of 21] prevPrime_loop.simps [of 35] prevPrime_loop.simps [of 33])
qed

end
