(* ===== verification/Event_Queue.thy ===== *)
theory Event_Queue
  imports Base_Flags "HOL-Library.Product_Lexorder"
begin

text \<open>
  \<^verbatim>\<open>sim/eventq.hh\<close>, \<^verbatim>\<open>sim/eventq_impl.hh\<close> and \<^verbatim>\<open>sim/eventq.cc\<close>: the event queue that drives the
  simulation, a linked list of bins (one per time and priority) of linked stacks of events. The
  events live in an explicit store from addresses to objects, in which a deleted event is
  \<open>None\<close>, so that the intrusive pointers, their aliasing and the stale \<^verbatim>\<open>nextBin\<close> pointers of the
  source are those of the model. A loop over a pointer chain takes fuel; on a well-formed queue the number
  of queued events is enough. The queue's mutexes serialise its operations, which are atomic here.
\<close>

section \<open>Events\<close>

record Event =
  nextBin :: "nat option"
  nextInBin :: "nat option"
  ev_when :: Tick
  ev_priority :: i8
  ev_flags :: u16
  ev_queue :: "nat option"

definition PublicRead :: u16 where "PublicRead = 0x003f"
definition PublicWrite :: u16 where "PublicWrite = 0x001d"
definition Squashed :: u16 where "Squashed = 0x0001"
definition Scheduled :: u16 where "Scheduled = 0x0002"
definition Managed :: u16 where "Managed = 0x0004"
definition IsExitEvent :: u16 where "IsExitEvent = 0x0010"
definition IsMainQueue :: u16 where "IsMainQueue = 0x0020"
definition Initialized :: u16 where "Initialized = 0x7a40"
definition InitMask :: u16 where "InitMask = 0xffc0"

lemmas event_flag_defs = PublicRead_def PublicWrite_def Squashed_def Scheduled_def Managed_def IsExitEvent_def
  IsMainQueue_def Initialized_def InitMask_def

definition new_Event :: "i8 \<Rightarrow> u16 \<Rightarrow> Event result" where
  "new_Event p f =
     bindR (assertR (flags_noneSet f (NOT PublicWrite)) AssertFail) (\<lambda>_.
       Ok \<lparr>nextBin = None, nextInBin = None, ev_when = 0, ev_priority = p, ev_flags = Initialized OR f,
           ev_queue = None\<rparr>)"

definition ev_initialized :: "Event \<Rightarrow> bool" where
  "ev_initialized e \<longleftrightarrow> ev_flags e AND InitMask = Initialized"
definition ev_scheduled :: "Event \<Rightarrow> bool" where "ev_scheduled e = flags_isSet (ev_flags e) Scheduled"
definition ev_squashed :: "Event \<Rightarrow> bool" where "ev_squashed e = flags_isSet (ev_flags e) Squashed"
definition ev_squash :: "Event \<Rightarrow> Event" where "ev_squash e = e\<lparr>ev_flags := flags_set (ev_flags e) Squashed\<rparr>"
definition ev_isExitEvent :: "Event \<Rightarrow> bool" where "ev_isExitEvent e = flags_isSet (ev_flags e) IsExitEvent"
definition ev_isManaged :: "Event \<Rightarrow> bool" where "ev_isManaged e = flags_isSet (ev_flags e) Managed"
definition ev_setWhen :: "Tick \<Rightarrow> nat \<Rightarrow> Event \<Rightarrow> Event" where
  "ev_setWhen w q e = e\<lparr>ev_when := w, ev_queue := Some q\<rparr>"

text \<open>The comparison operators: by time, then by signed priority.\<close>

definition ev_less :: "Event \<Rightarrow> Event \<Rightarrow> bool" where
  "ev_less l r \<longleftrightarrow> ev_when l < ev_when r \<or> (ev_when l = ev_when r \<and> sint (ev_priority l) < sint (ev_priority r))"

definition ev_le :: "Event \<Rightarrow> Event \<Rightarrow> bool" where
  "ev_le l r \<longleftrightarrow> ev_when l < ev_when r \<or> (ev_when l = ev_when r \<and> sint (ev_priority l) \<le> sint (ev_priority r))"

definition ev_eq :: "Event \<Rightarrow> Event \<Rightarrow> bool" where
  "ev_eq l r \<longleftrightarrow> ev_when l = ev_when r \<and> ev_priority l = ev_priority r"

type_synonym store = "nat \<Rightarrow> Event option"

definition deref :: "store \<Rightarrow> nat \<Rightarrow> Event result" where
  "deref h p = (case h p of None \<Rightarrow> Error UseAfterFree | Some e \<Rightarrow> Ok e)"

definition deref_ptr :: "store \<Rightarrow> nat option \<Rightarrow> Event result" where
  "deref_ptr h p = (case p of None \<Rightarrow> Error NullDeref | Some a \<Rightarrow> deref h a)"

definition update_event :: "nat \<Rightarrow> (Event \<Rightarrow> Event) \<Rightarrow> store \<Rightarrow> store result" where
  "update_event p f h = bindR (deref h p) (\<lambda>e. Ok (h(p \<mapsto> f e)))"

section \<open>The queue\<close>

record EventQueue =
  eq_self :: nat
  eq_store :: store
  eq_head :: "nat option"
  eq_curTick :: Tick
  eq_async :: "nat list"

definition new_EventQueue :: "nat \<Rightarrow> store \<Rightarrow> EventQueue" where
  "new_EventQueue self h = \<lparr>eq_self = self, eq_store = h, eq_head = None, eq_curTick = 0, eq_async = []\<rparr>"

text \<open>\<^verbatim>\<open>Event::insertBefore\<close>; the new top of the bin is the event itself.\<close>

definition insertBefore :: "nat \<Rightarrow> nat option \<Rightarrow> store \<Rightarrow> store result" where
  "insertBefore event cptr h =
     bindR (deref h event) (\<lambda>e.
     (case cptr of None \<Rightarrow> Ok (h(event \<mapsto> e\<lparr>nextBin := None, nextInBin := None\<rparr>))
      | Some c \<Rightarrow> bindR (deref h c) (\<lambda>ce.
          if ev_less e ce then Ok (h(event \<mapsto> e\<lparr>nextBin := cptr, nextInBin := None\<rparr>))
          else Ok (h(event \<mapsto> e\<lparr>nextBin := nextBin ce, nextInBin := cptr\<rparr>)))))"

text \<open>The walk \<^verbatim>\<open>while (curr && *curr < *event)\<close>, from \<open>prev\<close>; running out of fuel is \<open>None\<close>.\<close>

fun find_bin :: "nat \<Rightarrow> store \<Rightarrow> Event \<Rightarrow> nat \<Rightarrow> nat option \<Rightarrow> (nat \<times> nat option) option result" where
  "find_bin 0 h e prev cptr = Ok None"
| "find_bin (Suc n) h e prev cptr =
     (case cptr of None \<Rightarrow> Ok (Some (prev, None))
      | Some c \<Rightarrow> bindR (deref h c) (\<lambda>ce.
          if ev_less ce e then find_bin n h e c (nextBin ce) else Ok (Some (prev, cptr))))"

definition out_of_fuel :: "'a option result \<Rightarrow> ('a \<Rightarrow> 'b option result) \<Rightarrow> 'b option result" where
  "out_of_fuel m f = bindR m (\<lambda>x. case x of None \<Rightarrow> Ok None | Some y \<Rightarrow> f y)"

definition eq_insert :: "nat \<Rightarrow> nat \<Rightarrow> EventQueue \<Rightarrow> EventQueue option result" where
  "eq_insert fuel event q =
     (let h = eq_store q in
      bindR (deref h event) (\<lambda>e.
      case eq_head q of
        None \<Rightarrow> bindR (insertBefore event None h) (\<lambda>h. Ok (Some (q\<lparr>eq_store := h, eq_head := Some event\<rparr>)))
      | Some hp \<Rightarrow> bindR (deref h hp) (\<lambda>he.
          if ev_le e he
          then bindR (insertBefore event (Some hp) h) (\<lambda>h. Ok (Some (q\<lparr>eq_store := h, eq_head := Some event\<rparr>)))
          else out_of_fuel (find_bin fuel h e hp (nextBin he)) (\<lambda>(prev, cptr).
            bindR (insertBefore event cptr h) (\<lambda>h.
            bindR (update_event prev (\<lambda>pe. pe\<lparr>nextBin := Some event\<rparr>) h) (\<lambda>h.
              Ok (Some (q\<lparr>eq_store := h\<rparr>))))))))"

text \<open>The walk down a bin for an event that is not its top.\<close>

fun unlink_in_bin :: "nat \<Rightarrow> nat \<Rightarrow> nat \<Rightarrow> nat option \<Rightarrow> store \<Rightarrow> store option result" where
  "unlink_in_bin 0 event cptr next h = Ok None"
| "unlink_in_bin (Suc n) event cptr next h =
     (case next of None \<Rightarrow> Error Panic
      | Some x \<Rightarrow> bindR (deref h x) (\<lambda>xe.
          if x = event
          then bindR (update_event cptr (\<lambda>ce. ce\<lparr>nextInBin := nextInBin xe\<rparr>) h) (\<lambda>h. Ok (Some h))
          else unlink_in_bin n event x (nextInBin xe) h))"

text \<open>\<^verbatim>\<open>Event::removeItem\<close> returns the new top of the bin.\<close>

definition removeItem :: "nat \<Rightarrow> nat \<Rightarrow> nat \<Rightarrow> store \<Rightarrow> (store \<times> nat option) option result" where
  "removeItem fuel event tp h =
     bindR (deref h tp) (\<lambda>te.
       if event = tp
       then (case nextInBin te of None \<Rightarrow> Ok (Some (h, nextBin te))
             | Some n \<Rightarrow> bindR (update_event n (\<lambda>ne. ne\<lparr>nextBin := nextBin te\<rparr>) h) (\<lambda>h. Ok (Some (h, Some n))))
       else out_of_fuel (unlink_in_bin fuel event tp (nextInBin te) h) (\<lambda>h. Ok (Some (h, Some tp))))"

definition eq_remove :: "nat \<Rightarrow> nat \<Rightarrow> EventQueue \<Rightarrow> EventQueue option result" where
  "eq_remove fuel event q =
     (let h = eq_store q in
      case eq_head q of None \<Rightarrow> Error Panic
      | Some hp \<Rightarrow>
          bindR (deref h event) (\<lambda>e.
          bindR (assertR (ev_queue e = Some (eq_self q)) AssertFail) (\<lambda>_.
          bindR (deref h hp) (\<lambda>he.
            if ev_eq he e
            then out_of_fuel (removeItem fuel event hp h) (\<lambda>(h, tp). Ok (Some (q\<lparr>eq_store := h, eq_head := tp\<rparr>)))
            else out_of_fuel (find_bin fuel h e hp (nextBin he)) (\<lambda>(prev, cptr).
              case cptr of None \<Rightarrow> Error Panic
              | Some c \<Rightarrow> bindR (deref h c) (\<lambda>ce.
                  if \<not> ev_eq ce e then Error Panic
                  else out_of_fuel (removeItem fuel event c h) (\<lambda>(h, tp).
                    bindR (update_event prev (\<lambda>pe. pe\<lparr>nextBin := tp\<rparr>) h) (\<lambda>h.
                      Ok (Some (q\<lparr>eq_store := h\<rparr>))))))))))"

text \<open>\<^verbatim>\<open>release\<close> of a managed event deletes it once it is no longer scheduled.\<close>

definition ev_release :: "nat \<Rightarrow> EventQueue \<Rightarrow> EventQueue result" where
  "ev_release event q =
     bindR (deref (eq_store q) event) (\<lambda>e.
       if ev_isManaged e \<and> \<not> ev_scheduled e then Ok (q\<lparr>eq_store := (eq_store q)(event := None)\<rparr>) else Ok q)"

definition asyncInsert :: "nat \<Rightarrow> EventQueue \<Rightarrow> EventQueue" where
  "asyncInsert event q = q\<lparr>eq_async := eq_async q @ [event]\<rparr>"

text \<open>\<open>par\<close> is \<^verbatim>\<open>inParallelMode\<close>, \<open>cur\<close> is \<^verbatim>\<open>curEventQueue()\<close>.\<close>

definition eq_schedule :: "bool \<Rightarrow> nat \<Rightarrow> nat \<Rightarrow> nat \<Rightarrow> Tick \<Rightarrow> bool \<Rightarrow> EventQueue \<Rightarrow> EventQueue option result" where
  "eq_schedule par cur fuel event w global q =
     bindR (assertR (w \<ge> eq_curTick q) AssertFail) (\<lambda>_.
     bindR (deref (eq_store q) event) (\<lambda>e.
     bindR (assertR (\<not> ev_scheduled e) AssertFail) (\<lambda>_.
     bindR (assertR (ev_initialized e) AssertFail) (\<lambda>_.
     bindR (update_event event (ev_setWhen w (eq_self q)) (eq_store q)) (\<lambda>h.
       let q = q\<lparr>eq_store := h\<rparr> in
       out_of_fuel (if par \<and> (eq_self q \<noteq> cur \<or> global) then Ok (Some (asyncInsert event q))
                    else eq_insert fuel event q) (\<lambda>q.
       bindR (update_event event (\<lambda>e. e\<lparr>ev_flags := flags_set (ev_flags e) Scheduled\<rparr>) (eq_store q)) (\<lambda>h.
         Ok (Some (q\<lparr>eq_store := h\<rparr>)))))))))"

definition eq_deschedule :: "bool \<Rightarrow> nat \<Rightarrow> nat \<Rightarrow> nat \<Rightarrow> EventQueue \<Rightarrow> EventQueue option result" where
  "eq_deschedule par cur fuel event q =
     bindR (deref (eq_store q) event) (\<lambda>e.
     bindR (assertR (ev_scheduled e) AssertFail) (\<lambda>_.
     bindR (assertR (ev_initialized e) AssertFail) (\<lambda>_.
     bindR (assertR (\<not> par \<or> eq_self q = cur) AssertFail) (\<lambda>_.
     out_of_fuel (eq_remove fuel event q) (\<lambda>q.
     bindR (update_event event (\<lambda>e. e\<lparr>ev_flags := flags_clear (flags_clear (ev_flags e) Squashed) Scheduled\<rparr>) (eq_store q))
       (\<lambda>h. bindR (ev_release event (q\<lparr>eq_store := h\<rparr>)) (\<lambda>q. Ok (Some q))))))))"

definition eq_reschedule :: "bool \<Rightarrow> nat \<Rightarrow> nat \<Rightarrow> nat \<Rightarrow> Tick \<Rightarrow> bool \<Rightarrow> EventQueue \<Rightarrow> EventQueue option result" where
  "eq_reschedule par cur fuel event w always q =
     bindR (assertR (w \<ge> eq_curTick q) AssertFail) (\<lambda>_.
     bindR (deref (eq_store q) event) (\<lambda>e.
     bindR (assertR (always \<or> ev_scheduled e) AssertFail) (\<lambda>_.
     bindR (assertR (ev_initialized e) AssertFail) (\<lambda>_.
     bindR (assertR (\<not> par \<or> eq_self q = cur) AssertFail) (\<lambda>_.
     out_of_fuel (if ev_scheduled e then eq_remove fuel event q else Ok (Some q)) (\<lambda>q.
     bindR (update_event event (ev_setWhen w (eq_self q)) (eq_store q)) (\<lambda>h.
     out_of_fuel (eq_insert fuel event (q\<lparr>eq_store := h\<rparr>)) (\<lambda>q.
     bindR (update_event event (\<lambda>e. e\<lparr>ev_flags := flags_set (flags_clear (ev_flags e) Squashed) Scheduled\<rparr>) (eq_store q))
       (\<lambda>h. Ok (Some (q\<lparr>eq_store := h\<rparr>)))))))))))"

text \<open>The part of \<^verbatim>\<open>serviceOne\<close> that takes the first event off the queue.\<close>

definition pop_head :: "EventQueue \<Rightarrow> (nat \<times> EventQueue) result" where
  "pop_head q =
     (case eq_head q of None \<Rightarrow> Error NullDeref
      | Some event \<Rightarrow>
          bindR (deref (eq_store q) event) (\<lambda>e.
          bindR (update_event event (\<lambda>e. e\<lparr>ev_flags := flags_clear (ev_flags e) Scheduled\<rparr>) (eq_store q)) (\<lambda>h.
          case nextInBin e of
            Some n \<Rightarrow> bindR (update_event n (\<lambda>ne. ne\<lparr>nextBin := nextBin e\<rparr>) h) (\<lambda>h.
              Ok (event, q\<lparr>eq_store := h, eq_head := Some n\<rparr>))
          | None \<Rightarrow> Ok (event, q\<lparr>eq_store := h, eq_head := nextBin e\<rparr>))))"

text \<open>
  \<^verbatim>\<open>serviceOne\<close>; the virtual method \<^verbatim>\<open>process\<close> of the event is an argument, and acts on the rest of the
  simulator \<open>'w\<close> and on the queue. The result is the exit event, if it was one.
\<close>

definition serviceOne ::
  "(nat \<Rightarrow> 'w \<times> EventQueue \<Rightarrow> ('w \<times> EventQueue) result) \<Rightarrow> 'w \<times> EventQueue \<Rightarrow>
     (nat option \<times> 'w \<times> EventQueue) result" where
  "serviceOne process wq = (case wq of (w, q) \<Rightarrow>
     bindR (pop_head q) (\<lambda>(event, q).
     bindR (deref (eq_store q) event) (\<lambda>e.
       if \<not> ev_squashed e
       then bindR (process event (w, q\<lparr>eq_curTick := ev_when e\<rparr>)) (\<lambda>(w, q).
            bindR (deref (eq_store q) event) (\<lambda>e.
              if ev_isExitEvent e
              then bindR (assertR (\<not> ev_isManaged e \<or> \<not> flags_isSet (ev_flags e) IsMainQueue) AssertFail)
                     (\<lambda>_. Ok (Some event, w, q))
              else bindR (ev_release event q) (\<lambda>q. Ok (None, w, q))))
       else bindR (update_event event (\<lambda>e. e\<lparr>ev_flags := flags_clear (ev_flags e) Squashed\<rparr>) (eq_store q)) (\<lambda>h.
            bindR (ev_release event (q\<lparr>eq_store := h\<rparr>)) (\<lambda>q. Ok (None, w, q))))))"

definition eq_nextTick :: "EventQueue \<Rightarrow> Tick result" where
  "eq_nextTick q = bindR (deref_ptr (eq_store q) (eq_head q)) (\<lambda>e. Ok (ev_when e))"

text \<open>\<^verbatim>\<open>serviceEvents\<close> with fuel: events may schedule further events for ever.\<close>

fun serviceEvents ::
  "nat \<Rightarrow> (nat \<Rightarrow> 'w \<times> EventQueue \<Rightarrow> ('w \<times> EventQueue) result) \<Rightarrow> Tick \<Rightarrow> 'w \<times> EventQueue \<Rightarrow>
     ('w \<times> EventQueue) option result" where
  "serviceEvents 0 process w wq = Ok None"
| "serviceEvents (Suc n) process w wq =
     (if eq_head (snd wq) = None then Ok (Some (fst wq, (snd wq)\<lparr>eq_curTick := w\<rparr>))
      else bindR (eq_nextTick (snd wq)) (\<lambda>t.
        if t > w then Ok (Some (fst wq, (snd wq)\<lparr>eq_curTick := w\<rparr>))
        else bindR (serviceOne process wq) (\<lambda>(_, wq). serviceEvents n process w wq)))"

definition handleAsyncInsertions :: "nat \<Rightarrow> nat \<Rightarrow> EventQueue \<Rightarrow> EventQueue option result" where
  "handleAsyncInsertions cur fuel q =
     bindR (assertR (eq_self q = cur) AssertFail) (\<lambda>_.
     out_of_fuel (foldM (\<lambda>event mq. out_of_fuel (Ok mq) (eq_insert fuel event)) (eq_async q) (Some q))
       (\<lambda>q. Ok (Some (q\<lparr>eq_async := []\<rparr>))))"

definition checkpointReschedule :: "nat \<Rightarrow> nat \<Rightarrow> EventQueue \<Rightarrow> EventQueue option result" where
  "checkpointReschedule fuel event q =
     bindR (deref (eq_store q) event) (\<lambda>e. if ev_scheduled e then eq_insert fuel event q else Ok (Some q))"

text \<open>\<^verbatim>\<open>Event::serialize\<close> writes the time, the priority and the flags; \<^verbatim>\<open>Event::unserialize\<close> reads them into an event.\<close>

definition ev_serialize :: "Event \<Rightarrow> Tick \<times> i8 \<times> u16" where
  "ev_serialize e = (ev_when e, ev_priority e, ev_flags e)"

definition ev_unserialize :: "Tick \<times> i8 \<times> u16 \<Rightarrow> Event \<Rightarrow> Event result" where
  "ev_unserialize cp e = (case cp of (w, p, f) \<Rightarrow>
     bindR (assertR (\<not> ev_scheduled e) AssertFail) (\<lambda>_.
     bindR (assertR (ev_initialized e) AssertFail) (\<lambda>_.
       let fl = flags_set f Initialized in
       Ok (e\<lparr>ev_when := w, ev_priority := p,
             ev_flags := (if flags_isSet fl Scheduled \<and> \<not> flags_isSet fl Squashed
                          then flags_clear fl (Squashed OR Scheduled) else fl)\<rparr>))))"

definition replaceHead :: "nat option \<Rightarrow> EventQueue \<Rightarrow> EventQueue \<times> nat option" where
  "replaceHead s q = (q\<lparr>eq_head := s\<rparr>, eq_head q)"

text \<open>The events in the order of the two nested loops of \<^verbatim>\<open>dump\<close> and \<^verbatim>\<open>debugVerify\<close>.\<close>

fun bin_events :: "nat \<Rightarrow> store \<Rightarrow> nat option \<Rightarrow> nat list option result" where
  "bin_events 0 h p = Ok None"
| "bin_events (Suc n) h p =
     (case p of None \<Rightarrow> Ok (Some [])
      | Some x \<Rightarrow> bindR (deref h x) (\<lambda>e. out_of_fuel (bin_events n h (nextInBin e)) (\<lambda>xs. Ok (Some (x # xs)))))"

fun queue_events :: "nat \<Rightarrow> store \<Rightarrow> nat option \<Rightarrow> nat list option result" where
  "queue_events 0 h p = Ok None"
| "queue_events (Suc n) h p =
     (case p of None \<Rightarrow> Ok (Some [])
      | Some x \<Rightarrow> bindR (deref h x) (\<lambda>e.
          out_of_fuel (bin_events (Suc n) h p) (\<lambda>xs. out_of_fuel (queue_events n h (nextBin e)) (\<lambda>ys. Ok (Some (xs @ ys))))))"

fun verify_events :: "store \<Rightarrow> Tick \<Rightarrow> i8 \<Rightarrow> nat list \<Rightarrow> nat list \<Rightarrow> bool result" where
  "verify_events h time pri seen [] = Ok True"
| "verify_events h time pri seen (x # xs) =
     bindR (deref h x) (\<lambda>e.
       if ev_when e < time then Ok False
       else if ev_when e = time \<and> sint (ev_priority e) < sint pri then Ok False
       else if x \<in> set seen then Ok False
       else verify_events h (ev_when e) (ev_priority e) (x # seen) xs)"

definition debugVerify :: "nat \<Rightarrow> EventQueue \<Rightarrow> bool option result" where
  "debugVerify fuel q =
     out_of_fuel (queue_events fuel (eq_store q) (eq_head q)) (\<lambda>xs.
       bindR (verify_events (eq_store q) 0 0 [] xs) (\<lambda>b. Ok (Some b)))"

section \<open>Order\<close>

definition ev_key :: "Event \<Rightarrow> Tick \<times> int" where
  "ev_key e = (ev_when e, sint (ev_priority e))"

lemma ev_less_key: "ev_less l r \<longleftrightarrow> ev_key l < ev_key r"
  by (auto simp: ev_less_def ev_key_def less_prod_def)

lemma ev_le_key: "ev_le l r \<longleftrightarrow> ev_key l \<le> ev_key r"
  by (auto simp: ev_le_def ev_key_def less_eq_prod_def)

lemma ev_eq_key: "ev_eq l r \<longleftrightarrow> ev_key l = ev_key r"
  by (auto simp: ev_eq_def ev_key_def intro: signed_word_eqI)

lemmas ev_order = ev_less_key ev_le_key ev_eq_key

definition key :: "store \<Rightarrow> nat \<Rightarrow> Tick \<times> int" where
  "key h x = ev_key (the (h x))"

text \<open>What an event is apart from its links.\<close>

definition ev_data :: "Event \<Rightarrow> Event" where
  "ev_data e = e\<lparr>nextBin := None, nextInBin := None\<rparr>"

definition same_data :: "store \<Rightarrow> store \<Rightarrow> bool" where
  "same_data h h' \<longleftrightarrow> (\<forall>x. map_option ev_data (h' x) = map_option ev_data (h x))"

lemma ev_data_eq: "ev_data (e\<lparr>nextBin := a\<rparr>) = ev_data e" "ev_data (e\<lparr>nextInBin := b\<rparr>) = ev_data e"
  "ev_data (e\<lparr>nextBin := a, nextInBin := b\<rparr>) = ev_data e"
  by (simp_all add: ev_data_def)

lemma ev_key_data: "ev_data e = ev_data f \<Longrightarrow> ev_key e = ev_key f"
  by (cases e; cases f) (simp add: ev_data_def ev_key_def)

lemma same_data_refl [simp]: "same_data h h"
  by (simp add: same_data_def)

lemma same_data_trans: "same_data h h' \<Longrightarrow> same_data h' h'' \<Longrightarrow> same_data h h''"
  by (simp add: same_data_def)

lemma same_data_upd: "h x = Some e \<Longrightarrow> ev_data e' = ev_data e \<Longrightarrow> same_data h (h(x \<mapsto> e'))"
  by (simp add: same_data_def)

lemma same_data_key: "same_data h h' \<Longrightarrow> h x \<noteq> None \<Longrightarrow> key h' x = key h x"
proof -
  assume d: "same_data h h'" "h x \<noteq> None"
  then obtain e where e: "h x = Some e" by blast
  moreover obtain e' where "h' x = Some e'" "ev_data e' = ev_data e"
    using d(1) e unfolding same_data_def by (metis map_option_eq_Some option.simps(9))
  moreover from this(2) have "ev_key e' = ev_key e" by (rule ev_key_data)
  ultimately show ?thesis by (simp add: key_def)
qed

section \<open>The represented bins\<close>

fun inbin :: "store \<Rightarrow> nat option \<Rightarrow> nat list \<Rightarrow> bool" where
  "inbin h p [] \<longleftrightarrow> p = None"
| "inbin h p (x # xs) \<longleftrightarrow> p = Some x \<and> (\<exists>e. h x = Some e \<and> inbin h (nextInBin e) xs)"

fun bins :: "store \<Rightarrow> nat option \<Rightarrow> nat list list \<Rightarrow> bool" where
  "bins h p [] \<longleftrightarrow> p = None"
| "bins h p (b # bs) \<longleftrightarrow> b \<noteq> [] \<and> inbin h p b \<and> (\<exists>e. h (hd b) = Some e \<and> bins h (nextBin e) bs)"

text \<open>
  The abstract queue: non-empty stacks of events of one key, in the order of the keys. Insertion puts an
  event on top of the stack of its key.
\<close>

definition same_key :: "(nat \<Rightarrow> Tick \<times> int) \<Rightarrow> nat list \<Rightarrow> bool" where
  "same_key k b \<longleftrightarrow> (\<forall>x\<in>set b. k x = k (hd b))"

definition bins_wf :: "(nat \<Rightarrow> Tick \<times> int) \<Rightarrow> nat list list \<Rightarrow> bool" where
  "bins_wf k bss \<longleftrightarrow> distinct (concat bss) \<and> (\<forall>b\<in>set bss. b \<noteq> [] \<and> same_key k b) \<and>
     sorted_wrt (\<lambda>b c. k (hd b) < k (hd c)) bss"

definition queue_ok :: "store \<Rightarrow> nat option \<Rightarrow> nat list list \<Rightarrow> bool" where
  "queue_ok h p bss \<longleftrightarrow> bins h p bss \<and> bins_wf (key h) bss"

fun bins_insert :: "(nat \<Rightarrow> Tick \<times> int) \<Rightarrow> nat \<Rightarrow> nat list list \<Rightarrow> nat list list" where
  "bins_insert k x [] = [[x]]"
| "bins_insert k x (b # bs) =
     (if k x < k (hd b) then [x] # b # bs
      else if k x = k (hd b) then (x # b) # bs
      else b # bins_insert k x bs)"

lemma inbin_cong:
  "(\<And>y. y \<in> set xs \<Longrightarrow> map_option nextInBin (h' y) = map_option nextInBin (h y)) \<Longrightarrow> inbin h p xs \<Longrightarrow> inbin h' p xs"
proof (induction xs arbitrary: p)
  case (Cons x xs)
  then obtain e where e: "p = Some x" "h x = Some e" "inbin h (nextInBin e) xs" by auto
  with Cons.prems(1) [of x] obtain e' where "h' x = Some e'" "nextInBin e' = nextInBin e" by auto
  with Cons e show ?case by auto
qed simp

lemma bins_cong:
  "(\<And>y. y \<in> set (concat bss) \<Longrightarrow> h' y = h y) \<Longrightarrow> bins h p bss \<Longrightarrow> bins h' p bss"
proof (induction bss arbitrary: p)
  case (Cons b bs)
  then obtain e where e: "b \<noteq> []" "inbin h p b" "h (hd b) = Some e" "bins h (nextBin e) bs" by auto
  have "inbin h' p b" using Cons.prems(1) by (intro inbin_cong [OF _ e(2)]) simp
  moreover have "h' (hd b) = Some e" using Cons.prems(1) [of "hd b"] e by simp
  moreover have "bins h' (nextBin e) bs" using Cons.IH [OF _ e(4)] Cons.prems(1) by simp
  ultimately show ?case using e(1) by auto
qed simp

lemma inbin_stored: "inbin h p xs \<Longrightarrow> x \<in> set xs \<Longrightarrow> h x \<noteq> None"
  by (induction xs arbitrary: p) auto

lemma bins_stored: "bins h p bss \<Longrightarrow> x \<in> set (concat bss) \<Longrightarrow> h x \<noteq> None"
proof (induction bss arbitrary: p)
  case (Cons b bs)
  then show ?case using inbin_stored [of h p b x] by auto
qed simp

lemma bins_head: "bins h p bss \<Longrightarrow> p = (case bss of [] \<Rightarrow> None | b # _ \<Rightarrow> Some (hd b))"
  by (cases bss; cases "hd bss") auto

text \<open>Replacing what follows a bin.\<close>

lemma bins_upd_tail:
  assumes "bins h p (pre @ b # suf)" "distinct (concat (pre @ [b]))"
    and "\<And>y. y \<in> set (concat (pre @ [b])) \<Longrightarrow> y \<noteq> hd b \<Longrightarrow> h' y = h y"
    and "h (hd b) = Some e" "h' (hd b) = Some (e\<lparr>nextBin := q\<rparr>)" "bins h' q suf'"
  shows "bins h' p (pre @ b # suf')"
  using assms(1-3)
proof (induction pre arbitrary: p)
  case Nil
  then have b: "b \<noteq> []" "inbin h p b" by auto
  have "inbin h' p b"
    using Nil.prems(3) assms(4,5) by (intro inbin_cong [OF _ b(2)]) (case_tac "y = hd b"; simp)
  with b assms(5,6) show ?case by auto
next
  case (Cons c pre)
  then obtain f where f: "c \<noteq> []" "inbin h p c" "h (hd c) = Some f" "bins h (nextBin f) (pre @ b # suf)" by auto
  have "b \<noteq> []" using f(4) by (induction pre arbitrary: f) auto
  then have ne: "hd b \<notin> set c" using Cons.prems(2) hd_in_set by fastforce
  have "inbin h' p c" using Cons.prems(3) ne by (intro inbin_cong [OF _ f(2)]) (metis (no_types) append_Cons concat.simps(2) Un_iff set_append)
  moreover have "h' (hd c) = Some f" using Cons.prems(3) [of "hd c"] ne f by (metis append_Cons concat.simps(2) Un_iff set_append hd_in_set)
  moreover have "bins h' (nextBin f) (pre @ b # suf')"
    using Cons.IH [OF f(4)] Cons.prems(2,3) by auto
  ultimately show ?case using f(1) by auto
qed


section \<open>Insertion\<close>

lemma same_key_Cons: "same_key k (x # b) \<longleftrightarrow> b = [] \<or> (k x = k (hd b) \<and> same_key k b)"
  by (cases b) (auto simp: same_key_def)

lemma same_key_cong: "(\<And>y. y \<in> set b \<Longrightarrow> k y = k' y) \<Longrightarrow> same_key k b = same_key k' b"
  by (cases "b = []") (auto simp: same_key_def)

lemma bins_wf_Cons:
  "bins_wf k (b # bs) \<longleftrightarrow> b \<noteq> [] \<and> distinct b \<and> same_key k b \<and> set b \<inter> set (concat bs) = {} \<and>
     (\<forall>c\<in>set bs. k (hd b) < k (hd c)) \<and> bins_wf k bs"
  by (auto simp: bins_wf_def)

lemma set_bins_insert [simp]: "set (concat (bins_insert k x bss)) = insert x (set (concat bss))"
  by (induction bss) auto

lemma hd_bins_insert: "c \<in> set (bins_insert k x bss) \<Longrightarrow> k (hd c) = k x \<or> (\<exists>b\<in>set bss. k (hd c) = k (hd b))"
  by (induction bss) (auto split: if_splits)

lemma bins_wf_insert: "bins_wf k bss \<Longrightarrow> x \<notin> set (concat bss) \<Longrightarrow> bins_wf k (bins_insert k x bss)"
proof (induction bss)
  case Nil
  then show ?case by (simp add: bins_wf_def same_key_Cons)
next
  case (Cons b bs)
  have new: "bins_wf k ([x] # b # bs)" if "k x < k (hd b)"
  proof -
    have "\<forall>c\<in>set (b # bs). k x < k (hd c)"
      using Cons.prems(1) that less_trans unfolding bins_wf_Cons by (metis set_ConsD)
    then show ?thesis using Cons.prems unfolding bins_wf_Cons [of k "[x]"] by (simp add: same_key_Cons)
  qed
  have top: "bins_wf k ((x # b) # bs)" if "k x = k (hd b)"
    using Cons.prems that unfolding bins_wf_Cons by (simp add: same_key_Cons)
  have later: "bins_wf k (b # bins_insert k x bs)" if "\<not> k x < k (hd b)" "k x \<noteq> k (hd b)"
  proof -
    have "k (hd b) < k (hd c)" if "c \<in> set (bins_insert k x bs)" for c
      using hd_bins_insert [OF that]
    proof
      assume "k (hd c) = k x"
      then show ?thesis using \<open>\<not> k x < k (hd b)\<close> \<open>k x \<noteq> k (hd b)\<close> by simp
    next
      assume "\<exists>b\<in>set bs. k (hd c) = k (hd b)"
      then show ?thesis using Cons.prems(1) unfolding bins_wf_Cons by metis
    qed
    moreover have "bins_wf k (bins_insert k x bs)" using Cons by (simp add: bins_wf_Cons)
    ultimately show ?thesis using Cons.prems unfolding bins_wf_Cons set_bins_insert by auto
  qed
  from new top later show ?case by simp
qed

lemma bins_insert_append:
  "(\<And>b. b \<in> set pre \<Longrightarrow> k (hd b) < k x) \<Longrightarrow> bins_insert k x (pre @ suf) = pre @ bins_insert k x suf"
  by (induction pre) (simp, force)

lemma bins_wf_cong:
  assumes "\<And>y. y \<in> set (concat bss) \<Longrightarrow> k y = k' y" "bins_wf k bss"
  shows "bins_wf k' bss"
proof -
  have hd: "k (hd b) = k' (hd b)" if "b \<in> set bss" for b
  proof (rule assms(1))
    show "hd b \<in> set (concat bss)" using that assms(2) hd_in_set unfolding bins_wf_def by auto
  qed
  have "same_key k' b" if "b \<in> set bss" for b
    using that assms same_key_cong [of b k k'] by (auto simp: bins_wf_def)
  moreover have "sorted_wrt (\<lambda>b c. k' (hd b) < k' (hd c)) bss"
    using assms(2) hd unfolding bins_wf_def by (metis (mono_tags, lifting) sorted_wrt_mono_rel)
  ultimately show ?thesis using assms(2) by (auto simp: bins_wf_def)
qed

lemma insertBefore_ok:
  assumes "bins h cptr suf" "x \<notin> set (concat suf)" "h x = Some e"
    and "suf \<noteq> [] \<Longrightarrow> key h x \<le> key h (hd (hd suf))"
  shows "\<exists>e'. insertBefore x cptr h = Ok (h(x \<mapsto> e')) \<and> ev_data e' = ev_data e \<and>
    bins (h(x \<mapsto> e')) (Some x) (bins_insert (key h) x suf)"
proof (cases suf)
  case Nil
  then show ?thesis using assms
    by (intro exI [of _ "e\<lparr>nextBin := None, nextInBin := None\<rparr>"]) (simp add: insertBefore_def deref_def ev_data_eq)
next
  case (Cons b bs)
  with assms(1) obtain c where b: "b \<noteq> []" "inbin h cptr b" "h (hd b) = Some c" "bins h (nextBin c) bs" by auto
  then have cptr: "cptr = Some (hd b)" by (cases b) auto
  have keys: "key h x = ev_key e" "key h (hd b) = ev_key c" using assms(3) b(3) by (simp_all add: key_def)
  have keep: "bins (h(x \<mapsto> e')) cptr (b # bs)" "inbin (h(x \<mapsto> e')) cptr b" "bins (h(x \<mapsto> e')) (nextBin c) bs" for e'
  proof -
    show all: "bins (h(x \<mapsto> e')) cptr (b # bs)" using assms(1,2) Cons by - (rule bins_cong [of _ _ h], auto)
    then show "inbin (h(x \<mapsto> e')) cptr b" by simp
    show "bins (h(x \<mapsto> e')) (nextBin c) bs" using assms(2) Cons b(4) by - (rule bins_cong [of _ _ h], auto)
  qed
  show ?thesis
  proof (cases "key h x < key h (hd b)")
    case True
    then show ?thesis using assms(3) cptr b Cons keep
      by (intro exI [of _ "e\<lparr>nextBin := cptr, nextInBin := None\<rparr>"])
        (simp add: insertBefore_def deref_def ev_less_key keys ev_data_eq)
  next
    case False
    then have "key h x = key h (hd b)" using assms(4) Cons by simp
    then show ?thesis using assms(3) cptr b Cons False keep(2,3)
      by (intro exI [of _ "e\<lparr>nextBin := nextBin c, nextInBin := cptr\<rparr>"])
        (simp add: insertBefore_def deref_def ev_less_key keys ev_data_eq)
  qed
qed

lemma find_bin_spec:
  "bins h cptr suf \<Longrightarrow> length suf < fuel \<Longrightarrow>
   \<exists>pre c' suf'. suf = pre @ suf' \<and> (\<forall>b\<in>set pre. key h (hd b) < ev_key e) \<and>
     (suf' \<noteq> [] \<longrightarrow> ev_key e \<le> key h (hd (hd suf'))) \<and> bins h c' suf' \<and>
     find_bin fuel h e prev cptr = Ok (Some (if pre = [] then prev else hd (last pre), c'))"
proof (induction fuel arbitrary: suf cptr prev)
  case (Suc fuel)
  show ?case
  proof (cases suf)
    case Nil
    with Suc.prems show ?thesis by simp
  next
    case (Cons b bs)
    with Suc.prems(1) obtain c where b: "b \<noteq> []" "inbin h cptr b" "h (hd b) = Some c" "bins h (nextBin c) bs" by auto
    then have cptr: "cptr = Some (hd b)" by (cases b) auto
    have kb: "key h (hd b) = ev_key c" using b(3) by (simp add: key_def)
    show ?thesis
    proof (cases "key h (hd b) < ev_key e")
      case True
      have "length bs < fuel" using Suc.prems(2) Cons by simp
      from Suc.IH [OF b(4) this, of "hd b"] obtain pre c' suf' where
        "bs = pre @ suf'" "\<forall>b\<in>set pre. key h (hd b) < ev_key e"
        "suf' \<noteq> [] \<longrightarrow> ev_key e \<le> key h (hd (hd suf'))" "bins h c' suf'"
        "find_bin fuel h e (hd b) (nextBin c) = Ok (Some (if pre = [] then hd b else hd (last pre), c'))" by blast
      then show ?thesis using Cons True cptr b(3) kb
        by (intro exI [of _ "b # pre"] exI [of _ c'] exI [of _ suf']) (simp add: deref_def ev_less_key)
    next
      case False
      then show ?thesis using Cons Suc.prems(1) cptr b(3) kb
        by (intro exI [of _ "[]"] exI [of _ cptr] exI [of _ suf]) (simp add: deref_def ev_less_key)
    qed
  qed
qed simp


text \<open>Inserting behind the head: the walk stops after the bins of smaller keys.\<close>

lemma insert_behind:
  assumes q: "bins h p (b # bs)" "distinct (concat (b # bs))" and x: "x \<notin> set (concat (b # bs))" "h x = Some e"
    and fuel: "length bs < fuel" and b: "h (hd b) = Some c" "key h (hd b) < key h x"
  shows "\<exists>prev cptr h1 h2. find_bin fuel h e (hd b) (nextBin c) = Ok (Some (prev, cptr)) \<and>
    insertBefore x cptr h = Ok h1 \<and> update_event prev (\<lambda>pe. pe\<lparr>nextBin := Some x\<rparr>) h1 = Ok h2 \<and>
    same_data h h2 \<and> bins h2 p (bins_insert (key h) x (b # bs))"
proof -
  have kx: "key h x = ev_key e" using x by (simp add: key_def)
  have bs: "bins h (nextBin c) bs" "b \<noteq> []" using q(1) b(1) by auto
  from find_bin_spec [OF bs(1) fuel, of e "hd b"] obtain pre c' suf where f: "bs = pre @ suf"
    "\<forall>b\<in>set pre. key h (hd b) < key h x" "suf \<noteq> [] \<longrightarrow> key h x \<le> key h (hd (hd suf))" "bins h c' suf"
    "find_bin fuel h e (hd b) (nextBin c) = Ok (Some (if pre = [] then hd b else hd (last pre), c'))"
    unfolding kx by blast
  define l where "l = last (b # pre)"
  define pr where "pr = butlast (b # pre)"
  have split: "b # bs = pr @ l # suf" using f(1) unfolding l_def pr_def by (metis append_Cons append_butlast_last_id append_assoc list.distinct(1) append_Nil)
  have prev: "(if pre = [] then hd b else hd (last pre)) = hd l" by (simp add: l_def)
  have ne: "l \<noteq> []" "\<exists>d. h (hd l) = Some d"
  proof -
    show "l \<noteq> []" using q(1) unfolding split by (induction pr arbitrary: p) auto
    then have "hd l \<in> set (concat (b # bs))" unfolding split by simp
    from bins_stored [OF q(1) this] show "\<exists>d. h (hd l) = Some d" by auto
  qed
  then obtain d where d: "h (hd l) = Some d" by blast
  from insertBefore_ok [OF f(4), of x e] x f(1,3) obtain e' where e':
    "insertBefore x c' h = Ok (h(x \<mapsto> e'))" "ev_data e' = ev_data e"
    "bins (h(x \<mapsto> e')) (Some x) (bins_insert (key h) x suf)" by auto
  have lx: "hd l \<noteq> x" "hd l \<notin> set (concat (bins_insert (key h) x suf))"
    using q(2) x(1) ne(1) unfolding split set_bins_insert by (auto dest: hd_in_set)
  define h2 where "h2 = (h(x \<mapsto> e'))(hd l \<mapsto> d\<lparr>nextBin := Some x\<rparr>)"
  have up: "update_event (hd l) (\<lambda>pe. pe\<lparr>nextBin := Some x\<rparr>) (h(x \<mapsto> e')) = Ok h2"
    using d lx(1) by (simp add: update_event_def deref_def h2_def)
  have same: "same_data h h2"
    using x(2) d e'(2) lx(1) by (simp add: same_data_def h2_def ev_data_eq)
  have "bins h2 (Some x) (bins_insert (key h) x suf)"
    using e'(3) lx(2) by - (rule bins_cong [of _ _ "h(x \<mapsto> e')"], auto simp: h2_def simp del: set_concat)
  then have "bins h2 p (pr @ l # bins_insert (key h) x suf)"
    using q d x(1) lx(1) unfolding split
    by - (rule bins_upd_tail [of h p pr l suf], auto simp: h2_def)
  moreover have "bins_insert (key h) x (b # bs) = pr @ l # bins_insert (key h) x suf"
  proof -
    have "\<And>c. c \<in> set (b # pre) \<Longrightarrow> key h (hd c) < key h x" using f(2) b(2) by auto
    from bins_insert_append [of "b # pre" "key h" x suf, OF this] show ?thesis
      using f(1) unfolding l_def pr_def by (metis (no_types) append_Cons append_butlast_last_id append_assoc list.distinct(1) append_Nil)
  qed
  ultimately show ?thesis using f(5) e'(1) up same unfolding prev by auto
qed

lemma eq_insert_refines:
  assumes q: "queue_ok (eq_store q) (eq_head q) bss" and x: "x \<notin> set (concat bss)" "eq_store q x \<noteq> None"
    and fuel: "length bss < fuel"
  shows "\<exists>h' p'. eq_insert fuel x q = Ok (Some (q\<lparr>eq_store := h', eq_head := p'\<rparr>)) \<and> same_data (eq_store q) h' \<and>
    queue_ok h' p' (bins_insert (key (eq_store q)) x bss)"
proof -
  let ?h = "eq_store q"
  obtain e where e: "?h x = Some e" using x by auto
  have b: "bins ?h (eq_head q) bss" "bins_wf (key ?h) bss" using q by (auto simp: queue_ok_def)
  have "\<exists>h' p'. eq_insert fuel x q = Ok (Some (q\<lparr>eq_store := h', eq_head := p'\<rparr>)) \<and> same_data ?h h' \<and>
    bins h' p' (bins_insert (key ?h) x bss)"
  proof (cases "bss \<noteq> [] \<and> \<not> key ?h x \<le> key ?h (hd (hd bss))")
    case False
    then obtain e' where e': "insertBefore x (eq_head q) ?h = Ok (?h(x \<mapsto> e'))" "ev_data e' = ev_data e"
      "bins (?h(x \<mapsto> e')) (Some x) (bins_insert (key ?h) x bss)"
      using insertBefore_ok [OF b(1) x(1) e] by blast
    have "eq_insert fuel x q = Ok (Some (q\<lparr>eq_store := ?h(x \<mapsto> e'), eq_head := Some x\<rparr>))"
    proof (cases bss)
      case Nil
      then show ?thesis using b(1) e e'(1) by (simp add: eq_insert_def deref_def)
    next
      case (Cons c cs)
      then obtain hc where "eq_head q = Some (hd c)" "?h (hd c) = Some hc" using b(1) by (cases c) auto
      then show ?thesis using False Cons e e'(1) by (simp add: eq_insert_def deref_def ev_le_key key_def)
    qed
    then show ?thesis using e' e same_data_upd [of ?h x e e'] by blast
  next
    case True
    then obtain c cs where bss: "bss = c # cs" by (cases bss) auto
    then obtain hc where hc: "eq_head q = Some (hd c)" "?h (hd c) = Some hc" using b(1) by (cases c) auto
    have less: "key ?h (hd c) < key ?h x" using True bss by simp
    from insert_behind [of ?h "eq_head q" c cs x e fuel hc] b x e fuel hc less
    obtain prev cptr h1 h2 where i: "find_bin fuel ?h e (hd c) (nextBin hc) = Ok (Some (prev, cptr))"
      "insertBefore x cptr ?h = Ok h1" "update_event prev (\<lambda>pe. pe\<lparr>nextBin := Some x\<rparr>) h1 = Ok h2"
      "same_data ?h h2" "bins h2 (eq_head q) (bins_insert (key ?h) x bss)"
      unfolding bss by (auto simp: bins_wf_def)
    have "eq_insert fuel x q = Ok (Some (q\<lparr>eq_store := h2\<rparr>))"
      using i(1-3) hc e less by (simp add: eq_insert_def deref_def ev_le_key key_def out_of_fuel_def not_le [symmetric])
    then show ?thesis using i(4,5) by (intro exI [of _ h2] exI [of _ "eq_head q"]) simp
  qed
  then obtain h' p' where h': "eq_insert fuel x q = Ok (Some (q\<lparr>eq_store := h', eq_head := p'\<rparr>))" "same_data ?h h'"
    "bins h' p' (bins_insert (key ?h) x bss)" by blast
  have "bins_wf (key h') (bins_insert (key ?h) x bss)"
  proof (rule bins_wf_cong [OF _ bins_wf_insert [OF b(2) x(1)]])
    show "key ?h y = key h' y" if "y \<in> set (concat (bins_insert (key ?h) x bss))" for y
      using that same_data_key [OF h'(2), of y] bins_stored [OF b(1)] x(2) unfolding set_bins_insert by fastforce
  qed
  then show ?thesis using h' by (auto simp: queue_ok_def)
qed


section \<open>Removal\<close>

definition bins_remove :: "nat \<Rightarrow> nat list list \<Rightarrow> nat list list" where
  "bins_remove x bss = filter (\<lambda>b. b \<noteq> []) (map (remove1 x) bss)"

lemma bins_remove_none: "x \<notin> set (concat bss) \<Longrightarrow> bins_wf k bss \<Longrightarrow> bins_remove x bss = bss"
  by (induction bss) (auto simp: bins_remove_def bins_wf_Cons remove1_idem)

lemma bins_remove_append: "bins_remove x (as @ bs) = bins_remove x as @ bins_remove x bs"
  by (simp add: bins_remove_def)

lemma hd_remove1: "same_key k b \<Longrightarrow> remove1 x b \<noteq> [] \<Longrightarrow> k (hd (remove1 x b)) = k (hd b)"
  using set_remove1_subset [of x b] hd_in_set [of "remove1 x b"] unfolding same_key_def by blast

lemma same_key_remove1: "same_key k b \<Longrightarrow> same_key k (remove1 x b)"
  using set_remove1_subset [of x b] hd_remove1 [of k b x] unfolding same_key_def
  by (cases "remove1 x b = []") (simp, metis subsetD)

lemma set_bins_remove: "distinct (concat bss) \<Longrightarrow> set (concat (bins_remove x bss)) = set (concat bss) - {x}"
proof -
  assume d: "distinct (concat bss)"
  have "set (concat (bins_remove x bss)) = (\<Union>b\<in>set bss. set (remove1 x b))"
    by (auto simp: bins_remove_def)
  also have "\<dots> = (\<Union>b\<in>set bss. set b - {x})"
    using d by (intro SUP_cong) (auto simp: distinct_concat_iff)
  finally show ?thesis by auto
qed

lemma bins_wf_remove: "bins_wf k bss \<Longrightarrow> bins_wf k (bins_remove x bss)"
proof (induction bss)
  case (Cons b bs)
  have d: "distinct (concat bs)" using Cons.prems by (simp add: bins_wf_def)
  have sk: "same_key k b" using Cons.prems by (simp add: bins_wf_Cons)
  have keys: "\<forall>c\<in>set (bins_remove x bs). k (hd b) < k (hd c)"
  proof
    fix c assume "c \<in> set (bins_remove x bs)"
    then obtain c' where "c' \<in> set bs" "c = remove1 x c'" "c \<noteq> []" by (auto simp: bins_remove_def)
    then show "k (hd b) < k (hd c)"
      using Cons.prems hd_remove1 [of k c' x] by (auto simp: bins_wf_def)
  qed
  have "bins_wf k (bins_remove x bs)" using Cons by (simp add: bins_wf_Cons)
  moreover have "set (remove1 x b) \<inter> set (concat (bins_remove x bs)) = {}"
    using Cons.prems set_remove1_subset [of x b] unfolding set_bins_remove [OF d] bins_wf_Cons by blast
  ultimately have "remove1 x b \<noteq> [] \<Longrightarrow> bins_wf k (remove1 x b # bins_remove x bs)"
    using Cons.prems keys same_key_remove1 [OF sk] hd_remove1 [OF sk] unfolding bins_wf_Cons by auto
  then show ?case using \<open>bins_wf k (bins_remove x bs)\<close> by (simp add: bins_remove_def)
qed (simp add: bins_remove_def)

lemma unlink_in_bin_ok:
  assumes "inbin h (nextInBin ce) xs" "h c = Some ce" "x \<in> set xs" "distinct (c # xs)" "length xs < fuel"
  shows "\<exists>h'. unlink_in_bin fuel x c (nextInBin ce) h = Ok (Some h') \<and> same_data h h' \<and>
    (\<forall>y. map_option nextBin (h' y) = map_option nextBin (h y)) \<and> (\<forall>y. y \<notin> set (c # xs) \<longrightarrow> h' y = h y) \<and>
    inbin h' (Some c) (c # remove1 x xs)"
  using assms
proof (induction xs arbitrary: c ce fuel)
  case (Cons y ys)
  then obtain ye n where y: "nextInBin ce = Some y" "h y = Some ye" "inbin h (nextInBin ye) ys" "fuel = Suc n"
    by (cases fuel) auto
  show ?case
  proof (cases "y = x")
    case True
    define h' where "h' = h(c \<mapsto> ce\<lparr>nextInBin := nextInBin ye\<rparr>)"
    have "inbin h' (nextInBin ye) ys"
      using y(3) Cons.prems(4) by - (rule inbin_cong, auto simp: h'_def)
    moreover have "unlink_in_bin fuel x c (nextInBin ce) h = Ok (Some h')"
      using y True Cons.prems(2) by (simp add: deref_def update_event_def h'_def)
    moreover have "same_data h h'" using Cons.prems(2) by (simp add: h'_def same_data_upd ev_data_eq)
    moreover have "h' c = Some (ce\<lparr>nextInBin := nextInBin ye\<rparr>)"
      "\<forall>y. map_option nextBin (h' y) = map_option nextBin (h y)" "\<forall>z. z \<noteq> c \<longrightarrow> h' z = h z"
      using Cons.prems(2) by (simp_all add: h'_def)
    ultimately show ?thesis using True by (intro exI [of _ h']) simp
  next
    case False
    with Cons.prems y Cons.IH [OF y(3,2), of n] obtain h' where h':
      "unlink_in_bin n x y (nextInBin ye) h = Ok (Some h')" "same_data h h'"
      "\<forall>z. map_option nextBin (h' z) = map_option nextBin (h z)" "\<forall>z. z \<notin> set (y # ys) \<longrightarrow> h' z = h z"
      "inbin h' (Some y) (y # remove1 x ys)" by auto
    have "h' c = Some ce" using h'(4) Cons.prems(2,4) by simp
    then show ?thesis using False y h' by (intro exI [of _ h']) (simp add: deref_def)
  qed
qed simp

lemma removeItem_ok:
  assumes b: "inbin h (Some t) b" "h t = Some te" "x \<in> set b" "bins h (nextBin te) suf"
    and d: "distinct b" "set b \<inter> set (concat suf) = {}" "length b < fuel"
  shows "\<exists>h' tp. removeItem fuel x t h = Ok (Some (h', tp)) \<and> same_data h h' \<and> (\<forall>y. y \<notin> set b \<longrightarrow> h' y = h y) \<and>
    bins h' tp (filter (\<lambda>b. b \<noteq> []) [remove1 x b] @ suf)"
proof -
  obtain xs where xs: "b = t # xs" "inbin h (nextInBin te) xs" using b(1,2,3) by (cases b) auto
  show ?thesis
  proof (cases "x = t")
    case False
    with unlink_in_bin_ok [OF xs(2) b(2), of x fuel] b d xs obtain h' where h':
      "unlink_in_bin fuel x t (nextInBin te) h = Ok (Some h')" "same_data h h'"
      "\<forall>y. map_option nextBin (h' y) = map_option nextBin (h y)" "\<forall>y. y \<notin> set b \<longrightarrow> h' y = h y"
      "inbin h' (Some t) (t # remove1 x xs)" by auto
    have "bins h' (nextBin te) suf" using b(4) h'(4) d(2) by - (rule bins_cong [of _ _ h], auto)
    moreover obtain te' where "h' t = Some te'" "nextBin te' = nextBin te" using h'(3) [rule_format, of t] b(2) by auto
    ultimately have "bins h' (Some t) ((t # remove1 x xs) # suf)" using h'(5) by simp
    then show ?thesis using False h' b(2) xs(1) by (simp add: removeItem_def deref_def out_of_fuel_def del: bins.simps)
  next
    case True
    show ?thesis
    proof (cases xs)
      case Nil
      then show ?thesis using True xs b by (simp add: removeItem_def deref_def)
    next
      case (Cons n ns)
      then obtain ne where n: "nextInBin te = Some n" "h n = Some ne" using xs(2) by auto
      define h' where "h' = h(n \<mapsto> ne\<lparr>nextBin := nextBin te\<rparr>)"
      have "bins h' (nextBin te) suf"
        using b(4) d(2) xs(1) Cons by - (rule bins_cong [of _ _ h], auto simp: h'_def)
      moreover have "inbin h' (Some n) xs"
        using xs(2) n by - (rule inbin_cong [of _ _ h], auto simp: h'_def)
      ultimately have "bins h' (Some n) (xs # suf)" using Cons by (simp add: h'_def)
      moreover have "removeItem fuel x t h = Ok (Some (h', Some n))"
        using True b(2) n by (simp add: removeItem_def deref_def update_event_def h'_def)
      moreover have "same_data h h'" using n(2) by (simp add: h'_def same_data_upd ev_data_eq)
      moreover have "\<forall>y. y \<notin> set b \<longrightarrow> h' y = h y" using xs(1) Cons by (simp add: h'_def)
      ultimately show ?thesis using True xs(1) Cons by (intro exI [of _ h'] exI [of _ "Some n"]) simp
    qed
  qed
qed


lemma split_unique:
  assumes "as @ bs = cs @ ds" "\<forall>x\<in>set as. P x" "\<forall>x\<in>set cs. P x" "bs \<noteq> [] \<longrightarrow> \<not> P (hd bs)" "ds \<noteq> [] \<longrightarrow> \<not> P (hd ds)"
  shows "as = cs \<and> bs = ds"
proof -
  have "takeWhile P (as @ bs) = as" "takeWhile P (cs @ ds) = cs"
    using assms(2-5) by (cases bs; cases ds; simp add: takeWhile_append2)+
  with assms(1) show ?thesis by auto
qed

lemma bins_wf_appendD:
  "bins_wf k (pre @ b # suf) \<Longrightarrow> b \<noteq> [] \<and> distinct b \<and> same_key k b \<and> set b \<inter> set (concat suf) = {} \<and>
     set b \<inter> set (concat pre) = {} \<and> set (concat pre) \<inter> set (concat suf) = {} \<and> (\<forall>c\<in>set pre. k (hd c) < k (hd b)) \<and>
     bins_wf k pre \<and> bins_wf k suf"
  by (auto simp: bins_wf_def sorted_wrt_append)

lemma bins_remove_split:
  assumes "bins_wf k (pre @ b # suf)" "x \<in> set b"
  shows "bins_remove x (pre @ b # suf) = pre @ filter (\<lambda>b. b \<noteq> []) [remove1 x b] @ suf"
proof -
  note w = bins_wf_appendD [OF assms(1)]
  have "x \<notin> set (concat pre)" "x \<notin> set (concat suf)" using w assms(2) by blast+
  then have "bins_remove x pre = pre" "bins_remove x suf = suf" using w bins_remove_none by blast+
  moreover have "bins_remove x (pre @ b # suf) = bins_remove x pre @ bins_remove x [b] @ bins_remove x suf"
    by (simp add: bins_remove_def)
  ultimately show ?thesis by (simp add: bins_remove_def)
qed

text \<open>Removing from a bin behind the head.\<close>

lemma remove_behind:
  assumes q: "bins h p (c # cs @ b # suf)" "bins_wf (key h) (c # cs @ b # suf)" and x: "x \<in> set b" "h x = Some e"
    and fuel: "length (cs @ b # suf) < fuel" "length b < fuel" and c: "h (hd c) = Some ce"
  shows "\<exists>prev be h1 tp h2. find_bin fuel h e (hd c) (nextBin ce) = Ok (Some (prev, Some (hd b))) \<and>
    h (hd b) = Some be \<and> ev_eq be e \<and> removeItem fuel x (hd b) h = Ok (Some (h1, tp)) \<and>
    update_event prev (\<lambda>pe. pe\<lparr>nextBin := tp\<rparr>) h1 = Ok h2 \<and>
    same_data h h2 \<and> bins h2 p (bins_remove x (c # cs @ b # suf))"
proof -
  note w = bins_wf_appendD [of "key h" "c # cs" b suf, simplified append_Cons, OF q(2)]
  have kx: "key h x = ev_key e" using x(2) by (simp add: key_def)
  have kb: "key h x = key h (hd b)" using w x(1) unfolding same_key_def by blast
  have t: "bins h (nextBin ce) (cs @ b # suf)" using q(1) c by auto
  from find_bin_spec [OF t fuel(1), of e "hd c"] obtain pre c' suf' where f: "cs @ b # suf = pre @ suf'"
    "\<forall>b\<in>set pre. key h (hd b) < key h x" "suf' \<noteq> [] \<longrightarrow> key h x \<le> key h (hd (hd suf'))" "bins h c' suf'"
    "find_bin fuel h e (hd c) (nextBin ce) = Ok (Some (if pre = [] then hd c else hd (last pre), c'))"
    unfolding kx by blast
  have "cs = pre \<and> b # suf = suf'"
    using f(1-3) w unfolding kb by - (rule split_unique [where P = "\<lambda>b'. key h (hd b') < key h (hd b)"], auto)
  then have eqs: "pre = cs" "suf' = b # suf" by auto
  with f(4) obtain be where be: "c' = Some (hd b)" "inbin h (Some (hd b)) b" "h (hd b) = Some be" "bins h (nextBin be) suf"
    by (cases b) auto
  obtain h1 tp where r: "removeItem fuel x (hd b) h = Ok (Some (h1, tp))" "same_data h h1"
    "\<forall>y. y \<notin> set b \<longrightarrow> h1 y = h y" "bins h1 tp (filter (\<lambda>b. b \<noteq> []) [remove1 x b] @ suf)"
    using removeItem_ok [OF be(2,3) x(1) be(4)] w fuel(2) by blast
  define l where "l = last (c # cs)"
  define pr where "pr = butlast (c # cs)"
  have split: "c # cs = pr @ [l]" unfolding l_def pr_def by simp
  have prev: "(if pre = [] then hd c else hd (last pre)) = hd l" by (simp add: l_def eqs)
  have l: "l \<noteq> []" "l \<in> set (c # cs)" using q(2) unfolding l_def by (auto simp: bins_wf_def)
  then have ll: "hd l \<in> set (concat (c # cs))" using hd_in_set by fastforce
  then have lb: "hd l \<notin> set b" "hd l \<notin> set (concat suf)" using w by blast+
  obtain d where d: "h (hd l) = Some d" "h1 (hd l) = Some d"
    using bins_stored [OF q(1), of "hd l"] ll lb r(3) by auto
  define h2 where "h2 = h1(hd l \<mapsto> d\<lparr>nextBin := tp\<rparr>)"
  have up: "update_event (hd l) (\<lambda>pe. pe\<lparr>nextBin := tp\<rparr>) h1 = Ok h2"
    using d by (simp add: update_event_def deref_def h2_def)
  have same: "same_data h h2"
    using same_data_trans [OF r(2) same_data_upd [of h1 "hd l", OF d(2)]] by (simp add: h2_def ev_data_eq)
  let ?s = "filter (\<lambda>b. b \<noteq> []) [remove1 x b] @ suf"
  have "hd l \<notin> set (concat ?s)" using lb set_remove1_subset [of x b] by auto
  then have "bins h2 tp ?s" using r(4) by - (rule bins_cong [of _ _ h1], auto simp: h2_def)
  moreover have "bins h p (pr @ l # b # suf)" using q(1) split by (metis append.assoc append_Cons append_Nil)
  moreover have "h2 y = h y" if "y \<in> set (concat (pr @ [l]))" "y \<noteq> hd l" for y
    using that w r(3) unfolding split [symmetric] h2_def by auto
  moreover have "distinct (concat (pr @ [l]))" using w unfolding split [symmetric] by (simp add: bins_wf_def)
  ultimately have "bins h2 p (pr @ l # ?s)"
    using d(1) by - (rule bins_upd_tail [of h p pr l "b # suf"], auto simp: h2_def)
  moreover have "bins_remove x (c # cs @ b # suf) = pr @ l # ?s"
    using bins_remove_split [of "key h" "c # cs" b suf x] q(2) x(1) split by (metis append.assoc append_Cons append_Nil)
  moreover have "ev_eq be e" using be(3) kx kb by (simp add: ev_eq_key key_def)
  ultimately show ?thesis using f(5) be(1,3) r(1) up same unfolding prev by auto
qed


lemma length_bins: "bins_wf k bss \<Longrightarrow> length bss \<le> length (concat bss)"
proof (induction bss)
  case (Cons b bs)
  then show ?case by (cases b) (auto simp: bins_wf_Cons)
qed simp

lemma bins_remove_subset: "y \<in> set (concat (bins_remove x bss)) \<Longrightarrow> y \<in> set (concat bss)"
  using set_remove1_subset by (fastforce simp: bins_remove_def)

lemma queue_ok_same_data:
  assumes "bins h' p bss" "bins_wf (key h) bss" "same_data h h'" "\<And>y. y \<in> set (concat bss) \<Longrightarrow> h y \<noteq> None"
  shows "queue_ok h' p bss"
  unfolding queue_ok_def
proof (intro conjI bins_wf_cong [OF _ assms(2)])
  show "key h y = key h' y" if "y \<in> set (concat bss)" for y using same_data_key [OF assms(3) assms(4) [OF that]] by simp
qed (rule assms(1))

lemma eq_remove_refines:
  assumes q: "queue_ok (eq_store q) (eq_head q) bss" and x: "x \<in> set (concat bss)" "eq_store q x = Some e"
    "ev_queue e = Some (eq_self q)" and fuel: "length (concat bss) < fuel"
  shows "\<exists>h' p'. eq_remove fuel x q = Ok (Some (q\<lparr>eq_store := h', eq_head := p'\<rparr>)) \<and> same_data (eq_store q) h' \<and>
    queue_ok h' p' (bins_remove x bss)"
proof -
  let ?h = "eq_store q"
  have b: "bins ?h (eq_head q) bss" "bins_wf (key ?h) bss" using q by (auto simp: queue_ok_def)
  from x(1) obtain b where "b \<in> set bss" and xb: "x \<in> set b" by auto
  then obtain pre suf where bss: "bss = pre @ b # suf" by (meson split_list)
  note w = bins_wf_appendD [OF b(2) [unfolded bss]]
  have lb: "length b < fuel" "length bss < fuel" using fuel length_bins [OF b(2)] unfolding bss by auto
  have kb: "key ?h x = key ?h (hd b)" "key ?h x = ev_key e" using w xb x(2) unfolding same_key_def by (blast, simp add: key_def)
  have "\<exists>h' p'. eq_remove fuel x q = Ok (Some (q\<lparr>eq_store := h', eq_head := p'\<rparr>)) \<and> same_data ?h h' \<and>
    bins h' p' (bins_remove x bss)"
  proof (cases pre)
    case Nil
    then obtain be where be: "eq_head q = Some (hd b)" "inbin ?h (Some (hd b)) b" "?h (hd b) = Some be" "bins ?h (nextBin be) suf"
      using b(1) unfolding bss by (cases b) auto
    obtain h' tp where r: "removeItem fuel x (hd b) ?h = Ok (Some (h', tp))" "same_data ?h h'"
      "bins h' tp (filter (\<lambda>b. b \<noteq> []) [remove1 x b] @ suf)"
      using removeItem_ok [OF be(2,3) xb be(4)] w lb(1) by blast
    have "ev_eq be e" using be(3) kb by (simp add: ev_eq_key key_def)
    then have "eq_remove fuel x q = Ok (Some (q\<lparr>eq_store := h', eq_head := tp\<rparr>))"
      using be(1,3) r(1) x by (simp add: eq_remove_def deref_def assertR_def out_of_fuel_def)
    moreover have "bins_remove x bss = filter (\<lambda>b. b \<noteq> []) [remove1 x b] @ suf"
      using bins_remove_split [of "key ?h" "[]" b suf x] b(2) xb unfolding bss Nil by simp
    ultimately show ?thesis using r by metis
  next
    case (Cons c cs)
    then obtain ce where ce: "eq_head q = Some (hd c)" "?h (hd c) = Some ce" using b(1) unfolding bss by (cases c) auto
    have "key ?h (hd c) < key ?h (hd b)" using w Cons by simp
    then have ne: "\<not> ev_eq ce e" using ce(2) kb by (simp add: ev_eq_key key_def)
    from remove_behind [of ?h "eq_head q" c cs b suf x e fuel ce] b xb x(2) lb ce(2)
    obtain prev be h1 tp h2 where r: "find_bin fuel ?h e (hd c) (nextBin ce) = Ok (Some (prev, Some (hd b)))"
      "?h (hd b) = Some be" "ev_eq be e" "removeItem fuel x (hd b) ?h = Ok (Some (h1, tp))"
      "update_event prev (\<lambda>pe. pe\<lparr>nextBin := tp\<rparr>) h1 = Ok h2" "same_data ?h h2" "bins h2 (eq_head q) (bins_remove x bss)"
      unfolding bss Cons append_Cons by auto
    have "eq_remove fuel x q = Ok (Some (q\<lparr>eq_store := h2\<rparr>))"
      using ce r ne x(2,3) by (simp add: eq_remove_def deref_def assertR_def out_of_fuel_def)
    then show ?thesis using r(6,7) by (intro exI [of _ h2] exI [of _ "eq_head q"]) simp
  qed
  then obtain h' p' where h': "eq_remove fuel x q = Ok (Some (q\<lparr>eq_store := h', eq_head := p'\<rparr>))" "same_data ?h h'"
    "bins h' p' (bins_remove x bss)" by blast
  have "?h y \<noteq> None" if "y \<in> set (concat (bins_remove x bss))" for y
    by (rule bins_stored [OF b(1) bins_remove_subset [OF that]])
  from queue_ok_same_data [OF h'(3) bins_wf_remove [OF b(2)] h'(2) this] show ?thesis using h'(1,2) by blast
qed

text \<open>What follows changes only links and flags: the representation needs the links alone.\<close>

lemma bins_flags: "bins h p bss \<Longrightarrow> h x = Some e \<Longrightarrow> nextBin e' = nextBin e \<Longrightarrow> nextInBin e' = nextInBin e \<Longrightarrow> bins (h(x \<mapsto> e')) p bss"
proof (induction bss arbitrary: p)
  case (Cons b bs)
  then obtain f where f: "b \<noteq> []" "inbin h p b" "h (hd b) = Some f" "bins h (nextBin f) bs" by auto
  have "inbin (h(x \<mapsto> e')) p b" using f(2) Cons.prems by - (rule inbin_cong [of _ _ h], auto)
  moreover have "\<exists>f'. (h(x \<mapsto> e')) (hd b) = Some f' \<and> nextBin f' = nextBin f" using f(3) Cons.prems by auto
  moreover have "bins (h(x \<mapsto> e')) (nextBin f) bs" by (rule Cons.IH [OF f(4) Cons.prems(2-4)])
  ultimately show ?case using f(1) by (auto simp del: fun_upd_apply)
qed simp

lemma queue_ok_flags:
  assumes "queue_ok h p bss" "h x = Some e"
  shows "queue_ok (h(x \<mapsto> e\<lparr>ev_flags := f\<rparr>)) p bss"
proof -
  have "key (h(x \<mapsto> e\<lparr>ev_flags := f\<rparr>)) y = key h y" for y using assms(2) by (simp add: key_def ev_key_def)
  then have "key (h(x \<mapsto> e\<lparr>ev_flags := f\<rparr>)) = key h" by blast
  then show ?thesis using assms bins_flags [of h p bss x e] by (simp add: queue_ok_def)
qed

lemma pop_head_refines:
  assumes q: "queue_ok (eq_store q) (eq_head q) (b # bs)" and e: "eq_store q (hd b) = Some e"
  shows "\<exists>h' p'. pop_head q = Ok (hd b, q\<lparr>eq_store := h', eq_head := p'\<rparr>) \<and>
    same_data ((eq_store q)(hd b \<mapsto> e\<lparr>ev_flags := flags_clear (ev_flags e) Scheduled\<rparr>)) h' \<and>
    queue_ok h' p' (bins_remove (hd b) (b # bs))"
proof -
  define h where "h = (eq_store q)(hd b \<mapsto> e\<lparr>ev_flags := flags_clear (ev_flags e) Scheduled\<rparr>)"
  have ok: "queue_ok h (eq_head q) (b # bs)" unfolding h_def by (rule queue_ok_flags [where h = "eq_store q", OF q e])
  then have w: "bins h (eq_head q) (b # bs)" "bins_wf (key h) (b # bs)" by (auto simp: queue_ok_def)
  let ?e = "e\<lparr>ev_flags := flags_clear (ev_flags e) Scheduled\<rparr>"
  have h: "h (hd b) = Some ?e" by (simp add: h_def)
  with w(1) have b: "eq_head q = Some (hd b)" "inbin h (Some (hd b)) b" "bins h (nextBin ?e) bs" "hd b \<in> set b" by (cases b; auto)+
  from removeItem_ok [OF b(2) h b(4,3), of "Suc (length b)"] w(2) obtain h' tp where
    r: "removeItem (Suc (length b)) (hd b) (hd b) h = Ok (Some (h', tp))" "same_data h h'"
    "bins h' tp (filter (\<lambda>b. b \<noteq> []) [remove1 (hd b) b] @ bs)" by (auto simp: bins_wf_Cons)
  have "pop_head q = Ok (hd b, q\<lparr>eq_store := h', eq_head := tp\<rparr>)"
    using r(1) b(1) e h unfolding pop_head_def removeItem_def
    by (auto simp: deref_def update_event_def h_def split: option.splits)
  moreover have "bins_remove (hd b) (b # bs) = filter (\<lambda>b. b \<noteq> []) [remove1 (hd b) b] @ bs"
    using bins_remove_split [of "key h" "[]" b bs "hd b"] w(2) b(4) by simp
  moreover have "h y \<noteq> None" if "y \<in> set (concat (bins_remove (hd b) (b # bs)))" for y
    by (rule bins_stored [OF w(1) bins_remove_subset [OF that]])
  ultimately show ?thesis
    using r(2,3) queue_ok_same_data [OF _ bins_wf_remove [OF w(2)] r(2)] unfolding h_def by metis
qed

end
