(* ===== verification/Event_Sim.thy ===== *)
theory Event_Sim
  imports Event_Queue
begin

text \<open>
  The simulation loop over the event queue of \<^verbatim>\<open>sim/eventq.cc\<close>: the invariant that ties the queue to the flags of
  its events, that scheduling, descheduling and rescheduling keep it, and the order in which \<^verbatim>\<open>serviceEvents\<close>
  services what was scheduled.
\<close>

section \<open>The invariant\<close>

text \<open>
  The queue holds exactly the live events that are flagged \<^verbatim>\<open>Scheduled\<close> on it, none of them in the past.
\<close>

definition eq_inv :: "EventQueue \<Rightarrow> nat list list \<Rightarrow> bool" where
  "eq_inv q bss \<longleftrightarrow> queue_ok (eq_store q) (eq_head q) bss \<and>
     (\<forall>x e. eq_store q x = Some e \<longrightarrow>
        (x \<in> set (concat bss) \<longleftrightarrow> ev_scheduled e \<and> ev_queue e = Some (eq_self q)) \<and>
        (x \<in> set (concat bss) \<longrightarrow> eq_curTick q \<le> ev_when e))"

lemma eq_inv_queue: "eq_inv q bss \<Longrightarrow> queue_ok (eq_store q) (eq_head q) bss"
  by (simp add: eq_inv_def)

lemma eq_inv_wf: "eq_inv q bss \<Longrightarrow> bins_wf (key (eq_store q)) bss"
  by (simp add: eq_inv_def queue_ok_def)

lemma eq_inv_mem:
  "eq_inv q bss \<Longrightarrow> eq_store q x = Some e \<Longrightarrow> x \<in> set (concat bss) \<longleftrightarrow> ev_scheduled e \<and> ev_queue e = Some (eq_self q)"
  by (simp add: eq_inv_def)

lemma eq_inv_stored: "eq_inv q bss \<Longrightarrow> x \<in> set (concat bss) \<Longrightarrow> \<exists>e. eq_store q x = Some e"
  using bins_stored [of "eq_store q" "eq_head q" bss x] by (auto simp: eq_inv_def queue_ok_def simp del: set_concat)

lemma same_dataD:
  assumes "same_data h h'" "h' x = Some e'"
  obtains e where "h x = Some e" "ev_data e' = ev_data e" "ev_flags e' = ev_flags e" "ev_when e' = ev_when e"
    "ev_queue e' = ev_queue e" "ev_priority e' = ev_priority e"
proof -
  obtain e where e: "h x = Some e" "ev_data e' = ev_data e"
    using assms unfolding same_data_def by (metis map_option_eq_Some option.simps(9))
  have "ev_flags e' = ev_flags e" "ev_when e' = ev_when e" "ev_queue e' = ev_queue e" "ev_priority e' = ev_priority e"
    using e(2) by (cases e; cases e'; simp add: ev_data_def)+
  with e that show thesis by blast
qed

lemma same_dataD2: "same_data h h' \<Longrightarrow> h x = Some e \<Longrightarrow> \<exists>e'. h' x = Some e' \<and> ev_data e' = ev_data e"
  unfolding same_data_def by (metis map_option_eq_Some option.simps(9))

lemma ev_data_proj:
  assumes "ev_data e' = ev_data e"
  shows "ev_flags e' = ev_flags e" "ev_when e' = ev_when e" "ev_queue e' = ev_queue e" "ev_priority e' = ev_priority e"
  using assms by (cases e; cases e'; simp add: ev_data_def)+

lemma flags_facts [simp]:
  "ev_scheduled (e\<lparr>ev_flags := flags_set f Scheduled\<rparr>)"
  "\<not> ev_scheduled (e\<lparr>ev_flags := flags_clear f Scheduled\<rparr>)"
  by (simp_all add: ev_scheduled_def flags_isSet_set_self flags_isSet_noneSet Scheduled_def)
    (simp_all add: flags_noneSet_def flags_set_def bit.conj_disj_distrib2)


section \<open>Scheduling\<close>

lemma bins_insert_cong:
  "k x = k' x \<Longrightarrow> (\<And>b. b \<in> set bss \<Longrightarrow> k (hd b) = k' (hd b)) \<Longrightarrow> bins_insert k x bss = bins_insert k' x bss"
  by (induction bss) auto

lemma queue_ok_upd: "queue_ok h p bss \<Longrightarrow> x \<notin> set (concat bss) \<Longrightarrow> queue_ok (h(x := v)) p bss"
proof -
  assume q: "queue_ok h p bss" "x \<notin> set (concat bss)"
  have "bins (h(x := v)) p bss" using q unfolding queue_ok_def by - (rule bins_cong [of _ _ h], auto)
  moreover have "bins_wf (key (h(x := v))) bss"
    using q unfolding queue_ok_def by - (rule bins_wf_cong [of _ "key h"], auto simp: key_def)
  ultimately show ?thesis by (simp add: queue_ok_def)
qed

text \<open>Setting the time of an event that is not queued, and queueing it.\<close>

lemma insert_at:
  assumes q: "queue_ok (eq_store q) (eq_head q) bss" and x: "x \<notin> set (concat bss)" "eq_store q x = Some e"
    and fuel: "length bss < fuel"
  shows "\<exists>h' p'. eq_insert fuel x (q\<lparr>eq_store := (eq_store q)(x \<mapsto> ev_setWhen w (eq_self q) e)\<rparr>) =
      Ok (Some (q\<lparr>eq_store := h', eq_head := p'\<rparr>)) \<and>
    same_data ((eq_store q)(x \<mapsto> ev_setWhen w (eq_self q) e)) h' \<and> queue_ok h' p' (bins_insert (key h') x bss)"
proof -
  define h where "h = (eq_store q)(x \<mapsto> ev_setWhen w (eq_self q) e)"
  have "queue_ok h (eq_head q) bss" unfolding h_def by (rule queue_ok_upd [OF q x(1)])
  from eq_insert_refines [of "q\<lparr>eq_store := h\<rparr>" bss x fuel] this x(1) fuel obtain h' p' where
    i: "eq_insert fuel x (q\<lparr>eq_store := h\<rparr>) = Ok (Some (q\<lparr>eq_store := h', eq_head := p'\<rparr>))" "same_data h h'"
      "queue_ok h' p' (bins_insert (key h) x bss)" by (auto simp: h_def)
  have st: "h y \<noteq> None" if "y = x \<or> y \<in> set (concat bss)" for y
    using that bins_stored [of "eq_store q" "eq_head q" bss y] q by (auto simp: h_def queue_ok_def simp del: set_concat)
  have "bins_insert (key h) x bss = bins_insert (key h') x bss"
  proof (rule bins_insert_cong)
    show "key h x = key h' x" using same_data_key [OF i(2), of x] st by simp
    fix b assume "b \<in> set bss"
    moreover have "b \<noteq> []" using q \<open>b \<in> set bss\<close> by (auto simp: queue_ok_def bins_wf_def)
    ultimately have "hd b \<in> set (concat bss)" by (auto intro: bexI [of _ b])
    then show "key h (hd b) = key h' (hd b)" using same_data_key [OF i(2), of "hd b"] st by simp
  qed
  with i show ?thesis unfolding h_def by metis
qed

text \<open>An operation on the event \<open>x\<close> keeps the invariant when it does right by \<open>x\<close> and leaves the others alone.\<close>

lemma eq_inv_change:
  assumes inv: "eq_inv q bss" and ok: "queue_ok (eq_store q') (eq_head q') bss'" and self: "eq_self q' = eq_self q"
    and mem: "set (concat bss') - {x} = set (concat bss) - {x}"
    and x: "\<And>e. eq_store q' x = Some e \<Longrightarrow> (x \<in> set (concat bss') \<longleftrightarrow> ev_scheduled e \<and> ev_queue e = Some (eq_self q)) \<and>
      (x \<in> set (concat bss') \<longrightarrow> eq_curTick q' \<le> ev_when e)"
    and rest: "\<And>y. y \<noteq> x \<Longrightarrow> map_option ev_data (eq_store q' y) = map_option ev_data (eq_store q y)"
    and time: "\<And>y e. y \<in> set (concat bss) \<Longrightarrow> y \<noteq> x \<Longrightarrow> eq_store q y = Some e \<Longrightarrow> eq_curTick q' \<le> ev_when e"
  shows "eq_inv q' bss'"
  unfolding eq_inv_def
proof (intro conjI [OF ok] allI impI)
  fix y f assume y: "eq_store q' y = Some f"
  show "(y \<in> set (concat bss')) = (ev_scheduled f \<and> ev_queue f = Some (eq_self q')) \<and>
    (y \<in> set (concat bss') \<longrightarrow> eq_curTick q' \<le> ev_when f)"
  proof (cases "y = x")
    case True
    with x y self show ?thesis by simp
  next
    case False
    then obtain f0 where f0: "eq_store q y = Some f0" "ev_data f = ev_data f0"
      using rest [OF False] y by (cases "eq_store q y") auto
    have "y \<in> set (concat bss') \<longleftrightarrow> y \<in> set (concat bss)" using mem False by blast
    then show ?thesis using eq_inv_mem [OF inv f0(1)] ev_data_proj [OF f0(2)] time [OF _ False f0(1)] self
      by (simp add: ev_scheduled_def)
  qed
qed

lemma eq_inv_time: "eq_inv q bss \<Longrightarrow> y \<in> set (concat bss) \<Longrightarrow> eq_store q y = Some e \<Longrightarrow> eq_curTick q \<le> ev_when e"
  by (simp add: eq_inv_def)

lemma schedule_inv:
  assumes inv: "eq_inv q bss" and e: "eq_store q x = Some e" "\<not> ev_scheduled e" "ev_initialized e"
    and w: "eq_curTick q \<le> w" and fuel: "length bss < fuel"
  shows "\<exists>q'. eq_schedule False cur fuel x w g q = Ok (Some q') \<and> eq_inv q' (bins_insert (key (eq_store q')) x bss) \<and>
    key (eq_store q') x = (w, sint (ev_priority e)) \<and> eq_curTick q' = eq_curTick q \<and> eq_self q' = eq_self q \<and>
    (\<forall>y. y \<noteq> x \<longrightarrow> map_option ev_data (eq_store q' y) = map_option ev_data (eq_store q y))"
proof -
  have x: "x \<notin> set (concat bss)" using eq_inv_mem [OF inv e(1)] e(2) by simp
  from insert_at [OF eq_inv_queue [OF inv] x e(1) fuel, of w] obtain h' p' where
    i: "eq_insert fuel x (q\<lparr>eq_store := (eq_store q)(x \<mapsto> ev_setWhen w (eq_self q) e)\<rparr>) =
      Ok (Some (q\<lparr>eq_store := h', eq_head := p'\<rparr>))"
      "same_data ((eq_store q)(x \<mapsto> ev_setWhen w (eq_self q) e)) h'" "queue_ok h' p' (bins_insert (key h') x bss)" by blast
  from same_dataD2 [OF i(2), of x] obtain e' where e': "h' x = Some e'" "ev_data e' = ev_data (ev_setWhen w (eq_self q) e)"
    by auto
  define h2 where "h2 = h'(x \<mapsto> e'\<lparr>ev_flags := flags_set (ev_flags e') Scheduled\<rparr>)"
  define q' where "q' = q\<lparr>eq_store := h2, eq_head := p'\<rparr>"
  have run: "eq_schedule False cur fuel x w g q = Ok (Some q')"
    using e w i(1) e'(1)
    by (simp add: eq_schedule_def deref_def assertR_def update_event_def out_of_fuel_def h2_def q'_def)
  have k: "key h2 = key h'" using e'(1) by (auto simp: key_def ev_key_def h2_def)
  have rest: "\<And>y. y \<noteq> x \<Longrightarrow> map_option ev_data (h2 y) = map_option ev_data (eq_store q y)"
    using i(2) by (simp add: same_data_def h2_def)
  have "eq_inv q' (bins_insert (key h2) x bss)"
  proof (rule eq_inv_change [OF inv, where x = x])
    show "queue_ok (eq_store q') (eq_head q') (bins_insert (key h2) x bss)"
      using queue_ok_flags [where h = h', OF i(3) e'(1)] unfolding k by (simp add: h2_def q'_def)
    show "set (concat (bins_insert (key h2) x bss)) - {x} = set (concat bss) - {x}" unfolding set_bins_insert by simp
  qed (use ev_data_proj [OF e'(2)] w rest eq_inv_time [OF inv] in
      \<open>simp_all add: ev_setWhen_def q'_def h2_def set_bins_insert [unfolded set_concat]\<close>)
  moreover have "key h2 x = (w, sint (ev_priority e))"
    using ev_data_proj [OF e'(2)] by (simp add: key_def ev_key_def h2_def ev_setWhen_def)
  ultimately show ?thesis using run rest by (intro exI [of _ q']) (simp add: q'_def)
qed


section \<open>Descheduling and rescheduling\<close>

lemma flags_cleared [simp]:
  "\<not> ev_scheduled (e\<lparr>ev_flags := flags_clear (flags_clear f Squashed) Scheduled\<rparr>)"
  "ev_scheduled (e\<lparr>ev_flags := flags_set (flags_clear f Squashed) Scheduled\<rparr>)"
  by simp_all

lemma ev_isManaged_clear:
  "ev_isManaged (e\<lparr>ev_flags := flags_clear (flags_clear (ev_flags f) Squashed) Scheduled\<rparr>) = ev_isManaged f"
  "ev_isManaged (e\<lparr>ev_flags := flags_clear (ev_flags f) Squashed\<rparr>) = ev_isManaged f"
  by (simp_all add: ev_isManaged_def flags_isSet_clear_disjoint event_flag_defs)

lemma remove_inv:
  assumes inv: "eq_inv q bss" and x: "x \<in> set (concat bss)" "eq_store q x = Some e" and fuel: "length (concat bss) < fuel"
  shows "\<exists>h' p'. eq_remove fuel x q = Ok (Some (q\<lparr>eq_store := h', eq_head := p'\<rparr>)) \<and> same_data (eq_store q) h' \<and>
    queue_ok h' p' (bins_remove x bss)"
  using eq_remove_refines [OF eq_inv_queue [OF inv] x _ fuel] eq_inv_mem [OF inv x(2)] x(1) by blast

lemma mem_bins_remove: "eq_inv q bss \<Longrightarrow> set (concat (bins_remove x bss)) = set (concat bss) - {x}"
  by (rule set_bins_remove) (simp add: eq_inv_def queue_ok_def bins_wf_def)

lemma deschedule_inv:
  assumes inv: "eq_inv q bss" and e: "eq_store q x = Some e" "ev_scheduled e" "ev_initialized e" "ev_queue e = Some (eq_self q)"
    and fuel: "length (concat bss) < fuel"
  shows "\<exists>q'. eq_deschedule False cur fuel x q = Ok (Some q') \<and> eq_inv q' (bins_remove x bss) \<and>
    eq_curTick q' = eq_curTick q \<and> eq_self q' = eq_self q \<and>
    (case eq_store q' x of None \<Rightarrow> ev_isManaged e | Some e' \<Rightarrow> \<not> ev_isManaged e \<and> \<not> ev_scheduled e') \<and>
    (\<forall>y. y \<noteq> x \<longrightarrow> map_option ev_data (eq_store q' y) = map_option ev_data (eq_store q y))"
proof -
  have x: "x \<in> set (concat bss)" using eq_inv_mem [OF inv e(1)] e(2,4) by simp
  from remove_inv [OF inv x e(1) fuel] obtain h' p' where
    r: "eq_remove fuel x q = Ok (Some (q\<lparr>eq_store := h', eq_head := p'\<rparr>))" "same_data (eq_store q) h'"
      "queue_ok h' p' (bins_remove x bss)" by blast
  from same_dataD2 [OF r(2) e(1)] obtain e' where e': "h' x = Some e'" "ev_data e' = ev_data e" by blast
  note d = ev_data_proj [OF e'(2)]
  define f where "f = e'\<lparr>ev_flags := flags_clear (flags_clear (ev_flags e') Squashed) Scheduled\<rparr>"
  have f: "\<not> ev_scheduled f" "ev_isManaged f = ev_isManaged e"
    by (simp_all add: f_def ev_isManaged_clear ev_isManaged_def [of e'] ev_isManaged_def [of e] d)
  define v where "v = (if ev_isManaged e then None else Some f)"
  define q' where "q' = q\<lparr>eq_store := h'(x := v), eq_head := p'\<rparr>"
  have run: "eq_deschedule False cur fuel x q = Ok (Some q')"
    using e r(1) e'(1) f
    by (simp add: eq_deschedule_def deref_def assertR_def update_event_def out_of_fuel_def ev_release_def q'_def v_def
        f_def [symmetric])
  have nx: "x \<notin> set (concat (bins_remove x bss))" unfolding mem_bins_remove [OF inv] by simp
  have rest: "map_option ev_data (eq_store q' y) = map_option ev_data (eq_store q y)" if "y \<noteq> x" for y
    using r(2) that by (simp add: same_data_def q'_def)
  have "eq_inv q' (bins_remove x bss)"
  proof (rule eq_inv_change [OF inv, where x = x])
    show "queue_ok (eq_store q') (eq_head q') (bins_remove x bss)"
      using queue_ok_upd [OF r(3) nx] by (simp add: q'_def)
    show "set (concat (bins_remove x bss)) - {x} = set (concat bss) - {x}" unfolding mem_bins_remove [OF inv] by simp
    fix g assume "eq_store q' x = Some g"
    then have "g = f" by (simp add: q'_def v_def split: if_splits)
    with nx f(1) show "(x \<in> set (concat (bins_remove x bss))) = (ev_scheduled g \<and> ev_queue g = Some (eq_self q)) \<and>
      (x \<in> set (concat (bins_remove x bss)) \<longrightarrow> eq_curTick q' \<le> ev_when g)" by blast
  qed (use rest eq_inv_time [OF inv] in \<open>simp_all add: q'_def\<close>)
  then show ?thesis using run rest f by (intro exI [of _ q']) (simp add: q'_def v_def)
qed

lemma reschedule_inv:
  assumes inv: "eq_inv q bss" and e: "eq_store q x = Some e" "ev_scheduled e \<longrightarrow> ev_queue e = Some (eq_self q)" "ev_initialized e"
    and w: "eq_curTick q \<le> w" "always \<or> ev_scheduled e" and fuel: "length (concat bss) < fuel"
  shows "\<exists>q'. eq_reschedule False cur fuel x w always q = Ok (Some q') \<and>
    eq_inv q' (bins_insert (key (eq_store q')) x (bins_remove x bss)) \<and>
    key (eq_store q') x = (w, sint (ev_priority e)) \<and> eq_curTick q' = eq_curTick q \<and> eq_self q' = eq_self q \<and>
    (\<forall>y. y \<noteq> x \<longrightarrow> map_option ev_data (eq_store q' y) = map_option ev_data (eq_store q y))"
proof -
  let ?b = "bins_remove x bss"
  obtain q1 e1 where r: "(if ev_scheduled e then eq_remove fuel x q else Ok (Some q)) = Ok (Some q1)"
    "same_data (eq_store q) (eq_store q1)" "queue_ok (eq_store q1) (eq_head q1) ?b" "eq_store q1 x = Some e1" "ev_data e1 = ev_data e"
    "eq_self q1 = eq_self q" "eq_curTick q1 = eq_curTick q"
  proof (cases "ev_scheduled e")
    case True
    then have x: "x \<in> set (concat bss)" using eq_inv_mem [OF inv e(1)] e(2) by simp
    from remove_inv [OF inv x e(1) fuel] obtain h' p' where
      r: "eq_remove fuel x q = Ok (Some (q\<lparr>eq_store := h', eq_head := p'\<rparr>))" "same_data (eq_store q) h'"
        "queue_ok h' p' ?b" by blast
    moreover obtain e1 where "h' x = Some e1" "ev_data e1 = ev_data e" using same_dataD2 [OF r(2) e(1)] by blast
    ultimately show ?thesis using True that [of "q\<lparr>eq_store := h', eq_head := p'\<rparr>" e1] by simp
  next
    case False
    then have "x \<notin> set (concat bss)" using eq_inv_mem [OF inv e(1)] by simp
    then have "?b = bss" using bins_remove_none eq_inv_wf [OF inv] by blast
    then show ?thesis using False that [of q e] eq_inv_queue [OF inv] e(1) by simp
  qed
  have nx: "x \<notin> set (concat ?b)" unfolding mem_bins_remove [OF inv] by simp
  have "length ?b < fuel"
    using length_filter_le [of "\<lambda>b. b \<noteq> []" "map (remove1 x) bss"] length_bins [OF eq_inv_wf [OF inv]] fuel
    unfolding bins_remove_def length_map by linarith
  from insert_at [OF r(3) nx r(4) this, of w] obtain h' p' where
    i: "eq_insert fuel x (q1\<lparr>eq_store := (eq_store q1)(x \<mapsto> ev_setWhen w (eq_self q) e1)\<rparr>) =
      Ok (Some (q1\<lparr>eq_store := h', eq_head := p'\<rparr>))"
      "same_data ((eq_store q1)(x \<mapsto> ev_setWhen w (eq_self q) e1)) h'" "queue_ok h' p' (bins_insert (key h') x ?b)"
    unfolding r(6) by blast
  from same_dataD2 [OF i(2), of x] obtain e' where e': "h' x = Some e'" "ev_data e' = ev_data (ev_setWhen w (eq_self q) e1)"
    by auto
  define h2 where "h2 = h'(x \<mapsto> e'\<lparr>ev_flags := flags_set (flags_clear (ev_flags e') Squashed) Scheduled\<rparr>)"
  define q' where "q' = q1\<lparr>eq_store := h2, eq_head := p'\<rparr>"
  have run: "eq_reschedule False cur fuel x w always q = Ok (Some q')"
    using e w r(1,4,6,7) i(1) e'(1)
    by (simp add: eq_reschedule_def deref_def assertR_def update_event_def out_of_fuel_def h2_def q'_def)
  have k: "key h2 = key h'" using e'(1) by (auto simp: key_def ev_key_def h2_def)
  have rest: "map_option ev_data (eq_store q' y) = map_option ev_data (eq_store q y)" if "y \<noteq> x" for y
    using i(2) r(2) that by (simp add: same_data_def h2_def q'_def)
  have "eq_inv q' (bins_insert (key h2) x ?b)"
  proof (rule eq_inv_change [OF inv, where x = x])
    show "queue_ok (eq_store q') (eq_head q') (bins_insert (key h2) x ?b)"
      using queue_ok_flags [where h = h', OF i(3) e'(1)] unfolding k by (simp add: h2_def q'_def)
    show "set (concat (bins_insert (key h2) x ?b)) - {x} = set (concat bss) - {x}"
      unfolding set_bins_insert mem_bins_remove [OF inv] by simp
  qed (use ev_data_proj [OF e'(2)] w r(6,7) rest eq_inv_time [OF inv] in
      \<open>simp_all add: ev_setWhen_def q'_def h2_def set_bins_insert [unfolded set_concat]\<close>)
  moreover have "key h2 x = (w, sint (ev_priority e))"
    using ev_data_proj [OF e'(2)] ev_data_proj [OF r(5)] by (simp add: key_def ev_key_def h2_def ev_setWhen_def)
  ultimately show ?thesis using run rest r(6,7) by (intro exI [of _ q']) (simp add: q'_def)
qed


section \<open>Serving the queue\<close>

text \<open>The loop of \<^verbatim>\<open>serviceEvents\<close> over any server of a queue of bins, and what it does to the bins.\<close>

fun serve_while :: "nat \<Rightarrow> ('s \<Rightarrow> bool) \<Rightarrow> ('s \<Rightarrow> 's result) \<Rightarrow> 's \<Rightarrow> 's option result" where
  "serve_while 0 go serve s = Ok None"
| "serve_while (Suc n) go serve s = (if go s then bindR (serve s) (serve_while n go serve) else Ok (Some s))"

definition bins_pop :: "nat list list \<Rightarrow> nat list list" where
  "bins_pop bss = (if tl (hd bss) = [] then tl bss else tl (hd bss) # tl bss)"

locale event_server =
  fixes good :: "'s \<Rightarrow> nat list list \<Rightarrow> bool"
    and go :: "'s \<Rightarrow> bool"
    and serve :: "'s \<Rightarrow> 's result"
    and obs :: "'s \<Rightarrow> 'o"
    and act :: "nat \<Rightarrow> 'o \<Rightarrow> 'o"
    and due :: "nat \<Rightarrow> bool"
  assumes good_bins: "good s bss \<Longrightarrow> b \<in> set bss \<Longrightarrow> b \<noteq> [] \<and> (\<forall>x\<in>set b. due x = due (hd b))"
    and go_due: "good s bss \<Longrightarrow> go s \<longleftrightarrow> bss \<noteq> [] \<and> due (hd (hd bss))"
    and serve_pops: "good s (b # bs) \<Longrightarrow>
      \<exists>s'. serve s = Ok s' \<and> good s' (bins_pop (b # bs)) \<and> obs s' = act (hd b) (obs s)"
begin

lemma serve_while_drains:
  assumes "good s bss" "length (concat bss) < fuel"
  shows "\<exists>s'. serve_while fuel go serve s = Ok (Some s') \<and> good s' (dropWhile (\<lambda>b. due (hd b)) bss) \<and>
    obs s' = fold act (concat (takeWhile (\<lambda>b. due (hd b)) bss)) (obs s)"
  using assms
proof (induction fuel arbitrary: s bss)
  case (Suc fuel)
  show ?case
  proof (cases "go s")
    case False
    then have "bss = [] \<or> \<not> due (hd (hd bss))" using go_due [OF Suc.prems(1)] by blast
    then show ?thesis using False Suc.prems(1) by (cases bss) auto
  next
    case True
    then obtain b bs where bss: "bss = b # bs" and d: "due (hd b)" using go_due [OF Suc.prems(1)] by (cases bss) auto
    obtain s1 where s1: "serve s = Ok s1" "good s1 (bins_pop (b # bs))" "obs s1 = act (hd b) (obs s)"
      using serve_pops [OF Suc.prems(1) [unfolded bss]] by blast
    obtain x xs where b: "b = x # xs" using good_bins [OF Suc.prems(1), of b] bss by (cases b) auto
    have "length (concat (bins_pop (b # bs))) < fuel" using Suc.prems(2) by (simp add: bss b bins_pop_def)
    from Suc.IH [OF s1(2) this] obtain s' where
      s': "serve_while fuel go serve s1 = Ok (Some s')" "good s' (dropWhile (\<lambda>b. due (hd b)) (bins_pop (b # bs)))"
        "obs s' = fold act (concat (takeWhile (\<lambda>b. due (hd b)) (bins_pop (b # bs)))) (obs s1)" by blast
    have "xs \<noteq> [] \<Longrightarrow> due (hd xs)"
      using good_bins [OF Suc.prems(1), of b] d by (auto simp: bss b)
    then show ?thesis using s' s1 True d
      by (intro exI [of _ s']) (auto simp: bss b bins_pop_def split: if_splits)
  qed
qed simp

end

section \<open>The event queue as a server\<close>

lemma pop_bins_remove: "bins_wf k (b # bs) \<Longrightarrow> bins_remove (hd b) (b # bs) = bins_pop (b # bs)"
  using bins_remove_split [of k "[]" b bs "hd b"] by (cases b) (auto simp: bins_wf_Cons bins_pop_def)

lemma head_minimal: "bins_wf k (b # bs) \<Longrightarrow> y \<in> set (concat (b # bs)) \<Longrightarrow> k (hd b) \<le> k y"
proof -
  assume w: "bins_wf k (b # bs)" and "y \<in> set (concat (b # bs))"
  then consider "y \<in> set b" | c where "c \<in> set bs" "y \<in> set c" by auto
  then show ?thesis
  proof cases
    case 1
    then show ?thesis using w unfolding bins_wf_Cons same_key_def by (metis order_refl)
  next
    case 2
    then have "same_key k c" "k (hd b) < k (hd c)" using w by (auto simp: bins_wf_def)
    moreover from this(1) 2(2) have "k y = k (hd c)" unfolding same_key_def by blast
    ultimately show ?thesis by simp
  qed
qed

lemma pop_inv:
  assumes inv: "eq_inv q (b # bs)" and e: "eq_store q (hd b) = Some e"
  shows "\<exists>q1 e1. pop_head q = Ok (hd b, q1) \<and> eq_store q1 (hd b) = Some e1 \<and>
    ev_data e1 = ev_data (e\<lparr>ev_flags := flags_clear (ev_flags e) Scheduled\<rparr>) \<and>
    (\<forall>t. eq_curTick q \<le> t \<longrightarrow> t \<le> ev_when e \<longrightarrow> eq_inv (q1\<lparr>eq_curTick := t\<rparr>) (bins_pop (b # bs))) \<and>
    eq_curTick q1 = eq_curTick q \<and> eq_self q1 = eq_self q \<and>
    (\<forall>y. y \<noteq> hd b \<longrightarrow> map_option ev_data (eq_store q1 y) = map_option ev_data (eq_store q y))"
proof -
  note w = eq_inv_wf [OF inv]
  from pop_head_refines [OF eq_inv_queue [OF inv] e] obtain h' p' where
    p: "pop_head q = Ok (hd b, q\<lparr>eq_store := h', eq_head := p'\<rparr>)"
      "same_data ((eq_store q)(hd b \<mapsto> e\<lparr>ev_flags := flags_clear (ev_flags e) Scheduled\<rparr>)) h'"
      "queue_ok h' p' (bins_pop (b # bs))" unfolding pop_bins_remove [OF w] by blast
  from same_dataD2 [OF p(2), of "hd b"] obtain e1 where
    e1: "h' (hd b) = Some e1" "ev_data e1 = ev_data (e\<lparr>ev_flags := flags_clear (ev_flags e) Scheduled\<rparr>)" by auto
  have rest: "map_option ev_data (h' y) = map_option ev_data (eq_store q y)" if "y \<noteq> hd b" for y
    using p(2) that by (simp add: same_data_def)
  have m: "set (concat (bins_pop (b # bs))) = set (concat (b # bs)) - {hd b}"
    unfolding pop_bins_remove [OF w, symmetric] by (rule mem_bins_remove [OF inv])
  have "eq_inv (q\<lparr>eq_store := h', eq_head := p', eq_curTick := t\<rparr>) (bins_pop (b # bs))" if t: "t \<le> ev_when e" for t
  proof (rule eq_inv_change [OF inv, where x = "hd b"])
    show "set (concat (bins_pop (b # bs))) - {hd b} = set (concat (b # bs)) - {hd b}" unfolding m by blast
    fix f assume "eq_store (q\<lparr>eq_store := h', eq_head := p', eq_curTick := t\<rparr>) (hd b) = Some f"
    then have "\<not> ev_scheduled f" using e1 ev_data_proj(1) [OF e1(2)]
      by (simp add: ev_scheduled_def flags_isSet_noneSet)
    then show "(hd b \<in> set (concat (bins_pop (b # bs)))) = (ev_scheduled f \<and> ev_queue f = Some (eq_self q)) \<and>
      (hd b \<in> set (concat (bins_pop (b # bs))) \<longrightarrow>
        eq_curTick (q\<lparr>eq_store := h', eq_head := p', eq_curTick := t\<rparr>) \<le> ev_when f)" unfolding m by blast
  next
    fix y f assume y: "y \<in> set (concat (b # bs))" "eq_store q y = Some f"
    have "ev_when e \<le> ev_when f" using head_minimal [OF w y(1)] e y(2) by (auto simp: key_def ev_key_def less_eq_prod_def)
    then show "eq_curTick (q\<lparr>eq_store := h', eq_head := p', eq_curTick := t\<rparr>) \<le> ev_when f" using t by simp
  qed (use p(3) rest in simp_all)
  then show ?thesis using p(1) e1 rest by (intro exI [of _ "q\<lparr>eq_store := h', eq_head := p'\<rparr>"] exI [of _ e1]) simp
qed


text \<open>Processes that only act on the rest of the simulator, and what a queue of their events looks like.\<close>

definition quiet :: "(nat \<Rightarrow> 'w \<Rightarrow> 'w) \<Rightarrow> nat \<Rightarrow> 'w \<times> EventQueue \<Rightarrow> ('w \<times> EventQueue) result" where
  "quiet f x wq = Ok (f x (fst wq), snd wq)"

definition ev_described :: "(nat \<Rightarrow> Tick \<times> int) \<Rightarrow> (nat \<Rightarrow> bool) \<Rightarrow> nat \<Rightarrow> Event \<Rightarrow> bool" where
  "ev_described k sq x e \<longleftrightarrow> ev_key e = k x \<and> ev_squashed e = sq x \<and>
     \<not> (ev_isExitEvent e \<and> ev_isManaged e \<and> flags_isSet (ev_flags e) IsMainQueue)"

definition sim_good :: "(nat \<Rightarrow> Tick \<times> int) \<Rightarrow> (nat \<Rightarrow> bool) \<Rightarrow> 'w \<times> EventQueue \<Rightarrow> nat list list \<Rightarrow> bool" where
  "sim_good k sq wq bss \<longleftrightarrow> eq_inv (snd wq) bss \<and>
     (\<forall>x\<in>set (concat bss). \<exists>e. eq_store (snd wq) x = Some e \<and> ev_described k sq x e)"

definition sim_serve :: "(nat \<Rightarrow> 'w \<Rightarrow> 'w) \<Rightarrow> 'w \<times> EventQueue \<Rightarrow> ('w \<times> EventQueue) result" where
  "sim_serve f wq = bindR (serviceOne (quiet f) wq) (\<lambda>(_, wq). Ok wq)"

definition sim_due :: "Tick \<Rightarrow> 'w \<times> EventQueue \<Rightarrow> bool" where
  "sim_due t wq \<longleftrightarrow> (case eq_nextTick (snd wq) of Ok n \<Rightarrow> n \<le> t | Error _ \<Rightarrow> False)"

lemma eq_inv_upd:
  assumes "eq_inv q bss" "x \<notin> set (concat bss)" "\<And>e. v = Some e \<Longrightarrow> \<not> ev_scheduled e"
  shows "eq_inv (q\<lparr>eq_store := (eq_store q)(x := v)\<rparr>) bss"
  by (rule eq_inv_change [OF assms(1), where x = x])
    (use assms queue_ok_upd [OF eq_inv_queue [OF assms(1)] assms(2)] eq_inv_time [OF assms(1)] in auto)

lemma ev_described_data: "ev_data e' = ev_data e \<Longrightarrow> ev_described k sq x e' = ev_described k sq x e"
  using ev_data_proj [of e' e]
  by (simp add: ev_described_def ev_key_def ev_squashed_def ev_isExitEvent_def ev_isManaged_def)

lemma flags_after_pop:
  assumes "ev_data e1 = ev_data (e\<lparr>ev_flags := flags_clear (ev_flags e) Scheduled\<rparr>)"
  shows "\<not> ev_scheduled e1" "ev_squashed e1 = ev_squashed e" "ev_isExitEvent e1 = ev_isExitEvent e"
    "ev_isManaged e1 = ev_isManaged e" "flags_isSet (ev_flags e1) IsMainQueue = flags_isSet (ev_flags e) IsMainQueue"
    "ev_when e1 = ev_when e"
  using ev_data_proj [OF assms]
  by (simp_all add: ev_scheduled_def ev_squashed_def ev_isExitEvent_def ev_isManaged_def flags_isSet_clear_disjoint
      event_flag_defs) (simp add: flags_isSet_def flags_clear_def and.assoc)

lemma serviceOne_quiet:
  assumes g: "sim_good k sq (w, q) (b # bs)"
  shows "\<exists>r q'. serviceOne (quiet f) (w, q) = Ok (r, (if sq (hd b) then w else f (hd b) w), q') \<and>
    eq_inv q' (bins_pop (b # bs)) \<and> eq_curTick q' = (if sq (hd b) then eq_curTick q else fst (k (hd b))) \<and>
    (\<forall>y. y \<noteq> hd b \<longrightarrow> map_option ev_data (eq_store q' y) = map_option ev_data (eq_store q y))"
proof -
  have inv: "eq_inv q (b # bs)" using g by (simp add: sim_good_def)
  then have "hd b \<in> set (concat (b # bs))" using eq_inv_wf [OF inv] by (simp add: bins_wf_Cons)
  then obtain e where e: "eq_store q (hd b) = Some e" "ev_described k sq (hd b) e" using g unfolding sim_good_def by auto
  have le: "eq_curTick q \<le> ev_when e" using eq_inv_time [OF inv \<open>hd b \<in> set (concat (b # bs))\<close> e(1)] .
  from pop_inv [OF inv e(1)] obtain q1 e1 where p: "pop_head q = Ok (hd b, q1)" "eq_store q1 (hd b) = Some e1"
    "ev_data e1 = ev_data (e\<lparr>ev_flags := flags_clear (ev_flags e) Scheduled\<rparr>)"
    "\<forall>t. eq_curTick q \<le> t \<longrightarrow> t \<le> ev_when e \<longrightarrow> eq_inv (q1\<lparr>eq_curTick := t\<rparr>) (bins_pop (b # bs))"
    "eq_curTick q1 = eq_curTick q"
    "\<forall>y. y \<noteq> hd b \<longrightarrow> map_option ev_data (eq_store q1 y) = map_option ev_data (eq_store q y)" by blast
  note fl = flags_after_pop [OF p(3)]
  have nx: "hd b \<notin> set (concat (bins_pop (b # bs)))"
    unfolding pop_bins_remove [OF eq_inv_wf [OF inv], symmetric] mem_bins_remove [OF inv] by simp
  have sq: "ev_squashed e = sq (hd b)" "k (hd b) = ev_key e" using e(2) by (simp_all add: ev_described_def)
  show ?thesis
  proof (cases "sq (hd b)")
    case True
    define f where "f = e1\<lparr>ev_flags := flags_clear (ev_flags e1) Squashed\<rparr>"
    have f: "\<not> ev_scheduled f" using fl(1) by (simp add: f_def ev_scheduled_def flags_isSet_clear_disjoint event_flag_defs)
    define v where "v = (if ev_isManaged f then None else Some f)"
    define q' where "q' = q1\<lparr>eq_store := (eq_store q1)(hd b := v)\<rparr>"
    have "eq_inv (q1\<lparr>eq_curTick := eq_curTick q\<rparr>) (bins_pop (b # bs))" using p(4) le by simp
    then have "eq_inv q1 (bins_pop (b # bs))" using p(5) by (cases q1) simp
    then have "eq_inv q' (bins_pop (b # bs))"
      unfolding q'_def by (rule eq_inv_upd [OF _ nx]) (use f in \<open>auto simp: v_def split: if_splits\<close>)
    moreover have "serviceOne (quiet g) (w, q) = Ok (None, w, q')" for g :: "nat \<Rightarrow> 'a \<Rightarrow> 'a"
      using p(1,2) True sq f fl by (simp add: serviceOne_def deref_def update_event_def ev_release_def q'_def v_def f_def)
    ultimately show ?thesis using True p(5,6) by (simp add: q'_def)
  next
    case False
    define q2 where "q2 = q1\<lparr>eq_curTick := ev_when e\<rparr>"
    have inv2: "eq_inv q2 (bins_pop (b # bs))" using p(4) le by (simp add: q2_def)
    define q' where "q' = (if \<not> ev_isExitEvent e \<and> ev_isManaged e then q2\<lparr>eq_store := (eq_store q2)(hd b := None)\<rparr> else q2)"
    have "eq_inv q' (bins_pop (b # bs))"
      unfolding q'_def using inv2 eq_inv_upd [OF inv2 nx, of None] by simp
    moreover have "serviceOne (quiet f) (w, q) = Ok (if ev_isExitEvent e then Some (hd b) else None, f (hd b) w, q')"
      using p(1,2) False sq fl e(2)
      by (auto simp: serviceOne_def quiet_def deref_def ev_release_def q'_def q2_def assertR_def ev_described_def)
    ultimately show ?thesis using False p(6) sq(2) by (simp add: q'_def q2_def ev_key_def)
  qed
qed

lemma sim_good_keys:
  assumes "sim_good k sq wq bss" "b \<in> set bss"
  shows "b \<noteq> [] \<and> (\<forall>x\<in>set b. k x = k (hd b))"
proof -
  have w: "bins_wf (key (eq_store (snd wq))) bss" using assms(1) eq_inv_wf by (simp add: sim_good_def)
  have "key (eq_store (snd wq)) x = k x" if "x \<in> set (concat bss)" for x
    using assms(1) that unfolding sim_good_def ev_described_def key_def by fastforce
  then have "bins_wf k bss" by (rule bins_wf_cong [OF _ w])
  then have "b \<noteq> []" "same_key k b" using assms(2) by (auto simp: bins_wf_def)
  then show ?thesis unfolding same_key_def by blast
qed

lemma sim_good_step:
  assumes g: "sim_good k sq (w, q) (b # bs)" and inv: "eq_inv q' (bins_pop (b # bs))"
    and rest: "\<forall>y. y \<noteq> hd b \<longrightarrow> map_option ev_data (eq_store q' y) = map_option ev_data (eq_store q y)"
  shows "sim_good k sq (w', q') (bins_pop (b # bs))"
  unfolding sim_good_def
proof (intro conjI ballI)
  fix y assume y: "y \<in> set (concat (bins_pop (b # bs)))"
  have i: "eq_inv q (b # bs)" using g by (simp add: sim_good_def)
  have "y \<in> set (concat (b # bs)) - {hd b}"
    using y unfolding pop_bins_remove [OF eq_inv_wf [OF i], symmetric] mem_bins_remove [OF i] .
  moreover from this obtain e where e: "eq_store q y = Some e" "ev_described k sq y e" using g unfolding sim_good_def by auto
  ultimately obtain e' where "eq_store q' y = Some e'" "ev_data e' = ev_data e"
    using rest by (metis DiffD2 map_option_eq_Some option.simps(9) singletonI)
  with e(2) show "\<exists>e. eq_store (snd (w', q')) y = Some e \<and> ev_described k sq y e"
    unfolding snd_conv using ev_described_data [of e' e k sq y] by blast
qed (simp add: inv)

interpretation sim: event_server "sim_good k sq" "sim_due t" "sim_serve f" fst
  "\<lambda>x. if sq x then id else f x" "\<lambda>x. fst (k x) \<le> t" for k sq f t
proof unfold_locales
  fix s :: "'a \<times> EventQueue" and bss b
  assume "sim_good k sq s bss" "b \<in> set bss"
  from sim_good_keys [OF this] show "b \<noteq> [] \<and> (\<forall>x\<in>set b. (fst (k x) \<le> t) = (fst (k (hd b)) \<le> t))" by metis
next
  fix s :: "'a \<times> EventQueue" and bss
  assume g: "sim_good k sq s bss"
  then have b: "bins (eq_store (snd s)) (eq_head (snd s)) bss" by (simp add: sim_good_def eq_inv_def queue_ok_def)
  show "sim_due t s = (bss \<noteq> [] \<and> fst (k (hd (hd bss))) \<le> t)"
  proof (cases bss)
    case Nil
    then show ?thesis using b by (simp add: sim_due_def eq_nextTick_def deref_ptr_def)
  next
    case (Cons c cs)
    then have "hd c \<in> set (concat bss)" using b by (cases c) auto
    then obtain e where e: "eq_store (snd s) (hd c) = Some e" "ev_described k sq (hd c) e" using g unfolding sim_good_def by blast
    have "eq_head (snd s) = Some (hd c)" using b Cons by (cases c) auto
    then show ?thesis using e Cons
      by (simp add: sim_due_def eq_nextTick_def deref_ptr_def deref_def ev_described_def ev_key_def) (metis fst_conv)
  qed
next
  fix s :: "'a \<times> EventQueue" and b bs
  assume g: "sim_good k sq s (b # bs)"
  obtain w q where s: "s = (w, q)" by (cases s)
  from serviceOne_quiet [of k sq w q b bs f] g obtain r q' where
    r: "serviceOne (quiet f) (w, q) = Ok (r, (if sq (hd b) then w else f (hd b) w), q')" "eq_inv q' (bins_pop (b # bs))"
    "\<forall>y. y \<noteq> hd b \<longrightarrow> map_option ev_data (eq_store q' y) = map_option ev_data (eq_store q y)" unfolding s by blast
  have "sim_good k sq (w', q') (bins_pop (b # bs))" for w' :: 'a using sim_good_step [OF g [unfolded s] r(2,3)] .
  with r(1) show "\<exists>s'. sim_serve f s = Ok s' \<and> sim_good k sq s' (bins_pop (b # bs)) \<and>
    fst s' = (if sq (hd b) then id else f (hd b)) (fst s)" by (simp add: sim_serve_def s)
qed


lemma serviceEvents_while:
  "sim_good k sq s bss \<Longrightarrow>
   serviceEvents fuel (quiet f) t s =
     bindR (serve_while fuel (sim_due t) (sim_serve f) s) (\<lambda>r. Ok (map_option (\<lambda>(w, q). (w, q\<lparr>eq_curTick := t\<rparr>)) r))"
proof (induction fuel arbitrary: s bss)
  case (Suc fuel)
  obtain w q where s: "s = (w, q)" by (cases s)
  have b: "bins (eq_store q) (eq_head q) bss" using Suc.prems by (simp add: s sim_good_def eq_inv_def queue_ok_def)
  show ?case
  proof (cases bss)
    case Nil
    then show ?thesis using b by (simp add: s sim_due_def eq_nextTick_def deref_ptr_def)
  next
    case (Cons c cs)
    with b obtain e where e: "eq_head q = Some (hd c)" "eq_store q (hd c) = Some e" by (cases c) auto
    from sim.serve_pops [of k sq s c cs f] Suc.prems Cons obtain s' where
      s': "sim_serve f s = Ok s'" "sim_good k sq s' (bins_pop (c # cs))" by blast
    then obtain r where "serviceOne (quiet f) s = Ok (r, s')"
      unfolding sim_serve_def by (cases "serviceOne (quiet f) s") auto
    then show ?thesis using s' Suc.IH [OF s'(2)] e
      by (auto simp: s sim_due_def eq_nextTick_def deref_ptr_def deref_def not_le)
  qed
qed simp

lemma concat_sorted: "bins_wf k bss \<Longrightarrow> sorted (map k (concat bss))"
proof (induction bss)
  case (Cons b bs)
  have "\<forall>x\<in>set b. k x = k (hd b)" using Cons.prems unfolding bins_wf_Cons same_key_def by blast
  then have "map k b = map (\<lambda>_. k (hd b)) b" by (intro map_cong) blast+
  then have "sorted (map k b)" by (simp add: map_replicate_const)
  moreover have "sorted (map k (concat bs))" using Cons by (simp add: bins_wf_Cons)
  moreover have "k x \<le> k y" if "x \<in> set b" "y \<in> set (concat bs)" for x y
  proof -
    have "k x = k (hd b)" using Cons.prems that(1) unfolding bins_wf_Cons same_key_def by blast
    then show ?thesis using head_minimal [OF Cons.prems, of y] that(2) by simp
  qed
  ultimately show ?case by (auto simp: sorted_append)
qed simp

lemma eq_inv_set_tick:
  "eq_inv q bss \<Longrightarrow> (\<And>x e. x \<in> set (concat bss) \<Longrightarrow> eq_store q x = Some e \<Longrightarrow> t \<le> ev_when e) \<Longrightarrow> eq_inv (q\<lparr>eq_curTick := t\<rparr>) bss"
  by (auto simp: eq_inv_def)

lemma not_due_later:
  assumes "bins_wf k bss" "x \<in> set (concat (dropWhile (\<lambda>b. fst (k (hd b)) \<le> t) bss))"
  shows "t \<le> fst (k x)"
  using assms
proof (induction bss)
  case (Cons b bs)
  show ?case
  proof (cases "fst (k (hd b)) \<le> t")
    case True
    then show ?thesis using Cons by (simp add: bins_wf_Cons)
  next
    case False
    then have "k (hd b) \<le> k x" using head_minimal [OF Cons.prems(1), of x] Cons.prems(2) by simp
    then show ?thesis using False by (auto simp: less_eq_prod_def)
  qed
qed simp

lemma run_order:
  assumes inv: "eq_inv q bss" and fuel: "length (concat bss) < fuel"
    and main: "\<forall>x\<in>set (concat bss). \<not> (ev_isExitEvent (the (eq_store q x)) \<and> ev_isManaged (the (eq_store q x)) \<and>
      flags_isSet (ev_flags (the (eq_store q x))) IsMainQueue)"
  shows "\<exists>q'. serviceEvents fuel (quiet f) t (w, q) = Ok (Some (
      fold f (filter (\<lambda>x. \<not> ev_squashed (the (eq_store q x)))
        (concat (takeWhile (\<lambda>b. fst (key (eq_store q) (hd b)) \<le> t) bss))) w, q')) \<and>
    eq_inv q' (dropWhile (\<lambda>b. fst (key (eq_store q) (hd b)) \<le> t) bss) \<and> eq_curTick q' = t"
proof -
  let ?k = "key (eq_store q)" and ?sq = "\<lambda>x. ev_squashed (the (eq_store q x))"
  have good: "sim_good ?k ?sq (w, q) bss"
    using inv main eq_inv_stored [OF inv] unfolding sim_good_def ev_described_def key_def by fastforce
  from sim.serve_while_drains [OF good fuel, of t f] obtain s' where
    s': "serve_while fuel (sim_due t) (sim_serve f) (w, q) = Ok (Some s')"
      "sim_good ?k ?sq s' (dropWhile (\<lambda>b. fst (?k (hd b)) \<le> t) bss)"
      "fst s' = fold (\<lambda>x. if ?sq x then id else f x) (concat (takeWhile (\<lambda>b. fst (?k (hd b)) \<le> t) bss)) w" by auto
  have fold: "fold (\<lambda>x. if ?sq x then id else f x) xs w = fold f (filter (\<lambda>x. \<not> ?sq x) xs) w" for xs w
    by (induction xs arbitrary: w) auto
  have "eq_inv ((snd s')\<lparr>eq_curTick := t\<rparr>) (dropWhile (\<lambda>b. fst (?k (hd b)) \<le> t) bss)"
  proof (rule eq_inv_set_tick)
    show "eq_inv (snd s') (dropWhile (\<lambda>b. fst (?k (hd b)) \<le> t) bss)" using s'(2) by (simp add: sim_good_def)
    fix x e assume x: "x \<in> set (concat (dropWhile (\<lambda>b. fst (?k (hd b)) \<le> t) bss))" "eq_store (snd s') x = Some e"
    have "ev_key e = ?k x" using s'(2) x unfolding sim_good_def ev_described_def by fastforce
    then have "ev_when e = fst (?k x)" by (metis ev_key_def fst_conv)
    with not_due_later [OF eq_inv_wf [OF inv] x(1)] show "t \<le> ev_when e" by simp
  qed
  then show ?thesis using serviceEvents_while [OF good, of fuel f t] s'(1,3)
    by (cases s') (auto simp: fold)
qed

section \<open>Debugging aids\<close>

lemma bin_events_ok: "inbin h p b \<Longrightarrow> length b < fuel \<Longrightarrow> bin_events fuel h p = Ok (Some b)"
proof (induction b arbitrary: p fuel)
  case Nil
  then show ?case by (cases fuel) auto
next
  case (Cons x xs)
  then show ?case by (cases fuel) (auto simp: deref_def out_of_fuel_def)
qed

lemma queue_events_ok: "bins h p bss \<Longrightarrow> length (concat bss) < fuel \<Longrightarrow> queue_events fuel h p = Ok (Some (concat bss))"
proof (induction bss arbitrary: p fuel)
  case Nil
  then show ?case by (cases fuel) auto
next
  case (Cons b bs)
  then obtain e x xs n where e: "b = x # xs" "inbin h p b" "h x = Some e" "bins h (nextBin e) bs" "fuel = Suc n" "p = Some x"
    by (cases fuel; cases b) auto
  have "queue_events n h (nextBin e) = Ok (Some (concat bs))" using Cons e by simp
  moreover have "bin_events (Suc n) h p = Ok (Some b)" by (rule bin_events_ok [OF e(2)]) (use Cons.prems(2) e(5) in simp)
  ultimately show ?case using e by (simp add: deref_def out_of_fuel_def del: bin_events.simps)
qed

lemma verify_events_ok:
  "sorted (map (key h) xs) \<Longrightarrow> distinct xs \<Longrightarrow> set xs \<inter> set seen = {} \<Longrightarrow> (\<And>x. x \<in> set xs \<Longrightarrow> h x \<noteq> None) \<Longrightarrow>
   verify_events h time pri seen xs = Ok (xs = [] \<or> (time, sint pri) \<le> key h (hd xs))"
proof (induction xs arbitrary: time pri seen)
  case (Cons x xs)
  obtain e where e: "h x = Some e" using Cons.prems(4) by auto
  have k: "key h x = (ev_when e, sint (ev_priority e))" using e by (simp add: key_def ev_key_def)
  have IH: "verify_events h (ev_when e) (ev_priority e) (x # seen) xs = Ok True"
  proof -
    have "xs \<noteq> [] \<Longrightarrow> key h x \<le> key h (hd xs)" using Cons.prems(1) by (cases xs) auto
    moreover have "verify_events h (ev_when e) (ev_priority e) (x # seen) xs = Ok (xs = [] \<or> key h x \<le> key h (hd xs))"
      using Cons.IH [of "x # seen" "ev_when e" "ev_priority e"] Cons.prems unfolding k by auto
    ultimately show ?thesis by auto
  qed
  show ?case using Cons.prems(3) e IH k by (auto simp: deref_def less_eq_prod_def)
qed simp


section \<open>Properties\<close>

definition queued :: "Tick \<Rightarrow> i8 \<Rightarrow> nat option \<Rightarrow> nat option \<Rightarrow> Event" where
  "queued w p nb nib = \<lparr>nextBin = nb, nextInBin = nib, ev_when = w, ev_priority = p,
     ev_flags = Initialized OR Scheduled, ev_queue = Some 0\<rparr>"

definition idle :: "i8 \<Rightarrow> Event" where
  "idle p = \<lparr>nextBin = None, nextInBin = None, ev_when = 0, ev_priority = p, ev_flags = Initialized, ev_queue = None\<rparr>"

text \<open>A queue at tick 3 with event 1 at tick 5, events 2 and 3 at tick 7, and an idle event 4.\<close>

definition sample_queue :: EventQueue where
  "sample_queue = \<lparr>eq_self = 0,
     eq_store = [1 \<mapsto> queued 5 0 (Some 3) None, 2 \<mapsto> queued 7 0 None None, 3 \<mapsto> queued 7 0 None (Some 2), 4 \<mapsto> idle 0],
     eq_head = Some 1, eq_curTick = 3, eq_async = []\<rparr>"

lemma sample_queue_inv: "eq_inv sample_queue [[1], [3, 2]]"
  by (auto simp: eq_inv_def sample_queue_def queue_ok_def bins_wf_def same_key_def key_def ev_key_def queued_def idle_def
      ev_scheduled_def flags_isSet_def event_flag_defs)

text \<open>C6: Scheduling an idle event for the present or the future never fails: the linked bins of the queue are then the
  sorted stacks with the event on top of the stack of its time and priority, the event carries its time, no other event
  changes, and the queue still holds exactly the events flagged as scheduled on it.\<close>

theorem schedule_spec:
  assumes "eq_inv q bss" "eq_store q x = Some e" "\<not> ev_scheduled e" "ev_initialized e" "eq_curTick q \<le> w" "length bss < fuel"
  shows "\<exists>q'. eq_schedule False cur fuel x w g q = Ok (Some q') \<and> eq_inv q' (bins_insert (key (eq_store q')) x bss) \<and>
    key (eq_store q') x = (w, sint (ev_priority e)) \<and> eq_curTick q' = eq_curTick q \<and>
    (\<forall>y. y \<noteq> x \<longrightarrow> map_option ev_data (eq_store q' y) = map_option ev_data (eq_store q y))"
  using schedule_inv [OF assms] by blast

theorem schedule_spec_witness:
  "\<exists>q'. eq_schedule False 0 3 4 7 False sample_queue = Ok (Some q') \<and>
     eq_inv q' (bins_insert (key (eq_store q')) 4 [[1], [3, 2]]) \<and> key (eq_store q') 4 = (7, 0)"
  using schedule_spec [OF sample_queue_inv, of 4 "idle 0" 7 3 0 False]
  by (auto simp: sample_queue_def idle_def ev_scheduled_def ev_initialized_def flags_isSet_def event_flag_defs)

text \<open>C7: Descheduling an event that is scheduled on the queue removes exactly that event from the bins; it is no longer
  flagged, and deleted when it is managed; no other event changes.\<close>

theorem deschedule_spec:
  assumes "eq_inv q bss" "eq_store q x = Some e" "ev_scheduled e" "ev_initialized e" "ev_queue e = Some (eq_self q)"
    "length (concat bss) < fuel"
  shows "\<exists>q'. eq_deschedule False cur fuel x q = Ok (Some q') \<and> eq_inv q' (bins_remove x bss) \<and>
    set (concat (bins_remove x bss)) = set (concat bss) - {x} \<and> eq_curTick q' = eq_curTick q \<and>
    (case eq_store q' x of None \<Rightarrow> ev_isManaged e | Some e' \<Rightarrow> \<not> ev_isManaged e \<and> \<not> ev_scheduled e') \<and>
    (\<forall>y. y \<noteq> x \<longrightarrow> map_option ev_data (eq_store q' y) = map_option ev_data (eq_store q y))"
  using deschedule_inv [OF assms] mem_bins_remove [OF assms(1)] by metis

theorem deschedule_spec_witness:
  "\<exists>q'. eq_deschedule False 0 4 2 sample_queue = Ok (Some q') \<and> eq_inv q' [[1], [3]]"
  using deschedule_spec [OF sample_queue_inv, of 2 "queued 7 0 None None" 4 0]
  by (auto simp: sample_queue_def queued_def ev_scheduled_def ev_initialized_def flags_isSet_def event_flag_defs bins_remove_def)

text \<open>C8: Rescheduling moves a scheduled event (or, with \<^verbatim>\<open>always\<close>, queues an idle one) to the top of the stack of its new
  time, and keeps the invariant of the queue.\<close>

theorem reschedule_spec:
  assumes "eq_inv q bss" "eq_store q x = Some e" "ev_scheduled e \<longrightarrow> ev_queue e = Some (eq_self q)" "ev_initialized e"
    "eq_curTick q \<le> w" "always \<or> ev_scheduled e" "length (concat bss) < fuel"
  shows "\<exists>q'. eq_reschedule False cur fuel x w always q = Ok (Some q') \<and>
    eq_inv q' (bins_insert (key (eq_store q')) x (bins_remove x bss)) \<and>
    key (eq_store q') x = (w, sint (ev_priority e)) \<and> eq_curTick q' = eq_curTick q \<and>
    (\<forall>y. y \<noteq> x \<longrightarrow> map_option ev_data (eq_store q' y) = map_option ev_data (eq_store q y))"
  using reschedule_inv [OF assms] by blast

theorem reschedule_spec_witness:
  "\<exists>q'. eq_reschedule False 0 4 3 5 False sample_queue = Ok (Some q') \<and>
     eq_inv q' (bins_insert (key (eq_store q')) 3 [[1], [2]]) \<and> key (eq_store q') 3 = (5, 0)"
  using reschedule_spec [OF sample_queue_inv, of 3 "queued 7 0 None (Some 2)" 5 False 4 0]
  by (auto simp: sample_queue_def queued_def ev_scheduled_def ev_initialized_def flags_isSet_def event_flag_defs bins_remove_def)

text \<open>C5: With processes that leave the queue alone, \<^verbatim>\<open>serviceEvents(t)\<close> returns after servicing exactly the events due
  by \<open>t\<close> that are not squashed, in the order of time, then priority, then last in first out; the queue keeps the later
  events and the clock stands at \<open>t\<close>.\<close>

theorem service_order:
  assumes "eq_inv q bss" "length (concat bss) < fuel"
    "\<forall>x\<in>set (concat bss). \<not> (ev_isExitEvent (the (eq_store q x)) \<and> ev_isManaged (the (eq_store q x)) \<and>
      flags_isSet (ev_flags (the (eq_store q x))) IsMainQueue)"
  shows "\<exists>q'. serviceEvents fuel (quiet f) t (w, q) = Ok (Some (
      fold f (filter (\<lambda>x. \<not> ev_squashed (the (eq_store q x)))
        (concat (takeWhile (\<lambda>b. fst (key (eq_store q) (hd b)) \<le> t) bss))) w, q')) \<and>
    eq_inv q' (dropWhile (\<lambda>b. fst (key (eq_store q) (hd b)) \<le> t) bss) \<and> eq_curTick q' = t \<and>
    sorted (map (key (eq_store q)) (concat bss))"
  using run_order [OF assms, of f t w] concat_sorted [OF eq_inv_wf [OF assms(1)]] by blast

theorem service_order_witness:
  "\<exists>q'. serviceEvents 4 (quiet (#)) 7 ([], sample_queue) = Ok (Some ([2, 3, 1], q')) \<and> eq_inv q' [] \<and> eq_curTick q' = 7"
  using service_order [OF sample_queue_inv, of 4 "(#)" 7 "[]"]
  by (auto simp: sample_queue_def queued_def key_def ev_key_def ev_isExitEvent_def ev_squashed_def flags_isSet_def event_flag_defs)

text \<open>\<^verbatim>\<open>debugVerify\<close> walks a well-formed queue to its end and accepts it, unless the first event is one of
  tick 0 with a negative priority, which it reports as inverted because its running priority starts at 0.\<close>

theorem debugVerify_spec:
  assumes "eq_inv q bss" "length (concat bss) < fuel"
  shows "debugVerify fuel q = Ok (Some (bss = [] \<or> (0, 0) \<le> key (eq_store q) (hd (hd bss))))"
proof -
  have b: "bins (eq_store q) (eq_head q) bss" using assms(1) by (simp add: eq_inv_def queue_ok_def)
  note w = eq_inv_wf [OF assms(1)]
  have "verify_events (eq_store q) 0 0 [] (concat bss) =
    Ok (concat bss = [] \<or> (0, sint (0 :: i8)) \<le> key (eq_store q) (hd (concat bss)))"
    by (rule verify_events_ok)
      (use w concat_sorted [OF w] bins_stored [OF b] in \<open>simp_all add: bins_wf_def del: set_concat\<close>)
  moreover have "concat bss = [] \<longleftrightarrow> bss = []" "bss \<noteq> [] \<Longrightarrow> hd (concat bss) = hd (hd bss)"
    using w by (cases bss; auto simp: bins_wf_Cons)+
  ultimately show ?thesis using queue_events_ok [OF b assms(2)] by (auto simp: debugVerify_def out_of_fuel_def)
qed

theorem debugVerify_spec_witness: "debugVerify 4 sample_queue = Ok (Some True)"
  using debugVerify_spec [OF sample_queue_inv, of 4]
  by (simp add: sample_queue_def queued_def key_def ev_key_def less_eq_prod_def)

text \<open>C31: An event that was pending when the checkpoint was taken comes back with its time and priority but without its
  flag, so that \<^verbatim>\<open>checkpointReschedule\<close> leaves it out of the queue.\<close>

theorem restore_drops_event:
  assumes "ev_scheduled e" "\<not> ev_squashed e" "\<not> ev_scheduled e0" "ev_initialized e0" "eq_store q x = Some e0"
  shows "\<exists>e'. ev_unserialize (ev_serialize e) e0 = Ok e' \<and> ev_when e' = ev_when e \<and> ev_priority e' = ev_priority e \<and>
    \<not> ev_scheduled e' \<and>
    checkpointReschedule fuel x (q\<lparr>eq_store := (eq_store q)(x \<mapsto> e')\<rparr>) = Ok (Some (q\<lparr>eq_store := (eq_store q)(x \<mapsto> e')\<rparr>))"
proof -
  have "flags_isSet (flags_set (ev_flags e) Initialized) Scheduled" "\<not> flags_isSet (flags_set (ev_flags e) Initialized) Squashed"
    using assms(1,2) unfolding flags_isSet_set ev_scheduled_def ev_squashed_def
    by (simp_all add: flags_isSet_def event_flag_defs)
  moreover have "\<not> flags_isSet (flags_clear f (Squashed OR Scheduled)) Scheduled" for f
    by (simp add: flags_isSet_def flags_clear_def event_flag_defs and.assoc)
  ultimately show ?thesis using assms
    by (simp add: ev_unserialize_def ev_serialize_def checkpointReschedule_def deref_def assertR_def ev_scheduled_def)
qed

theorem restore_drops_event_witness:
  "\<exists>e'. ev_unserialize (ev_serialize (queued 9 0 None None)) (idle 0) = Ok e' \<and> ev_when e' = 9 \<and> \<not> ev_scheduled e' \<and>
    checkpointReschedule 1 4 (sample_queue\<lparr>eq_store := (eq_store sample_queue)(4 \<mapsto> e')\<rparr>) =
      Ok (Some (sample_queue\<lparr>eq_store := (eq_store sample_queue)(4 \<mapsto> e')\<rparr>))"
  using restore_drops_event [of "queued 9 0 None None" "idle 0" sample_queue 4 1]
  by (auto simp: sample_queue_def queued_def idle_def ev_scheduled_def ev_squashed_def ev_initialized_def flags_isSet_def
      event_flag_defs)

end
