(* ===== verification/Abstract_Mem.thy ===== *)
theory Abstract_Mem
  imports Mem_Packet Addr_Range
begin

text \<open>
  \<^verbatim>\<open>mem/abstract_mem.hh\<close> and \<^verbatim>\<open>mem/abstract_mem.cc\<close>: a memory that serves packets from a backing store and keeps
  the reservations of load-locked accesses. The backing store is a list of bytes (\<open>None\<close> for a null memory), the
  statistics are counters per master. The contexts whose exclusive monitors a store clears are
  recorded in order; the atomic operation a request refers to is an argument, a function on the bytes at its address.
\<close>

section \<open>State\<close>

record LockedAddr =
  la_addr :: Addr
  la_contextId :: int

record AbstractMemory =
  am_range :: AddrRange
  am_pmem :: "u8 list option"
  am_locked :: "LockedAddr list"
  am_cleared :: "int list"
  am_bytesRead :: "u16 \<Rightarrow> nat"
  am_bytesInstRead :: "u16 \<Rightarrow> nat"
  am_bytesWritten :: "u16 \<Rightarrow> nat"
  am_numReads :: "u16 \<Rightarrow> nat"
  am_numWrites :: "u16 \<Rightarrow> nat"
  am_numOther :: "u16 \<Rightarrow> nat"

definition new_AbstractMemory :: "AddrRange \<Rightarrow> AbstractMemory" where
  "new_AbstractMemory r = \<lparr>am_range = r, am_pmem = None, am_locked = [], am_cleared = [], am_bytesRead = (\<lambda>_. 0),
     am_bytesInstRead = (\<lambda>_. 0), am_bytesWritten = (\<lambda>_. 0), am_numReads = (\<lambda>_. 0), am_numWrites = (\<lambda>_. 0),
     am_numOther = (\<lambda>_. 0)\<rparr>"

definition setBackingStore :: "u8 list option \<Rightarrow> AbstractMemory \<Rightarrow> AbstractMemory" where
  "setBackingStore p am = am\<lparr>am_pmem := p\<rparr>"

text \<open>The page size is a non-zero constant of the system.\<close>

definition mem_init :: "u64 \<Rightarrow> AbstractMemory \<Rightarrow> AbstractMemory result" where
  "mem_init page_bytes am = (if range_size (am_range am) mod page_bytes \<noteq> 0 then Error Panic else Ok am)"

definition la_mask :: "Addr \<Rightarrow> Addr" where "la_mask paddr = paddr AND NOT 0xf"

definition la_matchesContext :: "LockedAddr \<Rightarrow> Request \<Rightarrow> bool result" where
  "la_matchesContext l req = bindR (req_contextId req) (\<lambda>c. Ok (la_contextId l = c))"

definition new_LockedAddr :: "Request \<Rightarrow> LockedAddr result" where
  "new_LockedAddr req =
     bindR (req_getPaddr req) (\<lambda>a. bindR (req_contextId req) (\<lambda>c. Ok \<lparr>la_addr = la_mask a, la_contextId = c\<rparr>))"

definition addLockedAddr :: "LockedAddr \<Rightarrow> AbstractMemory \<Rightarrow> AbstractMemory" where
  "addLockedAddr l am = am\<lparr>am_locked := am_locked am @ [l]\<rparr>"

section \<open>Load-locked and store-conditional\<close>

text \<open>The loop that looks for a record of the context; \<open>None\<close> when there is none.\<close>

fun relock :: "Request \<Rightarrow> Addr \<Rightarrow> LockedAddr list \<Rightarrow> LockedAddr list option result" where
  "relock req paddr [] = Ok None"
| "relock req paddr (l # ls) =
     bindR (la_matchesContext l req) (\<lambda>b.
       if b then Ok (Some (l\<lparr>la_addr := paddr\<rparr> # ls))
       else bindR (relock req paddr ls) (\<lambda>r. Ok (map_option ((#) l) r)))"

definition trackLoadLocked :: "Packet \<Rightarrow> AbstractMemory \<Rightarrow> AbstractMemory result" where
  "trackLoadLocked pkt am =
     bindR (req_getPaddr (pk_req pkt)) (\<lambda>a.
     bindR (relock (pk_req pkt) (la_mask a) (am_locked am)) (\<lambda>r.
       case r of Some ls \<Rightarrow> Ok (am\<lparr>am_locked := ls\<rparr>)
       | None \<Rightarrow> bindR (new_LockedAddr (pk_req pkt)) (\<lambda>l. Ok (am\<lparr>am_locked := l # am_locked am\<rparr>))))"

fun find_lock :: "Request \<Rightarrow> Addr \<Rightarrow> LockedAddr list \<Rightarrow> bool result" where
  "find_lock req paddr [] = Ok False"
| "find_lock req paddr (l # ls) =
     (if la_addr l = paddr
      then bindR (la_matchesContext l req) (\<lambda>b. if b then Ok True else find_lock req paddr ls)
      else find_lock req paddr ls)"

text \<open>The loop that erases the records of an address and clears the other contexts' monitors.\<close>

fun erase_locks :: "Request \<Rightarrow> Addr \<Rightarrow> LockedAddr list \<Rightarrow> (LockedAddr list \<times> int list) result" where
  "erase_locks req paddr [] = Ok ([], [])"
| "erase_locks req paddr (l # ls) =
     (if la_addr l = paddr
      then bindR (req_contextId req) (\<lambda>c.
           bindR (erase_locks req paddr ls) (\<lambda>(ks, cl).
             Ok (ks, if la_contextId l \<noteq> c then la_contextId l # cl else cl)))
      else bindR (erase_locks req paddr ls) (\<lambda>(ks, cl). Ok (l # ks, cl)))"

definition checkLockedAddrList :: "Packet \<Rightarrow> AbstractMemory \<Rightarrow> (bool \<times> Packet \<times> AbstractMemory) result" where
  "checkLockedAddrList pkt am =
     bindR (req_getPaddr (pk_req pkt)) (\<lambda>a.
       let paddr = la_mask a; isLLSC = cmd_isLLSC (pk_cmd pkt) in
       bindR (if isLLSC then find_lock (pk_req pkt) paddr (am_locked am) else Ok True) (\<lambda>allowStore.
         let pkt = (if isLLSC then pkt\<lparr>pk_req := req_setExtraData (if allowStore then 1 else 0) (pk_req pkt)\<rparr> else pkt) in
         if allowStore
         then bindR (erase_locks (pk_req pkt) paddr (am_locked am)) (\<lambda>(ks, cl).
                Ok (True, pkt, am\<lparr>am_locked := ks, am_cleared := am_cleared am @ cl\<rparr>))
         else Ok (False, pkt, am)))"

definition writeOK :: "Packet \<Rightarrow> AbstractMemory \<Rightarrow> (bool \<times> Packet \<times> AbstractMemory) result" where
  "writeOK pkt am =
     (if am_locked am = []
      then Ok (if cmd_isLLSC (pk_cmd pkt) then (False, pkt\<lparr>pk_req := req_setExtraData 0 (pk_req pkt)\<rparr>, am)
               else (True, pkt, am))
      else checkLockedAddrList pkt am)"

section \<open>Accesses\<close>

text \<open>The pointer \<^verbatim>\<open>pmemAddr + pkt->getAddr() - range.start()\<close> as an index of the backing store.\<close>

definition hostAddr :: "AbstractMemory \<Rightarrow> Addr \<Rightarrow> nat" where
  "hostAddr am a = unat (a - rg_start (am_range am))"

text \<open>\<^verbatim>\<open>memcpy\<close> from the store to the packet and back; a null memory does nothing.\<close>

definition mem_to_packet :: "AbstractMemory \<Rightarrow> nat \<Rightarrow> Packet \<Rightarrow> Packet result" where
  "mem_to_packet am host pkt =
     (case am_pmem am of None \<Rightarrow> Ok pkt
      | Some buf \<Rightarrow> bindR (pkt_getPtr pkt) (\<lambda>d. bindR (pkt_getSize pkt) (\<lambda>sz.
          bindR (memcpy d 0 buf host (unat sz)) (\<lambda>d'. Ok (pkt\<lparr>pk_data := Some d'\<rparr>)))))"

definition packet_to_mem :: "Packet \<Rightarrow> nat \<Rightarrow> AbstractMemory \<Rightarrow> AbstractMemory result" where
  "packet_to_mem pkt host am =
     (case am_pmem am of None \<Rightarrow> Ok am
      | Some buf \<Rightarrow> bindR (pkt_getPtr pkt) (\<lambda>d. bindR (pkt_getSize pkt) (\<lambda>sz.
          bindR (memcpy buf host d 0 (unat sz)) (\<lambda>buf'. Ok (am\<lparr>am_pmem := Some buf'\<rparr>)))))"

definition le_bytes :: "nat \<Rightarrow> u64 \<Rightarrow> u8 list" where
  "le_bytes n w = map (\<lambda>i. ucast (drop_bit (8 * i) w)) [0..<n]"

definition count_other :: "u16 \<Rightarrow> AbstractMemory \<Rightarrow> AbstractMemory" where
  "count_other m am = am\<lparr>am_numOther := (am_numOther am)(m := Suc (am_numOther am m))\<rparr>"

text \<open>Whether a swap overwrites the memory: a conditional one compares the old value with the extra data.\<close>

definition swap_condition :: "Packet \<Rightarrow> u8 list \<Rightarrow> nat \<Rightarrow> bool result" where
  "swap_condition pkt buf host =
     (if req_isCondSwap (pk_req pkt)
      then bindR (pkt_getSize pkt) (\<lambda>sz.
           if sz = 8 \<or> sz = 4
           then bindR (req_getExtraData (pk_req pkt)) (\<lambda>x. Ok (le_bytes (unat sz) x = take (unat sz) (drop host buf)))
           else Error Panic)
      else Ok True)"

definition access_swap ::
  "(nat \<Rightarrow> u8 list \<Rightarrow> u8 list) \<Rightarrow> nat \<Rightarrow> Packet \<Rightarrow> AbstractMemory \<Rightarrow> (Packet \<times> AbstractMemory) result" where
  "access_swap amo host pkt am =
     (if req_isAtomic (pk_req pkt)
      then (case am_pmem am of None \<Rightarrow> Ok (pkt, am)
            | Some buf \<Rightarrow>
                bindR (mem_to_packet am host pkt) (\<lambda>pkt.
                bindR (req_getAtomicOpFunctor (pk_req pkt)) (\<lambda>f.
                bindR (pkt_getSize pkt) (\<lambda>sz.
                bindR (memcpy buf host (amo f (take (unat sz) (drop host buf))) 0 (unat sz)) (\<lambda>buf'.
                  Ok (pkt, am\<lparr>am_pmem := Some buf'\<rparr>))))))
      else (case am_pmem am of None \<Rightarrow> Error Panic
            | Some buf \<Rightarrow>
                bindR (pkt_getPtr pkt) (\<lambda>overwrite_val.
                bindR (mem_to_packet am host pkt) (\<lambda>pkt'.
                bindR (swap_condition pkt' buf host) (\<lambda>overwrite_mem.
                bindR (if overwrite_mem
                       then bindR (pkt_getSize pkt) (\<lambda>sz. memcpy buf host overwrite_val 0 (unat sz)) else Ok buf) (\<lambda>buf'.
                bindR (assertR (\<not> req_isInstFetch (pk_req pkt)) AssertFail) (\<lambda>_.
                  Ok (pkt', count_other (rq_masterId (pk_req pkt)) (am\<lparr>am_pmem := Some buf'\<rparr>)))))))))"

definition access_read :: "nat \<Rightarrow> Packet \<Rightarrow> AbstractMemory \<Rightarrow> (Packet \<times> AbstractMemory) result" where
  "access_read host pkt am =
     bindR (assertR (\<not> cmd_isWrite (pk_cmd pkt)) AssertFail) (\<lambda>_.
     bindR (if cmd_isLLSC (pk_cmd pkt)
            then bindR (assertR (\<not> cmd_fromCache (pk_cmd pkt)) AssertFail) (\<lambda>_. trackLoadLocked pkt am)
            else Ok am) (\<lambda>am.
     bindR (mem_to_packet am host pkt) (\<lambda>pkt.
     bindR (pkt_getSize pkt) (\<lambda>sz.
       let m = rq_masterId (pk_req pkt);
           am = am\<lparr>am_numReads := (am_numReads am)(m := Suc (am_numReads am m)),
                    am_bytesRead := (am_bytesRead am)(m := am_bytesRead am m + unat sz)\<rparr>
       in Ok (pkt, if req_isInstFetch (pk_req pkt)
                   then am\<lparr>am_bytesInstRead := (am_bytesInstRead am)(m := am_bytesInstRead am m + unat sz)\<rparr> else am)))))"

definition access_write :: "nat \<Rightarrow> Packet \<Rightarrow> AbstractMemory \<Rightarrow> (Packet \<times> AbstractMemory) result" where
  "access_write host pkt am =
     bindR (writeOK pkt am) (\<lambda>(ok, pkt, am).
       if ok
       then bindR (packet_to_mem pkt host am) (\<lambda>am.
            bindR (assertR (\<not> req_isInstFetch (pk_req pkt)) AssertFail) (\<lambda>_.
            bindR (pkt_getSize pkt) (\<lambda>sz.
              let m = rq_masterId (pk_req pkt) in
              Ok (pkt, am\<lparr>am_numWrites := (am_numWrites am)(m := Suc (am_numWrites am m)),
                          am_bytesWritten := (am_bytesWritten am)(m := am_bytesWritten am m + unat sz)\<rparr>))))
       else Ok (pkt, am))"

definition mem_access ::
  "(nat \<Rightarrow> u8 list \<Rightarrow> u8 list) \<Rightarrow> Packet \<Rightarrow> AbstractMemory \<Rightarrow> (Packet \<times> AbstractMemory) result" where
  "mem_access amo pkt am =
     (if pkt_cacheResponding pkt \<or> pk_cmd pkt = CleanEvict \<or> pk_cmd pkt = WritebackClean then Ok (pkt, am)
      else bindR (pkt_getAddr pkt) (\<lambda>a. bindR (pkt_getSize pkt) (\<lambda>sz.
        bindR (isSubset (AddrRange_plain a (a + ucast (sz - 1))) (am_range am)) (\<lambda>inside.
        bindR (assertR inside AssertFail) (\<lambda>_.
        let host = hostAddr am a; c = pk_cmd pkt in
        bindR (if c = SwapReq then access_swap amo host pkt am
               else if cmd_isRead c then access_read host pkt am
               else if cmd_isInvalidate c \<or> cmd_isClean c
               then bindR (assertR (\<not> cmd_isWrite c) AssertFail) (\<lambda>_. Ok (pkt, am))
               else if cmd_isWrite c then access_write host pkt am
               else Error Panic) (\<lambda>(pkt, am).
        bindR (if cmd_needsResponse (pk_cmd pkt) then makeResponse pkt else Ok pkt) (\<lambda>pkt. Ok (pkt, am))))))))"

text \<open>A functional print request writes to an output stream and leaves the memory alone.\<close>

definition functionalAccess :: "Packet \<Rightarrow> AbstractMemory \<Rightarrow> (Packet \<times> AbstractMemory) result" where
  "functionalAccess pkt am =
     bindR (pkt_getAddr pkt) (\<lambda>a. bindR (pkt_getSize pkt) (\<lambda>sz.
     bindR (isSubset (AddrRange_plain a (a + ucast sz - 1)) (am_range am)) (\<lambda>inside.
     bindR (assertR inside AssertFail) (\<lambda>_.
       if cmd_isRead (pk_cmd pkt)
       then bindR (mem_to_packet am (hostAddr am a) pkt) (\<lambda>pkt. bindR (makeResponse pkt) (\<lambda>pkt. Ok (pkt, am)))
       else if cmd_isWrite (pk_cmd pkt)
       then bindR (packet_to_mem pkt (hostAddr am a) am) (\<lambda>am. bindR (makeResponse pkt) (\<lambda>pkt. Ok (pkt, am)))
       else if cmd_isPrint (pk_cmd pkt)
       then bindR (assertR (pk_senderState pkt \<noteq> []) AssertFail) (\<lambda>_. Ok (pkt, am))
       else Error Panic))))"


section \<open>Reservations\<close>

text \<open>
  What an access does to the reservations of the contexts, and the contract of a memory that serves load-locked and
  store-conditional accesses. An address stands for its granule.
\<close>

datatype lock_event = LoadLocked int Addr | StoreTo Addr | StoreCond int Addr

definition release_granule :: "Addr \<Rightarrow> (int \<Rightarrow> Addr option) \<Rightarrow> int \<Rightarrow> Addr option" where
  "release_granule g v c = (if v c = Some g then None else v c)"

fun run_accesses :: "('p \<Rightarrow> 's \<Rightarrow> ('p \<times> 's) result) \<Rightarrow> 'p list \<Rightarrow> 's \<Rightarrow> (('p \<times> 'p) list \<times> 's) result" where
  "run_accesses acc [] s = Ok ([], s)"
| "run_accesses acc (p # ps) s =
     bindR (acc p s) (\<lambda>(p', s'). bindR (run_accesses acc ps s') (\<lambda>(log, s''). Ok ((p, p') # log, s'')))"

definition wrote_granule :: "('p \<Rightarrow> lock_event option) \<Rightarrow> ('p \<Rightarrow> bool) \<Rightarrow> Addr \<Rightarrow> 'p \<times> 'p \<Rightarrow> bool" where
  "wrote_granule ev performed g x \<longleftrightarrow>
     (case ev (fst x) of Some (StoreTo g') \<Rightarrow> g' = g | Some (StoreCond c g') \<Rightarrow> g' = g \<and> performed (snd x) | _ \<Rightarrow> False)"

locale reservation_memory =
  fixes acc :: "'p \<Rightarrow> 's \<Rightarrow> ('p \<times> 's) result"
    and good :: "'s \<Rightarrow> bool"
    and view :: "'s \<Rightarrow> int \<Rightarrow> Addr option"
    and ev :: "'p \<Rightarrow> lock_event option"
    and performed :: "'p \<Rightarrow> bool"
  assumes acc_good: "good s \<Longrightarrow> acc p s = Ok (p', s') \<Longrightarrow> good s'"
    and acc_none: "good s \<Longrightarrow> acc p s = Ok (p', s') \<Longrightarrow> ev p = None \<Longrightarrow> view s' = view s"
    and acc_ll: "good s \<Longrightarrow> acc p s = Ok (p', s') \<Longrightarrow> ev p = Some (LoadLocked c g) \<Longrightarrow> view s' = (view s)(c \<mapsto> g)"
    and acc_store: "good s \<Longrightarrow> acc p s = Ok (p', s') \<Longrightarrow> ev p = Some (StoreTo g) \<Longrightarrow> view s' = release_granule g (view s)"
    and acc_sc: "good s \<Longrightarrow> acc p s = Ok (p', s') \<Longrightarrow> ev p = Some (StoreCond c g) \<Longrightarrow>
      performed p' = (view s c = Some g) \<and> view s' = (if view s c = Some g then release_granule g (view s) else view s)"
begin

lemma run_good: "good s \<Longrightarrow> run_accesses acc ps s = Ok (log, s') \<Longrightarrow> good s'"
proof (induction ps arbitrary: s log)
  case (Cons p ps)
  then show ?case using acc_good by (fastforce simp: result_simps)
qed simp

lemma acc_keeps_other:
  assumes "good s" "acc p s = Ok (p', s')" "view s c = None \<or> view s c = Some g" "\<forall>g'. ev p \<noteq> Some (LoadLocked c g')"
  shows "view s' c = (if wrote_granule ev performed g (p, p') then None else view s c)"
proof (cases "ev p")
  case None
  then show ?thesis using acc_none [OF assms(1,2)] by (simp add: wrote_granule_def)
next
  case (Some e)
  show ?thesis
  proof (cases e)
    case (LoadLocked c' g')
    then show ?thesis using Some assms(4) acc_ll [OF assms(1,2), of c' g'] by (auto simp: wrote_granule_def)
  next
    case (StoreTo g')
    then show ?thesis using Some assms(3) acc_store [OF assms(1,2), of g'] by (auto simp: wrote_granule_def release_granule_def)
  next
    case (StoreCond c' g')
    then show ?thesis using Some assms(3) acc_sc [OF assms(1,2), of c' g'] by (auto simp: wrote_granule_def release_granule_def)
  qed
qed

lemma run_keeps_other:
  assumes "good s" "run_accesses acc ps s = Ok (log, s')" "view s c = None \<or> view s c = Some g"
    and "\<forall>p\<in>set ps. \<forall>g'. ev p \<noteq> Some (LoadLocked c g')"
  shows "view s' c = (if \<exists>x\<in>set log. wrote_granule ev performed g x then None else view s c)"
  using assms
proof (induction ps arbitrary: s log)
  case (Cons p ps)
  then obtain p' s1 log1 where s1: "acc p s = Ok (p', s1)" "run_accesses acc ps s1 = Ok (log1, s')" "log = (p, p') # log1"
    by (auto simp: result_simps)
  have v: "view s1 c = (if wrote_granule ev performed g (p, p') then None else view s c)"
    using acc_keeps_other [OF Cons.prems(1) s1(1) Cons.prems(3)] Cons.prems(4) by simp
  then have "view s1 c = None \<or> view s1 c = Some g" using Cons.prems(3) by auto
  with Cons.IH [OF acc_good [OF Cons.prems(1) s1(1)] s1(2)] Cons.prems(4) v s1(3) show ?case by auto
qed simp

lemma store_conditional_iff:
  assumes "good s" "acc ll s = Ok (ll', s1)" "ev ll = Some (LoadLocked c g)" "run_accesses acc ps s1 = Ok (log, s2)"
    and "\<forall>p\<in>set ps. \<forall>g'. ev p \<noteq> Some (LoadLocked c g')" "acc sc s2 = Ok (sc', s3)" "ev sc = Some (StoreCond c g)"
  shows "performed sc' \<longleftrightarrow> (\<forall>x\<in>set log. \<not> wrote_granule ev performed g x)"
proof -
  have g1: "good s1" using acc_good [OF assms(1,2)] .
  have "view s1 c = Some g" using acc_ll [OF assms(1-3)] by simp
  then have "view s2 c = (if \<exists>x\<in>set log. wrote_granule ev performed g x then None else Some g)"
    using run_keeps_other [OF g1 assms(4) _ assms(5), of g] by simp
  then show ?thesis using acc_sc [OF run_good [OF g1 assms(4)] assms(6,7)] by simp
qed

end

text \<open>The reservations of the memory.\<close>

definition mem_reserved :: "AbstractMemory \<Rightarrow> int \<Rightarrow> Addr option" where
  "mem_reserved am = map_of (map (\<lambda>l. (la_contextId l, la_addr l)) (am_locked am))"

definition mem_locks_ok :: "AbstractMemory \<Rightarrow> bool" where
  "mem_locks_ok am = distinct (map la_contextId (am_locked am))"

definition packet_event :: "Packet \<Rightarrow> lock_event option" where
  "packet_event pkt =
     (let c = pk_cmd pkt; g = la_mask (rq_paddr (pk_req pkt)) in
      if pkt_cacheResponding pkt \<or> c = CleanEvict \<or> c = WritebackClean \<or> c = SwapReq then None
      else if cmd_isRead c then (if cmd_isLLSC c then Some (LoadLocked (rq_contextId (pk_req pkt)) g) else None)
      else if cmd_isInvalidate c \<or> cmd_isClean c then None
      else if \<not> cmd_isWrite c then None
      else if cmd_isLLSC c then Some (StoreCond (rq_contextId (pk_req pkt)) g) else Some (StoreTo g))"

definition sc_performed :: "Packet \<Rightarrow> bool" where
  "sc_performed pkt \<longleftrightarrow> rq_extraData (pk_req pkt) = 1"

lemma relock_ok:
  "relock req g ls = Ok r \<Longrightarrow> distinct (map la_contextId ls) \<Longrightarrow> c = rq_contextId req \<Longrightarrow>
   (case r of
      None \<Rightarrow> c \<notin> la_contextId ` set ls
    | Some ks \<Rightarrow> map la_contextId ks = map la_contextId ls \<and>
        map_of (map (\<lambda>l. (la_contextId l, la_addr l)) ks) = (map_of (map (\<lambda>l. (la_contextId l, la_addr l)) ls))(c \<mapsto> g))"
proof (induction ls arbitrary: r)
  case (Cons l ls)
  show ?case
  proof (cases "la_contextId l = c")
    case True
    then have "r = Some (l\<lparr>la_addr := g\<rparr> # ls)"
      using Cons.prems by (auto simp: la_matchesContext_def req_contextId_def result_simps)
    then show ?thesis using True by auto
  next
    case False
    then obtain r' where r': "relock req g ls = Ok r'" "r = map_option ((#) l) r'"
      using Cons.prems by (auto simp: la_matchesContext_def req_contextId_def result_simps)
    then show ?thesis using Cons.IH [OF r'(1)] Cons.prems False by (cases r') (auto simp: fun_upd_twist)
  qed
qed simp

lemma trackLoadLocked_ok:
  assumes "trackLoadLocked pkt am = Ok am'" "mem_locks_ok am"
  shows "mem_locks_ok am'" "mem_reserved am' = (mem_reserved am)(rq_contextId (pk_req pkt) \<mapsto> la_mask (rq_paddr (pk_req pkt)))"
proof -
  let ?c = "rq_contextId (pk_req pkt)" and ?g = "la_mask (rq_paddr (pk_req pkt))"
  obtain r where r: "relock (pk_req pkt) ?g (am_locked am) = Ok r"
    and am': "(case r of Some ls \<Rightarrow> Ok (am\<lparr>am_locked := ls\<rparr>)
       | None \<Rightarrow> bindR (new_LockedAddr (pk_req pkt)) (\<lambda>l. Ok (am\<lparr>am_locked := l # am_locked am\<rparr>))) = Ok am'"
    using assms(1) by (auto simp: trackLoadLocked_def req_getPaddr_def result_simps)
  have "mem_locks_ok am' \<and> mem_reserved am' = (mem_reserved am)(?c \<mapsto> ?g)"
  proof (cases r)
    case None
    then have "am' = am\<lparr>am_locked := \<lparr>la_addr = ?g, la_contextId = ?c\<rparr> # am_locked am\<rparr>"
      using am' by (auto simp: new_LockedAddr_def req_getPaddr_def req_contextId_def result_simps)
    then show ?thesis using relock_ok [OF r _ refl] None assms(2) by (simp add: mem_locks_ok_def mem_reserved_def)
  next
    case (Some ks)
    then show ?thesis using am' relock_ok [OF r _ refl] assms(2) by (auto simp: mem_locks_ok_def mem_reserved_def)
  qed
  then show "mem_locks_ok am'" "mem_reserved am' = (mem_reserved am)(?c \<mapsto> ?g)" by auto
qed

lemma find_lock_ok:
  "find_lock req g ls = Ok b \<Longrightarrow> distinct (map la_contextId ls) \<Longrightarrow>
   b \<longleftrightarrow> map_of (map (\<lambda>l. (la_contextId l, la_addr l)) ls) (rq_contextId req) = Some g"
proof (induction ls)
  case (Cons l ls)
  show ?case
  proof (cases "la_addr l = g \<and> la_contextId l = rq_contextId req")
    case True
    then show ?thesis using Cons.prems(1) by (auto simp: la_matchesContext_def req_contextId_def result_simps)
  next
    case False
    then have f: "find_lock req g ls = Ok b"
      using Cons.prems(1) by (auto simp: la_matchesContext_def req_contextId_def result_simps split: if_splits)
    have "map_of (map (\<lambda>l. (la_contextId l, la_addr l)) ls) (rq_contextId req) = None" if "la_contextId l = rq_contextId req"
      using Cons.prems(2) that by (auto simp: map_of_eq_None_iff image_image)
    then show ?thesis using Cons.IH [OF f] Cons.prems(2) False by auto
  qed
qed simp

lemma erase_locks_ok:
  "erase_locks req g ls = Ok (ks, cl) \<Longrightarrow> ks = filter (\<lambda>l. la_addr l \<noteq> g) ls"
  by (induction ls arbitrary: ks cl) (auto simp: result_simps split: if_splits)

lemma reserved_filter:
  "distinct (map la_contextId ls) \<Longrightarrow>
   map_of (map (\<lambda>l. (la_contextId l, la_addr l)) (filter (\<lambda>l. la_addr l \<noteq> g) ls)) =
     release_granule g (map_of (map (\<lambda>l. (la_contextId l, la_addr l)) ls))"
proof (induction ls)
  case (Cons l ls)
  have "map_of (map (\<lambda>l. (la_contextId l, la_addr l)) ls) (la_contextId l) = None"
    using Cons.prems by (auto simp: map_of_eq_None_iff image_image)
  then show ?case using Cons by (auto simp: release_granule_def fun_eq_iff)
qed (simp add: release_granule_def fun_eq_iff)

lemma writeOK_ok:
  assumes "writeOK pkt am = Ok (b, pkt', am')" "mem_locks_ok am"
  defines "g \<equiv> la_mask (rq_paddr (pk_req pkt))" and "c \<equiv> rq_contextId (pk_req pkt)"
  shows "b \<longleftrightarrow> \<not> cmd_isLLSC (pk_cmd pkt) \<or> mem_reserved am c = Some g"
    "mem_locks_ok am'" "mem_reserved am' = (if b then release_granule g (mem_reserved am) else mem_reserved am)"
    "cmd_isLLSC (pk_cmd pkt) \<longrightarrow> sc_performed pkt' = b" "am_pmem am' = am_pmem am" "am_range am' = am_range am"
    "pkt' = pkt\<lparr>pk_req := pk_req pkt'\<rparr>" "rq_flags (pk_req pkt') = rq_flags (pk_req pkt)"
proof -
  have "(b \<longleftrightarrow> \<not> cmd_isLLSC (pk_cmd pkt) \<or> mem_reserved am c = Some g) \<and>
    mem_locks_ok am' \<and> mem_reserved am' = (if b then release_granule g (mem_reserved am) else mem_reserved am) \<and>
    (cmd_isLLSC (pk_cmd pkt) \<longrightarrow> sc_performed pkt' = b) \<and> am_pmem am' = am_pmem am \<and> am_range am' = am_range am \<and>
    pkt' = pkt\<lparr>pk_req := pk_req pkt'\<rparr> \<and> rq_flags (pk_req pkt') = rq_flags (pk_req pkt)"
  proof (cases "am_locked am = []")
    case True
    have "mem_reserved am = (\<lambda>_. None)" using True by (simp add: mem_reserved_def)
    then show ?thesis using assms(1,2) True
      by (auto simp: writeOK_def sc_performed_def req_setExtraData_def release_granule_def split: if_splits)
  next
    case False
    define ok where "ok = (if cmd_isLLSC (pk_cmd pkt) then find_lock (pk_req pkt) g (am_locked am) else Ok True)"
    define q where "q = (\<lambda>b. if cmd_isLLSC (pk_cmd pkt) then pkt\<lparr>pk_req := req_setExtraData (if b then 1 else 0) (pk_req pkt)\<rparr> else pkt)"
    have "writeOK pkt am = bindR (assertR (req_private (pk_req pkt) REQ_VALID_PADDR) AssertFail) (\<lambda>_. bindR ok (\<lambda>b.
        if b then bindR (erase_locks (pk_req (q b)) g (am_locked am)) (\<lambda>(ks, cl).
          Ok (True, q b, am\<lparr>am_locked := ks, am_cleared := am_cleared am @ cl\<rparr>)) else Ok (False, q b, am)))"
      using False unfolding writeOK_def checkLockedAddrList_def req_getPaddr_def Let_def ok_def q_def g_def
      by (simp add: bindR_assoc)
    from this [symmetric, unfolded assms(1)] obtain b' where b': "ok = Ok b'"
      "(if b' then bindR (erase_locks (pk_req (q b')) g (am_locked am)) (\<lambda>(ks, cl).
          Ok (True, q b', am\<lparr>am_locked := ks, am_cleared := am_cleared am @ cl\<rparr>)) else Ok (False, q b', am)) = Ok (b, pkt', am')"
      unfolding bindR_Ok_iff by blast
    have ok: "b' \<longleftrightarrow> \<not> cmd_isLLSC (pk_cmd pkt) \<or> mem_reserved am c = Some g"
      using b'(1) find_lock_ok [of "pk_req pkt" g "am_locked am" b'] assms(2)
      by (auto simp: ok_def mem_locks_ok_def mem_reserved_def c_def split: if_splits)
    have q: "cmd_isLLSC (pk_cmd pkt) \<longrightarrow> sc_performed (q b') = b'" "q b' = pkt\<lparr>pk_req := pk_req (q b')\<rparr>"
      "rq_flags (pk_req (q b')) = rq_flags (pk_req pkt)"
      by (auto simp: q_def sc_performed_def req_setExtraData_def)
    show ?thesis
    proof (cases b')
      case True
      with b'(2) obtain ks cl where k: "erase_locks (pk_req (q b')) g (am_locked am) = Ok (ks, cl)" "b" "pkt' = q b'"
        "am' = am\<lparr>am_locked := ks, am_cleared := am_cleared am @ cl\<rparr>" by (auto simp: result_simps)
      then show ?thesis using True ok q erase_locks_ok [OF k(1)] reserved_filter [of "am_locked am" g] assms(2)
        by (auto simp: mem_locks_ok_def mem_reserved_def distinct_map_filter)
    next
      case False
      then show ?thesis using b'(2) ok q assms(2) by auto
    qed
  qed
  then show "b \<longleftrightarrow> \<not> cmd_isLLSC (pk_cmd pkt) \<or> mem_reserved am c = Some g"
    "mem_locks_ok am'" "mem_reserved am' = (if b then release_granule g (mem_reserved am) else mem_reserved am)"
    "cmd_isLLSC (pk_cmd pkt) \<longrightarrow> sc_performed pkt' = b" "am_pmem am' = am_pmem am" "am_range am' = am_range am"
    "pkt' = pkt\<lparr>pk_req := pk_req pkt'\<rparr>" "rq_flags (pk_req pkt') = rq_flags (pk_req pkt)" by blast+
qed


definition same_locks :: "AbstractMemory \<Rightarrow> AbstractMemory \<Rightarrow> bool" where
  "same_locks am am' \<longleftrightarrow> am_locked am' = am_locked am"

lemma same_locks_view: "same_locks am am' \<Longrightarrow> mem_reserved am' = mem_reserved am \<and> mem_locks_ok am' = mem_locks_ok am"
  by (simp add: same_locks_def mem_reserved_def mem_locks_ok_def)

lemma mem_to_packet_req: "mem_to_packet am host pkt = Ok pkt' \<Longrightarrow> pk_req pkt' = pk_req pkt \<and> pk_cmd pkt' = pk_cmd pkt"
  by (auto simp: mem_to_packet_def result_simps split: option.splits)

lemma packet_to_mem_locks: "packet_to_mem pkt host am = Ok am' \<Longrightarrow> am_locked am' = am_locked am"
  by (auto simp: packet_to_mem_def result_simps split: option.splits)

lemma access_swap_locks: "access_swap amo host pkt am = Ok (pkt', am') \<Longrightarrow> same_locks am am'"
  by (auto simp: access_swap_def same_locks_def count_other_def result_simps split: if_splits option.splits)

lemma access_read_locks:
  assumes "access_read host pkt am = Ok (pkt', am')"
  shows "if cmd_isLLSC (pk_cmd pkt) then \<exists>am1. trackLoadLocked pkt am = Ok am1 \<and> same_locks am1 am' else same_locks am am'"
  using assms by (auto simp: access_read_def same_locks_def Let_def result_simps split: if_splits)

lemma access_write_locks:
  assumes "access_write host pkt am = Ok (pkt', am')"
  shows "\<exists>b am1. writeOK pkt am = Ok (b, pkt', am1) \<and> same_locks am1 am'"
proof -
  from assms obtain b pkt1 am1 where w: "writeOK pkt am = Ok (b, pkt1, am1)"
    by (cases "writeOK pkt am") (auto simp: access_write_def)
  show ?thesis
  proof (cases b)
    case True
    then have "pkt' = pkt1" "\<exists>am2. packet_to_mem pkt1 host am1 = Ok am2 \<and> am_locked am' = am_locked am2"
      using assms w by (auto simp: access_write_def Let_def result_simps)
    then show ?thesis using w packet_to_mem_locks by (auto simp: same_locks_def)
  next
    case False
    then show ?thesis using assms w by (auto simp: access_write_def same_locks_def)
  qed
qed

lemma makeResponse_req: "makeResponse pkt = Ok pkt' \<Longrightarrow> pk_req pkt' = pk_req pkt"
  by (auto simp: makeResponse_def pkt_clear_def result_simps)

lemma mem_access_locks:
  assumes "mem_access amo pkt am = Ok (pkt', am')"
  shows "case packet_event pkt of
      None \<Rightarrow> same_locks am am'
    | Some (LoadLocked c g) \<Rightarrow> c = rq_contextId (pk_req pkt) \<and> g = la_mask (rq_paddr (pk_req pkt)) \<and>
        (\<exists>am1. trackLoadLocked pkt am = Ok am1 \<and> same_locks am1 am')
    | Some (StoreTo g) \<Rightarrow> \<not> cmd_isLLSC (pk_cmd pkt) \<and> g = la_mask (rq_paddr (pk_req pkt)) \<and>
        (\<exists>b pkt1 am1. writeOK pkt am = Ok (b, pkt1, am1) \<and> same_locks am1 am')
    | Some (StoreCond c g) \<Rightarrow> cmd_isLLSC (pk_cmd pkt) \<and> c = rq_contextId (pk_req pkt) \<and> g = la_mask (rq_paddr (pk_req pkt)) \<and>
        (\<exists>b pkt1 am1. writeOK pkt am = Ok (b, pkt1, am1) \<and> same_locks am1 am' \<and> pk_req pkt' = pk_req pkt1)"
proof (cases "pkt_cacheResponding pkt \<or> pk_cmd pkt = CleanEvict \<or> pk_cmd pkt = WritebackClean")
  case True
  then have "am' = am" using assms unfolding mem_access_def by simp
  then show ?thesis using True by (auto simp: packet_event_def same_locks_def)
next
  case False
  let ?c = "pk_cmd pkt"
  from assms False obtain host pkt1 where
    b: "(if ?c = SwapReq then access_swap amo host pkt am
         else if cmd_isRead ?c then access_read host pkt am
         else if cmd_isInvalidate ?c \<or> cmd_isClean ?c then bindR (assertR (\<not> cmd_isWrite ?c) AssertFail) (\<lambda>_. Ok (pkt, am))
         else if cmd_isWrite ?c then access_write host pkt am else Error Panic) = Ok (pkt1, am')"
    and r: "(if cmd_needsResponse (pk_cmd pkt1) then makeResponse pkt1 else Ok pkt1) = Ok pkt'"
    unfolding mem_access_def Let_def by (auto simp only: if_False bindR_Ok_iff result.inject prod.inject split: prod.splits)
  have req: "pk_req pkt' = pk_req pkt1" using r makeResponse_req by (auto split: if_splits)
  consider (swap) "?c = SwapReq" | (rd) "?c \<noteq> SwapReq" "cmd_isRead ?c"
    | (maint) "?c \<noteq> SwapReq" "\<not> cmd_isRead ?c" "cmd_isInvalidate ?c \<or> cmd_isClean ?c"
    | (wr) "?c \<noteq> SwapReq" "\<not> cmd_isRead ?c" "\<not> cmd_isInvalidate ?c" "\<not> cmd_isClean ?c" "cmd_isWrite ?c"
    using b by (auto split: if_splits)
  then show ?thesis
  proof cases
    case swap
    then show ?thesis using b access_swap_locks by (auto simp: packet_event_def)
  next
    case rd
    then show ?thesis using b access_read_locks [of host pkt am pkt1 am'] False by (auto simp: packet_event_def)
  next
    case maint
    then show ?thesis using b False by (auto simp: packet_event_def same_locks_def assertR_def split: if_splits)
  next
    case wr
    then show ?thesis using b access_write_locks [of host pkt am pkt1 am'] False req by (auto simp: packet_event_def Let_def)
  qed
qed

interpretation locks: reservation_memory "mem_access amo" mem_locks_ok mem_reserved packet_event sc_performed for amo
proof unfold_locales
  fix am pkt pkt' am' assume ok: "mem_locks_ok am" and a: "mem_access amo pkt am = Ok (pkt', am')"
  note l = mem_access_locks [OF a]
  show "mem_locks_ok am'"
  proof (cases "packet_event pkt")
    case None
    then show ?thesis using l ok same_locks_view by fastforce
  next
    case (Some e)
    show ?thesis
    proof (cases e)
      case (LoadLocked c g)
      with Some l obtain am1 where "trackLoadLocked pkt am = Ok am1" "same_locks am1 am'" by auto
      then show ?thesis using trackLoadLocked_ok(1) [OF _ ok] same_locks_view by blast
    next
      case (StoreTo g)
      with Some l obtain b pkt1 am1 where "writeOK pkt am = Ok (b, pkt1, am1)" "same_locks am1 am'" by auto
      then show ?thesis using writeOK_ok(2) [OF _ ok] same_locks_view by blast
    next
      case (StoreCond c g)
      with Some l obtain b pkt1 am1 where "writeOK pkt am = Ok (b, pkt1, am1)" "same_locks am1 am'" by auto
      then show ?thesis using writeOK_ok(2) [OF _ ok] same_locks_view by blast
    qed
  qed
  show "mem_reserved am' = mem_reserved am" if "packet_event pkt = None"
    using l that same_locks_view by fastforce
  show "mem_reserved am' = (mem_reserved am)(c \<mapsto> g)" if "packet_event pkt = Some (LoadLocked c g)" for c g
    using l that trackLoadLocked_ok(2) [OF _ ok] same_locks_view by fastforce
  show "mem_reserved am' = release_granule g (mem_reserved am)" if "packet_event pkt = Some (StoreTo g)" for g
  proof -
    from l that obtain b pkt1 am1 where w: "writeOK pkt am = Ok (b, pkt1, am1)" "same_locks am1 am'"
      "\<not> cmd_isLLSC (pk_cmd pkt)" "g = la_mask (rq_paddr (pk_req pkt))" by auto
    then show ?thesis using writeOK_ok(1,3) [OF w(1) ok] same_locks_view [OF w(2)] by simp
  qed
  show "sc_performed pkt' = (mem_reserved am c = Some g) \<and>
    mem_reserved am' = (if mem_reserved am c = Some g then release_granule g (mem_reserved am) else mem_reserved am)"
    if "packet_event pkt = Some (StoreCond c g)" for c g
  proof -
    from l that obtain b pkt1 am1 where w: "writeOK pkt am = Ok (b, pkt1, am1)" "same_locks am1 am'" "pk_req pkt' = pk_req pkt1"
      "cmd_isLLSC (pk_cmd pkt)" "g = la_mask (rq_paddr (pk_req pkt))" "c = rq_contextId (pk_req pkt)" by auto
    then show ?thesis using writeOK_ok(1,3,4) [OF w(1) ok] same_locks_view [OF w(2)] by (simp add: sc_performed_def)
  qed
qed


text \<open>The accesses that write a byte of a granule, from the addresses that they cover.\<close>

definition pk_covers :: "Packet \<Rightarrow> Addr \<Rightarrow> bool" where
  "pk_covers p a \<longleftrightarrow> (\<exists>i<unat (pk_size p). a = pk_addr p + of_nat i)"

definition writes_into :: "Addr \<Rightarrow> Packet \<times> Packet \<Rightarrow> bool" where
  "writes_into g x \<longleftrightarrow>
     (case x of (p, p') \<Rightarrow> cmd_isWrite (pk_cmd p) \<and> \<not> pkt_cacheResponding p \<and> pk_cmd p \<noteq> WritebackClean \<and>
        (cmd_isLLSC (pk_cmd p) \<longrightarrow> sc_performed p') \<and> (\<exists>a. pk_covers p a \<and> la_mask a = g))"

definition in_one_granule :: "Packet \<Rightarrow> bool" where
  "in_one_granule p \<longleftrightarrow> 0 < pk_size p \<and> pk_addr p = rq_paddr (pk_req p) \<and> (\<forall>a. pk_covers p a \<longrightarrow> la_mask a = la_mask (pk_addr p))"

lemma write_commands:
  "cmd_isRequest c \<Longrightarrow> cmd_isWrite c \<Longrightarrow> c \<noteq> SwapReq \<Longrightarrow> \<not> cmd_isRead c" "\<not> cmd_isWrite CleanEvict"
  by (cases c; simp add: cmd_defs) (simp add: cmd_defs)

lemma run_accesses_log:
  "run_accesses acc ps s = Ok (log, s') \<Longrightarrow> x \<in> set log \<Longrightarrow> fst x \<in> set ps \<and> (\<exists>t t'. acc (fst x) t = Ok (snd x, t'))"
  by (induction ps arbitrary: s log) (fastforce simp: bindR_Ok_iff)+

lemma maintenance_writes:
  assumes "mem_access amo p am = Ok (p', am')" "cmd_isRequest (pk_cmd p)" "cmd_isWrite (pk_cmd p)" "pk_cmd p \<noteq> SwapReq" "\<not> pkt_cacheResponding p"
    "pk_cmd p \<noteq> WritebackClean"
  shows "\<not> cmd_isInvalidate (pk_cmd p) \<and> \<not> cmd_isClean (pk_cmd p)"
proof (rule ccontr)
  assume m: "\<not> ?thesis"
  have "pk_cmd p \<noteq> CleanEvict" using assms(3) write_commands(2) by auto
  then show False using assms m write_commands(1) [OF assms(2-4)] unfolding mem_access_def Let_def by (auto simp: bindR_Ok_iff)
qed

lemma wrote_granule_bytes:
  assumes "mem_access amo p am = Ok (p', am')" "cmd_isRequest (pk_cmd p)" "pk_cmd p \<noteq> SwapReq" "in_one_granule p"
  shows "wrote_granule packet_event sc_performed g (p, p') = writes_into g (p, p')"
proof (cases "cmd_isWrite (pk_cmd p) \<and> \<not> pkt_cacheResponding p \<and> pk_cmd p \<noteq> WritebackClean")
  case True
  have "0 < unat (pk_size p)" using assms(4) by (simp add: in_one_granule_def word_less_nat_alt)
  then have "pk_covers p (pk_addr p)" unfolding pk_covers_def by (intro exI [of _ 0]) simp
  then have g: "(\<exists>a. pk_covers p a \<and> la_mask a = g) = (la_mask (rq_paddr (pk_req p)) = g)" using assms(4) unfolding in_one_granule_def by metis
  have "\<not> cmd_isInvalidate (pk_cmd p)" "\<not> cmd_isClean (pk_cmd p)" using maintenance_writes [OF assms(1,2) _ assms(3)] True by blast+
  moreover have "\<not> cmd_isRead (pk_cmd p)" "pk_cmd p \<noteq> CleanEvict" using write_commands True assms(2,3) by auto
  ultimately have "packet_event p = (if cmd_isLLSC (pk_cmd p) then Some (StoreCond (rq_contextId (pk_req p)) (la_mask (rq_paddr (pk_req p))))
      else Some (StoreTo (la_mask (rq_paddr (pk_req p)))))" using True assms(3) by (simp add: packet_event_def Let_def)
  then show ?thesis using True g by (auto simp: wrote_granule_def writes_into_def)
next
  case False
  then have "wrote_granule packet_event sc_performed g (p, p') = False" by (auto simp: wrote_granule_def packet_event_def Let_def)
  then show ?thesis using False by (auto simp: writes_into_def)
qed

section \<open>Reads and writes\<close>

definition mem_ok :: "AbstractMemory \<Rightarrow> bool" where
  "mem_ok am \<longleftrightarrow> \<not> interleaved (am_range am) \<and> rg_start (am_range am) \<le> rg_end (am_range am) \<and>
     (\<exists>buf. am_pmem am = Some buf \<and> length buf = unat (rg_end (am_range am) - rg_start (am_range am)) + 1)"

definition mem_byte :: "AbstractMemory \<Rightarrow> nat \<Rightarrow> u8" where
  "mem_byte am a = the (am_pmem am) ! (a - unat (rg_start (am_range am)))"

text \<open>A packet that carries a buffer of its size and lies inside the memory, from address \<open>pk_first\<close> on.\<close>

definition pk_first :: "Packet \<Rightarrow> nat" where "pk_first pkt = unat (pk_addr pkt)"
definition pk_bytes :: "Packet \<Rightarrow> u8 list" where "pk_bytes pkt = the (pk_data pkt)"

definition in_memory :: "AbstractMemory \<Rightarrow> Packet \<Rightarrow> bool" where
  "in_memory am pkt \<longleftrightarrow> pkt_isSet pkt VALID_ADDR \<and> pkt_isSet pkt VALID_SIZE \<and> pkt_isSet pkt (STATIC_DATA OR DYNAMIC_DATA) \<and>
     \<not> pkt_cacheResponding pkt \<and> 0 < pk_size pkt \<and> (\<exists>d. pk_data pkt = Some d \<and> length d = unat (pk_size pkt)) \<and>
     unat (rg_start (am_range am)) \<le> pk_first pkt \<and> pk_first pkt + unat (pk_size pkt) \<le> unat (rg_end (am_range am)) + 1"

lemma in_memory_range:
  assumes "mem_ok am" "in_memory am pkt"
  shows "isSubset (AddrRange_plain (pk_addr pkt) (pk_addr pkt + ucast (pk_size pkt - 1))) (am_range am) = Ok True"
    "hostAddr am (pk_addr pkt) = pk_first pkt - unat (rg_start (am_range am))"
    "hostAddr am (pk_addr pkt) + unat (pk_size pkt) \<le> length (the (am_pmem am))"
proof -
  let ?s = "rg_start (am_range am)" and ?e = "rg_end (am_range am)" and ?n = "unat (pk_size pkt)"
  have ne: "pk_size pkt \<noteq> 0" using assms(2) by (auto simp: in_memory_def)
  then have n: "0 < ?n" "unat (pk_size pkt - 1) = ?n - 1"
    using unat_minus_one [OF ne] by (simp_all add: unat_gt_0)
  have le: "unat ?s \<le> unat (pk_addr pkt)" "unat (pk_addr pkt) + ?n \<le> unat ?e + 1"
    using assms(2) by (simp_all add: in_memory_def pk_first_def)
  have "unat (pk_addr pkt + ucast (pk_size pkt - 1)) = unat (pk_addr pkt) + (?n - 1)"
  proof -
    have "unat (pk_addr pkt) + (?n - 1) < 2 ^ 64" using le(2) n(1) unat_less_u64 [of ?e] by linarith
    then show ?thesis by (simp add: unat_word_ariths n(2))
  qed
  then have "?s \<le> pk_addr pkt" "pk_addr pkt + ucast (pk_size pkt - 1) \<le> ?e"
    using le n(1) by (simp_all add: word_le_nat_alt)
  then show "isSubset (AddrRange_plain (pk_addr pkt) (pk_addr pkt + ucast (pk_size pkt - 1))) (am_range am) = Ok True"
    using assms(1) by (simp add: isSubset_def AddrRange_plain_def interleaved_def mem_ok_def)
  show h: "hostAddr am (pk_addr pkt) = pk_first pkt - unat ?s"
    using le(1) by (simp add: hostAddr_def pk_first_def unat_sub word_le_nat_alt)
  have "length (the (am_pmem am)) = unat ?e - unat ?s + 1" using assms(1) by (auto simp: mem_ok_def unat_sub)
  then show "hostAddr am (pk_addr pkt) + ?n \<le> length (the (am_pmem am))"
    using le h n(1) by (simp add: pk_first_def)
qed

lemma mem_access_inside:
  assumes "mem_ok am" "in_memory am pkt" "pk_cmd pkt \<noteq> CleanEvict" "pk_cmd pkt \<noteq> WritebackClean" "pk_cmd pkt \<noteq> SwapReq"
    "\<not> cmd_isInvalidate (pk_cmd pkt)" "\<not> cmd_isClean (pk_cmd pkt)"
  shows "mem_access amo pkt am =
    bindR (if cmd_isRead (pk_cmd pkt) then access_read (hostAddr am (pk_addr pkt)) pkt am
           else if cmd_isWrite (pk_cmd pkt) then access_write (hostAddr am (pk_addr pkt)) pkt am else Error Panic)
      (\<lambda>(pkt, am). bindR (if cmd_needsResponse (pk_cmd pkt) then makeResponse pkt else Ok pkt) (\<lambda>pkt. Ok (pkt, am)))"
  using assms in_memory_range(1) [OF assms(1,2)]
  by (simp add: mem_access_def in_memory_def pkt_getAddr_def pkt_getSize_def Let_def)

text \<open>A plain read returns the bytes of the memory and leaves them alone.\<close>

lemma plain_read:
  assumes ok: "mem_ok am" "in_memory am pkt" and c: "pk_cmd pkt = ReadReq"
  shows "\<exists>pkt' am'. mem_access amo pkt am = Ok (pkt', am') \<and> pk_cmd pkt' = ReadResp \<and>
    pk_bytes pkt' = map (\<lambda>i. mem_byte am (pk_first pkt + i)) [0..<unat (pk_size pkt)] \<and>
    am_pmem am' = am_pmem am \<and> am_range am' = am_range am \<and> am_locked am' = am_locked am"
proof -
  let ?h = "hostAddr am (pk_addr pkt)" and ?n = "unat (pk_size pkt)"
  obtain d buf where d: "pk_data pkt = Some d" "length d = ?n" "am_pmem am = Some buf"
    using ok by (auto simp: in_memory_def mem_ok_def)
  note r = in_memory_range [OF ok]
  have le: "?h + ?n \<le> length buf" using r(3) d by simp
  have m: "memcpy d 0 buf ?h ?n = Ok (take ?n (drop ?h buf))"
    using le d by (simp add: memcpy_def overwrite_def)
  have p: "mem_to_packet am ?h pkt = Ok (pkt\<lparr>pk_data := Some (take ?n (drop ?h buf))\<rparr>)"
    using d m ok(2) by (simp add: mem_to_packet_def pkt_getPtr_def pkt_getSize_def in_memory_def)
  have bytes: "take ?n (drop ?h buf) = map (\<lambda>i. mem_byte am (pk_first pkt + i)) [0..<?n]"
    using le ok(2) d r(2) by (intro nth_equalityI) (auto simp: mem_byte_def in_memory_def)
  define m' where "m' = rq_masterId (pk_req pkt)"
  have "\<exists>am'. access_read ?h pkt am = Ok (pkt\<lparr>pk_data := Some (take ?n (drop ?h buf))\<rparr>, am') \<and>
      am_pmem am' = am_pmem am \<and> am_range am' = am_range am \<and> am_locked am' = am_locked am"
    using ok(2) c p by (simp add: access_read_def in_memory_def pkt_getSize_def pkt_isSet_def Let_def cmd_isLLSC_def
        cmd_isWrite_def testCmdAttrib_def)
  then obtain am' where a: "access_read ?h pkt am = Ok (pkt\<lparr>pk_data := Some (take ?n (drop ?h buf))\<rparr>, am')"
    "am_pmem am' = am_pmem am" "am_range am' = am_range am" "am_locked am' = am_locked am" by blast
  show ?thesis
    unfolding mem_access_inside [OF ok, unfolded c, simplified cmd_isInvalidate_def cmd_isClean_def testCmdAttrib_def, simplified]
    using a c bytes
    by (simp add: makeResponse_def pkt_clear_def pk_bytes_def cmd_isRead_def cmd_needsResponse_def cmd_isRequest_def
        testCmdAttrib_def responseCommand_def)
qed


text \<open>A plain write stores its bytes, leaves the others, and ends the reservations of its granule.\<close>

lemma writeOK_plain:
  assumes "\<not> cmd_isLLSC (pk_cmd pkt)" "req_hasPaddr (pk_req pkt)" "am_locked am = [] \<or> req_hasContextId (pk_req pkt)"
  shows "\<exists>am'. writeOK pkt am = Ok (True, pkt, am') \<and> am_pmem am' = am_pmem am \<and> am_range am' = am_range am \<and>
    am_locked am' = filter (\<lambda>l. la_addr l \<noteq> la_mask (rq_paddr (pk_req pkt))) (am_locked am)"
proof (cases "am_locked am = []")
  case True
  then show ?thesis using assms(1) by (simp add: writeOK_def)
next
  case False
  then have c: "req_contextId (pk_req pkt) = Ok (rq_contextId (pk_req pkt))"
    using assms(3) by (simp add: req_hasContextId_def req_contextId_def)
  have "\<exists>cl. erase_locks (pk_req pkt) g ls = Ok (filter (\<lambda>l. la_addr l \<noteq> g) ls, cl)" for g ls
    by (induction ls) (auto simp: c)
  then obtain cl where cl: "erase_locks (pk_req pkt) (la_mask (rq_paddr (pk_req pkt))) (am_locked am) =
    Ok (filter (\<lambda>l. la_addr l \<noteq> la_mask (rq_paddr (pk_req pkt))) (am_locked am), cl)" by blast
  then show ?thesis using assms(1,2) False
    by (simp add: writeOK_def checkLockedAddrList_def req_hasPaddr_def req_getPaddr_def Let_def)
qed

lemma plain_write:
  assumes ok: "mem_ok am" "in_memory am pkt" and c: "pk_cmd pkt = WriteReq"
    and req: "req_hasPaddr (pk_req pkt)" "am_locked am = [] \<or> req_hasContextId (pk_req pkt)" "\<not> req_isInstFetch (pk_req pkt)"
  shows "\<exists>pkt' am'. mem_access amo pkt am = Ok (pkt', am') \<and> pk_cmd pkt' = WriteResp \<and> mem_ok am' \<and> am_range am' = am_range am \<and>
    am_locked am' = filter (\<lambda>l. la_addr l \<noteq> la_mask (rq_paddr (pk_req pkt))) (am_locked am) \<and>
    (\<forall>a. unat (rg_start (am_range am)) \<le> a \<longrightarrow> a \<le> unat (rg_end (am_range am)) \<longrightarrow>
      mem_byte am' a = (if pk_first pkt \<le> a \<and> a < pk_first pkt + unat (pk_size pkt)
                        then pk_bytes pkt ! (a - pk_first pkt) else mem_byte am a))"
proof -
  let ?h = "hostAddr am (pk_addr pkt)" and ?n = "unat (pk_size pkt)" and ?s = "unat (rg_start (am_range am))"
  obtain d buf where d: "pk_data pkt = Some d" "length d = ?n" "am_pmem am = Some buf"
    "length buf = unat (rg_end (am_range am)) - ?s + 1"
    using ok by (auto simp: in_memory_def mem_ok_def unat_sub)
  note r = in_memory_range [OF ok]
  have le: "?h + ?n \<le> length buf" using r(3) d by simp
  obtain am1 where w: "writeOK pkt am = Ok (True, pkt, am1)" "am_pmem am1 = am_pmem am" "am_range am1 = am_range am"
    "am_locked am1 = filter (\<lambda>l. la_addr l \<noteq> la_mask (rq_paddr (pk_req pkt))) (am_locked am)"
    using writeOK_plain [OF _ req(1,2)] c by (auto simp: cmd_defs)
  define buf' where "buf' = overwrite ?h d buf"
  have len: "length buf' = length buf" using le d by (simp add: buf'_def)
  have p: "packet_to_mem pkt ?h am1 = Ok (am1\<lparr>am_pmem := Some buf'\<rparr>)"
    using d le ok(2) w(2) by (simp add: packet_to_mem_def pkt_getPtr_def pkt_getSize_def in_memory_def memcpy_def buf'_def)
  have "\<exists>am'. access_write ?h pkt am = Ok (pkt, am') \<and> am_pmem am' = Some buf' \<and> am_range am' = am_range am \<and>
      am_locked am' = am_locked am1"
    using w(1,3) p req(3) ok(2) by (simp add: access_write_def in_memory_def pkt_getSize_def pkt_isSet_def Let_def)
  then obtain am' where a: "access_write ?h pkt am = Ok (pkt, am')" "am_pmem am' = Some buf'" "am_range am' = am_range am"
    "am_locked am' = am_locked am1" by blast
  have "mem_ok am'" using ok(1) a(2,3) d len by (auto simp: mem_ok_def)
  moreover have "mem_byte am' x = (if pk_first pkt \<le> x \<and> x < pk_first pkt + ?n then pk_bytes pkt ! (x - pk_first pkt) else mem_byte am x)"
    if "?s \<le> x" "x \<le> unat (rg_end (am_range am))" for x
  proof -
    have i: "x - ?s < length buf" using that d(4) by linarith
    have f: "?s \<le> pk_first pkt" using ok(2) by (simp add: in_memory_def)
    have "buf' ! (x - ?s) = (if ?h \<le> x - ?s \<and> x - ?s < ?h + ?n then d ! (x - ?s - ?h) else buf ! (x - ?s))"
      unfolding buf'_def using nth_overwrite [of ?h d buf "x - ?s"] le d(2) i by simp
    moreover have "?h \<le> x - ?s \<and> x - ?s < ?h + ?n \<longleftrightarrow> pk_first pkt \<le> x \<and> x < pk_first pkt + ?n" "x - ?s - ?h = x - pk_first pkt"
      using r(2) f that(1) by auto
    ultimately show ?thesis using a(2,3) d by (simp add: mem_byte_def pk_bytes_def)
  qed
  ultimately show ?thesis
    unfolding mem_access_inside [OF ok, unfolded c, simplified cmd_isInvalidate_def cmd_isClean_def testCmdAttrib_def, simplified]
    using a c w(4)
    by (simp add: makeResponse_def pkt_clear_def cmd_isRead_def cmd_isWrite_def cmd_needsResponse_def cmd_isRequest_def
        testCmdAttrib_def responseCommand_def)
qed

text \<open>A writeback stores its bytes without a response.\<close>

lemma store_writeback:
  assumes ok: "mem_ok am" "in_memory am pkt" and c: "pk_cmd pkt = WritebackDirty"
    and req: "req_hasPaddr (pk_req pkt)" "am_locked am = []" "\<not> req_isInstFetch (pk_req pkt)"
  shows "\<exists>pkt' am'. mem_access amo pkt am = Ok (pkt', am') \<and> mem_ok am' \<and> am_range am' = am_range am \<and> am_locked am' = [] \<and>
    (\<forall>a. unat (rg_start (am_range am)) \<le> a \<longrightarrow> a \<le> unat (rg_end (am_range am)) \<longrightarrow>
      mem_byte am' a = (if pk_first pkt \<le> a \<and> a < pk_first pkt + unat (pk_size pkt)
                        then pk_bytes pkt ! (a - pk_first pkt) else mem_byte am a))"
proof -
  let ?q = "pkt\<lparr>pk_cmd := WriteReq\<rparr>" and ?h = "hostAddr am (pk_addr pkt)"
  have q: "in_memory am ?q" using ok(2) by (simp add: in_memory_def pkt_isSet_def pkt_cacheResponding_def pk_first_def)
  have "pk_cmd ?q = WriteReq" "req_hasPaddr (pk_req ?q)" "am_locked am = [] \<or> req_hasContextId (pk_req ?q)" "\<not> req_isInstFetch (pk_req ?q)"
    using req by simp_all
  from plain_write [OF ok(1) q this] obtain q' am' where
    w: "mem_access amo ?q am = Ok (q', am')" "mem_ok am'" "am_range am' = am_range am"
      "am_locked am' = filter (\<lambda>l. la_addr l \<noteq> la_mask (rq_paddr (pk_req ?q))) (am_locked am)"
      "\<forall>a. unat (rg_start (am_range am)) \<le> a \<longrightarrow> a \<le> unat (rg_end (am_range am)) \<longrightarrow>
      mem_byte am' a = (if pk_first ?q \<le> a \<and> a < pk_first ?q + unat (pk_size ?q)
                        then pk_bytes ?q ! (a - pk_first ?q) else mem_byte am a)" by blast
  have aw: "access_write ?h ?q am = bindR (access_write ?h pkt am) (\<lambda>(p, am). Ok (p\<lparr>pk_cmd := WriteReq\<rparr>, am))"
  proof -
    have "writeOK ?q am = Ok (True, ?q, am)" "writeOK pkt am = Ok (True, pkt, am)" using req(2) c by (simp_all add: writeOK_def cmd_defs)
    moreover have "packet_to_mem ?q h a = packet_to_mem pkt h a" for h a
      by (simp add: packet_to_mem_def pkt_getPtr_def pkt_getSize_def pkt_isSet_def split: option.split)
    ultimately show ?thesis
      by (simp add: access_write_def pkt_getSize_def pkt_isSet_def Let_def bindR_assoc)
  qed
  obtain p1 where p1: "access_write ?h pkt am = Ok (p1, am')"
    using w(1) mem_access_inside [OF ok(1) q, of amo] aw by (auto simp: cmd_defs bindR_Ok_iff)
  moreover have "writeOK pkt am = Ok (True, pkt, am)" using req(2) c by (simp add: writeOK_def cmd_defs)
  ultimately have "p1 = pkt" by (auto simp: access_write_def bindR_Ok_iff Let_def)
  with p1 have "mem_access amo pkt am = Ok (p1, am')" using mem_access_inside [OF ok, of amo] c by (simp add: cmd_defs)
  then show ?thesis using w req(2) by (auto simp: pk_first_def pk_bytes_def)
qed


lemma read_response:
  assumes ok: "mem_ok am" "in_memory am pkt" and c: "pk_cmd pkt = ReadReq" and r: "mem_access amo pkt am = Ok (pkt', am')"
  shows "makeResponse (pkt\<lparr>pk_data := Some (pk_bytes pkt')\<rparr>) = Ok pkt'"
proof -
  have "mem_access amo pkt am = bindR (access_read (hostAddr am (pk_addr pkt)) pkt am)
      (\<lambda>(pkt, am). bindR (if cmd_needsResponse (pk_cmd pkt) then makeResponse pkt else Ok pkt) (\<lambda>pkt. Ok (pkt, am)))"
    using mem_access_inside [OF ok, of amo] c by (simp add: cmd_defs)
  from r [unfolded this] obtain p1 am1 where a: "access_read (hostAddr am (pk_addr pkt)) pkt am = Ok (p1, am1)"
    "(if cmd_needsResponse (pk_cmd p1) then makeResponse p1 else Ok p1) = Ok pkt'" by (auto simp: bindR_Ok_iff)
  obtain buf where buf: "am_pmem am = Some buf" using ok(1) by (auto simp: mem_ok_def)
  have p1: "\<exists>d. p1 = pkt\<lparr>pk_data := Some d\<rparr>"
    using a(1) c buf by (auto simp: access_read_def bindR_Ok_iff cmd_defs mem_to_packet_def Let_def)
  then obtain d where d: "p1 = pkt\<lparr>pk_data := Some d\<rparr>" by blast
  have m: "makeResponse p1 = Ok pkt'" using a(2) d c by (simp add: cmd_defs)
  then have "pk_bytes pkt' = d" using d by (auto simp: makeResponse_def pkt_clear_def pk_bytes_def bindR_Ok_iff)
  with m d show ?thesis by simp
qed

section \<open>Properties\<close>

text \<open>C11: a memory returns what was written: a plain write followed by a plain read both succeed and turn into their
  responses, and each byte read is the one written if the write covered its address and the old byte otherwise.\<close>

theorem read_after_write:
  assumes "mem_ok am" "in_memory am w" "pk_cmd w = WriteReq" "req_hasPaddr (pk_req w)" "\<not> req_isInstFetch (pk_req w)"
    and "am_locked am = [] \<or> req_hasContextId (pk_req w)" "in_memory am r" "pk_cmd r = ReadReq"
  shows "\<exists>w' am1 r' am2. mem_access amo w am = Ok (w', am1) \<and> pk_cmd w' = WriteResp \<and>
    mem_access amo r am1 = Ok (r', am2) \<and> pk_cmd r' = ReadResp \<and>
    pk_bytes r' = map (\<lambda>i. let a = pk_first r + i in
      if pk_first w \<le> a \<and> a < pk_first w + unat (pk_size w) then pk_bytes w ! (a - pk_first w) else mem_byte am a)
      [0..<unat (pk_size r)]"
proof -
  from plain_write [OF assms(1-4,6,5), of amo] obtain w' am1 where w: "mem_access amo w am = Ok (w', am1)" "pk_cmd w' = WriteResp"
    "mem_ok am1" "am_range am1 = am_range am"
    "\<forall>a. unat (rg_start (am_range am)) \<le> a \<longrightarrow> a \<le> unat (rg_end (am_range am)) \<longrightarrow>
      mem_byte am1 a = (if pk_first w \<le> a \<and> a < pk_first w + unat (pk_size w) then pk_bytes w ! (a - pk_first w) else mem_byte am a)"
    by blast
  have "in_memory am1 r" using assms(7) w(4) by (simp add: in_memory_def)
  from plain_read [OF w(3) this assms(8), of amo] obtain r' am2 where r: "mem_access amo r am1 = Ok (r', am2)" "pk_cmd r' = ReadResp"
    "pk_bytes r' = map (\<lambda>i. mem_byte am1 (pk_first r + i)) [0..<unat (pk_size r)]" by blast
  have "pk_bytes r' = map (\<lambda>i. let a = pk_first r + i in
      if pk_first w \<le> a \<and> a < pk_first w + unat (pk_size w) then pk_bytes w ! (a - pk_first w) else mem_byte am a)
      [0..<unat (pk_size r)]"
    unfolding r(3) using assms(7) w(5) by (intro map_cong) (auto simp: in_memory_def Let_def)
  then show ?thesis using w r by blast
qed

definition small_mem :: AbstractMemory where
  "small_mem = setBackingStore (Some (replicate 64 0)) (new_AbstractMemory (AddrRange_plain 0 63))"

definition mem_packet :: "Command \<Rightarrow> int \<Rightarrow> Addr \<Rightarrow> u8 list \<Rightarrow> Packet" where
  "mem_packet c cid a d = (blank_Packet 0 (setContext cid (Request_phys a (of_nat (length d)) 0 0 0)) c)
     \<lparr>pk_flags := VALID_ADDR OR VALID_SIZE OR DYNAMIC_DATA, pk_addr := a, pk_size := of_nat (length d), pk_data := Some d\<rparr>"

lemma small_mem_ok: "mem_ok small_mem"
  by (simp add: mem_ok_def small_mem_def setBackingStore_def new_AbstractMemory_def AddrRange_plain_def interleaved_def)

lemma mem_packet_simps:
  "pk_cmd (mem_packet c cid a d) = c" "pk_addr (mem_packet c cid a d) = a" "pk_data (mem_packet c cid a d) = Some d"
  "pk_size (mem_packet c cid a d) = of_nat (length d)" "\<not> pkt_cacheResponding (mem_packet c cid a d)"
  "pkt_isSet (mem_packet c cid a d) VALID_ADDR" "pkt_isSet (mem_packet c cid a d) VALID_SIZE"
  "pkt_isSet (mem_packet c cid a d) (STATIC_DATA OR DYNAMIC_DATA)"
  "req_hasPaddr (pk_req (mem_packet c cid a d))" "req_hasContextId (pk_req (mem_packet c cid a d))"
  "\<not> req_isInstFetch (pk_req (mem_packet c cid a d))" "rq_paddr (pk_req (mem_packet c cid a d)) = a"
  "rq_contextId (pk_req (mem_packet c cid a d)) = cid"
  by (simp_all add: mem_packet_def blank_Packet_def pkt_cacheResponding_def pkt_isSet_def flags_isSet_def pkt_flag_defs
      setContext_def Request_phys_def setPhys_def empty_Request_def req_hasPaddr_def req_hasContextId_def req_private_def
      req_isInstFetch_def req_isSet_def flags_set_def flags_clear_def req_private_defs STICKY_FLAGS_def INST_FETCH_def
      STICKY_PRIVATE_FLAGS_def)

theorem read_after_write_witness:
  "\<exists>w' am1 r' am2. mem_access (\<lambda>_. id) (mem_packet WriteReq 0 8 [1, 2]) small_mem = Ok (w', am1) \<and>
    mem_access (\<lambda>_. id) (mem_packet ReadReq 1 9 [0, 0, 0]) am1 = Ok (r', am2) \<and> pk_bytes r' = [2, 0, 0]"
proof -
  have w: "in_memory small_mem (mem_packet WriteReq 0 8 [1, 2])" and r: "in_memory small_mem (mem_packet ReadReq 1 9 [0, 0, 0])"
    by (simp_all add: in_memory_def mem_packet_simps pk_first_def small_mem_def setBackingStore_def new_AbstractMemory_def
        AddrRange_plain_def)
  have l: "am_locked small_mem = [] \<or> req_hasContextId (pk_req (mem_packet WriteReq 0 8 [1, 2]))" by (simp add: mem_packet_simps)
  from read_after_write [OF small_mem_ok w mem_packet_simps(1) mem_packet_simps(9) mem_packet_simps(11) l r mem_packet_simps(1),
      of "\<lambda>_. id"]
  show ?thesis
    by (auto simp: mem_packet_simps pk_first_def pk_bytes_def Let_def upt_rec mem_byte_def small_mem_def setBackingStore_def
        new_AbstractMemory_def AddrRange_plain_def)
qed


text \<open>C12: a store-conditional succeeds exactly when nothing was written to the granule since the load-locked of its context: whatever accesses the memory
  serves in between, as long as the context does not load-lock again, the store-conditional is performed if and only if none of them wrote a byte of the
  granule, whichever context it came from. Plain stores and store-conditionals that were performed write. The accesses in between are requests that are not
  swaps and do not cross the border of a granule: the memory does not compare the granules of those with the reservations.\<close>

theorem store_conditional_spec:
  assumes "mem_locks_ok am" "mem_access amo ll am = Ok (ll', am1)" "packet_event ll = Some (LoadLocked c g)"
    "run_accesses (mem_access amo) ps am1 = Ok (log, am2)" "\<forall>p\<in>set ps. \<forall>g'. packet_event p \<noteq> Some (LoadLocked c g')"
    "\<forall>p\<in>set ps. cmd_isRequest (pk_cmd p) \<and> pk_cmd p \<noteq> SwapReq \<and> in_one_granule p"
    "mem_access amo sc am2 = Ok (sc', am3)" "packet_event sc = Some (StoreCond c g)"
  shows "sc_performed sc' \<longleftrightarrow> (\<forall>x\<in>set log. \<not> writes_into g x)"
proof -
  have "wrote_granule packet_event sc_performed g x = writes_into g x" if "x \<in> set log" for x
    using run_accesses_log [OF assms(4) that] assms(6) wrote_granule_bytes [of amo "fst x" _ "snd x" _ g] by auto
  then show ?thesis using locks.store_conditional_iff [OF assms(1-5,7,8)] by blast
qed

text \<open>A store that begins before the granule and reaches into it leaves the reservation alone, as only the granule of its first byte is compared.\<close>

theorem crossing_store_keeps_reservation:
  assumes "mem_locks_ok am" "mem_access amo ll am = Ok (ll', am1)" "packet_event ll = Some (LoadLocked c g)"
    "mem_access amo w am1 = Ok (w', am2)" "pk_cmd w = WriteReq" "la_mask (rq_paddr (pk_req w)) \<noteq> g"
    "mem_access amo sc am2 = Ok (sc', am3)" "packet_event sc = Some (StoreCond c g)"
  shows "sc_performed sc'"
proof -
  have "run_accesses (mem_access amo) [w] am1 = Ok ([(w, w')], am2)" using assms(4) by simp
  moreover have "packet_event w = None \<or> packet_event w = Some (StoreTo (la_mask (rq_paddr (pk_req w))))"
    using assms(5) by (simp add: packet_event_def cmd_defs Let_def)
  ultimately show ?thesis using locks.store_conditional_iff [OF assms(1-3) _ _ assms(7,8), of "[w]" "[(w, w')]"] assms(6)
    by (auto simp: wrote_granule_def)
qed

lemma sample_ll:
  "\<exists>p s. mem_access (\<lambda>_. id) (mem_packet LoadLockedReq 1 0 [0]) small_mem = Ok (p, s) \<and>
     am_locked s = [\<lparr>la_addr = 0, la_contextId = 1\<rparr>] \<and> am_pmem s = am_pmem small_mem \<and> am_range s = am_range small_mem"
proof -
  have "in_memory small_mem (mem_packet LoadLockedReq 1 0 [0])"
    by (simp add: in_memory_def mem_packet_simps pk_first_def small_mem_def setBackingStore_def new_AbstractMemory_def
        AddrRange_plain_def)
  note a = mem_access_inside [OF small_mem_ok this, of "\<lambda>_. id", unfolded mem_packet_simps]
  show ?thesis
    by (subst a)
      (simp_all add: cmd_defs access_read_def trackLoadLocked_def new_LockedAddr_def mem_packet_def blank_Packet_def small_mem_def
        setBackingStore_def new_AbstractMemory_def setContext_def Request_phys_def setPhys_def empty_Request_def req_getPaddr_def
        req_contextId_def req_private_def req_private_defs STICKY_PRIVATE_FLAGS_def STICKY_FLAGS_def INST_FETCH_def flags_isSet_def
        flags_set_def flags_clear_def la_mask_def mem_to_packet_def pkt_getPtr_def pkt_getSize_def pkt_isSet_def pkt_flag_defs
        memcpy_def hostAddr_def AddrRange_plain_def req_isInstFetch_def req_isSet_def makeResponse_def pkt_clear_def)
qed

lemma sample_sc:
  assumes "am_locked s = [\<lparr>la_addr = 0, la_contextId = 1\<rparr>]" "mem_ok s" "am_range s = am_range small_mem"
  shows "\<exists>p s'. mem_access (\<lambda>_. id) (mem_packet StoreCondReq 1 4 [9]) s = Ok (p, s')"
proof -
  have "in_memory s (mem_packet StoreCondReq 1 4 [9])"
    by (simp add: in_memory_def mem_packet_simps pk_first_def assms(3) small_mem_def setBackingStore_def new_AbstractMemory_def
        AddrRange_plain_def)
  note a = mem_access_inside [OF assms(2) this, of "\<lambda>_. id", unfolded mem_packet_simps]
  obtain buf where buf: "am_pmem s = Some buf" "length buf = 64"
    using assms(2,3) by (auto simp: mem_ok_def small_mem_def setBackingStore_def new_AbstractMemory_def AddrRange_plain_def)
  show ?thesis
    by (subst a)
      (simp_all add: cmd_defs access_write_def writeOK_def checkLockedAddrList_def assms(1,3) buf la_matchesContext_def
        mem_packet_def blank_Packet_def setContext_def Request_phys_def setPhys_def empty_Request_def req_getPaddr_def
        req_contextId_def req_private_def req_private_defs STICKY_PRIVATE_FLAGS_def STICKY_FLAGS_def INST_FETCH_def flags_isSet_def
        flags_set_def flags_clear_def la_mask_def packet_to_mem_def pkt_getPtr_def pkt_getSize_def pkt_isSet_def pkt_flag_defs
        memcpy_def hostAddr_def AddrRange_plain_def req_isInstFetch_def req_isSet_def makeResponse_def pkt_clear_def
        req_setExtraData_def small_mem_def setBackingStore_def new_AbstractMemory_def Let_def)
qed


lemma sample_events:
  "packet_event (mem_packet LoadLockedReq 1 0 [0]) = Some (LoadLocked 1 0)"
  "packet_event (mem_packet StoreCondReq 1 4 [9]) = Some (StoreCond 1 0)"
  "packet_event (mem_packet WriteReq 0 32 [5]) = Some (StoreTo 32)"
  "packet_event (mem_packet SwapReq 0 0 [5]) = None"
  by (simp_all add: packet_event_def mem_packet_simps cmd_defs la_mask_def)

lemma sample_covers: "pk_covers (mem_packet WriteReq 0 32 [5]) a \<longleftrightarrow> a = 32"
  by (simp add: pk_covers_def mem_packet_simps)

theorem store_conditional_spec_witness:
  "\<exists>ll' am1 log am2 sc' am3. mem_access (\<lambda>_. id) (mem_packet LoadLockedReq 1 0 [0]) small_mem = Ok (ll', am1) \<and>
    run_accesses (mem_access (\<lambda>_. id)) [mem_packet WriteReq 0 32 [5]] am1 = Ok (log, am2) \<and>
    mem_access (\<lambda>_. id) (mem_packet StoreCondReq 1 4 [9]) am2 = Ok (sc', am3) \<and> sc_performed sc'"
proof -
  obtain ll' am1 where l: "mem_access (\<lambda>_. id) (mem_packet LoadLockedReq 1 0 [0]) small_mem = Ok (ll', am1)"
    "am_locked am1 = [\<lparr>la_addr = 0, la_contextId = 1\<rparr>]" "am_pmem am1 = am_pmem small_mem" "am_range am1 = am_range small_mem"
    using sample_ll by blast
  have ok1: "mem_ok am1" using small_mem_ok l(3,4) by (simp add: mem_ok_def)
  have in1: "in_memory am1 (mem_packet WriteReq 0 32 [5])"
    by (simp add: in_memory_def mem_packet_simps pk_first_def l(4) small_mem_def setBackingStore_def new_AbstractMemory_def
        AddrRange_plain_def)
  obtain w' am2 where w: "mem_access (\<lambda>_. id) (mem_packet WriteReq 0 32 [5]) am1 = Ok (w', am2)" "mem_ok am2"
    "am_range am2 = am_range am1" "am_locked am2 = am_locked am1"
    using plain_write [OF ok1 in1 mem_packet_simps(1) mem_packet_simps(9) _ mem_packet_simps(11), of "\<lambda>_. id"] l(2)
    by (auto simp: mem_packet_simps la_mask_def)
  have run: "run_accesses (mem_access (\<lambda>_. id)) [mem_packet WriteReq 0 32 [5]] am1 =
      Ok ([(mem_packet WriteReq 0 32 [5], w')], am2)" using w(1) by simp
  obtain sc' am3 where c: "mem_access (\<lambda>_. id) (mem_packet StoreCondReq 1 4 [9]) am2 = Ok (sc', am3)"
    using sample_sc [of am2] w(2-4) l(2,4) by auto
  have "mem_locks_ok small_mem" by (simp add: mem_locks_ok_def small_mem_def setBackingStore_def new_AbstractMemory_def)
  from store_conditional_spec [OF this l(1) sample_events(1) run _ _ c sample_events(2)] sample_covers
  have "sc_performed sc'" by (auto simp: sample_events mem_packet_simps in_one_granule_def writes_into_def la_mask_def cmd_defs)
  with l(1) run c show ?thesis by blast
qed

text \<open>C36: an atomic or swap access never ends a reservation: a context's store-conditional succeeds although another context
  has swapped the locked location since the load-locked, against the rule that every store is compared with the locked addresses.\<close>

theorem swap_keeps_reservation:
  assumes "mem_locks_ok am" "mem_access amo ll am = Ok (ll', am1)" "packet_event ll = Some (LoadLocked c g)"
    "pk_cmd sw = SwapReq" "mem_access amo sw am1 = Ok (sw', am2)"
    "mem_access amo sc am2 = Ok (sc', am3)" "packet_event sc = Some (StoreCond c g)"
  shows "sc_performed sc'"
proof -
  have e: "packet_event sw = None" using assms(4) by (simp add: packet_event_def)
  have "run_accesses (mem_access amo) [sw] am1 = Ok ([(sw, sw')], am2)" using assms(5) by simp
  from locks.store_conditional_iff [OF assms(1-3) this _ assms(6,7)] show ?thesis by (simp add: e wrote_granule_def)
qed

lemma sample_swap:
  assumes "mem_ok s" "am_range s = am_range small_mem"
  shows "\<exists>p s'. mem_access (\<lambda>_. id) (mem_packet SwapReq 0 0 [5]) s = Ok (p, s') \<and> am_locked s' = am_locked s \<and>
    mem_ok s' \<and> am_range s' = am_range s \<and> mem_byte s' 0 = 5"
proof -
  have r: "am_range s = AddrRange_plain 0 63"
    using assms(2) by (simp add: small_mem_def setBackingStore_def new_AbstractMemory_def)
  obtain b where b: "am_pmem s = Some b" "length b = 64" using assms(1) r by (auto simp: mem_ok_def AddrRange_plain_def)
  then obtain x bs where buf: "am_pmem s = Some (x # bs)" "length bs = 63" by (cases b) auto
  show ?thesis
    using assms(1) unfolding mem_access_def
    by (simp add: mem_packet_simps pkt_getAddr_def pkt_getSize_def r isSubset_def interleaved_def AddrRange_plain_def
        access_swap_def hostAddr_def buf mem_to_packet_def pkt_getPtr_def memcpy_def overwrite_def swap_condition_def Let_def)
      (simp add: mem_packet_def blank_Packet_def setContext_def Request_phys_def setPhys_def empty_Request_def
        req_isAtomic_def req_isCondSwap_def req_isInstFetch_def req_isSet_def flags_isSet_def flags_set_def flags_clear_def
        STICKY_FLAGS_def INST_FETCH_def cmd_defs makeResponse_def pkt_clear_def mem_ok_def mem_byte_def count_other_def
        r AddrRange_plain_def interleaved_def buf)
qed

theorem swap_keeps_reservation_witness:
  "\<exists>ll' am1 sw' am2 sc' am3. mem_access (\<lambda>_. id) (mem_packet LoadLockedReq 1 0 [0]) small_mem = Ok (ll', am1) \<and>
    mem_access (\<lambda>_. id) (mem_packet SwapReq 0 0 [5]) am1 = Ok (sw', am2) \<and> mem_byte am2 0 = 5 \<and>
    mem_access (\<lambda>_. id) (mem_packet StoreCondReq 1 4 [9]) am2 = Ok (sc', am3) \<and> sc_performed sc'"
proof -
  obtain ll' am1 where l: "mem_access (\<lambda>_. id) (mem_packet LoadLockedReq 1 0 [0]) small_mem = Ok (ll', am1)"
    "am_locked am1 = [\<lparr>la_addr = 0, la_contextId = 1\<rparr>]" "am_pmem am1 = am_pmem small_mem" "am_range am1 = am_range small_mem"
    using sample_ll by blast
  have "mem_ok am1" using small_mem_ok l(3,4) by (simp add: mem_ok_def)
  from sample_swap [OF this l(4)] obtain sw' am2 where w: "mem_access (\<lambda>_. id) (mem_packet SwapReq 0 0 [5]) am1 = Ok (sw', am2)"
    "am_locked am2 = am_locked am1" "mem_ok am2" "am_range am2 = am_range am1" "mem_byte am2 0 = 5" by blast
  obtain sc' am3 where c: "mem_access (\<lambda>_. id) (mem_packet StoreCondReq 1 4 [9]) am2 = Ok (sc', am3)"
    using sample_sc [of am2] w(2-4) l(2,4) by auto
  have "mem_locks_ok small_mem" by (simp add: mem_locks_ok_def small_mem_def setBackingStore_def new_AbstractMemory_def)
  from swap_keeps_reservation [OF this l(1) sample_events(1) mem_packet_simps(1) w(1) c sample_events(2)]
  show ?thesis using l(1) w(1,5) c by blast
qed

end
