(* ===== verification/Cache_Blk.thy ===== *)
theory Cache_Blk
  imports Mem_Packet
begin

text \<open>
  Cache blocks, \<^verbatim>\<open>mem/cache/blk.hh\<close> and \<^verbatim>\<open>mem/cache/blk.cc\<close>: the status bits, insertion and invalidation, and the
  load-locked ranges a block keeps with the check every store makes against them. The data pointer of a block is the
  list of its bytes (\<open>None\<close> before the tags assign one). The replacement data of a block is kept by the tags.
\<close>

section \<open>State\<close>

definition BlkValid :: u32 where "BlkValid = 0x01"
definition BlkWritable :: u32 where "BlkWritable = 0x02"
definition BlkReadable :: u32 where "BlkReadable = 0x04"
definition BlkDirty :: u32 where "BlkDirty = 0x08"
definition BlkHWPrefetched :: u32 where "BlkHWPrefetched = 0x20"
definition BlkSecure :: u32 where "BlkSecure = 0x40"

lemmas blk_bit_defs = BlkValid_def BlkWritable_def BlkReadable_def BlkDirty_def BlkHWPrefetched_def BlkSecure_def

record Lock =
  lk_contextId :: int
  lk_lowAddr :: Addr
  lk_highAddr :: Addr

record CacheBlk =
  cb_task_id :: u32
  cb_tag :: Addr
  cb_data :: "u8 list option"
  cb_status :: u32
  cb_whenReady :: Tick
  cb_set :: int
  cb_way :: int
  cb_refCount :: u32
  cb_srcMasterId :: int
  cb_tickInserted :: Tick
  cb_lockList :: "Lock list"

definition lock_matches :: "Lock \<Rightarrow> Request \<Rightarrow> bool result" where
  "lock_matches l req =
     bindR (req_getPaddr req) (\<lambda>req_low. bindR (req_getSize req) (\<lambda>sz.
       let req_high = req_low + ucast sz - 1 in
       bindR (req_contextId req) (\<lambda>c. Ok (lk_contextId l = c \<and> req_low \<ge> lk_lowAddr l \<and> req_high \<le> lk_highAddr l))))"

definition lock_intersects :: "Lock \<Rightarrow> Request \<Rightarrow> bool result" where
  "lock_intersects l req =
     bindR (req_getPaddr req) (\<lambda>req_low. bindR (req_getSize req) (\<lambda>sz.
       let req_high = req_low + ucast sz - 1 in Ok (req_low \<le> lk_highAddr l \<and> req_high \<ge> lk_lowAddr l)))"

definition new_Lock :: "Request \<Rightarrow> Lock result" where
  "new_Lock req =
     bindR (req_contextId req) (\<lambda>c. bindR (req_getPaddr req) (\<lambda>low. bindR (req_getSize req) (\<lambda>sz.
       Ok \<lparr>lk_contextId = c, lk_lowAddr = low, lk_highAddr = low + ucast sz - 1\<rparr>)))"

definition isWritable :: "'a CacheBlk_scheme \<Rightarrow> bool" where
  "isWritable b \<longleftrightarrow> (let needed_bits = BlkWritable OR BlkValid in cb_status b AND needed_bits = needed_bits)"

definition isReadable :: "'a CacheBlk_scheme \<Rightarrow> bool" where
  "isReadable b \<longleftrightarrow> (let needed_bits = BlkReadable OR BlkValid in cb_status b AND needed_bits = needed_bits)"

definition isValid :: "'a CacheBlk_scheme \<Rightarrow> bool" where
  "isValid b \<longleftrightarrow> cb_status b AND BlkValid \<noteq> 0"

definition isDirty :: "'a CacheBlk_scheme \<Rightarrow> bool" where
  "isDirty b \<longleftrightarrow> cb_status b AND BlkDirty \<noteq> 0"

definition wasPrefetched :: "'a CacheBlk_scheme \<Rightarrow> bool" where
  "wasPrefetched b \<longleftrightarrow> cb_status b AND BlkHWPrefetched \<noteq> 0"

definition blk_isSecure :: "'a CacheBlk_scheme \<Rightarrow> bool" where
  "blk_isSecure b \<longleftrightarrow> cb_status b AND BlkSecure \<noteq> 0"

definition blk_invalidate :: "'a CacheBlk_scheme \<Rightarrow> 'a CacheBlk_scheme" where
  "blk_invalidate b = b\<lparr>cb_tag := -1, cb_task_id := unknown_task, cb_status := 0, cb_whenReady := -1, cb_refCount := 0,
     cb_srcMasterId := int (unat invldMasterId), cb_tickInserted := -1, cb_lockList := []\<rparr>"

text \<open>The members the constructor leaves unset are arguments.\<close>

definition new_CacheBlk :: "int \<Rightarrow> int \<Rightarrow> CacheBlk" where
  "new_CacheBlk set0 way0 = blk_invalidate \<lparr>cb_task_id = 0, cb_tag = 0, cb_data = None, cb_status = 0, cb_whenReady = 0,
     cb_set = set0, cb_way = way0, cb_refCount = 0, cb_srcMasterId = 0, cb_tickInserted = 0, cb_lockList = []\<rparr>"

definition blk_insert :: "Tick \<Rightarrow> Addr \<Rightarrow> bool \<Rightarrow> int \<Rightarrow> u32 \<Rightarrow> 'a CacheBlk_scheme \<Rightarrow> 'a CacheBlk_scheme" where
  "blk_insert curTick tag is_secure src_master_ID task_ID b = b\<lparr>cb_tag := tag, cb_srcMasterId := src_master_ID,
     cb_task_id := task_ID, cb_tickInserted := curTick, cb_refCount := 1, cb_status := (if is_secure then BlkSecure else 0)\<rparr>"

text \<open>The letter of \<^verbatim>\<open>print\<close>: the MOESI state of the block.\<close>

definition blk_state :: "'a CacheBlk_scheme \<Rightarrow> char" where
  "blk_state b =
     (if isWritable b \<and> isDirty b \<and> isValid b then CHR ''M''
      else if \<not> isWritable b \<and> isDirty b \<and> isValid b then CHR ''O''
      else if isWritable b \<and> \<not> isDirty b \<and> isValid b then CHR ''E''
      else if \<not> isWritable b \<and> \<not> isDirty b \<and> isValid b then CHR ''S''
      else if \<not> isWritable b \<and> \<not> isDirty b \<and> \<not> isValid b then CHR ''I'' else CHR ''T'')"

section \<open>Load-locked ranges\<close>

text \<open>The loops that erase the elements of the list of locks for which a test holds.\<close>

fun erase_if :: "(Lock \<Rightarrow> bool result) \<Rightarrow> Lock list \<Rightarrow> Lock list result" where
  "erase_if t [] = Ok []"
| "erase_if t (l # ls) = bindR (t l) (\<lambda>b. bindR (erase_if t ls) (\<lambda>ks. Ok (if b then ks else l # ks)))"

definition blk_trackLoadLocked :: "Packet \<Rightarrow> 'a CacheBlk_scheme \<Rightarrow> 'a CacheBlk_scheme result" where
  "blk_trackLoadLocked pkt b =
     bindR (assertR (cmd_isLLSC (pk_cmd pkt)) AssertFail) (\<lambda>_.
     bindR (erase_if (\<lambda>l. lock_intersects l (pk_req pkt)) (cb_lockList b)) (\<lambda>ls.
     bindR (new_Lock (pk_req pkt)) (\<lambda>l. Ok (b\<lparr>cb_lockList := l # ls\<rparr>))))"

definition clearLoadLocks :: "Request \<Rightarrow> 'a CacheBlk_scheme \<Rightarrow> 'a CacheBlk_scheme result" where
  "clearLoadLocks req b =
     bindR (erase_if (\<lambda>l. bindR (lock_intersects l req) (\<lambda>i.
       if i then bindR (req_contextId req) (\<lambda>c. Ok (lk_contextId l \<noteq> c)) else Ok False)) (cb_lockList b)) (\<lambda>ls.
     Ok (b\<lparr>cb_lockList := ls\<rparr>))"

text \<open>The search for a lock the store-conditional matches, which erases the first.\<close>

fun take_match :: "Request \<Rightarrow> Lock list \<Rightarrow> (bool \<times> Lock list) result" where
  "take_match req [] = Ok (False, [])"
| "take_match req (l # ls) =
     bindR (lock_matches l req) (\<lambda>b.
       if b then Ok (True, ls) else bindR (take_match req ls) (\<lambda>(s, ks). Ok (s, l # ks)))"

definition checkWrite :: "Packet \<Rightarrow> 'a CacheBlk_scheme \<Rightarrow> (bool \<times> Packet \<times> 'a CacheBlk_scheme) result" where
  "checkWrite pkt b =
     bindR (assertR (cmd_isWrite (pk_cmd pkt)) AssertFail) (\<lambda>_.
       if \<not> cmd_isLLSC (pk_cmd pkt) \<and> cb_lockList b = [] then Ok (True, pkt, b)
       else if cmd_isLLSC (pk_cmd pkt)
       then bindR (take_match (pk_req pkt) (cb_lockList b)) (\<lambda>(success, ls).
            let pkt = pkt\<lparr>pk_req := req_setExtraData (if success then 1 else 0) (pk_req pkt)\<rparr> in
            bindR (clearLoadLocks (pk_req pkt) (b\<lparr>cb_lockList := ls\<rparr>)) (\<lambda>b. Ok (success, pkt, b)))
       else bindR (clearLoadLocks (pk_req pkt) b) (\<lambda>b. Ok (True, pkt, b)))"

section \<open>The temporary block\<close>

record TempCacheBlk = CacheBlk +
  tb_addr :: Addr

definition new_TempCacheBlk :: "(nat \<Rightarrow> u8) \<Rightarrow> u32 \<Rightarrow> TempCacheBlk" where
  "new_TempCacheBlk junk size0 = CacheBlk.extend ((new_CacheBlk 0 0)\<lparr>cb_data := Some (map junk [0..<unat size0])\<rparr>) (TempCacheBlk.fields 0)"

definition TempCacheBlk_invalidate :: "TempCacheBlk \<Rightarrow> TempCacheBlk" where
  "TempCacheBlk_invalidate b = (blk_invalidate b)\<lparr>tb_addr := -1\<rparr>"

definition TempCacheBlk_insert :: "Addr \<Rightarrow> bool \<Rightarrow> TempCacheBlk \<Rightarrow> TempCacheBlk" where
  "TempCacheBlk_insert addr is_secure b = b\<lparr>tb_addr := addr, cb_status := (if is_secure then BlkSecure else 0)\<rparr>"

definition TempCacheBlk_getAddr :: "TempCacheBlk \<Rightarrow> Addr" where
  "TempCacheBlk_getAddr b = tb_addr b"

section \<open>Status\<close>

lemma blk_bits_exp:
  "BlkValid = 2 ^ 0" "BlkWritable = 2 ^ 1" "BlkReadable = 2 ^ 2" "BlkDirty = 2 ^ 3" "BlkHWPrefetched = 2 ^ 5" "BlkSecure = 2 ^ 6"
  by (simp_all add: blk_bit_defs)

lemma and_two_bits:
  fixes w :: u32
  assumes "m < 32" "n < 32"
  shows "w AND (2 ^ m OR 2 ^ n) = 2 ^ m OR 2 ^ n \<longleftrightarrow> bit w m \<and> bit w n"
proof
  assume e: "w AND (2 ^ m OR 2 ^ n) = 2 ^ m OR 2 ^ n"
  have "bit (w AND (2 ^ m OR 2 ^ n)) m" "bit (w AND (2 ^ m OR 2 ^ n)) n" unfolding e using assms by (simp_all add: bit_simps)
  then show "bit w m \<and> bit w n" by (simp add: bit_simps)
next
  assume "bit w m \<and> bit w n"
  then show "w AND (2 ^ m OR 2 ^ n) = 2 ^ m OR 2 ^ n" by (intro bit_word_eqI) (auto simp: bit_simps)
qed

lemma status_bits:
  "isValid b \<longleftrightarrow> bit (cb_status b) 0" "isDirty b \<longleftrightarrow> bit (cb_status b) 3" "blk_isSecure b \<longleftrightarrow> bit (cb_status b) 6"
  "wasPrefetched b \<longleftrightarrow> bit (cb_status b) 5"
  "isWritable b \<longleftrightarrow> bit (cb_status b) 1 \<and> bit (cb_status b) 0" "isReadable b \<longleftrightarrow> bit (cb_status b) 2 \<and> bit (cb_status b) 0"
  unfolding isValid_def isDirty_def blk_isSecure_def wasPrefetched_def isWritable_def isReadable_def Let_def blk_bits_exp
  by (simp_all only: and_exp_eq_0_iff_not_bit and_two_bits) simp_all

end
