(* ===== verification/Repl_Policy.thy ===== *)
theory Repl_Policy
  imports Alpine_Prelude
begin

text \<open>
  The replacement policies of \<^verbatim>\<open>mem/cache/replacement_policies\<close>. An entry is a number, the replacement data of the
  entries is a function from entries to data (the object behind the \<^verbatim>\<open>shared_ptr\<close> of each entry), a candidate
  list is the vector of entries. The current tick and the draw of the random generator are arguments of the operations
  that read them. The virtual methods of \<^verbatim>\<open>BaseReplacementPolicy\<close> are the fields of a record, which the
  cache tags call.
\<close>

section \<open>The policies\<close>

type_synonym 'd repl_store = "nat \<Rightarrow> 'd"

record 'd BaseReplacementPolicy =
  rp_invalidate :: "'d \<Rightarrow> 'd"
  rp_touch :: "Tick \<Rightarrow> 'd \<Rightarrow> 'd"
  rp_reset :: "Tick \<Rightarrow> u32 \<Rightarrow> 'd \<Rightarrow> 'd"
  rp_getVictim :: "Tick \<Rightarrow> u32 \<Rightarrow> nat list \<Rightarrow> 'd repl_store \<Rightarrow> (nat \<times> 'd repl_store) result"
  rp_instantiateEntry :: 'd

text \<open>
  The loop of several policies: it starts with the first candidate and keeps the last one whose key is below that of
  the victim so far.
\<close>

definition scan_least :: "('a \<Rightarrow> 'b::linorder) \<Rightarrow> 'a list \<Rightarrow> 'a" where
  "scan_least key candidates =
     foldl (\<lambda>victim candidate. if key candidate < key victim then candidate else victim) (candidates ! 0) candidates"

subsection \<open>Least recently used\<close>

record LRUReplData =
  lru_lastTouchTick :: Tick

definition LRURP_invalidate :: "LRUReplData \<Rightarrow> LRUReplData" where
  "LRURP_invalidate d = d\<lparr>lru_lastTouchTick := 0\<rparr>"

definition LRURP_touch :: "Tick \<Rightarrow> LRUReplData \<Rightarrow> LRUReplData" where
  "LRURP_touch curTick d = d\<lparr>lru_lastTouchTick := curTick\<rparr>"

definition LRURP_reset :: "Tick \<Rightarrow> LRUReplData \<Rightarrow> LRUReplData" where
  "LRURP_reset curTick d = d\<lparr>lru_lastTouchTick := curTick\<rparr>"

definition LRURP_getVictim :: "nat list \<Rightarrow> LRUReplData repl_store \<Rightarrow> nat result" where
  "LRURP_getVictim candidates h =
     bindR (assertR (candidates \<noteq> []) AssertFail) (\<lambda>_.
       Ok (scan_least (\<lambda>candidate. lru_lastTouchTick (h candidate)) candidates))"

definition LRURP_instantiateEntry :: LRUReplData where
  "LRURP_instantiateEntry = \<lparr>lru_lastTouchTick = 0\<rparr>"

definition LRURP :: "LRUReplData BaseReplacementPolicy" where
  "LRURP = \<lparr>rp_invalidate = LRURP_invalidate, rp_touch = LRURP_touch, rp_reset = (\<lambda>t _. LRURP_reset t),
     rp_getVictim = (\<lambda>_ _ cs h. bindR (LRURP_getVictim cs h) (\<lambda>v. Ok (v, h))),
     rp_instantiateEntry = LRURP_instantiateEntry\<rparr>"

subsection \<open>Bimodal insertion\<close>

text \<open>The draw is from 1 to 100; the rest of the policy is inherited from \<^verbatim>\<open>LRURP\<close>.\<close>

definition BIPRP_reset :: "u32 \<Rightarrow> Tick \<Rightarrow> u32 \<Rightarrow> LRUReplData \<Rightarrow> LRUReplData" where
  "BIPRP_reset btp curTick draw d =
     (if draw \<le> btp then d\<lparr>lru_lastTouchTick := curTick\<rparr> else d\<lparr>lru_lastTouchTick := 1\<rparr>)"

definition BIPRP :: "u32 \<Rightarrow> LRUReplData BaseReplacementPolicy" where
  "BIPRP btp = LRURP\<lparr>rp_reset := BIPRP_reset btp\<rparr>"

subsection \<open>Most recently used\<close>

record MRUReplData =
  mru_lastTouchTick :: Tick

definition MRURP_invalidate :: "MRUReplData \<Rightarrow> MRUReplData" where
  "MRURP_invalidate d = d\<lparr>mru_lastTouchTick := 0\<rparr>"

definition MRURP_touch :: "Tick \<Rightarrow> MRUReplData \<Rightarrow> MRUReplData" where
  "MRURP_touch curTick d = d\<lparr>mru_lastTouchTick := curTick\<rparr>"

definition MRURP_reset :: "Tick \<Rightarrow> MRUReplData \<Rightarrow> MRUReplData" where
  "MRURP_reset curTick d = d\<lparr>mru_lastTouchTick := curTick\<rparr>"

definition MRURP_getVictim :: "nat list \<Rightarrow> MRUReplData repl_store \<Rightarrow> nat result" where
  "MRURP_getVictim candidates h =
     bindR (assertR (candidates \<noteq> []) AssertFail) (\<lambda>_.
       Ok (foldl (\<lambda>victim candidate.
             if mru_lastTouchTick (h candidate) > mru_lastTouchTick (h victim) then candidate else victim)
           (candidates ! 0) candidates))"

definition MRURP_instantiateEntry :: MRUReplData where
  "MRURP_instantiateEntry = \<lparr>mru_lastTouchTick = 0\<rparr>"

definition MRURP :: "MRUReplData BaseReplacementPolicy" where
  "MRURP = \<lparr>rp_invalidate = MRURP_invalidate, rp_touch = MRURP_touch, rp_reset = (\<lambda>t _. MRURP_reset t),
     rp_getVictim = (\<lambda>_ _ cs h. bindR (MRURP_getVictim cs h) (\<lambda>v. Ok (v, h))),
     rp_instantiateEntry = MRURP_instantiateEntry\<rparr>"

subsection \<open>Least frequently used\<close>

record LFUReplData =
  lfu_refCount :: u32

definition LFURP_invalidate :: "LFUReplData \<Rightarrow> LFUReplData" where
  "LFURP_invalidate d = d\<lparr>lfu_refCount := 0\<rparr>"

definition LFURP_touch :: "LFUReplData \<Rightarrow> LFUReplData" where
  "LFURP_touch d = d\<lparr>lfu_refCount := lfu_refCount d + 1\<rparr>"

definition LFURP_reset :: "LFUReplData \<Rightarrow> LFUReplData" where
  "LFURP_reset d = d\<lparr>lfu_refCount := 1\<rparr>"

definition LFURP_getVictim :: "nat list \<Rightarrow> LFUReplData repl_store \<Rightarrow> nat result" where
  "LFURP_getVictim candidates h =
     bindR (assertR (candidates \<noteq> []) AssertFail) (\<lambda>_.
       Ok (scan_least (\<lambda>candidate. lfu_refCount (h candidate)) candidates))"

definition LFURP_instantiateEntry :: LFUReplData where
  "LFURP_instantiateEntry = \<lparr>lfu_refCount = 0\<rparr>"

definition LFURP :: "LFUReplData BaseReplacementPolicy" where
  "LFURP = \<lparr>rp_invalidate = LFURP_invalidate, rp_touch = (\<lambda>_. LFURP_touch), rp_reset = (\<lambda>_ _. LFURP_reset),
     rp_getVictim = (\<lambda>_ _ cs h. bindR (LFURP_getVictim cs h) (\<lambda>v. Ok (v, h))),
     rp_instantiateEntry = LFURP_instantiateEntry\<rparr>"

subsection \<open>Random\<close>

record RandomReplData =
  rnd_valid :: bool

definition RandomRP_invalidate :: "RandomReplData \<Rightarrow> RandomReplData" where
  "RandomRP_invalidate d = d\<lparr>rnd_valid := False\<rparr>"

definition RandomRP_touch :: "RandomReplData \<Rightarrow> RandomReplData" where
  "RandomRP_touch d = d"

definition RandomRP_reset :: "RandomReplData \<Rightarrow> RandomReplData" where
  "RandomRP_reset d = d\<lparr>rnd_valid := True\<rparr>"

text \<open>The draw is from 0 to the number of candidates less 1.\<close>

definition RandomRP_getVictim :: "u32 \<Rightarrow> nat list \<Rightarrow> RandomReplData repl_store \<Rightarrow> nat result" where
  "RandomRP_getVictim draw candidates h =
     bindR (assertR (candidates \<noteq> []) AssertFail) (\<lambda>_.
     bindR (arr_get candidates (int (unat draw))) (\<lambda>victim.
       case dropWhile (\<lambda>c. rnd_valid (h c)) candidates of [] \<Rightarrow> Ok victim | candidate # _ \<Rightarrow> Ok candidate))"

definition RandomRP_instantiateEntry :: RandomReplData where
  "RandomRP_instantiateEntry = \<lparr>rnd_valid = False\<rparr>"

definition RandomRP :: "RandomReplData BaseReplacementPolicy" where
  "RandomRP = \<lparr>rp_invalidate = RandomRP_invalidate, rp_touch = (\<lambda>_. RandomRP_touch), rp_reset = (\<lambda>_ _. RandomRP_reset),
     rp_getVictim = (\<lambda>_ draw cs h. bindR (RandomRP_getVictim draw cs h) (\<lambda>v. Ok (v, h))),
     rp_instantiateEntry = RandomRP_instantiateEntry\<rparr>"

subsection \<open>Re-reference interval prediction\<close>

text \<open>The code's values are of type \<^verbatim>\<open>int\<close>; they stay between 0 and \<open>maxRRPV + 1\<close>, so that only the greatest \<^verbatim>\<open>int\<close> as parameter would overflow.\<close>

record BRRIPReplData =
  brrip_rrpv :: int

record BRRIPRP_params =
  maxRRPV :: int
  hitPriority :: bool
  brrip_btp :: u32

definition new_BRRIPRP :: "BRRIPRP_params \<Rightarrow> BRRIPRP_params result" where
  "new_BRRIPRP p = (if maxRRPV p \<le> 0 then Error Fatal else Ok p)"

definition BRRIPRP_invalidate :: "BRRIPRP_params \<Rightarrow> BRRIPReplData \<Rightarrow> BRRIPReplData" where
  "BRRIPRP_invalidate p d = d\<lparr>brrip_rrpv := maxRRPV p + 1\<rparr>"

definition BRRIPRP_touch :: "BRRIPRP_params \<Rightarrow> BRRIPReplData \<Rightarrow> BRRIPReplData" where
  "BRRIPRP_touch p d =
     (if hitPriority p then d\<lparr>brrip_rrpv := 0\<rparr>
      else if brrip_rrpv d > 0 then d\<lparr>brrip_rrpv := brrip_rrpv d - 1\<rparr> else d)"

definition BRRIPRP_reset :: "BRRIPRP_params \<Rightarrow> u32 \<Rightarrow> BRRIPReplData \<Rightarrow> BRRIPReplData" where
  "BRRIPRP_reset p draw d =
     (if draw \<le> brrip_btp p then d\<lparr>brrip_rrpv := maxRRPV p - 1\<rparr> else d\<lparr>brrip_rrpv := maxRRPV p\<rparr>)"

text \<open>The scan of the candidates; an invalid one ends it at once (\<open>Inl\<close>).\<close>

fun BRRIPRP_scan :: "int \<Rightarrow> BRRIPReplData repl_store \<Rightarrow> nat list \<Rightarrow> nat \<Rightarrow> int \<Rightarrow> nat + nat \<times> int" where
  "BRRIPRP_scan mx h [] victim victim_RRPV = Inr (victim, victim_RRPV)"
| "BRRIPRP_scan mx h (candidate # cs) victim victim_RRPV =
     (let candidate_RRPV = brrip_rrpv (h candidate) in
      if candidate_RRPV = mx + 1 then Inl candidate
      else if candidate_RRPV > victim_RRPV then BRRIPRP_scan mx h cs candidate candidate_RRPV
      else BRRIPRP_scan mx h cs victim victim_RRPV)"

definition age_entry :: "int \<Rightarrow> BRRIPReplData \<Rightarrow> BRRIPReplData" where
  "age_entry diff d = d\<lparr>brrip_rrpv := brrip_rrpv d + diff\<rparr>"

definition BRRIPRP_getVictim ::
  "BRRIPRP_params \<Rightarrow> nat list \<Rightarrow> BRRIPReplData repl_store \<Rightarrow> (nat \<times> BRRIPReplData repl_store) result" where
  "BRRIPRP_getVictim p candidates h =
     bindR (assertR (candidates \<noteq> []) AssertFail) (\<lambda>_.
       let victim = candidates ! 0 in
       case BRRIPRP_scan (maxRRPV p) h candidates victim (brrip_rrpv (h victim)) of
         Inl candidate \<Rightarrow> Ok (candidate, h)
       | Inr (victim, victim_RRPV) \<Rightarrow>
           let diff = maxRRPV p - victim_RRPV in
           Ok (victim, if diff > 0 then fold (\<lambda>c h. h(c := age_entry diff (h c))) candidates h else h))"

definition BRRIPRP_instantiateEntry :: "BRRIPRP_params \<Rightarrow> BRRIPReplData" where
  "BRRIPRP_instantiateEntry p = \<lparr>brrip_rrpv = maxRRPV p + 1\<rparr>"

definition BRRIPRP :: "BRRIPRP_params \<Rightarrow> BRRIPReplData BaseReplacementPolicy" where
  "BRRIPRP p = \<lparr>rp_invalidate = BRRIPRP_invalidate p, rp_touch = (\<lambda>_. BRRIPRP_touch p),
     rp_reset = (\<lambda>_. BRRIPRP_reset p), rp_getVictim = (\<lambda>_ _. BRRIPRP_getVictim p),
     rp_instantiateEntry = BRRIPRP_instantiateEntry p\<rparr>"

subsection \<open>First in, first out\<close>

text \<open>The operations are on any extension of the record, since the second chance policy inherits them.\<close>

record FIFOReplData =
  fifo_tickInserted :: Tick

definition FIFORP_invalidate :: "'a FIFOReplData_scheme \<Rightarrow> 'a FIFOReplData_scheme" where
  "FIFORP_invalidate d = d\<lparr>fifo_tickInserted := 0\<rparr>"

definition FIFORP_touch :: "'a FIFOReplData_scheme \<Rightarrow> 'a FIFOReplData_scheme" where
  "FIFORP_touch d = d"

definition FIFORP_reset :: "Tick \<Rightarrow> 'a FIFOReplData_scheme \<Rightarrow> 'a FIFOReplData_scheme" where
  "FIFORP_reset curTick d = d\<lparr>fifo_tickInserted := curTick\<rparr>"

definition FIFORP_getVictim :: "nat list \<Rightarrow> 'a FIFOReplData_scheme repl_store \<Rightarrow> nat result" where
  "FIFORP_getVictim candidates h =
     bindR (assertR (candidates \<noteq> []) AssertFail) (\<lambda>_.
       Ok (scan_least (\<lambda>candidate. fifo_tickInserted (h candidate)) candidates))"

definition FIFORP_instantiateEntry :: FIFOReplData where
  "FIFORP_instantiateEntry = \<lparr>fifo_tickInserted = 0\<rparr>"

definition FIFORP :: "FIFOReplData BaseReplacementPolicy" where
  "FIFORP = \<lparr>rp_invalidate = FIFORP_invalidate, rp_touch = (\<lambda>_. FIFORP_touch), rp_reset = (\<lambda>t _. FIFORP_reset t),
     rp_getVictim = (\<lambda>_ _ cs h. bindR (FIFORP_getVictim cs h) (\<lambda>v. Ok (v, h))),
     rp_instantiateEntry = FIFORP_instantiateEntry\<rparr>"

subsection \<open>Second chance\<close>

record SecondChanceReplData = FIFOReplData +
  sc_hasSecondChance :: bool

definition useSecondChance :: "Tick \<Rightarrow> SecondChanceReplData \<Rightarrow> SecondChanceReplData" where
  "useSecondChance curTick d = (FIFORP_reset curTick d)\<lparr>sc_hasSecondChance := False\<rparr>"

definition SecondChanceRP_invalidate :: "SecondChanceReplData \<Rightarrow> SecondChanceReplData" where
  "SecondChanceRP_invalidate d = (FIFORP_invalidate d)\<lparr>sc_hasSecondChance := False\<rparr>"

definition SecondChanceRP_touch :: "SecondChanceReplData \<Rightarrow> SecondChanceReplData" where
  "SecondChanceRP_touch d = (FIFORP_touch d)\<lparr>sc_hasSecondChance := True\<rparr>"

definition SecondChanceRP_reset :: "Tick \<Rightarrow> SecondChanceReplData \<Rightarrow> SecondChanceReplData" where
  "SecondChanceRP_reset curTick d = (FIFORP_reset curTick d)\<lparr>sc_hasSecondChance := True\<rparr>"

text \<open>A fold that replaces the victim by a better candidate ends at the first minimum.\<close>

lemma foldl_min_split:
  fixes f :: "'a \<Rightarrow> 'b::linorder"
  shows "\<exists>pre post. x # xs = pre @ foldl (\<lambda>v c. if f c < f v then c else v) x xs # post \<and>
    (\<forall>c\<in>set pre. f (foldl (\<lambda>v c. if f c < f v then c else v) x xs) < f c) \<and>
    (\<forall>c\<in>set post. f (foldl (\<lambda>v c. if f c < f v then c else v) x xs) \<le> f c)"
proof (induction xs rule: rev_induct)
  case Nil
  show ?case by (rule exI [of _ "[]"]) simp
next
  case (snoc y ys)
  define v where "v = foldl (\<lambda>v c. if f c < f v then c else v) x ys"
  from snoc obtain pre post where s: "x # ys = pre @ v # post" "\<forall>c\<in>set pre. f v < f c" "\<forall>c\<in>set post. f v \<le> f c"
    unfolding v_def by blast
  show ?case
  proof (cases "f y < f v")
    case True
    have "\<forall>c\<in>set (x # ys). f y < f c" using s True by (auto intro: less_trans less_le_trans)
    then show ?thesis using True by (intro exI [of _ "x # ys"] exI [of _ "[]"]) (simp add: v_def)
  next
    case False
    have e: "foldl (\<lambda>v c. if f c < f v then c else v) x (ys @ [y]) = v" using False by (simp add: v_def)
    have "x # ys @ [y] = pre @ v # post @ [y]" using s(1) by simp
    then show ?thesis
      unfolding e using s(2,3) False by (intro exI [of _ pre] exI [of _ "post @ [y]"]) (auto simp: not_less)
  qed
qed

lemma scan_least_split:
  assumes "cs \<noteq> []"
  obtains pre post where "cs = pre @ scan_least f cs # post" "\<forall>c\<in>set pre. f (scan_least f cs) < f c"
    "\<forall>c\<in>set post. f (scan_least f cs) \<le> f c"
proof -
  from assms obtain c ds where cs: "cs = c # ds" by (cases cs) auto
  have e: "scan_least f cs = foldl (\<lambda>v c. if f c < f v then c else v) c ds" by (simp add: scan_least_def cs)
  show thesis using foldl_min_split [of c ds f, folded e] that unfolding cs by blast
qed

lemma scan_least_in: "cs \<noteq> [] \<Longrightarrow> scan_least f cs \<in> set cs"
  by (metis scan_least_split in_set_conv_decomp)

lemma FIFORP_getVictim_in: "FIFORP_getVictim cs h = Ok v \<Longrightarrow> v \<in> set cs"
  by (auto simp: scan_least_in FIFORP_getVictim_def bindR_assertR split: if_splits)

text \<open>
  The loop \<^verbatim>\<open>while (search_victim)\<close>: each round either ends it or takes a second chance from a candidate that had one.
\<close>

function SecondChanceRP_search ::
  "Tick \<Rightarrow> nat list \<Rightarrow> SecondChanceReplData repl_store \<Rightarrow> (nat \<times> SecondChanceReplData repl_store) result" where
  "SecondChanceRP_search curTick candidates h =
     (case FIFORP_getVictim candidates h of Error e \<Rightarrow> Error e
      | Ok victim \<Rightarrow>
          if sc_hasSecondChance (h victim)
          then SecondChanceRP_search curTick candidates (h(victim := useSecondChance curTick (h victim)))
          else Ok (victim, h))"
  by pat_completeness auto

termination
proof (relation "measure (\<lambda>(t, cs, h). card {c \<in> set cs. sc_hasSecondChance (h c)})", goal_cases)
  case 1
  show ?case by simp
next
  case (2 t cs h v)
  define A where "A = {c \<in> set cs. sc_hasSecondChance (h c)}"
  have "v \<in> A" using FIFORP_getVictim_in [OF 2(1)] 2(2) by (simp add: A_def)
  moreover have "finite A" by (simp add: A_def)
  moreover have "{c \<in> set cs. sc_hasSecondChance ((h(v := useSecondChance t (h v))) c)} = A - {v}"
    by (auto simp: useSecondChance_def A_def)
  ultimately show ?case using card_Diff1_less [of A v] by (simp add: A_def [symmetric] del: fun_upd_apply)
qed

declare SecondChanceRP_search.simps [simp del]

definition sc_invalid :: "SecondChanceReplData \<Rightarrow> bool" where
  "sc_invalid d \<longleftrightarrow> fifo_tickInserted d = 0 \<and> \<not> sc_hasSecondChance d"

definition SecondChanceRP_getVictim ::
  "Tick \<Rightarrow> nat list \<Rightarrow> SecondChanceReplData repl_store \<Rightarrow> (nat \<times> SecondChanceReplData repl_store) result" where
  "SecondChanceRP_getVictim curTick candidates h =
     bindR (assertR (candidates \<noteq> []) AssertFail) (\<lambda>_.
       case dropWhile (\<lambda>c. \<not> sc_invalid (h c)) candidates of
         candidate # _ \<Rightarrow> Ok (candidate, h)
       | [] \<Rightarrow> SecondChanceRP_search curTick candidates h)"

definition SecondChanceRP_instantiateEntry :: SecondChanceReplData where
  "SecondChanceRP_instantiateEntry = \<lparr>fifo_tickInserted = 0, sc_hasSecondChance = False\<rparr>"

definition SecondChanceRP :: "SecondChanceReplData BaseReplacementPolicy" where
  "SecondChanceRP = \<lparr>rp_invalidate = SecondChanceRP_invalidate, rp_touch = (\<lambda>_. SecondChanceRP_touch),
     rp_reset = (\<lambda>t _. SecondChanceRP_reset t), rp_getVictim = (\<lambda>t _. SecondChanceRP_getVictim t),
     rp_instantiateEntry = SecondChanceRP_instantiateEntry\<rparr>"

section \<open>The contract of a policy\<close>

text \<open>
  What the cache tags rely on: a victim is always found and is one of the candidates, other entries keep their data, and the
  operations keep the data well-formed (\<open>ok\<close>). The draw of the random generator is an index of the candidates.
\<close>

locale replacement_policy =
  fixes rp :: "'d BaseReplacementPolicy"
    and ok :: "'d \<Rightarrow> bool"
  assumes instantiate_ok: "ok (rp_instantiateEntry rp)"
    and invalidate_ok: "ok d \<Longrightarrow> ok (rp_invalidate rp d)"
    and touch_ok: "ok d \<Longrightarrow> ok (rp_touch rp t d)"
    and reset_ok: "ok d \<Longrightarrow> ok (rp_reset rp t draw d)"
    and victim_total: "unat draw < length cs \<Longrightarrow> \<exists>v h'. rp_getVictim rp t draw cs h = Ok (v, h')"
    and victim_in: "rp_getVictim rp t draw cs h = Ok (v, h') \<Longrightarrow> v \<in> set cs"
    and victim_frame: "rp_getVictim rp t draw cs h = Ok (v, h') \<Longrightarrow> e \<notin> set cs \<Longrightarrow> h' e = h e"
    and victim_ok: "rp_getVictim rp t draw cs h = Ok (v, h') \<Longrightarrow> distinct cs \<Longrightarrow> \<forall>c\<in>set cs. ok (h c) \<Longrightarrow>
      c \<in> set cs \<Longrightarrow> ok (h' c)"

text \<open>An invalidated entry is vacant, and a vacant candidate is evicted before any other.\<close>

locale vacating_policy = replacement_policy +
  fixes vacant :: "'d \<Rightarrow> bool"
  assumes instantiate_vacant: "vacant (rp_instantiateEntry rp)"
    and invalidate_vacant: "ok d \<Longrightarrow> vacant (rp_invalidate rp d)"
    and victim_vacant: "rp_getVictim rp t draw cs h = Ok (v, h') \<Longrightarrow> \<forall>c\<in>set cs. ok (h c) \<Longrightarrow>
      c \<in> set cs \<Longrightarrow> vacant (h c) \<Longrightarrow> vacant (h v)"
    and victim_keeps_vacant: "rp_getVictim rp t draw cs h = Ok (v, h') \<Longrightarrow> \<forall>c\<in>set cs. ok (h c) \<Longrightarrow>
      c \<in> set cs \<Longrightarrow> vacant (h c) \<Longrightarrow> vacant (h' c)"

text \<open>An entry in use is not vacant, as long as time has passed since the start of the simulation.\<close>

locale occupying_policy = vacating_policy +
  assumes reset_occupies: "ok d \<Longrightarrow> t \<noteq> 0 \<Longrightarrow> \<not> vacant (rp_reset rp t draw d)"
    and touch_occupies: "ok d \<Longrightarrow> t \<noteq> 0 \<Longrightarrow> \<not> vacant d \<Longrightarrow> \<not> vacant (rp_touch rp t d)"
    and victim_occupies: "rp_getVictim rp t draw cs h = Ok (v, h') \<Longrightarrow> t \<noteq> 0 \<Longrightarrow> distinct cs \<Longrightarrow>
      \<forall>c\<in>set cs. ok (h c) \<Longrightarrow> c \<in> set cs \<Longrightarrow> \<not> vacant (h c) \<Longrightarrow> \<not> vacant (h' c)"

section \<open>The scans\<close>

lemma scan_least_le: "c \<in> set cs \<Longrightarrow> f (scan_least f cs) \<le> f c"
proof -
  assume c: "c \<in> set cs"
  define v where "v = scan_least f cs"
  obtain pre post where s: "cs = pre @ v # post" "\<forall>c\<in>set pre. f v < f c" "\<forall>c\<in>set post. f v \<le> f c"
    using scan_least_split [of cs f thesis] c unfolding v_def by fastforce
  from c have "c \<in> set (pre @ v # post)" unfolding s(1) .
  then show "f (scan_least f cs) \<le> f c" using s(2,3) by (auto simp: v_def)
qed

text \<open>The scan returns the first candidate whose key is the least one.\<close>

lemma scan_least_first:
  assumes "filter (\<lambda>c. f c = m) cs = x # xs" "\<forall>c\<in>set cs. m \<le> f c"
  shows "scan_least f cs = x"
proof -
  define v where "v = scan_least f cs"
  have cs: "cs \<noteq> []" using assms(1) by auto
  obtain pre post where s: "cs = pre @ v # post" "\<forall>c\<in>set pre. f v < f c" "\<forall>c\<in>set post. f v \<le> f c"
    using scan_least_split [OF cs, of f thesis] unfolding v_def by blast
  have "x \<in> set (filter (\<lambda>c. f c = m) cs)" using assms(1) by simp
  then have x: "x \<in> set cs" "f x = m" by simp_all
  have "v \<in> set cs" using scan_least_in [OF cs] by (simp add: v_def)
  then have fv: "f v = m" using x scan_least_le [OF x(1), of f] assms(2) by (simp add: v_def antisym)
  have "filter (\<lambda>c. f c = m) pre = []" using s(2) fv by (auto simp: filter_empty_conv)
  then have "filter (\<lambda>c. f c = m) cs = v # filter (\<lambda>c. f c = m) post" using fv by (simp add: s(1))
  then show ?thesis using assms(1) by (simp add: v_def)
qed

lemma scan_least_zero:
  fixes g :: "'d \<Rightarrow> 'w::len word"
  shows "c \<in> set cs \<Longrightarrow> g (h c) = 0 \<Longrightarrow> g (h (scan_least (\<lambda>c. g (h c)) cs)) = 0"
  using scan_least_le [of c cs "\<lambda>c. g (h c)"] by simp

section \<open>The policies meet the contract\<close>

lemma length_draw: "unat draw < length cs \<Longrightarrow> cs \<noteq> []"
  by auto

lemmas lru_defs = LRURP_def LRURP_invalidate_def LRURP_touch_def LRURP_reset_def LRURP_getVictim_def
  LRURP_instantiateEntry_def bindR_assertR
lemmas lfu_defs = LFURP_def LFURP_invalidate_def LFURP_touch_def LFURP_reset_def LFURP_getVictim_def
  LFURP_instantiateEntry_def bindR_assertR
lemmas mru_defs = MRURP_def MRURP_invalidate_def MRURP_touch_def MRURP_reset_def MRURP_getVictim_def
  MRURP_instantiateEntry_def bindR_assertR
lemmas fifo_defs = FIFORP_def FIFORP_invalidate_def FIFORP_touch_def FIFORP_reset_def FIFORP_getVictim_def
  FIFORP_instantiateEntry_def bindR_assertR
lemmas random_defs = RandomRP_def RandomRP_invalidate_def RandomRP_touch_def RandomRP_reset_def RandomRP_getVictim_def
  RandomRP_instantiateEntry_def bindR_assertR

interpretation lru: occupying_policy LRURP "\<lambda>_. True" "\<lambda>d. lru_lastTouchTick d = 0"
  by unfold_locales (auto simp: lru_defs scan_least_in scan_least_zero dest: length_draw split: if_splits)

interpretation bip: occupying_policy "BIPRP btp" "\<lambda>_. True" "\<lambda>d. lru_lastTouchTick d = 0" for btp
  by unfold_locales (auto simp: BIPRP_def BIPRP_reset_def lru_defs scan_least_in scan_least_zero dest: length_draw split: if_splits)

interpretation fifo: occupying_policy FIFORP "\<lambda>_. True" "\<lambda>d. fifo_tickInserted d = 0"
  by unfold_locales (auto simp: fifo_defs scan_least_in scan_least_zero dest: length_draw split: if_splits)

interpretation lfu: vacating_policy LFURP "\<lambda>_. True" "\<lambda>d. lfu_refCount d = 0"
  by unfold_locales (auto simp: lfu_defs scan_least_in scan_least_zero dest: length_draw split: if_splits)

lemma MRURP_scan: "foldl (\<lambda>victim candidate.
    if mru_lastTouchTick (h candidate) > mru_lastTouchTick (h victim) then candidate else victim) (cs ! 0) cs =
  scan_least (\<lambda>c. - uint (mru_lastTouchTick (h c))) cs"
  by (simp add: scan_least_def word_less_def)

interpretation mru: replacement_policy MRURP "\<lambda>_. True"
  by unfold_locales (auto simp: mru_defs MRURP_scan scan_least_in dest: length_draw split: if_splits)

lemma dropWhile_hd: "dropWhile P xs = y # ys \<Longrightarrow> y \<in> set xs \<and> \<not> P y"
  by (metis dropWhile_eq_Cons_conv set_dropWhileD list.set_intros(1))

lemma RandomRP_getVictim_iff:
  "RandomRP_getVictim draw cs h = Ok v \<longleftrightarrow> unat draw < length cs \<and>
     v = (case dropWhile (\<lambda>c. rnd_valid (h c)) cs of [] \<Rightarrow> cs ! unat draw | c # _ \<Rightarrow> c)"
proof -
  have "arr_get cs (int (unat draw)) = (if unat draw < length cs then Ok (cs ! unat draw) else Error OutOfBounds)"
    by (simp add: arr_get_def del: of_nat_unat)
  then show ?thesis by (auto simp: RandomRP_getVictim_def bindR_assertR simp del: dropWhile_eq_Nil_conv split: list.splits)
qed

interpretation random: occupying_policy RandomRP "\<lambda>_. True" "\<lambda>d. \<not> rnd_valid d"
  by unfold_locales (auto simp: RandomRP_def bindR_Ok_iff RandomRP_getVictim_iff RandomRP_invalidate_def RandomRP_touch_def
      RandomRP_reset_def RandomRP_instantiateEntry_def dropWhile_eq_Nil_conv dest: dropWhile_hd split: list.splits)

lemmas second_chance_defs = SecondChanceRP_def SecondChanceRP_invalidate_def SecondChanceRP_touch_def
  SecondChanceRP_reset_def SecondChanceRP_instantiateEntry_def useSecondChance_def FIFORP_reset_def FIFORP_touch_def
  FIFORP_invalidate_def sc_invalid_def

text \<open>What a search for a victim with a second chance does: only second chances of candidates are taken.\<close>

lemma SecondChanceRP_search_total:
  "cs \<noteq> [] \<Longrightarrow> \<exists>v h'. SecondChanceRP_search t cs h = Ok (v, h')"
proof (induction t cs h rule: SecondChanceRP_search.induct)
  case (1 t cs h)
  show ?case
  proof (cases "FIFORP_getVictim cs h")
    case (Error e)
    then show ?thesis using 1(2) by (simp add: FIFORP_getVictim_def)
  next
    case (Ok v)
    with 1 show ?thesis by (simp add: SecondChanceRP_search.simps [of t cs h] del: fun_upd_apply)
  qed
qed

lemma SecondChanceRP_search_spec:
  "SecondChanceRP_search t cs h = Ok (v, h') \<Longrightarrow> v \<in> set cs \<and> \<not> sc_hasSecondChance (h' v) \<and>
     (\<forall>e. h' e = h e \<or> e \<in> set cs \<and> sc_hasSecondChance (h e) \<and> h' e = useSecondChance t (h e))"
proof (induction t cs h rule: SecondChanceRP_search.induct)
  case (1 t cs h)
  from 1(2) obtain w where w: "FIFORP_getVictim cs h = Ok w"
    by (cases "FIFORP_getVictim cs h") (simp_all add: SecondChanceRP_search.simps)
  show ?case
  proof (cases "sc_hasSecondChance (h w)")
    case True
    with 1(2) w have r: "SecondChanceRP_search t cs (h(w := useSecondChance t (h w))) = Ok (v, h')"
      by (simp add: SecondChanceRP_search.simps [of t cs h])
    have nw: "\<not> sc_hasSecondChance (useSecondChance t (h w))" by (simp add: useSecondChance_def)
    from 1(1) [OF w True r] show ?thesis using FIFORP_getVictim_in [OF w] True nw by (auto split: if_splits)
  next
    case False
    with 1(2) w show ?thesis using FIFORP_getVictim_in [OF w] by (simp add: SecondChanceRP_search.simps [of t cs h])
  qed
qed

lemma SecondChanceRP_getVictim_cases:
  assumes "SecondChanceRP_getVictim t cs h = Ok (v, h')"
  obtains (invalid) "v \<in> set cs" "sc_invalid (h v)" "h' = h"
  | (search) "\<forall>c\<in>set cs. \<not> sc_invalid (h c)" "SecondChanceRP_search t cs h = Ok (v, h')"
proof (cases "dropWhile (\<lambda>c. \<not> sc_invalid (h c)) cs")
  case Nil
  then have "\<forall>c\<in>set cs. \<not> sc_invalid (h c)" by (simp add: dropWhile_eq_Nil_conv)
  moreover have "SecondChanceRP_search t cs h = Ok (v, h')"
    using assms unfolding SecondChanceRP_getVictim_def bindR_assertR Nil by (simp split: if_splits)
  ultimately show thesis by (rule search)
next
  case (Cons c ds)
  then have "c = v" "h' = h" using assms unfolding SecondChanceRP_getVictim_def bindR_assertR Cons by (simp_all split: if_splits)
  then show thesis using invalid dropWhile_hd [OF Cons] by simp
qed

interpretation second_chance: occupying_policy SecondChanceRP "\<lambda>_. True" sc_invalid
proof (unfold_locales, goal_cases)
  case (5 draw cs t h)
  then show ?case using SecondChanceRP_search_total [of cs t h] length_draw [of draw cs]
    by (auto simp: SecondChanceRP_def SecondChanceRP_getVictim_def split: list.splits)
next
  case (6 t draw cs h v h')
  then have "SecondChanceRP_getVictim t cs h = Ok (v, h')" by (simp add: SecondChanceRP_def)
  then show ?case by (cases rule: SecondChanceRP_getVictim_cases) (auto dest: SecondChanceRP_search_spec)
next
  case (7 t draw cs h v h' e)
  then have "SecondChanceRP_getVictim t cs h = Ok (v, h')" by (simp add: SecondChanceRP_def)
  then show ?case using 7(2) by (cases rule: SecondChanceRP_getVictim_cases) (auto dest: SecondChanceRP_search_spec)
next
  case (11 t draw cs h v h' c)
  then have "SecondChanceRP_getVictim t cs h = Ok (v, h')" by (simp add: SecondChanceRP_def)
  then show ?case using 11(3,4) by (cases rule: SecondChanceRP_getVictim_cases) auto
next
  case (12 t draw cs h v h' c)
  then have "SecondChanceRP_getVictim t cs h = Ok (v, h')" by (simp add: SecondChanceRP_def)
  then show ?case using 12(3,4) by (cases rule: SecondChanceRP_getVictim_cases) auto
next
  case (15 t draw cs h v h' c)
  then have "SecondChanceRP_getVictim t cs h = Ok (v, h')" by (simp add: SecondChanceRP_def)
  then show ?case
  proof (cases rule: SecondChanceRP_getVictim_cases)
    case search
    from SecondChanceRP_search_spec [OF search(2)] have "h' c = h c \<or> h' c = useSecondChance t (h c)" by blast
    then show ?thesis using 15(2,6) by (auto simp: second_chance_defs)
  qed (use 15 in auto)
qed (auto simp: second_chance_defs)

definition rrpv_ok :: "BRRIPRP_params \<Rightarrow> BRRIPReplData \<Rightarrow> bool" where
  "rrpv_ok p d \<longleftrightarrow> 0 \<le> brrip_rrpv d \<and> brrip_rrpv d \<le> maxRRPV p + 1"

definition rrpv_invalid :: "BRRIPRP_params \<Rightarrow> BRRIPReplData \<Rightarrow> bool" where
  "rrpv_invalid p d \<longleftrightarrow> brrip_rrpv d = maxRRPV p + 1"

lemma BRRIPRP_scan_invalid:
  "filter (\<lambda>c. brrip_rrpv (h c) = mx + 1) cs = x # xs \<Longrightarrow> BRRIPRP_scan mx h cs v r = Inl x"
  by (induction cs arbitrary: v r) (auto simp: Let_def split: if_splits)

lemma BRRIPRP_scan_valid:
  "\<forall>c\<in>set cs. brrip_rrpv (h c) \<noteq> mx + 1 \<Longrightarrow> r = brrip_rrpv (h v) \<Longrightarrow>
   BRRIPRP_scan mx h cs v r =
     (let w = foldl (\<lambda>v c. if - brrip_rrpv (h c) < - brrip_rrpv (h v) then c else v) v cs in Inr (w, brrip_rrpv (h w)))"
  by (induction cs arbitrary: v r) (auto simp: Let_def)

lemma fold_age:
  "distinct cs \<Longrightarrow> fold (\<lambda>c h. h(c := age_entry k (h c))) cs h = (\<lambda>e. if e \<in> set cs then age_entry k (h e) else h e)"
proof (induction cs arbitrary: h)
  case (Cons c cs)
  then have "fold (\<lambda>c h. h(c := age_entry k (h c))) (c # cs) h =
      (\<lambda>e. if e \<in> set cs then age_entry k ((h(c := age_entry k (h c))) e) else (h(c := age_entry k (h c))) e)"
    by (simp del: fun_upd_apply)
  also have "\<dots> = (\<lambda>e. if e \<in> set (c # cs) then age_entry k (h e) else h e)" using Cons.prems by auto
  finally show ?case .
qed simp

lemma fold_age_rrpv:
  "distinct cs \<Longrightarrow> c \<in> set cs \<Longrightarrow> brrip_rrpv (fold (\<lambda>c h. h(c := age_entry k (h c))) cs h c) = brrip_rrpv (h c) + k"
  by (simp add: fold_age) (simp add: age_entry_def)

lemma fold_age_other: "e \<notin> set cs \<Longrightarrow> fold (\<lambda>c h. h(c := age_entry k (h c))) cs h e = h e"
  by (induction cs arbitrary: h) auto

lemma BRRIPRP_victim_invalid:
  assumes "filter (\<lambda>c. rrpv_invalid p (h c)) cs = x # xs"
  shows "BRRIPRP_getVictim p cs h = Ok (x, h)"
proof -
  have "cs \<noteq> []" using assms by auto
  then show ?thesis using BRRIPRP_scan_invalid [of h "maxRRPV p" cs x xs] assms
    by (simp add: BRRIPRP_getVictim_def rrpv_invalid_def)
qed

lemma BRRIPRP_victim_valid:
  assumes "cs \<noteq> []" "\<forall>c\<in>set cs. \<not> rrpv_invalid p (h c)"
  defines "v \<equiv> scan_least (\<lambda>c. - brrip_rrpv (h c)) cs"
  defines "k \<equiv> maxRRPV p - brrip_rrpv (h v)"
  shows "BRRIPRP_getVictim p cs h = Ok (v, if k > 0 then fold (\<lambda>c h. h(c := age_entry k (h c))) cs h else h)"
proof -
  have "BRRIPRP_scan (maxRRPV p) h cs (cs ! 0) (brrip_rrpv (h (cs ! 0))) = Inr (v, brrip_rrpv (h v))"
    using BRRIPRP_scan_valid [of cs h "maxRRPV p" "brrip_rrpv (h (cs ! 0))" "cs ! 0"] assms(2)
    unfolding v_def scan_least_def by (simp add: rrpv_invalid_def Let_def)
  then show ?thesis using assms(1) by (simp add: BRRIPRP_getVictim_def k_def Let_def)
qed

lemma BRRIPRP_occupying:
  assumes "0 < maxRRPV p"
  shows "occupying_policy (BRRIPRP p) (rrpv_ok p) (rrpv_invalid p)"
proof -
  have victim: "(\<exists>xs. filter (\<lambda>c. rrpv_invalid p (h c)) cs = v # xs) \<and> h' = h \<or>
      (\<forall>c\<in>set cs. \<not> rrpv_invalid p (h c)) \<and> v = scan_least (\<lambda>c. - brrip_rrpv (h c)) cs \<and>
      (\<exists>k. k = maxRRPV p - brrip_rrpv (h v) \<and> h' = (if k > 0 then fold (\<lambda>c h. h(c := age_entry k (h c))) cs h else h))"
    if "BRRIPRP_getVictim p cs h = Ok (v, h')" for cs h v h'
  proof (cases "filter (\<lambda>c. rrpv_invalid p (h c)) cs")
    case Nil
    have "cs \<noteq> []" using that by (auto simp: BRRIPRP_getVictim_def)
    from BRRIPRP_victim_valid [OF this] Nil that show ?thesis by (auto simp: filter_empty_conv)
  next
    case (Cons x xs)
    from BRRIPRP_victim_invalid [OF this] that Cons show ?thesis by simp
  qed
  have inv: "v \<in> set cs \<and> rrpv_invalid p (h v)" if "filter (\<lambda>c. rrpv_invalid p (h c)) cs = v # xs" for v xs cs h
    using arg_cong [OF that, of set] by auto
  show ?thesis
  proof (unfold_locales, goal_cases)
    case (5 draw cs t h)
    then have "cs \<noteq> []" by (rule length_draw)
    then show ?case by (auto simp: BRRIPRP_def BRRIPRP_getVictim_def Let_def split: sum.splits)
  next
    case (6 t draw cs h v h')
    then have g: "BRRIPRP_getVictim p cs h = Ok (v, h')" by (simp add: BRRIPRP_def)
    then have "cs \<noteq> []" by (auto simp: BRRIPRP_getVictim_def)
    with victim [OF g] show ?case by (auto dest: inv intro: scan_least_in)
  next
    case (7 t draw cs h v h' e)
    then have g: "BRRIPRP_getVictim p cs h = Ok (v, h')" by (simp add: BRRIPRP_def)
    with victim [OF g] 7(2) show ?case by (auto simp: fold_age_other)
  next
    case (8 t draw cs h v h' c)
    then have g: "BRRIPRP_getVictim p cs h = Ok (v, h')" by (simp add: BRRIPRP_def)
    from victim [OF g] scan_least_le [OF 8(4), of "\<lambda>c. - brrip_rrpv (h c)"] 8(2,3,4) assms
    show ?case by (auto simp: fold_age_rrpv rrpv_ok_def rrpv_invalid_def)
  next
    case (11 t draw cs h v h' c)
    then have g: "BRRIPRP_getVictim p cs h = Ok (v, h')" by (simp add: BRRIPRP_def)
    from victim [OF g] 11(3,4) show ?case by (auto dest: inv)
  next
    case (12 t draw cs h v h' c)
    then have g: "BRRIPRP_getVictim p cs h = Ok (v, h')" by (simp add: BRRIPRP_def)
    from victim [OF g] 12(3,4) show ?case by auto
  next
    case (15 t draw cs h v h' c)
    then have g: "BRRIPRP_getVictim p cs h = Ok (v, h')" by (simp add: BRRIPRP_def)
    from victim [OF g] scan_least_le [OF 15(5), of "\<lambda>c. - brrip_rrpv (h c)"] 15(3-6)
    show ?case by (auto simp: fold_age_rrpv rrpv_ok_def rrpv_invalid_def split: if_splits)
  qed (use assms in \<open>auto simp: BRRIPRP_def BRRIPRP_invalidate_def BRRIPRP_touch_def BRRIPRP_reset_def
      BRRIPRP_instantiateEntry_def rrpv_ok_def rrpv_invalid_def\<close>)
qed

text \<open>The parameters a constructed policy has, and the default ones of \<^verbatim>\<open>ReplacementPolicies.py\<close>.\<close>

locale brrip_policy =
  fixes p :: BRRIPRP_params
  assumes constructed: "new_BRRIPRP p = Ok p"

sublocale brrip_policy \<subseteq> occupying_policy "BRRIPRP p" "rrpv_ok p" "rrpv_invalid p"
  by (rule BRRIPRP_occupying) (use constructed in \<open>simp add: new_BRRIPRP_def split: if_splits\<close>)

definition BRRIP_defaults :: BRRIPRP_params where
  "BRRIP_defaults = \<lparr>maxRRPV = 3, hitPriority = False, brrip_btp = 3\<rparr>"

interpretation brrip: brrip_policy BRRIP_defaults
  by unfold_locales (simp add: new_BRRIPRP_def BRRIP_defaults_def)

section \<open>Properties\<close>

subsection \<open>Timestamps implement the recency stack\<close>

datatype policy_op = PTouch nat | PReset nat u32 | PInvalidate nat

fun policy_step :: "'d BaseReplacementPolicy \<Rightarrow> Tick \<times> policy_op \<Rightarrow> 'd repl_store \<Rightarrow> 'd repl_store" where
  "policy_step rp (t, PTouch e) h = h(e := rp_touch rp t (h e))"
| "policy_step rp (t, PReset e draw) h = h(e := rp_reset rp t draw (h e))"
| "policy_step rp (t, PInvalidate e) h = h(e := rp_invalidate rp (h e))"

definition run_policy :: "'d BaseReplacementPolicy \<Rightarrow> (Tick \<times> policy_op) list \<Rightarrow> 'd repl_store" where
  "run_policy rp ops = fold (policy_step rp) ops (\<lambda>_. rp_instantiateEntry rp)"

fun stack_step :: "Tick \<times> policy_op \<Rightarrow> nat list \<Rightarrow> nat list" where
  "stack_step (t, PTouch e) s = e # removeAll e s"
| "stack_step (t, PReset e draw) s = e # removeAll e s"
| "stack_step (t, PInvalidate e) s = removeAll e s"

definition recency_stack :: "(Tick \<times> policy_op) list \<Rightarrow> nat list" where
  "recency_stack ops = fold stack_step ops []"

definition stack_victim :: "nat list \<Rightarrow> nat list \<Rightarrow> nat" where
  "stack_victim s cs = (case filter (\<lambda>c. c \<notin> set s) cs of c # _ \<Rightarrow> c | [] \<Rightarrow> last (filter (\<lambda>e. e \<in> set cs) s))"

definition stamps :: "LRUReplData repl_store \<Rightarrow> Tick \<Rightarrow> nat list \<Rightarrow> bool" where
  "stamps h now s \<longleftrightarrow> (\<forall>e. e \<in> set s \<longleftrightarrow> lru_lastTouchTick (h e) \<noteq> 0) \<and> (\<forall>e. lru_lastTouchTick (h e) \<le> now) \<and>
     sorted_wrt (\<lambda>a b. lru_lastTouchTick (h b) < lru_lastTouchTick (h a)) s"

lemma sorted_stamps_upd:
  assumes "sorted_wrt (\<lambda>a b. lru_lastTouchTick (h b) < lru_lastTouchTick (h a)) s"
  shows "sorted_wrt (\<lambda>a b. lru_lastTouchTick ((h(e := d)) b) < lru_lastTouchTick ((h(e := d)) a)) (removeAll e s)"
proof (rule sorted_wrt_mono_rel)
  show "sorted_wrt (\<lambda>a b. lru_lastTouchTick (h b) < lru_lastTouchTick (h a)) (removeAll e s)"
    using assms by (simp add: removeAll_filter_not_eq sorted_wrt_filter)
qed auto

lemma stamps_use:
  assumes "stamps h now s" "now < t"
  shows "stamps (h(e := \<lparr>lru_lastTouchTick = t\<rparr>)) t (e # removeAll e s)"
proof -
  have t: "t \<noteq> 0" using assms(2) by auto
  have lt: "lru_lastTouchTick (h x) < t" for x using assms by (auto simp: stamps_def intro: le_less_trans)
  have "sorted_wrt (\<lambda>a b. lru_lastTouchTick (h b) < lru_lastTouchTick (h a)) s" using assms(1) by (simp add: stamps_def)
  from sorted_stamps_upd [OF this, of e "\<lparr>lru_lastTouchTick = t\<rparr>"]
  have "sorted_wrt (\<lambda>a b. lru_lastTouchTick ((h(e := \<lparr>lru_lastTouchTick = t\<rparr>)) b) <
      lru_lastTouchTick ((h(e := \<lparr>lru_lastTouchTick = t\<rparr>)) a)) (e # removeAll e s)" using lt by simp
  moreover have "x \<in> set s \<longleftrightarrow> lru_lastTouchTick (h x) \<noteq> 0" for x using assms(1) by (simp add: stamps_def)
  ultimately show ?thesis using t lt by (simp add: stamps_def less_imp_le)
qed

lemma stamps_drop:
  assumes "stamps h now s" "now \<le> t"
  shows "stamps (h(e := \<lparr>lru_lastTouchTick = 0\<rparr>)) t (removeAll e s)"
proof -
  have le: "lru_lastTouchTick (h x) \<le> t" for x using assms by (auto simp: stamps_def intro: order_trans)
  have "sorted_wrt (\<lambda>a b. lru_lastTouchTick (h b) < lru_lastTouchTick (h a)) s" using assms(1) by (simp add: stamps_def)
  from sorted_stamps_upd [OF this, of e "\<lparr>lru_lastTouchTick = 0\<rparr>"] le assms(1) show ?thesis
    by (simp add: stamps_def)
qed

lemma stamps_run:
  assumes "sorted_wrt (<) (map fst ops)" "\<forall>t\<in>fst ` set ops. t \<noteq> 0"
  shows "stamps (run_policy LRURP ops) (if ops = [] then 0 else fst (last ops)) (recency_stack ops)"
  using assms
proof (induction ops rule: rev_induct)
  case Nil
  show ?case by (simp add: stamps_def run_policy_def recency_stack_def lru_defs)
next
  case (snoc x ops)
  obtain t q where x: "x = (t, q)" by (cases x)
  define h where "h = run_policy LRURP ops"
  define s where "s = recency_stack ops"
  define now where "now = (if ops = [] then 0 else fst (last ops))"
  have st: "stamps h now s" using snoc unfolding h_def s_def now_def by (simp add: sorted_wrt_append)
  have lt: "now < t" using snoc.prems by (auto simp: now_def x sorted_wrt_append word_gt_0)
  have run: "run_policy LRURP (ops @ [x]) = policy_step LRURP x h" "recency_stack (ops @ [x]) = stack_step x s"
    by (simp_all add: run_policy_def recency_stack_def h_def s_def)
  have upd: "d\<lparr>lru_lastTouchTick := k\<rparr> = \<lparr>lru_lastTouchTick = k\<rparr>" for d :: LRUReplData and k by (cases d) simp
  have "stamps (policy_step LRURP x h) t (stack_step x s)"
    using stamps_use [OF st lt] stamps_drop [OF st less_imp_le [OF lt]] by (cases q) (simp_all add: x lru_defs upd del: fun_upd_apply)
  then show ?case unfolding run by (simp add: x)
qed

lemma sorted_last_least:
  fixes f :: "'a \<Rightarrow> 'b::linorder"
  assumes "sorted_wrt (\<lambda>a b. f b < f a) xs" "x \<in> set xs"
  shows "f (last xs) \<le> f x" "f x = f (last xs) \<Longrightarrow> x = last xs"
proof -
  from assms(2) have e: "xs = butlast xs @ [last xs]" by (metis append_butlast_last_id empty_iff empty_set)
  then have "\<forall>y\<in>set (butlast xs). f (last xs) < f y" using assms(1) by (metis list.set_intros(1) sorted_wrt_append)
  moreover have "x \<in> set (butlast xs) \<or> x = last xs" using assms(2) by (subst (asm) e) auto
  ultimately show "f (last xs) \<le> f x" "f x = f (last xs) \<Longrightarrow> x = last xs" by (auto simp: less_imp_le)
qed

lemma stamps_victim:
  assumes "stamps h now s" "cs \<noteq> []"
  shows "scan_least (\<lambda>c. lru_lastTouchTick (h c)) cs = stack_victim s cs"
proof (cases "filter (\<lambda>c. c \<notin> set s) cs")
  case (Cons c r)
  have "filter (\<lambda>c. lru_lastTouchTick (h c) = 0) cs = filter (\<lambda>c. c \<notin> set s) cs"
    using assms(1) by (intro filter_cong) (auto simp: stamps_def)
  from scan_least_first [OF this [unfolded Cons]] show ?thesis by (simp add: stack_victim_def Cons)
next
  case Nil
  define L where "L = filter (\<lambda>e. e \<in> set cs) s"
  let ?f = "\<lambda>c. lru_lastTouchTick (h c)"
  have sub: "set cs \<subseteq> set L" using Nil by (auto simp: L_def filter_empty_conv)
  then have L: "L \<noteq> []" using assms(2) by (cases cs) auto
  have sorted: "sorted_wrt (\<lambda>a b. ?f b < ?f a) L" using assms(1) by (simp add: stamps_def L_def sorted_wrt_filter)
  have all: "\<forall>c\<in>set cs. ?f (last L) \<le> ?f c \<and> (?f c = ?f (last L) \<longrightarrow> c = last L)"
    using sorted_last_least [OF sorted] sub by blast
  have "last L \<in> set L" using L by (rule last_in_set)
  then have mem: "last L \<in> set cs" by (simp add: L_def)
  obtain x xs where x: "filter (\<lambda>c. ?f c = ?f (last L)) cs = x # xs"
    using mem by (cases "filter (\<lambda>c. ?f c = ?f (last L)) cs") (auto simp: filter_empty_conv)
  have "x \<in> set (filter (\<lambda>c. ?f c = ?f (last L)) cs)" by (simp add: x)
  then have "x = last L" using all by simp
  moreover have "scan_least ?f cs = x" by (rule scan_least_first [OF x]) (use all in blast)
  ultimately show ?thesis by (simp add: stack_victim_def Nil L_def)
qed

text \<open>C25: the timestamps of the LRU policy implement the recency stack: after any sequence of touches, resets and
  invalidations at increasing ticks, the victim is the first candidate that is not in use, and when all are in use the
  one whose last use is the longest ago; the data is left alone.\<close>

theorem lru_refines_stack:
  assumes "sorted_wrt (<) (map fst ops)" "\<forall>t\<in>fst ` set ops. t \<noteq> 0" "cs \<noteq> []"
  shows "rp_getVictim LRURP t draw cs (run_policy LRURP ops) = Ok (stack_victim (recency_stack ops) cs, run_policy LRURP ops)"
  using stamps_victim [OF stamps_run [OF assms(1,2)] assms(3)] assms(3) by (simp add: lru_defs)

theorem lru_refines_stack_witness:
  "rp_getVictim LRURP 9 0 [4, 5, 6] (run_policy LRURP [(1, PReset 6 0), (2, PReset 4 0), (3, PReset 5 0), (5, PTouch 6)]) =
     Ok (4, run_policy LRURP [(1, PReset 6 0), (2, PReset 4 0), (3, PReset 5 0), (5, PTouch 6)])"
  using lru_refines_stack [of "[(1, PReset 6 0), (2, PReset 4 0), (3, PReset 5 0), (5, PTouch 6)]" "[4, 5, 6]" 9 0]
  by (simp add: stack_victim_def recency_stack_def)

subsection \<open>Second chances\<close>

text \<open>The candidates in the order of their insertion; those of the same tick in the order of the candidates.\<close>

definition fifo_order :: "SecondChanceReplData repl_store \<Rightarrow> nat list \<Rightarrow> nat list" where
  "fifo_order h cs = sort_key (\<lambda>c. fifo_tickInserted (h c)) cs"

definition chances_taken :: "Tick \<Rightarrow> nat list \<Rightarrow> SecondChanceReplData repl_store \<Rightarrow> SecondChanceReplData repl_store" where
  "chances_taken t us h = (\<lambda>e. if e \<in> set us then useSecondChance t (h e) else h e)"

lemma chances_taken_snoc: "(chances_taken t us h)(u := useSecondChance t (chances_taken t us h u)) = chances_taken t (us @ [u]) h"
  by (auto simp: chances_taken_def useSecondChance_def FIFORP_reset_def)

lemma chances_tick: "fifo_tickInserted (chances_taken t us h c) = (if c \<in> set us then t else fifo_tickInserted (h c))"
  by (simp add: chances_taken_def useSecondChance_def FIFORP_reset_def)

text \<open>The next victim of the FIFO search after the first candidates of the order have had their chance.\<close>

lemma fifo_victim_next:
  assumes "fifo_order h cs = us @ r # rs" "distinct cs" "\<forall>c\<in>set cs. fifo_tickInserted (h c) < t"
  shows "FIFORP_getVictim cs (chances_taken t us h) = Ok r"
proof -
  let ?f = "\<lambda>c. fifo_tickInserted (h c)" and ?g = "\<lambda>c. fifo_tickInserted (chances_taken t us h c)"
  have set: "set (us @ r # rs) = set cs" using assms(1) by (metis fifo_order_def set_sort)
  have dist: "distinct (us @ r # rs)" using assms(1,2) by (metis fifo_order_def distinct_sort)
  have sorted: "sorted (map ?f (us @ r # rs))" using assms(1) by (metis fifo_order_def sorted_sort_key)
  have r: "r \<in> set cs" using set by auto
  have "filter (\<lambda>c. ?g c = ?f r) cs = filter (\<lambda>c. c \<notin> set us) (filter (\<lambda>c. ?f c = ?f r) cs)"
    using assms(3) r by (auto simp: chances_tick intro!: filter_cong)
  also have "filter (\<lambda>c. ?f c = ?f r) cs = filter (\<lambda>c. ?f c = ?f r) (us @ r # rs)"
    using sort_key_stable [of ?f "?f r" cs] assms(1) by (simp add: fifo_order_def)
  also have "filter (\<lambda>c. c \<notin> set us) (filter (\<lambda>c. ?f c = ?f r) (us @ r # rs)) =
      r # filter (\<lambda>c. c \<notin> set us) (filter (\<lambda>c. ?f c = ?f r) rs)" using dist by (auto simp: filter_empty_conv)
  finally have first: "filter (\<lambda>c. ?g c = ?f r) cs = r # filter (\<lambda>c. c \<notin> set us) (filter (\<lambda>c. ?f c = ?f r) rs)" .
  have "\<forall>c\<in>set (us @ r # rs). ?f r \<le> ?g c"
    using sorted assms(3) r by (auto simp: chances_tick sorted_append less_imp_le)
  then have "\<forall>c\<in>set cs. ?f r \<le> ?g c" unfolding set .
  from scan_least_first [OF first this] show ?thesis using r by (auto simp: FIFORP_getVictim_def bindR_assertR)
qed

lemma search_from:
  assumes "distinct cs" "\<forall>c\<in>set cs. fifo_tickInserted (h c) < t" "cs \<noteq> []"
  shows "fifo_order h cs = us @ rs \<Longrightarrow> SecondChanceRP_search t cs (chances_taken t us h) =
    Ok (case dropWhile (\<lambda>c. sc_hasSecondChance (h c)) rs of w # _ \<Rightarrow> w | [] \<Rightarrow> hd cs,
        chances_taken t (us @ takeWhile (\<lambda>c. sc_hasSecondChance (h c)) rs) h)"
proof (induction rs arbitrary: us)
  case Nil
  then have set: "set us = set cs" by (metis append_Nil2 fifo_order_def set_sort)
  let ?g = "\<lambda>c. fifo_tickInserted (chances_taken t us h c)"
  have g: "?g c = t" if "c \<in> set cs" for c using that set by (simp add: chances_tick)
  have "filter (\<lambda>c. ?g c = t) cs = hd cs # tl cs" using g assms(3) by (simp add: filter_id_conv)
  from scan_least_first [OF this] g have "FIFORP_getVictim cs (chances_taken t us h) = Ok (hd cs)"
    using assms(3) by (simp add: FIFORP_getVictim_def)
  moreover have "hd cs \<in> set us" using set assms(3) by simp
  then have "\<not> sc_hasSecondChance (chances_taken t us h (hd cs))" by (simp add: chances_taken_def useSecondChance_def)
  ultimately show ?case by (simp add: SecondChanceRP_search.simps)
next
  case (Cons r rs)
  have "distinct (us @ r # rs)" using Cons.prems assms(1) by (metis fifo_order_def distinct_sort)
  then have r: "sc_hasSecondChance (chances_taken t us h r) = sc_hasSecondChance (h r)" by (simp add: chances_taken_def)
  note victim = fifo_victim_next [OF Cons.prems assms(1,2)]
  show ?case
  proof (cases "sc_hasSecondChance (h r)")
    case True
    have "SecondChanceRP_search t cs (chances_taken t us h) = SecondChanceRP_search t cs (chances_taken t (us @ [r]) h)"
      by (subst SecondChanceRP_search.simps) (simp add: victim r True chances_taken_snoc del: fun_upd_apply)
    with Cons.IH [of "us @ [r]"] Cons.prems True show ?thesis by simp
  next
    case False
    then show ?thesis by (subst SecondChanceRP_search.simps) (simp add: victim r)
  qed
qed

text \<open>C26: the second chance search ends, and is the clock algorithm up to one case: among candidates inserted before now of which
  none is invalid, it takes the second chance of the candidates in the order of their insertion up to the first that has none,
  and evicts that one. When every candidate has a second chance, all lose it and the first candidate is evicted, not the oldest.\<close>

theorem second_chance_spec:
  assumes "cs \<noteq> []" "distinct cs" "\<forall>c\<in>set cs. \<not> sc_invalid (h c)" "\<forall>c\<in>set cs. fifo_tickInserted (h c) < t"
  shows "SecondChanceRP_getVictim t cs h =
    Ok (case dropWhile (\<lambda>c. sc_hasSecondChance (h c)) (fifo_order h cs) of w # _ \<Rightarrow> w | [] \<Rightarrow> hd cs,
        chances_taken t (takeWhile (\<lambda>c. sc_hasSecondChance (h c)) (fifo_order h cs)) h)"
proof -
  have e: "dropWhile (\<lambda>c. \<not> sc_invalid (h c)) cs = []" using assms(3) by simp
  have "SecondChanceRP_getVictim t cs h = SecondChanceRP_search t cs h"
    using assms(1) unfolding SecondChanceRP_getVictim_def e by simp
  moreover have "chances_taken t [] h = h" by (simp add: chances_taken_def)
  ultimately show ?thesis using search_from [OF assms(2,4,1), of "[]" "fifo_order h cs"] by simp
qed

definition chance_data :: "nat \<Rightarrow> SecondChanceReplData" where
  "chance_data e = \<lparr>fifo_tickInserted = (if e = 1 then 5 else if e = 2 then 3 else 4), sc_hasSecondChance = (e \<noteq> 1)\<rparr>"

theorem second_chance_spec_witness:
  "map_prod id (\<lambda>h. map (\<lambda>e. (fifo_tickInserted (h e), sc_hasSecondChance (h e))) [1, 2, 3])
     (case SecondChanceRP_getVictim 9 [1, 2, 3] chance_data of Ok r \<Rightarrow> r) = (1, [(5, False), (9, False), (9, False)])"
proof -
  have "fifo_order chance_data [1, 2, 3] = [2, 3, 1]" by (simp add: fifo_order_def chance_data_def)
  then show ?thesis
    using second_chance_spec [of "[1, 2, 3]" chance_data 9]
    by (simp add: sc_invalid_def chance_data_def chances_taken_def useSecondChance_def FIFORP_reset_def)
qed

subsection \<open>Re-reference prediction\<close>

text \<open>The re-reference policy evicts the first invalid candidate and then changes nothing; with none invalid it evicts the first
  candidate of the most distant prediction and ages all candidates by the same amount, so that the victim reaches the maximum,
  no candidate exceeds it, and other entries keep their prediction.\<close>

theorem brrip_victim:
  assumes "new_BRRIPRP p = Ok p" "cs \<noteq> []" "distinct cs" "\<forall>c\<in>set cs. rrpv_ok p (h c)"
  shows "\<exists>v h'. BRRIPRP_getVictim p cs h = Ok (v, h') \<and> v \<in> set cs \<and>
    (case filter (\<lambda>c. rrpv_invalid p (h c)) cs of c # _ \<Rightarrow> v = c \<and> h' = h
     | [] \<Rightarrow> v = hd (filter (\<lambda>c. \<forall>d\<in>set cs. brrip_rrpv (h d) \<le> brrip_rrpv (h c)) cs) \<and> brrip_rrpv (h' v) = maxRRPV p \<and>
         (\<forall>c\<in>set cs. brrip_rrpv (h' c) = brrip_rrpv (h c) + (maxRRPV p - brrip_rrpv (h v)) \<and> brrip_rrpv (h' c) \<le> maxRRPV p) \<and>
         (\<forall>e. e \<notin> set cs \<longrightarrow> h' e = h e))"
proof (cases "filter (\<lambda>c. rrpv_invalid p (h c)) cs")
  case (Cons x xs)
  have "x \<in> set (filter (\<lambda>c. rrpv_invalid p (h c)) cs)" by (simp add: Cons)
  then have "x \<in> set cs" by simp
  then show ?thesis using BRRIPRP_victim_invalid [OF Cons] Cons by simp
next
  case Nil
  define f where "f = (\<lambda>c. - brrip_rrpv (h c))"
  define v where "v = scan_least f cs"
  have valid: "\<forall>c\<in>set cs. \<not> rrpv_invalid p (h c)" using Nil by (simp add: filter_empty_conv)
  have v: "v \<in> set cs" using assms(2) by (simp add: v_def scan_least_in)
  have le: "brrip_rrpv (h c) \<le> brrip_rrpv (h v)" if "c \<in> set cs" for c
    using scan_least_le [OF that, of f] by (simp add: v_def f_def)
  have bound: "brrip_rrpv (h v) \<le> maxRRPV p" using v valid assms(4) by (force simp: rrpv_ok_def rrpv_invalid_def)
  have eq: "filter (\<lambda>c. \<forall>d\<in>set cs. brrip_rrpv (h d) \<le> brrip_rrpv (h c)) cs = filter (\<lambda>c. f c = f v) cs"
    using le v by (auto simp: f_def intro!: filter_cong antisym)
  obtain x xs where x: "filter (\<lambda>c. f c = f v) cs = x # xs"
    using v by (cases "filter (\<lambda>c. f c = f v) cs") (auto simp: filter_empty_conv)
  have "v = x" using scan_least_first [OF x] le by (simp add: f_def v_def)
  moreover define k where "k = maxRRPV p - brrip_rrpv (h v)"
  define h' where "h' = (if k > 0 then fold (\<lambda>c h. h(c := age_entry k (h c))) cs h else h)"
  have "brrip_rrpv (h' c) = brrip_rrpv (h c) + k" if "c \<in> set cs" for c
    using that bound assms(3) by (simp add: h'_def fold_age_rrpv) (simp add: k_def)
  moreover have "h' e = h e" if "e \<notin> set cs" for e using that by (simp add: h'_def fold_age_other)
  moreover have "BRRIPRP_getVictim p cs h = Ok (v, h')"
    using BRRIPRP_victim_valid [OF assms(2) valid] unfolding h'_def k_def v_def f_def .
  ultimately show ?thesis using v le x by (auto simp: Nil eq k_def)
qed

definition rrpv_data :: "nat \<Rightarrow> BRRIPReplData" where
  "rrpv_data e = \<lparr>brrip_rrpv = int e\<rparr>"

theorem brrip_victim_witness:
  "\<exists>h'. BRRIPRP_getVictim BRRIP_defaults [0, 2, 1] rrpv_data = Ok (2, h') \<and> map (\<lambda>e. brrip_rrpv (h' e)) [0, 1, 2] = [1, 2, 3]"
  using brrip_victim [of BRRIP_defaults "[0, 2, 1]" rrpv_data]
  by (simp add: new_BRRIPRP_def BRRIP_defaults_def rrpv_data_def rrpv_ok_def rrpv_invalid_def) blast

subsection \<open>Policies that break the contract\<close>

text \<open>An invalidated entry of the MRU policy is the last to be evicted: its tick becomes the least one, and the policy
  looks for the greatest.\<close>

lemma mru_evicts_valid_first:
  assumes "mru_lastTouchTick (h a) \<noteq> 0" "a \<noteq> b"
  shows "MRURP_getVictim [a, b] (h(b := MRURP_invalidate (h b))) = Ok a"
    "MRURP_getVictim [b, a] (h(b := MRURP_invalidate (h b))) = Ok a"
  using assms by (simp_all add: MRURP_getVictim_def MRURP_invalidate_def word_gt_0)

text \<open>The reference count of the LFU policy wraps: the entry with the most references becomes as vacant as an invalid one.\<close>

lemma lfu_wraps: "lfu_refCount d = 2 ^ 32 - 1 \<Longrightarrow> LFURP_touch d = LFURP_invalidate d"
  by (cases d) (simp add: LFURP_touch_def LFURP_invalidate_def)

end
