(* ===== verification/Set_Assoc.thy ===== *)
theory Set_Assoc
  imports Cache_Blk Repl_Policy Int_Math
begin

text \<open>
  The set associative tag store: \<^verbatim>\<open>mem/cache/tags/base.hh\<close> and \<^verbatim>\<open>base.cc\<close>, \<^verbatim>\<open>base_set_assoc.hh\<close> and
  \<^verbatim>\<open>base_set_assoc.cc\<close>, and \<^verbatim>\<open>cacheset.hh\<close>. A pointer to a block is its index in the vector of blocks; a set
  is the list of its blocks. The replacement policy is an argument, and the replacement data of the blocks is a
  store of the policy's data by block index. The fields of the base class come first.
\<close>

section \<open>State\<close>

record 'd BaseSetAssoc =
  sa_blkSize :: u32
  sa_blkMask :: Addr
  sa_size :: u32
  sa_lookupLatency :: u64
  sa_accessLatency :: u64
  sa_warmupBound :: u32
  sa_warmedUp :: bool
  sa_numBlocks :: u32
  sa_tagsInUse :: int
  sa_totalRefs :: nat
  sa_sampledRefs :: nat
  sa_warmupCycle :: Tick
  sa_occupancies :: "int \<Rightarrow> int"
  sa_occupanciesTaskId :: "u32 \<Rightarrow> nat"
  sa_ageTaskId :: "u32 \<Rightarrow> nat \<Rightarrow> nat"
  sa_tagAccesses :: nat
  sa_dataAccesses :: nat
  sa_assoc :: u32
  sa_allocAssoc :: u32
  sa_blks :: "CacheBlk list"
  sa_numSets :: u32
  sa_sequentialAccess :: bool
  sa_sets :: "nat list list"
  sa_setShift :: nat
  sa_tagShift :: nat
  sa_setMask :: u32
  sa_repl :: "'d repl_store"

text \<open>The bound of the warm-up is computed in floating point and is a parameter here.\<close>

record BaseSetAssocParams =
  sp_size :: u64
  sp_block_size :: int
  sp_assoc :: int
  sp_tag_latency :: u64
  sp_data_latency :: u64
  sp_sequential_access :: bool
  sp_warmupBound :: u32

section \<open>Construction\<close>

definition divR :: "u64 \<Rightarrow> int \<Rightarrow> u64 result" where
  "divR x d = (if word_of_int d = (0 :: u64) then Error DivByZero else Ok (x div word_of_int d))"

text \<open>
  The data of block number \<open>k\<close> starts at \<^verbatim>\<open>dataBlks[blkSize*blkIndex]\<close>, an unsigned product of 32 bits that wraps around. As long as the cache is
  of at most 4 GiB the blocks have disjoint parts of the array (\<open>block_data_ranges\<close>) and each block of the model owns its bytes. In a greater
  cache, which the constructor accepts, blocks share bytes: what happens to the data there is outside the model, and the
  theorems about data are stated for caches of at most 4 GiB. Lookups do not depend on the data.
\<close>

definition data_offset :: "u32 \<Rightarrow> nat \<Rightarrow> u32" where
  "data_offset blkSize blkIndex = blkSize * of_nat blkIndex"

text \<open>
  The loops that link the blocks into the sets: block number \<open>k\<close> becomes way \<open>k mod assoc\<close> of set \<open>k div assoc\<close> and gets its part
  of the data, whose initial bytes are given by \<open>junk\<close>.
\<close>

definition link_block :: "(nat \<Rightarrow> u8) \<Rightarrow> u32 \<Rightarrow> nat \<Rightarrow> nat \<Rightarrow> CacheBlk" where
  "link_block junk blkSize assoc k =
     (new_CacheBlk (int (k div assoc)) (int (k mod assoc)))
       \<lparr>cb_data := Some (map (\<lambda>i. junk (unat (data_offset blkSize k) + i)) [0..<unat blkSize]), cb_tag := of_nat (k mod assoc)\<rparr>"

definition link_sets :: "nat \<Rightarrow> nat \<Rightarrow> nat list list" where
  "link_sets numSets assoc = map (\<lambda>i. map (\<lambda>j. i * assoc + j) [0..<assoc]) [0..<numSets]"

definition new_BaseSetAssoc ::
  "'d BaseReplacementPolicy \<Rightarrow> (nat \<Rightarrow> u8) \<Rightarrow> BaseSetAssocParams \<Rightarrow> 'd BaseSetAssoc result" where
  "new_BaseSetAssoc rp junk p =
     bindR (divR (sp_size p) (sp_block_size p)) (\<lambda>nblks.
     bindR (intR (sp_block_size p * sp_assoc p)) (\<lambda>set_size.
     bindR (divR (sp_size p) set_size) (\<lambda>nsets.
       let blkSize = word_of_int (sp_block_size p) :: u32; assoc = word_of_int (sp_assoc p) :: u32;
           numSets = ucast nsets :: u32 in
       if blkSize < 4 \<or> \<not> isPowerOf2 (ucast blkSize) then Error Fatal
       else if \<not> isPowerOf2 (ucast numSets) then Error Fatal
       else if assoc \<le> 0 then Error Fatal
       else bindR (floorLog2_32 blkSize) (\<lambda>setShift.
            bindR (floorLog2_32 numSets) (\<lambda>setBits.
              Ok \<lparr>sa_blkSize = blkSize, sa_blkMask = ucast (blkSize - 1), sa_size = ucast (sp_size p),
                  sa_lookupLatency = sp_tag_latency p,
                  sa_accessLatency = (if sp_sequential_access p then sp_tag_latency p + sp_data_latency p
                                      else max (sp_tag_latency p) (sp_data_latency p)),
                  sa_warmupBound = sp_warmupBound p, sa_warmedUp = False, sa_numBlocks = ucast nblks, sa_tagsInUse = 0,
                  sa_totalRefs = 0, sa_sampledRefs = 0, sa_warmupCycle = 0, sa_occupancies = (\<lambda>_. 0),
                  sa_occupanciesTaskId = (\<lambda>_. 0), sa_ageTaskId = (\<lambda>_ _. 0), sa_tagAccesses = 0, sa_dataAccesses = 0,
                  sa_assoc = assoc, sa_allocAssoc = assoc,
                  sa_blks = map (\<lambda>k. if k < unat numSets * unat assoc then link_block junk blkSize (unat assoc) k
                                     else new_CacheBlk 0 0) [0..<unat nblks],
                  sa_numSets = numSets, sa_sequentialAccess = sp_sequential_access p,
                  sa_sets = link_sets (unat numSets) (unat assoc),
                  sa_setShift = setShift, sa_tagShift = setShift + setBits, sa_setMask = numSets - 1,
                  sa_repl = (\<lambda>_. rp_instantiateEntry rp)\<rparr>)))))"

section \<open>Addresses\<close>

definition blkAlign :: "Addr \<Rightarrow> 'd BaseSetAssoc \<Rightarrow> Addr" where
  "blkAlign addr t = addr AND NOT (sa_blkMask t)"

definition extractBlkOffset :: "Addr \<Rightarrow> 'd BaseSetAssoc \<Rightarrow> int" where
  "extractBlkOffset addr t = sint (ucast (addr AND sa_blkMask t) :: u32)"

definition extractTag :: "Addr \<Rightarrow> 'd BaseSetAssoc \<Rightarrow> Addr" where
  "extractTag addr t = drop_bit (sa_tagShift t) addr"

definition extractSet :: "Addr \<Rightarrow> 'd BaseSetAssoc \<Rightarrow> int" where
  "extractSet addr t = sint (ucast (drop_bit (sa_setShift t) addr AND ucast (sa_setMask t)) :: u32)"

definition sa_regenerateBlkAddr :: "CacheBlk \<Rightarrow> 'd BaseSetAssoc \<Rightarrow> Addr" where
  "sa_regenerateBlkAddr blk t = push_bit (sa_tagShift t) (cb_tag blk) OR push_bit (sa_setShift t) (word_of_int (cb_set blk))"

section \<open>Sets\<close>

definition sa_blk :: "'d BaseSetAssoc \<Rightarrow> nat \<Rightarrow> CacheBlk" where
  "sa_blk t i = sa_blks t ! i"

definition set_blk :: "nat \<Rightarrow> CacheBlk \<Rightarrow> 'd BaseSetAssoc \<Rightarrow> 'd BaseSetAssoc" where
  "set_blk i b t = t\<lparr>sa_blks := (sa_blks t)[i := b]\<rparr>"

text \<open>\<^verbatim>\<open>CacheSet::findBlk\<close> with the way of the block, which is the associativity when there is none.\<close>

fun findBlk :: "(nat \<Rightarrow> CacheBlk) \<Rightarrow> Addr \<Rightarrow> bool \<Rightarrow> nat list \<Rightarrow> nat option \<times> nat" where
  "findBlk blk tag is_secure [] = (None, 0)"
| "findBlk blk tag is_secure (i # is) =
     (if cb_tag (blk i) = tag \<and> isValid (blk i) \<and> blk_isSecure (blk i) = is_secure then (Some i, 0)
      else map_prod id Suc (findBlk blk tag is_secure is))"

text \<open>
  \<^verbatim>\<open>moveToHead\<close> and \<^verbatim>\<open>moveToTail\<close>: the block is swapped in at one end and the others are shifted until it is found again;
  the assertion fails when it is not in the set.
\<close>

fun shift_until :: "'a \<Rightarrow> 'a \<Rightarrow> 'a list \<Rightarrow> 'a list result" where
  "shift_until blk next [] = Error AssertFail"
| "shift_until blk next (x # xs) =
     (if x = blk then Ok (next # xs) else bindR (shift_until blk x xs) (\<lambda>ys. Ok (next # ys)))"

definition moveToHead :: "'a \<Rightarrow> 'a list \<Rightarrow> 'a list result" where
  "moveToHead blk blks =
     bindR (arr_get blks 0) (\<lambda>b. if b = blk then Ok blks else shift_until blk blk blks)"

definition moveToTail :: "'a \<Rightarrow> 'a list \<Rightarrow> 'a list result" where
  "moveToTail blk blks =
     bindR (arr_get blks (int (length blks) - 1)) (\<lambda>b.
       if b = blk then Ok blks else bindR (shift_until blk blk (rev blks)) (\<lambda>ys. Ok (rev ys)))"

section \<open>Operations\<close>

definition getPossibleLocations :: "Addr \<Rightarrow> 'd BaseSetAssoc \<Rightarrow> nat list result" where
  "getPossibleLocations addr t = arr_get (sa_sets t) (extractSet addr t)"

definition findBlock :: "Addr \<Rightarrow> bool \<Rightarrow> 'd BaseSetAssoc \<Rightarrow> nat option result" where
  "findBlock addr is_secure t =
     bindR (arr_get (sa_sets t) (extractSet addr t)) (\<lambda>s. Ok (fst (findBlk (sa_blk t) (extractTag addr t) is_secure s)))"

definition findBlockBySetAndWay :: "int \<Rightarrow> int \<Rightarrow> 'd BaseSetAssoc \<Rightarrow> nat result" where
  "findBlockBySetAndWay s w t = bindR (arr_get (sa_sets t) s) (\<lambda>blks. arr_get blks w)"

text \<open>The cycles of a number of ticks are a function of the clock of the cache.\<close>

definition accessBlock :: "(Tick \<Rightarrow> u64) \<Rightarrow> 'd BaseReplacementPolicy \<Rightarrow> Tick \<Rightarrow> Addr \<Rightarrow> bool \<Rightarrow> 'd BaseSetAssoc \<Rightarrow>
     (nat option \<times> u64 \<times> 'd BaseSetAssoc) result" where
  "accessBlock ticksToCycles rp curTick addr is_secure t =
     bindR (findBlock addr is_secure t) (\<lambda>found.
       let t = t\<lparr>sa_tagAccesses := sa_tagAccesses t + unat (sa_allocAssoc t),
                 sa_dataAccesses := sa_dataAccesses t +
                   (if sa_sequentialAccess t then if found \<noteq> None then 1 else 0 else unat (sa_allocAssoc t))\<rparr> in
       case found of None \<Rightarrow> Ok (None, sa_lookupLatency t, t)
       | Some i \<Rightarrow>
           let b = sa_blk t i;
               lat = (if cb_whenReady b > curTick \<and> ticksToCycles (cb_whenReady b - curTick) > sa_accessLatency t
                      then ticksToCycles (cb_whenReady b - curTick) + sa_accessLatency t else sa_accessLatency t)
           in Ok (Some i, lat, (set_blk i (b\<lparr>cb_refCount := cb_refCount b + 1\<rparr>) t)
                                 \<lparr>sa_repl := (sa_repl t)(i := rp_touch rp curTick (sa_repl t i))\<rparr>))"

definition findVictim ::
  "'d BaseReplacementPolicy \<Rightarrow> Tick \<Rightarrow> u32 \<Rightarrow> Addr \<Rightarrow> 'd BaseSetAssoc \<Rightarrow> (nat \<times> nat list \<times> 'd BaseSetAssoc) result" where
  "findVictim rp curTick draw addr t =
     bindR (getPossibleLocations addr t) (\<lambda>locations.
     bindR (rp_getVictim rp curTick draw locations (sa_repl t)) (\<lambda>(victim, h).
       Ok (victim, [victim], t\<lparr>sa_repl := h\<rparr>)))"

definition tags_insertBlock :: "u16 \<Rightarrow> Tick \<Rightarrow> Packet \<Rightarrow> nat \<Rightarrow> 'd BaseSetAssoc \<Rightarrow> 'd BaseSetAssoc result" where
  "tags_insertBlock maxMasters curTick pkt i t =
     bindR (assertR (\<not> isValid (sa_blk t i)) AssertFail) (\<lambda>_.
     bindR (pkt_getAddr pkt) (\<lambda>addr.
       let master_id = rq_masterId (pk_req pkt) in
       bindR (assertR (master_id < maxMasters) AssertFail) (\<lambda>_.
       bindR (pkt_isSecure pkt) (\<lambda>is_secure.
         let m = int (unat master_id);
             t = t\<lparr>sa_occupancies := (sa_occupancies t)(m := sa_occupancies t m + 1)\<rparr>;
             t = set_blk i (blk_insert curTick (extractTag addr t) is_secure m (rq_taskId (pk_req pkt)) (sa_blk t i)) t;
             t = (if \<not> sa_warmedUp t \<and> sa_tagsInUse t \<ge> int (unat (sa_warmupBound t))
                  then t\<lparr>sa_warmedUp := True, sa_warmupCycle := curTick\<rparr> else t)
         in Ok (t\<lparr>sa_tagAccesses := sa_tagAccesses t + 1, sa_dataAccesses := sa_dataAccesses t + 1\<rparr>)))))"

definition insertBlock ::
  "'d BaseReplacementPolicy \<Rightarrow> u32 \<Rightarrow> u16 \<Rightarrow> Tick \<Rightarrow> Packet \<Rightarrow> nat \<Rightarrow> 'd BaseSetAssoc \<Rightarrow> 'd BaseSetAssoc result" where
  "insertBlock rp draw maxMasters curTick pkt i t =
     bindR (tags_insertBlock maxMasters curTick pkt i t) (\<lambda>t.
       Ok (t\<lparr>sa_tagsInUse := sa_tagsInUse t + 1, sa_repl := (sa_repl t)(i := rp_reset rp curTick draw (sa_repl t i))\<rparr>))"

definition tags_invalidate :: "nat \<Rightarrow> 'd BaseSetAssoc \<Rightarrow> 'd BaseSetAssoc result" where
  "tags_invalidate i t =
     bindR (assertR (isValid (sa_blk t i)) AssertFail) (\<lambda>_.
       let b = sa_blk t i; m = cb_srcMasterId b in
       Ok (set_blk i (blk_invalidate b)
             (t\<lparr>sa_occupancies := (sa_occupancies t)(m := sa_occupancies t m - 1),
                sa_totalRefs := sa_totalRefs t + unat (cb_refCount b), sa_sampledRefs := Suc (sa_sampledRefs t)\<rparr>)))"

definition sa_invalidate :: "'d BaseReplacementPolicy \<Rightarrow> nat \<Rightarrow> 'd BaseSetAssoc \<Rightarrow> 'd BaseSetAssoc result" where
  "sa_invalidate rp i t =
     bindR (tags_invalidate i t) (\<lambda>t.
       Ok (t\<lparr>sa_tagsInUse := sa_tagsInUse t - 1, sa_repl := (sa_repl t)(i := rp_invalidate rp (sa_repl t i))\<rparr>))"

definition setWayAllocationMax :: "int \<Rightarrow> 'd BaseSetAssoc \<Rightarrow> 'd BaseSetAssoc result" where
  "setWayAllocationMax ways t = (if ways < 1 then Error Fatal else Ok (t\<lparr>sa_allocAssoc := word_of_int ways\<rparr>))"

definition getWayAllocationMax :: "'d BaseSetAssoc \<Rightarrow> int" where
  "getWayAllocationMax t = sint (sa_allocAssoc t)"

section \<open>Visitors\<close>

definition forEachBlk :: "(CacheBlk \<Rightarrow> 'd BaseSetAssoc \<Rightarrow> 'd BaseSetAssoc result) \<Rightarrow> 'd BaseSetAssoc \<Rightarrow> 'd BaseSetAssoc result" where
  "forEachBlk visitor t = foldM visitor (sa_blks t) t"

definition anyBlk :: "(CacheBlk \<Rightarrow> bool) \<Rightarrow> 'd BaseSetAssoc \<Rightarrow> bool" where
  "anyBlk visitor t = list_ex visitor (sa_blks t)"

definition cleanupRefsVisitor :: "CacheBlk \<Rightarrow> 'd BaseSetAssoc \<Rightarrow> 'd BaseSetAssoc" where
  "cleanupRefsVisitor b t =
     (if isValid b then t\<lparr>sa_totalRefs := sa_totalRefs t + unat (cb_refCount b), sa_sampledRefs := Suc (sa_sampledRefs t)\<rparr> else t)"

definition cleanupRefs :: "'d BaseSetAssoc \<Rightarrow> 'd BaseSetAssoc result" where
  "cleanupRefs t = forEachBlk (\<lambda>b t. Ok (cleanupRefsVisitor b t)) t"

definition age_index :: "u64 \<Rightarrow> u64 \<Rightarrow> Tick \<Rightarrow> nat" where
  "age_index us ms age =
     (if age div us < 10 then 0 else if age div us < 100 then 1 else if age div ms < 1 then 2 else if age div ms < 10 then 3 else 4)"

definition computeStatsVisitor :: "u64 \<Rightarrow> u64 \<Rightarrow> Tick \<Rightarrow> CacheBlk \<Rightarrow> 'd BaseSetAssoc \<Rightarrow> 'd BaseSetAssoc result" where
  "computeStatsVisitor us ms curTick b t =
     (if isValid b
      then bindR (assertR (cb_task_id b < 1025) AssertFail) (\<lambda>_.
           bindR (assertR (cb_tickInserted b \<le> curTick) AssertFail) (\<lambda>_.
             let k = cb_task_id b; a = age_index us ms (curTick - cb_tickInserted b) in
             Ok (t\<lparr>sa_occupanciesTaskId := (sa_occupanciesTaskId t)(k := Suc (sa_occupanciesTaskId t k)),
                   sa_ageTaskId := (sa_ageTaskId t)(k := (sa_ageTaskId t k)(a := Suc (sa_ageTaskId t k a)))\<rparr>)))
      else Ok t)"

definition computeStats :: "u64 \<Rightarrow> u64 \<Rightarrow> Tick \<Rightarrow> 'd BaseSetAssoc \<Rightarrow> 'd BaseSetAssoc result" where
  "computeStats us ms curTick t =
     forEachBlk (computeStatsVisitor us ms curTick) (t\<lparr>sa_occupanciesTaskId := (\<lambda>_. 0), sa_ageTaskId := (\<lambda>_ _. 0)\<rparr>)"

section \<open>Address arithmetic\<close>

text \<open>A tag and a set index are put together to the block address of exactly the addresses they were taken from.\<close>

lemma regenerate_iff:
  fixes tag w a :: u64
  assumes "ts = ss + sb" "ts \<le> 64" "tag = take_bit (64 - ts) tag" "w = take_bit sb w"
  shows "push_bit ts tag OR push_bit ss w = a AND NOT (mask ss) \<longleftrightarrow> tag = drop_bit ts a \<and> w = take_bit sb (drop_bit ss a)"
proof -
  have tag: "bit tag n \<Longrightarrow> n < 64 - ts" for n using assms(3) by (metis bit_take_bit_iff)
  have w: "bit w n \<Longrightarrow> n < sb" for n using assms(4) by (metis bit_take_bit_iff)
  have r: "bit (push_bit ts tag OR push_bit ss w) n \<longleftrightarrow> (if n < ss then False else if n < ts then bit w (n - ss) else bit tag (n - ts))"
    if "n < 64" for n using that tag [of "n - ts"] w [of "n - ss"] assms(1) by (auto simp: bit_simps)
  have al: "bit (a AND NOT (mask ss)) n \<longleftrightarrow> n \<ge> ss \<and> bit a n" if "n < 64" for n using that by (auto simp: bit_simps)
  show ?thesis
  proof
    assume e: "push_bit ts tag OR push_bit ss w = a AND NOT (mask ss)"
    have b: "(if n < ss then False else if n < ts then bit w (n - ss) else bit tag (n - ts)) \<longleftrightarrow> n \<ge> ss \<and> bit a n" if "n < 64" for n
      using r [OF that] al [OF that] unfolding e by simp
    have "bit tag n = bit (drop_bit ts a) n" for n
      using b [of "n + ts"] tag [of n] assms(1,2) bit_imp_le_length [of a "ts + n"] by (cases "n + ts < 64") (auto simp: bit_simps add.commute)
    moreover have "bit w n = bit (take_bit sb (drop_bit ss a)) n" for n
      using b [of "n + ss"] w [of n] assms(1,2) by (cases "n < sb") (auto simp: bit_simps add.commute)
    ultimately show "tag = drop_bit ts a \<and> w = take_bit sb (drop_bit ss a)" by (auto intro: bit_eqI)
  next
    assume e: "tag = drop_bit ts a \<and> w = take_bit sb (drop_bit ss a)"
    show "push_bit ts tag OR push_bit ss w = a AND NOT (mask ss)"
    proof (rule bit_word_eqI)
      fix n assume "n < LENGTH(64)"
      then have n: "n < 64" by simp
      show "bit (push_bit ts tag OR push_bit ss w) n = bit (a AND NOT (mask ss)) n"
        unfolding r [OF n] al [OF n] using e assms(1) by (auto simp: bit_simps)
    qed
  qed
qed

definition geometry_ok :: "'d BaseSetAssoc \<Rightarrow> nat \<Rightarrow> nat \<Rightarrow> bool" where
  "geometry_ok t ss sb \<longleftrightarrow> ss < 32 \<and> sb < 32 \<and> sa_setShift t = ss \<and> sa_tagShift t = ss + sb \<and> sa_blkSize t = 2 ^ ss \<and>
     sa_blkMask t = mask ss \<and> sa_numSets t = 2 ^ sb \<and> sa_setMask t = mask sb \<and> 0 < sa_assoc t \<and>
     sa_sets t = link_sets (2 ^ sb) (unat (sa_assoc t)) \<and> 2 ^ sb * unat (sa_assoc t) \<le> length (sa_blks t) \<and>
     (\<forall>i < 2 ^ sb * unat (sa_assoc t). cb_set (sa_blk t i) = int (i div unat (sa_assoc t)) \<and>
        cb_way (sa_blk t i) = int (i mod unat (sa_assoc t)))"

definition linked :: "'d BaseSetAssoc \<Rightarrow> nat \<Rightarrow> bool" where
  "linked t i \<longleftrightarrow> i < unat (sa_numSets t) * unat (sa_assoc t)"

text \<open>The set index of an address.\<close>

definition set_index :: "Addr \<Rightarrow> 'd BaseSetAssoc \<Rightarrow> nat" where
  "set_index a t = unat (drop_bit (sa_setShift t) a AND ucast (sa_setMask t))"

lemma set_index_lt: "geometry_ok t ss sb \<Longrightarrow> set_index a t < 2 ^ sb"
proof -
  assume g: "geometry_ok t ss sb"
  then have "(ucast (sa_setMask t) :: u64) = mask sb" by (intro bit_word_eqI) (auto simp: geometry_ok_def bit_simps)
  then have "set_index a t = take_bit sb (unat (drop_bit ss a))"
    using g by (simp add: set_index_def geometry_ok_def take_bit_eq_mask [symmetric] unsigned_take_bit_eq)
  then show ?thesis by simp
qed

lemma set_index_word:
  assumes "geometry_ok t ss sb"
  shows "of_nat (set_index a t) = take_bit sb (drop_bit ss a)"
proof -
  have "(ucast (sa_setMask t) :: u64) = mask sb"
    using assms by (intro bit_word_eqI) (auto simp: geometry_ok_def bit_simps)
  then show ?thesis using assms by (simp add: set_index_def geometry_ok_def take_bit_eq_mask)
qed

lemma extractSet_index:
  assumes "geometry_ok t ss sb"
  shows "extractSet a t = int (set_index a t)"
proof -
  have lt: "set_index a t < 2 ^ sb" by (rule set_index_lt [OF assms])
  moreover have "(2 :: nat) ^ sb \<le> 2 ^ 31" using assms by (intro power_increasing) (auto simp: geometry_ok_def)
  ultimately have lt31: "set_index a t < 2 ^ 31" by linarith
  define x :: u32 where "x = ucast (drop_bit (sa_setShift t) a AND ucast (sa_setMask t))"
  have "unat x = set_index a t" using lt31 by (simp add: x_def set_index_def unsigned_ucast_eq take_bit_nat_eq_self_iff)
  then have "uint x = int (set_index a t)" by (metis of_nat_unat)
  then have "sint x = int (set_index a t)" using lt31 by (simp add: sint_uint signed_take_bit_int_eq_self)
  then show ?thesis by (simp add: extractSet_def x_def)
qed

section \<open>Invariant and lookup\<close>

definition same_line :: "CacheBlk \<Rightarrow> CacheBlk \<Rightarrow> bool" where
  "same_line b c \<longleftrightarrow> isValid b \<and> isValid c \<and> cb_set b = cb_set c \<and> cb_tag b = cb_tag c \<and> blk_isSecure b = blk_isSecure c"

definition sa_ok :: "'d BaseSetAssoc \<Rightarrow> bool" where
  "sa_ok t \<longleftrightarrow> (\<exists>ss sb. geometry_ok t ss sb) \<and>
     (\<forall>i. linked t i \<longrightarrow> isValid (sa_blk t i) \<longrightarrow> take_bit (64 - sa_tagShift t) (cb_tag (sa_blk t i)) = cb_tag (sa_blk t i)) \<and>
     (\<forall>i j. linked t i \<longrightarrow> linked t j \<longrightarrow> same_line (sa_blk t i) (sa_blk t j) \<longrightarrow> i = j)"

lemma sa_okE:
  assumes "sa_ok t"
  obtains ss sb where "geometry_ok t ss sb"
  using assms by (auto simp: sa_ok_def)

lemma sa_ok_unique: "sa_ok t \<Longrightarrow> linked t i \<Longrightarrow> linked t j \<Longrightarrow> same_line (sa_blk t i) (sa_blk t j) \<Longrightarrow> i = j"
  by (auto simp: sa_ok_def)

lemma geometry_sets:
  assumes "geometry_ok t ss sb"
  shows "unat (sa_numSets t) = 2 ^ sb"
  using assms unat_2p_word [of sb, where 'a = 32] by (simp add: geometry_ok_def)

text \<open>The blocks of the set of an address.\<close>

lemma locations_eq:
  assumes "sa_ok t"
  shows "getPossibleLocations a t = Ok (map (\<lambda>j. set_index a t * unat (sa_assoc t) + j) [0..<unat (sa_assoc t)])"
proof -
  obtain ss sb where g: "geometry_ok t ss sb" using assms by (rule sa_okE)
  have "sa_sets t = link_sets (2 ^ sb) (unat (sa_assoc t))" using g by (simp add: geometry_ok_def)
  then show ?thesis using set_index_lt [OF g] by (simp add: getPossibleLocations_def extractSet_index [OF g] link_sets_def)
qed

lemma in_locations:
  assumes "sa_ok t"
  shows "i \<in> set (map (\<lambda>j. set_index a t * unat (sa_assoc t) + j) [0..<unat (sa_assoc t)]) \<longleftrightarrow>
    linked t i \<and> cb_set (sa_blk t i) = int (set_index a t)"
proof -
  obtain ss sb where g: "geometry_ok t ss sb" using assms by (rule sa_okE)
  let ?w = "unat (sa_assoc t)" and ?q = "set_index a t"
  have w: "0 < ?w" using g by (simp add: geometry_ok_def word_gt_0 unat_gt_0)
  have q: "?q < 2 ^ sb" by (rule set_index_lt [OF g])
  have "i \<in> set (map (\<lambda>j. ?q * ?w + j) [0..<?w]) \<longleftrightarrow> i div ?w = ?q"
  proof
    assume "i div ?w = ?q"
    then have "i = ?q * ?w + i mod ?w" by (metis div_mult_mod_eq)
    moreover have "i mod ?w < ?w" using w by simp
    ultimately show "i \<in> set (map (\<lambda>j. ?q * ?w + j) [0..<?w])" by (auto simp: image_iff)
  next
    assume "i \<in> set (map (\<lambda>j. ?q * ?w + j) [0..<?w])"
    then have "?q * ?w \<le> i" "i - ?q * ?w < ?w" by auto
    moreover from this have "i = ?q * ?w + (i - ?q * ?w)" by simp
    ultimately show "i div ?w = ?q" using w by (metis div_less div_mult_self3 add.right_neutral not_gr_zero)
  qed
  moreover have "i div ?w = ?q \<Longrightarrow> i < 2 ^ sb * ?w" using q w by (metis div_less_iff_less_mult)
  moreover have "i < 2 ^ sb * ?w \<Longrightarrow> cb_set (sa_blk t i) = int (i div ?w)" using g by (simp add: geometry_ok_def)
  ultimately show ?thesis by (auto simp: linked_def geometry_sets [OF g])
qed

lemma findBlk_Some:
  assumes "\<And>i j. i \<in> set is \<Longrightarrow> j \<in> set is \<Longrightarrow> P i \<Longrightarrow> P j \<Longrightarrow> i = j"
    and "\<And>i. P i \<longleftrightarrow> cb_tag (blk i) = tag \<and> isValid (blk i) \<and> blk_isSecure (blk i) = sec"
  shows "fst (findBlk blk tag sec is) = Some i \<longleftrightarrow> i \<in> set is \<and> P i"
  using assms(1)
proof (induction "is")
  case (Cons k ks)
  show ?case
  proof (cases "P k")
    case True
    then show ?thesis using Cons.prems [of k i] assms(2) [of k] by auto
  next
    case False
    then show ?thesis using Cons assms(2) [of k] by auto
  qed
qed simp

text \<open>A block of the set of an address holds the address when its tag is that of the address.\<close>

lemma regenerate_align:
  assumes "sa_ok t" "linked t i" "isValid (sa_blk t i)"
  shows "sa_regenerateBlkAddr (sa_blk t i) t = blkAlign a t \<longleftrightarrow>
    cb_tag (sa_blk t i) = extractTag a t \<and> cb_set (sa_blk t i) = int (set_index a t)"
proof -
  obtain ss sb where g: "geometry_ok t ss sb" using assms(1) by (rule sa_okE)
  define q where "q = i div unat (sa_assoc t)"
  have i: "i < 2 ^ sb * unat (sa_assoc t)" using assms(2) by (simp add: linked_def geometry_sets [OF g])
  then have q: "cb_set (sa_blk t i) = int q" "q < 2 ^ sb"
    using g by (auto simp: geometry_ok_def q_def less_mult_imp_div_less)
  have small: "(2 :: nat) ^ sb < 2 ^ 64" using g by (intro power_strict_increasing) (auto simp: geometry_ok_def)
  have w: "(of_nat q :: u64) = take_bit sb (of_nat q)"
    using q(2) by (simp add: take_bit_of_nat take_bit_nat_eq_self flip: of_nat_eq_iff)
  have "q < 2 ^ LENGTH(64)" "set_index a t < 2 ^ LENGTH(64)"
    using q(2) set_index_lt [OF g, of a] small by (simp_all add: less_trans)
  then have inj: "(of_nat q = (of_nat (set_index a t) :: u64)) \<longleftrightarrow> q = set_index a t"
    by (metis unat_of_nat_small)
  have "sa_regenerateBlkAddr (sa_blk t i) t = blkAlign a t \<longleftrightarrow>
      cb_tag (sa_blk t i) = drop_bit (ss + sb) a \<and> (of_nat q :: u64) = take_bit sb (drop_bit ss a)"
    using regenerate_iff [of "ss + sb" ss sb "cb_tag (sa_blk t i)" "of_nat q" a] assms g w q(1)
    by (auto simp: sa_ok_def geometry_ok_def sa_regenerateBlkAddr_def blkAlign_def)
  also have "(of_nat q :: u64) = take_bit sb (drop_bit ss a) \<longleftrightarrow> q = set_index a t"
    using inj by (simp add: set_index_word [OF g])
  finally show ?thesis using g q(1) by (simp add: extractTag_def geometry_ok_def)
qed

text \<open>Block \<open>i\<close> holds the line of an address of the given security space.\<close>

definition holds :: "'d BaseSetAssoc \<Rightarrow> Addr \<Rightarrow> bool \<Rightarrow> nat \<Rightarrow> bool" where
  "holds t a s i \<longleftrightarrow> linked t i \<and> isValid (sa_blk t i) \<and> blk_isSecure (sa_blk t i) = s \<and>
     sa_regenerateBlkAddr (sa_blk t i) t = blkAlign a t"

lemma holds_unique: "sa_ok t \<Longrightarrow> holds t a s i \<Longrightarrow> holds t a s j \<Longrightarrow> i = j"
  by (rule sa_ok_unique) (auto simp: holds_def same_line_def regenerate_align)

lemma findBlock_Ok:
  assumes "sa_ok t"
  shows "\<exists>r. findBlock a s t = Ok r \<and> (\<forall>i. r = Some i \<longleftrightarrow> holds t a s i)"
proof -
  let ?L = "map (\<lambda>j. set_index a t * unat (sa_assoc t) + j) [0..<unat (sa_assoc t)]"
  let ?P = "\<lambda>i. cb_tag (sa_blk t i) = extractTag a t \<and> isValid (sa_blk t i) \<and> blk_isSecure (sa_blk t i) = s"
  have find: "findBlock a s t = Ok (fst (findBlk (sa_blk t) (extractTag a t) s ?L))"
    using locations_eq [OF assms, of a] by (simp add: findBlock_def getPossibleLocations_def)
  have iff: "i \<in> set ?L \<and> ?P i \<longleftrightarrow> holds t a s i" for i
    unfolding in_locations [OF assms] holds_def using regenerate_align [OF assms, of i a] by blast
  have "fst (findBlk (sa_blk t) (extractTag a t) s ?L) = Some i \<longleftrightarrow> i \<in> set ?L \<and> ?P i" for i
    by (rule findBlk_Some) (use iff holds_unique [OF assms] in blast, simp)
  then show ?thesis using find iff by simp
qed

section \<open>What the operations keep\<close>

lemma stats_frame [simp]:
  "sa_ok (t\<lparr>sa_repl := h\<rparr>) = sa_ok t" "sa_ok (t\<lparr>sa_tagsInUse := n\<rparr>) = sa_ok t" "sa_ok (t\<lparr>sa_tagAccesses := k\<rparr>) = sa_ok t"
  "sa_ok (t\<lparr>sa_dataAccesses := k\<rparr>) = sa_ok t" "sa_ok (t\<lparr>sa_occupancies := f\<rparr>) = sa_ok t" "sa_ok (t\<lparr>sa_warmedUp := w\<rparr>) = sa_ok t"
  "sa_ok (t\<lparr>sa_warmupCycle := c\<rparr>) = sa_ok t" "sa_ok (t\<lparr>sa_totalRefs := k\<rparr>) = sa_ok t" "sa_ok (t\<lparr>sa_sampledRefs := k\<rparr>) = sa_ok t"
  by (simp_all add: sa_ok_def geometry_ok_def linked_def sa_blk_def)

lemma holds_frame [simp]:
  "holds (t\<lparr>sa_repl := h\<rparr>) = holds t" "holds (t\<lparr>sa_tagsInUse := n\<rparr>) = holds t" "holds (t\<lparr>sa_tagAccesses := k\<rparr>) = holds t"
  "holds (t\<lparr>sa_dataAccesses := k\<rparr>) = holds t" "holds (t\<lparr>sa_occupancies := f\<rparr>) = holds t" "holds (t\<lparr>sa_warmedUp := w\<rparr>) = holds t"
  "holds (t\<lparr>sa_warmupCycle := c\<rparr>) = holds t" "holds (t\<lparr>sa_totalRefs := k\<rparr>) = holds t" "holds (t\<lparr>sa_sampledRefs := k\<rparr>) = holds t"
  by (simp_all add: fun_eq_iff holds_def linked_def sa_blk_def sa_regenerateBlkAddr_def blkAlign_def)

lemma linked_frame [simp]:
  "linked (t\<lparr>sa_repl := h\<rparr>) = linked t" "linked (t\<lparr>sa_tagsInUse := n\<rparr>) = linked t" "linked (t\<lparr>sa_tagAccesses := k\<rparr>) = linked t"
  "linked (t\<lparr>sa_dataAccesses := k\<rparr>) = linked t" "linked (t\<lparr>sa_occupancies := f\<rparr>) = linked t" "linked (t\<lparr>sa_warmedUp := w\<rparr>) = linked t"
  "linked (t\<lparr>sa_warmupCycle := c\<rparr>) = linked t" "linked (t\<lparr>sa_totalRefs := k\<rparr>) = linked t" "linked (t\<lparr>sa_sampledRefs := k\<rparr>) = linked t"
  "linked (set_blk i b t) = linked t"
  by (simp_all add: fun_eq_iff linked_def set_blk_def)

lemma sa_blk_frame [simp]:
  "sa_blk (t\<lparr>sa_repl := h\<rparr>) = sa_blk t" "sa_blk (t\<lparr>sa_tagsInUse := n\<rparr>) = sa_blk t" "sa_blk (t\<lparr>sa_tagAccesses := k\<rparr>) = sa_blk t"
  "sa_blk (t\<lparr>sa_dataAccesses := k\<rparr>) = sa_blk t" "sa_blk (t\<lparr>sa_occupancies := f\<rparr>) = sa_blk t" "sa_blk (t\<lparr>sa_warmedUp := w\<rparr>) = sa_blk t"
  "sa_blk (t\<lparr>sa_warmupCycle := c\<rparr>) = sa_blk t" "sa_blk (t\<lparr>sa_totalRefs := k\<rparr>) = sa_blk t" "sa_blk (t\<lparr>sa_sampledRefs := k\<rparr>) = sa_blk t"
  by (simp_all add: fun_eq_iff sa_blk_def)

lemma linked_length: "sa_ok t \<Longrightarrow> linked t i \<Longrightarrow> i < length (sa_blks t)"
  by (auto simp: sa_ok_def linked_def geometry_sets) (simp add: geometry_ok_def)

lemma sa_blk_set_blk: "sa_ok t \<Longrightarrow> linked t i \<Longrightarrow> sa_blk (set_blk i b t) j = (if j = i then b else sa_blk t j)"
  using linked_length [of t i] by (auto simp: sa_blk_def set_blk_def)

lemma holds_set_blk:
  assumes "sa_ok t" "linked t i"
  shows "holds (set_blk i b t) a s j \<longleftrightarrow>
    (if j = i then isValid b \<and> blk_isSecure b = s \<and> sa_regenerateBlkAddr b t = blkAlign a t else holds t a s j)"
  using assms by (simp add: holds_def sa_blk_set_blk) (simp add: set_blk_def sa_regenerateBlkAddr_def blkAlign_def)

lemma sa_ok_set_blk:
  assumes "sa_ok t" "linked t i" "cb_set b = cb_set (sa_blk t i)" "cb_way b = cb_way (sa_blk t i)"
    and "isValid b \<Longrightarrow> take_bit (64 - sa_tagShift t) (cb_tag b) = cb_tag b"
    and "\<And>j. isValid b \<Longrightarrow> linked t j \<Longrightarrow> j \<noteq> i \<Longrightarrow> \<not> same_line b (sa_blk t j)"
  shows "sa_ok (set_blk i b t)"
proof -
  obtain ss sb where g: "geometry_ok t ss sb" using assms(1) by (rule sa_okE)
  note blk = sa_blk_set_blk [OF assms(1,2)]
  have "geometry_ok (set_blk i b t) ss sb"
    using g assms(3,4) unfolding geometry_ok_def blk by (auto simp: set_blk_def)
  moreover have "\<forall>k. linked t k \<longrightarrow> isValid (sa_blk (set_blk i b t) k) \<longrightarrow>
      take_bit (64 - sa_tagShift t) (cb_tag (sa_blk (set_blk i b t) k)) = cb_tag (sa_blk (set_blk i b t) k)"
    using assms(1,5) unfolding blk by (auto simp: sa_ok_def)
  moreover have "j = k" if "linked t j" "linked t k" "same_line (sa_blk (set_blk i b t) j) (sa_blk (set_blk i b t) k)" for j k
  proof -
    have sym: "same_line x y \<longleftrightarrow> same_line y x" for x y by (auto simp: same_line_def)
    show ?thesis using that assms(6) [of j] assms(6) [of k] sa_ok_unique [OF assms(1), of j k] sym [of b]
      unfolding blk by (auto split: if_splits simp: same_line_def)
  qed
  ultimately show ?thesis by (auto simp: sa_ok_def) (simp_all add: set_blk_def)
qed

text \<open>An update of a block that changes neither its line nor its permissions.\<close>

lemma sa_ok_touch:
  assumes "sa_ok t" "linked t i" "cb_set b = cb_set (sa_blk t i)" "cb_way b = cb_way (sa_blk t i)"
    "cb_tag b = cb_tag (sa_blk t i)" "isValid b = isValid (sa_blk t i)" "blk_isSecure b = blk_isSecure (sa_blk t i)"
  shows "sa_ok (set_blk i b t)" "holds (set_blk i b t) = holds t"
proof -
  show "sa_ok (set_blk i b t)"
    using assms sa_ok_unique [OF assms(1,2)] by (intro sa_ok_set_blk) (auto simp: sa_ok_def same_line_def)
  show "holds (set_blk i b t) = holds t"
    using assms by (auto simp: fun_eq_iff holds_set_blk [OF assms(1,2)]) (auto simp: holds_def sa_regenerateBlkAddr_def)
qed

lemma invalidate_not_valid [simp]: "\<not> isValid (blk_invalidate b)"
  by (simp add: status_bits blk_invalidate_def)

definition same_shape :: "'d BaseSetAssoc \<Rightarrow> 'd BaseSetAssoc \<Rightarrow> bool" where
  "same_shape t t' \<longleftrightarrow> sa_setShift t' = sa_setShift t \<and> sa_tagShift t' = sa_tagShift t \<and> sa_setMask t' = sa_setMask t \<and>
     sa_blkMask t' = sa_blkMask t \<and> sa_blkSize t' = sa_blkSize t \<and> sa_assoc t' = sa_assoc t \<and> sa_numSets t' = sa_numSets t"

lemma same_shape_simps:
  assumes "same_shape t t'"
  shows "linked t' = linked t" "blkAlign a t' = blkAlign a t" "extractTag a t' = extractTag a t" "set_index a t' = set_index a t"
    "sa_regenerateBlkAddr b t' = sa_regenerateBlkAddr b t" "extractBlkOffset a t' = extractBlkOffset a t"
    "sa_blkSize t' = sa_blkSize t" "sa_assoc t' = sa_assoc t"
  using assms by (simp_all add: fun_eq_iff same_shape_def linked_def blkAlign_def extractTag_def set_index_def
      sa_regenerateBlkAddr_def extractBlkOffset_def)

lemma same_shape_refl [simp]: "same_shape t t"
  by (simp add: same_shape_def)

lemma same_shape_trans: "same_shape t t' \<Longrightarrow> same_shape t' t'' \<Longrightarrow> same_shape t t''"
  by (simp add: same_shape_def)

lemma same_shape_set_blk [simp]: "same_shape t (set_blk i b t)"
  by (simp add: same_shape_def set_blk_def)

lemma sa_invalidate_Ok:
  assumes "sa_ok t" "linked t i" "isValid (sa_blk t i)"
  shows "\<exists>t'. sa_invalidate rp i t = Ok t' \<and> sa_ok t' \<and> (\<forall>a s j. holds t' a s j \<longleftrightarrow> holds t a s j \<and> j \<noteq> i) \<and>
    same_shape t t' \<and> sa_repl t' = (sa_repl t)(i := rp_invalidate rp (sa_repl t i)) \<and>
    (\<forall>j. sa_blk t' j = (if j = i then blk_invalidate (sa_blk t i) else sa_blk t j))"
proof -
  define t0 where "t0 = set_blk i (blk_invalidate (sa_blk t i)) t"
  have ok: "sa_ok t0" unfolding t0_def by (rule sa_ok_set_blk [OF assms(1,2)]) (simp_all add: blk_invalidate_def status_bits)
  have comm: "set_blk i b (t\<lparr>sa_occupancies := x, sa_totalRefs := y, sa_sampledRefs := z\<rparr>) =
      (set_blk i b t)\<lparr>sa_occupancies := x, sa_totalRefs := y, sa_sampledRefs := z\<rparr>" for b x y z by (simp add: set_blk_def)
  have "holds t0 a s j \<longleftrightarrow> holds t a s j \<and> j \<noteq> i" for a s j by (simp add: t0_def holds_set_blk [OF assms(1,2)])
  moreover have "sa_blk t0 j = (if j = i then blk_invalidate (sa_blk t i) else sa_blk t j)" for j
    by (simp add: t0_def sa_blk_set_blk [OF assms(1,2)])
  moreover have "sa_repl t0 = sa_repl t" "same_shape t t0" by (simp_all add: t0_def) (simp add: set_blk_def)
  ultimately show ?thesis using assms(3) ok
    by (simp add: sa_invalidate_def tags_invalidate_def Let_def comm t0_def [symmetric]) (simp add: same_shape_def)
qed

lemma accessBlock_Ok:
  assumes "sa_ok t"
  shows "\<exists>r lat t'. accessBlock cyc rp now a s t = Ok (r, lat, t') \<and> findBlock a s t = Ok r \<and> sa_ok t' \<and> holds t' = holds t \<and>
    same_shape t t' \<and> sa_repl t' = (case r of None \<Rightarrow> sa_repl t | Some i \<Rightarrow> (sa_repl t)(i := rp_touch rp now (sa_repl t i))) \<and>
    (\<forall>j. sa_blk t' j = (if r = Some j then (sa_blk t j)\<lparr>cb_refCount := cb_refCount (sa_blk t j) + 1\<rparr> else sa_blk t j))"
proof -
  obtain r where r: "findBlock a s t = Ok r" "\<forall>i. r = Some i \<longleftrightarrow> holds t a s i" using findBlock_Ok [OF assms] by blast
  show ?thesis
  proof (cases r)
    case None
    then show ?thesis using r(1) assms by (simp add: accessBlock_def Let_def same_shape_def)
  next
    case (Some i)
    define b where "b = (sa_blk t i)\<lparr>cb_refCount := cb_refCount (sa_blk t i) + 1\<rparr>"
    have "holds t a s i" using r(2) Some by blast
    then have l: "linked t i" by (simp add: holds_def)
    have same: "sa_ok (set_blk i b t)" "holds (set_blk i b t) = holds t"
      using sa_ok_touch [OF assms l, of b] by (simp_all add: b_def status_bits)
    have comm: "set_blk i b (t\<lparr>sa_tagAccesses := x, sa_dataAccesses := y\<rparr>) = (set_blk i b t)\<lparr>sa_tagAccesses := x, sa_dataAccesses := y\<rparr>"
      for x y by (simp add: set_blk_def)
    show ?thesis using r(1) Some same sa_blk_set_blk [OF assms l, of b]
      by (simp add: accessBlock_def Let_def b_def [symmetric] comm) (simp add: b_def same_shape_def set_blk_def)
  qed
qed

lemma blk_insert_not_valid [simp]: "\<not> isValid (blk_insert now tag s m k b)"
  by (simp add: status_bits blk_insert_def blk_bit_defs bit_simps)

lemma insertBlock_Ok:
  assumes "sa_ok t" "linked t i" "\<not> isValid (sa_blk t i)" "pkt_getAddr pkt = Ok a" "pkt_isSecure pkt = Ok s"
    "rq_masterId (pk_req pkt) < mx"
  shows "\<exists>t'. insertBlock rp draw mx now pkt i t = Ok t' \<and> sa_ok t' \<and> holds t' = holds t \<and> same_shape t t' \<and>
    sa_repl t' = (sa_repl t)(i := rp_reset rp now draw (sa_repl t i)) \<and>
    (\<forall>j. sa_blk t' j = (if j = i then blk_insert now (extractTag a t) s (int (unat (rq_masterId (pk_req pkt))))
       (rq_taskId (pk_req pkt)) (sa_blk t i) else sa_blk t j))"
proof -
  define m where "m = uint (rq_masterId (pk_req pkt))"
  define b where "b = blk_insert now (extractTag a t) s m (rq_taskId (pk_req pkt)) (sa_blk t i)"
  define t0 where "t0 = set_blk i b t"
  have nv: "\<not> isValid b" by (simp add: b_def)
  have ok: "sa_ok t0" unfolding t0_def by (rule sa_ok_set_blk [OF assms(1,2)]) (use nv in \<open>simp_all add: b_def blk_insert_def\<close>)
  have comm: "set_blk i b (t\<lparr>sa_occupancies := x\<rparr>) = t0\<lparr>sa_occupancies := x\<rparr>" for x by (simp add: set_blk_def t0_def)
  have h: "holds t0 = holds t" using nv assms(3) by (auto simp: fun_eq_iff t0_def holds_set_blk [OF assms(1,2)]) (auto simp: holds_def)
  have blk: "sa_blk t0 j = (if j = i then b else sa_blk t j)" for j by (simp add: t0_def sa_blk_set_blk [OF assms(1,2)])
  have repl: "sa_repl t0 = sa_repl t" by (simp add: t0_def set_blk_def)
  have shape: "same_shape t t0" by (simp add: t0_def)
  have tag: "extractTag a (t\<lparr>sa_occupancies := x\<rparr>) = extractTag a t" for x by (simp add: extractTag_def)
  show ?thesis using assms(3-6) ok shape
    by (simp add: insertBlock_def tags_insertBlock_def Let_def tag m_def [symmetric] b_def [symmetric] comm h blk repl same_shape_def)
qed

text \<open>Making a block valid that was inserted for an address no block holds.\<close>

lemma activate_Ok:
  assumes "sa_ok t" "linked t i" "\<not> isValid (sa_blk t i)" "cb_set (sa_blk t i) = int (set_index a t)"
    "cb_tag (sa_blk t i) = extractTag a t" "\<not> (\<exists>j. holds t a s j)"
    "cb_set b = cb_set (sa_blk t i)" "cb_way b = cb_way (sa_blk t i)" "cb_tag b = cb_tag (sa_blk t i)" "isValid b" "blk_isSecure b = s"
  shows "sa_ok (set_blk i b t)"
    "holds (set_blk i b t) x s' j \<longleftrightarrow> (if j = i then s' = s \<and> blkAlign x t = blkAlign a t else holds t x s' j)"
proof -
  obtain ss sb where g: "geometry_ok t ss sb" using assms(1) by (rule sa_okE)
  have fits: "take_bit (64 - sa_tagShift t) (cb_tag b) = cb_tag b"
    using assms(5,9) by (intro bit_word_eqI) (auto simp: bit_simps extractTag_def dest: bit_imp_le_length)
  show ok: "sa_ok (set_blk i b t)"
  proof (rule sa_ok_set_blk [OF assms(1,2) assms(7,8)])
    fix j assume j: "linked t j" "j \<noteq> i"
    show "\<not> same_line b (sa_blk t j)"
    proof
      assume "same_line b (sa_blk t j)"
      then have "holds t a s j" using assms(4,5,7,9,11) regenerate_align [OF assms(1) j(1), of a] j(1)
        by (simp add: same_line_def holds_def)
      then show False using assms(6) by blast
    qed
  qed (rule fits)
  have i: "linked (set_blk i b t) i" "isValid (sa_blk (set_blk i b t) i)" using assms(2,10) sa_blk_set_blk [OF assms(1,2)] by simp_all
  have "sa_regenerateBlkAddr b t = blkAlign a t"
    using regenerate_align [OF ok i, of a] assms(4,5,7,9) sa_blk_set_blk [OF assms(1,2), of b i]
    by (simp add: same_shape_simps [OF same_shape_set_blk])
  then show "holds (set_blk i b t) x s' j \<longleftrightarrow> (if j = i then s' = s \<and> blkAlign x t = blkAlign a t else holds t x s' j)"
    using assms(10,11) by (auto simp: holds_set_blk [OF assms(1,2)])
qed

section \<open>A new tag store\<close>

lemma floorLog2_32_power: "n < 32 \<Longrightarrow> floorLog2_32 (2 ^ n) = Ok n"
proof -
  assume n: "n < 32"
  have u: "unat (2 ^ n :: u32) = 2 ^ n" using n by (simp add: unat_2p_word)
  then have "0 < (2 ^ n :: u32)" by (simp add: word_less_nat_alt)
  from floorLog2_32_msb [OF this] obtain y where y: "floorLog2_32 (2 ^ n) = Ok y" "drop_bit y (2 ^ n :: u32) = 1" by blast
  have d: "(2 :: nat) ^ n div 2 ^ y = 1"
    using arg_cong [where f = unat, OF y(2)] unfolding unat_drop_bit_eq by (simp add: drop_bit_eq_div u)
  then have "(2 :: nat) ^ y \<le> 2 ^ n" by (metis div_less not_less zero_neq_one)
  then have "y \<le> n" by simp
  then have "(2 :: nat) ^ (n - y) = 1" using d by (simp add: power_diff)
  then have "y = n" using \<open>y \<le> n\<close> by simp
  with y(1) show ?thesis by simp
qed

lemma isPowerOf2_u32: "isPowerOf2 (ucast (x :: u32)) \<Longrightarrow> \<exists>k<32. x = 2 ^ k"
proof -
  assume "isPowerOf2 (ucast x)"
  then obtain k where k: "k < 64" "(ucast x :: u64) = 2 ^ k" by (auto simp: isPowerOf2_iff)
  have u: "unat x = 2 ^ k" using arg_cong [OF k(2), of unat] k(1) by (simp add: unat_2p_u64)
  have "(2 :: nat) ^ k < 2 ^ 32" using unat_less_u32 [of x] unfolding u .
  then have "k < 32" by (rule power_less_imp_less_exp [rotated]) simp
  moreover from this have "unat x = unat (2 ^ k :: u32)" using u by (simp add: unat_2p_word)
  then have "x = 2 ^ k" by (simp only: word_unat_eq_iff)
  ultimately show ?thesis by blast
qed

lemma div_blocks: "(n :: nat) div (b * a) * a \<le> n div b"
  by (metis div_mult2_eq div_times_less_eq_dividend)

lemma divR_unat:
  assumes "divR x d = Ok q" "0 < d" "d < 2 ^ 31"
  shows "unat q = unat x div nat d"
proof -
  have "uint (word_of_int d :: u64) = d" using assms(2,3) by (simp add: uint_word_of_int)
  then have "unat (word_of_int d :: u64) = nat d" by (metis unat_eq_nat_uint)
  then show ?thesis using assms(1) by (auto simp: divR_def unat_div split: if_splits)
qed

lemma new_block_count:
  assumes "0 < bs" "0 < w" "divR sz bs = Ok nblks" "intR (bs * w) = Ok setsz" "divR sz setsz = Ok nsets"
    "numSets = (ucast nsets :: u32)" "assoc = (word_of_int w :: u32)"
  shows "unat numSets * unat assoc \<le> unat nblks"
proof -
  have prod: "bs * w < 2 ^ 31" "setsz = bs * w" using assms(4) by (auto simp: intR_Ok_iff)
  have "bs \<le> bs * w" "w \<le> bs * w" using assms(1,2) by (simp_all add: mult_le_cancel_left1 mult_le_cancel_right1)
  then have small: "bs < 2 ^ 31" "w < 2 ^ 31" using prod(1) by linarith+
  have "uint assoc = w" using assms(2,7) small by (simp add: uint_word_of_int)
  then have "unat assoc = nat w" by (metis unat_eq_nat_uint)
  moreover have "unat numSets \<le> unat nsets" by (simp add: assms(6) unsigned_ucast_eq take_bit_eq_mod)
  moreover have "unat nsets = unat sz div (nat bs * nat w)" "unat nblks = unat sz div nat bs"
    using divR_unat [OF assms(5)] divR_unat [OF assms(3)] prod small assms(1,2) by (simp_all add: nat_mult_distrib)
  ultimately show ?thesis using div_blocks [of "unat sz" "nat bs" "nat w"] by (metis le_trans mult_le_mono1)
qed

lemma ucast_2p_minus_1: "n < 32 \<Longrightarrow> (ucast (2 ^ n - 1 :: u32) :: u64) = 2 ^ n - 1"
  unfolding mask_eq_exp_minus_1 [symmetric] by (rule bit_word_eqI) (auto simp: bit_simps)

lemma new_BaseSetAssoc_ok:
  assumes "new_BaseSetAssoc rp junk p = Ok t" "0 < sp_block_size p" "0 < sp_assoc p"
  shows "sa_ok t" "\<forall>i. linked t i \<longrightarrow> \<not> isValid (sa_blk t i)" "sa_repl t = (\<lambda>_. rp_instantiateEntry rp)"
proof -
  from assms(1) obtain nblks setsz nsets where
    d: "divR (sp_size p) (sp_block_size p) = Ok nblks" "intR (sp_block_size p * sp_assoc p) = Ok setsz"
      "divR (sp_size p) setsz = Ok nsets" unfolding new_BaseSetAssoc_def by (auto simp: bindR_Ok_iff)
  define blkSize :: u32 where "blkSize = word_of_int (sp_block_size p)"
  define assoc :: u32 where "assoc = word_of_int (sp_assoc p)"
  define numSets :: u32 where "numSets = ucast nsets"
  note e = assms(1) [unfolded new_BaseSetAssoc_def d bindR.simps Let_def, folded blkSize_def assoc_def numSets_def]
  from e obtain ss sb where sh: "ss < 32" "blkSize = 2 ^ ss" "sb < 32" "numSets = 2 ^ sb"
    using isPowerOf2_u32 [of blkSize] isPowerOf2_u32 [of numSets] by (auto split: if_splits)
  have t: "t = \<lparr>sa_blkSize = blkSize, sa_blkMask = ucast (blkSize - 1), sa_size = ucast (sp_size p),
      sa_lookupLatency = sp_tag_latency p,
      sa_accessLatency = (if sp_sequential_access p then sp_tag_latency p + sp_data_latency p
                          else max (sp_tag_latency p) (sp_data_latency p)),
      sa_warmupBound = sp_warmupBound p, sa_warmedUp = False, sa_numBlocks = ucast nblks, sa_tagsInUse = 0,
      sa_totalRefs = 0, sa_sampledRefs = 0, sa_warmupCycle = 0, sa_occupancies = (\<lambda>_. 0),
      sa_occupanciesTaskId = (\<lambda>_. 0), sa_ageTaskId = (\<lambda>_ _. 0), sa_tagAccesses = 0, sa_dataAccesses = 0,
      sa_assoc = assoc, sa_allocAssoc = assoc,
      sa_blks = map (\<lambda>k. if k < unat numSets * unat assoc then link_block junk blkSize (unat assoc) k
                         else new_CacheBlk 0 0) [0..<unat nblks],
      sa_numSets = numSets, sa_sequentialAccess = sp_sequential_access p, sa_sets = link_sets (unat numSets) (unat assoc),
      sa_setShift = ss, sa_tagShift = ss + sb, sa_setMask = numSets - 1, sa_repl = (\<lambda>_. rp_instantiateEntry rp)\<rparr>"
    and apos: "0 < assoc"
    using e sh by (auto simp: floorLog2_32_power word_gt_0 split: if_splits)
  have "unat numSets * unat assoc \<le> unat nblks" by (rule new_block_count [OF assms(2,3) d numSets_def assoc_def])
  then have blk: "sa_blk t i = link_block junk blkSize (unat assoc) i" if "i < unat numSets * unat assoc" for i
    using that by (simp add: t sa_blk_def)
  have inv: "\<not> isValid (link_block junk n m k)" "cb_set (link_block junk n m k) = int (k div m)"
    "cb_way (link_block junk n m k) = int (k mod m)" for n m k
    by (simp_all add: link_block_def new_CacheBlk_def blk_invalidate_def status_bits)
  have n: "unat numSets = 2 ^ sb" using sh(3,4) unat_2p_word [of sb, where 'a = 32] by simp
  have flds: "sa_setShift t = ss" "sa_tagShift t = ss + sb" "sa_blkSize t = 2 ^ ss" "sa_blkMask t = mask ss" "sa_numSets t = 2 ^ sb"
    "sa_setMask t = mask sb" "sa_assoc t = assoc" "sa_sets t = link_sets (2 ^ sb) (unat assoc)" "length (sa_blks t) = unat nblks"
    using sh n by (simp_all add: t mask_eq_exp_minus_1 ucast_2p_minus_1)
  have pos: "cb_set (sa_blk t i) = int (i div unat assoc)" "cb_way (sa_blk t i) = int (i mod unat assoc)" "\<not> isValid (sa_blk t i)"
    if "i < 2 ^ sb * unat assoc" for i using blk [of i] that by (simp_all add: inv n)
  have "geometry_ok t ss sb"
    using sh(1,3) apos \<open>unat numSets * unat assoc \<le> unat nblks\<close> [unfolded n] pos by (simp add: geometry_ok_def flds)
  moreover show "\<forall>i. linked t i \<longrightarrow> \<not> isValid (sa_blk t i)"
    using pos sh(3) by (simp add: linked_def flds unat_2p_word)
  ultimately show "sa_ok t" by (auto simp: sa_ok_def same_line_def)
  show "sa_repl t = (\<lambda>_. rp_instantiateEntry rp)" by (simp add: t)
qed

lemma new_blocks:
  assumes "new_BaseSetAssoc rp junk p = Ok t" "0 < sp_block_size p" "0 < sp_assoc p"
  shows "sa_blkSize t = word_of_int (sp_block_size p)"
    "\<forall>i. linked t i \<longrightarrow> (\<exists>d. cb_data (sa_blk t i) = Some d \<and> length d = unat (sa_blkSize t)) \<and> cb_lockList (sa_blk t i) = []"
proof -
  from assms(1) obtain nblks setsz nsets where
    d: "divR (sp_size p) (sp_block_size p) = Ok nblks" "intR (sp_block_size p * sp_assoc p) = Ok setsz"
      "divR (sp_size p) setsz = Ok nsets" unfolding new_BaseSetAssoc_def by (auto simp: bindR_Ok_iff)
  define blkSize :: u32 where "blkSize = word_of_int (sp_block_size p)"
  define assoc :: u32 where "assoc = word_of_int (sp_assoc p)"
  define numSets :: u32 where "numSets = ucast nsets"
  have f: "sa_blkSize t = blkSize" "sa_numSets t = numSets" "sa_assoc t = assoc"
    "sa_blks t = map (\<lambda>k. if k < unat numSets * unat assoc then link_block junk blkSize (unat assoc) k
                         else new_CacheBlk 0 0) [0..<unat nblks]"
    using assms(1) d unfolding new_BaseSetAssoc_def blkSize_def assoc_def numSets_def
    by (auto simp: bindR_Ok_iff Let_def split: if_splits)
  have "unat numSets * unat assoc \<le> unat nblks" by (rule new_block_count [OF assms(2,3) d numSets_def assoc_def])
  then have "sa_blk t i = link_block junk blkSize (unat assoc) i" if "linked t i" for i
    using that by (simp add: sa_blk_def linked_def f)
  then show "\<forall>i. linked t i \<longrightarrow> (\<exists>d. cb_data (sa_blk t i) = Some d \<and> length d = unat (sa_blkSize t)) \<and> cb_lockList (sa_blk t i) = []"
    by (simp add: f(1) link_block_def new_CacheBlk_def blk_invalidate_def)
  show "sa_blkSize t = word_of_int (sp_block_size p)" by (simp add: f blkSize_def)
qed

section \<open>The data array\<close>






section \<open>Sets as recency lists\<close>

lemma shift_until_Ok: "x \<in> set xs \<Longrightarrow> shift_until x y xs = Ok (y # remove1 x xs)"
  by (induction xs arbitrary: y) auto

lemma shift_until_Error: "x \<notin> set xs \<Longrightarrow> shift_until x y xs = Error AssertFail"
  by (induction xs arbitrary: y) auto

lemma moveToHead_eq: "x \<in> set xs \<Longrightarrow> moveToHead x xs = Ok (x # remove1 x xs)"
  by (cases xs) (auto simp: moveToHead_def shift_until_Ok)

lemma moveToTail_eq:
  assumes "x \<in> set xs" "distinct xs"
  shows "moveToTail x xs = Ok (remove1 x xs @ [x])"
proof -
  from assms(1) have ne: "xs \<noteq> []" by auto
  have l: "int (length xs) - 1 = int (length xs - 1)" using ne by (simp add: of_nat_diff Suc_leI)
  have get: "arr_get xs (int (length xs) - 1) = Ok (last xs)" unfolding l using ne by (simp add: last_conv_nth)
  have e: "xs = butlast xs @ [last xs]" using ne by simp
  show ?thesis
  proof (cases "last xs = x")
    case True
    then have "remove1 x xs = butlast xs" using assms(2) e by (metis distinct_append not_distinct_conv_prefix remove1_append
      remove1.simps(2) append_Nil2 distinct.simps(2) list.set_intros(1) disjoint_iff)
    then show ?thesis using get True e by (simp add: moveToTail_def)
  next
    case False
    have "rev (remove1 x (rev xs)) = remove1 x xs" using assms(2) by (simp add: distinct_remove1_removeAll removeAll_filter_not_eq rev_filter)
    then show ?thesis using get False assms(1) by (simp add: moveToTail_def shift_until_Ok)
  qed
qed

section \<open>Replacement\<close>

text \<open>The replacement data of the blocks is well-formed and marks as vacant exactly the invalid blocks.\<close>

definition repl_ok :: "('d \<Rightarrow> bool) \<Rightarrow> ('d \<Rightarrow> bool) \<Rightarrow> 'd BaseSetAssoc \<Rightarrow> bool" where
  "repl_ok ok vacant t \<longleftrightarrow> (\<forall>i. linked t i \<longrightarrow> ok (sa_repl t i) \<and> (vacant (sa_repl t i) \<longleftrightarrow> \<not> isValid (sa_blk t i)))"

lemma distinct_locations: "distinct (map (\<lambda>j. q * w + j) [0..<w :: nat])"
  by (simp add: distinct_map inj_on_def)

context replacement_policy
begin

lemma findVictim_Ok:
  assumes "sa_ok t" "unat draw < unat (sa_assoc t)"
  shows "\<exists>v h. findVictim rp now draw a t = Ok (v, [v], t\<lparr>sa_repl := h\<rparr>) \<and> linked t v \<and>
    cb_set (sa_blk t v) = int (set_index a t) \<and>
    rp_getVictim rp now draw (map (\<lambda>j. set_index a t * unat (sa_assoc t) + j) [0..<unat (sa_assoc t)]) (sa_repl t) = Ok (v, h)"
proof -
  let ?L = "map (\<lambda>j. set_index a t * unat (sa_assoc t) + j) [0..<unat (sa_assoc t)]"
  have "unat draw < length ?L" using assms(2) by simp
  from victim_total [OF this] obtain v h where v: "rp_getVictim rp now draw ?L (sa_repl t) = Ok (v, h)" by blast
  have "v \<in> set ?L" by (rule victim_in [OF v])
  then show ?thesis using v locations_eq [OF assms(1), of a] unfolding in_locations [OF assms(1)] by (auto simp: findVictim_def)
qed

end

context occupying_policy
begin

lemma findVictim_room:
  assumes "sa_ok t" "repl_ok ok vacant t" "unat draw < unat (sa_assoc t)" "now \<noteq> 0"
  shows "\<exists>v t'. findVictim rp now draw a t = Ok (v, [v], t') \<and> sa_ok t' \<and> holds t' = holds t \<and> same_shape t t' \<and>
    sa_blk t' = sa_blk t \<and> repl_ok ok vacant t' \<and> linked t v \<and> cb_set (sa_blk t v) = int (set_index a t) \<and>
    (isValid (sa_blk t v) \<longrightarrow> (\<forall>i. linked t i \<longrightarrow> cb_set (sa_blk t i) = int (set_index a t) \<longrightarrow> isValid (sa_blk t i)))"
proof -
  let ?L = "map (\<lambda>j. set_index a t * unat (sa_assoc t) + j) [0..<unat (sa_assoc t)]"
  obtain v h where v: "findVictim rp now draw a t = Ok (v, [v], t\<lparr>sa_repl := h\<rparr>)" "linked t v"
    "cb_set (sa_blk t v) = int (set_index a t)" "rp_getVictim rp now draw ?L (sa_repl t) = Ok (v, h)"
    using findVictim_Ok [OF assms(1,3)] by blast
  have L: "i \<in> set ?L \<longleftrightarrow> linked t i \<and> cb_set (sa_blk t i) = int (set_index a t)" for i by (rule in_locations [OF assms(1)])
  have ok: "\<forall>c\<in>set ?L. ok (sa_repl t c)" using assms(2) L by (auto simp: repl_ok_def simp del: set_map)
  have "repl_ok ok vacant (t\<lparr>sa_repl := h\<rparr>)"
    unfolding repl_ok_def
  proof (intro allI impI)
    fix i assume "linked (t\<lparr>sa_repl := h\<rparr>) i"
    then have i: "ok (sa_repl t i)" "vacant (sa_repl t i) \<longleftrightarrow> \<not> isValid (sa_blk t i)" using assms(2) by (auto simp: repl_ok_def)
    have "ok (h i) \<and> (vacant (h i) \<longleftrightarrow> vacant (sa_repl t i))"
    proof (cases "i \<in> set ?L")
      case True
      then show ?thesis
        using victim_ok [OF v(4) distinct_locations ok True] victim_keeps_vacant [OF v(4) ok True]
          victim_occupies [OF v(4) assms(4) distinct_locations ok True] by blast
    next
      case False
      with victim_frame [OF v(4)] i(1) show ?thesis by simp
    qed
    with i(2) show "ok (sa_repl (t\<lparr>sa_repl := h\<rparr>) i) \<and> (vacant (sa_repl (t\<lparr>sa_repl := h\<rparr>) i) \<longleftrightarrow> \<not> isValid (sa_blk (t\<lparr>sa_repl := h\<rparr>) i))"
      by simp
  qed
  moreover have "isValid (sa_blk t i)" if "isValid (sa_blk t v)" "linked t i" "cb_set (sa_blk t i) = int (set_index a t)" for i
    using victim_vacant [OF v(4) ok, of i] that v(2) assms(2) L [of i] by (auto simp: repl_ok_def)
  ultimately show ?thesis using v assms(1) by (auto simp: same_shape_def)
qed

end

section \<open>Properties\<close>

text \<open>C22: a new tag store is empty and well-formed, and in a well-formed tag store the lookup of an address, which compares the tags
  of one set, finds a block exactly when a valid block of the right security space holds the line of the address; that
  block is unique, and the address regenerated from its tag and set is the aligned address.\<close>

theorem findBlock_spec:
  assumes "new_BaseSetAssoc rp junk p = Ok t0" "0 < sp_block_size p" "0 < sp_assoc p" "sa_ok t"
  shows "sa_ok t0 \<and> findBlock a s t0 = Ok None \<and>
    (\<exists>r. findBlock a s t = Ok r \<and>
      (\<forall>i. r = Some i \<longleftrightarrow> linked t i \<and> isValid (sa_blk t i) \<and> blk_isSecure (sa_blk t i) = s \<and>
         sa_regenerateBlkAddr (sa_blk t i) t = blkAlign a t))"
proof -
  note n = new_BaseSetAssoc_ok [OF assms(1-3)]
  obtain r0 where "findBlock a s t0 = Ok r0" "\<forall>i. r0 = Some i \<longleftrightarrow> holds t0 a s i" using findBlock_Ok [OF n(1)] by blast
  then have "findBlock a s t0 = Ok None" using n(2) by (cases r0) (auto simp: holds_def)
  then show ?thesis using n(1) findBlock_Ok [OF assms(4), of a s] by (simp add: holds_def)
qed

definition small_tags_params :: BaseSetAssocParams where
  "small_tags_params = \<lparr>sp_size = 64, sp_block_size = 4, sp_assoc = 2, sp_tag_latency = 2, sp_data_latency = 2,
     sp_sequential_access = False, sp_warmupBound = 0\<rparr>"

lemma small_tags: "\<exists>t. new_BaseSetAssoc LRURP (\<lambda>_. 0) small_tags_params = Ok t \<and> sa_assoc t = 2"
proof -
  have "isPowerOf2 (2 ^ 2)" "isPowerOf2 (2 ^ 3)" unfolding isPowerOf2_iff by (intro exI [of _ 2], simp, intro exI [of _ 3], simp)
  moreover have "floorLog2_32 4 = Ok 2" "floorLog2_32 8 = Ok 3" using floorLog2_32_power [of 2] floorLog2_32_power [of 3] by simp_all
  ultimately show ?thesis by (simp add: new_BaseSetAssoc_def small_tags_params_def divR_def Let_def)
qed

theorem findBlock_spec_witness:
  "\<exists>t r. new_BaseSetAssoc LRURP (\<lambda>_. 0) small_tags_params = Ok t \<and> findBlock 0x1234 False t = Ok r \<and> r = None"
proof -
  obtain t where t: "new_BaseSetAssoc LRURP (\<lambda>_. 0) small_tags_params = Ok t" using small_tags by blast
  have p: "0 < sp_block_size small_tags_params" "0 < sp_assoc small_tags_params" by (simp_all add: small_tags_params_def)
  from findBlock_spec [OF t p new_BaseSetAssoc_ok(1) [OF t p], where a = "0x1234" and s = False] t show ?thesis by blast
qed



text \<open>C23: with a policy that keeps the contract, a victim is always found in the set of the address, the lookups are left as they
  were, and a valid block is only chosen when every block of the set is valid: nothing is evicted while there is room. The simulated time is not 0, the time of an
  invalid block, and the drawn number, which a random policy uses, is below the associativity.\<close>

theorem evict_only_when_full:
  assumes "occupying_policy rp ok vacant" "sa_ok t" "repl_ok ok vacant t" "unat draw < unat (sa_assoc t)" "now \<noteq> 0"
  shows "\<exists>v t'. findVictim rp now draw a t = Ok (v, [v], t') \<and> sa_ok t' \<and> repl_ok ok vacant t' \<and>
    (\<forall>b s. findBlock b s t' = findBlock b s t) \<and> linked t v \<and> cb_set (sa_blk t v) = extractSet a t \<and>
    (isValid (sa_blk t v) \<longrightarrow> (\<forall>i. linked t i \<longrightarrow> cb_set (sa_blk t i) = extractSet a t \<longrightarrow> isValid (sa_blk t i)))"
proof -
  obtain ss sb where g: "geometry_ok t ss sb" using assms(2) by (rule sa_okE)
  obtain v t' where v: "findVictim rp now draw a t = Ok (v, [v], t')" "sa_ok t'" "holds t' = holds t" "repl_ok ok vacant t'"
    "linked t v" "cb_set (sa_blk t v) = int (set_index a t)"
    "isValid (sa_blk t v) \<longrightarrow> (\<forall>i. linked t i \<longrightarrow> cb_set (sa_blk t i) = int (set_index a t) \<longrightarrow> isValid (sa_blk t i))"
    using occupying_policy.findVictim_room [OF assms] by blast
  have "findBlock b s t' = findBlock b s t" for b s
    using findBlock_Ok [OF v(2), of b s] findBlock_Ok [OF assms(2), of b s] v(3) by (metis option.exhaust)
  then show ?thesis using v by (auto simp: extractSet_index [OF g])
qed

theorem evict_only_when_full_witness:
  "\<exists>t v t'. new_BaseSetAssoc LRURP (\<lambda>_. 0) small_tags_params = Ok t \<and> findVictim LRURP 5 0 0x1234 t = Ok (v, [v], t') \<and> linked t v"
proof -
  obtain t where t: "new_BaseSetAssoc LRURP (\<lambda>_. 0) small_tags_params = Ok t" "sa_assoc t = 2" using small_tags by blast
  have p: "0 < sp_block_size small_tags_params" "0 < sp_assoc small_tags_params" by (simp_all add: small_tags_params_def)
  note n = new_BaseSetAssoc_ok [OF t(1) p]
  have "repl_ok (\<lambda>_. True) (\<lambda>d. lru_lastTouchTick d = 0) t" using n(2,3) by (simp add: repl_ok_def lru_defs)
  from evict_only_when_full [OF lru.occupying_policy_axioms n(1) this, where draw = 0 and now = 5 and a = "0x1234"] t show ?thesis by auto
qed

text \<open>The allocation limit has no effect on the choice of a victim: every way of the set stays a candidate.\<close>

lemma way_limit_ignored:
  "setWayAllocationMax n t = Ok t' \<Longrightarrow> getPossibleLocations a t' = getPossibleLocations a t"
  by (auto simp: setWayAllocationMax_def getPossibleLocations_def extractSet_def split: if_splits)

end
