(* ===== verification/Base_Cache.thy ===== *)
theory Base_Cache
  imports Set_Assoc Abstract_Mem
begin

text \<open>
  The cache in atomic mode: \<^verbatim>\<open>mem/cache/base.hh\<close>, \<^verbatim>\<open>mem/cache/base.cc\<close> and \<^verbatim>\<open>mem/cache/noncoherent_cache.cc\<close>, over the set
  associative tags. A pointer to a block is a block of the tags or the temporary block. The memory side port is a function
  that answers a packet and changes the state of what lies below. The write buffer is the list of its entries. The MSHR queue
  and the queues of the ports belong to the timing mode: whether an MSHR matches an address, and what the queues answer to a
  functional access, are arguments.
  The virtual methods that \<^verbatim>\<open>BaseCache\<close> calls and \<^verbatim>\<open>NoncoherentCache\<close> overrides are arguments of its operations.
\<close>

section \<open>State\<close>

datatype blkptr = TagBlk nat | TempBlk

record WriteQueueEntry =
  we_blkAddr :: Addr
  we_isSecure :: bool
  we_uncacheable :: bool
  we_targets :: "Packet list"

record 'd BaseCache =
  bc_tags :: "'d BaseSetAssoc"
  bc_policy :: "'d BaseReplacementPolicy"
  bc_tempBlock :: TempCacheBlk
  bc_tempBlockWriteback :: "Packet option"
  bc_tempEvent :: bool
  bc_writebackClean :: bool
  bc_blkSize :: u32
  bc_lookupLatency :: u64
  bc_fillLatency :: u64
  bc_mostly_incl :: bool
  bc_isReadOnly :: bool
  bc_writeBuffer :: "WriteQueueEntry list"
  bc_writeBuffers :: int
  bc_blockedNoWBBuffers :: bool
  bc_missCount :: nat
  bc_exit :: bool
  bc_hits :: "Command \<Rightarrow> u16 \<Rightarrow> nat"
  bc_misses :: "Command \<Rightarrow> u16 \<Rightarrow> nat"
  bc_replacements :: nat
  bc_unusedPrefetches :: nat
  bc_writebacks :: "u16 \<Rightarrow> nat"

text \<open>What the cache reads from its surroundings during an access.\<close>

record cache_env =
  ce_curTick :: Tick
  ce_clockEdge :: "u64 \<Rightarrow> Tick"
  ce_clockPeriod :: Tick
  ce_ticksToCycles :: "Tick \<Rightarrow> u64"
  ce_victimDraw :: u32
  ce_resetDraw :: u32
  ce_pktId :: u64
  ce_maxMasters :: u16
  ce_mshr :: "Addr \<Rightarrow> bool \<Rightarrow> bool"
  ce_mshrNeedsWritable :: "Addr \<Rightarrow> bool \<Rightarrow> bool"
  ce_mshrCleaning :: "Addr \<Rightarrow> bool \<Rightarrow> bool"
  ce_pendingModified :: "Addr \<Rightarrow> bool \<Rightarrow> bool"
  ce_queues :: "Packet \<Rightarrow> (bool \<times> Packet) result"
  ce_amo :: "nat \<Rightarrow> u8 list \<Rightarrow> u8 list"

record BaseCacheParams =
  cp_writeback_clean :: bool
  cp_tag_latency :: u64
  cp_data_latency :: u64
  cp_mostly_incl :: bool
  cp_is_read_only :: bool
  cp_write_buffers :: int
  cp_max_miss_count :: nat

definition new_BaseCache ::
  "(nat \<Rightarrow> u8) \<Rightarrow> 'd BaseSetAssoc \<Rightarrow> 'd BaseReplacementPolicy \<Rightarrow> BaseCacheParams \<Rightarrow> u32 \<Rightarrow> 'd BaseCache" where
  "new_BaseCache junk tags policy p blk_size =
     \<lparr>bc_tags = tags, bc_policy = policy, bc_tempBlock = new_TempCacheBlk junk blk_size, bc_tempBlockWriteback = None, bc_tempEvent = False,
      bc_writebackClean = cp_writeback_clean p, bc_blkSize = blk_size, bc_lookupLatency = cp_tag_latency p,
      bc_fillLatency = cp_data_latency p, bc_mostly_incl = cp_mostly_incl p, bc_isReadOnly = cp_is_read_only p, bc_writeBuffer = [],
      bc_writeBuffers = cp_write_buffers p, bc_blockedNoWBBuffers = False, bc_missCount = cp_max_miss_count p, bc_exit = False,
      bc_hits = (\<lambda>_ _. 0), bc_misses = (\<lambda>_ _. 0), bc_replacements = 0, bc_unusedPrefetches = 0, bc_writebacks = (\<lambda>_. 0)\<rparr>"

definition wbMasterId :: u16 where "wbMasterId = 0"
definition funcMasterId :: u16 where "funcMasterId = 1"
definition DST_BITS :: u64 where "DST_BITS = DST_POU OR DST_POC"
definition req_getDest :: "Request \<Rightarrow> u64" where "req_getDest r = rq_flags r AND DST_BITS"

section \<open>Blocks\<close>

definition get_blk :: "blkptr \<Rightarrow> 'd BaseCache \<Rightarrow> CacheBlk" where
  "get_blk p c = (case p of TagBlk i \<Rightarrow> sa_blk (bc_tags c) i | TempBlk \<Rightarrow> CacheBlk.truncate (bc_tempBlock c))"

definition put_blk :: "blkptr \<Rightarrow> CacheBlk \<Rightarrow> 'd BaseCache \<Rightarrow> 'd BaseCache" where
  "put_blk p b c = (case p of TagBlk i \<Rightarrow> c\<lparr>bc_tags := set_blk i b (bc_tags c)\<rparr>
     | TempBlk \<Rightarrow> c\<lparr>bc_tempBlock := CacheBlk.extend b (TempCacheBlk.fields (tb_addr (bc_tempBlock c)))\<rparr>)"

definition or_status :: "u32 \<Rightarrow> CacheBlk \<Rightarrow> CacheBlk" where
  "or_status s b = b\<lparr>cb_status := cb_status b OR s\<rparr>"

definition clear_status :: "u32 \<Rightarrow> CacheBlk \<Rightarrow> CacheBlk" where
  "clear_status s b = b\<lparr>cb_status := cb_status b AND NOT s\<rparr>"

definition blk_data :: "CacheBlk \<Rightarrow> u8 list result" where
  "blk_data b = (case cb_data b of None \<Rightarrow> Error NullDeref | Some d \<Rightarrow> Ok d)"

definition cache_regenerateBlkAddr :: "blkptr \<Rightarrow> 'd BaseCache \<Rightarrow> Addr" where
  "cache_regenerateBlkAddr p c = (case p of TagBlk i \<Rightarrow> sa_regenerateBlkAddr (sa_blk (bc_tags c) i) (bc_tags c)
     | TempBlk \<Rightarrow> TempCacheBlk_getAddr (bc_tempBlock c))"

definition invalidateBlock :: "blkptr \<Rightarrow> 'd BaseCache \<Rightarrow> 'd BaseCache result" where
  "invalidateBlock p c =
     (case p of
        TagBlk i \<Rightarrow> bindR (sa_invalidate (bc_policy c) i (bc_tags c)) (\<lambda>t.
          Ok (c\<lparr>bc_tags := set_blk i (blk_invalidate (sa_blk t i)) t\<rparr>))
      | TempBlk \<Rightarrow> Ok (c\<lparr>bc_tempBlock := TempCacheBlk_invalidate (bc_tempBlock c)\<rparr>))"

definition incMissCount :: "u16 \<Rightarrow> Packet \<Rightarrow> 'd BaseCache \<Rightarrow> (Packet \<times> 'd BaseCache) result" where
  "incMissCount maxMasters pkt c =
     (let m = rq_masterId (pk_req pkt); k = pk_cmd pkt in
      bindR (assertR (m < maxMasters) AssertFail) (\<lambda>_.
        let c = c\<lparr>bc_misses := (bc_misses c)(k := (bc_misses c k)(m := Suc (bc_misses c k m)))\<rparr>;
            pkt = pkt\<lparr>pk_req := incAccessDepth (pk_req pkt)\<rparr>
        in Ok (pkt, if bc_missCount c = 0 then c
                    else c\<lparr>bc_missCount := bc_missCount c - 1, bc_exit := (bc_exit c \<or> bc_missCount c = 1)\<rparr>)))"

definition incHitCount :: "u16 \<Rightarrow> Packet \<Rightarrow> 'd BaseCache \<Rightarrow> 'd BaseCache result" where
  "incHitCount maxMasters pkt c =
     (let m = rq_masterId (pk_req pkt); k = pk_cmd pkt in
      bindR (assertR (m < maxMasters) AssertFail) (\<lambda>_.
        Ok (c\<lparr>bc_hits := (bc_hits c)(k := (bc_hits c k)(m := Suc (bc_hits c k m)))\<rparr>)))"

definition allocOnFill :: "Command \<Rightarrow> 'd BaseCache \<Rightarrow> bool" where
  "allocOnFill cmd c \<longleftrightarrow>
     bc_mostly_incl c \<or> cmd = WriteLineReq \<or> cmd = ReadReq \<or> cmd = WriteReq \<or> cmd_isPrefetch cmd \<or> cmd_isLLSC cmd"

section \<open>Satisfying a request\<close>

definition cache_cmpAndSwap :: "blkptr \<Rightarrow> Packet \<Rightarrow> 'd BaseCache \<Rightarrow> (Packet \<times> 'd BaseCache) result" where
  "cache_cmpAndSwap p pkt c =
     bindR (assertR (cmd_isRequest (pk_cmd pkt)) AssertFail) (\<lambda>_.
     bindR (pkt_getOffset (bc_blkSize c) pkt) (\<lambda>offset.
     bindR (blk_data (get_blk p c)) (\<lambda>d.
     bindR (pkt_getSize pkt) (\<lambda>sz.
     bindR (assertR (sz \<le> 8) AssertFail) (\<lambda>_.
     bindR (pkt_writeData (replicate 8 0) 0 pkt) (\<lambda>overwrite_val.
     bindR (pkt_setData False d (unat offset) pkt) (\<lambda>pkt.
     bindR (swap_condition pkt d (unat offset)) (\<lambda>overwrite_mem.
       if overwrite_mem
       then bindR (memcpy d (unat offset) overwrite_val 0 (unat sz)) (\<lambda>d'.
              Ok (pkt, put_blk p (or_status BlkDirty ((get_blk p c)\<lparr>cb_data := Some d'\<rparr>)) c))
       else Ok (pkt, c)))))))))"

definition satisfy_atomic_op :: "(nat \<Rightarrow> u8 list \<Rightarrow> u8 list) \<Rightarrow> blkptr \<Rightarrow> Packet \<Rightarrow> 'd BaseCache \<Rightarrow> (Packet \<times> 'd BaseCache) result" where
  "satisfy_atomic_op amo p pkt c =
     bindR (pkt_getAddr pkt) (\<lambda>a.
     bindR (blk_data (get_blk p c)) (\<lambda>d.
     bindR (pkt_getPtr pkt) (\<lambda>pd.
     bindR (pkt_getSize pkt) (\<lambda>sz.
       let offset = nat (extractBlkOffset a (bc_tags c)) in
       bindR (memcpy pd 0 d offset (unat sz)) (\<lambda>pd'.
       bindR (req_getAtomicOpFunctor (pk_req pkt)) (\<lambda>f.
       bindR (memcpy d offset (amo f (take (unat sz) (drop offset d))) 0 (unat sz)) (\<lambda>d'.
         Ok (pkt\<lparr>pk_data := Some pd'\<rparr>, put_blk p (or_status BlkDirty ((get_blk p c)\<lparr>cb_data := Some d'\<rparr>)) c))))))))"

definition satisfy_write :: "blkptr \<Rightarrow> Packet \<Rightarrow> 'd BaseCache \<Rightarrow> (Packet \<times> 'd BaseCache) result" where
  "satisfy_write p pkt c =
     bindR (assertR (isWritable (get_blk p c)) AssertFail) (\<lambda>_.
     bindR (checkWrite pkt (get_blk p c)) (\<lambda>(ok, pkt, b).
     bindR (blk_data b) (\<lambda>d.
     bindR (if ok then writeDataToBlock d (bc_blkSize c) pkt else Ok d) (\<lambda>d'.
       Ok (pkt, put_blk p (or_status BlkDirty (b\<lparr>cb_data := Some d'\<rparr>)) c)))))"

definition satisfy_read :: "blkptr \<Rightarrow> Packet \<Rightarrow> 'd BaseCache \<Rightarrow> (Packet \<times> 'd BaseCache) result" where
  "satisfy_read p pkt c =
     bindR (if cmd_isLLSC (pk_cmd pkt) then blk_trackLoadLocked pkt (get_blk p c) else Ok (get_blk p c)) (\<lambda>b.
     bindR (assertR (pkt_hasRespData pkt) AssertFail) (\<lambda>_.
     bindR (blk_data b) (\<lambda>d.
     bindR (setDataFromBlock d (bc_blkSize c) pkt) (\<lambda>pkt. Ok (pkt, put_blk p b c)))))"

definition base_satisfyRequest ::
  "(nat \<Rightarrow> u8 list \<Rightarrow> u8 list) \<Rightarrow> Packet \<Rightarrow> blkptr option \<Rightarrow> 'd BaseCache \<Rightarrow> (Packet \<times> 'd BaseCache) result" where
  "base_satisfyRequest amo pkt blk c =
     bindR (assertR (cmd_isRequest (pk_cmd pkt)) AssertFail) (\<lambda>_.
     case blk of None \<Rightarrow> Error AssertFail
     | Some p \<Rightarrow>
         bindR (assertR (isValid (get_blk p c)) AssertFail) (\<lambda>_.
         bindR (pkt_getOffset (bc_blkSize c) pkt) (\<lambda>off.
         bindR (pkt_getSize pkt) (\<lambda>sz.
         bindR (assertR (off + ucast sz \<le> ucast (bc_blkSize c)) AssertFail) (\<lambda>_.
           if pk_cmd pkt = SwapReq
           then if req_isAtomic (pk_req pkt) then satisfy_atomic_op amo p pkt c else cache_cmpAndSwap p pkt c
           else if cmd_isWrite (pk_cmd pkt) then satisfy_write p pkt c
           else if cmd_isRead (pk_cmd pkt) then satisfy_read p pkt c
           else if cmd_isUpgrade (pk_cmd pkt)
           then bindR (assertR (\<not> pkt_hasSharers pkt) AssertFail) (\<lambda>_.
                if isDirty (get_blk p c)
                then bindR (setCacheResponding pkt) (\<lambda>pkt. Ok (pkt, put_blk p (clear_status BlkDirty (get_blk p c)) c))
                else Ok (pkt, c))
           else if cmd_isClean (pk_cmd pkt) then Ok (pkt, put_blk p (clear_status BlkDirty (get_blk p c)) c)
           else bindR (assertR (cmd_isInvalidate (pk_cmd pkt)) AssertFail) (\<lambda>_.
                bindR (invalidateBlock p c) (\<lambda>c. Ok (pkt, c))))))))"

text \<open>\<^verbatim>\<open>Queue::findMatch\<close> on the write buffer, which skips uncacheable entries, and \<^verbatim>\<open>markInService\<close>, which frees the entry.\<close>

fun wq_findMatch :: "Addr \<Rightarrow> bool \<Rightarrow> WriteQueueEntry list \<Rightarrow> nat option" where
  "wq_findMatch a is_secure [] = None"
| "wq_findMatch a is_secure (e # es) =
     (if \<not> we_uncacheable e \<and> we_blkAddr e = a \<and> we_isSecure e = is_secure then Some 0
      else map_option Suc (wq_findMatch a is_secure es))"

section \<open>Writebacks and replacement\<close>

definition wb_request :: "cache_env \<Rightarrow> u16 \<Rightarrow> blkptr \<Rightarrow> 'd BaseCache \<Rightarrow> Request result" where
  "wb_request env master p c =
     (let r = Request_phys (cache_regenerateBlkAddr p c) (bc_blkSize c) 0 master (ce_curTick env) in
      bindR (if blk_isSecure (get_blk p c) then req_setFlags SECURE r else Ok r) (\<lambda>r.
        Ok (r\<lparr>rq_taskId := cb_task_id (get_blk p c)\<rparr>)))"

text \<open>The end of \<^verbatim>\<open>writebackBlk\<close> and \<^verbatim>\<open>writecleanBlk\<close>: ownership and data go to the packet.\<close>

definition hand_over :: "blkptr \<Rightarrow> Packet \<Rightarrow> 'd BaseCache \<Rightarrow> (Packet \<times> 'd BaseCache) result" where
  "hand_over p pkt c =
     (let b = get_blk p c;
          pkt = (if isWritable b then pkt else setHasSharers pkt);
          b' = clear_status BlkDirty (if isWritable b then clear_status BlkWritable b else b)
      in bindR (pkt_allocate pkt) (\<lambda>pkt.
         bindR (blk_data b') (\<lambda>d.
         bindR (setDataFromBlock d (bc_blkSize c) pkt) (\<lambda>pkt. Ok (pkt, put_blk p b' c)))))"

definition writebackBlk :: "cache_env \<Rightarrow> blkptr \<Rightarrow> 'd BaseCache \<Rightarrow> (Packet \<times> 'd BaseCache) result" where
  "writebackBlk env p c =
     bindR (assertR (\<not> bc_isReadOnly c \<or> bc_writebackClean c) AssertFail) (\<lambda>_.
     bindR (assertR (isValid (get_blk p c) \<and> (isDirty (get_blk p c) \<or> bc_writebackClean c)) AssertFail) (\<lambda>_.
       let c = c\<lparr>bc_writebacks := (bc_writebacks c)(wbMasterId := Suc (bc_writebacks c wbMasterId))\<rparr> in
       bindR (wb_request env wbMasterId p c) (\<lambda>req.
       bindR (new_Packet (ce_pktId env) req (if isDirty (get_blk p c) then WritebackDirty else WritebackClean)) (\<lambda>pkt.
         hand_over p pkt c))))"

definition writecleanBlk :: "cache_env \<Rightarrow> blkptr \<Rightarrow> u64 \<Rightarrow> u64 \<Rightarrow> 'd BaseCache \<Rightarrow> (Packet \<times> 'd BaseCache) result" where
  "writecleanBlk env p dest ident c =
     bindR (wb_request env wbMasterId p c) (\<lambda>req.
     bindR (new_block_Packet (if ident = 0 then ce_pktId env else ident) req WriteClean (sint (bc_blkSize c))) (\<lambda>pkt.
     bindR (if dest \<noteq> 0
            then bindR (req_setFlags dest (pk_req pkt)) (\<lambda>r. setWriteThrough (pkt\<lparr>pk_req := r\<rparr>)) else Ok pkt) (\<lambda>pkt.
       hand_over p pkt c)))"

text \<open>\<^verbatim>\<open>evict\<close> is the virtual \<^verbatim>\<open>evictBlock\<close>, which puts a packet on the list of writebacks if there is one to send.\<close>

definition allocateBlock ::
  "(cache_env \<Rightarrow> blkptr \<Rightarrow> 'd BaseCache \<Rightarrow> (Packet option \<times> 'd BaseCache) result) \<Rightarrow> cache_env \<Rightarrow> Packet \<Rightarrow> 'd BaseCache \<Rightarrow>
     (blkptr option \<times> Packet list \<times> 'd BaseCache) result" where
  "allocateBlock evict env pkt c =
     bindR (pkt_getAddr pkt) (\<lambda>addr.
     bindR (pkt_isSecure pkt) (\<lambda>is_secure.
     bindR (findVictim (bc_policy c) (ce_curTick env) (ce_victimDraw env) addr (bc_tags c)) (\<lambda>(victim, evict_blks, t).
       let c = c\<lparr>bc_tags := t\<rparr> in
       case find (\<lambda>i. isValid (sa_blk t i) \<and> ce_mshr env (cache_regenerateBlkAddr (TagBlk i) c) (blk_isSecure (sa_blk t i))) evict_blks of
         Some i \<Rightarrow>
           let a = cache_regenerateBlkAddr (TagBlk i) c; s = blk_isSecure (sa_blk t i) in
           bindR (assertR (\<not> isWritable (sa_blk t i) \<and> ce_mshrNeedsWritable env a s \<or> ce_mshrCleaning env a s) AssertFail) (\<lambda>_.
             Ok (None, [], c))
       | None \<Rightarrow>
         let c = (if isValid (sa_blk t victim) then c\<lparr>bc_replacements := Suc (bc_replacements c)\<rparr> else c) in
         bindR (foldM (\<lambda>i (wbs, c).
                  if isValid (sa_blk (bc_tags c) i)
                  then let c = (if wasPrefetched (sa_blk (bc_tags c) i)
                                then c\<lparr>bc_unusedPrefetches := Suc (bc_unusedPrefetches c)\<rparr> else c)
                       in bindR (evict env (TagBlk i) c) (\<lambda>(wb, c). Ok (wbs @ (case wb of None \<Rightarrow> [] | Some w \<Rightarrow> [w]), c))
                  else Ok (wbs, c)) evict_blks ([], c)) (\<lambda>(wbs, c).
         bindR (insertBlock (bc_policy c) (ce_resetDraw env) (ce_maxMasters env) (ce_curTick env) pkt victim (bc_tags c)) (\<lambda>t.
           Ok (Some (TagBlk victim), wbs, c\<lparr>bc_tags := t\<rparr>))))))"

definition handleFill ::
  "(cache_env \<Rightarrow> blkptr \<Rightarrow> 'd BaseCache \<Rightarrow> (Packet option \<times> 'd BaseCache) result) \<Rightarrow> cache_env \<Rightarrow> Packet \<Rightarrow> blkptr option \<Rightarrow> bool \<Rightarrow>
     'd BaseCache \<Rightarrow> (blkptr \<times> Packet list \<times> 'd BaseCache) result" where
  "handleFill evict env pkt blk allocate c =
     bindR (assertR (cmd_isResponse (pk_cmd pkt) \<or> pk_cmd pkt = WriteLineReq) AssertFail) (\<lambda>_.
     bindR (pkt_getAddr pkt) (\<lambda>addr.
     bindR (pkt_isSecure pkt) (\<lambda>is_secure.
     bindR (pkt_getBlockAddr (bc_blkSize c) pkt) (\<lambda>baddr.
     bindR (assertR (addr = baddr) AssertFail) (\<lambda>_.
     bindR (assertR (wq_findMatch addr is_secure (bc_writeBuffer c) = None) AssertFail) (\<lambda>_.
     bindR (case blk of
              None \<Rightarrow>
                bindR (assertR (cmd_hasData (pk_cmd pkt)) AssertFail) (\<lambda>_.
                bindR (assertR (cmd_isRead (pk_cmd pkt) \<or> pk_cmd pkt = WriteLineReq) AssertFail) (\<lambda>_.
                bindR (if allocate then allocateBlock evict env pkt c else Ok (None, [], c)) (\<lambda>(p, wbs, c).
                bindR (case p of Some p \<Rightarrow> Ok (p, c)
                       | None \<Rightarrow> bindR (assertR (\<not> isValid (bc_tempBlock c)) AssertFail) (\<lambda>_.
                           Ok (TempBlk, c\<lparr>bc_tempBlock := TempCacheBlk_insert addr is_secure (bc_tempBlock c)\<rparr>))) (\<lambda>(p, c).
                bindR (assertR (\<not> isValid (get_blk p c)) AssertFail) (\<lambda>_. Ok (p, wbs, c))))))
            | Some p \<Rightarrow>
                bindR (assertR (cache_regenerateBlkAddr p c = addr) AssertFail) (\<lambda>_.
                bindR (assertR (blk_isSecure (get_blk p c) = is_secure) AssertFail) (\<lambda>_.
                bindR (assertR (cmd_hasData (pk_cmd pkt) \<or> isValid (get_blk p c)) AssertFail) (\<lambda>_. Ok (p, [], c))))) (\<lambda>(p, wbs, c).
       let b = or_status (BlkValid OR BlkReadable) (get_blk p c) in
       bindR (assertR (\<not> (pk_cmd pkt = WriteLineReq \<and> pkt_hasSharers pkt)) AssertFail) (\<lambda>_.
       bindR (if \<not> pkt_hasSharers pkt
              then let b = or_status BlkWritable b in
                   if pkt_cacheResponding pkt
                   then bindR (assertR (\<not> bc_isReadOnly c) AssertFail) (\<lambda>_. Ok (or_status BlkDirty b)) else Ok b
              else Ok b) (\<lambda>b.
       bindR (if cmd_isRead (pk_cmd pkt)
              then bindR (assertR (cmd_hasData (pk_cmd pkt)) AssertFail) (\<lambda>_.
                   bindR (pkt_getSize pkt) (\<lambda>sz.
                   bindR (assertR (sz = bc_blkSize c) AssertFail) (\<lambda>_.
                   bindR (blk_data b) (\<lambda>d.
                   bindR (writeDataToBlock d (bc_blkSize c) pkt) (\<lambda>d'. Ok (b\<lparr>cb_data := Some d'\<rparr>))))))
              else Ok b) (\<lambda>b.
         let b = b\<lparr>cb_whenReady := ce_clockEdge env 0 + bc_fillLatency c * ce_clockPeriod env + ucast (pk_payloadDelay pkt)\<rparr>
         in Ok (p, wbs, put_blk p b c)))))))))))"

definition maintainClusivity :: "bool \<Rightarrow> blkptr option \<Rightarrow> 'd BaseCache \<Rightarrow> 'd BaseCache result" where
  "maintainClusivity from_cache blk c =
     (case blk of None \<Rightarrow> Ok c
      | Some p \<Rightarrow> if from_cache \<and> isValid (get_blk p c) \<and> \<not> isDirty (get_blk p c) \<and> \<not> bc_mostly_incl c
                  then invalidateBlock p c else Ok c)"

section \<open>Access\<close>

definition wq_isFull :: "'d BaseCache \<Rightarrow> bool" where
  "wq_isFull c \<longleftrightarrow> int (length (bc_writeBuffer c)) \<ge> bc_writeBuffers c"

definition wq_markInService :: "nat \<Rightarrow> 'd BaseCache \<Rightarrow> 'd BaseCache" where
  "wq_markInService i c =
     (let wasFull = wq_isFull c;
          c = c\<lparr>bc_writeBuffer := take i (bc_writeBuffer c) @ drop (Suc i) (bc_writeBuffer c)\<rparr>
      in if wasFull \<and> \<not> wq_isFull c then c\<lparr>bc_blockedNoWBBuffers := False\<rparr> else c)"

text \<open>An eviction from above that meets a writeback waiting in the write buffer; the result says whether it ends here.\<close>

definition meet_writeback :: "Packet \<Rightarrow> 'd BaseCache \<Rightarrow> (bool \<times> 'd BaseCache) result" where
  "meet_writeback pkt c =
     bindR (pkt_getAddr pkt) (\<lambda>addr.
     bindR (pkt_isSecure pkt) (\<lambda>is_secure.
     case wq_findMatch addr is_secure (bc_writeBuffer c) of None \<Rightarrow> Ok (False, c)
     | Some i \<Rightarrow>
         (case we_targets (bc_writeBuffer c ! i) of
            [wbPkt] \<Rightarrow>
              bindR (assertR (cmd_isWriteback (pk_cmd wbPkt)) AssertFail) (\<lambda>_.
                if isCleanEviction pkt
                then Ok (True, c\<lparr>bc_writeBuffer := (bc_writeBuffer c)[i :=
                            (bc_writeBuffer c ! i)\<lparr>we_targets := [clearBlockCached wbPkt]\<rparr>]\<rparr>)
                else bindR (assertR (pk_cmd pkt = WritebackDirty) AssertFail) (\<lambda>_. Ok (False, wq_markInService i c)))
          | _ \<Rightarrow> Error AssertFail)))"

text \<open>The block a writeback is put into: the one that was found, or a new one that is made valid and readable.\<close>

definition writeback_block ::
  "(cache_env \<Rightarrow> blkptr \<Rightarrow> 'd BaseCache \<Rightarrow> (Packet option \<times> 'd BaseCache) result) \<Rightarrow> cache_env \<Rightarrow> Packet \<Rightarrow> blkptr option \<Rightarrow>
     'd BaseCache \<Rightarrow> (blkptr option \<times> Packet list \<times> 'd BaseCache) result" where
  "writeback_block evict env pkt blk c =
     (case blk of Some p \<Rightarrow> Ok (Some p, [], c)
      | None \<Rightarrow> bindR (allocateBlock evict env pkt c) (\<lambda>(p, wbs, c).
          Ok (p, wbs, case p of None \<Rightarrow> c | Some q \<Rightarrow> put_blk q (or_status (BlkValid OR BlkReadable) (get_blk q c)) c)))"

text \<open>The end of both writeback branches: the data is copied, a hit is counted and the block is ready after the fill latency.\<close>

definition take_writeback :: "cache_env \<Rightarrow> Packet \<Rightarrow> blkptr \<Rightarrow> 'd BaseCache \<Rightarrow> 'd BaseCache result" where
  "take_writeback env pkt p c =
     bindR (assertR (\<not> cmd_needsResponse (pk_cmd pkt)) AssertFail) (\<lambda>_.
     bindR (blk_data (get_blk p c)) (\<lambda>d.
     bindR (writeDataToBlock d (bc_blkSize c) pkt) (\<lambda>d'.
     bindR (incHitCount (ce_maxMasters env) pkt (put_blk p ((get_blk p c)\<lparr>cb_data := Some d'\<rparr>) c)) (\<lambda>c.
       Ok (put_blk p ((get_blk p c)\<lparr>cb_whenReady :=
             ce_clockEdge env (bc_fillLatency c) + ucast (pk_headerDelay pkt) + ucast (pk_payloadDelay pkt)\<rparr>) c)))))"

type_synonym 'd access_result = "bool \<times> Packet \<times> blkptr option \<times> Packet list \<times> 'd BaseCache"

definition access_writeback ::
  "(cache_env \<Rightarrow> blkptr \<Rightarrow> 'd BaseCache \<Rightarrow> (Packet option \<times> 'd BaseCache) result) \<Rightarrow> cache_env \<Rightarrow> Packet \<Rightarrow> blkptr option \<Rightarrow>
     'd BaseCache \<Rightarrow> 'd access_result result" where
  "access_writeback evict env pkt blk c =
     bindR (pkt_getSize pkt) (\<lambda>sz.
     bindR (assertR (bc_blkSize c = sz) AssertFail) (\<lambda>_.
     bindR (pkt_getAddr pkt) (\<lambda>addr.
     bindR (pkt_isSecure pkt) (\<lambda>is_secure.
       if pk_cmd pkt = WritebackClean \<and> ce_mshr env addr is_secure then Ok (True, pkt, blk, [], c)
       else bindR (writeback_block evict env pkt blk c) (\<lambda>(blk, wbs, c).
         case blk of
           None \<Rightarrow> bindR (incMissCount (ce_maxMasters env) pkt c) (\<lambda>(pkt, c). Ok (False, pkt, None, wbs, c))
         | Some p \<Rightarrow>
             let c = (if pk_cmd pkt = WritebackDirty then put_blk p (or_status BlkDirty (get_blk p c)) c else c);
                 c = (if \<not> pkt_hasSharers pkt then put_blk p (or_status BlkWritable (get_blk p c)) c else c)
             in bindR (take_writeback env pkt p c) (\<lambda>c. Ok (True, pkt, Some p, wbs, c)))))))"

definition access_writeclean ::
  "(cache_env \<Rightarrow> blkptr \<Rightarrow> 'd BaseCache \<Rightarrow> (Packet option \<times> 'd BaseCache) result) \<Rightarrow> cache_env \<Rightarrow> Packet \<Rightarrow> blkptr option \<Rightarrow>
     'd BaseCache \<Rightarrow> 'd access_result result" where
  "access_writeclean evict env pkt blk c =
     bindR (pkt_getSize pkt) (\<lambda>sz.
     bindR (assertR (bc_blkSize c = sz) AssertFail) (\<lambda>_.
       if blk = None \<and> pkt_writeThrough pkt then Ok (False, pkt, None, [], c)
       else bindR (writeback_block evict env pkt blk c) (\<lambda>(blk, wbs, c).
         case blk of
           None \<Rightarrow> bindR (incMissCount (ce_maxMasters env) pkt c) (\<lambda>(pkt, c). Ok (False, pkt, None, wbs, c))
         | Some p \<Rightarrow>
             let c = (if \<not> pkt_writeThrough pkt then put_blk p (or_status BlkDirty (get_blk p c)) c else c)
             in bindR (take_writeback env pkt p c) (\<lambda>c. Ok (\<not> pkt_writeThrough pkt, pkt, Some p, wbs, c)))))"

text \<open>The last branch: an ordinary request, for which \<open>sat\<close> is the virtual \<^verbatim>\<open>satisfyRequest\<close>.\<close>

definition access_request ::
  "(Packet \<Rightarrow> blkptr option \<Rightarrow> 'd BaseCache \<Rightarrow> (Packet \<times> 'd BaseCache) result) \<Rightarrow> cache_env \<Rightarrow> Packet \<Rightarrow> blkptr option \<Rightarrow>
     'd BaseCache \<Rightarrow> 'd access_result result" where
  "access_request sat env pkt blk c =
     bindR (case blk of None \<Rightarrow> Ok False
            | Some p \<Rightarrow> bindR (pkt_needsWritable pkt) (\<lambda>nw. Ok (if nw then isWritable (get_blk p c) else isReadable (get_blk p c)))) (\<lambda>ok.
     if ok
     then bindR (incHitCount (ce_maxMasters env) pkt c) (\<lambda>c.
          bindR (sat pkt blk c) (\<lambda>(pkt, c).
          bindR (maintainClusivity (cmd_fromCache (pk_cmd pkt)) blk c) (\<lambda>c. Ok (True, pkt, blk, [], c))))
     else bindR (incMissCount (ce_maxMasters env) pkt c) (\<lambda>(pkt, c).
          if blk = None \<and> cmd_isLLSC (pk_cmd pkt) \<and> cmd_isWrite (pk_cmd pkt)
          then Ok (True, pkt\<lparr>pk_req := req_setExtraData 0 (pk_req pkt)\<rparr>, blk, [], c)
          else Ok (False, pkt, blk, [], c)))"

definition base_access ::
  "(Packet \<Rightarrow> blkptr option \<Rightarrow> 'd BaseCache \<Rightarrow> (Packet \<times> 'd BaseCache) result) \<Rightarrow>
   (cache_env \<Rightarrow> blkptr \<Rightarrow> 'd BaseCache \<Rightarrow> (Packet option \<times> 'd BaseCache) result) \<Rightarrow>
   cache_env \<Rightarrow> Packet \<Rightarrow> 'd BaseCache \<Rightarrow> (u64 \<times> 'd access_result) result" where
  "base_access sat evict env pkt c =
     bindR (assertR (cmd_isRequest (pk_cmd pkt)) AssertFail) (\<lambda>_.
     bindR (assertR (\<not> (bc_isReadOnly c \<and> cmd_isWrite (pk_cmd pkt))) AssertFail) (\<lambda>_.
     bindR (pkt_getAddr pkt) (\<lambda>addr.
     bindR (pkt_isSecure pkt) (\<lambda>is_secure.
     bindR (accessBlock (ce_ticksToCycles env) (bc_policy c) (ce_curTick env) addr is_secure (bc_tags c)) (\<lambda>(found, lat, t).
       let blk = map_option TagBlk found; c = c\<lparr>bc_tags := t\<rparr> in
       if req_isCacheMaintenance (pk_req pkt) then Ok (lat, False, pkt, blk, [], c)
       else bindR (if cmd_isEviction (pk_cmd pkt) then meet_writeback pkt c else Ok (False, c)) (\<lambda>(ended, c).
         if ended then Ok (lat, True, pkt, blk, [], c)
         else bindR (if cmd_isWriteback (pk_cmd pkt) then access_writeback evict env pkt blk c
                     else if pk_cmd pkt = CleanEvict then Ok (blk \<noteq> None, pkt, blk, [], c)
                     else if pk_cmd pkt = WriteClean then access_writeclean evict env pkt blk c
                     else access_request sat env pkt blk c) (\<lambda>r. Ok (lat, r))))))))"

section \<open>Atomic accesses\<close>

type_synonym 'm mem_port = "Packet \<Rightarrow> 'm \<Rightarrow> (Tick \<times> Packet \<times> 'm) result"

definition writebackTempBlockAtomic ::
  "(Packet list \<Rightarrow> 'm \<Rightarrow> 'm result) \<Rightarrow> 'd BaseCache \<Rightarrow> 'm \<Rightarrow> ('d BaseCache \<times> 'm) result" where
  "writebackTempBlockAtomic doWritebacks c m =
     (case bc_tempBlockWriteback c of None \<Rightarrow> Error AssertFail
      | Some wb \<Rightarrow> bindR (doWritebacks [wb] m) (\<lambda>m. Ok (c\<lparr>bc_tempBlockWriteback := None\<rparr>, m)))"

text \<open>The event that runs after \<^verbatim>\<open>recvAtomic\<close>.\<close>

definition process_tempEvent ::
  "(Packet list \<Rightarrow> 'm \<Rightarrow> 'm result) \<Rightarrow> 'd BaseCache \<Rightarrow> 'm \<Rightarrow> ('d BaseCache \<times> 'm) result" where
  "process_tempEvent doWritebacks c m =
     (if bc_tempEvent c then writebackTempBlockAtomic doWritebacks (c\<lparr>bc_tempEvent := False\<rparr>) m else Ok (c, m))"

definition clear_tempBlock ::
  "(Packet list \<Rightarrow> 'm \<Rightarrow> 'm result) \<Rightarrow> (cache_env \<Rightarrow> blkptr \<Rightarrow> 'd BaseCache \<Rightarrow> (Packet option \<times> 'd BaseCache) result) \<Rightarrow>
   cache_env \<Rightarrow> blkptr option \<Rightarrow> 'd BaseCache \<Rightarrow> 'm \<Rightarrow> ('d BaseCache \<times> 'm) result" where
  "clear_tempBlock doWritebacks evict env blk c m =
     (if blk = Some TempBlk \<and> isValid (bc_tempBlock c)
      then bindR (if bc_tempBlockWriteback c \<noteq> None then writebackTempBlockAtomic doWritebacks c m
                  else Ok (c\<lparr>bc_tempEvent := True\<rparr>, m)) (\<lambda>(c, m).
           bindR (evict env TempBlk c) (\<lambda>(wb, c). Ok (c\<lparr>bc_tempBlockWriteback := wb\<rparr>, m)))
      else Ok (c, m))"

text \<open>
  \<^verbatim>\<open>recvAtomic\<close>. The block pointer is set by \<^verbatim>\<open>access\<close>, which takes it by reference, and not by
  \<^verbatim>\<open>handleAtomicReqMiss\<close>, which takes it by value.
\<close>

definition base_recvAtomic ::
  "'m mem_port \<Rightarrow> (cache_env \<Rightarrow> Packet \<Rightarrow> 'd BaseCache \<Rightarrow> (u64 \<times> 'd access_result) result) \<Rightarrow>
   (cache_env \<Rightarrow> Packet \<Rightarrow> blkptr option \<Rightarrow> 'd BaseCache \<Rightarrow> 'm \<Rightarrow> (u64 \<times> Packet \<times> Packet list \<times> 'd BaseCache \<times> 'm) result) \<Rightarrow>
   (cache_env \<Rightarrow> blkptr \<Rightarrow> 'd BaseCache \<Rightarrow> (Packet option \<times> 'd BaseCache) result) \<Rightarrow> (Packet list \<Rightarrow> 'm \<Rightarrow> 'm result) \<Rightarrow>
   cache_env \<Rightarrow> Packet \<Rightarrow> 'd BaseCache \<Rightarrow> 'm \<Rightarrow> (Tick \<times> Packet \<times> 'd BaseCache \<times> 'm) result" where
  "base_recvAtomic sendAtomic acc handleMiss evict doWritebacks env pkt c m =
     (if pkt_cacheResponding pkt \<and> \<not> cmd_isClean (pk_cmd pkt)
      then bindR (assertR (\<not> req_isCacheInvalidate (pk_req pkt)) AssertFail) (\<lambda>_.
           bindR (pkt_needsWritable pkt) (\<lambda>nw.
           bindR (assertR (nw \<and> \<not> pkt_responderHadWritable pkt) AssertFail) (\<lambda>_.
           bindR (sendAtomic pkt m) (\<lambda>(t, pkt, m).
             Ok ((bc_lookupLatency c + ce_ticksToCycles env t) * ce_clockPeriod env, pkt, c, m)))))
      else bindR (acc env pkt c) (\<lambda>(lat, satisfied, pkt, blk, wbs, c).
           bindR (case blk of None \<Rightarrow> Ok (pkt, wbs, c)
                  | Some p \<Rightarrow>
                      if cmd_isClean (pk_cmd pkt) \<and> isDirty (get_blk p c)
                      then bindR (writecleanBlk env p (req_getDest (pk_req pkt)) (pk_id pkt) c) (\<lambda>(wb, c).
                           bindR (setSatisfied pkt) (\<lambda>pkt. Ok (pkt, wbs @ [wb], c)))
                      else Ok (pkt, wbs, c)) (\<lambda>(pkt, wbs, c).
           bindR (doWritebacks wbs m) (\<lambda>m.
           bindR (if \<not> satisfied
                  then bindR (handleMiss env pkt blk c m) (\<lambda>(l, pkt, wbs, c, m). Ok (lat + l, pkt, wbs, c, m))
                  else Ok (lat, pkt, [], c, m)) (\<lambda>(lat, pkt, wbs, c, m).
           bindR (doWritebacks wbs m) (\<lambda>m.
           bindR (clear_tempBlock doWritebacks evict env blk c m) (\<lambda>(c, m).
           bindR (if cmd_needsResponse (pk_cmd pkt) then makeAtomicResponse pkt else Ok pkt) (\<lambda>pkt.
             Ok (lat * ce_clockPeriod env, pkt, c, m)))))))))"

section \<open>Functional accesses\<close>

text \<open>\<open>sendFunctional\<close> is the memory side port; a request from the memory side goes to the caches above, which \<open>snoop\<close> stands for.\<close>

definition base_functionalAccess ::
  "(Packet \<Rightarrow> 'm \<Rightarrow> (Packet \<times> 'm) result) \<Rightarrow> (Packet \<Rightarrow> 'm \<Rightarrow> (Packet \<times> 'm) result) option \<Rightarrow> cache_env \<Rightarrow> Packet \<Rightarrow> bool \<Rightarrow>
   'd BaseCache \<Rightarrow> 'm \<Rightarrow> (Packet \<times> 'd BaseCache \<times> 'm) result" where
  "base_functionalAccess sendFunctional snoop env pkt from_cpu_side c m =
     bindR (pkt_getBlockAddr (bc_blkSize c) pkt) (\<lambda>blk_addr.
     bindR (pkt_isSecure pkt) (\<lambda>is_secure.
     bindR (pkt_getAddr pkt) (\<lambda>addr.
     bindR (findBlock addr is_secure (bc_tags c)) (\<lambda>blk.
     bindR (case blk of None \<Rightarrow> Ok (False, pkt, c)
            | Some i \<Rightarrow>
                if isValid (sa_blk (bc_tags c) i)
                then bindR (trySatisfyFunctional blk_addr is_secure (sint (bc_blkSize c)) (cb_data (sa_blk (bc_tags c) i)) pkt)
                       (\<lambda>(have_data, pkt, d). Ok (have_data, pkt, put_blk (TagBlk i) ((sa_blk (bc_tags c) i)\<lparr>cb_data := d\<rparr>) c))
                else Ok (False, pkt, c)) (\<lambda>(have_data, pkt, c).
       let have_dirty = (have_data \<and> (case blk of None \<Rightarrow> False
             | Some i \<Rightarrow> isDirty (sa_blk (bc_tags c) i) \<or> ce_pendingModified env blk_addr is_secure)) in
       bindR (if have_dirty then Ok (True, pkt) else ce_queues env pkt) (\<lambda>(ended, pkt).
         if ended then bindR (makeResponse pkt) (\<lambda>pkt. Ok (pkt, c, m))
         else if from_cpu_side then bindR (sendFunctional pkt m) (\<lambda>(pkt, m). Ok (pkt, c, m))
         else (case snoop of None \<Rightarrow> Ok (pkt, c, m)
               | Some send \<Rightarrow> bindR (send pkt m) (\<lambda>(pkt, m). Ok (pkt, c, m)))))))))"

section \<open>Visitors\<close>

definition writebackVisitor ::
  "(Packet \<Rightarrow> 'm \<Rightarrow> (Packet \<times> 'm) result) \<Rightarrow> cache_env \<Rightarrow> nat \<Rightarrow> 'd BaseCache \<times> 'm \<Rightarrow> ('d BaseCache \<times> 'm) result" where
  "writebackVisitor sendFunctional env i = (\<lambda>(c, m).
     if isDirty (sa_blk (bc_tags c) i)
     then bindR (assertR (isValid (sa_blk (bc_tags c) i)) AssertFail) (\<lambda>_.
          bindR (wb_request env funcMasterId (TagBlk i) c) (\<lambda>req.
          bindR (new_Packet (ce_pktId env) req WriteReq) (\<lambda>pkt.
          bindR (blk_data (sa_blk (bc_tags c) i)) (\<lambda>d.
          bindR (dataStatic d pkt) (\<lambda>pkt.
          bindR (sendFunctional pkt m) (\<lambda>(_, m).
            Ok (put_blk (TagBlk i) (clear_status BlkDirty (sa_blk (bc_tags c) i)) c, m)))))))
     else Ok (c, m))"

definition memWriteback ::
  "(Packet \<Rightarrow> 'm \<Rightarrow> (Packet \<times> 'm) result) \<Rightarrow> cache_env \<Rightarrow> 'd BaseCache \<Rightarrow> 'm \<Rightarrow> ('d BaseCache \<times> 'm) result" where
  "memWriteback sendFunctional env c m =
     foldM (writebackVisitor sendFunctional env) [0..<length (sa_blks (bc_tags c))] (c, m)"

definition invalidateVisitor :: "nat \<Rightarrow> 'd BaseCache \<Rightarrow> 'd BaseCache result" where
  "invalidateVisitor i c =
     (if isValid (sa_blk (bc_tags c) i)
      then bindR (assertR (\<not> isDirty (sa_blk (bc_tags c) i)) AssertFail) (\<lambda>_. invalidateBlock (TagBlk i) c)
      else Ok c)"

definition memInvalidate :: "'d BaseCache \<Rightarrow> 'd BaseCache result" where
  "memInvalidate c = foldM invalidateVisitor [0..<length (sa_blks (bc_tags c))] c"

definition cache_isDirty :: "'d BaseCache \<Rightarrow> bool" where
  "cache_isDirty c = anyBlk isDirty (bc_tags c)"

end
