(* ===== verification/Noncoherent_Cache.thy ===== *)
theory Noncoherent_Cache
  imports Base_Cache
begin

text \<open>
  The non-coherent cache in atomic mode over a simple memory: \<^verbatim>\<open>mem/cache/noncoherent_cache.cc\<close> and the atomic and functional
  ports of \<^verbatim>\<open>mem/simple_mem.cc\<close>. The operations of \<^verbatim>\<open>BaseCache\<close> get the virtual methods of \<^verbatim>\<open>NoncoherentCache\<close> as arguments.
\<close>

section \<open>The cache\<close>

definition nc_satisfyRequest ::
  "(nat \<Rightarrow> u8 list \<Rightarrow> u8 list) \<Rightarrow> Packet \<Rightarrow> blkptr option \<Rightarrow> 'd BaseCache \<Rightarrow> (Packet \<times> 'd BaseCache) result" where
  "nc_satisfyRequest amo pkt blk c =
     bindR (assertR (cmd_isRead (pk_cmd pkt) \<or> cmd_isWrite (pk_cmd pkt)) AssertFail) (\<lambda>_. base_satisfyRequest amo pkt blk c)"

definition nc_evictBlock :: "cache_env \<Rightarrow> blkptr \<Rightarrow> 'd BaseCache \<Rightarrow> (Packet option \<times> 'd BaseCache) result" where
  "nc_evictBlock env p c =
     bindR (if isDirty (get_blk p c) \<or> bc_writebackClean c
            then bindR (writebackBlk env p c) (\<lambda>(pkt, c). Ok (Some pkt, c)) else Ok (None, c)) (\<lambda>(pkt, c).
     bindR (invalidateBlock p c) (\<lambda>c. Ok (pkt, c)))"

definition nc_access :: "cache_env \<Rightarrow> Packet \<Rightarrow> 'd BaseCache \<Rightarrow> (u64 \<times> 'd access_result) result" where
  "nc_access env pkt c =
     bindR (base_access (nc_satisfyRequest (ce_amo env)) nc_evictBlock env pkt c) (\<lambda>(lat, success, pkt, blk, wbs, c).
       if cmd_isWriteback (pk_cmd pkt) \<or> pk_cmd pkt = WriteClean
       then (case blk of None \<Rightarrow> Error AssertFail
             | Some p \<Rightarrow>
                 bindR (assertR (isValid (get_blk p c)) AssertFail) (\<lambda>_.
                   Ok (lat, success, pkt, blk, wbs, put_blk p (or_status BlkWritable (get_blk p c)) c)))
       else Ok (lat, success, pkt, blk, wbs, c))"

definition nc_doWritebacksAtomic :: "'m mem_port \<Rightarrow> Packet list \<Rightarrow> 'm \<Rightarrow> 'm result" where
  "nc_doWritebacksAtomic sendAtomic writebacks m =
     foldM (\<lambda>wb_pkt m. bindR (sendAtomic wb_pkt m) (\<lambda>(_, _, m). Ok m)) writebacks m"

definition nc_createMissPacket :: "cache_env \<Rightarrow> Packet \<Rightarrow> blkptr option \<Rightarrow> 'd BaseCache \<Rightarrow> Packet result" where
  "nc_createMissPacket env cpu_pkt blk c =
     bindR (assertR (cmd_needsResponse (pk_cmd cpu_pkt)) AssertFail) (\<lambda>_.
     bindR (assertR (case blk of None \<Rightarrow> True | Some p \<Rightarrow> \<not> isValid (get_blk p c)) AssertFail) (\<lambda>_.
     bindR (new_block_Packet (ce_pktId env) (pk_req cpu_pkt) ReadReq (sint (bc_blkSize c))) (\<lambda>pkt.
     bindR (pkt_getAddr pkt) (\<lambda>a.
     bindR (pkt_getBlockAddr (bc_blkSize c) pkt) (\<lambda>b.
     bindR (assertR (a = b) AssertFail) (\<lambda>_. pkt_allocate pkt))))))"

text \<open>The packet sent below and the one from above share the request object, so that both see what happens to it below.\<close>

definition nc_handleAtomicReqMiss ::
  "'m mem_port \<Rightarrow> cache_env \<Rightarrow> Packet \<Rightarrow> blkptr option \<Rightarrow> 'd BaseCache \<Rightarrow> 'm \<Rightarrow>
     (u64 \<times> Packet \<times> Packet list \<times> 'd BaseCache \<times> 'm) result" where
  "nc_handleAtomicReqMiss sendAtomic env pkt blk c m =
     bindR (nc_createMissPacket env pkt blk c) (\<lambda>bus_pkt.
     bindR (sendAtomic bus_pkt m) (\<lambda>(t, bus_pkt, m).
       let pkt = pkt\<lparr>pk_req := pk_req bus_pkt\<rparr> in
     bindR (assertR (cmd_isResponse (pk_cmd bus_pkt)) AssertFail) (\<lambda>_.
     bindR (assertR (cmd_isRead (pk_cmd bus_pkt)) AssertFail) (\<lambda>_.
     bindR (assertR (pk_cmd pkt \<noteq> UpgradeResp) AssertFail) (\<lambda>_.
     bindR (assertR (\<not> cmd_isInvalidate (pk_cmd bus_pkt)) AssertFail) (\<lambda>_.
     bindR (assertR (\<not> pkt_hasSharers bus_pkt) AssertFail) (\<lambda>_.
     bindR (if \<not> cmd_isError (pk_cmd bus_pkt)
            then bindR (handleFill nc_evictBlock env bus_pkt blk (allocOnFill (pk_cmd bus_pkt) c) c) (\<lambda>(p, wbs, c). Ok (Some p, wbs, c))
            else Ok (blk, [], c)) (\<lambda>(blk, wbs, c).
     bindR (nc_satisfyRequest (ce_amo env) pkt blk c) (\<lambda>(pkt, c).
     bindR (maintainClusivity True blk c) (\<lambda>c.
     bindR (if \<not> cmd_isWriteback (pk_cmd pkt) \<and> pk_cmd pkt \<noteq> WriteClean
            then bindR (assertR (cmd_needsResponse (pk_cmd pkt)) AssertFail) (\<lambda>_.
                 bindR (makeAtomicResponse pkt) (\<lambda>pkt.
                   if cmd_isError (pk_cmd bus_pkt) then copyError bus_pkt pkt else Ok pkt))
            else Ok pkt) (\<lambda>pkt.
       Ok (ce_ticksToCycles env t, pkt, wbs, c, m))))))))))))"

definition nc_recvAtomic :: "'m mem_port \<Rightarrow> cache_env \<Rightarrow> Packet \<Rightarrow> 'd BaseCache \<Rightarrow> 'm \<Rightarrow> (Tick \<times> Packet \<times> 'd BaseCache \<times> 'm) result" where
  "nc_recvAtomic sendAtomic env pkt c m =
     (if pkt_cacheResponding pkt then Error Panic
      else if \<not> (cmd_isRead (pk_cmd pkt) \<or> cmd_isWrite (pk_cmd pkt)) then Error Panic
      else base_recvAtomic sendAtomic nc_access (nc_handleAtomicReqMiss sendAtomic) nc_evictBlock
             (nc_doWritebacksAtomic sendAtomic) env pkt c m)"

definition nc_functionalAccess ::
  "(Packet \<Rightarrow> 'm \<Rightarrow> (Packet \<times> 'm) result) \<Rightarrow> cache_env \<Rightarrow> Packet \<Rightarrow> bool \<Rightarrow> 'd BaseCache \<Rightarrow> 'm \<Rightarrow> (Packet \<times> 'd BaseCache \<times> 'm) result" where
  "nc_functionalAccess sendFunctional env pkt from_cpu_side c m =
     (if \<not> from_cpu_side then Error Panic else base_functionalAccess sendFunctional None env pkt from_cpu_side c m)"

section \<open>The simple memory\<close>

text \<open>The latency has a random part, which is an argument.\<close>

definition sm_recvAtomic :: "(nat \<Rightarrow> u8 list \<Rightarrow> u8 list) \<Rightarrow> Tick \<Rightarrow> AbstractMemory mem_port" where
  "sm_recvAtomic amo latency pkt am =
     (if pkt_cacheResponding pkt then Error Panic
      else bindR (mem_access amo pkt am) (\<lambda>(pkt, am). Ok (latency, pkt, am)))"

end
