(* ===== verification/Cache_Line.thy ===== *)
theory Cache_Line
  imports Noncoherent_Cache
begin

text \<open>
  The lines of a non-coherent cache: what the tags hold of an address, as a map from lines to data, and how the operations on
  the way of an access change it: making a line valid, changing it in place, dropping it, writing it back, replacing a victim,
  filling, and satisfying a read or a write.
\<close>

section \<open>Lines\<close>

definition line_of :: "nat \<Rightarrow> Addr \<Rightarrow> Addr" where
  "line_of ss x = x AND NOT (mask ss)"

definition line_off :: "nat \<Rightarrow> Addr \<Rightarrow> nat" where
  "line_off ss x = unat (x AND mask ss)"

lemma line_off_lt: "ss < 64 \<Longrightarrow> line_off ss x < 2 ^ ss"
  by (simp add: line_off_def take_bit_eq_mask [symmetric] unsigned_take_bit_eq)

lemma line_split: "line_of ss x + of_nat (line_off ss x) = x"
proof -
  have "line_of ss x + (x AND mask ss) = x"
    unfolding line_of_def by (subst disjunctive_add_eq_or) (auto simp: bit_eq_iff bit_simps)
  then show ?thesis by (simp add: line_off_def)
qed

lemma line_add:
  assumes "ss < 64" "k < 2 ^ ss"
  shows "line_of ss (line_of ss x + of_nat k) = line_of ss x" "line_off ss (line_of ss x + of_nat k) = k"
proof -
  have small: "(2 :: nat) ^ ss < 2 ^ 64" using assms(1) by (intro power_strict_increasing) auto
  have "take_bit ss k = k" using assms(2) by (simp add: take_bit_nat_eq_self)
  then have kb: "bit k n \<Longrightarrow> n < ss" for n by (metis bit_take_bit_iff)
  have e: "line_of ss x + of_nat k = line_of ss x OR of_nat k"
    by (rule disjunctive_add_eq_or) (auto simp: bit_eq_iff bit_simps line_of_def dest: kb)
  show "line_of ss (line_of ss x + of_nat k) = line_of ss x"
    unfolding e by (rule bit_word_eqI) (auto simp: line_of_def bit_simps dest: kb)
  have "(line_of ss x OR of_nat k) AND mask ss = of_nat k"
    by (rule bit_word_eqI) (auto simp: line_of_def bit_simps dest: kb)
  then show "line_off ss (line_of ss x + of_nat k) = k"
    unfolding e using assms small by (simp add: line_off_def unat_of_nat_small)
qed

lemma line_of_idem [simp]: "line_of ss (line_of ss x) = line_of ss x"
  by (simp add: line_of_def and.assoc)

lemma line_off_line [simp]: "line_off ss (line_of ss x) = 0"
  by (simp add: line_off_def line_of_def and.assoc)

lemma line_add_off:
  assumes "ss < 64" "line_off ss x + k < 2 ^ ss"
  shows "line_of ss (x + of_nat k) = line_of ss x" "line_off ss (x + of_nat k) = line_off ss x + k"
proof -
  have e: "x + of_nat k = line_of ss x + of_nat (line_off ss x + k)"
    using arg_cong [OF line_split [of ss x], of "\<lambda>y. y + of_nat k"] by (simp add: algebra_simps)
  show "line_of ss (x + of_nat k) = line_of ss x" "line_off ss (x + of_nat k) = line_off ss x + k"
    unfolding e by (rule line_add [OF assms])+
qed

text \<open>The bytes of a line.\<close>

definition line_bytes :: "nat \<Rightarrow> Addr \<Rightarrow> (Addr \<Rightarrow> u8) \<Rightarrow> u8 list" where
  "line_bytes ss a f = map (\<lambda>k. f (line_of ss a + of_nat k)) [0..<2 ^ ss]"

lemma line_bytes_nth: "ss < 64 \<Longrightarrow> line_bytes ss a f ! line_off ss x = f (line_of ss a + of_nat (line_off ss x))"
  using line_off_lt [of ss x] by (simp add: line_bytes_def)

lemma length_line_bytes [simp]: "length (line_bytes ss a f) = 2 ^ ss"
  by (simp add: line_bytes_def)

section \<open>Packets\<close>

text \<open>A packet that carries a buffer of its size inside one line of \<open>2 ^ ss\<close> bytes and asks for nothing special.\<close>

definition in_line :: "nat \<Rightarrow> u16 \<Rightarrow> Packet \<Rightarrow> bool" where
  "in_line ss mx p \<longleftrightarrow> pkt_isSet p VALID_ADDR \<and> pkt_isSet p VALID_SIZE \<and> pkt_isSet p (STATIC_DATA OR DYNAMIC_DATA) \<and>
     \<not> pkt_cacheResponding p \<and> \<not> pkt_hasSharers p \<and> \<not> pk_isSecure p \<and> 0 < pk_size p \<and>
     (\<exists>d. pk_data p = Some d \<and> length d = unat (pk_size p)) \<and> line_off ss (pk_addr p) + unat (pk_size p) \<le> 2 ^ ss \<and>
     req_hasPaddr (pk_req p) \<and> line_of ss (rq_paddr (pk_req p)) = line_of ss (pk_addr p) \<and> \<not> req_isSecure (pk_req p) \<and>
     \<not> req_isCacheMaintenance (pk_req p) \<and> rq_masterId (pk_req p) < mx"

definition whole_line :: "nat \<Rightarrow> u16 \<Rightarrow> Packet \<Rightarrow> bool" where
  "whole_line ss mx p \<longleftrightarrow> in_line ss mx p \<and> pk_size p = 2 ^ ss"

lemma whole_line_aligned:
  assumes "whole_line ss mx p" "ss < 32"
  shows "line_off ss (pk_addr p) = 0" "line_of ss (pk_addr p) = pk_addr p" "length (pk_bytes p) = 2 ^ ss" "pk_data p = Some (pk_bytes p)"
proof -
  have sz: "unat (2 ^ ss :: u32) = 2 ^ ss" using assms(2) by (simp add: unat_2p_word)
  then show o: "line_off ss (pk_addr p) = 0" using assms by (auto simp: whole_line_def in_line_def)
  show "line_of ss (pk_addr p) = pk_addr p" using line_split [of ss "pk_addr p"] o by simp
  show "length (pk_bytes p) = 2 ^ ss" "pk_data p = Some (pk_bytes p)" using assms(1) sz by (auto simp: whole_line_def in_line_def pk_bytes_def)
qed

lemma in_line_getters:
  assumes "in_line ss mx p"
  shows "pkt_getAddr p = Ok (pk_addr p)" "pkt_getSize p = Ok (pk_size p)" "pkt_isSecure p = Ok False"
    "pkt_getPtr p = Ok (pk_bytes p)" "pk_data p = Some (pk_bytes p)" "length (pk_bytes p) = unat (pk_size p)"
  using assms by (auto simp: in_line_def pkt_getAddr_def pkt_getSize_def pkt_isSecure_def pkt_getPtr_def pk_bytes_def)

lemma mask_size: "ss < 32 \<Longrightarrow> (ucast (2 ^ ss - 1 :: u32) :: u64) = mask ss"
  by (simp add: ucast_2p_minus_1 mask_eq_exp_minus_1)

lemma in_line_offset:
  assumes "in_line ss mx p" "ss < 32"
  shows "pkt_getOffset (2 ^ ss) p = Ok (of_nat (line_off ss (pk_addr p)))" "pkt_getBlockAddr (2 ^ ss) p = Ok (line_of ss (pk_addr p))"
  using in_line_getters [OF assms(1)] mask_size [OF assms(2)]
  by (simp_all add: pkt_getOffset_def pkt_getBlockAddr_def line_of_def line_off_def)

section \<open>The lines of a tag store\<close>

definition line_ok :: "nat \<Rightarrow> CacheBlk \<Rightarrow> bool" where
  "line_ok ss b \<longleftrightarrow> (\<exists>d. cb_data b = Some d \<and> length d = 2 ^ ss) \<and> cb_lockList b = [] \<and>
     (isValid b \<longrightarrow> isReadable b \<and> isWritable b \<and> \<not> blk_isSecure b)"

definition tags_ok :: "nat \<Rightarrow> 'd BaseSetAssoc \<Rightarrow> bool" where
  "tags_ok ss t \<longleftrightarrow> sa_ok t \<and> sa_setShift t = ss \<and> ss < 31 \<and> (\<forall>i. linked t i \<longrightarrow> line_ok ss (sa_blk t i))"

text \<open>What a tag store holds of the line of an address: whether it is dirty, and its data.\<close>

definition line_at :: "'d BaseSetAssoc \<Rightarrow> Addr \<Rightarrow> (bool \<times> u8 list) option" where
  "line_at t x =
     (case findBlock x False t of Ok (Some i) \<Rightarrow> Some (isDirty (sa_blk t i), the (cb_data (sa_blk t i))) | _ \<Rightarrow> None)"

lemma line_at_holds:
  assumes "sa_ok t" "holds t x False i"
  shows "line_at t x = Some (isDirty (sa_blk t i), the (cb_data (sa_blk t i)))"
proof -
  obtain r where "findBlock x False t = Ok r" "\<forall>i. r = Some i \<longleftrightarrow> holds t x False i" using findBlock_Ok [OF assms(1)] by blast
  moreover from this have "r = Some i" using assms(2) by blast
  ultimately show ?thesis by (simp add: line_at_def)
qed

lemma line_at_none:
  assumes "sa_ok t"
  shows "line_at t x = None \<longleftrightarrow> \<not> (\<exists>i. holds t x False i)"
proof -
  obtain r where "findBlock x False t = Ok r" "\<forall>i. r = Some i \<longleftrightarrow> holds t x False i" using findBlock_Ok [OF assms(1)] by blast
  then show ?thesis by (cases r) (auto simp: line_at_def)
qed

lemma line_at_some:
  assumes "sa_ok t" "line_at t x = Some (b, d)"
  shows "\<exists>i. holds t x False i \<and> isDirty (sa_blk t i) = b \<and> the (cb_data (sa_blk t i)) = d"
proof -
  obtain i where i: "holds t x False i" using line_at_none [OF assms(1)] assms(2) by (metis option.distinct(1))
  then show ?thesis using line_at_holds [OF assms(1) i] assms(2) by auto
qed

lemma line_at_cong:
  assumes "sa_ok t" "sa_ok t'" "\<And>i. holds t' x False i = holds t x False i"
    "\<And>i. holds t x False i \<Longrightarrow> isDirty (sa_blk t' i) = isDirty (sa_blk t i) \<and> cb_data (sa_blk t' i) = cb_data (sa_blk t i)"
  shows "line_at t' x = line_at t x"
proof (cases "\<exists>i. holds t x False i")
  case True
  then obtain i where i: "holds t x False i" by blast
  show ?thesis using line_at_holds [OF assms(1) i] line_at_holds [OF assms(2), of x i] assms(3) [of i] assms(4) [OF i] i by simp
next
  case False
  then show ?thesis using line_at_none [OF assms(1), of x] line_at_none [OF assms(2), of x] assms(3) by simp
qed

lemma tags_ok_geometry:
  assumes "tags_ok ss t"
  shows "sa_blkMask t = mask ss" "sa_blkSize t = 2 ^ ss" "blkAlign x t = line_of ss x" "ss < 31" "ss < 32" "ss < 64" "sa_ok t"
proof -
  have "\<exists>sb. geometry_ok t ss sb" using assms unfolding tags_ok_def sa_ok_def geometry_ok_def by blast
  then show "sa_blkMask t = mask ss" "sa_blkSize t = 2 ^ ss" by (auto simp: geometry_ok_def)
  then show "blkAlign x t = line_of ss x" by (simp add: blkAlign_def line_of_def)
  show "ss < 31" "ss < 32" "ss < 64" "sa_ok t" using assms by (auto simp: tags_ok_def)
qed

lemma holds_line: "tags_ok ss t \<Longrightarrow> line_of ss x = line_of ss y \<Longrightarrow> holds t x s i = holds t y s i"
  by (simp add: holds_def tags_ok_geometry(3))

lemma holds_iff_line: "tags_ok ss t \<Longrightarrow> holds t y s i \<Longrightarrow> holds t x s i \<longleftrightarrow> line_of ss x = line_of ss y"
  by (auto simp: holds_def tags_ok_geometry(3))

lemma line_at_line:
  assumes "tags_ok ss t" "line_of ss x = line_of ss y"
  shows "line_at t x = line_at t y"
proof (cases "\<exists>i. holds t x False i")
  case True
  then obtain i where i: "holds t x False i" by blast
  then have j: "holds t y False i" using holds_line [OF assms] by blast
  show ?thesis using line_at_holds [OF tags_ok_geometry(7) [OF assms(1)] i] line_at_holds [OF tags_ok_geometry(7) [OF assms(1)] j] by simp
next
  case False
  then have "line_at t x = None" "line_at t y = None"
    using holds_line [OF assms] line_at_none [OF tags_ok_geometry(7) [OF assms(1)]] by metis+
  then show ?thesis by simp
qed

lemma holdsD:
  assumes "tags_ok ss t" "holds t x s i"
  shows "linked t i" "isValid (sa_blk t i)" "line_ok ss (sa_blk t i)" "isReadable (sa_blk t i)" "isWritable (sa_blk t i)"
    "cb_lockList (sa_blk t i) = []" "s = False" "sa_regenerateBlkAddr (sa_blk t i) t = line_of ss x"
  using assms by (auto simp: tags_ok_def holds_def line_ok_def tags_ok_geometry(3) [OF assms(1)])

text \<open>Changing a held block in place.\<close>

lemma update_line:
  assumes "tags_ok ss t" "holds t a False i" "b = (sa_blk t i)\<lparr>cb_data := Some d, cb_status := st, cb_whenReady := w\<rparr>" "length d = 2 ^ ss"
    "isReadable b" "isWritable b" "\<not> blk_isSecure b" "isValid b"
  shows "tags_ok ss (set_blk i b t)" "holds (set_blk i b t) = holds t" "same_shape t (set_blk i b t)"
    "line_at (set_blk i b t) x = (if line_of ss x = line_of ss a then Some (isDirty b, d) else line_at t x)"
proof -
  note h = holdsD [OF assms(1,2)] and sa = tags_ok_geometry(7) [OF assms(1)]
  have sec: "\<not> blk_isSecure (sa_blk t i)" using assms(2) by (simp add: holds_def)
  have k: "sa_ok (set_blk i b t)" "holds (set_blk i b t) = holds t"
    using sa_ok_touch [OF sa h(1), of b] assms(3,7,8) h(2) sec by auto
  have blk: "sa_blk (set_blk i b t) j = (if j = i then b else sa_blk t j)" for j by (rule sa_blk_set_blk [OF sa h(1)])
  have "cb_lockList b = []" using assms(3) h(6) by simp
  then have "line_ok ss b" using assms(3-8) by (auto simp: line_ok_def)
  then show "tags_ok ss (set_blk i b t)" using assms(1) k(1) blk by (auto simp: tags_ok_def) (simp add: set_blk_def)
  show "holds (set_blk i b t) = holds t" "same_shape t (set_blk i b t)" using k(2) by simp_all
  show "line_at (set_blk i b t) x = (if line_of ss x = line_of ss a then Some (isDirty b, d) else line_at t x)"
  proof (cases "line_of ss x = line_of ss a")
    case True
    then have "holds (set_blk i b t) x False i" using assms(2) holds_line [OF assms(1)] k(2) by metis
    then show ?thesis using line_at_holds [OF k(1)] True blk assms(3) by simp
  next
    case False
    then have "\<not> holds t x False i" using holds_iff_line [OF assms(1,2)] by simp
    then have "holds t x False j \<Longrightarrow> j \<noteq> i" for j by auto
    then have "line_at (set_blk i b t) x = line_at t x" by (intro line_at_cong [OF sa k(1)]) (auto simp: k(2) blk)
    then show ?thesis using False by simp
  qed
qed

text \<open>Dropping a block.\<close>

lemma drop_line:
  assumes "tags_ok ss t" "holds t a False i" "\<And>j. sa_blk t' j = (if j = i then blk_invalidate b else sa_blk t j)" "sa_ok t'" "same_shape t t'"
    "\<And>x s j. holds t' x s j \<longleftrightarrow> holds t x s j \<and> j \<noteq> i" "cb_data b = Some d" "length d = 2 ^ ss"
  shows "tags_ok ss t'" "line_at t' x = (if line_of ss x = line_of ss a then None else line_at t x)"
proof -
  have "line_ok ss (blk_invalidate b)" using assms(7,8) by (simp add: line_ok_def status_bits) (simp add: blk_invalidate_def)
  then show "tags_ok ss t'" using assms(1,3,4,5) by (auto simp: tags_ok_def same_shape_simps(1) [OF assms(5)]) (simp add: same_shape_def)
  show "line_at t' x = (if line_of ss x = line_of ss a then None else line_at t x)"
  proof (cases "line_of ss x = line_of ss a")
    case True
    then have "holds t x False i" using assms(2) holds_line [OF assms(1)] by metis
    then have "\<not> (\<exists>j. holds t' x False j)" using holds_unique [OF tags_ok_geometry(7) [OF assms(1)]] assms(6) by blast
    then show ?thesis using line_at_none [OF assms(4)] True by simp
  next
    case False
    then have "\<not> holds t x False i" using holds_iff_line [OF assms(1,2)] by simp
    then have "holds t x False j \<Longrightarrow> j \<noteq> i" for j by auto
    then have "line_at t' x = line_at t x" by (intro line_at_cong [OF tags_ok_geometry(7) [OF assms(1)] assms(4)]) (auto simp: assms(3,6))
    then show ?thesis using False by simp
  qed
qed

text \<open>Making a block valid that was inserted for a line that is not held.\<close>

lemma activate_line:
  assumes "tags_ok ss t" "linked t i" "\<not> isValid (sa_blk t i)" "cb_set (sa_blk t i) = int (set_index a t)"
    "cb_tag (sa_blk t i) = extractTag a t" "line_at t a = None"
    "b = (sa_blk t i)\<lparr>cb_data := Some d, cb_status := st, cb_whenReady := w\<rparr>" "length d = 2 ^ ss"
    "isReadable b" "isWritable b" "\<not> blk_isSecure b" "isValid b"
  shows "tags_ok ss (set_blk i b t)" "holds (set_blk i b t) a False i"
    "line_at (set_blk i b t) x = (if line_of ss x = line_of ss a then Some (isDirty b, d) else line_at t x)"
proof -
  note sa = tags_ok_geometry(7) [OF assms(1)] and al = tags_ok_geometry(3) [OF assms(1)]
  have free: "\<not> (\<exists>j. holds t a False j)" using assms(6) line_at_none [OF sa] by simp
  have k: "sa_ok (set_blk i b t)"
    "\<And>x s j. holds (set_blk i b t) x s j \<longleftrightarrow> (if j = i then s = False \<and> blkAlign x t = blkAlign a t else holds t x s j)"
    using activate_Ok [OF sa assms(2-5) free, of b] assms(7,11,12) by simp_all
  have blk: "sa_blk (set_blk i b t) j = (if j = i then b else sa_blk t j)" for j by (rule sa_blk_set_blk [OF sa assms(2)])
  have "cb_lockList b = []" using assms(1,2,7) by (simp add: tags_ok_def line_ok_def)
  then have "line_ok ss b" using assms(7-12) by (auto simp: line_ok_def)
  then show "tags_ok ss (set_blk i b t)" using assms(1) k(1) blk by (auto simp: tags_ok_def) (simp add: set_blk_def)
  show "holds (set_blk i b t) a False i" using k(2) by simp
  show "line_at (set_blk i b t) x = (if line_of ss x = line_of ss a then Some (isDirty b, d) else line_at t x)"
  proof (cases "line_of ss x = line_of ss a")
    case True
    then have "holds (set_blk i b t) x False i" using k(2) al by simp
    then show ?thesis using line_at_holds [OF k(1)] True blk assms(7) by simp
  next
    case False
    have n: "\<not> holds t x False i" using assms(3) by (simp add: holds_def)
    have "line_at (set_blk i b t) x = line_at t x"
      by (rule line_at_cong [OF sa k(1)]) (use k(2) al False n blk in \<open>auto split: if_splits\<close>)
    then show ?thesis using False by simp
  qed
qed

section \<open>Writebacks\<close>

lemma status_updates [simp]:
  "isValid (clear_status BlkDirty b) = isValid b" "isValid (clear_status BlkWritable b) = isValid b"
  "blk_isSecure (clear_status BlkDirty b) = blk_isSecure b" "blk_isSecure (clear_status BlkWritable b) = blk_isSecure b"
  by (simp_all add: status_bits clear_status_def blk_bit_defs bit_simps)

lemma clear_status_fields [simp]:
  "cb_data (clear_status s b) = cb_data b" "cb_set (clear_status s b) = cb_set b" "cb_way (clear_status s b) = cb_way b"
  "cb_tag (clear_status s b) = cb_tag b" "blk_invalidate (clear_status s b) = blk_invalidate b"
  by (simp_all add: clear_status_def blk_invalidate_def)

lemma phys_request:
  "req_hasPaddr ((Request_phys a sz 0 m now)\<lparr>rq_taskId := k\<rparr>)" "req_hasSize ((Request_phys a sz 0 m now)\<lparr>rq_taskId := k\<rparr>)"
  "req_getPaddr ((Request_phys a sz 0 m now)\<lparr>rq_taskId := k\<rparr>) = Ok a" "req_getSize ((Request_phys a sz 0 m now)\<lparr>rq_taskId := k\<rparr>) = Ok sz"
  "\<not> req_isSecure ((Request_phys a sz 0 m now)\<lparr>rq_taskId := k\<rparr>)" "\<not> req_isCacheMaintenance ((Request_phys a sz 0 m now)\<lparr>rq_taskId := k\<rparr>)"
  "\<not> req_isInstFetch ((Request_phys a sz 0 m now)\<lparr>rq_taskId := k\<rparr>)" "rq_masterId ((Request_phys a sz 0 m now)\<lparr>rq_taskId := k\<rparr>) = m"
  "rq_paddr ((Request_phys a sz 0 m now)\<lparr>rq_taskId := k\<rparr>) = a"
  by (simp_all add: Request_phys_def setPhys_def empty_Request_def req_hasPaddr_def req_hasSize_def req_private_def req_getPaddr_def
      req_getSize_def req_isSecure_def req_isCacheMaintenance_def req_isInstFetch_def req_isSet_def flags_set_def flags_clear_def
      flags_isSet_def req_private_defs STICKY_FLAGS_def INST_FETCH_def STICKY_PRIVATE_FLAGS_def)

text \<open>A packet made for a whole line, with its buffer allocated.\<close>

lemma allocated_packet:
  assumes "cmd_hasData c \<or> c = ReadReq" "ss < 31"
  shows "\<exists>p. pkt_allocate (pkt_set VALID_SIZE (pkt_set VALID_ADDR ((blank_Packet n req c)\<lparr>pk_addr := a, pk_isSecure := s\<rparr>)
      \<lparr>pk_size := 2 ^ ss\<rparr>)) = Ok p \<and> pk_cmd p = c \<and> pk_req p = req \<and> pk_addr p = a \<and> pk_isSecure p = s \<and> pk_size p = 2 ^ ss \<and>
    pk_data p = Some (replicate (2 ^ ss) 0) \<and> pkt_isSet p VALID_ADDR \<and> pkt_isSet p VALID_SIZE \<and>
    pkt_isSet p (STATIC_DATA OR DYNAMIC_DATA) \<and> \<not> pkt_cacheResponding p \<and> \<not> pkt_hasSharers p"
proof -
  have "cmd_hasData c \<or> pkt_hasRespData (pkt_set VALID_SIZE (pkt_set VALID_ADDR ((blank_Packet n req c)\<lparr>pk_addr := a, pk_isSecure := s\<rparr>)
      \<lparr>pk_size := 2 ^ ss\<rparr>))" using assms(1) by (auto simp: pkt_hasRespData_def pkt_set_def blank_Packet_def cmd_defs)
  then show ?thesis
    using assms(2) by (simp add: pkt_allocate_def pkt_set_def blank_Packet_def pkt_getSize_def pkt_isSet_def pkt_cacheResponding_def
        pkt_hasSharers_def flags_isSet_def flags_set_def pkt_flag_defs unat_2p_word)
qed

definition same_config :: "'d BaseCache \<Rightarrow> 'd BaseCache \<Rightarrow> bool" where
  "same_config c c' \<longleftrightarrow> bc_policy c' = bc_policy c \<and> bc_tempBlock c' = bc_tempBlock c \<and>
     bc_tempBlockWriteback c' = bc_tempBlockWriteback c \<and> bc_tempEvent c' = bc_tempEvent c \<and> bc_writebackClean c' = bc_writebackClean c \<and>
     bc_blkSize c' = bc_blkSize c \<and> bc_mostly_incl c' = bc_mostly_incl c \<and> bc_isReadOnly c' = bc_isReadOnly c \<and>
     bc_writeBuffer c' = bc_writeBuffer c \<and> same_shape (bc_tags c) (bc_tags c')"

lemma same_config_refl [simp]: "same_config c c"
  by (simp add: same_config_def)

lemma same_config_trans: "same_config c c' \<Longrightarrow> same_config c' c'' \<Longrightarrow> same_config c c''"
  by (auto simp: same_config_def intro: same_shape_trans)

text \<open>A writable cache whose tags and line size agree, and a mostly inclusive one between accesses.\<close>

definition cache_base :: "nat \<Rightarrow> 'd BaseCache \<Rightarrow> bool" where
  "cache_base ss c \<longleftrightarrow> tags_ok ss (bc_tags c) \<and> bc_blkSize c = 2 ^ ss \<and> \<not> bc_isReadOnly c \<and> bc_writeBuffer c = []"

definition cache_ok :: "nat \<Rightarrow> 'd BaseCache \<Rightarrow> bool" where
  "cache_ok ss c \<longleftrightarrow> tags_ok ss (bc_tags c) \<and> bc_blkSize c = 2 ^ ss \<and> \<not> bc_isReadOnly c \<and> bc_mostly_incl c \<and>
     bc_tempBlockWriteback c = None \<and> bc_writeBuffer c = []"

lemma cache_ok_base: "cache_ok ss c \<Longrightarrow> cache_base ss c"
  by (simp add: cache_ok_def cache_base_def)

lemma cache_ok_config: "cache_ok ss c \<Longrightarrow> same_config c c' \<Longrightarrow> cache_ok ss c' \<longleftrightarrow> tags_ok ss (bc_tags c')"
  by (auto simp: cache_ok_def same_config_def)

lemma tag_pointer [simp]:
  "get_blk (TagBlk i) c = sa_blk (bc_tags c) i" "put_blk (TagBlk i) b c = c\<lparr>bc_tags := set_blk i b (bc_tags c)\<rparr>"
  "cache_regenerateBlkAddr (TagBlk i) c = sa_regenerateBlkAddr (sa_blk (bc_tags c) i) (bc_tags c)"
  by (simp_all add: get_blk_def put_blk_def cache_regenerateBlkAddr_def)

text \<open>The packet of a writeback: the whole line of \<open>a\<close> with data \<open>d\<close>.\<close>

definition line_writeback :: "nat \<Rightarrow> u16 \<Rightarrow> Command \<Rightarrow> Addr \<Rightarrow> u8 list \<Rightarrow> Packet \<Rightarrow> bool" where
  "line_writeback ss mx k a d w \<longleftrightarrow> whole_line ss mx w \<and> pk_cmd w = k \<and> pk_addr w = a \<and> pk_bytes w = d \<and> \<not> req_isInstFetch (pk_req w)"

lemma set_line_data:
  assumes "pkt_isSet p VALID_ADDR" "pkt_isSet p VALID_SIZE" "pkt_isSet p (STATIC_DATA OR DYNAMIC_DATA)" "pk_size p = 2 ^ ss" "ss < 31"
    "pk_data p = Some d0" "length d0 = 2 ^ ss" "length d = 2 ^ ss" "line_of ss (pk_addr p) = pk_addr p"
  shows "setDataFromBlock d (2 ^ ss) p = Ok (p\<lparr>pk_data := Some d\<rparr>)"
proof -
  have "line_off ss (pk_addr p) = 0" using line_off_line [of ss "pk_addr p"] by (simp only: assms(9))
  then have "pkt_getOffset (2 ^ ss) p = Ok 0"
    using assms(1,5) mask_size [of ss] by (simp add: pkt_getOffset_def pkt_getAddr_def line_off_def unat_eq_0)
  moreover have "unat (2 ^ ss :: u32) = 2 ^ ss" using assms(5) by (simp add: unat_2p_word)
  ultimately show ?thesis using assms
    by (simp add: setDataFromBlock_def pkt_setData_def pkt_getPtr_def pkt_getSize_def memcpy_def overwrite_def)
qed

lemma line_size: "ss < 31 \<Longrightarrow> unat (2 ^ ss :: u32) = 2 ^ ss" "ss < 31 \<Longrightarrow> 0 < (2 ^ ss :: u32)"
  by (simp_all add: unat_2p_word word_less_nat_alt)

lemma writebackBlk_Ok:
  assumes ok: "cache_ok ss c" and h: "holds (bc_tags c) a False i"
    and m: "wbMasterId < mx" and d: "isDirty (sa_blk (bc_tags c) i) \<or> bc_writebackClean c"
  shows "\<exists>w n. writebackBlk env (TagBlk i) c = Ok (w, c\<lparr>bc_writebacks := n,
      bc_tags := set_blk i (clear_status BlkDirty (clear_status BlkWritable (sa_blk (bc_tags c) i))) (bc_tags c)\<rparr>) \<and>
    line_writeback ss mx (if isDirty (sa_blk (bc_tags c) i) then WritebackDirty else WritebackClean) (line_of ss a)
      (the (cb_data (sa_blk (bc_tags c) i))) w"
proof -
  let ?t = "bc_tags c" and ?b = "sa_blk (bc_tags c) i"
  let ?k = "if isDirty ?b then WritebackDirty else WritebackClean"
  have tok: "tags_ok ss ?t" using ok by (simp add: cache_ok_def)
  note hd = holdsD [OF tok h] and ss = tags_ok_geometry(4-6) [OF tok]
  obtain dt where dt: "cb_data ?b = Some dt" "length dt = 2 ^ ss" using hd(3) by (auto simp: line_ok_def)
  have sec: "\<not> blk_isSecure ?b" using h by (simp add: holds_def)
  have bs: "bc_blkSize c = 2 ^ ss" using ok by (simp add: cache_ok_def)
  define req where "req = (Request_phys (line_of ss a) (2 ^ ss) 0 wbMasterId (ce_curTick env))\<lparr>rq_taskId := cb_task_id ?b\<rparr>"
  note rq = phys_request [where a = "line_of ss a" and sz = "2 ^ ss" and m = wbMasterId and now = "ce_curTick env" and k = "cb_task_id ?b", folded req_def]
  have reqR: "wb_request env wbMasterId (TagBlk i) (c\<lparr>bc_writebacks := n\<rparr>) = Ok req" for n
    using hd(8) sec bs by (simp add: wb_request_def req_def)
  have "cmd_hasData ?k \<or> ?k = ReadReq" by (simp add: cmd_defs)
  from allocated_packet [OF this ss(1), where n = "ce_pktId env" and req = req and a = "line_of ss a" and s = False] obtain p where
    p: "pkt_allocate (pkt_set VALID_SIZE (pkt_set VALID_ADDR ((blank_Packet (ce_pktId env) req ?k)\<lparr>pk_addr := line_of ss a, pk_isSecure := False\<rparr>)
      \<lparr>pk_size := 2 ^ ss\<rparr>)) = Ok p" "pk_cmd p = ?k" "pk_req p = req" "pk_addr p = line_of ss a" "\<not> pk_isSecure p" "pk_size p = 2 ^ ss"
    "pk_data p = Some (replicate (2 ^ ss) 0)" "pkt_isSet p VALID_ADDR" "pkt_isSet p VALID_SIZE"
    "pkt_isSet p (STATIC_DATA OR DYNAMIC_DATA)" "\<not> pkt_cacheResponding p" "\<not> pkt_hasSharers p" by blast
  have pk: "new_Packet (ce_pktId env) req ?k = Ok (pkt_set VALID_SIZE (pkt_set VALID_ADDR
      ((blank_Packet (ce_pktId env) req ?k)\<lparr>pk_addr := line_of ss a, pk_isSecure := False\<rparr>)\<lparr>pk_size := 2 ^ ss\<rparr>))"
    using rq by (simp add: new_Packet_def)
  have sd: "setDataFromBlock dt (2 ^ ss) p = Ok (p\<lparr>pk_data := Some dt\<rparr>)"
    by (rule set_line_data [OF p(8-10,6) ss(1) p(7) _ dt(2)]) (simp_all add: p(4))
  have sz: "unat (2 ^ ss :: u32) = 2 ^ ss" "0 < (2 ^ ss :: u32)" by (rule line_size [OF ss(1)])+
  have fl: "pkt_isSet (p\<lparr>pk_data := x\<rparr>) f = pkt_isSet p f" for x f by (simp add: pkt_isSet_def)
  have "in_line ss mx (p\<lparr>pk_data := Some dt\<rparr>)"
    using p(5-12) sz rq m dt(2) by (simp add: in_line_def p(3,4) fl pkt_cacheResponding_def pkt_hasSharers_def)
  then have "line_writeback ss mx ?k (line_of ss a) dt (p\<lparr>pk_data := Some dt\<rparr>)"
    using p(2,3,4,6) rq(7) by (simp add: line_writeback_def whole_line_def pk_bytes_def)
  moreover have "writebackBlk env (TagBlk i) c = Ok (p\<lparr>pk_data := Some dt\<rparr>, c\<lparr>bc_writebacks := (bc_writebacks c)(wbMasterId := Suc (bc_writebacks c wbMasterId)),
      bc_tags := set_blk i (clear_status BlkDirty (clear_status BlkWritable ?b)) ?t\<rparr>)"
    using ok d hd(2,5) bs dt p(1) sd
    by (simp add: writebackBlk_def cache_ok_def hand_over_def blk_data_def reqR pk Let_def)
  ultimately show ?thesis using dt(1) by auto
qed

lemma invalidate_line:
  assumes tok: "tags_ok ss t" and h: "holds t a False i"
    and t1: "bc_tags c = t1" "sa_ok t1" "holds t1 = holds t" "same_shape t t1" "\<And>j. sa_blk t1 j = (if j = i then b1 else sa_blk t j)"
    and b1: "cb_data b1 = cb_data (sa_blk t i)" "cb_set b1 = cb_set (sa_blk t i)"
  shows "\<exists>t2. invalidateBlock (TagBlk i) c = Ok (c\<lparr>bc_tags := t2\<rparr>) \<and> tags_ok ss t2 \<and> same_shape t t2 \<and>
    \<not> isValid (sa_blk t2 i) \<and> cb_set (sa_blk t2 i) = cb_set (sa_blk t i) \<and>
    (\<forall>x. line_at t2 x = (if line_of ss x = line_of ss a then None else line_at t x))"
proof -
  have h1: "holds t1 a False i" using h t1(3) by simp
  then have l: "linked t1 i" "isValid (sa_blk t1 i)" by (simp_all add: holds_def)
  from sa_invalidate_Ok [OF t1(2) l, of "bc_policy c"] obtain t2 where
    t2: "sa_invalidate (bc_policy c) i t1 = Ok t2" "sa_ok t2" "\<forall>a s j. holds t2 a s j \<longleftrightarrow> holds t1 a s j \<and> j \<noteq> i" "same_shape t1 t2"
      "\<forall>j. sa_blk t2 j = (if j = i then blk_invalidate (sa_blk t1 i) else sa_blk t1 j)" by blast
  have b2: "sa_blk t2 i = blk_invalidate b1" using t2(5) t1(5) by simp
  have li: "linked t2 i" using l(1) by (simp add: same_shape_simps(1) [OF t2(4)])
  define t3 where "t3 = set_blk i (blk_invalidate (sa_blk t2 i)) t2"
  have idem: "blk_invalidate (blk_invalidate b1) = blk_invalidate b1" by (simp add: blk_invalidate_def)
  have ok3: "sa_ok t3" unfolding t3_def by (rule sa_ok_set_blk [OF t2(2) li]) (simp_all add: blk_invalidate_def status_bits)
  have blk3: "sa_blk t3 j = (if j = i then blk_invalidate b1 else sa_blk t j)" for j
    unfolding t3_def sa_blk_set_blk [OF t2(2) li] using t2(5) t1(5) b2 idem by simp
  have h3: "holds t3 x s j \<longleftrightarrow> holds t x s j \<and> j \<noteq> i" for x s j
    unfolding t3_def holds_set_blk [OF t2(2) li] using t2(3) t1(3) by simp
  have sh: "same_shape t t3" unfolding t3_def using same_shape_trans [OF t1(4) same_shape_trans [OF t2(4) same_shape_set_blk]] .
  obtain d where d: "cb_data b1 = Some d" "length d = 2 ^ ss" using holdsD(3) [OF tok h] b1(1) by (auto simp: line_ok_def)
  note dl = drop_line [OF tok h blk3 ok3 sh h3 d]
  have "invalidateBlock (TagBlk i) c = Ok (c\<lparr>bc_tags := t3\<rparr>)" using t1(1) t2(1) by (simp add: invalidateBlock_def t3_def)
  moreover have "\<not> isValid (sa_blk t3 i)" "cb_set (sa_blk t3 i) = cb_set (sa_blk t i)" using b1(2) by (simp_all add: blk3) (simp add: blk_invalidate_def)
  ultimately show ?thesis using dl sh by blast
qed

lemma evict_Ok:
  assumes ok: "cache_ok ss c" and h: "holds (bc_tags c) a False i" and m: "wbMasterId < mx"
  shows "\<exists>wb c'. nc_evictBlock env (TagBlk i) c = Ok (wb, c') \<and> same_config c c' \<and> tags_ok ss (bc_tags c') \<and>
    \<not> isValid (sa_blk (bc_tags c') i) \<and> cb_set (sa_blk (bc_tags c') i) = cb_set (sa_blk (bc_tags c) i) \<and>
    (\<forall>x. line_at (bc_tags c') x = (if line_of ss x = line_of ss a then None else line_at (bc_tags c) x)) \<and>
    (case wb of None \<Rightarrow> \<not> isDirty (sa_blk (bc_tags c) i)
     | Some w \<Rightarrow> line_writeback ss mx (if isDirty (sa_blk (bc_tags c) i) then WritebackDirty else WritebackClean) (line_of ss a)
                   (the (cb_data (sa_blk (bc_tags c) i))) w)"
proof -
  let ?t = "bc_tags c" and ?b = "sa_blk (bc_tags c) i"
  have tok: "tags_ok ss ?t" using ok by (simp add: cache_ok_def)
  note sa = tags_ok_geometry(7) [OF tok] and l = holdsD(1) [OF tok h]
  show ?thesis
  proof (cases "isDirty ?b \<or> bc_writebackClean c")
    case False
    obtain t2 where "invalidateBlock (TagBlk i) c = Ok (c\<lparr>bc_tags := t2\<rparr>)" "tags_ok ss t2" "same_shape ?t t2"
      "\<not> isValid (sa_blk t2 i)" "cb_set (sa_blk t2 i) = cb_set ?b"
      "\<forall>x. line_at t2 x = (if line_of ss x = line_of ss a then None else line_at ?t x)"
      using invalidate_line [OF tok h refl sa refl same_shape_refl, of ?b] by auto
    then show ?thesis using False by (simp add: nc_evictBlock_def same_config_def)
  next
    case True
    let ?b1 = "clear_status BlkDirty (clear_status BlkWritable ?b)"
    from writebackBlk_Ok [OF ok h m True, of env] obtain w n where
      w: "writebackBlk env (TagBlk i) c = Ok (w, c\<lparr>bc_writebacks := n, bc_tags := set_blk i ?b1 ?t\<rparr>)"
      "line_writeback ss mx (if isDirty ?b then WritebackDirty else WritebackClean) (line_of ss a) (the (cb_data ?b)) w" by blast
    have t1: "sa_ok (set_blk i ?b1 ?t)" "holds (set_blk i ?b1 ?t) = holds ?t" using sa_ok_touch [OF sa l, of ?b1] by simp_all
    obtain t2 where "invalidateBlock (TagBlk i) (c\<lparr>bc_writebacks := n, bc_tags := set_blk i ?b1 ?t\<rparr>) = Ok (c\<lparr>bc_writebacks := n, bc_tags := t2\<rparr>)"
      "tags_ok ss t2" "same_shape ?t t2" "\<not> isValid (sa_blk t2 i)" "cb_set (sa_blk t2 i) = cb_set ?b"
      "\<forall>x. line_at t2 x = (if line_of ss x = line_of ss a then None else line_at ?t x)"
      using invalidate_line [OF tok h _ t1 same_shape_set_blk sa_blk_set_blk [OF sa l],
          of "c\<lparr>bc_writebacks := n, bc_tags := set_blk i ?b1 ?t\<rparr>"] by auto
    then show ?thesis using True w by (simp add: nc_evictBlock_def same_config_def)
  qed
qed

text \<open>What the cache needs of its surroundings.\<close>

definition env_ok :: "u16 \<Rightarrow> cache_env \<Rightarrow> 'd BaseCache \<Rightarrow> bool" where
  "env_ok mx env c \<longleftrightarrow> ce_maxMasters env = mx \<and> wbMasterId < mx \<and> unat (ce_victimDraw env) < unat (sa_assoc (bc_tags c)) \<and>
     (\<forall>a s. \<not> ce_mshr env a s)"

text \<open>The lines that leave the cache when a new one comes in, with the packets that carry them.\<close>

definition leaves :: "nat \<Rightarrow> u16 \<Rightarrow> 'd BaseSetAssoc \<Rightarrow> 'd BaseSetAssoc \<Rightarrow> Packet list \<Rightarrow> bool" where
  "leaves ss mx t t' wbs \<longleftrightarrow> (wbs = [] \<and> (\<forall>x. line_at t' x = line_at t x)) \<or>
     (\<exists>a b d. line_at t a = Some (b, d) \<and> (\<forall>x. line_at t' x = (if line_of ss x = line_of ss a then None else line_at t x)) \<and>
       (if wbs = [] then \<not> b else \<exists>w. wbs = [w] \<and> line_writeback ss mx (if b then WritebackDirty else WritebackClean) (line_of ss a) d w))"

lemma leavesE:
  assumes "leaves ss mx t t' wbs"
  obtains (none) "wbs = []" "\<And>x. line_at t' x = line_at t x"
  | (dropped) a d where "wbs = []" "line_at t a = Some (False, d)" "\<And>x. line_at t' x = (if line_of ss x = line_of ss a then None else line_at t x)"
  | (sent) a b d w where "wbs = [w]" "line_at t a = Some (b, d)" "\<And>x. line_at t' x = (if line_of ss x = line_of ss a then None else line_at t x)"
      "line_writeback ss mx (if b then WritebackDirty else WritebackClean) (line_of ss a) d w"
proof -
  from assms consider "wbs = []" "\<forall>x. line_at t' x = line_at t x"
    | a b d where "line_at t a = Some (b, d)" "\<forall>x. line_at t' x = (if line_of ss x = line_of ss a then None else line_at t x)"
        "if wbs = [] then \<not> b else \<exists>w. wbs = [w] \<and> line_writeback ss mx (if b then WritebackDirty else WritebackClean) (line_of ss a) d w"
    unfolding leaves_def by blast
  then show thesis
  proof cases
    case 2
    then show thesis using dropped [of a d] sent [of _ a b d] by (cases "wbs = []") auto
  qed (use none in blast)
qed

lemma line_ok_insert: "line_ok ss b \<Longrightarrow> line_ok ss (blk_insert now tag s m k b)"
  by (simp add: line_ok_def) (auto simp: blk_insert_def)

lemma holds_some:
  assumes "tags_ok ss t" "linked t i" "isValid (sa_blk t i)"
  shows "\<exists>a. holds t a False i"
proof -
  let ?a = "sa_regenerateBlkAddr (sa_blk t i) t"
  have "ss \<le> sa_tagShift t" "sa_setShift t = ss" using assms(1) unfolding tags_ok_def sa_ok_def geometry_ok_def by auto
  then have "blkAlign ?a t = ?a" unfolding tags_ok_geometry(3) [OF assms(1)]
    by (intro bit_word_eqI) (auto simp: line_of_def sa_regenerateBlkAddr_def bit_simps)
  moreover have "\<not> blk_isSecure (sa_blk t i)" using assms by (simp add: tags_ok_def line_ok_def)
  ultimately have "holds t ?a False i" using assms(2,3) by (simp add: holds_def)
  then show ?thesis by blast
qed

lemma repl_frame [simp]:
  "line_at (t\<lparr>sa_repl := h\<rparr>) x = line_at t x" "tags_ok ss (t\<lparr>sa_repl := h\<rparr>) = tags_ok ss t" "set_index a (t\<lparr>sa_repl := h\<rparr>) = set_index a t"
  "same_shape t (t\<lparr>sa_repl := h\<rparr>)"
  by (simp_all only: line_at_def findBlock_def extractSet_def extractTag_def sa_blk_frame)
    (simp_all add: tags_ok_def set_index_def same_shape_def)

lemma insert_line:
  assumes tok: "tags_ok ss t" and l: "linked t i" "\<not> isValid (sa_blk t i)" and p: "in_line ss mx pkt"
  shows "\<exists>t'. insertBlock rp draw mx now pkt i t = Ok t' \<and> tags_ok ss t' \<and> same_shape t t' \<and> (\<forall>x. line_at t' x = line_at t x) \<and>
    linked t' i \<and> \<not> isValid (sa_blk t' i) \<and> cb_status (sa_blk t' i) = 0 \<and> cb_set (sa_blk t' i) = cb_set (sa_blk t i) \<and>
    cb_tag (sa_blk t' i) = extractTag (pk_addr pkt) t'"
proof -
  note sa = tags_ok_geometry(7) [OF tok]
  have mx: "rq_masterId (pk_req pkt) < mx" using p by (simp add: in_line_def)
  from insertBlock_Ok [OF sa l in_line_getters(1,3) [OF p] mx, of rp draw now] obtain t' where
    t': "insertBlock rp draw mx now pkt i t = Ok t'" "sa_ok t'" "holds t' = holds t" "same_shape t t'"
    "\<forall>j. sa_blk t' j = (if j = i then blk_insert now (extractTag (pk_addr pkt) t) False (int (unat (rq_masterId (pk_req pkt))))
       (rq_taskId (pk_req pkt)) (sa_blk t i) else sa_blk t j)" by blast
  have "line_at t' x = line_at t x" for x
    by (rule line_at_cong [OF sa t'(2)]) (use l(2) t'(3,5) in \<open>auto simp: holds_def\<close>)
  moreover have "tags_ok ss t'"
    using tok t'(2,4,5) line_ok_insert by (auto simp: tags_ok_def same_shape_simps [OF t'(4)]) (simp add: same_shape_def)
  moreover have "\<not> isValid (sa_blk t' i)" "cb_status (sa_blk t' i) = 0" "cb_set (sa_blk t' i) = cb_set (sa_blk t i)"
    "cb_tag (sa_blk t' i) = extractTag (pk_addr pkt) t'"
    using t'(5) by (simp_all add: same_shape_simps [OF t'(4)]) (simp_all add: blk_insert_def)
  ultimately show ?thesis using t'(1,4) l(1) by (simp add: same_shape_simps [OF t'(4)])
qed

lemma allocate_Ok:
  assumes ok: "cache_ok ss c" and p: "in_line ss mx pkt" and env: "env_ok mx env c" and rp: "replacement_policy (bc_policy c) rok"
    and free: "line_at (bc_tags c) (pk_addr pkt) = None"
  shows "\<exists>i wbs c'. allocateBlock nc_evictBlock env pkt c = Ok (Some (TagBlk i), wbs, c') \<and> same_config c c' \<and> tags_ok ss (bc_tags c') \<and>
    leaves ss mx (bc_tags c) (bc_tags c') wbs \<and> linked (bc_tags c') i \<and> \<not> isValid (sa_blk (bc_tags c') i) \<and>
    cb_status (sa_blk (bc_tags c') i) = 0 \<and> cb_set (sa_blk (bc_tags c') i) = int (set_index (pk_addr pkt) (bc_tags c')) \<and>
    cb_tag (sa_blk (bc_tags c') i) = extractTag (pk_addr pkt) (bc_tags c')"
proof -
  let ?t = "bc_tags c" and ?a = "pk_addr pkt"
  have tok: "tags_ok ss ?t" using ok by (simp add: cache_ok_def)
  note sa = tags_ok_geometry(7) [OF tok] and g = in_line_getters [OF p]
  have mx: "ce_maxMasters env = mx" "wbMasterId < mx" and mshr: "\<not> ce_mshr env x s" for x s using env by (auto simp: env_ok_def)
  from replacement_policy.findVictim_Ok [OF rp sa, of "ce_victimDraw env" "ce_curTick env" ?a] env obtain i h where
    v: "findVictim (bc_policy c) (ce_curTick env) (ce_victimDraw env) ?a ?t = Ok (i, [i], ?t\<lparr>sa_repl := h\<rparr>)" "linked ?t i"
      "cb_set (sa_blk ?t i) = int (set_index ?a ?t)" by (auto simp: env_ok_def)
  have ins: "\<exists>t'. insertBlock (bc_policy c1) (ce_resetDraw env) (ce_maxMasters env) (ce_curTick env) pkt i (bc_tags c1) = Ok t' \<and>
      same_config c (c1\<lparr>bc_tags := t'\<rparr>) \<and> tags_ok ss t' \<and> (\<forall>x. line_at t' x = line_at (bc_tags c1) x) \<and> linked t' i \<and>
      \<not> isValid (sa_blk t' i) \<and> cb_status (sa_blk t' i) = 0 \<and> cb_set (sa_blk t' i) = int (set_index ?a t') \<and>
      cb_tag (sa_blk t' i) = extractTag ?a t'"
    if c1: "same_config c c1" "tags_ok ss (bc_tags c1)" "\<not> isValid (sa_blk (bc_tags c1) i)"
      "cb_set (sa_blk (bc_tags c1) i) = cb_set (sa_blk ?t i)" for c1
  proof -
    have sh: "same_shape ?t (bc_tags c1)" using c1(1) by (simp add: same_config_def)
    have l: "linked (bc_tags c1) i" using v(2) by (simp add: same_shape_simps [OF sh])
    from insert_line [OF c1(2) l c1(3) p, of "bc_policy c1" "ce_resetDraw env" "ce_curTick env"] obtain t' where
      t': "insertBlock (bc_policy c1) (ce_resetDraw env) mx (ce_curTick env) pkt i (bc_tags c1) = Ok t'" "tags_ok ss t'"
      "same_shape (bc_tags c1) t'" "\<forall>x. line_at t' x = line_at (bc_tags c1) x" "linked t' i" "\<not> isValid (sa_blk t' i)"
      "cb_status (sa_blk t' i) = 0" "cb_set (sa_blk t' i) = cb_set (sa_blk (bc_tags c1) i)" "cb_tag (sa_blk t' i) = extractTag ?a t'" by blast
    have "same_config c (c1\<lparr>bc_tags := t'\<rparr>)" using c1(1) same_shape_trans [OF sh t'(3)] by (simp add: same_config_def)
    moreover have "cb_set (sa_blk t' i) = int (set_index ?a t')"
      using v(3) c1(4) t'(8) same_shape_simps [OF same_shape_trans [OF sh t'(3)]] by simp
    ultimately show ?thesis using t' mx by blast
  qed
  let ?c0 = "c\<lparr>bc_tags := ?t\<lparr>sa_repl := h\<rparr>\<rparr>"
  have c0: "same_config c ?c0" "cache_ok ss ?c0" using ok by (simp_all add: same_config_def cache_ok_def)
  show ?thesis
  proof (cases "isValid (sa_blk ?t i)")
    case False
    obtain t' where t': "insertBlock (bc_policy c) (ce_resetDraw env) (ce_maxMasters env) (ce_curTick env) pkt i (?t\<lparr>sa_repl := h\<rparr>) = Ok t'"
      "same_config c (?c0\<lparr>bc_tags := t'\<rparr>)" "tags_ok ss t'" "\<forall>x. line_at t' x = line_at ?t x" "linked t' i" "\<not> isValid (sa_blk t' i)"
      "cb_status (sa_blk t' i) = 0" "cb_set (sa_blk t' i) = int (set_index ?a t')" "cb_tag (sa_blk t' i) = extractTag ?a t'"
      using ins [OF c0(1)] tok False by auto
    have "allocateBlock nc_evictBlock env pkt c = Ok (Some (TagBlk i), [], c\<lparr>bc_tags := t'\<rparr>)"
      using g v(1) False t'(1) by (simp add: allocateBlock_def)
    moreover have "leaves ss mx ?t t' []" using t'(4) by (simp add: leaves_def)
    ultimately show ?thesis using t' by auto
  next
    case True
    define c1 where "c1 = (if wasPrefetched (sa_blk ?t i)
      then ?c0\<lparr>bc_replacements := Suc (bc_replacements c), bc_unusedPrefetches := Suc (bc_unusedPrefetches c)\<rparr>
      else ?c0\<lparr>bc_replacements := Suc (bc_replacements c)\<rparr>)"
    have c1: "same_config c c1" "cache_ok ss c1" "bc_tags c1 = ?t\<lparr>sa_repl := h\<rparr>"
      using c0 by (auto simp: c1_def same_config_def cache_ok_def)
    obtain a where a: "holds ?t a False i" using holds_some [OF tok v(2) True] by blast
    then have a1: "holds (bc_tags c1) a False i" by (simp add: c1(3))
    from evict_Ok [OF c1(2) a1 mx(2), of env, unfolded c1(3) sa_blk_frame repl_frame] obtain wb c2 where
      e: "nc_evictBlock env (TagBlk i) c1 = Ok (wb, c2)" "same_config c1 c2" "tags_ok ss (bc_tags c2)" "\<not> isValid (sa_blk (bc_tags c2) i)"
        "cb_set (sa_blk (bc_tags c2) i) = cb_set (sa_blk ?t i)"
        "\<forall>x. line_at (bc_tags c2) x = (if line_of ss x = line_of ss a then None else line_at ?t x)"
        "case wb of None \<Rightarrow> \<not> isDirty (sa_blk ?t i)
         | Some w \<Rightarrow> line_writeback ss mx (if isDirty (sa_blk ?t i) then WritebackDirty else WritebackClean) (line_of ss a)
                       (the (cb_data (sa_blk ?t i))) w" by blast
    have c2: "same_config c c2" by (rule same_config_trans [OF c1(1) e(2)])
    from ins [OF c2 e(3-5)] obtain t' where
      t': "insertBlock (bc_policy c2) (ce_resetDraw env) (ce_maxMasters env) (ce_curTick env) pkt i (bc_tags c2) = Ok t'"
      "same_config c (c2\<lparr>bc_tags := t'\<rparr>)" "tags_ok ss t'" "\<forall>x. line_at t' x = line_at (bc_tags c2) x" "linked t' i" "\<not> isValid (sa_blk t' i)"
      "cb_status (sa_blk t' i) = 0" "cb_set (sa_blk t' i) = int (set_index ?a t')" "cb_tag (sa_blk t' i) = extractTag ?a t'" by blast
    let ?wbs = "case wb of None \<Rightarrow> [] | Some w \<Rightarrow> [w]"
    have "allocateBlock nc_evictBlock env pkt c = Ok (Some (TagBlk i), ?wbs, c2\<lparr>bc_tags := t'\<rparr>)"
      using g v(1) True t'(1) e(1) mshr
      by (cases "wasPrefetched (sa_blk ?t i)") (simp_all add: allocateBlock_def c1_def Let_def)
    moreover have "leaves ss mx ?t t' ?wbs"
      unfolding leaves_def using e(6,7) t'(4) line_at_holds [OF sa a]
      by (intro disjI2 exI [of _ a] exI [of _ "isDirty (sa_blk ?t i)"] exI [of _ "the (cb_data (sa_blk ?t i))"]) (auto split: option.splits)
    ultimately show ?thesis using t' by auto
  qed
qed

section \<open>Fills and requests\<close>

lemma or_status_fields [simp]:
  "cb_data (or_status s b) = cb_data b" "cb_lockList (or_status s b) = cb_lockList b"
  by (simp_all add: or_status_def)

lemma write_line_data:
  assumes "whole_line ss mx p" "ss < 31" "length d = 2 ^ ss"
  shows "writeDataToBlock d (2 ^ ss) p = Ok (pk_bytes p)"
proof -
  have il: "in_line ss mx p" "pk_size p = 2 ^ ss" using assms(1) by (simp_all add: whole_line_def)
  have "ss < 32" using assms(2) by simp
  note w = whole_line_aligned [OF assms(1) this] and o = in_line_offset [OF il(1) this] and g = in_line_getters [OF il(1)]
  show ?thesis using w(1,3) o g(2,4) assms(3) il(2) line_size [OF assms(2)]
    by (simp add: writeDataToBlock_def pkt_writeData_def memcpy_def overwrite_def)
qed

lemma fill_Ok:
  assumes ok: "cache_ok ss c" and p: "whole_line ss mx p" "pk_cmd p = ReadResp" and env: "env_ok mx env c"
    and rp: "replacement_policy (bc_policy c) rok" and free: "line_at (bc_tags c) (pk_addr p) = None"
  shows "\<exists>i wbs c' t1. handleFill nc_evictBlock env p None True c = Ok (TagBlk i, wbs, c') \<and> same_config c c' \<and> tags_ok ss (bc_tags c') \<and>
    leaves ss mx (bc_tags c) t1 wbs \<and> holds (bc_tags c') (pk_addr p) False i \<and>
    (\<forall>x. line_at (bc_tags c') x = (if line_of ss x = line_of ss (pk_addr p) then Some (False, pk_bytes p) else line_at t1 x))"
proof -
  let ?a = "pk_addr p"
  have il: "in_line ss mx p" "pk_size p = 2 ^ ss" using p(1) by (simp_all add: whole_line_def)
  have tok: "tags_ok ss (bc_tags c)" and bs: "bc_blkSize c = 2 ^ ss" and wq: "bc_writeBuffer c = []" using ok by (simp_all add: cache_ok_def)
  note ss = tags_ok_geometry(4-6) [OF tok]
  note w = whole_line_aligned [OF p(1) ss(2)] and o = in_line_offset [OF il(1) ss(2)] and g = in_line_getters [OF il(1)]
  from allocate_Ok [OF ok il(1) env rp free] obtain i wbs c1 where
    a: "allocateBlock nc_evictBlock env p c = Ok (Some (TagBlk i), wbs, c1)" "same_config c c1" "tags_ok ss (bc_tags c1)"
    "leaves ss mx (bc_tags c) (bc_tags c1) wbs" "linked (bc_tags c1) i" "\<not> isValid (sa_blk (bc_tags c1) i)" "cb_status (sa_blk (bc_tags c1) i) = 0"
    "cb_set (sa_blk (bc_tags c1) i) = int (set_index ?a (bc_tags c1))" "cb_tag (sa_blk (bc_tags c1) i) = extractTag ?a (bc_tags c1)" by blast
  have free1: "line_at (bc_tags c1) ?a = None" using a(4) free by (auto simp: leaves_def)
  obtain d where d: "cb_data (sa_blk (bc_tags c1) i) = Some d" "length d = 2 ^ ss" using a(3,5) by (auto simp: tags_ok_def line_ok_def)
  define b where "b = (sa_blk (bc_tags c1) i)\<lparr>cb_data := Some (pk_bytes p), cb_status := BlkValid OR BlkReadable OR BlkWritable,
    cb_whenReady := ce_clockEdge env 0 + bc_fillLatency c1 * ce_clockPeriod env + ucast (pk_payloadDelay p)\<rparr>"
  have st: "isValid b" "isReadable b" "isWritable b" "\<not> blk_isSecure b" "\<not> isDirty b"
    by (simp_all add: b_def status_bits blk_bit_defs)
  note act = activate_line [OF a(3,5,6,8,9) free1 b_def w(3) st(2,3,4,1)]
  have sh: "\<not> pkt_hasSharers p" "\<not> pkt_cacheResponding p" using il(1) by (simp_all add: in_line_def)
  have bs1: "bc_blkSize c1 = 2 ^ ss" using a(2) bs by (simp add: same_config_def)
  have comm: "x\<lparr>cb_data := y, cb_status := z, cb_whenReady := u\<rparr> = x\<lparr>cb_status := z, cb_data := y, cb_whenReady := u\<rparr>" for x :: CacheBlk and y z u
    by (rule CacheBlk.equality) simp_all
  have "handleFill nc_evictBlock env p None True c = Ok (TagBlk i, wbs, c1\<lparr>bc_tags := set_blk i b (bc_tags c1)\<rparr>)"
    using p(2) a(1,6) g(1,2,3) o(2) w(2) sh bs bs1 il(2) d write_line_data [OF p(1) ss(1) d(2)] wq
    by (simp add: handleFill_def cmd_defs blk_data_def b_def comm or_status_def a(7) Let_def or.assoc)
  moreover have "same_config c (c1\<lparr>bc_tags := set_blk i b (bc_tags c1)\<rparr>)"
    by (rule same_config_trans [OF a(2)]) (simp add: same_config_def)
  ultimately show ?thesis using act a(4) st(5) by auto
qed

lemma off_sum:
  assumes "in_line ss mx p" "ss < 31"
  shows "(of_nat (line_off ss (pk_addr p)) :: u64) + ucast (pk_size p) \<le> ucast (2 ^ ss :: u32)"
    "unat (of_nat (line_off ss (pk_addr p)) :: u64) = line_off ss (pk_addr p)"
proof -
  have le: "line_off ss (pk_addr p) + unat (pk_size p) \<le> 2 ^ ss" using assms(1) by (simp add: in_line_def)
  have small: "(2 :: nat) ^ ss < 2 ^ 31" using assms(2) by (intro power_strict_increasing) auto
  show o: "unat (of_nat (line_off ss (pk_addr p)) :: u64) = line_off ss (pk_addr p)"
    using le small by (intro unat_of_nat_small) simp
  have "unat ((of_nat (line_off ss (pk_addr p)) :: u64) + ucast (pk_size p)) = line_off ss (pk_addr p) + unat (pk_size p)"
    using le small by (simp add: unat_word_ariths o)
  then show "(of_nat (line_off ss (pk_addr p)) :: u64) + ucast (pk_size p) \<le> ucast (2 ^ ss :: u32)"
    using le line_size(1) [OF assms(2)] by (simp add: word_le_nat_alt)
qed

lemma satisfy_common:
  assumes ok: "cache_ok ss c" and p: "in_line ss mx p" "pk_cmd p = ReadReq \<or> pk_cmd p = WriteReq" and h: "holds (bc_tags c) (pk_addr p) False i"
  shows "nc_satisfyRequest amo p (Some (TagBlk i)) c =
    (if pk_cmd p = WriteReq then satisfy_write (TagBlk i) p c else satisfy_read (TagBlk i) p c)"
proof -
  have tok: "tags_ok ss (bc_tags c)" and bs: "bc_blkSize c = 2 ^ ss" using ok by (simp_all add: cache_ok_def)
  note ss = tags_ok_geometry(4-6) [OF tok] and g = in_line_getters [OF p(1)]
  note o = in_line_offset [OF p(1) ss(2)] and s = off_sum [OF p(1) ss(1)]
  show ?thesis using p(2) holdsD(2) [OF tok h] bs g o s
    by (auto simp: nc_satisfyRequest_def base_satisfyRequest_def cmd_defs)
qed

lemma satisfy_read_Ok:
  assumes ok: "cache_ok ss c" and p: "in_line ss mx p" "pk_cmd p = ReadReq" and h: "holds (bc_tags c) (pk_addr p) False i"
    and d: "line_at (bc_tags c) (pk_addr p) = Some (b, d)"
  shows "nc_satisfyRequest amo p (Some (TagBlk i)) c =
    Ok (p\<lparr>pk_data := Some (take (unat (pk_size p)) (drop (line_off ss (pk_addr p)) d))\<rparr>, c)"
proof -
  have tok: "tags_ok ss (bc_tags c)" and bs: "bc_blkSize c = 2 ^ ss" using ok by (simp_all add: cache_ok_def)
  note ss = tags_ok_geometry(4-6) [OF tok] and sa = tags_ok_geometry(7) [OF tok] and g = in_line_getters [OF p(1)]
  note o = in_line_offset [OF p(1) ss(2)] and s = off_sum [OF p(1) ss(1)]
  obtain d' where d': "cb_data (sa_blk (bc_tags c) i) = Some d'" "length d' = 2 ^ ss"
    using holdsD(3) [OF tok h] by (auto simp: line_ok_def)
  have dd: "d' = d" using d line_at_holds [OF sa h] d'(1) by simp
  have le: "line_off ss (pk_addr p) + unat (pk_size p) \<le> 2 ^ ss" using p(1) by (simp add: in_line_def)
  have same: "set_blk i (sa_blk (bc_tags c) i) (bc_tags c) = bc_tags c" by (simp add: set_blk_def sa_blk_def)
  have "setDataFromBlock d (2 ^ ss) p = Ok (p\<lparr>pk_data := Some (take (unat (pk_size p)) (drop (line_off ss (pk_addr p)) d))\<rparr>)"
    using o g le d'(2) s(2) by (simp add: dd setDataFromBlock_def pkt_setData_def memcpy_def overwrite_def)
  then show ?thesis unfolding satisfy_common [OF ok p(1) disjI1 [OF p(2)] h]
    using p(2) d'(1) by (simp add: satisfy_read_def cmd_defs dd blk_data_def bs pkt_hasRespData_def same)
qed

lemma satisfy_write_Ok:
  assumes ok: "cache_ok ss c" and p: "in_line ss mx p" "pk_cmd p = WriteReq" and h: "holds (bc_tags c) (pk_addr p) False i"
    and d: "line_at (bc_tags c) (pk_addr p) = Some (b, d)"
  shows "\<exists>c'. nc_satisfyRequest amo p (Some (TagBlk i)) c = Ok (p, c') \<and> same_config c c' \<and> tags_ok ss (bc_tags c') \<and>
    holds (bc_tags c') = holds (bc_tags c) \<and>
    (\<forall>x. line_at (bc_tags c') x = (if line_of ss x = line_of ss (pk_addr p)
       then Some (True, overwrite (line_off ss (pk_addr p)) (pk_bytes p) d) else line_at (bc_tags c) x))"
proof -
  have tok: "tags_ok ss (bc_tags c)" and bs: "bc_blkSize c = 2 ^ ss" using ok by (simp_all add: cache_ok_def)
  note ss = tags_ok_geometry(4-6) [OF tok] and sa = tags_ok_geometry(7) [OF tok] and g = in_line_getters [OF p(1)]
  note o = in_line_offset [OF p(1) ss(2)] and s = off_sum [OF p(1) ss(1)] and hd = holdsD [OF tok h]
  obtain d' where d': "cb_data (sa_blk (bc_tags c) i) = Some d'" "length d' = 2 ^ ss" using hd(3) by (auto simp: line_ok_def)
  have dd: "d' = d" using d line_at_holds [OF sa h] d'(1) by simp
  have le: "line_off ss (pk_addr p) + unat (pk_size p) \<le> 2 ^ ss" using p(1) by (simp add: in_line_def)
  let ?d = "overwrite (line_off ss (pk_addr p)) (pk_bytes p) d"
  have wd: "writeDataToBlock d (2 ^ ss) p = Ok ?d"
    using o g le d'(2) s(2) by (simp add: dd writeDataToBlock_def pkt_writeData_def memcpy_def)
  let ?b = "sa_blk (bc_tags c) i"
  define b2 where "b2 = ?b\<lparr>cb_data := Some ?d, cb_status := cb_status ?b OR BlkDirty, cb_whenReady := cb_whenReady ?b\<rparr>"
  have len: "length ?d = 2 ^ ss" using le g(6) d'(2) by (simp add: dd)
  have st: "isReadable b2" "isWritable b2" "\<not> blk_isSecure b2" "isValid b2" "isDirty b2"
    using hd(2,4,5) h by (simp_all add: b2_def status_bits holds_def bit_simps blk_bit_defs)
  note u = update_line [OF tok h b2_def len st(1-4)]
  have "b2 = or_status BlkDirty (?b\<lparr>cb_data := Some ?d\<rparr>)" by (simp add: b2_def or_status_def)
  then have "nc_satisfyRequest amo p (Some (TagBlk i)) c = Ok (p, c\<lparr>bc_tags := set_blk i b2 (bc_tags c)\<rparr>)"
    unfolding satisfy_common [OF ok p(1) disjI2 [OF p(2)] h]
    using p(2) hd(5,6) d'(1) wd by (simp add: satisfy_write_def checkWrite_def cmd_defs dd blk_data_def bs)
  then show ?thesis using u st(5) by (simp add: same_config_def)
qed

end
