(* ===== verification/Cache_Transparent.thy ===== *)
theory Cache_Transparent
  imports Cache_Line
begin

text \<open>
  A cache is transparent. The interface \<^term>\<open>line_memory\<close> says what a cache expects of the memory below it; the simple memory
  keeps it, and a non-coherent cache over any memory that keeps it keeps it again, so that caches stack. Reads and writes of such a
  stack are answered as by a flat array of bytes. At the end: a mostly exclusive cache is not transparent.
\<close>

section \<open>What a cache and the memory below it hold\<close>

definition content :: "nat \<Rightarrow> 'd BaseSetAssoc \<Rightarrow> (Addr \<Rightarrow> u8) \<Rightarrow> Addr \<Rightarrow> u8" where
  "content ss t f x = (case line_at t x of None \<Rightarrow> f x | Some (_, d) \<Rightarrow> d ! line_off ss x)"

definition coherent :: "nat \<Rightarrow> 'd BaseSetAssoc \<Rightarrow> (Addr \<Rightarrow> bool) \<Rightarrow> (Addr \<Rightarrow> u8) \<Rightarrow> bool" where
  "coherent ss t D f \<longleftrightarrow> (\<forall>x b d. line_at t x = Some (b, d) \<longrightarrow> D x \<and> (\<not> b \<longrightarrow> d ! line_off ss x = f x))"

lemma coherentD:
  assumes "coherent ss t D f" "line_at t x = Some (b, d)"
  shows "D x" "\<not> b \<Longrightarrow> d ! line_off ss x = f x"
  using assms by (auto simp: coherent_def)

definition read_answer :: "nat \<Rightarrow> u16 \<Rightarrow> Packet \<Rightarrow> Packet \<Rightarrow> bool" where
  "read_answer ss mx p p' \<longleftrightarrow> whole_line ss mx p' \<and> pk_cmd p' = ReadResp \<and> pk_addr p' = pk_addr p \<and>
     (\<exists>n. pk_req p' = (pk_req p)\<lparr>rq_depth := n\<rparr>)"

text \<open>A memory below a cache: it answers the read of a line with its bytes and takes in the writeback of a line.\<close>

locale line_memory =
  fixes send :: "'m mem_port"
    and good :: "'m \<Rightarrow> bool"
    and byte :: "'m \<Rightarrow> Addr \<Rightarrow> u8"
    and inside :: "'m \<Rightarrow> Addr \<Rightarrow> bool"
    and ss :: nat
    and mx :: u16
  assumes read_line: "good m \<Longrightarrow> whole_line ss mx p \<Longrightarrow> pk_cmd p = ReadReq \<Longrightarrow> inside m (pk_addr p) \<Longrightarrow>
      \<exists>t p' m'. send p m = Ok (t, p', m') \<and> good m' \<and> inside m' = inside m \<and> (\<forall>x. inside m x \<longrightarrow> byte m' x = byte m x) \<and>
        read_answer ss mx p p' \<and> pk_bytes p' = line_bytes ss (pk_addr p) (byte m)"
    and write_line: "good m \<Longrightarrow> whole_line ss mx w \<Longrightarrow>
      pk_cmd w = WritebackDirty \<or> pk_cmd w = WritebackClean \<and> pk_bytes w = line_bytes ss (pk_addr w) (byte m) \<Longrightarrow>
      \<not> req_isInstFetch (pk_req w) \<Longrightarrow> inside m (pk_addr w) \<Longrightarrow>
      \<exists>t w' m'. send w m = Ok (t, w', m') \<and> good m' \<and> inside m' = inside m \<and>
        (\<forall>x. inside m x \<longrightarrow> byte m' x = (if line_of ss x = pk_addr w then pk_bytes w ! line_off ss x else byte m x))"
    and inside_line: "good m \<Longrightarrow> line_of ss x = line_of ss y \<Longrightarrow> inside m x = inside m y"
begin

lemma send_leaving:
  assumes m: "good m" and tok: "tags_ok ss t" and co: "coherent ss t (inside m) (byte m)" and l: "leaves ss mx t t1 wbs"
  shows "\<exists>m'. nc_doWritebacksAtomic send wbs m = Ok m' \<and> good m' \<and> inside m' = inside m \<and>
    (\<forall>x. inside m x \<longrightarrow> byte m' x = (case line_at t1 x of None \<Rightarrow> content ss t (byte m) x | Some _ \<Rightarrow> byte m x))"
  using l
proof (cases rule: leavesE)
  case none
  then show ?thesis using m co
    by (auto simp: nc_doWritebacksAtomic_def content_def split: option.splits)
next
  case (dropped a d)
  have "byte m x = content ss t (byte m) x" if none: "line_at t1 x = None" for x
  proof (cases "line_of ss x = line_of ss a")
    case True
    with line_at_line [OF tok this] have "line_at t x = Some (False, d)" using dropped(2) by simp
    with coherentD(2) [OF co this] show ?thesis by (simp add: content_def)
  qed (use none dropped(3) in \<open>simp add: content_def\<close>)
  then show ?thesis using dropped(1) m by (auto simp: nc_doWritebacksAtomic_def split: option.splits)
next
  case (sent a b d w)
  note a = sent(2,3,1,4)
  note ss = tags_ok_geometry(4-6) [OF tok]
  have w: "whole_line ss mx w" "pk_addr w = line_of ss a" "pk_bytes w = d" "\<not> req_isInstFetch (pk_req w)"
    "pk_cmd w = (if b then WritebackDirty else WritebackClean)" using a(4) by (simp_all add: line_writeback_def)
  have la: "line_at t x = Some (b, d)" if "line_of ss x = line_of ss a" for x using line_at_line [OF tok that] a(1) by simp
  have ins: "inside m (pk_addr w)" using co la [of "line_of ss a"] w(2) by (auto simp: coherent_def)
  have "pk_bytes w = line_bytes ss (pk_addr w) (byte m)" if "\<not> b"
  proof -
    have "d ! k = byte m (line_of ss a + of_nat k)" if k: "k < 2 ^ ss" for k
      using co la [of "line_of ss a + of_nat k"] line_add [OF ss(3) k, of a] \<open>\<not> b\<close> unfolding coherent_def by metis
    moreover have "length d = 2 ^ ss" using whole_line_aligned(3) [OF w(1) ss(2)] w(3) by simp
    ultimately show ?thesis using w(2,3) by (intro nth_equalityI) (simp_all add: line_bytes_def)
  qed
  then have "pk_cmd w = WritebackDirty \<or> pk_cmd w = WritebackClean \<and> pk_bytes w = line_bytes ss (pk_addr w) (byte m)" using w(5) by auto
  from write_line [OF m w(1) this w(4) ins] obtain t0 w' m' where s: "send w m = Ok (t0, w', m')" "good m'" "inside m' = inside m"
    "\<forall>x. inside m x \<longrightarrow> byte m' x = (if line_of ss x = pk_addr w then pk_bytes w ! line_off ss x else byte m x)" by blast
  have "byte m' x = (case line_at t1 x of None \<Rightarrow> content ss t (byte m) x | Some _ \<Rightarrow> byte m x)" if "inside m x" for x
    using s(4) that a(2) la [of x] w(2,3) by (auto simp: content_def split: option.splits)
  then show ?thesis using s(1-3) a(3) by (simp add: nc_doWritebacksAtomic_def)
qed

end

text \<open>Only the depth of a request changes.\<close>

lemma in_line_depth [simp]:
  "in_line ss mx (p\<lparr>pk_req := (pk_req p)\<lparr>rq_depth := n\<rparr>\<rparr>) = in_line ss mx p"
  by (simp add: in_line_def pkt_isSet_def pkt_cacheResponding_def pkt_hasSharers_def req_hasPaddr_def req_private_def
      req_isSecure_def req_isCacheMaintenance_def req_isSet_def)

lemma miss_packet:
  assumes ok: "cache_base ss c" and p: "in_line ss mx p" "cmd_needsResponse (pk_cmd p)"
  shows "\<exists>q. nc_createMissPacket env p None c = Ok q \<and> whole_line ss mx q \<and> pk_cmd q = ReadReq \<and> pk_req q = pk_req p \<and>
    pk_addr q = line_of ss (pk_addr p)"
proof -
  have tok: "tags_ok ss (bc_tags c)" and bs: "bc_blkSize c = 2 ^ ss" using ok by (simp_all add: cache_base_def)
  note ss = tags_ok_geometry(4-6) [OF tok] and sz = line_size [OF ss(1)]
  let ?r = "pk_req p" and ?a = "line_of ss (pk_addr p)"
  have r: "req_hasPaddr ?r" "line_of ss (rq_paddr ?r) = ?a" "\<not> req_isSecure ?r" "\<not> req_isCacheMaintenance ?r" "rq_masterId ?r < mx"
    using p(1) by (auto simp: in_line_def)
  have "(2 :: nat) ^ ss < 2 ^ 31" using ss(1) by (intro power_strict_increasing) auto
  then have "uint (2 ^ ss :: u32) < 2 ^ 31" using sz(1) by (metis of_nat_less_iff of_nat_numeral of_nat_power uint_nat)
  moreover have "- (2 ^ 31) \<le> uint (2 ^ ss :: u32)" by (rule order_trans [OF _ uint_ge_0]) simp
  ultimately have si: "sint (2 ^ ss :: u32) = uint (2 ^ ss :: u32)" by (simp add: sint_uint signed_take_bit_int_eq_self)
  have u: "(ucast (2 ^ ss :: u32) :: u64) = 2 ^ ss" using sz(1) unat_2p_word [of ss, where 'a = 64] ss(3) by (simp add: word_unat_eq_iff)
  have "(word_of_int (sint (2 ^ ss :: u32)) :: u32) = 2 ^ ss" "(word_of_int (sint (2 ^ ss :: u32) - 1) :: u64) = mask ss"
    using u by (simp_all add: si mask_eq_exp_minus_1)
  then have new: "new_block_Packet n ?r ReadReq (sint (2 ^ ss :: u32)) = Ok (pkt_set VALID_SIZE (pkt_set VALID_ADDR
      ((blank_Packet n ?r ReadReq)\<lparr>pk_addr := ?a, pk_isSecure := False\<rparr>)\<lparr>pk_size := 2 ^ ss\<rparr>))" for n
    using r by (simp add: new_block_Packet_def req_getPaddr_def req_hasPaddr_def line_of_def)
  let ?q = "pkt_set VALID_SIZE (pkt_set VALID_ADDR ((blank_Packet (ce_pktId env) ?r ReadReq)\<lparr>pk_addr := ?a, pk_isSecure := False\<rparr>)\<lparr>pk_size := 2 ^ ss\<rparr>)"
  obtain q where q: "pkt_allocate ?q = Ok q" "pk_cmd q = ReadReq" "pk_req q = ?r" "pk_addr q = ?a" "pk_isSecure q = False" "pk_size q = 2 ^ ss"
    "pk_data q = Some (replicate (2 ^ ss) 0)" "pkt_isSet q VALID_ADDR" "pkt_isSet q VALID_SIZE"
    "pkt_isSet q (STATIC_DATA OR DYNAMIC_DATA)" "\<not> pkt_cacheResponding q" "\<not> pkt_hasSharers q"
    using allocated_packet [OF disjI2 [OF refl] ss(1), where n = "ce_pktId env" and req = ?r and a = ?a and s = False] by blast
  have "pkt_getAddr ?q = Ok ?a" "pkt_getBlockAddr (2 ^ ss) ?q = Ok ?a"
    using mask_size [OF ss(2)] by (simp_all add: pkt_getBlockAddr_def pkt_getAddr_def pkt_isSet_def pkt_set_def blank_Packet_def
        flags_isSet_def flags_set_def pkt_flag_defs line_of_def and.assoc)
  then have "nc_createMissPacket env p None c = Ok q" using p(2) new q(1) by (simp add: nc_createMissPacket_def bs)
  moreover have "whole_line ss mx q" using q r sz by (simp add: whole_line_def in_line_def)
  ultimately show ?thesis using q by blast
qed

lemma access_tags:
  assumes tok: "tags_ok ss t"
  shows "\<exists>r lat t'. accessBlock cyc rp now a False t = Ok (r, lat, t') \<and> tags_ok ss t' \<and> same_shape t t' \<and>
    (\<forall>x. line_at t' x = line_at t x) \<and> (case r of None \<Rightarrow> line_at t a = None | Some i \<Rightarrow> holds t' a False i)"
proof -
  note sa = tags_ok_geometry(7) [OF tok]
  from accessBlock_Ok [OF sa, of cyc rp now a False] obtain r lat t' where
    e: "accessBlock cyc rp now a False t = Ok (r, lat, t')" "findBlock a False t = Ok r" "sa_ok t'" "holds t' = holds t" "same_shape t t'"
    "\<forall>j. sa_blk t' j = (if r = Some j then (sa_blk t j)\<lparr>cb_refCount := cb_refCount (sa_blk t j) + 1\<rparr> else sa_blk t j)" by blast
  have r: "r = Some i \<longleftrightarrow> holds t a False i" for i using findBlock_Ok [OF sa, of a False] e(2) by auto
  have "line_ok ss (b\<lparr>cb_refCount := n\<rparr>) = line_ok ss b" for b n by (simp add: line_ok_def status_bits)
  then have "tags_ok ss t'" using tok e(3,5,6) by (auto simp: tags_ok_def same_shape_simps [OF e(5)]) (simp add: same_shape_def)
  moreover have "line_at t' x = line_at t x" for x
    by (rule line_at_cong [OF sa e(3)]) (use e(4,6) in \<open>auto simp: status_bits\<close>)
  moreover have "case r of None \<Rightarrow> line_at t a = None | Some i \<Rightarrow> holds t' a False i"
    using r e(4) line_at_none [OF sa, of a] by (auto split: option.splits)
  ultimately show ?thesis using e(1,5) by blast
qed

section \<open>Requests against flat memory\<close>

definition flat_read :: "Packet \<Rightarrow> (Addr \<Rightarrow> u8) \<Rightarrow> u8 list" where
  "flat_read p f = map (\<lambda>k. f (pk_addr p + of_nat k)) [0..<unat (pk_size p)]"

definition flat_write :: "Packet \<Rightarrow> (Addr \<Rightarrow> u8) \<Rightarrow> Addr \<Rightarrow> u8" where
  "flat_write p f x = (if unat (x - pk_addr p) < unat (pk_size p) then pk_bytes p ! unat (x - pk_addr p) else f x)"

lemma in_range_iff:
  assumes p: "in_line ss mx p" and ss: "ss < 31"
  shows "unat (x - pk_addr p) < unat (pk_size p) \<longleftrightarrow> line_of ss x = line_of ss (pk_addr p) \<and>
      line_off ss (pk_addr p) \<le> line_off ss x \<and> line_off ss x < line_off ss (pk_addr p) + unat (pk_size p)" (is "?l \<longleftrightarrow> ?r")
    and "line_of ss x = line_of ss (pk_addr p) \<Longrightarrow> line_off ss (pk_addr p) \<le> line_off ss x \<Longrightarrow>
      unat (x - pk_addr p) = line_off ss x - line_off ss (pk_addr p)"
proof -
  let ?a = "pk_addr p"
  have s64: "ss < 64" using ss by simp
  have le: "line_off ss ?a + unat (pk_size p) \<le> 2 ^ ss" using p by (simp add: in_line_def)
  have small: "(2 :: nat) ^ ss < 2 ^ LENGTH(64)" using power_strict_increasing [of ss 64 "2 :: nat"] s64 by simp
  show off: "unat (x - ?a) = line_off ss x - line_off ss ?a" if "line_of ss x = line_of ss ?a" "line_off ss ?a \<le> line_off ss x"
  proof -
    have "x - ?a = of_nat (line_off ss x) - of_nat (line_off ss ?a)"
      using line_split [of ss x] line_split [of ss ?a] that(1) by (metis add_diff_cancel_left)
    also have "\<dots> = of_nat (line_off ss x - line_off ss ?a)" using that(2) by (simp add: of_nat_diff)
    finally have "x - ?a = of_nat (line_off ss x - line_off ss ?a)" .
    moreover have "line_off ss x - line_off ss ?a < 2 ^ LENGTH(64)" using line_off_lt [OF s64, of x] small by linarith
    ultimately show ?thesis by (simp add: unat_of_nat_small)
  qed
  show "?l \<longleftrightarrow> ?r"
  proof
    assume l: ?l
    have x: "x = ?a + of_nat (unat (x - ?a))" by simp
    show ?r using line_add_off [OF s64, of ?a "unat (x - ?a)"] l le unfolding x [symmetric] by linarith
  next
    assume ?r
    then show ?l using off by auto
  qed
qed

lemma flat_bytes:
  assumes "in_line ss mx p" "ss < 31" "k < unat (pk_size p)"
  shows "line_of ss (pk_addr p + of_nat k) = line_of ss (pk_addr p)" "line_off ss (pk_addr p + of_nat k) = line_off ss (pk_addr p) + k"
proof -
  have "line_off ss (pk_addr p) + k < 2 ^ ss" using assms(1,3) by (auto simp: in_line_def)
  then show "line_of ss (pk_addr p + of_nat k) = line_of ss (pk_addr p)" "line_off ss (pk_addr p + of_nat k) = line_off ss (pk_addr p) + k"
    using line_add_off [of ss "pk_addr p" k] assms(2) by simp_all
qed

definition plain_request :: "nat \<Rightarrow> u16 \<Rightarrow> Packet \<Rightarrow> bool" where
  "plain_request ss mx p \<longleftrightarrow> in_line ss mx p \<and> (pk_cmd p = ReadReq \<or> pk_cmd p = WriteReq)"

text \<open>The bytes a request leaves in its packet and in the memory.\<close>

definition spec_bytes :: "Packet \<Rightarrow> (Addr \<Rightarrow> u8) \<Rightarrow> u8 list" where
  "spec_bytes p f = (if pk_cmd p = ReadReq then flat_read p f else pk_bytes p)"

definition spec_memory :: "Packet \<Rightarrow> (Addr \<Rightarrow> u8) \<Rightarrow> Addr \<Rightarrow> u8" where
  "spec_memory p f = (if pk_cmd p = WriteReq then flat_write p f else f)"

lemma satisfy_Ok:
  assumes ok: "cache_ok ss c" and p: "plain_request ss mx p" and h: "holds (bc_tags c) (pk_addr p) False i"
    and co: "coherent ss (bc_tags c) D f"
  shows "\<exists>c' e. nc_satisfyRequest amo p (Some (TagBlk i)) c = Ok (p\<lparr>pk_data := Some (spec_bytes p (content ss (bc_tags c) f))\<rparr>, c') \<and>
    same_config c c' \<and> tags_ok ss (bc_tags c') \<and>
    (\<forall>x. line_at (bc_tags c') x = (if line_of ss x = line_of ss (pk_addr p) then Some e else line_at (bc_tags c) x)) \<and>
    coherent ss (bc_tags c') D f \<and> (\<forall>x. content ss (bc_tags c') f x = spec_memory p (content ss (bc_tags c) f) x)"
proof -
  let ?t = "bc_tags c" and ?a = "pk_addr p"
  have tok: "tags_ok ss ?t" using ok by (simp add: cache_ok_def)
  have il: "in_line ss mx p" using p by (simp add: plain_request_def)
  note ss = tags_ok_geometry(4-6) [OF tok] and sa = tags_ok_geometry(7) [OF tok] and g = in_line_getters [OF il]
  define b d where "b = isDirty (sa_blk ?t i)" and "d = the (cb_data (sa_blk ?t i))"
  have la: "line_at ?t ?a = Some (b, d)" using line_at_holds [OF sa h] by (simp add: b_def d_def)
  have lx: "line_at ?t x = Some (b, d)" if "line_of ss x = line_of ss ?a" for x using line_at_line [OF tok that] la by simp
  have len: "length d = 2 ^ ss" using holdsD(3) [OF tok h] by (auto simp: line_ok_def d_def)
  have le: "line_off ss ?a + unat (pk_size p) \<le> 2 ^ ss" using il by (simp add: in_line_def)
  show ?thesis
  proof (cases "pk_cmd p = ReadReq")
    case True
    have "take (unat (pk_size p)) (drop (line_off ss ?a) d) = flat_read p (content ss ?t f)"
      using le len lx flat_bytes [OF il ss(1)]
      by (intro nth_equalityI) (simp_all add: flat_read_def content_def)
    then have r: "nc_satisfyRequest amo p (Some (TagBlk i)) c = Ok (p\<lparr>pk_data := Some (spec_bytes p (content ss ?t f))\<rparr>, c)"
      using satisfy_read_Ok [OF ok il True h la, of amo] True by (simp add: spec_bytes_def)
    have "line_at ?t x = (if line_of ss x = line_of ss ?a then Some (b, d) else line_at ?t x)" for x using lx by simp
    then show ?thesis using r tok co True by (intro exI [of _ c] exI [of _ "(b, d)"]) (simp add: spec_memory_def)
  next
    case False
    then have w: "pk_cmd p = WriteReq" using p by (simp add: plain_request_def)
    let ?d = "overwrite (line_off ss ?a) (pk_bytes p) d"
    from satisfy_write_Ok [OF ok il w h la, of amo] obtain c' where
      c': "nc_satisfyRequest amo p (Some (TagBlk i)) c = Ok (p, c')" "same_config c c'" "tags_ok ss (bc_tags c')"
      "\<forall>x. line_at (bc_tags c') x = (if line_of ss x = line_of ss ?a then Some (True, ?d) else line_at ?t x)" by blast
    have same: "p\<lparr>pk_data := Some (pk_bytes p)\<rparr> = p" using g(5) by (cases p) (simp add: pk_bytes_def)
    have co': "coherent ss (bc_tags c') D f"
      unfolding coherent_def using c'(4) coherentD [OF co] lx by (auto split: if_splits)
    have "content ss (bc_tags c') f x = flat_write p (content ss ?t f) x" for x
    proof (cases "line_of ss x = line_of ss ?a")
      case True
      have "?d ! line_off ss x = (if line_off ss ?a \<le> line_off ss x \<and> line_off ss x < line_off ss ?a + unat (pk_size p)
          then pk_bytes p ! (line_off ss x - line_off ss ?a) else d ! line_off ss x)"
        using nth_overwrite [of "line_off ss ?a" "pk_bytes p" d "line_off ss x"] le len g(6) line_off_lt [OF ss(3), of x] by simp
      then show ?thesis using True in_range_iff [OF il ss(1), of x] c'(4) lx [OF True] by (simp add: content_def flat_write_def)
    next
      case False
      then show ?thesis using in_range_iff(1) [OF il ss(1), of x] c'(4) by (simp add: content_def flat_write_def)
    qed
    then show ?thesis using c' co' w same by (intro exI [of _ c'] exI [of _ "(True, ?d)"]) (simp add: spec_memory_def spec_bytes_def)
  qed
qed

section \<open>Hits and misses\<close>

definition answer :: "nat \<Rightarrow> u16 \<Rightarrow> Packet \<Rightarrow> u8 list \<Rightarrow> Packet \<Rightarrow> bool" where
  "answer ss mx p ds p' \<longleftrightarrow> in_line ss mx p' \<and> pk_cmd p' = responseCommand (pk_cmd p) \<and> pk_addr p' = pk_addr p \<and> pk_size p' = pk_size p \<and>
     pk_data p' = Some ds \<and> (\<exists>n. pk_req p' = (pk_req p)\<lparr>rq_depth := n\<rparr>)"

lemma spec_req [simp]:
  "spec_bytes (p\<lparr>pk_req := r\<rparr>) f = spec_bytes p f" "spec_memory (p\<lparr>pk_req := r\<rparr>) f = spec_memory p f"
  by (simp_all add: spec_bytes_def spec_memory_def flat_read_def flat_write_def pk_bytes_def fun_eq_iff)

lemma plain_depth [simp]: "plain_request ss mx (p\<lparr>pk_req := (pk_req p)\<lparr>rq_depth := n\<rparr>\<rparr>) = plain_request ss mx p"
  by (simp add: plain_request_def)

lemma length_spec_bytes: "in_line ss mx p \<Longrightarrow> length (spec_bytes p f) = unat (pk_size p)"
  using in_line_getters(6) by (simp add: spec_bytes_def flat_read_def)

lemma respond:
  assumes "plain_request ss mx p" "length ds = unat (pk_size p)"
  shows "\<exists>p'. makeAtomicResponse (p\<lparr>pk_data := Some ds\<rparr>) = Ok p' \<and> answer ss mx p ds p'"
proof -
  have il: "in_line ss mx p" and k: "pk_cmd p = ReadReq \<or> pk_cmd p = WriteReq" using assms(1) by (simp_all add: plain_request_def)
  let ?p = "pkt_clear EXPRESS_SNOOP (p\<lparr>pk_data := Some ds, pk_cmd := responseCommand (pk_cmd p)\<rparr>)"
  have m: "makeAtomicResponse (p\<lparr>pk_data := Some ds\<rparr>) = Ok ?p"
    using k by (auto simp: makeAtomicResponse_def makeResponse_def cmd_defs)
  have fl: "pkt_isSet ?p f = pkt_isSet p f" if "EXPRESS_SNOOP AND f = 0" for f
    using flags_isSet_clear_disjoint [OF that] by (simp add: pkt_isSet_def pkt_clear_def)
  have flags: "pkt_isSet ?p VALID_ADDR = pkt_isSet p VALID_ADDR" "pkt_isSet ?p VALID_SIZE = pkt_isSet p VALID_SIZE"
    "pkt_isSet ?p (STATIC_DATA OR DYNAMIC_DATA) = pkt_isSet p (STATIC_DATA OR DYNAMIC_DATA)"
    "pkt_cacheResponding ?p = pkt_cacheResponding p" "pkt_hasSharers ?p = pkt_hasSharers p"
    unfolding pkt_cacheResponding_def pkt_hasSharers_def by (rule fl, simp add: pkt_flag_defs)+
  have "in_line ss mx ?p"
    using il assms(2) unfolding in_line_def flags by (simp add: pkt_clear_def)
  then have "answer ss mx p ds ?p" by (simp add: answer_def) (auto simp: pkt_clear_def intro: exI [of _ "rq_depth (pk_req p)"])
  with m show ?thesis by blast
qed

lemma line_at_ext:
  assumes "\<And>x. line_at t' x = line_at t x"
  shows "content ss t' f = content ss t f" "coherent ss t' D f = coherent ss t D f"
  using assms by (simp_all add: content_def coherent_def fun_eq_iff)

lemma hit_count:
  assumes "in_line ss mx p"
  shows "\<exists>n. incHitCount mx p c = Ok (c\<lparr>bc_hits := n\<rparr>)"
  using assms by (auto simp: incHitCount_def in_line_def Let_def)

lemma miss_count:
  assumes "in_line ss mx p"
  shows "\<exists>c'. incMissCount mx p c = Ok (p\<lparr>pk_req := incAccessDepth (pk_req p)\<rparr>, c') \<and> same_config c c' \<and> bc_tags c' = bc_tags c"
  using assms by (simp add: incMissCount_def in_line_def Let_def same_config_def)

lemma plain_access:
  assumes p: "plain_request ss mx p" and ro: "\<not> bc_isReadOnly c"
    and a: "accessBlock (ce_ticksToCycles env) (bc_policy c) (ce_curTick env) (pk_addr p) False (bc_tags c) = Ok (r, lat, t)"
  shows "base_access sat ev env p c = bindR (access_request sat env p (map_option TagBlk r) (c\<lparr>bc_tags := t\<rparr>)) (\<lambda>r. Ok (lat, r))"
proof -
  have il: "in_line ss mx p" and k: "pk_cmd p = ReadReq \<or> pk_cmd p = WriteReq" using p by (simp_all add: plain_request_def)
  have cm: "\<not> req_isCacheMaintenance (pk_req p)" using il by (simp add: in_line_def)
  have rw: "cmd_isRequest (pk_cmd p)" "\<not> cmd_isEviction (pk_cmd p)" "\<not> cmd_isWriteback (pk_cmd p)" "pk_cmd p \<noteq> CleanEvict" "pk_cmd p \<noteq> WriteClean"
    using k by (auto simp: cmd_defs)
  show ?thesis using in_line_getters(1,3) [OF il] cm rw ro a by (simp add: base_access_def Let_def)
qed

lemma access_hit:
  assumes ok: "cache_ok ss c" and env: "env_ok mx env c" and p: "plain_request ss mx p" and co: "coherent ss (bc_tags c) D f"
    and hit: "line_at (bc_tags c) (pk_addr p) \<noteq> None"
  shows "\<exists>lat i c'. nc_access env p c = Ok (lat, True, p\<lparr>pk_data := Some (spec_bytes p (content ss (bc_tags c) f))\<rparr>, Some (TagBlk i), [], c') \<and>
    same_config c c' \<and> tags_ok ss (bc_tags c') \<and> coherent ss (bc_tags c') D f \<and>
    (\<forall>x. content ss (bc_tags c') f x = spec_memory p (content ss (bc_tags c) f) x)"
proof -
  have tok: "tags_ok ss (bc_tags c)" and ro: "\<not> bc_isReadOnly c" and incl: "bc_mostly_incl c" using ok by (simp_all add: cache_ok_def)
  have il: "in_line ss mx p" and k: "pk_cmd p = ReadReq \<or> pk_cmd p = WriteReq" using p by (simp_all add: plain_request_def)
  obtain r lat t where a: "accessBlock (ce_ticksToCycles env) (bc_policy c) (ce_curTick env) (pk_addr p) False (bc_tags c) = Ok (r, lat, t)"
    "tags_ok ss t" "same_shape (bc_tags c) t" "\<forall>x. line_at t x = line_at (bc_tags c) x"
    "case r of None \<Rightarrow> line_at (bc_tags c) (pk_addr p) = None | Some i \<Rightarrow> holds t (pk_addr p) False i"
    using access_tags [OF tok] by blast
  then obtain i where i: "r = Some i" "holds t (pk_addr p) False i" using hit by (cases r) auto
  obtain n where n: "incHitCount mx p (c\<lparr>bc_tags := t\<rparr>) = Ok (c\<lparr>bc_tags := t, bc_hits := n\<rparr>)"
    using hit_count [OF il, of "c\<lparr>bc_tags := t\<rparr>"] by auto
  define c1 where "c1 = c\<lparr>bc_tags := t, bc_hits := n\<rparr>"
  have c1: "same_config c c1" "cache_ok ss c1" "bc_tags c1 = t" using ok a(2,3) by (simp_all add: c1_def same_config_def cache_ok_def)
  have ext: "content ss t f = content ss (bc_tags c) f" "coherent ss t D f" using line_at_ext [of t "bc_tags c"] a(4) co by auto
  have h1: "holds (bc_tags c1) (pk_addr p) False i" "coherent ss (bc_tags c1) D f" using i(2) ext(2) c1(3) by simp_all
  obtain c2 where c2: "nc_satisfyRequest (ce_amo env) p (Some (TagBlk i)) c1 =
      Ok (p\<lparr>pk_data := Some (spec_bytes p (content ss (bc_tags c) f))\<rparr>, c2)" "same_config c1 c2" "tags_ok ss (bc_tags c2)"
    "coherent ss (bc_tags c2) D f" "\<forall>x. content ss (bc_tags c2) f x = spec_memory p (content ss (bc_tags c) f) x"
    using satisfy_Ok [OF c1(2) p h1, of "ce_amo env"] c1(3) ext(1) by auto
  have incl2: "bc_mostly_incl c2" using c1(1) c2(2) incl by (simp add: same_config_def)
  have st: "isReadable (sa_blk t i)" "isWritable (sa_blk t i)" using holdsD(4,5) [OF a(2) i(2)] by simp_all
  have mx: "ce_maxMasters env = mx" using env by (simp add: env_ok_def)
  have rq: "pkt_needsWritable p = Ok (cmd_needsWritable (pk_cmd p))" using k by (auto simp: pkt_needsWritable_def cmd_defs)
  have "access_request (nc_satisfyRequest (ce_amo env)) env p (Some (TagBlk i)) (c\<lparr>bc_tags := t\<rparr>) =
      Ok (True, p\<lparr>pk_data := Some (spec_bytes p (content ss (bc_tags c) f))\<rparr>, Some (TagBlk i), [], c2)"
    using n c2(1) incl2 st rq by (simp add: access_request_def mx maintainClusivity_def c1_def)
  then have "nc_access env p c = Ok (lat, True, p\<lparr>pk_data := Some (spec_bytes p (content ss (bc_tags c) f))\<rparr>, Some (TagBlk i), [], c2)"
    using k i(1) by (auto simp: nc_access_def plain_access [OF p ro a(1)] cmd_defs)
  then show ?thesis using same_config_trans [OF c1(1) c2(2)] c2 by blast
qed

lemma access_miss:
  assumes ok: "cache_base ss c" and env: "env_ok mx env c" and p: "plain_request ss mx p" and miss: "line_at (bc_tags c) (pk_addr p) = None"
  shows "\<exists>lat c'. nc_access env p c = Ok (lat, False, p\<lparr>pk_req := incAccessDepth (pk_req p)\<rparr>, None, [], c') \<and>
    same_config c c' \<and> tags_ok ss (bc_tags c') \<and> (\<forall>x. line_at (bc_tags c') x = line_at (bc_tags c) x)"
proof -
  have tok: "tags_ok ss (bc_tags c)" and ro: "\<not> bc_isReadOnly c" using ok by (simp_all add: cache_base_def)
  have il: "in_line ss mx p" and k: "pk_cmd p = ReadReq \<or> pk_cmd p = WriteReq" using p by (simp_all add: plain_request_def)
  obtain r lat t where a: "accessBlock (ce_ticksToCycles env) (bc_policy c) (ce_curTick env) (pk_addr p) False (bc_tags c) = Ok (r, lat, t)"
    "tags_ok ss t" "same_shape (bc_tags c) t" "\<forall>x. line_at t x = line_at (bc_tags c) x"
    "case r of None \<Rightarrow> line_at (bc_tags c) (pk_addr p) = None | Some i \<Rightarrow> holds t (pk_addr p) False i"
    using access_tags [OF tok] by blast
  have r: "r = None"
  proof (cases r)
    case (Some i)
    then show ?thesis using a(4,5) line_at_holds [OF tags_ok_geometry(7) [OF a(2)]] miss by fastforce
  qed
  obtain c' where c': "incMissCount mx p (c\<lparr>bc_tags := t\<rparr>) = Ok (p\<lparr>pk_req := incAccessDepth (pk_req p)\<rparr>, c')"
    "same_config (c\<lparr>bc_tags := t\<rparr>) c'" "bc_tags c' = t" using miss_count [OF il, of "c\<lparr>bc_tags := t\<rparr>"] by auto
  have mx: "ce_maxMasters env = mx" using env by (simp add: env_ok_def)
  have "access_request (nc_satisfyRequest (ce_amo env)) env p None (c\<lparr>bc_tags := t\<rparr>) =
      Ok (False, p\<lparr>pk_req := incAccessDepth (pk_req p)\<rparr>, None, [], c')"
    using c'(1) k by (auto simp: access_request_def mx cmd_defs)
  then have "nc_access env p c = Ok (lat, False, p\<lparr>pk_req := incAccessDepth (pk_req p)\<rparr>, None, [], c')"
    using k r by (auto simp: nc_access_def plain_access [OF p ro a(1)] cmd_defs)
  moreover have "same_config c c'" by (rule same_config_trans [OF _ c'(2)]) (use a(3) in \<open>simp add: same_config_def\<close>)
  ultimately show ?thesis using a(2,4) c'(3) by auto
qed

context line_memory
begin

text \<open>A miss: the line is read from below, filled, the request is served, and only then do the lines that had to leave go down.\<close>

lemma handle_miss:
  assumes ok: "cache_ok ss c" and env: "env_ok mx env c" and rp: "replacement_policy (bc_policy c) rok" and m: "good m"
    and co: "coherent ss (bc_tags c) (inside m) (byte m)" and p: "plain_request ss mx p" and ins: "inside m (pk_addr p)"
    and miss: "line_at (bc_tags c) (pk_addr p) = None"
  shows "\<exists>l p' wbs c' m' m''. nc_handleAtomicReqMiss send env p None c m = Ok (l, p', wbs, c', m') \<and>
    nc_doWritebacksAtomic send wbs m' = Ok m'' \<and> same_config c c' \<and> tags_ok ss (bc_tags c') \<and> good m'' \<and> inside m'' = inside m \<and>
    coherent ss (bc_tags c') (inside m) (byte m'') \<and> answer ss mx p (spec_bytes p (content ss (bc_tags c) (byte m))) p' \<and>
    (\<forall>x. inside m x \<longrightarrow> content ss (bc_tags c') (byte m'') x = spec_memory p (content ss (bc_tags c) (byte m)) x)"
proof -
  let ?t = "bc_tags c" and ?a = "pk_addr p"
  have tok: "tags_ok ss ?t" and incl: "bc_mostly_incl c" using ok by (simp_all add: cache_ok_def)
  have il: "in_line ss mx p" and k: "pk_cmd p = ReadReq \<or> pk_cmd p = WriteReq" using p by (simp_all add: plain_request_def)
  note ss = tags_ok_geometry(4-6) [OF tok]
  have nr: "cmd_needsResponse (pk_cmd p)" "pk_cmd p \<noteq> UpgradeResp" "\<not> cmd_isWriteback (pk_cmd p)" "pk_cmd p \<noteq> WriteClean"
    using k by (auto simp: cmd_defs)
  obtain q where q: "nc_createMissPacket env p None c = Ok q" "whole_line ss mx q" "pk_cmd q = ReadReq" "pk_req q = pk_req p"
    "pk_addr q = line_of ss ?a" using miss_packet [OF cache_ok_base [OF ok] il nr(1)] by blast
  have "inside m (pk_addr q)" using ins inside_line [OF m, of ?a "line_of ss ?a"] q(5) by simp
  from read_line [OF m q(2,3) this] obtain l q' m1 where
    r: "send q m = Ok (l, q', m1)" "good m1" "inside m1 = inside m" "\<forall>x. inside m x \<longrightarrow> byte m1 x = byte m x"
      "read_answer ss mx q q'" "pk_bytes q' = line_bytes ss (pk_addr q) (byte m)" by blast
  obtain n where q': "whole_line ss mx q'" "pk_cmd q' = ReadResp" "pk_addr q' = line_of ss ?a" "pk_req q' = (pk_req p)\<lparr>rq_depth := n\<rparr>"
    using r(5) q(4,5) by (auto simp: read_answer_def)
  have nosh: "\<not> pkt_hasSharers q'" using q'(1) by (simp add: whole_line_def in_line_def)
  have free: "line_at ?t (pk_addr q') = None" using miss line_at_line [OF tok, of "line_of ss ?a" ?a] q'(3) by simp
  from fill_Ok [OF ok q'(1,2) env rp free] obtain i wbs c1 t1 where
    f: "handleFill nc_evictBlock env q' None True c = Ok (TagBlk i, wbs, c1)" "same_config c c1" "tags_ok ss (bc_tags c1)"
      "leaves ss mx ?t t1 wbs" "holds (bc_tags c1) (line_of ss ?a) False i"
      "\<forall>x. line_at (bc_tags c1) x = (if line_of ss x = line_of ss ?a then Some (False, line_bytes ss ?a (byte m)) else line_at t1 x)"
    using q'(3) r(6) q(5) by (auto simp: line_bytes_def)
  have ok1: "cache_ok ss c1" using cache_ok_config [OF ok f(2)] f(3) by simp
  define p1 where "p1 = p\<lparr>pk_req := (pk_req p)\<lparr>rq_depth := n\<rparr>\<rparr>"
  have p1: "plain_request ss mx p1" "pk_addr p1 = ?a" using p by (simp_all add: p1_def)
  have h1: "holds (bc_tags c1) (pk_addr p1) False i" using f(5) holds_line [OF f(3), of "line_of ss ?a" ?a] p1(2) by simp
  have free1: "line_at t1 x = None" if "line_of ss x = line_of ss ?a" for x
    using f(4) miss line_at_line [OF tok that] by (cases rule: leavesE) auto
  have keep1: "line_at t1 x = None \<or> line_at t1 x = line_at ?t x" for x using f(4) by (cases rule: leavesE) auto
  have lb: "line_bytes ss ?a (byte m) ! line_off ss x = byte m x" if "line_of ss x = line_of ss ?a" for x
    using line_bytes_nth [OF ss(3), of ?a "byte m" x] line_split [of ss x] that by simp
  have insx: "inside m x" if "line_of ss x = line_of ss ?a" for x using inside_line [OF m that] ins by simp
  have co1: "coherent ss (bc_tags c1) (inside m) (byte m)"
    unfolding coherent_def
  proof (intro allI impI)
    fix x b d assume l: "line_at (bc_tags c1) x = Some (b, d)"
    show "inside m x \<and> (\<not> b \<longrightarrow> d ! line_off ss x = byte m x)"
    proof (cases "line_of ss x = line_of ss ?a")
      case True
      then show ?thesis using l f(6) lb insx by auto
    next
      case False
      then have "line_at ?t x = Some (b, d)" using l f(6) keep1 [of x] by auto
      then show ?thesis using coherentD [OF co] by blast
    qed
  qed
  obtain c2 e where c2: "nc_satisfyRequest (ce_amo env) p1 (Some (TagBlk i)) c1 =
      Ok (p1\<lparr>pk_data := Some (spec_bytes p (content ss (bc_tags c1) (byte m)))\<rparr>, c2)" "same_config c1 c2" "tags_ok ss (bc_tags c2)"
    "\<forall>x. line_at (bc_tags c2) x = (if line_of ss x = line_of ss ?a then Some e else line_at (bc_tags c1) x)"
    "coherent ss (bc_tags c2) (inside m) (byte m)" "\<forall>x. content ss (bc_tags c2) (byte m) x = spec_memory p (content ss (bc_tags c1) (byte m)) x"
    using satisfy_Ok [OF ok1 p1(1) h1 co1, of "ce_amo env"] p1(2) by (auto simp: p1_def)
  have co_m1: "coherent ss ?t (inside m1) (byte m1)"
    unfolding coherent_def r(3) using coherentD [OF co] r(4) by metis
  from send_leaving [OF r(2) tok co_m1 f(4)] obtain m2 where
    m2: "nc_doWritebacksAtomic send wbs m1 = Ok m2" "good m2" "inside m2 = inside m1"
      "\<forall>x. inside m1 x \<longrightarrow> byte m2 x = (case line_at t1 x of None \<Rightarrow> content ss ?t (byte m1) x | Some _ \<Rightarrow> byte m1 x)" by blast
  have line2: "line_at (bc_tags c2) x = (if line_of ss x = line_of ss ?a then Some e else line_at t1 x)" for x using c2(4) f(6) by simp
  have b2: "byte m2 x = (if line_at t1 x = None then content ss ?t (byte m) x else byte m x)" if "inside m x" for x
    using m2(4) r(3,4) that by (auto simp: content_def split: option.splits)
  have none_t: "line_at ?t x = None" if "line_of ss x = line_of ss ?a" for x using miss line_at_line [OF tok that] by simp
  have same: "content ss (bc_tags c1) (byte m) x = content ss ?t (byte m) x" if "line_of ss x = line_of ss ?a" for x
    using f(6) lb none_t that by (simp add: content_def)
  have bytes: "spec_bytes p (content ss (bc_tags c1) (byte m)) = spec_bytes p (content ss ?t (byte m))"
    using same flat_bytes(1) [OF il ss(1)] by (simp add: spec_bytes_def flat_read_def)
  have out: "spec_memory p g x = g x" if "line_of ss x \<noteq> line_of ss ?a" for g x
    using in_range_iff(1) [OF il ss(1), of x] that by (simp add: spec_memory_def flat_write_def)
  have pointwise: "g x = h x \<Longrightarrow> spec_memory p g x = spec_memory p h x" for g h x by (simp add: spec_memory_def flat_write_def)
  have co2: "coherent ss (bc_tags c2) (inside m) (byte m2)"
    unfolding coherent_def
  proof (intro allI impI)
    fix x b d assume l: "line_at (bc_tags c2) x = Some (b, d)"
    note D = coherentD [OF c2(5) l]
    have "byte m2 x = byte m x"
      using b2 [OF D(1)] none_t [of x] line2 [of x] l by (cases "line_of ss x = line_of ss ?a") (auto simp: content_def)
    then show "inside m x \<and> (\<not> b \<longrightarrow> d ! line_off ss x = byte m2 x)" using D by simp
  qed
  have cont: "content ss (bc_tags c2) (byte m2) x = spec_memory p (content ss ?t (byte m)) x" if "inside m x" for x
  proof (cases "line_of ss x = line_of ss ?a")
    case True
    then have "content ss (bc_tags c2) (byte m2) x = content ss (bc_tags c2) (byte m) x" by (simp add: content_def line2)
    then show ?thesis using c2(6) pointwise [of "content ss (bc_tags c1) (byte m)" x "content ss ?t (byte m)"] same [OF True] by simp
  next
    case False
    then show ?thesis using b2 [OF that] keep1 [of x] by (auto simp: out content_def line2 split: option.splits)
  qed
  from respond [OF p1(1), of "spec_bytes p (content ss ?t (byte m))"] obtain p' where
    p': "makeAtomicResponse (p1\<lparr>pk_data := Some (spec_bytes p (content ss ?t (byte m)))\<rparr>) = Ok p'"
      "answer ss mx p1 (spec_bytes p (content ss ?t (byte m))) p'" using length_spec_bytes [OF il] by (auto simp: p1_def)
  have ans: "answer ss mx p (spec_bytes p (content ss ?t (byte m))) p'" using p'(2) by (auto simp: answer_def p1_def)
  have incl2: "bc_mostly_incl c2" using f(2) c2(2) incl by (simp add: same_config_def)
  have "nc_handleAtomicReqMiss send env p None c m = Ok (ce_ticksToCycles env l, p', wbs, c2, m1)"
    using q(1) r(1) q'(2,4) nosh f(1) incl c2(1) [folded bytes] nr incl2 p'(1) k
    by (simp add: nc_handleAtomicReqMiss_def cmd_defs allocOnFill_def maintainClusivity_def p1_def [symmetric] bytes Let_def) (auto simp: p1_def)
  then show ?thesis using m2(1,2,3) r(3) same_config_trans [OF f(2) c2(2)] c2(3) co2 ans cont by auto
qed


text \<open>An access of the cache is an access of the memory it stands for.\<close>

lemma recvAtomic_request:
  assumes ok: "cache_ok ss c" and env: "env_ok mx env c" and rp: "replacement_policy (bc_policy c) rok" and m: "good m"
    and co: "coherent ss (bc_tags c) (inside m) (byte m)" and p: "plain_request ss mx p" and ins: "inside m (pk_addr p)"
  shows "\<exists>l p' c' m'. nc_recvAtomic send env p c m = Ok (l, p', c', m') \<and> same_config c c' \<and> cache_ok ss c' \<and> good m' \<and> inside m' = inside m \<and>
    coherent ss (bc_tags c') (inside m) (byte m') \<and> answer ss mx p (spec_bytes p (content ss (bc_tags c) (byte m))) p' \<and>
    (\<forall>x. inside m x \<longrightarrow> content ss (bc_tags c') (byte m') x = spec_memory p (content ss (bc_tags c) (byte m)) x)"
proof -
  have tok: "tags_ok ss (bc_tags c)" using ok by (simp add: cache_ok_def)
  have il: "in_line ss mx p" and k: "pk_cmd p = ReadReq \<or> pk_cmd p = WriteReq" using p by (simp_all add: plain_request_def)
  have cr: "\<not> pkt_cacheResponding p" using il by (simp add: in_line_def)
  have rw: "cmd_isRead (pk_cmd p) \<or> cmd_isWrite (pk_cmd p)" "\<not> cmd_isClean (pk_cmd p)" "cmd_needsResponse (pk_cmd p)"
    using k by (auto simp: cmd_defs)
  have wb0: "nc_doWritebacksAtomic send [] m' = Ok m'" for m' by (simp add: nc_doWritebacksAtomic_def)
  have tb: "clear_tempBlock dw ev env b c' m' = Ok (c', m')" if "b \<noteq> Some TempBlk" for dw ev b c' m' using that by (simp add: clear_tempBlock_def)
  show ?thesis
  proof (cases "line_at (bc_tags c) (pk_addr p) = None")
    case False
    from access_hit [OF ok env p co False] obtain lat i c' where
      h: "nc_access env p c = Ok (lat, True, p\<lparr>pk_data := Some (spec_bytes p (content ss (bc_tags c) (byte m)))\<rparr>, Some (TagBlk i), [], c')"
        "same_config c c'" "tags_ok ss (bc_tags c')" "coherent ss (bc_tags c') (inside m) (byte m)"
        "\<forall>x. content ss (bc_tags c') (byte m) x = spec_memory p (content ss (bc_tags c) (byte m)) x" by blast
    from respond [OF p, of "spec_bytes p (content ss (bc_tags c) (byte m))"] obtain p' where
      p': "makeAtomicResponse (p\<lparr>pk_data := Some (spec_bytes p (content ss (bc_tags c) (byte m)))\<rparr>) = Ok p'"
        "answer ss mx p (spec_bytes p (content ss (bc_tags c) (byte m))) p'" using length_spec_bytes [OF il] by auto
    have "nc_recvAtomic send env p c m = Ok (lat * ce_clockPeriod env, p', c', m)"
      using cr rw h(1) p'(1) by (simp add: nc_recvAtomic_def base_recvAtomic_def wb0 tb)
    then show ?thesis using h p'(2) m cache_ok_config [OF ok h(2)] by blast
  next
    case True
    from access_miss [OF cache_ok_base [OF ok] env p True] obtain lat c1 where
      a: "nc_access env p c = Ok (lat, False, p\<lparr>pk_req := incAccessDepth (pk_req p)\<rparr>, None, [], c1)" "same_config c c1" "tags_ok ss (bc_tags c1)"
        "\<forall>x. line_at (bc_tags c1) x = line_at (bc_tags c) x" by blast
    define p1 where "p1 = p\<lparr>pk_req := incAccessDepth (pk_req p)\<rparr>"
    have p1: "plain_request ss mx p1" "pk_addr p1 = pk_addr p" "pk_cmd p1 = pk_cmd p" using p by (simp_all add: p1_def incAccessDepth_def)
    have ext: "content ss (bc_tags c1) (byte m) = content ss (bc_tags c) (byte m)" "coherent ss (bc_tags c1) (inside m) (byte m)"
      using line_at_ext [of "bc_tags c1" "bc_tags c"] a(4) co by auto
    have ok1: "cache_ok ss c1" using cache_ok_config [OF ok a(2)] a(3) by simp
    have env1: "env_ok mx env c1" and rp1: "replacement_policy (bc_policy c1) rok"
      using env rp a(2) by (auto simp: env_ok_def same_config_def same_shape_def)
    from handle_miss [OF ok1 env1 rp1 m ext(2) p1(1)] ins True a(4) p1(2) ext(1) obtain l p' wbs c' m' m'' where
      h: "nc_handleAtomicReqMiss send env p1 None c1 m = Ok (l, p', wbs, c', m')" "nc_doWritebacksAtomic send wbs m' = Ok m''"
        "same_config c1 c'" "tags_ok ss (bc_tags c')" "good m''" "inside m'' = inside m" "coherent ss (bc_tags c') (inside m) (byte m'')"
        "answer ss mx p1 (spec_bytes p1 (content ss (bc_tags c) (byte m))) p'"
        "\<forall>x. inside m x \<longrightarrow> content ss (bc_tags c') (byte m'') x = spec_memory p1 (content ss (bc_tags c) (byte m)) x" by (auto simp: p1_def)
    have "pk_cmd p' = responseCommand (pk_cmd p)" using h(8) p1(3) by (simp add: answer_def)
    then have nr: "\<not> cmd_needsResponse (pk_cmd p')" using k by (auto simp: cmd_defs)
    have "nc_recvAtomic send env p c m = Ok ((lat + l) * ce_clockPeriod env, p', c', m'')"
      using cr rw a(1) h(1,2) nr by (simp add: nc_recvAtomic_def base_recvAtomic_def wb0 tb p1_def)
    moreover have "answer ss mx p (spec_bytes p (content ss (bc_tags c) (byte m))) p'" using h(8) by (auto simp: answer_def p1_def incAccessDepth_def)
    moreover have cfg: "same_config c c'" by (rule same_config_trans [OF a(2) h(3)])
    moreover have "cache_ok ss c'" using cache_ok_config [OF ok cfg] h(4) by simp
    ultimately show ?thesis using h(5-7,9) by (auto simp: p1_def)
  qed
qed

end

section \<open>Writebacks from a cache above\<close>

lemma set_blk_set_blk [simp]: "set_blk i b (set_blk i b' t) = set_blk i b t"
  by (simp add: set_blk_def)

lemma sa_blk_same: "i < length (sa_blks t) \<Longrightarrow> sa_blk (set_blk i b t) i = b"
  by (simp add: set_blk_def sa_blk_def)

definition from_above :: "nat \<Rightarrow> u16 \<Rightarrow> Packet \<Rightarrow> bool" where
  "from_above ss mx w \<longleftrightarrow> whole_line ss mx w \<and> (pk_cmd w = WritebackDirty \<or> pk_cmd w = WritebackClean)"

lemma from_above_cmd:
  assumes "from_above ss mx w"
  shows "cmd_isRequest (pk_cmd w)" "cmd_isEviction (pk_cmd w)" "cmd_isWriteback (pk_cmd w)" "cmd_isWrite (pk_cmd w)"
    "\<not> cmd_needsResponse (pk_cmd w)" "\<not> cmd_isClean (pk_cmd w)" "\<not> pkt_hasSharers w" "\<not> pkt_cacheResponding w" "in_line ss mx w"
    "\<not> req_isCacheMaintenance (pk_req w)" "pkt_getSize w = Ok (2 ^ ss)" "pkt_getAddr w = Ok (pk_addr w)" "pkt_isSecure w = Ok False"
proof -
  have k: "pk_cmd w = WritebackDirty \<or> pk_cmd w = WritebackClean" and il: "in_line ss mx w" and sz: "pk_size w = 2 ^ ss"
    using assms by (simp_all add: from_above_def whole_line_def)
  show "cmd_isRequest (pk_cmd w)" "cmd_isEviction (pk_cmd w)" "cmd_isWriteback (pk_cmd w)" "cmd_isWrite (pk_cmd w)"
    "\<not> cmd_needsResponse (pk_cmd w)" "\<not> cmd_isClean (pk_cmd w)" using k by (auto simp: cmd_defs)
  show "\<not> pkt_hasSharers w" "\<not> pkt_cacheResponding w" "in_line ss mx w" "\<not> req_isCacheMaintenance (pk_req w)"
    "pkt_getSize w = Ok (2 ^ ss)" "pkt_getAddr w = Ok (pk_addr w)" "pkt_isSecure w = Ok False"
    using il in_line_getters [OF il] sz by (simp_all add: in_line_def)
qed

lemma access_writeback_block:
  assumes "from_above ss mx w" "bc_blkSize c = 2 ^ ss" "\<And>a s. \<not> ce_mshr env a s" "writeback_block ev env w blk c = Ok (Some p, wbs, c2)"
  shows "access_writeback ev env w blk c =
    bindR (take_writeback env w p (let c = (if pk_cmd w = WritebackDirty then put_blk p (or_status BlkDirty (get_blk p c2)) c2 else c2)
      in if \<not> pkt_hasSharers w then put_blk p (or_status BlkWritable (get_blk p c)) c else c)) (\<lambda>c. Ok (True, w, Some p, wbs, c))"
  using from_above_cmd(11-13) [OF assms(1)] assms(2-4) by (simp add: access_writeback_def Let_def)

text \<open>The status of a block after a writeback into it.\<close>

definition taken_status :: "Packet \<Rightarrow> u32 \<Rightarrow> u32" where
  "taken_status w s = (if pk_cmd w = WritebackDirty then s OR BlkDirty else s) OR BlkWritable"

lemma put_writeback:
  assumes w: "from_above ss mx w" and ss: "ss < 31" and i: "i < length (sa_blks (bc_tags c))" and bs: "bc_blkSize c = 2 ^ ss"
    and d: "cb_data (sa_blk (bc_tags c) i) = Some d" "length d = 2 ^ ss" and mx: "ce_maxMasters env = mx"
    and c2: "c2 = (let c = (if pk_cmd w = WritebackDirty then put_blk (TagBlk i) (or_status BlkDirty (get_blk (TagBlk i) c)) c else c)
      in if \<not> pkt_hasSharers w then put_blk (TagBlk i) (or_status BlkWritable (get_blk (TagBlk i) c)) c else c)"
  shows "\<exists>n u. take_writeback env w (TagBlk i) c2 = Ok (c\<lparr>bc_hits := n, bc_tags := set_blk i ((sa_blk (bc_tags c) i)
      \<lparr>cb_data := Some (pk_bytes w), cb_status := taken_status w (cb_status (sa_blk (bc_tags c) i)), cb_whenReady := u\<rparr>) (bc_tags c)\<rparr>)"
proof -
  let ?b = "sa_blk (bc_tags c) i"
  note f = from_above_cmd [OF w]
  have c2': "c2 = c\<lparr>bc_tags := set_blk i (?b\<lparr>cb_status := taken_status w (cb_status ?b)\<rparr>) (bc_tags c)\<rparr>"
    using f(7) i by (auto simp: c2 Let_def taken_status_def or_status_def sa_blk_same)
  have wl: "whole_line ss mx w" using w by (simp add: from_above_def)
  have comm: "x\<lparr>cb_data := y, cb_status := z, cb_whenReady := u\<rparr> = x\<lparr>cb_status := z, cb_data := y, cb_whenReady := u\<rparr>" for x :: CacheBlk and y z u
    by (rule CacheBlk.equality) simp_all
  have hit: "incHitCount mx w c' = Ok (c'\<lparr>bc_hits := (bc_hits c')(pk_cmd w := (bc_hits c' (pk_cmd w))(rq_masterId (pk_req w) :=
      Suc (bc_hits c' (pk_cmd w) (rq_masterId (pk_req w)))))\<rparr>)" for c' :: "'a BaseCache"
    using f(9) by (simp add: incHitCount_def in_line_def Let_def)
  show ?thesis
    using f(5) d i bs mx write_line_data [OF wl ss d(2)]
    by (auto simp: take_writeback_def c2' blk_data_def sa_blk_same hit comm)
qed

lemma taken_bits:
  "isValid (b\<lparr>cb_data := d, cb_status := taken_status w s, cb_whenReady := u\<rparr>) = bit s 0"
  "isDirty (b\<lparr>cb_data := d, cb_status := taken_status w s, cb_whenReady := u\<rparr>) = (pk_cmd w = WritebackDirty \<or> bit s 3)"
  "isReadable (b\<lparr>cb_data := d, cb_status := taken_status w s, cb_whenReady := u\<rparr>) = (bit s 2 \<and> bit s 0)"
  "isWritable (b\<lparr>cb_data := d, cb_status := taken_status w s, cb_whenReady := u\<rparr>) = bit s 0"
  "blk_isSecure (b\<lparr>cb_data := d, cb_status := taken_status w s, cb_whenReady := u\<rparr>) = bit s 6"
  by (simp_all add: status_bits taken_status_def blk_bit_defs bit_simps)

lemma writable_again: "isWritable b \<Longrightarrow> or_status BlkWritable b = b"
proof -
  assume "isWritable b"
  then have b: "bit (cb_status b) 1" by (simp add: status_bits)
  have w: "bit (BlkWritable :: u32) n \<longleftrightarrow> n = 1" for n unfolding blk_bits_exp(2) bit_exp_iff by auto
  have "cb_status b OR BlkWritable = cb_status b"
  proof (rule bit_word_eqI)
    fix n show "bit (cb_status b OR BlkWritable) n = bit (cb_status b) n" using b w [of n] by (cases "n = 1") (simp_all add: bit_or_iff)
  qed
  then show "or_status BlkWritable b = b" by (simp add: or_status_def)
qed

lemma leaves_ext:
  assumes "\<And>x. line_at t x = line_at t0 x"
  shows "leaves ss mx t t' wbs = leaves ss mx t0 t' wbs"
  by (simp only: leaves_def assms)

lemma access_from_above:
  assumes ok: "cache_ok ss c" and env: "env_ok mx env c" and rp: "replacement_policy (bc_policy c) rok" and w: "from_above ss mx w"
  shows "\<exists>lat i wbs c' t1 e. nc_access env w c = Ok (lat, True, w, Some (TagBlk i), wbs, c') \<and> same_config c c' \<and> tags_ok ss (bc_tags c') \<and>
    leaves ss mx (bc_tags c) t1 wbs \<and> (pk_cmd w = WritebackClean \<longrightarrow> e = (\<exists>d. line_at (bc_tags c) (pk_addr w) = Some (True, d))) \<and>
    (pk_cmd w = WritebackDirty \<longrightarrow> e) \<and> (line_at (bc_tags c) (pk_addr w) \<noteq> None \<longrightarrow> (\<forall>x. line_at t1 x = line_at (bc_tags c) x)) \<and>
    (\<forall>x. line_at (bc_tags c') x = (if line_of ss x = line_of ss (pk_addr w) then Some (e, pk_bytes w) else line_at t1 x))"
proof -
  let ?a = "pk_addr w"
  note f = from_above_cmd [OF w]
  have wl: "whole_line ss mx w" and kc: "pk_cmd w = WritebackDirty \<or> pk_cmd w = WritebackClean" using w by (simp_all add: from_above_def)
  have tok: "tags_ok ss (bc_tags c)" and bs: "bc_blkSize c = 2 ^ ss" and ro: "\<not> bc_isReadOnly c" and wb: "bc_writeBuffer c = []"
    using ok by (simp_all add: cache_ok_def)
  note ss = tags_ok_geometry(4-6) [OF tok] and len = whole_line_aligned(3) [OF wl tags_ok_geometry(5) [OF tok]]
  have mx: "ce_maxMasters env = mx" and mshr: "\<not> ce_mshr env x s" for x s using env by (auto simp: env_ok_def)
  obtain r lat t where a: "accessBlock (ce_ticksToCycles env) (bc_policy c) (ce_curTick env) ?a False (bc_tags c) = Ok (r, lat, t)"
    "tags_ok ss t" "same_shape (bc_tags c) t" "\<forall>x. line_at t x = line_at (bc_tags c) x"
    "case r of None \<Rightarrow> line_at (bc_tags c) ?a = None | Some i \<Rightarrow> holds t ?a False i"
    using access_tags [OF tok] by blast
  let ?c = "c\<lparr>bc_tags := t\<rparr>"
  have c0: "same_config c ?c" "cache_ok ss ?c" "bc_tags ?c = t" using ok a(2,3) by (simp_all add: same_config_def cache_ok_def)
  have acc: "base_access sat ev env w c = bindR (access_writeback ev env w (map_option TagBlk r) ?c) (\<lambda>r. Ok (lat, r))" for sat ev
    using f a(1) ro wb by (simp add: base_access_def Let_def meet_writeback_def)
  have fin: "nc_access env w c = Ok (lat, True, w, Some (TagBlk i), wbs, c2)"
    if "access_writeback nc_evictBlock env w (map_option TagBlk r) ?c = Ok (True, w, Some (TagBlk i), wbs, c2)"
      "tags_ok ss (bc_tags c2)" "holds (bc_tags c2) ?a False i" for i wbs c2
    using that(1) f(3) holdsD(2,5) [OF that(2,3)] writable_again [of "sa_blk (bc_tags c2) i"]
    by (simp add: nc_access_def acc) (simp add: set_blk_def sa_blk_def)
  show ?thesis
  proof (cases r)
    case (Some i)
    then have h: "holds t ?a False i" using a(5) by simp
    note hd = holdsD [OF a(2) h] and sa = tags_ok_geometry(7) [OF a(2)]
    have i: "i < length (sa_blks t)" by (rule linked_length [OF sa hd(1)])
    obtain d where d: "cb_data (sa_blk t i) = Some d" "length d = 2 ^ ss" using hd(3) by (auto simp: line_ok_def)
    define c2 where "c2 = (let c = (if pk_cmd w = WritebackDirty then put_blk (TagBlk i) (or_status BlkDirty (get_blk (TagBlk i) ?c)) ?c else ?c)
      in if \<not> pkt_hasSharers w then put_blk (TagBlk i) (or_status BlkWritable (get_blk (TagBlk i) c)) c else c)"
    obtain n u where tw: "take_writeback env w (TagBlk i) c2 = Ok (?c\<lparr>bc_hits := n, bc_tags := set_blk i ((sa_blk t i)
      \<lparr>cb_data := Some (pk_bytes w), cb_status := taken_status w (cb_status (sa_blk t i)), cb_whenReady := u\<rparr>) t\<rparr>)"
      using put_writeback [OF w ss(1) _ _ _ _ mx c2_def, unfolded c0(3), OF i _ d] bs by auto
    define b where "b = (sa_blk t i)\<lparr>cb_data := Some (pk_bytes w), cb_status := taken_status w (cb_status (sa_blk t i)), cb_whenReady := u\<rparr>"
    have st: "isReadable b" "isWritable b" "\<not> blk_isSecure b" "isValid b" "isDirty b = (pk_cmd w = WritebackDirty \<or> isDirty (sa_blk t i))"
      using hd(2,4,5) h unfolding b_def taken_bits by (simp_all add: status_bits holds_def)
    note u = update_line [OF a(2) h b_def len st(1-4)]
    let ?c3 = "c\<lparr>bc_tags := set_blk i b t, bc_hits := n\<rparr>"
    have "access_writeback nc_evictBlock env w (map_option TagBlk r) ?c = Ok (True, w, Some (TagBlk i), [], ?c3)"
      using access_writeback_block [OF w _ mshr, of ?c nc_evictBlock "map_option TagBlk r" "TagBlk i" "[]" ?c, folded c2_def] bs tw Some
      by (simp add: writeback_block_def b_def)
    from fin [OF this] have "nc_access env w c = Ok (lat, True, w, Some (TagBlk i), [], ?c3)" using u(1,2) h by simp
    moreover have "same_config c ?c3" using same_shape_trans [OF a(3) u(3)] by (simp add: same_config_def)
    moreover have "line_at (bc_tags c) ?a = Some (isDirty (sa_blk t i), d)" using line_at_holds [OF sa h] a(4) d by simp
    ultimately show ?thesis using u(1,4) st(5) a(4) kc
      by (intro exI [of _ lat] exI [of _ i] exI [of _ "[]"] exI [of _ ?c3] exI [of _ "bc_tags c"] exI [of _ "isDirty b"])
        (auto simp: leaves_def)
  next
    case None
    then have free: "line_at (bc_tags ?c) ?a = None" using a(4,5) by simp
    have env0: "env_ok mx env ?c" "replacement_policy (bc_policy ?c) rok" using env rp a(3) by (simp_all add: env_ok_def same_shape_def)
    from allocate_Ok [OF c0(2) f(9) env0 free] obtain i wbs c1 where
      al: "allocateBlock nc_evictBlock env w ?c = Ok (Some (TagBlk i), wbs, c1)" "same_config ?c c1" "tags_ok ss (bc_tags c1)"
      "leaves ss mx t (bc_tags c1) wbs" "linked (bc_tags c1) i" "\<not> isValid (sa_blk (bc_tags c1) i)" "cb_status (sa_blk (bc_tags c1) i) = 0"
      "cb_set (sa_blk (bc_tags c1) i) = int (set_index ?a (bc_tags c1))" "cb_tag (sa_blk (bc_tags c1) i) = extractTag ?a (bc_tags c1)"
      unfolding c0(3) by blast
    let ?t1 = "bc_tags c1" and ?b0 = "sa_blk (bc_tags c1) i"
    have free1: "line_at ?t1 ?a = None" using al(4) free by (auto simp: leaves_def)
    have i: "i < length (sa_blks ?t1)" by (rule linked_length [OF tags_ok_geometry(7) [OF al(3)] al(5)])
    obtain d where d: "cb_data ?b0 = Some d" "length d = 2 ^ ss" using al(3,5) by (auto simp: tags_ok_def line_ok_def)
    define c2 where "c2 = c1\<lparr>bc_tags := set_blk i (or_status (BlkValid OR BlkReadable) ?b0) ?t1\<rparr>"
    have b2: "sa_blk (bc_tags c2) i = or_status (BlkValid OR BlkReadable) ?b0" "i < length (sa_blks (bc_tags c2))"
      "cb_data (sa_blk (bc_tags c2) i) = Some d" "bc_blkSize c2 = 2 ^ ss"
      using i d(1) al(2) bs by (simp_all add: c2_def sa_blk_same same_config_def) (simp add: set_blk_def)
    define c3 where "c3 = (let c = (if pk_cmd w = WritebackDirty then put_blk (TagBlk i) (or_status BlkDirty (get_blk (TagBlk i) c2)) c2 else c2)
      in if \<not> pkt_hasSharers w then put_blk (TagBlk i) (or_status BlkWritable (get_blk (TagBlk i) c)) c else c)"
    from put_writeback [OF w ss(1) b2(2,4,3) d(2) mx c3_def] obtain n u where
      tw: "take_writeback env w (TagBlk i) c3 = Ok (c2\<lparr>bc_hits := n, bc_tags := set_blk i ((or_status (BlkValid OR BlkReadable) ?b0)
      \<lparr>cb_data := Some (pk_bytes w), cb_status := taken_status w (cb_status (or_status (BlkValid OR BlkReadable) ?b0)), cb_whenReady := u\<rparr>) (bc_tags c2)\<rparr>)"
      unfolding b2(1) by blast
    define b where "b = ?b0\<lparr>cb_data := Some (pk_bytes w), cb_status := taken_status w (BlkValid OR BlkReadable), cb_whenReady := u\<rparr>"
    have st: "isReadable b" "isWritable b" "\<not> blk_isSecure b" "isValid b" "isDirty b = (pk_cmd w = WritebackDirty)"
      unfolding b_def taken_bits by (simp_all add: blk_bit_defs)
    note u = activate_line [OF al(3,5,6,8,9) free1 b_def len st(1-4)]
    have tw': "take_writeback env w (TagBlk i) c3 = Ok (c1\<lparr>bc_hits := n, bc_tags := set_blk i b ?t1\<rparr>)"
      unfolding tw by (simp add: c2_def or_status_def al(7) b_def)
    let ?c4 = "c1\<lparr>bc_hits := n, bc_tags := set_blk i b ?t1\<rparr>"
    have "access_writeback nc_evictBlock env w (map_option TagBlk r) ?c = Ok (True, w, Some (TagBlk i), wbs, ?c4)"
      using access_writeback_block [OF w _ mshr, of ?c nc_evictBlock "map_option TagBlk r" "TagBlk i" wbs c2, folded c3_def] bs tw' None al(1)
      by (simp add: writeback_block_def c2_def)
    from fin [OF this] have "nc_access env w c = Ok (lat, True, w, Some (TagBlk i), wbs, ?c4)" using u(1,2) by simp
    moreover have "same_config c ?c4"
      by (rule same_config_trans [OF same_config_trans [OF c0(1) al(2)]]) (simp add: same_config_def)
    moreover have "leaves ss mx (bc_tags c) ?t1 wbs" using al(4) leaves_ext [of t "bc_tags c"] a(4) by blast
    ultimately show ?thesis using u(1,3) st(5) kc free a(4)
      by (intro exI [of _ lat] exI [of _ i] exI [of _ wbs] exI [of _ ?c4] exI [of _ ?t1] exI [of _ "isDirty b"]) auto
  qed
qed

context line_memory
begin

lemma recvAtomic_writeback:
  assumes ok: "cache_ok ss c" and env: "env_ok mx env c" and rp: "replacement_policy (bc_policy c) rok" and m: "good m"
    and co: "coherent ss (bc_tags c) (inside m) (byte m)" and w: "from_above ss mx w" and ins: "inside m (pk_addr w)"
    and cl: "pk_cmd w = WritebackClean \<Longrightarrow> pk_bytes w = line_bytes ss (pk_addr w) (content ss (bc_tags c) (byte m))"
  shows "\<exists>l w' c' m'. nc_recvAtomic send env w c m = Ok (l, w', c', m') \<and> same_config c c' \<and> cache_ok ss c' \<and> good m' \<and> inside m' = inside m \<and>
    coherent ss (bc_tags c') (inside m) (byte m') \<and>
    (\<forall>x. inside m x \<longrightarrow> content ss (bc_tags c') (byte m') x =
       (if line_of ss x = pk_addr w then pk_bytes w ! line_off ss x else content ss (bc_tags c) (byte m) x))"
proof -
  let ?t = "bc_tags c" and ?a = "pk_addr w"
  have tok: "tags_ok ss ?t" using ok by (simp add: cache_ok_def)
  note ss = tags_ok_geometry(4-6) [OF tok] and f = from_above_cmd [OF w]
  have wl: "whole_line ss mx w" and kc: "pk_cmd w = WritebackDirty \<or> pk_cmd w = WritebackClean" using w by (simp_all add: from_above_def)
  have al: "line_of ss ?a = ?a" by (rule whole_line_aligned(2) [OF wl ss(2)])
  from access_from_above [OF ok env rp w] obtain lat i wbs c' t1 e where
    a: "nc_access env w c = Ok (lat, True, w, Some (TagBlk i), wbs, c')" "same_config c c'" "tags_ok ss (bc_tags c')" "leaves ss mx ?t t1 wbs"
      "pk_cmd w = WritebackClean \<longrightarrow> e = (\<exists>d. line_at ?t ?a = Some (True, d))" "pk_cmd w = WritebackDirty \<longrightarrow> e"
      "line_at ?t ?a \<noteq> None \<longrightarrow> (\<forall>x. line_at t1 x = line_at ?t x)"
      "\<forall>x. line_at (bc_tags c') x = (if line_of ss x = line_of ss ?a then Some (e, pk_bytes w) else line_at t1 x)" by blast
  from send_leaving [OF m tok co a(4)] obtain m' where
    m': "nc_doWritebacksAtomic send wbs m = Ok m'" "good m'" "inside m' = inside m"
      "\<forall>x. inside m x \<longrightarrow> byte m' x = (case line_at t1 x of None \<Rightarrow> content ss ?t (byte m) x | Some _ \<Rightarrow> byte m x)" by blast
  have keep1: "line_at t1 x = None \<or> line_at t1 x = line_at ?t x" for x using a(4) by (cases rule: leavesE) auto
  have insx: "inside m x" if "line_of ss x = ?a" for x using inside_line [OF m, of x ?a] that al ins by simp
  have byte': "byte m' x = content ss ?t (byte m) x" if "inside m x" "\<not> (\<exists>d. line_at ?t x = Some (True, d))" for x
    using m'(4) that(1) keep1 [of x] that(2) coherentD(2) [OF co, of x]
    by (cases "line_at ?t x") (auto simp: content_def split: option.splits)
  have co': "coherent ss (bc_tags c') (inside m) (byte m')"
    unfolding coherent_def
  proof (intro allI impI)
    fix x b d assume l: "line_at (bc_tags c') x = Some (b, d)"
    show "inside m x \<and> (\<not> b \<longrightarrow> d ! line_off ss x = byte m' x)"
    proof (cases "line_of ss x = ?a")
      case True
      have "pk_bytes w ! line_off ss x = byte m' x" if "\<not> e"
      proof -
        have k: "pk_cmd w = WritebackClean" "\<not> (\<exists>d. line_at ?t ?a = Some (True, d))" using that a(5,6) kc by blast+
        have "line_at ?t x = line_at ?t ?a" using line_at_line [OF tok, of x ?a] True al by simp
        then have "byte m' x = content ss ?t (byte m) x" using byte' [OF insx [OF True]] k(2) by simp
        then show ?thesis using cl [OF k(1)] line_bytes_nth [OF ss(3), of ?a _ x] line_split [of ss x] True al by simp
      qed
      then show ?thesis using l a(8) True al insx by auto
    next
      case False
      then have l1: "line_at t1 x = Some (b, d)" using l a(8) al by simp
      then have "line_at ?t x = Some (b, d)" using keep1 [of x] by simp
      from coherentD [OF co this] show ?thesis using m'(4) l1 by simp
    qed
  qed
  have cont: "content ss (bc_tags c') (byte m') x = (if line_of ss x = ?a then pk_bytes w ! line_off ss x else content ss ?t (byte m) x)"
    if "inside m x" for x
  proof (cases "line_of ss x = ?a")
    case True
    then show ?thesis using a(8) al by (simp add: content_def)
  next
    case False
    then have "line_at (bc_tags c') x = line_at t1 x" using a(8) al by simp
    then show ?thesis using False m'(4) that keep1 [of x] by (auto simp: content_def split: option.splits)
  qed
  have "nc_recvAtomic send env w c m = Ok (lat * ce_clockPeriod env, w, c', m')"
    using f(4-6,8) a(1) m'(1) by (simp add: nc_recvAtomic_def base_recvAtomic_def clear_tempBlock_def) (simp add: nc_doWritebacksAtomic_def)
  then show ?thesis using a(2,3) cache_ok_config [OF ok a(2)] m' co' cont by blast
qed

end

section \<open>A cache is a memory\<close>

text \<open>A cache as a memory port: the state is the cache, the memory below and the number of accesses, which selects the surroundings.\<close>

definition cache_port :: "'m mem_port \<Rightarrow> (nat \<Rightarrow> cache_env) \<Rightarrow> (nat \<times> 'd BaseCache \<times> 'm) mem_port" where
  "cache_port send supply p = (\<lambda>(n, c, m). bindR (nc_recvAtomic send (supply n) p c m) (\<lambda>(t, p, c, m). Ok (t, p, Suc n, c, m)))"

definition cache_good ::
  "('m \<Rightarrow> bool) \<Rightarrow> ('m \<Rightarrow> Addr \<Rightarrow> u8) \<Rightarrow> ('m \<Rightarrow> Addr \<Rightarrow> bool) \<Rightarrow> nat \<Rightarrow> u16 \<Rightarrow> (nat \<Rightarrow> cache_env) \<Rightarrow> nat \<times> 'd BaseCache \<times> 'm \<Rightarrow> bool" where
  "cache_good good byte inside ss mx supply = (\<lambda>(n, c, m). cache_ok ss c \<and> (\<forall>k. env_ok mx (supply k) c) \<and>
     (\<exists>rok. replacement_policy (bc_policy c) rok) \<and> good m \<and> coherent ss (bc_tags c) (inside m) (byte m))"

definition cache_byte :: "nat \<Rightarrow> ('m \<Rightarrow> Addr \<Rightarrow> u8) \<Rightarrow> nat \<times> 'd BaseCache \<times> 'm \<Rightarrow> Addr \<Rightarrow> u8" where
  "cache_byte ss byte = (\<lambda>(n, c, m). content ss (bc_tags c) (byte m))"

definition cache_inside :: "('m \<Rightarrow> Addr \<Rightarrow> bool) \<Rightarrow> nat \<times> 'd BaseCache \<times> 'm \<Rightarrow> Addr \<Rightarrow> bool" where
  "cache_inside inside = (\<lambda>(n, c, m). inside m)"

lemma env_ok_config: "same_config c c' \<Longrightarrow> env_ok mx env c' = env_ok mx env c"
  by (simp add: env_ok_def same_config_def same_shape_def)

context line_memory
begin

lemma port_request:
  assumes s: "cache_good good byte inside ss mx supply s" and p: "plain_request ss mx p" and ins: "cache_inside inside s (pk_addr p)"
  shows "\<exists>l p' s'. cache_port send supply p s = Ok (l, p', s') \<and> cache_good good byte inside ss mx supply s' \<and>
    cache_inside inside s' = cache_inside inside s \<and> answer ss mx p (spec_bytes p (cache_byte ss byte s)) p' \<and>
    (\<forall>x. cache_inside inside s x \<longrightarrow> cache_byte ss byte s' x = spec_memory p (cache_byte ss byte s) x)"
proof -
  obtain n c m rok where s': "s = (n, c, m)" "cache_ok ss c" "\<And>k. env_ok mx (supply k) c" "replacement_policy (bc_policy c) rok" "good m"
    "coherent ss (bc_tags c) (inside m) (byte m)" using s by (cases s) (auto simp: cache_good_def)
  have i: "inside m (pk_addr p)" using ins s'(1) by (simp add: cache_inside_def)
  from recvAtomic_request [OF s'(2) s'(3) s'(4-6) p i] obtain l p' c' m' where
    r: "nc_recvAtomic send (supply n) p c m = Ok (l, p', c', m')" "same_config c c'" "cache_ok ss c'" "good m'" "inside m' = inside m"
      "coherent ss (bc_tags c') (inside m) (byte m')" "answer ss mx p (spec_bytes p (content ss (bc_tags c) (byte m))) p'"
      "\<forall>x. inside m x \<longrightarrow> content ss (bc_tags c') (byte m') x = spec_memory p (content ss (bc_tags c) (byte m)) x" by blast
  have "bc_policy c' = bc_policy c" using r(2) by (simp add: same_config_def)
  then have "cache_good good byte inside ss mx supply (Suc n, c', m')"
    using r s'(3,4) env_ok_config [OF r(2)] by (auto simp: cache_good_def)
  then show ?thesis using r by (auto simp: s'(1) cache_port_def cache_inside_def cache_byte_def)
qed

lemma port_writeback:
  assumes s: "cache_good good byte inside ss mx supply s" and w: "from_above ss mx w" and ins: "cache_inside inside s (pk_addr w)"
    and cl: "pk_cmd w = WritebackClean \<Longrightarrow> pk_bytes w = line_bytes ss (pk_addr w) (cache_byte ss byte s)"
  shows "\<exists>l w' s'. cache_port send supply w s = Ok (l, w', s') \<and> cache_good good byte inside ss mx supply s' \<and>
    cache_inside inside s' = cache_inside inside s \<and>
    (\<forall>x. cache_inside inside s x \<longrightarrow> cache_byte ss byte s' x = (if line_of ss x = pk_addr w then pk_bytes w ! line_off ss x else cache_byte ss byte s x))"
proof -
  obtain n c m rok where s': "s = (n, c, m)" "cache_ok ss c" "\<And>k. env_ok mx (supply k) c" "replacement_policy (bc_policy c) rok" "good m"
    "coherent ss (bc_tags c) (inside m) (byte m)" using s by (cases s) (auto simp: cache_good_def)
  have i: "inside m (pk_addr w)" "pk_cmd w = WritebackClean \<Longrightarrow> pk_bytes w = line_bytes ss (pk_addr w) (content ss (bc_tags c) (byte m))"
    using ins cl s'(1) by (simp_all add: cache_inside_def cache_byte_def)
  from recvAtomic_writeback [OF s'(2) s'(3) s'(4-6) w i] obtain l w' c' m' where
    r: "nc_recvAtomic send (supply n) w c m = Ok (l, w', c', m')" "same_config c c'" "cache_ok ss c'" "good m'" "inside m' = inside m"
      "coherent ss (bc_tags c') (inside m) (byte m')"
      "\<forall>x. inside m x \<longrightarrow> content ss (bc_tags c') (byte m') x =
         (if line_of ss x = pk_addr w then pk_bytes w ! line_off ss x else content ss (bc_tags c) (byte m) x)" by blast
  have "bc_policy c' = bc_policy c" using r(2) by (simp add: same_config_def)
  then have "cache_good good byte inside ss mx supply (Suc n, c', m')"
    using r s'(3,4) env_ok_config [OF r(2)] by (auto simp: cache_good_def)
  then show ?thesis using r by (auto simp: s'(1) cache_port_def cache_inside_def cache_byte_def)
qed

text \<open>So caches stack.\<close>

lemma cache_is_memory:
  "line_memory (cache_port send supply) (cache_good good byte inside ss mx supply) (cache_byte ss byte) (cache_inside inside) ss mx"
proof
  fix s p
  assume s: "cache_good good byte inside ss mx supply s" and p: "whole_line ss mx p" "pk_cmd p = ReadReq" "cache_inside inside s (pk_addr p)"
  have ss: "ss < 31" using s by (auto simp: cache_good_def cache_ok_def tags_ok_def)
  have pl: "plain_request ss mx p" "pk_size p = 2 ^ ss" using p by (simp_all add: plain_request_def whole_line_def)
  have b: "spec_bytes p (cache_byte ss byte s) = line_bytes ss (pk_addr p) (cache_byte ss byte s)"
    using p whole_line_aligned(2) [OF p(1)] ss line_size(1) [OF ss] pl(2) by (simp add: spec_bytes_def flat_read_def line_bytes_def)
  have k: "spec_memory p f = f" for f using p(2) by (simp add: spec_memory_def)
  from port_request [OF s pl(1) p(3), unfolded b k] obtain t p' s' where
    r: "cache_port send supply p s = Ok (t, p', s')" "cache_good good byte inside ss mx supply s'" "cache_inside inside s' = cache_inside inside s"
      "answer ss mx p (line_bytes ss (pk_addr p) (cache_byte ss byte s)) p'"
      "\<forall>x. cache_inside inside s x \<longrightarrow> cache_byte ss byte s' x = cache_byte ss byte s x" by blast
  have rc: "responseCommand (pk_cmd p) = ReadResp" using p(2) by (simp add: cmd_defs)
  from r(4) [unfolded answer_def rc pl(2)] obtain n where
    q: "in_line ss mx p'" "pk_cmd p' = ReadResp" "pk_addr p' = pk_addr p" "pk_size p' = 2 ^ ss" "pk_req p' = (pk_req p)\<lparr>rq_depth := n\<rparr>"
      "pk_data p' = Some (line_bytes ss (pk_addr p) (cache_byte ss byte s))" by (elim conjE exE)
  have "read_answer ss mx p p'" unfolding read_answer_def whole_line_def using q(1-5) by (intro conjI exI)
  moreover have "pk_bytes p' = line_bytes ss (pk_addr p) (cache_byte ss byte s)" by (simp only: pk_bytes_def q(6) option.sel)
  ultimately show "\<exists>t p' m'. cache_port send supply p s = Ok (t, p', m') \<and> cache_good good byte inside ss mx supply m' \<and>
      cache_inside inside m' = cache_inside inside s \<and> (\<forall>x. cache_inside inside s x \<longrightarrow> cache_byte ss byte m' x = cache_byte ss byte s x) \<and>
      read_answer ss mx p p' \<and> pk_bytes p' = line_bytes ss (pk_addr p) (cache_byte ss byte s)"
    using r by blast
next
  fix s w
  assume s: "cache_good good byte inside ss mx supply s" and w: "whole_line ss mx w"
    "pk_cmd w = WritebackDirty \<or> pk_cmd w = WritebackClean \<and> pk_bytes w = line_bytes ss (pk_addr w) (cache_byte ss byte s)"
    "cache_inside inside s (pk_addr w)"
  have "from_above ss mx w" using w by (auto simp: from_above_def)
  from port_writeback [OF s this w(3)] w(2) show "\<exists>t w' m'. cache_port send supply w s = Ok (t, w', m') \<and>
      cache_good good byte inside ss mx supply m' \<and> cache_inside inside m' = cache_inside inside s \<and>
      (\<forall>x. cache_inside inside s x \<longrightarrow> cache_byte ss byte m' x = (if line_of ss x = pk_addr w then pk_bytes w ! line_off ss x else cache_byte ss byte s x))"
    by auto
next
  fix s x y
  assume s: "cache_good good byte inside ss mx supply s" and l: "line_of ss x = line_of ss y"
  obtain n c m where "s = (n, c, m)" by (cases s)
  then show "cache_inside inside s x = cache_inside inside s y"
    using s inside_line [OF _ l, of m] by (simp add: cache_good_def cache_inside_def)
qed

end

section \<open>The simple memory\<close>

definition sm_good :: "nat \<Rightarrow> AbstractMemory \<Rightarrow> bool" where
  "sm_good ss am \<longleftrightarrow> ss < 31 \<and> mem_ok am \<and> am_locked am = [] \<and> line_off ss (rg_start (am_range am)) = 0 \<and>
     line_off ss (rg_end (am_range am)) = 2 ^ ss - 1"

definition sm_inside :: "AbstractMemory \<Rightarrow> Addr \<Rightarrow> bool" where
  "sm_inside am x \<longleftrightarrow> rg_start (am_range am) \<le> x \<and> x \<le> rg_end (am_range am)"

definition sm_byte :: "AbstractMemory \<Rightarrow> Addr \<Rightarrow> u8" where
  "sm_byte am x = mem_byte am (unat x)"

lemma line_off_mod: "ss < 64 \<Longrightarrow> line_off ss x = unat x mod 2 ^ ss"
  by (simp only: line_off_def take_bit_eq_mask [symmetric] unsigned_take_bit_eq) (simp only: take_bit_eq_mod)

lemma line_of_div:
  assumes "ss < 64" "line_of ss x = line_of ss y"
  shows "unat x div 2 ^ ss = unat y div 2 ^ ss"
proof -
  have "drop_bit ss x = drop_bit ss y"
  proof (rule bit_word_eqI)
    fix n show "bit (drop_bit ss x) n = bit (drop_bit ss y) n"
      using arg_cong [OF assms(2), of "\<lambda>w. bit w (ss + n)"] bit_imp_le_length [of x "ss + n"] bit_imp_le_length [of y "ss + n"]
      by (auto simp: line_of_def bit_simps)
  qed
  then have "unat (drop_bit ss x) = unat (drop_bit ss y)" by simp
  from this [unfolded unat_drop_bit_eq] show ?thesis by (simp only: drop_bit_eq_div)
qed

lemma line_of_le: "line_of ss x \<le> x"
  by (simp add: line_of_def word_and_le2)

lemma quotient_bounds:
  fixes a b x n :: nat
  assumes "0 < n" "a mod n = 0" "b mod n = n - 1"
  shows "a \<le> x \<longleftrightarrow> a div n \<le> x div n" "x \<le> b \<longleftrightarrow> x div n \<le> b div n"
proof -
  have "a = a div n * n" using assms(2) div_mult_mod_eq [of a n] by simp
  then have "a \<le> x" if "a div n \<le> x div n" using mult_le_mono1 [OF that, of n] div_times_less_eq_dividend [of x n] by linarith
  then show "a \<le> x \<longleftrightarrow> a div n \<le> x div n" using div_le_mono by blast
  have "x \<le> b" if "x div n \<le> b div n"
  proof -
    have "x = x div n * n + x mod n" "b = b div n * n + (n - 1)" using div_mult_mod_eq [of b n] assms(3) by simp_all
    moreover have "x div n * n \<le> b div n * n" using that by simp
    moreover have "x mod n \<le> n - 1" using assms(1) mod_less_divisor [of n x] by linarith
    ultimately show ?thesis by linarith
  qed
  then show "x \<le> b \<longleftrightarrow> x div n \<le> b div n" using div_le_mono by blast
qed

lemma sm_in_memory:
  assumes "sm_good ss am" "whole_line ss mx p" "sm_inside am (pk_addr p)"
  shows "in_memory am p" "pk_first p = unat (pk_addr p)" "unat (pk_size p) = 2 ^ ss"
    "sm_inside am x \<Longrightarrow> line_of ss x = pk_addr p \<longleftrightarrow> pk_first p \<le> unat x \<and> unat x < pk_first p + unat (pk_size p)"
    "line_of ss x = pk_addr p \<Longrightarrow> unat x - pk_first p = line_off ss x"
proof -
  let ?a = "unat (pk_addr p)" and ?n = "2 ^ ss :: nat" and ?s = "unat (rg_start (am_range am))" and ?e = "unat (rg_end (am_range am))"
  have ss: "ss < 31" "ss < 32" "ss < 64" using assms(1) by (auto simp: sm_good_def)
  note al = whole_line_aligned [OF assms(2) ss(2)]
  have il: "in_line ss mx p" "pk_size p = 2 ^ ss" using assms(2) by (simp_all add: whole_line_def)
  show sz: "unat (pk_size p) = ?n" using il(2) line_size(1) [OF ss(1)] by simp
  show f: "pk_first p = ?a" by (simp add: pk_first_def)
  have a0: "?a mod ?n = 0" using al(1) line_off_mod [OF ss(3)] by simp
  have em: "?e mod ?n = ?n - 1" using assms(1) line_off_mod [OF ss(3)] by (simp add: sm_good_def)
  have le: "?s \<le> ?a" "?a \<le> ?e" using assms(3) by (simp_all add: sm_inside_def word_le_nat_alt)
  have "(?a + k) div ?n = ?a div ?n" if "k < ?n" for k using a0 that by (simp add: div_add1_eq)
  then have "(?a + (?n - 1)) div ?n = ?a div ?n" by (metis diff_less zero_less_numeral zero_less_one zero_less_power)
  then have "?a + (?n - 1) \<le> ?e" using quotient_bounds(2) [OF _ a0 em, of "?a + (?n - 1)"] div_le_mono [OF le(2), of ?n] by simp
  then have e: "?a + ?n \<le> ?e + 1" by simp
  show "in_memory am p" using il le(1) e sz f by (simp add: in_memory_def in_line_def)
  have q: "unat x div ?n = ?a div ?n" if "line_of ss x = pk_addr p" for x
    using line_of_div [OF ss(3), of x "pk_addr p"] that al(2) by simp
  have aq: "?a = ?a div ?n * ?n" using a0 div_mult_mod_eq [of ?a ?n] by simp
  have x: "unat x = ?a + line_off ss x" if "line_of ss x = pk_addr p" for x
    using div_mult_mod_eq [of "unat x" ?n] q [OF that] aq line_off_mod [OF ss(3), of x] by simp
  then show "unat x - pk_first p = line_off ss x" if "line_of ss x = pk_addr p" using that f by simp
  show "line_of ss x = pk_addr p \<longleftrightarrow> pk_first p \<le> unat x \<and> unat x < pk_first p + unat (pk_size p)" if "sm_inside am x"
  proof
    assume "line_of ss x = pk_addr p"
    then show "pk_first p \<le> unat x \<and> unat x < pk_first p + unat (pk_size p)" using x line_off_lt [OF ss(3), of x] f sz by simp
  next
    assume r: "pk_first p \<le> unat x \<and> unat x < pk_first p + unat (pk_size p)"
    have "x = pk_addr p + of_nat (unat x - ?a)"
      using r f by (simp add: of_nat_diff)
    moreover have "unat x - ?a < 2 ^ ss" using r f sz by linarith
    ultimately show "line_of ss x = pk_addr p" using line_add(1) [OF ss(3), of "unat x - ?a" "pk_addr p"] al(2) by simp
  qed
qed


lemma sm_read:
  assumes "sm_good ss am" "whole_line ss mx p" "pk_cmd p = ReadReq" "sm_inside am (pk_addr p)"
  shows "\<exists>t p' am'. sm_recvAtomic amo lat p am = Ok (t, p', am') \<and> sm_good ss am' \<and> sm_inside am' = sm_inside am \<and>
    (\<forall>x. sm_inside am x \<longrightarrow> sm_byte am' x = sm_byte am x) \<and> read_answer ss mx p p' \<and> pk_bytes p' = line_bytes ss (pk_addr p) (sm_byte am)"
proof -
  have ss: "ss < 31" "ss < 32" "ss < 64" using assms(1) by (auto simp: sm_good_def)
  note im = sm_in_memory [OF assms(1,2,4)] and al = whole_line_aligned [OF assms(2) ss(2)]
  have ok: "mem_ok am" using assms(1) by (simp add: sm_good_def)
  from plain_read [OF ok im(1) assms(3), of amo] obtain p' am' where
    r: "mem_access amo p am = Ok (p', am')" "pk_bytes p' = map (\<lambda>i. mem_byte am (pk_first p + i)) [0..<unat (pk_size p)]"
      "am_pmem am' = am_pmem am" "am_range am' = am_range am" "am_locked am' = am_locked am" by blast
  have il: "in_line ss mx p" using assms(2) by (simp add: whole_line_def)
  have pl: "plain_request ss mx p" "pk_size p = 2 ^ ss" using il assms(2,3) by (simp_all add: plain_request_def whole_line_def)
  have cr: "\<not> pkt_cacheResponding p" using il by (simp add: in_line_def)
  have n: "unat (pk_addr p + of_nat i) = pk_first p + i" if "i < 2 ^ ss" for i
  proof -
    have "line_off ss (pk_addr p + of_nat i) = i" "line_of ss (pk_addr p + of_nat i) = pk_addr p"
      using line_add [OF ss(3) that, of "pk_addr p"] al(2) by simp_all
    moreover from this(2) have "unat (pk_addr p + of_nat i) - pk_first p = line_off ss (pk_addr p + of_nat i)" by (rule im(5))
    moreover have "pk_first p \<le> unat (pk_addr p + of_nat i)"
      using line_of_le [of ss "pk_addr p + of_nat i"] \<open>line_of ss (pk_addr p + of_nat i) = pk_addr p\<close> im(2) by (simp add: word_le_nat_alt)
    ultimately show ?thesis by linarith
  qed
  have b: "pk_bytes p' = line_bytes ss (pk_addr p) (sm_byte am)"
    unfolding r(2) im(3) line_bytes_def al(2) using n by (simp add: sm_byte_def)
  from respond [OF pl(1), of "pk_bytes p'"] r(2) read_response [OF ok im(1) assms(3) r(1)]
  have "answer ss mx p (pk_bytes p') p'" by (auto simp: makeAtomicResponse_def)
  then have "read_answer ss mx p p'"
    using assms(3) pl(2) by (auto simp: answer_def read_answer_def whole_line_def cmd_defs)
  moreover have "sm_good ss am'" "sm_inside am' = sm_inside am" "sm_byte am' x = sm_byte am x" for x
    using assms(1) r(3-5) by (simp_all add: sm_good_def mem_ok_def sm_inside_def fun_eq_iff sm_byte_def mem_byte_def)
  ultimately show ?thesis using r(1) cr b by (simp add: sm_recvAtomic_def)
qed

lemma sm_write:
  assumes "sm_good ss am" "whole_line ss mx w" "sm_inside am (pk_addr w)" "\<not> req_isInstFetch (pk_req w)"
    "pk_cmd w = WritebackDirty \<or> pk_cmd w = WritebackClean \<and> pk_bytes w = line_bytes ss (pk_addr w) (sm_byte am)"
  shows "\<exists>t w' am'. sm_recvAtomic amo lat w am = Ok (t, w', am') \<and> sm_good ss am' \<and> sm_inside am' = sm_inside am \<and>
    (\<forall>x. sm_inside am x \<longrightarrow> sm_byte am' x = (if line_of ss x = pk_addr w then pk_bytes w ! line_off ss x else sm_byte am x))"
proof (cases "pk_cmd w = WritebackDirty")
  case True
  note im = sm_in_memory [OF assms(1-3)]
  have r: "req_hasPaddr (pk_req w)" "\<not> pkt_cacheResponding w" using assms(2) by (simp_all add: whole_line_def in_line_def)
  have ok: "mem_ok am" "am_locked am = []" using assms(1) by (simp_all add: sm_good_def)
  from store_writeback [OF ok(1) im(1) True r(1) ok(2) assms(4), of amo] obtain w' am' where
    s: "mem_access amo w am = Ok (w', am')" "mem_ok am'" "am_range am' = am_range am" "am_locked am' = []"
      "\<forall>a. unat (rg_start (am_range am)) \<le> a \<longrightarrow> a \<le> unat (rg_end (am_range am)) \<longrightarrow>
        mem_byte am' a = (if pk_first w \<le> a \<and> a < pk_first w + unat (pk_size w) then pk_bytes w ! (a - pk_first w) else mem_byte am a)" by blast
  have "sm_byte am' x = (if line_of ss x = pk_addr w then pk_bytes w ! line_off ss x else sm_byte am x)" if x: "sm_inside am x" for x
  proof -
    have "unat (rg_start (am_range am)) \<le> unat x" "unat x \<le> unat (rg_end (am_range am))" using x by (simp_all add: sm_inside_def word_le_nat_alt)
    then show ?thesis using s(5) im(4) [OF x] im(5) [of x] by (auto simp: sm_byte_def)
  qed
  moreover have "sm_good ss am'" "sm_inside am' = sm_inside am" using assms(1) s(2-4) by (simp_all add: sm_good_def sm_inside_def fun_eq_iff)
  ultimately show ?thesis using s(1) r(2) by (simp add: sm_recvAtomic_def)
next
  case False
  then have k: "pk_cmd w = WritebackClean" "pk_bytes w = line_bytes ss (pk_addr w) (sm_byte am)" using assms(5) by blast+
  have ss: "ss < 32" "ss < 64" using assms(1) by (auto simp: sm_good_def)
  have al: "line_of ss (pk_addr w) = pk_addr w" by (rule whole_line_aligned(2) [OF assms(2) ss(1)])
  have "sm_recvAtomic amo lat w am = Ok (lat, w, am)"
    using k(1) assms(2) by (simp add: sm_recvAtomic_def mem_access_def whole_line_def in_line_def)
  moreover have "pk_bytes w ! line_off ss x = sm_byte am x" if "line_of ss x = pk_addr w" for x
    using k(2) line_bytes_nth [OF ss(2), of "pk_addr w" "sm_byte am" x] line_split [of ss x] that al by simp
  ultimately show ?thesis using assms(1) by auto
qed

interpretation simple: line_memory "sm_recvAtomic amo lat" "sm_good ss" sm_byte sm_inside ss mx for amo lat ss mx
proof
  fix am x y
  assume g: "sm_good ss am" and l: "line_of ss x = line_of ss y"
  have ss: "ss < 64" using g by (simp add: sm_good_def)
  have a: "unat (rg_start (am_range am)) mod 2 ^ ss = 0" and b: "unat (rg_end (am_range am)) mod 2 ^ ss = 2 ^ ss - 1"
    using g line_off_mod [OF ss] by (simp_all add: sm_good_def)
  have p: "(0 :: nat) < 2 ^ ss" by simp
  show "sm_inside am x = sm_inside am y"
    unfolding sm_inside_def word_le_nat_alt quotient_bounds [OF p a b] line_of_div [OF ss l] ..
qed (rule sm_read sm_write, assumption+)+

text \<open>
  A cache as it is built: at most 4 GiB, so that no two blocks share their data, in lines of \<open>2 ^ ss\<close> bytes, mostly inclusive and writable, with any
  replacement policy that keeps the contract.
\<close>

definition fresh_cache :: "nat \<Rightarrow> 'd BaseCache \<Rightarrow> bool" where
  "fresh_cache ss c \<longleftrightarrow> (\<exists>rp rok junk sp t cp. replacement_policy rp rok \<and> new_BaseSetAssoc rp junk sp = Ok t \<and> sp_block_size sp = 2 ^ ss \<and>
     sp_size sp \<le> 2 ^ 32 \<and> ss < 31 \<and> 0 < sp_assoc sp \<and> cp_mostly_incl cp \<and> \<not> cp_is_read_only cp \<and> c = new_BaseCache junk t rp cp (2 ^ ss))"

lemma fresh_good:
  assumes "fresh_cache ss c"
  shows "cache_ok ss c" "line_at (bc_tags c) x = None" "\<exists>rok. replacement_policy (bc_policy c) rok"
proof -
  obtain rp rok junk sp t cp where f: "replacement_policy rp rok" "new_BaseSetAssoc rp junk sp = Ok t" "sp_block_size sp = 2 ^ ss"
    "ss < 31" "0 < sp_assoc sp" "cp_mostly_incl cp" "\<not> cp_is_read_only cp" "c = new_BaseCache junk t rp cp (2 ^ ss)"
    using assms by (auto simp: fresh_cache_def)
  have pos: "0 < sp_block_size sp" using f(3) by simp
  note n = new_BaseSetAssoc_ok [OF f(2) pos f(5)] and b = new_blocks [OF f(2) pos f(5)]
  obtain k sb where g: "geometry_ok t k sb" using n(1) by (rule sa_okE)
  have "sa_blkSize t = 2 ^ ss" using b(1) f(3) by simp
  then have "unat (2 ^ k :: u32) = unat (2 ^ ss :: u32)" and k: "k < 32" using g by (simp_all add: geometry_ok_def)
  then have "(2 :: nat) ^ k = 2 ^ ss" using f(4) by (simp add: unat_2p_word)
  then have "k = ss" by simp
  then have "sa_setShift t = ss" using g by (simp add: geometry_ok_def)
  moreover have "line_ok ss (sa_blk t i)" if "linked t i" for i
    using b(2) that n(2) line_size(1) [OF f(4)] \<open>sa_blkSize t = 2 ^ ss\<close> by (auto simp: line_ok_def)
  ultimately have tok: "tags_ok ss t" using n(1) f(4) by (simp add: tags_ok_def)
  then show "cache_ok ss c" using f by (simp add: cache_ok_def new_BaseCache_def)
  have "\<not> (\<exists>i. holds t x False i)" using n(2) by (auto simp: holds_def)
  then show "line_at (bc_tags c) x = None" using line_at_none [OF n(1)] f(8) by (simp add: new_BaseCache_def)
  show "\<exists>rok. replacement_policy (bc_policy c) rok" using f(1,8) by (auto simp: new_BaseCache_def)
qed

interpretation cached: line_memory "cache_port (sm_recvAtomic amo lat) envs" "cache_good (sm_good ss) sm_byte sm_inside ss mx envs"
  "cache_byte ss sm_byte" "cache_inside sm_inside" ss mx for amo lat envs ss mx
  by (rule simple.cache_is_memory)

section \<open>Runs\<close>

definition cache_step :: "'s mem_port \<Rightarrow> Packet \<Rightarrow> 's \<Rightarrow> (Packet \<times> 's) result" where
  "cache_step port p s = bindR (port p s) (\<lambda>(_, p, s). Ok (p, s))"

fun flat_run :: "Packet list \<Rightarrow> (Addr \<Rightarrow> u8) \<Rightarrow> u8 list list" where
  "flat_run [] f = []"
| "flat_run (p # ps) f = spec_bytes p f # flat_run ps (spec_memory p f)"

context line_memory
begin

lemma spec_cong:
  assumes "plain_request ss mx p" "ss < 31" "\<And>x. D x \<Longrightarrow> f x = g x" "D (pk_addr p)" "\<And>x y. line_of ss x = line_of ss y \<Longrightarrow> D x = D y"
  shows "spec_bytes p f = spec_bytes p g" "D x \<Longrightarrow> spec_memory p f x = spec_memory p g x"
proof -
  have il: "in_line ss mx p" using assms(1) by (simp add: plain_request_def)
  have "f (pk_addr p + of_nat k) = g (pk_addr p + of_nat k)" if "k < unat (pk_size p)" for k
    using flat_bytes(1) [OF il assms(2) that] assms(3-5) by blast
  then show "spec_bytes p f = spec_bytes p g" by (simp add: spec_bytes_def flat_read_def)
  show "D x \<Longrightarrow> spec_memory p f x = spec_memory p g x" using assms(3) by (simp add: spec_memory_def flat_write_def)
qed

lemma run_requests:
  assumes "cache_good good byte inside ss mx supply s" "\<forall>p\<in>set ps. plain_request ss mx p \<and> cache_inside inside s (pk_addr p)"
    "\<And>x. cache_inside inside s x \<Longrightarrow> f x = cache_byte ss byte s x"
  shows "\<exists>log s'. run_accesses (cache_step (cache_port send supply)) ps s = Ok (log, s') \<and> cache_good good byte inside ss mx supply s' \<and>
    map (\<lambda>(p, p'). pk_bytes p') log = flat_run ps f \<and> map (\<lambda>(p, p'). pk_cmd p') log = map (\<lambda>p. responseCommand (pk_cmd p)) ps \<and>
    (\<forall>x. cache_inside inside s x \<longrightarrow> cache_byte ss byte s' x = fold spec_memory ps f x)"
  using assms
proof (induction ps arbitrary: s f)
  case Nil
  then show ?case by simp
next
  case (Cons p ps)
  let ?D = "cache_inside inside s"
  have p: "plain_request ss mx p" "?D (pk_addr p)" using Cons.prems(2) by auto
  have ss: "ss < 31" using Cons.prems(1) by (auto simp: cache_good_def cache_ok_def tags_ok_def)
  have closed: "?D x = ?D y" if "line_of ss x = line_of ss y" for x y
    using line_memory.inside_line [OF cache_is_memory Cons.prems(1) that] .
  from port_request [OF Cons.prems(1) p] obtain l p' s' where
    r: "cache_port send supply p s = Ok (l, p', s')" "cache_good good byte inside ss mx supply s'" "cache_inside inside s' = ?D"
      "answer ss mx p (spec_bytes p (cache_byte ss byte s)) p'"
      "\<forall>x. ?D x \<longrightarrow> cache_byte ss byte s' x = spec_memory p (cache_byte ss byte s) x" by blast
  note c = spec_cong [where D = ?D and f = f and g = "cache_byte ss byte s", OF p(1) ss Cons.prems(3) p(2) closed]
  have "\<forall>q\<in>set ps. plain_request ss mx q \<and> cache_inside inside s' (pk_addr q)" using Cons.prems(2) r(3) by simp
  moreover have "spec_memory p f x = cache_byte ss byte s' x" if "cache_inside inside s' x" for x
    using that r(3,5) c(2) by simp
  ultimately obtain log s'' where
    i: "run_accesses (cache_step (cache_port send supply)) ps s' = Ok (log, s'')" "cache_good good byte inside ss mx supply s''"
      "map (\<lambda>(p, p'). pk_bytes p') log = flat_run ps (spec_memory p f)" "map (\<lambda>(p, p'). pk_cmd p') log = map (\<lambda>p. responseCommand (pk_cmd p)) ps"
      "\<forall>x. cache_inside inside s' x \<longrightarrow> cache_byte ss byte s'' x = fold spec_memory ps (spec_memory p f) x"
    using Cons.IH [OF r(2)] by blast
  have "run_accesses (cache_step (cache_port send supply)) (p # ps) s = Ok ((p, p') # log, s'')" using r(1) i(1) by (simp add: cache_step_def)
  moreover have "pk_bytes p' = spec_bytes p f" "pk_cmd p' = responseCommand (pk_cmd p)" using r(4) c(1) by (auto simp: answer_def pk_bytes_def)
  ultimately show ?case using i r(3) by simp
qed

end

section \<open>A mostly exclusive cache\<close>

lemma temp_pointer [simp]:
  "get_blk TempBlk (put_blk TempBlk b c) = b" "bc_tags (put_blk TempBlk b c) = bc_tags c" "bc_blkSize (put_blk TempBlk b c) = bc_blkSize c"
  "isValid (bc_tempBlock (put_blk TempBlk b c)) = isValid b" "put_blk TempBlk b' (put_blk TempBlk b c) = put_blk TempBlk b' c"
  "bc_mostly_incl (put_blk TempBlk b c) = bc_mostly_incl c" "bc_policy (put_blk TempBlk b c) = bc_policy c"
  "bc_isReadOnly (put_blk TempBlk b c) = bc_isReadOnly c" "bc_writeBuffer (put_blk TempBlk b c) = bc_writeBuffer c"
  by (simp_all add: get_blk_def put_blk_def CacheBlk.defs TempCacheBlk.defs isValid_def)

lemma temp_fill:
  assumes ok: "cache_base ss c" and p: "whole_line ss mx p" "pk_cmd p = ReadResp" and temp: "\<not> isValid (bc_tempBlock c)"
    "cb_data (bc_tempBlock c) = Some d" "length d = 2 ^ ss" "cb_lockList (bc_tempBlock c) = []"
  shows "\<exists>b c1. handleFill ev env p None False c = Ok (TempBlk, [], put_blk TempBlk b c1) \<and> bc_tags c1 = bc_tags c \<and> bc_blkSize c1 = bc_blkSize c \<and>
    bc_mostly_incl c1 = bc_mostly_incl c \<and> bc_isReadOnly c1 = bc_isReadOnly c \<and> bc_policy c1 = bc_policy c \<and> isValid b \<and> isWritable b \<and>
    cb_data b = Some (pk_bytes p) \<and> cb_lockList b = [] \<and> bc_writeBuffer c1 = []"
proof -
  have il: "in_line ss mx p" "pk_size p = 2 ^ ss" using p(1) by (simp_all add: whole_line_def)
  have ss: "ss < 31" "ss < 32" and bs: "bc_blkSize c = 2 ^ ss" and wq: "bc_writeBuffer c = []" using ok by (auto simp: cache_base_def tags_ok_def)
  note w = whole_line_aligned [OF p(1) ss(2)] and o = in_line_offset [OF il(1) ss(2)] and g = in_line_getters [OF il(1)]
  have sh: "\<not> pkt_hasSharers p" "\<not> pkt_cacheResponding p" using il(1) by (simp_all add: in_line_def)
  define c1 where "c1 = c\<lparr>bc_tempBlock := TempCacheBlk_insert (pk_addr p) False (bc_tempBlock c)\<rparr>"
  define b0 where "b0 = get_blk TempBlk c1"
  have b0: "cb_status b0 = 0" "cb_data b0 = Some d" "cb_lockList b0 = []" "\<not> isValid b0"
    using temp by (simp_all add: b0_def get_blk_def c1_def TempCacheBlk_insert_def CacheBlk.defs isValid_def)
  define b where "b = b0\<lparr>cb_status := BlkValid OR BlkReadable OR BlkWritable, cb_data := Some (pk_bytes p),
    cb_whenReady := ce_clockEdge env 0 + bc_fillLatency c1 * ce_clockPeriod env + ucast (pk_payloadDelay p)\<rparr>"
  have "handleFill ev env p None False c = Ok (TempBlk, [], put_blk TempBlk b c1)"
    using p(2) temp(1) g(1,2,3) o(2) w(2) sh bs il(2) b0 wq write_line_data [OF p(1) ss(1) temp(3)]
    by (simp add: handleFill_def cmd_defs blk_data_def b_def or_status_def Let_def or.assoc b0_def [symmetric] c1_def [symmetric])
      (simp add: c1_def)
  moreover have "isValid b" "isWritable b" by (simp_all add: b_def status_bits blk_bit_defs)
  ultimately show ?thesis by (intro exI [of _ b] exI [of _ c1]) (simp add: b_def b0 c1_def wq)
qed


lemma temp_write:
  assumes p: "plain_request ss mx p" "pk_cmd p = WriteReq" and ss: "ss < 31" and c: "bc_blkSize c = 2 ^ ss"
    and b: "isValid b" "isWritable b" "cb_data b = Some d" "length d = 2 ^ ss" "cb_lockList b = []"
  shows "\<exists>b'. nc_satisfyRequest amo p (Some TempBlk) (put_blk TempBlk b c) = Ok (p, put_blk TempBlk b' c) \<and> isValid b' \<and> isDirty b'"
proof -
  have il: "in_line ss mx p" using p(1) by (simp add: plain_request_def)
  have ss32: "ss < 32" using ss by simp
  note g = in_line_getters [OF il] and o = in_line_offset [OF il ss32] and s = off_sum [OF il ss]
  have le: "line_off ss (pk_addr p) + unat (pk_size p) \<le> 2 ^ ss" using il by (simp add: in_line_def)
  let ?d = "overwrite (line_off ss (pk_addr p)) (pk_bytes p) d"
  let ?b = "or_status BlkDirty (b\<lparr>cb_data := Some ?d\<rparr>)"
  have wd: "writeDataToBlock d (2 ^ ss) p = Ok ?d"
    using o g le b(4) s(2) by (simp add: writeDataToBlock_def pkt_writeData_def memcpy_def)
  have "nc_satisfyRequest amo p (Some TempBlk) (put_blk TempBlk b c) = Ok (p, put_blk TempBlk ?b c)"
    using p(2) b c g o s wd
    by (simp add: nc_satisfyRequest_def base_satisfyRequest_def satisfy_write_def checkWrite_def cmd_defs blk_data_def)
  moreover have "isValid ?b" "isDirty ?b" using b(1) by (simp_all add: status_bits or_status_def bit_simps blk_bit_defs)
  ultimately show ?thesis by blast
qed

text \<open>What is left of an access once a miss has come back with the line \<open>q\<close>.\<close>

definition after_miss ::
  "AbstractMemory mem_port \<Rightarrow> cache_env \<Rightarrow> u64 \<Rightarrow> Packet \<Rightarrow> Packet \<Rightarrow> 'd BaseCache \<Rightarrow> AbstractMemory \<Rightarrow> (Tick \<times> Packet \<times> 'd BaseCache \<times> AbstractMemory) result" where
  "after_miss port env lat p q c am =
     bindR (handleFill nc_evictBlock env q None False c) (\<lambda>(b, wbs, c).
     bindR (nc_satisfyRequest (ce_amo env) (p\<lparr>pk_req := pk_req q\<rparr>) (Some b) c) (\<lambda>(pkt, c).
     bindR (maintainClusivity True (Some b) c) (\<lambda>c.
     bindR (if \<not> cmd_isWriteback (pk_cmd pkt) \<and> pk_cmd pkt \<noteq> WriteClean
            then bindR (assertR (cmd_needsResponse (pk_cmd pkt)) AssertFail) (\<lambda>_. makeAtomicResponse pkt) else Ok pkt) (\<lambda>pkt.
     bindR (nc_doWritebacksAtomic port wbs am) (\<lambda>m.
     bindR (if cmd_needsResponse (pk_cmd pkt) then makeAtomicResponse pkt else Ok pkt) (\<lambda>pkt.
       Ok (lat * ce_clockPeriod env, pkt, c, m)))))))"

lemma exclusive_miss:
  assumes ok: "cache_base ss c" "\<not> bc_mostly_incl c" and env: "env_ok mx env c" and am: "sm_good ss am" and p: "plain_request ss mx p"
    and ins: "sm_inside am (pk_addr p)" and miss: "line_at (bc_tags c) (pk_addr p) = None"
  shows "\<exists>lat c1 l q am1. same_config c c1 \<and> tags_ok ss (bc_tags c1) \<and> (\<forall>x. line_at (bc_tags c1) x = line_at (bc_tags c) x) \<and>
    whole_line ss mx q \<and> pk_cmd q = ReadResp \<and> sm_good ss am1 \<and> sm_inside am1 = sm_inside am \<and>
    (\<forall>x. sm_inside am x \<longrightarrow> sm_byte am1 x = sm_byte am x) \<and> plain_request ss mx (p\<lparr>pk_req := pk_req q\<rparr>) \<and>
    nc_recvAtomic (sm_recvAtomic amo latency) env p c am = after_miss (sm_recvAtomic amo latency) env (lat + l) p q c1 am1"
proof -
  have il: "in_line ss mx p" and k: "pk_cmd p = ReadReq \<or> pk_cmd p = WriteReq" using p by (simp_all add: plain_request_def)
  have cr: "\<not> pkt_cacheResponding p" using il by (simp add: in_line_def)
  have rw: "cmd_isRead (pk_cmd p) \<or> cmd_isWrite (pk_cmd p)" "\<not> cmd_isClean (pk_cmd p)" "cmd_needsResponse (pk_cmd p)" "pk_cmd p \<noteq> UpgradeResp"
    using k by (auto simp: cmd_defs)
  have tb: "clear_tempBlock dw ev env None c' m' = Ok (c', m')" for dw ev c' m' by (simp add: clear_tempBlock_def)
  from access_miss [OF ok(1) env p miss] obtain lat c1 where
    a: "nc_access env p c = Ok (lat, False, p\<lparr>pk_req := incAccessDepth (pk_req p)\<rparr>, None, [], c1)" "same_config c c1" "tags_ok ss (bc_tags c1)"
      "\<forall>x. line_at (bc_tags c1) x = line_at (bc_tags c) x" by blast
  define p1 where "p1 = p\<lparr>pk_req := incAccessDepth (pk_req p)\<rparr>"
  have p1: "plain_request ss mx p1" "pk_addr p1 = pk_addr p" "pk_cmd p1 = pk_cmd p" using p by (simp_all add: p1_def incAccessDepth_def)
  have base1: "cache_base ss c1" and excl1: "\<not> bc_mostly_incl c1" using ok a(2,3) by (simp_all add: cache_base_def same_config_def)
  have "in_line ss mx p1" "cmd_needsResponse (pk_cmd p1)" using p1 rw by (simp_all add: plain_request_def)
  from miss_packet [OF base1 this, of env] obtain q0 where
    q0: "nc_createMissPacket env p1 None c1 = Ok q0" "whole_line ss mx q0" "pk_cmd q0 = ReadReq" "pk_req q0 = pk_req p1"
      "pk_addr q0 = line_of ss (pk_addr p)" unfolding p1(2) by blast
  have "sm_inside am (pk_addr q0)" using ins simple.inside_line [OF am, of "pk_addr p" "pk_addr q0"] q0(5) by simp
  from simple.read_line [OF am q0(2,3) this, of amo latency] obtain l q am1 where
    r: "sm_recvAtomic amo latency q0 am = Ok (l, q, am1)" "sm_good ss am1" "sm_inside am1 = sm_inside am"
      "\<forall>x. sm_inside am x \<longrightarrow> sm_byte am1 x = sm_byte am x" "read_answer ss mx q0 q" by blast
  obtain n where q: "whole_line ss mx q" "pk_cmd q = ReadResp" "pk_req q = (pk_req p1)\<lparr>rq_depth := n\<rparr>"
    using r(5) q0(4) by (auto simp: read_answer_def)
  have nosh: "\<not> pkt_hasSharers q" using q(1) by (simp add: whole_line_def in_line_def)
  have kq: "cmd_isResponse (pk_cmd q)" "cmd_isRead (pk_cmd q)" "\<not> cmd_isInvalidate (pk_cmd q)" "\<not> cmd_isError (pk_cmd q)"
    "\<not> allocOnFill (pk_cmd q) c1" using q(2) excl1 by (simp_all add: allocOnFill_def cmd_defs)
  have rq: "p1\<lparr>pk_req := pk_req q\<rparr> = p\<lparr>pk_req := pk_req q\<rparr>" by (simp add: p1_def)
  have pl: "plain_request ss mx (p\<lparr>pk_req := pk_req q\<rparr>)" using p by (simp add: q(3) p1_def incAccessDepth_def)
  have h: "nc_handleAtomicReqMiss (sm_recvAtomic amo latency) env p1 None c1 am =
      bindR (handleFill nc_evictBlock env q None False c1) (\<lambda>(b, wbs, c).
        bindR (nc_satisfyRequest (ce_amo env) (p\<lparr>pk_req := pk_req q\<rparr>) (Some b) c) (\<lambda>(pkt, c).
        bindR (maintainClusivity True (Some b) c) (\<lambda>c.
        bindR (if \<not> cmd_isWriteback (pk_cmd pkt) \<and> pk_cmd pkt \<noteq> WriteClean
               then bindR (assertR (cmd_needsResponse (pk_cmd pkt)) AssertFail) (\<lambda>_. makeAtomicResponse pkt) else Ok pkt) (\<lambda>pkt.
          Ok (ce_ticksToCycles env l, pkt, wbs, c, am1)))))"
    using q0(1) r(1) nosh rw(4) p1(3) kq
    by (simp add: nc_handleAtomicReqMiss_def Let_def rq bindR_assoc case_prod_unfold cong: if_cong)
  have "nc_recvAtomic (sm_recvAtomic amo latency) env p c am =
      after_miss (sm_recvAtomic amo latency) env (lat + ce_ticksToCycles env l) p q c1 am1"
    using a(1) by (simp add: nc_recvAtomic_def cr rw base_recvAtomic_def p1_def [symmetric] h tb bindR_assoc case_prod_unfold
        nc_doWritebacksAtomic_def after_miss_def cong: if_cong)
  then show ?thesis using a(2-4) q(1,2) r(2-4) pl by blast
qed

text \<open>An error that comes back from below never reaches the requester: the fill is skipped and the request is then served from no block.\<close>

lemma error_answer_aborts:
  assumes "nc_createMissPacket env pkt blk c = Ok q" "send q m = Ok (t, q', m')" "cmd_isError (pk_cmd q')"
  shows "nc_handleAtomicReqMiss send env pkt blk c m = Error AssertFail"
proof -
  have "nc_satisfyRequest (ce_amo env) p blk c = Error AssertFail" for p
  proof (cases blk)
    case None
    then show ?thesis by (simp add: nc_satisfyRequest_def base_satisfyRequest_def assertR_def)
  next
    case (Some b)
    then have "\<not> isValid (get_blk b c)" using assms(1) by (auto simp: nc_createMissPacket_def bindR_Ok_iff)
    then show ?thesis using Some by (simp add: nc_satisfyRequest_def base_satisfyRequest_def assertR_def)
  qed
  then show ?thesis using assms by (simp add: nc_handleAtomicReqMiss_def Let_def assertR_def)
qed

section \<open>An example\<close>

definition demo_env :: cache_env where
  "demo_env = \<lparr>ce_curTick = 1000, ce_clockEdge = (\<lambda>n. 1000 + 500 * n), ce_clockPeriod = 500, ce_ticksToCycles = (\<lambda>t. t div 500),
     ce_victimDraw = 0, ce_resetDraw = 0, ce_pktId = 1, ce_maxMasters = 4, ce_mshr = (\<lambda>_ _. False), ce_mshrNeedsWritable = (\<lambda>_ _. False),
     ce_mshrCleaning = (\<lambda>_ _. False), ce_pendingModified = (\<lambda>_ _. False),
     ce_queues = (\<lambda>p. Ok (False, p)), ce_amo = (\<lambda>_. id)\<rparr>"

definition demo_params :: "bool \<Rightarrow> BaseCacheParams" where
  "demo_params incl = \<lparr>cp_writeback_clean = False, cp_tag_latency = 2, cp_data_latency = 2, cp_mostly_incl = incl, cp_is_read_only = False,
     cp_write_buffers = 8, cp_max_miss_count = 0\<rparr>"

definition demo_write :: Packet where "demo_write = mem_packet WriteReq 0 8 [1, 2]"
definition demo_reread :: Packet where "demo_reread = mem_packet ReadReq 1 9 [0, 0]"

lemma demo_fresh:
  assumes "new_BaseSetAssoc LRURP (\<lambda>_. 0) small_tags_params = Ok t"
  shows "fresh_cache 2 (new_BaseCache (\<lambda>_. 0) t LRURP (demo_params True) 4)"
  unfolding fresh_cache_def
  by (intro exI [of _ LRURP] exI [of _ "\<lambda>_. True"] exI [of _ "\<lambda>_. 0"] exI [of _ small_tags_params] exI [of _ t] exI [of _ "demo_params True"])
    (use assms in \<open>simp_all add: lru.replacement_policy_axioms demo_params_def\<close>, simp_all add: small_tags_params_def)

lemma demo_env_ok: "sa_assoc t = 2 \<Longrightarrow> env_ok 4 demo_env (new_BaseCache (\<lambda>_. 0) t LRURP (demo_params i) 4)"
  by (simp add: env_ok_def demo_env_def wbMasterId_def new_BaseCache_def)

lemma demo_mem: "sm_good 2 small_mem" "sm_inside small_mem x \<longleftrightarrow> x \<le> 63"
  using small_mem_ok by (simp_all add: sm_good_def sm_inside_def small_mem_def setBackingStore_def new_AbstractMemory_def AddrRange_plain_def
      line_off_def mask_numeral)

lemma demo_requests: "plain_request 2 4 demo_write" "plain_request 2 4 demo_reread" "pk_addr demo_write = 8" "pk_addr demo_reread = 9"
  by (simp_all add: plain_request_def in_line_def demo_write_def demo_reread_def mem_packet_simps line_off_def line_of_def mask_numeral)
    (simp_all add: mem_packet_def blank_Packet_def pkt_hasSharers_def pkt_isSet_def flags_isSet_def pkt_flag_defs
      setContext_def Request_phys_def setPhys_def empty_Request_def req_isSecure_def req_isCacheMaintenance_def
      req_isSet_def flags_set_def flags_clear_def STICKY_FLAGS_def INST_FETCH_def)

lemma demo_flat: "flat_run [demo_write, demo_reread] (sm_byte small_mem) = [[1, 2], [2, 0]]"
  by (simp add: spec_bytes_def spec_memory_def flat_read_def flat_write_def demo_write_def demo_reread_def mem_packet_simps pk_bytes_def
      upt_rec sm_byte_def mem_byte_def small_mem_def setBackingStore_def new_AbstractMemory_def AddrRange_plain_def)

section \<open>Properties\<close>

text \<open>C4: a cache is transparent: a newly built non-coherent, mostly inclusive cache over a simple memory, with any replacement
  policy that keeps the contract and any geometry of at most 4 GiB, answers every sequence of reads and writes that stay inside a line and inside the
  memory, each with the response of its command, and every answer has the bytes that a flat array of bytes, starting as the memory, has at that
  point; at the end the cache and the memory together hold what the flat array holds.\<close>

theorem cache_transparent:
  assumes "fresh_cache ss c" "\<forall>k. env_ok mx (supply k) c" "sm_good ss am"
    and "\<forall>p\<in>set ps. plain_request ss mx p \<and> sm_inside am (pk_addr p)"
  shows "\<exists>log n c' am'. run_accesses (cache_step (cache_port (sm_recvAtomic amo lat) supply)) ps (0, c, am) = Ok (log, n, c', am') \<and>
    map (\<lambda>(p, p'). pk_bytes p') log = flat_run ps (sm_byte am) \<and> map (\<lambda>(p, p'). pk_cmd p') log = map (\<lambda>p. responseCommand (pk_cmd p)) ps \<and>
    (\<forall>x. sm_inside am x \<longrightarrow> content ss (bc_tags c') (sm_byte am') x = fold spec_memory ps (sm_byte am) x)"
proof -
  note f = fresh_good [OF assms(1)]
  have g: "cache_good (sm_good ss) sm_byte sm_inside ss mx supply (0, c, am)"
    using f assms(2,3) by (simp add: cache_good_def coherent_def)
  have b: "sm_byte am x = cache_byte ss sm_byte (0, c, am) x" for x using f(2) by (simp add: cache_byte_def content_def)
  from simple.run_requests [OF g, of ps "sm_byte am" amo lat] assms(4) b show ?thesis
    by (fastforce simp: cache_inside_def cache_byte_def)
qed

theorem cache_transparent_witness:
  "\<exists>c log n c' am'. run_accesses (cache_step (cache_port (sm_recvAtomic (\<lambda>_. id) 30) (\<lambda>_. demo_env))) [demo_write, demo_reread] (0, c, small_mem) =
      Ok (log, n, c', am') \<and> fresh_cache 2 (c :: LRUReplData BaseCache) \<and> map (\<lambda>(p, p'). pk_bytes p') log = [[1, 2], [2, 0]]"
proof -
  obtain t where t: "new_BaseSetAssoc LRURP (\<lambda>_. 0) small_tags_params = Ok t" "sa_assoc t = 2" using small_tags by blast
  let ?c = "new_BaseCache (\<lambda>_. 0) t LRURP (demo_params True) 4"
  have e: "\<forall>k. env_ok 4 demo_env ?c" using demo_env_ok [OF t(2)] by blast
  have "\<forall>p\<in>set [demo_write, demo_reread]. plain_request 2 4 p \<and> sm_inside small_mem (pk_addr p)"
    by (simp add: demo_requests demo_mem(2))
  from cache_transparent [OF demo_fresh [OF t(1)] e demo_mem(1) this, of "\<lambda>_. id" 30] demo_fresh [OF t(1)] show ?thesis
    unfolding demo_flat by (elim exE conjE) (intro exI conjI; assumption)
qed

text \<open>C13: caches stack: two such caches on top of each other over a simple memory, where the lower one takes in the line fills and the
  writebacks of the upper one, still answer every sequence of reads and writes as a flat array of bytes.\<close>

theorem cache_tower_transparent:
  assumes "fresh_cache ss c1" "\<forall>k. env_ok mx (supply1 k) c1" "fresh_cache ss c2" "\<forall>k. env_ok mx (supply2 k) c2" "sm_good ss am"
    and "\<forall>p\<in>set ps. plain_request ss mx p \<and> sm_inside am (pk_addr p)"
  shows "\<exists>log s'. run_accesses (cache_step (cache_port (cache_port (sm_recvAtomic amo lat) supply2) supply1)) ps (0, c1, 0, c2, am) = Ok (log, s') \<and>
    map (\<lambda>(p, p'). pk_bytes p') log = flat_run ps (sm_byte am) \<and> map (\<lambda>(p, p'). pk_cmd p') log = map (\<lambda>p. responseCommand (pk_cmd p)) ps"
proof -
  note f1 = fresh_good [OF assms(1)] and f2 = fresh_good [OF assms(3)]
  let ?s2 = "(0, c2, am)" and ?good = "cache_good (sm_good ss) sm_byte sm_inside ss mx supply2"
  have g2: "?good ?s2" using f2 assms(4,5) by (simp add: cache_good_def coherent_def)
  have g1: "cache_good ?good (cache_byte ss sm_byte) (cache_inside sm_inside) ss mx supply1 (0, c1, ?s2)"
    using f1 assms(2) g2 by (simp add: cache_good_def [of ?good] coherent_def)
  have b: "sm_byte am x = cache_byte ss (cache_byte ss sm_byte) (0, c1, ?s2) x" for x
    using f1(2) f2(2) by (simp add: cache_byte_def content_def)
  from cached.run_requests [OF g1, of ps "sm_byte am" amo lat] assms(6) b show ?thesis
    by (fastforce simp: cache_inside_def)
qed

theorem cache_tower_transparent_witness:
  "\<exists>c log s'. run_accesses (cache_step (cache_port (cache_port (sm_recvAtomic (\<lambda>_. id) 30) (\<lambda>_. demo_env)) (\<lambda>_. demo_env)))
      [demo_write, demo_reread] (0, c, 0, c, small_mem) = Ok (log, s') \<and> fresh_cache 2 (c :: LRUReplData BaseCache) \<and>
      map (\<lambda>(p, p'). pk_bytes p') log = [[1, 2], [2, 0]]"
proof -
  obtain t where t: "new_BaseSetAssoc LRURP (\<lambda>_. 0) small_tags_params = Ok t" "sa_assoc t = 2" using small_tags by blast
  let ?c = "new_BaseCache (\<lambda>_. 0) t LRURP (demo_params True) 4"
  have e: "\<forall>k. env_ok 4 demo_env ?c" using demo_env_ok [OF t(2)] by blast
  have "\<forall>p\<in>set [demo_write, demo_reread]. plain_request 2 4 p \<and> sm_inside small_mem (pk_addr p)"
    by (simp add: demo_requests demo_mem(2))
  from cache_tower_transparent [OF demo_fresh [OF t(1)] e demo_fresh [OF t(1)] e demo_mem(1) this, of "\<lambda>_. id" 30] demo_fresh [OF t(1)] show ?thesis
    unfolding demo_flat by (elim exE conjE) (intro exI conjI; assumption)
qed

text \<open>C37: a mostly exclusive non-coherent cache is not transparent in atomic mode: a write that misses is answered as done, but
  neither the tags nor the memory hold its bytes, because the temporary block it went to is never evicted, and the next access
  that misses fails the assertion that the temporary block is free.\<close>

theorem exclusive_write_lost:
  assumes "cache_base ss c" "\<not> bc_mostly_incl c" "\<not> isValid (bc_tempBlock c)" "cb_data (bc_tempBlock c) = Some d" "length d = 2 ^ ss"
    "cb_lockList (bc_tempBlock c) = []" "env_ok mx env c" "env_ok mx env' c" "sm_good ss am"
    and "plain_request ss mx w" "pk_cmd w = WriteReq" "sm_inside am (pk_addr w)" "line_at (bc_tags c) (pk_addr w) = None"
    and "plain_request ss mx r" "sm_inside am (pk_addr r)" "line_at (bc_tags c) (pk_addr r) = None"
  shows "\<exists>l w' c' am'. nc_recvAtomic (sm_recvAtomic amo lat) env w c am = Ok (l, w', c', am') \<and> pk_cmd w' = WriteResp \<and>
    (\<forall>x. sm_inside am x \<longrightarrow> content ss (bc_tags c') (sm_byte am') x = content ss (bc_tags c) (sm_byte am) x) \<and>
    nc_recvAtomic (sm_recvAtomic amo lat) env' r c' am' = Error AssertFail"
proof -
  have ss: "ss < 31" "ss < 32" using assms(1) by (auto simp: cache_base_def tags_ok_def)
  from exclusive_miss [OF assms(1,2,7,9,10,12,13), of amo lat] obtain la c1 l q am1 where
    a: "same_config c c1" "tags_ok ss (bc_tags c1)" "\<forall>x. line_at (bc_tags c1) x = line_at (bc_tags c) x" "whole_line ss mx q" "pk_cmd q = ReadResp"
      "sm_good ss am1" "sm_inside am1 = sm_inside am" "\<forall>x. sm_inside am x \<longrightarrow> sm_byte am1 x = sm_byte am x"
      "plain_request ss mx (w\<lparr>pk_req := pk_req q\<rparr>)" and recv: "nc_recvAtomic (sm_recvAtomic amo lat) env w c am = after_miss (sm_recvAtomic amo lat) env (la + l) w q c1 am1" by blast
  have base1: "cache_base ss c1" using assms(1) a(1,2) by (simp add: cache_base_def same_config_def)
  have t1: "\<not> isValid (bc_tempBlock c1)" "cb_data (bc_tempBlock c1) = Some d" "cb_lockList (bc_tempBlock c1) = []"
    using assms(3,4,6) a(1) by (simp_all add: same_config_def)
  from temp_fill [OF base1 a(4,5) t1(1,2) assms(5) t1(3), of nc_evictBlock env] obtain b c2 where
    f: "handleFill nc_evictBlock env q None False c1 = Ok (TempBlk, [], put_blk TempBlk b c2)" "bc_tags c2 = bc_tags c1" "bc_blkSize c2 = bc_blkSize c1"
      "bc_mostly_incl c2 = bc_mostly_incl c1" "bc_isReadOnly c2 = bc_isReadOnly c1" "bc_policy c2 = bc_policy c1"
      "isValid b" "isWritable b" "cb_data b = Some (pk_bytes q)" "cb_lockList b = []" "bc_writeBuffer c2 = []" by blast
  have bs2: "bc_blkSize c2 = 2 ^ ss" using base1 f(3) by (simp add: cache_base_def)
  have w1: "pk_cmd (w\<lparr>pk_req := pk_req q\<rparr>) = WriteReq" using assms(11) by simp
  from temp_write [OF a(9) w1 ss(1) bs2 f(7-9) whole_line_aligned(3) [OF a(4) ss(2)] f(10), of "ce_amo env"] obtain b' where
    b': "nc_satisfyRequest (ce_amo env) (w\<lparr>pk_req := pk_req q\<rparr>) (Some TempBlk) (put_blk TempBlk b c2) =
      Ok (w\<lparr>pk_req := pk_req q\<rparr>, put_blk TempBlk b' c2)" "isValid b'" "isDirty b'" by blast
  let ?c = "put_blk TempBlk b' c2"
  have mr: "makeAtomicResponse (w\<lparr>pk_req := pk_req q\<rparr>) = Ok (pkt_clear EXPRESS_SNOOP (w\<lparr>pk_req := pk_req q, pk_cmd := WriteResp\<rparr>))"
    using assms(11) by (simp add: makeAtomicResponse_def makeResponse_def cmd_defs)
  define w' where "w' = pkt_clear EXPRESS_SNOOP (w\<lparr>pk_req := pk_req q, pk_cmd := WriteResp\<rparr>)"
  have w': "pk_cmd w' = WriteResp" by (simp add: w'_def pkt_clear_def)
  have wr: "cmd_needsResponse WriteReq" "\<not> cmd_isWriteback WriteReq" "\<not> cmd_needsResponse WriteResp" by (simp_all add: cmd_defs)
  have res: "nc_recvAtomic (sm_recvAtomic amo lat) env w c am = Ok ((la + l) * ce_clockPeriod env, w', ?c, am1)"
    unfolding recv after_miss_def using f(1) b' w' mr assms(11) wr
    by (simp add: maintainClusivity_def nc_doWritebacksAtomic_def w'_def [symmetric])
  have cont: "content ss (bc_tags ?c) (sm_byte am1) x = content ss (bc_tags c) (sm_byte am) x" if "sm_inside am x" for x
    using a(3,8) that f(2) by (simp add: content_def split: option.split)
  have base2: "cache_base ss ?c" "\<not> bc_mostly_incl ?c" using base1 f(2-5,11) assms(2) a(1) by (simp_all add: cache_base_def same_config_def)
  have env2: "env_ok mx env' ?c" using assms(8) a(1) f(2) by (simp add: env_ok_def same_config_def same_shape_def)
  have miss2: "sm_inside am1 (pk_addr r)" "line_at (bc_tags ?c) (pk_addr r) = None" using assms(15,16) a(3,7) f(2) by simp_all
  from exclusive_miss [OF base2 env2 a(6) assms(14) miss2, of amo lat] obtain lb c3 l2 q2 am2 where
    e: "same_config ?c c3" "tags_ok ss (bc_tags c3)" "whole_line ss mx q2" "pk_cmd q2 = ReadResp" and
    recv2: "nc_recvAtomic (sm_recvAtomic amo lat) env' r ?c am1 = after_miss (sm_recvAtomic amo lat) env' (lb + l2) r q2 c3 am2" by blast
  have v3: "isValid (bc_tempBlock c3)" and bs3: "bc_blkSize c3 = 2 ^ ss"
    using e(1) b'(2) base2(1) temp_pointer(4) [of b' c2] by (simp_all add: same_config_def cache_base_def)
  have il2: "in_line ss mx q2" using e(3) by (simp add: whole_line_def)
  have "handleFill nc_evictBlock env' q2 None False c3 = Error AssertFail"
    using e(1,4) v3 bs3 base2(1) in_line_getters [OF il2] in_line_offset [OF il2 ss(2)] whole_line_aligned(2) [OF e(3) ss(2)]
    by (simp add: handleFill_def cmd_defs same_config_def cache_base_def)
  then have "nc_recvAtomic (sm_recvAtomic amo lat) env' r ?c am1 = Error AssertFail" unfolding recv2 after_miss_def by simp
  then show ?thesis using res w' cont by blast
qed

theorem exclusive_write_lost_witness:
  "\<exists>c l w' c' am'. nc_recvAtomic (sm_recvAtomic (\<lambda>_. id) 30) demo_env demo_write (c :: LRUReplData BaseCache) small_mem = Ok (l, w', c', am') \<and>
    pk_cmd w' = WriteResp \<and> nc_recvAtomic (sm_recvAtomic (\<lambda>_. id) 30) demo_env demo_reread c' am' = Error AssertFail"
proof -
  obtain t where t: "new_BaseSetAssoc LRURP (\<lambda>_. 0) small_tags_params = Ok t" "sa_assoc t = 2" using small_tags by blast
  let ?c = "new_BaseCache (\<lambda>_. 0) t LRURP (demo_params False) 4"
  note f = fresh_good [OF demo_fresh [OF t(1)]]
  have base: "cache_base 2 ?c" using f(1) by (simp add: cache_ok_def cache_base_def new_BaseCache_def demo_params_def)
  have none: "line_at (bc_tags ?c) x = None" for x using f(2) [of x] by (simp add: new_BaseCache_def)
  have temp: "\<not> isValid (bc_tempBlock ?c)" "cb_data (bc_tempBlock ?c) = Some (replicate 4 0)" "cb_lockList (bc_tempBlock ?c) = []"
    by (simp_all add: new_BaseCache_def new_TempCacheBlk_def CacheBlk.defs TempCacheBlk.defs new_CacheBlk_def blk_invalidate_def isValid_def
        map_replicate_const)
  have e: "env_ok 4 demo_env ?c" using demo_env_ok [OF t(2)] by blast
  have k: "\<not> bc_mostly_incl ?c" "length (replicate 4 (0 :: u8)) = 2 ^ 2" "pk_cmd demo_write = WriteReq"
    by (simp_all add: new_BaseCache_def demo_params_def demo_write_def mem_packet_simps)
  have i: "sm_inside small_mem (pk_addr demo_write)" "sm_inside small_mem (pk_addr demo_reread)" by (simp_all add: demo_requests demo_mem(2))
  from exclusive_write_lost [OF base k(1) temp(1,2) k(2) temp(3) e e demo_mem(1) demo_requests(1) k(3) i(1) none demo_requests(2) i(2) none,
      of "\<lambda>_. id" 30] show ?thesis by blast
qed

end
