(* ===== verification/Cache_Locks.thy ===== *)
theory Cache_Locks
  imports Base_Cache
begin

text \<open>
  Load-locked and store-conditional accesses that hit in a cache: what \<^verbatim>\<open>BaseCache::satisfyRequest\<close> does to the locks of the block, and
  when a store-conditional succeeds.
\<close>

section \<open>Locks and ranges\<close>

definition req_high :: "Request \<Rightarrow> Addr" where
  "req_high r = rq_paddr r + ucast (rq_size r) - 1"

definition overlaps :: "Lock \<Rightarrow> Addr \<Rightarrow> Addr \<Rightarrow> bool" where
  "overlaps l lo hi \<longleftrightarrow> lo \<le> lk_highAddr l \<and> lk_lowAddr l \<le> hi"

definition covers :: "Lock \<Rightarrow> Addr \<Rightarrow> Addr \<Rightarrow> bool" where
  "covers l lo hi \<longleftrightarrow> lk_lowAddr l \<le> lo \<and> hi \<le> lk_highAddr l"

definition locks_ok :: "Lock list \<Rightarrow> bool" where
  "locks_ok ls \<longleftrightarrow> sorted_wrt (\<lambda>a b. \<not> overlaps a (lk_lowAddr b) (lk_highAddr b)) ls"

lemma req_getters_iff:
  "req_getPaddr r = Ok a \<longleftrightarrow> req_hasPaddr r \<and> a = rq_paddr r" "req_getSize r = Ok z \<Longrightarrow> z = rq_size r"
  "req_contextId r = Ok c \<Longrightarrow> c = rq_contextId r"
  by (auto simp: req_getPaddr_def req_hasPaddr_def req_getSize_def req_contextId_def bindR_Ok_iff)

lemma lock_intersects_Ok: "lock_intersects l r = Ok i \<Longrightarrow> i = overlaps l (rq_paddr r) (req_high r)"
  by (auto simp: lock_intersects_def bindR_Ok_iff Let_def overlaps_def req_high_def req_getters_iff dest: req_getters_iff(2))

lemma lock_matches_Ok:
  "lock_matches l r = Ok i \<Longrightarrow> i = (lk_contextId l = rq_contextId r \<and> covers l (rq_paddr r) (req_high r))"
  by (auto simp: lock_matches_def bindR_Ok_iff Let_def covers_def req_high_def req_getters_iff dest: req_getters_iff(2,3))

lemma new_Lock_Ok:
  "new_Lock r = Ok l \<Longrightarrow> l = \<lparr>lk_contextId = rq_contextId r, lk_lowAddr = rq_paddr r, lk_highAddr = req_high r\<rparr>"
  by (auto simp: new_Lock_def bindR_Ok_iff req_high_def req_getters_iff dest: req_getters_iff(2,3))

lemma erase_if_Ok:
  "erase_if t ls = Ok ks \<Longrightarrow> (\<And>l b. t l = Ok b \<Longrightarrow> b = P l) \<Longrightarrow> ks = filter (\<lambda>l. \<not> P l) ls"
  by (induction ls arbitrary: ks) (force simp: bindR_Ok_iff)+

lemma clearLoadLocks_Ok:
  assumes "clearLoadLocks r b = Ok b'"
  shows "b' = b\<lparr>cb_lockList := filter (\<lambda>l. \<not> (lk_contextId l \<noteq> rq_contextId r \<and> overlaps l (rq_paddr r) (req_high r))) (cb_lockList b)\<rparr>"
proof -
  from assms obtain ls where ls: "erase_if (\<lambda>l. bindR (lock_intersects l r) (\<lambda>i.
      if i then bindR (req_contextId r) (\<lambda>c. Ok (lk_contextId l \<noteq> c)) else Ok False)) (cb_lockList b) = Ok ls"
    "b' = b\<lparr>cb_lockList := ls\<rparr>" by (auto simp: clearLoadLocks_def bindR_Ok_iff)
  have "ls = filter (\<lambda>l. \<not> (lk_contextId l \<noteq> rq_contextId r \<and> overlaps l (rq_paddr r) (req_high r))) (cb_lockList b)"
    by (rule erase_if_Ok [OF ls(1)])
      (auto simp: bindR_Ok_iff dest: lock_intersects_Ok req_getters_iff(3) split: if_splits)
  with ls(2) show ?thesis by simp
qed

text \<open>Ranges that do not overlap cannot both cover the same addresses.\<close>

lemma covers_overlap: "covers a lo hi \<Longrightarrow> covers b lo hi \<Longrightarrow> lo \<le> hi \<Longrightarrow> overlaps a (lk_lowAddr b) (lk_highAddr b)"
  unfolding covers_def overlaps_def by (meson order_trans)

lemma overlaps_sym: "overlaps a (lk_lowAddr b) (lk_highAddr b) \<longleftrightarrow> overlaps b (lk_lowAddr a) (lk_highAddr a)"
  by (auto simp: overlaps_def)

lemma take_match_Ok:
  assumes "take_match r ls = Ok (s, ks)" "locks_ok ls" "rq_paddr r \<le> req_high r"
  shows "(s \<longleftrightarrow> (\<exists>l\<in>set ls. lk_contextId l = rq_contextId r \<and> covers l (rq_paddr r) (req_high r))) \<and>
    ks = filter (\<lambda>l. \<not> (lk_contextId l = rq_contextId r \<and> covers l (rq_paddr r) (req_high r))) ls"
  using assms(1,2)
proof (induction ls arbitrary: s ks)
  case (Cons l ls)
  let ?P = "\<lambda>l. lk_contextId l = rq_contextId r \<and> covers l (rq_paddr r) (req_high r)"
  from Cons.prems(1) have m: "lock_matches l r = Ok (?P l)" by (auto simp: bindR_Ok_iff dest: lock_matches_Ok)
  show ?case
  proof (cases "?P l")
    case True
    have "\<not> ?P k" if "k \<in> set ls" for k
      using True covers_overlap [of l "rq_paddr r" "req_high r" k] assms(3) Cons.prems(2) that by (auto simp: locks_ok_def)
    then have "filter (\<lambda>l. \<not> ?P l) ls = ls" by (simp add: filter_id_conv)
    then show ?thesis using Cons.prems(1) True m by auto
  next
    case False
    with Cons.prems(1) m obtain ks' where "take_match r ls = Ok (s, ks')" "ks = l # ks'" by (auto simp: bindR_Ok_iff)
    with Cons.IH [of s ks'] Cons.prems(2) False show ?thesis by (auto simp: locks_ok_def)
  qed
qed simp

lemma locks_ok_filter: "locks_ok ls \<Longrightarrow> locks_ok (filter P ls)"
  by (simp add: locks_ok_def sorted_wrt_filter)

text \<open>The locks after each kind of access to a block.\<close>

lemma store_locks:
  assumes "checkWrite p b = Ok (r, p', b')" "\<not> cmd_isLLSC (pk_cmd p)"
  shows "cb_lockList b' = filter (\<lambda>l. \<not> (lk_contextId l \<noteq> rq_contextId (pk_req p) \<and> overlaps l (rq_paddr (pk_req p)) (req_high (pk_req p)))) (cb_lockList b)"
proof (cases "cb_lockList b = []")
  case True
  then show ?thesis using assms by (auto simp: checkWrite_def bindR_Ok_iff)
next
  case False
  then show ?thesis using assms clearLoadLocks_Ok [of "pk_req p" b b'] by (auto simp: checkWrite_def bindR_Ok_iff)
qed

lemma cond_locks:
  assumes "checkWrite p b = Ok (r, p', b')" "cmd_isLLSC (pk_cmd p)" "locks_ok (cb_lockList b)" "rq_paddr (pk_req p) \<le> req_high (pk_req p)"
  defines "c \<equiv> rq_contextId (pk_req p)" and "lo \<equiv> rq_paddr (pk_req p)" and "hi \<equiv> req_high (pk_req p)"
  shows "r = (\<exists>l\<in>set (cb_lockList b). lk_contextId l = c \<and> covers l lo hi)" "sc_performed p' = r"
    "cb_lockList b' = filter (\<lambda>l. \<not> (if lk_contextId l = c then covers l lo hi else overlaps l lo hi)) (cb_lockList b)"
proof -
  from assms(1,2) obtain ls x where
    t: "take_match (pk_req p) (cb_lockList b) = Ok (r, ls)" "x = (if r then 1 else 0)" "p' = p\<lparr>pk_req := req_setExtraData x (pk_req p)\<rparr>"
      "clearLoadLocks (req_setExtraData x (pk_req p)) (b\<lparr>cb_lockList := ls\<rparr>) = Ok b'"
    by (auto simp: checkWrite_def bindR_Ok_iff Let_def)
  show "sc_performed p' = r" using t(2,3) by (simp add: sc_performed_def req_setExtraData_def)
  have same: "rq_contextId (req_setExtraData x (pk_req p)) = c" "rq_paddr (req_setExtraData x (pk_req p)) = lo"
    "req_high (req_setExtraData x (pk_req p)) = hi" by (simp_all add: req_setExtraData_def req_high_def c_def lo_def hi_def)
  from take_match_Ok [OF t(1) assms(3,4)] have
    m: "r = (\<exists>l\<in>set (cb_lockList b). lk_contextId l = c \<and> covers l lo hi)"
      "ls = filter (\<lambda>l. \<not> (lk_contextId l = c \<and> covers l lo hi)) (cb_lockList b)" by (simp_all add: c_def lo_def hi_def)
  show "r = (\<exists>l\<in>set (cb_lockList b). lk_contextId l = c \<and> covers l lo hi)" by (rule m(1))
  have "cb_lockList b' = filter (\<lambda>l. \<not> (lk_contextId l \<noteq> c \<and> overlaps l lo hi)) ls"
    using clearLoadLocks_Ok [OF t(4)] by (simp add: same)
  also have "\<dots> = filter (\<lambda>l. \<not> (if lk_contextId l = c then covers l lo hi else overlaps l lo hi)) (cb_lockList b)"
    unfolding m(2) by (auto intro!: filter_cong)
  finally show "cb_lockList b' = filter (\<lambda>l. \<not> (if lk_contextId l = c then covers l lo hi else overlaps l lo hi)) (cb_lockList b)" .
qed

lemma checkWrite_data: "checkWrite p b = Ok (r, p', b') \<Longrightarrow> cb_data b' = cb_data b"
  by (auto simp: checkWrite_def bindR_Ok_iff Let_def dest!: clearLoadLocks_Ok split: if_splits)

lemma load_locks:
  assumes "blk_trackLoadLocked p b = Ok b'"
  shows "cb_lockList b' = \<lparr>lk_contextId = rq_contextId (pk_req p), lk_lowAddr = rq_paddr (pk_req p), lk_highAddr = req_high (pk_req p)\<rparr> #
    filter (\<lambda>l. \<not> overlaps l (rq_paddr (pk_req p)) (req_high (pk_req p))) (cb_lockList b)"
proof -
  from assms obtain ls l where t: "erase_if (\<lambda>l. lock_intersects l (pk_req p)) (cb_lockList b) = Ok ls"
    "new_Lock (pk_req p) = Ok l" "b' = b\<lparr>cb_lockList := l # ls\<rparr>" by (auto simp: blk_trackLoadLocked_def bindR_Ok_iff)
  from erase_if_Ok [OF t(1), of "\<lambda>l. overlaps l (rq_paddr (pk_req p)) (req_high (pk_req p))"]
  show ?thesis using new_Lock_Ok [OF t(2)] t(3) by (simp add: lock_intersects_Ok)
qed

section \<open>Requests that hit\<close>

text \<open>What a request that is satisfied from a block means for the locks of the block; the order of the cases is the one of
  \<^verbatim>\<open>satisfyRequest\<close>. Swaps, upgrades and cleaning leave the locks alone, an invalidation drops them all.\<close>

datatype range_op = LoadLock int Addr Addr | StoreOver int Addr Addr | StoreCondOver int Addr Addr | DropLocks | KeepLocks

definition range_op :: "Packet \<Rightarrow> range_op" where
  "range_op pkt =
     (let r = pk_req pkt; c = rq_contextId r; lo = rq_paddr r; hi = req_high r; cmd = pk_cmd pkt in
      if cmd = SwapReq then KeepLocks
      else if cmd_isWrite cmd then if cmd_isLLSC cmd then StoreCondOver c lo hi else StoreOver c lo hi
      else if cmd_isRead cmd then if cmd_isLLSC cmd then LoadLock c lo hi else KeepLocks
      else if cmd_isUpgrade cmd \<or> cmd_isClean cmd then KeepLocks else DropLocks)"

fun ends_lock :: "Lock \<Rightarrow> range_op \<Rightarrow> bool" where
  "ends_lock l (LoadLock c lo hi) = overlaps l lo hi"
| "ends_lock l (StoreOver c lo hi) = (lk_contextId l \<noteq> c \<and> overlaps l lo hi)"
| "ends_lock l (StoreCondOver c lo hi) = (if lk_contextId l = c then covers l lo hi else overlaps l lo hi)"
| "ends_lock l DropLocks = True"
| "ends_lock l KeepLocks = False"

fun new_locks :: "range_op \<Rightarrow> Lock list" where
  "new_locks (LoadLock c lo hi) = [\<lparr>lk_contextId = c, lk_lowAddr = lo, lk_highAddr = hi\<rparr>]"
| "new_locks _ = []"

definition in_order :: "Packet \<Rightarrow> bool" where
  "in_order p \<longleftrightarrow> rq_paddr (pk_req p) \<le> req_high (pk_req p)"

definition ptr_ok :: "blkptr \<Rightarrow> 'd BaseCache \<Rightarrow> bool" where
  "ptr_ok q c \<longleftrightarrow> (case q of TagBlk i \<Rightarrow> i < length (sa_blks (bc_tags c)) | TempBlk \<Rightarrow> True)"

abbreviation blk_locks :: "blkptr \<Rightarrow> 'd BaseCache \<Rightarrow> Lock list" where
  "blk_locks q c \<equiv> cb_lockList (get_blk q c)"

lemma get_put: "ptr_ok q c \<Longrightarrow> get_blk q (put_blk q b c) = b" "ptr_ok q (put_blk q b c) = ptr_ok q c"
  by (cases q; simp add: ptr_ok_def get_blk_def put_blk_def sa_blk_def set_blk_def CacheBlk.defs TempCacheBlk.defs)+

lemma status_locks [simp]: "cb_lockList (or_status s b) = cb_lockList b" "cb_lockList (clear_status s b) = cb_lockList b"
  "cb_data (or_status s b) = cb_data b"
  by (simp_all add: or_status_def clear_status_def)

lemma invalidate_locks: "invalidateBlock q c = Ok c' \<Longrightarrow> ptr_ok q c \<Longrightarrow> ptr_ok q c' \<and> blk_locks q c' = []"
  by (cases q) (auto simp: invalidateBlock_def sa_invalidate_def tags_invalidate_def ptr_ok_def get_blk_def sa_blk_def set_blk_def blk_invalidate_def
      TempCacheBlk_invalidate_def CacheBlk.defs bindR_Ok_iff Let_def)

lemma swap_locks:
  "satisfy_atomic_op amo q p c = Ok (p', c') \<Longrightarrow> ptr_ok q c \<Longrightarrow> ptr_ok q c' \<and> blk_locks q c' = blk_locks q c"
  "cache_cmpAndSwap q p c = Ok (p', c') \<Longrightarrow> ptr_ok q c \<Longrightarrow> ptr_ok q c' \<and> blk_locks q c' = blk_locks q c"
  by (auto simp: satisfy_atomic_op_def cache_cmpAndSwap_def bindR_Ok_iff Let_def get_put split: if_splits)

lemma write_hit:
  assumes "satisfy_write q p c = Ok (p', c')" "ptr_ok q c"
  shows "\<exists>r b. checkWrite p (get_blk q c) = Ok (r, p', b) \<and> ptr_ok q c' \<and> blk_locks q c' = cb_lockList b \<and>
    (\<not> r \<longrightarrow> cb_data (get_blk q c') = cb_data b)"
  using assms by (fastforce simp: satisfy_write_def bindR_Ok_iff get_put blk_data_def split: option.splits if_splits)

lemma read_hit:
  assumes "satisfy_read q p c = Ok (p', c')" "ptr_ok q c"
  shows "ptr_ok q c' \<and> (if cmd_isLLSC (pk_cmd p) then blk_trackLoadLocked p (get_blk q c) = Ok (get_blk q c') else blk_locks q c' = blk_locks q c)"
  using assms by (auto simp: satisfy_read_def bindR_Ok_iff get_put split: if_splits)

lemma satisfied_locks:
  assumes "base_satisfyRequest amo p (Some q) c = Ok (p', c')" "ptr_ok q c" "locks_ok (blk_locks q c)" "in_order p"
  shows "ptr_ok q c'" "blk_locks q c' = new_locks (range_op p) @ filter (\<lambda>l. \<not> ends_lock l (range_op p)) (blk_locks q c)"
    "range_op p = StoreCondOver k lo hi \<Longrightarrow> sc_performed p' = (\<exists>l\<in>set (blk_locks q c). lk_contextId l = k \<and> covers l lo hi) \<and>
      (\<not> sc_performed p' \<longrightarrow> cb_data (get_blk q c') = cb_data (get_blk q c))"
proof -
  let ?cmd = "pk_cmd p"
  have b: "(if ?cmd = SwapReq then if req_isAtomic (pk_req p) then satisfy_atomic_op amo q p c else cache_cmpAndSwap q p c
      else if cmd_isWrite ?cmd then satisfy_write q p c
      else if cmd_isRead ?cmd then satisfy_read q p c
      else if cmd_isUpgrade ?cmd then bindR (assertR (\<not> pkt_hasSharers p) AssertFail) (\<lambda>_.
           if isDirty (get_blk q c) then bindR (setCacheResponding p) (\<lambda>pkt. Ok (pkt, put_blk q (clear_status BlkDirty (get_blk q c)) c)) else Ok (p, c))
      else if cmd_isClean ?cmd then Ok (p, put_blk q (clear_status BlkDirty (get_blk q c)) c)
      else bindR (assertR (cmd_isInvalidate ?cmd) AssertFail) (\<lambda>_. bindR (invalidateBlock q c) (\<lambda>c. Ok (p, c)))) = Ok (p', c')"
    using assms(1) unfolding base_satisfyRequest_def by (auto simp only: bindR_Ok_iff option.case)
  have r: "ptr_ok q c' \<and> blk_locks q c' = new_locks (range_op p) @ filter (\<lambda>l. \<not> ends_lock l (range_op p)) (blk_locks q c)"
  proof (cases "?cmd = SwapReq")
    case True
    then show ?thesis using b swap_locks [OF _ assms(2)] by (auto simp: range_op_def Let_def split: if_splits)
  next
    case swap: False
    show ?thesis
    proof (cases "cmd_isWrite ?cmd")
      case True
      then have "satisfy_write q p c = Ok (p', c')" using b swap by simp
      from write_hit [OF this assms(2)] obtain r d where
        w: "checkWrite p (get_blk q c) = Ok (r, p', d)" "ptr_ok q c'" "blk_locks q c' = cb_lockList d" by blast
      show ?thesis using store_locks [OF w(1)] cond_locks(3) [OF w(1) _ assms(3)] assms(4) w(2,3) True swap
        by (cases "cmd_isLLSC ?cmd") (auto simp: range_op_def in_order_def Let_def)
    next
      case nw: False
      show ?thesis
      proof (cases "cmd_isRead ?cmd")
        case True
        then have "satisfy_read q p c = Ok (p', c')" using b swap nw by simp
        from read_hit [OF this assms(2)] show ?thesis using load_locks [of p "get_blk q c" "get_blk q c'"] True swap nw
          by (cases "cmd_isLLSC ?cmd") (auto simp: range_op_def Let_def)
      next
        case False
        then show ?thesis using b swap nw assms(2) invalidate_locks [of q c]
          by (auto simp: range_op_def Let_def get_put bindR_Ok_iff split: if_splits)
      qed
    qed
  qed
  then show "ptr_ok q c'" "blk_locks q c' = new_locks (range_op p) @ filter (\<lambda>l. \<not> ends_lock l (range_op p)) (blk_locks q c)" by blast+
  assume "range_op p = StoreCondOver k lo hi"
  then have k: "?cmd \<noteq> SwapReq" "cmd_isWrite ?cmd" "cmd_isLLSC ?cmd" "k = rq_contextId (pk_req p)" "lo = rq_paddr (pk_req p)" "hi = req_high (pk_req p)"
    by (auto simp: range_op_def Let_def split: if_splits)
  then have "satisfy_write q p c = Ok (p', c')" using b by simp
  from write_hit [OF this assms(2)] obtain r d where
    w: "checkWrite p (get_blk q c) = Ok (r, p', d)" "\<not> r \<longrightarrow> cb_data (get_blk q c') = cb_data d" by blast
  show "sc_performed p' = (\<exists>l\<in>set (blk_locks q c). lk_contextId l = k \<and> covers l lo hi) \<and>
      (\<not> sc_performed p' \<longrightarrow> cb_data (get_blk q c') = cb_data (get_blk q c))"
    using cond_locks(1,2) [OF w(1) k(3) assms(3)] checkWrite_data [OF w(1)] w(2) assms(4) k(4-6) by (auto simp: in_order_def)
qed

text \<open>A lock of a context lasts until an access ends it.\<close>

lemma satisfied_lock:
  assumes "base_satisfyRequest amo p (Some q) c = Ok (p', c')" "ptr_ok q c" "locks_ok (blk_locks q c)" "in_order p"
  shows "locks_ok (blk_locks q c')"
    "(\<forall>lo hi. range_op p \<noteq> LoadLock (lk_contextId k) lo hi) \<Longrightarrow>
      k \<in> set (blk_locks q c') \<longleftrightarrow> k \<in> set (blk_locks q c) \<and> \<not> ends_lock k (range_op p)"
proof -
  note e = satisfied_locks(2) [OF assms]
  show "locks_ok (blk_locks q c')"
    using locks_ok_filter [OF assms(3)] assms(3) unfolding e by (cases "range_op p") (auto simp: locks_ok_def overlaps_def)
  show "k \<in> set (blk_locks q c') \<longleftrightarrow> k \<in> set (blk_locks q c) \<and> \<not> ends_lock k (range_op p)"
    if "\<forall>lo hi. range_op p \<noteq> LoadLock (lk_contextId k) lo hi" using that unfolding e by (cases "range_op p") auto
qed

lemma satisfied_run:
  assumes "run_accesses (\<lambda>p. base_satisfyRequest amo p (Some q)) ps c = Ok (log, c')" "ptr_ok q c" "locks_ok (blk_locks q c)" "\<forall>p\<in>set ps. in_order p"
    "\<forall>p\<in>set ps. \<forall>lo hi. range_op p \<noteq> LoadLock (lk_contextId k) lo hi"
  shows "ptr_ok q c' \<and> locks_ok (blk_locks q c') \<and>
    (k \<in> set (blk_locks q c') \<longleftrightarrow> k \<in> set (blk_locks q c) \<and> (\<forall>p\<in>set ps. \<not> ends_lock k (range_op p)))"
  using assms
proof (induction ps arbitrary: c log)
  case (Cons p ps)
  from Cons.prems(1) obtain p' c1 log1 where a: "base_satisfyRequest amo p (Some q) c = Ok (p', c1)"
      "run_accesses (\<lambda>p. base_satisfyRequest amo p (Some q)) ps c1 = Ok (log1, c')" by (auto simp: bindR_Ok_iff)
  have o: "in_order p" "\<forall>lo hi. range_op p \<noteq> LoadLock (lk_contextId k) lo hi" using Cons.prems(4,5) by auto
  note l = satisfied_lock [OF a(1) Cons.prems(2,3) o(1)]
  from Cons.IH [OF a(2) satisfied_locks(1) [OF a(1) Cons.prems(2,3) o(1)] l(1)] Cons.prems(4,5) l(2) [OF o(2)] show ?case by auto
qed simp

section \<open>Properties\<close>

text \<open>C24: a store-conditional that hits in a cache succeeds exactly when the lock of its context is intact: after a load-locked of a range of
  the block, and whatever requests the cache then satisfies from the block as long as the context does not load-lock again, a store-conditional inside
  the range is performed if and only if none of them ended the lock: a load-locked that overlaps it, a store or a
  store-conditional (also one that fails) of another context that overlaps it, a store-conditional of the context inside it, or an invalidation of
  the block; stores of the context itself and swaps of any context do not end it. A store-conditional that fails leaves the data of the block alone.\<close>

theorem block_store_conditional:
  assumes "ptr_ok q c0" "locks_ok (blk_locks q c0)" "base_satisfyRequest amo ll (Some q) c0 = Ok (ll', c1)" "range_op ll = LoadLock k lo hi" "in_order ll"
    "run_accesses (\<lambda>p. base_satisfyRequest amo p (Some q)) ps c1 = Ok (log, c2)" "\<forall>p\<in>set ps. in_order p \<and> (\<forall>lo hi. range_op p \<noteq> LoadLock k lo hi)"
    "base_satisfyRequest amo sc (Some q) c2 = Ok (sc', c3)" "range_op sc = StoreCondOver k lo' hi'" "lo \<le> lo'" "lo' \<le> hi'" "hi' \<le> hi"
  shows "(sc_performed sc' \<longleftrightarrow> (\<forall>p\<in>set ps. \<not> ends_lock \<lparr>lk_contextId = k, lk_lowAddr = lo, lk_highAddr = hi\<rparr> (range_op p))) \<and>
    (\<not> sc_performed sc' \<longrightarrow> cb_data (get_blk q c3) = cb_data (get_blk q c2))"
proof -
  define m where "m = \<lparr>lk_contextId = k, lk_lowAddr = lo, lk_highAddr = hi\<rparr>"
  note p1 = satisfied_locks(1) [OF assms(3,1,2,5)] and ok1 = satisfied_lock(1) [OF assms(3,1,2,5)]
  have ll: "blk_locks q c1 = m # filter (\<lambda>l. \<not> ends_lock l (range_op ll)) (blk_locks q c0)"
    using satisfied_locks(2) [OF assms(3,1,2,5)] assms(4) by (simp add: m_def)
  have run: "ptr_ok q c2" "locks_ok (blk_locks q c2)"
    "l \<in> set (blk_locks q c2) \<longleftrightarrow> l \<in> set (blk_locks q c1) \<and> (\<forall>p\<in>set ps. \<not> ends_lock l (range_op p))"
    if "lk_contextId l = k" for l using satisfied_run [OF assms(6) p1 ok1, of l] assms(7) that by auto
  have m: "lk_contextId m = k" "m \<in> set (blk_locks q c1)" "covers m lo' hi'" using assms(10,12) ll by (simp_all add: m_def covers_def)
  have only: "l = m" if "l \<in> set (blk_locks q c1)" "covers l lo' hi'" for l
    using that(1) covers_overlap [OF m(3) that(2) assms(11)] ok1 unfolding ll by (auto simp: locks_ok_def)
  have o: "in_order sc" using assms(9,11) by (auto simp: in_order_def range_op_def Let_def split: if_splits)
  note sc = satisfied_locks(3) [OF assms(8) run(1,2) [OF m(1)] o assms(9)]
  have "sc_performed sc' \<longleftrightarrow> (\<exists>l\<in>set (blk_locks q c2). lk_contextId l = k \<and> covers l lo' hi')" using sc by blast
  also have "\<dots> \<longleftrightarrow> m \<in> set (blk_locks q c2)" using run(3) only m by blast
  also have "\<dots> \<longleftrightarrow> (\<forall>p\<in>set ps. \<not> ends_lock m (range_op p))" using run(3) [OF m(1)] m(2) by blast
  finally show ?thesis using sc by (simp add: m_def)
qed

text \<open>A cache whose temporary block holds the first line of the memory.\<close>

definition lock_cache :: "'d BaseSetAssoc \<Rightarrow> 'd BaseReplacementPolicy \<Rightarrow> Lock list \<Rightarrow> u32 \<Rightarrow> u8 list \<Rightarrow> 'd BaseCache" where
  "lock_cache t rp ls st d = put_blk TempBlk ((new_CacheBlk 0 0)\<lparr>cb_status := st, cb_data := Some d, cb_lockList := ls\<rparr>)
     (new_BaseCache (\<lambda>_. 0) t rp \<lparr>cp_writeback_clean = False, cp_tag_latency = 1, cp_data_latency = 1, cp_mostly_incl = True, cp_is_read_only = False,
        cp_write_buffers = 8, cp_max_miss_count = 0\<rparr> 16)"

lemma lock_cache_simps:
  "get_blk TempBlk (lock_cache t rp ls st d) = (new_CacheBlk 0 0)\<lparr>cb_status := st, cb_data := Some d, cb_lockList := ls\<rparr>" "bc_blkSize (lock_cache t rp ls st d) = 16"
  "put_blk TempBlk ((new_CacheBlk 0 0)\<lparr>cb_status := st', cb_data := Some d', cb_lockList := ls'\<rparr>) (lock_cache t rp ls st d) = lock_cache t rp ls' st' d'"
  "put_blk TempBlk ((new_CacheBlk 0 0)\<lparr>cb_lockList := ls', cb_data := Some d', cb_status := st'\<rparr>) (lock_cache t rp ls st d) = lock_cache t rp ls' st' d'"
  by (simp_all add: lock_cache_def get_put ptr_ok_def) (simp_all add: put_blk_def new_BaseCache_def CacheBlk.defs TempCacheBlk.defs)

definition a_lock :: Lock where "a_lock = \<lparr>lk_contextId = 1, lk_lowAddr = 0, lk_highAddr = 7\<rparr>"

lemma lock_request:
  "req_getPaddr (pk_req (mem_packet c cid a d)) = Ok a" "req_contextId (pk_req (mem_packet c cid a d)) = Ok cid"
  "rq_size (pk_req (mem_packet c cid a d)) = of_nat (length d)" "req_getSize (pk_req (mem_packet c cid a d)) = Ok (of_nat (length d))"
  by (simp_all add: mem_packet_def blank_Packet_def setContext_def Request_phys_def setPhys_def empty_Request_def req_getPaddr_def
      req_getSize_def req_contextId_def req_private_def flags_isSet_def flags_set_def flags_clear_def req_private_defs
      STICKY_FLAGS_def INST_FETCH_def STICKY_PRIVATE_FLAGS_def)

lemmas lock_eval = base_satisfyRequest_def satisfy_read_def satisfy_write_def blk_trackLoadLocked_def checkWrite_def clearLoadLocks_def new_Lock_def
  lock_intersects_def lock_matches_def lock_request mem_packet_simps cmd_defs lock_cache_simps blk_data_def pkt_getOffset_def pkt_getSize_def pkt_getAddr_def
  status_bits pkt_hasRespData_def setDataFromBlock_def pkt_setData_def writeDataToBlock_def pkt_writeData_def pkt_getPtr_def memcpy_def overwrite_def or_status_def a_lock_def blk_bit_defs

lemma pkt_isSet_req: "pkt_isSet (p\<lparr>pk_req := r\<rparr>) fl = pkt_isSet p fl"
  by (simp add: pkt_isSet_def)

lemma demo_load_locked:
  "\<exists>p'. base_satisfyRequest amo (mem_packet LoadLockedReq 1 0 (replicate 8 0)) (Some TempBlk) (lock_cache t rp [] 7 (replicate 16 0)) =
     Ok (p', lock_cache t rp [a_lock] 7 (replicate 16 0))"
  by (simp add: lock_eval)

lemma demo_other_store:
  "\<exists>p'. base_satisfyRequest amo (mem_packet WriteReq 0 8 [1, 2]) (Some TempBlk) (lock_cache t rp [a_lock] 7 (replicate 16 0)) =
     Ok (p', lock_cache t rp [a_lock] 15 (replicate 8 0 @ [1, 2] @ replicate 6 0))"
  by (simp add: lock_eval)

lemma demo_cond:
  "\<exists>p' c. base_satisfyRequest amo (mem_packet StoreCondReq 1 4 [9]) (Some TempBlk) (lock_cache t rp [a_lock] 15 (replicate 8 0 @ [1, 2] @ replicate 6 0)) =
     Ok (p', c)"
  by (simp add: lock_eval req_setExtraData_def pkt_isSet_req)

theorem block_store_conditional_witness:
  "\<exists>(t :: LRUReplData BaseSetAssoc) c1 c2 c3 ll' log sc'. new_BaseSetAssoc LRURP (\<lambda>_. 0) small_tags_params = Ok t \<and>
     base_satisfyRequest (\<lambda>_. id) (mem_packet LoadLockedReq 1 0 (replicate 8 0)) (Some TempBlk) (lock_cache t LRURP [] 7 (replicate 16 0)) = Ok (ll', c1) \<and>
     run_accesses (\<lambda>p. base_satisfyRequest (\<lambda>_. id) p (Some TempBlk)) [mem_packet WriteReq 0 8 [1, 2]] c1 = Ok (log, c2) \<and>
     base_satisfyRequest (\<lambda>_. id) (mem_packet StoreCondReq 1 4 [9]) (Some TempBlk) c2 = Ok (sc', c3) \<and> sc_performed sc'"
proof -
  let ?ll = "mem_packet LoadLockedReq 1 0 (replicate 8 0)" and ?w = "mem_packet WriteReq 0 8 [1, 2]" and ?sc = "mem_packet StoreCondReq 1 4 [9]"
  obtain t where t: "new_BaseSetAssoc LRURP (\<lambda>_. 0) small_tags_params = Ok (t :: LRUReplData BaseSetAssoc)" using small_tags by blast
  let ?c = "lock_cache t LRURP" and ?d = "replicate 8 0 @ [1, 2] @ replicate 6 0"
  obtain ll' where ll: "base_satisfyRequest (\<lambda>_. id) ?ll (Some TempBlk) (?c [] 7 (replicate 16 0)) = Ok (ll', ?c [a_lock] 7 (replicate 16 0))"
    using demo_load_locked by blast
  obtain w' where w: "base_satisfyRequest (\<lambda>_. id) ?w (Some TempBlk) (?c [a_lock] 7 (replicate 16 0)) = Ok (w', ?c [a_lock] 15 ?d)"
    using demo_other_store by blast
  have run: "run_accesses (\<lambda>p. base_satisfyRequest (\<lambda>_. id) p (Some TempBlk)) [?w] (?c [a_lock] 7 (replicate 16 0)) = Ok ([(?w, w')], ?c [a_lock] 15 ?d)"
    using w by simp
  obtain sc' c3 where sc: "base_satisfyRequest (\<lambda>_. id) ?sc (Some TempBlk) (?c [a_lock] 15 ?d) = Ok (sc', c3)" using demo_cond by blast
  have ops: "range_op ?ll = LoadLock 1 0 7" "range_op ?w = StoreOver 0 8 9" "range_op ?sc = StoreCondOver 1 4 4" "in_order ?ll" "in_order ?w"
    by (simp_all add: range_op_def in_order_def req_high_def lock_request mem_packet_simps cmd_defs)
  have ok: "ptr_ok TempBlk (?c [] 7 (replicate 16 0))" "locks_ok (blk_locks TempBlk (?c [] 7 (replicate 16 0)))"
    by (simp_all add: ptr_ok_def locks_ok_def lock_cache_simps)
  from block_store_conditional [OF ok ll ops(1,4) run _ sc ops(3)] ops(2,5) have "sc_performed sc'" by (simp add: overlaps_def)
  then show ?thesis using t ll run sc by blast
qed

end
