(* ===== verification/Branch_Dir.thy ===== *)
theory Branch_Dir
  imports Int_Math
begin

text \<open>
  The direction predictors of \<^verbatim>\<open>cpu/pred\<close>: saturating counters (\<^verbatim>\<open>sat_counter.hh\<close>), the local predictor (\<^verbatim>\<open>2bit_local.cc\<close>), the
  bi-mode predictor (\<^verbatim>\<open>bi_mode.cc\<close>) and the tournament predictor (\<^verbatim>\<open>tournament.cc\<close>). Each is a state with the operations that
  \<^verbatim>\<open>BPredUnit\<close> calls through virtual methods, collected in the record \<open>BPredOps\<close>. The history object that a lookup allocates is a value,
  \<open>None\<close> for the null pointer. Their common contract is the locale \<open>direction_predictor\<close>: what is speculative can be undone.
\<close>

section \<open>Saturating counters\<close>

type_synonym ThreadID = int

record SatCounter =
  sc_initialVal :: u8
  sc_maxVal :: u8
  sc_counter :: u8

text \<open>The default constructor leaves the maximum undefined, which is the argument.\<close>

definition new_SatCounter :: "u8 \<Rightarrow> SatCounter" where
  "new_SatCounter junk = \<lparr>sc_initialVal = 0, sc_maxVal = junk, sc_counter = 0\<rparr>"

text \<open>\<^verbatim>\<open>(1 << bits) - 1\<close> in \<^verbatim>\<open>int\<close>, stored in a \<^verbatim>\<open>uint8_t\<close>.\<close>

definition sc_max_of :: "u32 \<Rightarrow> u8 result" where
  "sc_max_of nbits = (if nbits < 31 then Ok (ucast (push_bit (unat nbits) (1 :: u32) - 1)) else Error IntOverflow)"

definition SatCounter_bits :: "u32 \<Rightarrow> SatCounter result" where
  "SatCounter_bits nbits = bindR (sc_max_of nbits) (\<lambda>m. Ok \<lparr>sc_initialVal = 0, sc_maxVal = m, sc_counter = 0\<rparr>)"

definition SatCounter_initial :: "u32 \<Rightarrow> u8 \<Rightarrow> SatCounter result" where
  "SatCounter_initial nbits initial_val =
     bindR (sc_max_of nbits) (\<lambda>m.
       if initial_val > m then Error Fatal else Ok \<lparr>sc_initialVal = initial_val, sc_maxVal = m, sc_counter = initial_val\<rparr>)"

definition setBits :: "u32 \<Rightarrow> SatCounter \<Rightarrow> SatCounter result" where
  "setBits nbits c = bindR (sc_max_of nbits) (\<lambda>m. Ok (c\<lparr>sc_maxVal := m\<rparr>))"

definition sc_reset :: "SatCounter \<Rightarrow> SatCounter" where
  "sc_reset c = c\<lparr>sc_counter := sc_initialVal c\<rparr>"

definition increment :: "SatCounter \<Rightarrow> SatCounter" where
  "increment c = (if sc_counter c < sc_maxVal c then c\<lparr>sc_counter := sc_counter c + 1\<rparr> else c)"

definition decrement :: "SatCounter \<Rightarrow> SatCounter" where
  "decrement c = (if sc_counter c > 0 then c\<lparr>sc_counter := sc_counter c - 1\<rparr> else c)"

definition sc_read :: "SatCounter \<Rightarrow> u8" where
  "sc_read c = sc_counter c"

text \<open>A counter of a table counts towards the outcome.\<close>

definition sc_train :: "bool \<Rightarrow> SatCounter \<Rightarrow> SatCounter" where
  "sc_train taken c = (if taken then increment c else decrement c)"

definition train_at :: "u32 \<Rightarrow> bool \<Rightarrow> SatCounter list \<Rightarrow> SatCounter list result" where
  "train_at i taken cs = bindR (arr_get cs (uint i)) (\<lambda>c. arr_set cs (uint i) (sc_train taken c))"

definition counter_table :: "u8 \<Rightarrow> u32 \<Rightarrow> u32 \<Rightarrow> SatCounter list result" where
  "counter_table junk n nbits =
     foldM (\<lambda>i cs. bindR (setBits nbits (cs ! i)) (\<lambda>c. Ok (cs[i := c]))) [0..<unat n] (replicate (unat n) (new_SatCounter junk))"

text \<open>\<^verbatim>\<open>(ULL(1) << (nbits - 1)) - 1\<close>, stored in an \<^verbatim>\<open>unsigned\<close>.\<close>

definition threshold :: "u32 \<Rightarrow> u32 result" where
  "threshold nbits = bindR (shl_one (unat (nbits - 1))) (\<lambda>x. Ok (ucast (x - 1)))"

section \<open>Operations of a direction predictor\<close>

record ('s, 'h) BPredOps =
  dp_lookup :: "ThreadID \<Rightarrow> Addr \<Rightarrow> 's \<Rightarrow> (bool \<times> 'h option \<times> 's) result"
  dp_uncondBranch :: "ThreadID \<Rightarrow> Addr \<Rightarrow> 's \<Rightarrow> ('h option \<times> 's) result"
  dp_btbUpdate :: "ThreadID \<Rightarrow> Addr \<Rightarrow> 'h option \<Rightarrow> 's \<Rightarrow> 's result"
  dp_update :: "ThreadID \<Rightarrow> Addr \<Rightarrow> bool \<Rightarrow> 'h option \<Rightarrow> bool \<Rightarrow> 's \<Rightarrow> 's result"
  dp_squash :: "ThreadID \<Rightarrow> 'h option \<Rightarrow> 's \<Rightarrow> 's result"
  dp_getGHR :: "ThreadID \<Rightarrow> 'h option \<Rightarrow> u32 result"

section \<open>The local predictor\<close>

record LocalBP =
  lb_localCtrs :: "SatCounter list"
  lb_localPredictorSize :: u32
  lb_localPredictorSets :: u32
  lb_localCtrBits :: u32
  lb_indexMask :: u32
  lb_instShiftAmt :: u32

definition new_LocalBP :: "u8 \<Rightarrow> u32 \<Rightarrow> u32 \<Rightarrow> u32 \<Rightarrow> LocalBP result" where
  "new_LocalBP junk localPredictorSize localCtrBits instShiftAmt =
     (if \<not> isPowerOf2 (ucast localPredictorSize) then Error Fatal
      else if localCtrBits = 0 then Error DivByZero
      else let sets = localPredictorSize div localCtrBits in
        if \<not> isPowerOf2 (ucast sets) then Error Fatal
        else bindR (counter_table junk sets localCtrBits) (\<lambda>ctrs.
          Ok \<lparr>lb_localCtrs = ctrs, lb_localPredictorSize = localPredictorSize, lb_localPredictorSets = sets,
              lb_localCtrBits = localCtrBits, lb_indexMask = sets - 1, lb_instShiftAmt = instShiftAmt\<rparr>))"

definition LocalBP_reset :: "LocalBP \<Rightarrow> LocalBP" where
  "LocalBP_reset p = p\<lparr>lb_localCtrs := map sc_reset (lb_localCtrs p)\<rparr>"

definition getPrediction :: "u8 \<Rightarrow> LocalBP \<Rightarrow> bool" where
  "getPrediction count p \<longleftrightarrow> drop_bit (unat (lb_localCtrBits p - 1)) count \<noteq> 0"

definition getLocalIndex :: "Addr \<Rightarrow> LocalBP \<Rightarrow> u32" where
  "getLocalIndex branch_addr p = ucast (drop_bit (unat (lb_instShiftAmt p)) branch_addr AND ucast (lb_indexMask p))"

definition LocalBP_lookup :: "ThreadID \<Rightarrow> Addr \<Rightarrow> LocalBP \<Rightarrow> (bool \<times> unit option \<times> LocalBP) result" where
  "LocalBP_lookup tid branch_addr p =
     bindR (arr_get (lb_localCtrs p) (uint (getLocalIndex branch_addr p))) (\<lambda>c. Ok (getPrediction (sc_read c) p, None, p))"

definition LocalBP_uncondBranch :: "ThreadID \<Rightarrow> Addr \<Rightarrow> LocalBP \<Rightarrow> (unit option \<times> LocalBP) result" where
  "LocalBP_uncondBranch tid pc p = Ok (None, p)"

definition LocalBP_btbUpdate :: "ThreadID \<Rightarrow> Addr \<Rightarrow> unit option \<Rightarrow> LocalBP \<Rightarrow> LocalBP result" where
  "LocalBP_btbUpdate tid branch_addr h p = Ok p"

definition LocalBP_update :: "ThreadID \<Rightarrow> Addr \<Rightarrow> bool \<Rightarrow> unit option \<Rightarrow> bool \<Rightarrow> LocalBP \<Rightarrow> LocalBP result" where
  "LocalBP_update tid branch_addr taken h squashed p =
     bindR (assertR (h = None) AssertFail) (\<lambda>_.
       if squashed then Ok p
       else bindR (train_at (getLocalIndex branch_addr p) taken (lb_localCtrs p)) (\<lambda>cs. Ok (p\<lparr>lb_localCtrs := cs\<rparr>)))"

definition LocalBP_squash :: "ThreadID \<Rightarrow> unit option \<Rightarrow> LocalBP \<Rightarrow> LocalBP result" where
  "LocalBP_squash tid h p = bindR (assertR (h = None) AssertFail) (\<lambda>_. Ok p)"

text \<open>\<^verbatim>\<open>getGHR\<close> is not overridden.\<close>

definition LocalBP_ops :: "(LocalBP, unit) BPredOps" where
  "LocalBP_ops = \<lparr>dp_lookup = LocalBP_lookup, dp_uncondBranch = LocalBP_uncondBranch, dp_btbUpdate = LocalBP_btbUpdate,
     dp_update = LocalBP_update, dp_squash = LocalBP_squash, dp_getGHR = (\<lambda>_ _. Ok 0)\<rparr>"

section \<open>The bi-mode predictor\<close>

record BiModeHistory =
  bh_globalHistoryReg :: u32
  bh_takenUsed :: bool
  bh_takenPred :: bool
  bh_notTakenPred :: bool
  bh_finalPred :: bool

record BiModeBP =
  bm_choiceCounters :: "SatCounter list"
  bm_takenCounters :: "SatCounter list"
  bm_notTakenCounters :: "SatCounter list"
  bm_globalHistoryReg :: "u32 list"
  bm_globalHistoryBits :: u32
  bm_historyRegisterMask :: u32
  bm_choicePredictorSize :: u32
  bm_choiceCtrBits :: u32
  bm_choiceHistoryMask :: u32
  bm_globalPredictorSize :: u32
  bm_globalCtrBits :: u32
  bm_globalHistoryMask :: u32
  bm_choiceThreshold :: u32
  bm_takenThreshold :: u32
  bm_notTakenThreshold :: u32
  bm_instShiftAmt :: u32

definition new_BiModeBP :: "u8 \<Rightarrow> u32 \<Rightarrow> u32 \<Rightarrow> u32 \<Rightarrow> u32 \<Rightarrow> u32 \<Rightarrow> u32 \<Rightarrow> BiModeBP result" where
  "new_BiModeBP junk numThreads choicePredictorSize choiceCtrBits globalPredictorSize globalCtrBits instShiftAmt =
     bindR (ceilLog2 (ucast globalPredictorSize)) (\<lambda>nbits.
     if \<not> isPowerOf2 (ucast choicePredictorSize) then Error Fatal
     else if \<not> isPowerOf2 (ucast globalPredictorSize) then Error Fatal
     else
       bindR (counter_table junk choicePredictorSize choiceCtrBits) (\<lambda>choice.
       bindR (counter_table junk globalPredictorSize globalCtrBits) (\<lambda>taken.
       bindR (counter_table junk globalPredictorSize globalCtrBits) (\<lambda>notTaken.
       bindR (threshold choiceCtrBits) (\<lambda>choiceThreshold.
       bindR (threshold globalCtrBits) (\<lambda>globalThreshold.
         Ok \<lparr>bm_choiceCounters = choice, bm_takenCounters = taken, bm_notTakenCounters = notTaken,
             bm_globalHistoryReg = replicate (unat numThreads) 0, bm_globalHistoryBits = of_nat nbits,
             bm_historyRegisterMask = ucast (mask_bits (int nbits)), bm_choicePredictorSize = choicePredictorSize,
             bm_choiceCtrBits = choiceCtrBits, bm_choiceHistoryMask = choicePredictorSize - 1,
             bm_globalPredictorSize = globalPredictorSize, bm_globalCtrBits = globalCtrBits,
             bm_globalHistoryMask = globalPredictorSize - 1, bm_choiceThreshold = choiceThreshold,
             bm_takenThreshold = globalThreshold, bm_notTakenThreshold = globalThreshold, bm_instShiftAmt = instShiftAmt\<rparr>))))))"

definition bm_updateGlobalHistReg :: "ThreadID \<Rightarrow> bool \<Rightarrow> BiModeBP \<Rightarrow> BiModeBP result" where
  "bm_updateGlobalHistReg tid taken p =
     bindR (arr_get (bm_globalHistoryReg p) tid) (\<lambda>g.
       let g' = (if taken then push_bit 1 g OR 1 else push_bit 1 g) AND bm_historyRegisterMask p in
       bindR (arr_set (bm_globalHistoryReg p) tid g') (\<lambda>r. Ok (p\<lparr>bm_globalHistoryReg := r\<rparr>)))"

definition BiModeBP_uncondBranch :: "ThreadID \<Rightarrow> Addr \<Rightarrow> BiModeBP \<Rightarrow> (BiModeHistory option \<times> BiModeBP) result" where
  "BiModeBP_uncondBranch tid pc p =
     bindR (arr_get (bm_globalHistoryReg p) tid) (\<lambda>g.
     bindR (bm_updateGlobalHistReg tid True p) (\<lambda>p.
       Ok (Some \<lparr>bh_globalHistoryReg = g, bh_takenUsed = True, bh_takenPred = True, bh_notTakenPred = True, bh_finalPred = True\<rparr>, p)))"

definition BiModeBP_squash :: "ThreadID \<Rightarrow> BiModeHistory option \<Rightarrow> BiModeBP \<Rightarrow> BiModeBP result" where
  "BiModeBP_squash tid h p =
     (case h of None \<Rightarrow> Error NullDeref
      | Some h \<Rightarrow> bindR (arr_set (bm_globalHistoryReg p) tid (bh_globalHistoryReg h)) (\<lambda>r. Ok (p\<lparr>bm_globalHistoryReg := r\<rparr>)))"

definition bm_choiceIdx :: "Addr \<Rightarrow> BiModeBP \<Rightarrow> u32" where
  "bm_choiceIdx branchAddr p = ucast (drop_bit (unat (bm_instShiftAmt p)) branchAddr AND ucast (bm_choiceHistoryMask p))"

definition bm_globalIdx :: "Addr \<Rightarrow> u32 \<Rightarrow> BiModeBP \<Rightarrow> u32" where
  "bm_globalIdx branchAddr g p =
     ucast ((drop_bit (unat (bm_instShiftAmt p)) branchAddr XOR ucast g) AND ucast (bm_globalHistoryMask p))"

definition BiModeBP_lookup :: "ThreadID \<Rightarrow> Addr \<Rightarrow> BiModeBP \<Rightarrow> (bool \<times> BiModeHistory option \<times> BiModeBP) result" where
  "BiModeBP_lookup tid branchAddr p =
     bindR (arr_get (bm_globalHistoryReg p) tid) (\<lambda>g.
       let choiceIdx = bm_choiceIdx branchAddr p; globalIdx = bm_globalIdx branchAddr g p in
       bindR (assertR (choiceIdx < bm_choicePredictorSize p) AssertFail) (\<lambda>_.
       bindR (assertR (globalIdx < bm_globalPredictorSize p) AssertFail) (\<lambda>_.
       bindR (arr_get (bm_choiceCounters p) (uint choiceIdx)) (\<lambda>c.
       bindR (arr_get (bm_takenCounters p) (uint globalIdx)) (\<lambda>t.
       bindR (arr_get (bm_notTakenCounters p) (uint globalIdx)) (\<lambda>n.
         let choicePrediction = (ucast (sc_read c) > bm_choiceThreshold p);
             takenPrediction = (ucast (sc_read t) > bm_takenThreshold p);
             notTakenPrediction = (ucast (sc_read n) > bm_notTakenThreshold p);
             finalPrediction = (if choicePrediction then takenPrediction else notTakenPrediction)
         in bindR (bm_updateGlobalHistReg tid finalPrediction p) (\<lambda>p.
              Ok (finalPrediction, Some \<lparr>bh_globalHistoryReg = g, bh_takenUsed = choicePrediction, bh_takenPred = takenPrediction,
                   bh_notTakenPred = notTakenPrediction, bh_finalPred = finalPrediction\<rparr>, p))))))))"

definition BiModeBP_btbUpdate :: "ThreadID \<Rightarrow> Addr \<Rightarrow> BiModeHistory option \<Rightarrow> BiModeBP \<Rightarrow> BiModeBP result" where
  "BiModeBP_btbUpdate tid branchAddr h p =
     bindR (arr_get (bm_globalHistoryReg p) tid) (\<lambda>g.
     bindR (arr_set (bm_globalHistoryReg p) tid (g AND (bm_historyRegisterMask p AND NOT 1))) (\<lambda>r.
       Ok (p\<lparr>bm_globalHistoryReg := r\<rparr>)))"

definition BiModeBP_update ::
  "ThreadID \<Rightarrow> Addr \<Rightarrow> bool \<Rightarrow> BiModeHistory option \<Rightarrow> bool \<Rightarrow> BiModeBP \<Rightarrow> BiModeBP result" where
  "BiModeBP_update tid branchAddr taken h squashed p =
     (case h of None \<Rightarrow> Error AssertFail
      | Some h \<Rightarrow>
          if squashed
          then bindR (arr_set (bm_globalHistoryReg p) tid (push_bit 1 (bh_globalHistoryReg h) OR of_bool taken)) (\<lambda>r.
                 Ok (p\<lparr>bm_globalHistoryReg := r\<rparr>))
          else
            let choiceIdx = bm_choiceIdx branchAddr p; globalIdx = bm_globalIdx branchAddr (bh_globalHistoryReg h) p in
            bindR (assertR (choiceIdx < bm_choicePredictorSize p) AssertFail) (\<lambda>_.
            bindR (assertR (globalIdx < bm_globalPredictorSize p) AssertFail) (\<lambda>_.
            bindR (if bh_takenUsed h
                   then bindR (train_at globalIdx taken (bm_takenCounters p)) (\<lambda>cs. Ok (p\<lparr>bm_takenCounters := cs\<rparr>))
                   else bindR (train_at globalIdx taken (bm_notTakenCounters p)) (\<lambda>cs. Ok (p\<lparr>bm_notTakenCounters := cs\<rparr>))) (\<lambda>p.
              if bh_finalPred h = taken \<and> bh_finalPred h \<noteq> bh_takenUsed h then Ok p
              else bindR (train_at choiceIdx taken (bm_choiceCounters p)) (\<lambda>cs. Ok (p\<lparr>bm_choiceCounters := cs\<rparr>))))))"

definition BiModeBP_getGHR :: "ThreadID \<Rightarrow> BiModeHistory option \<Rightarrow> u32 result" where
  "BiModeBP_getGHR tid h = (case h of None \<Rightarrow> Error NullDeref | Some h \<Rightarrow> Ok (bh_globalHistoryReg h))"

definition BiModeBP_ops :: "(BiModeBP, BiModeHistory) BPredOps" where
  "BiModeBP_ops = \<lparr>dp_lookup = BiModeBP_lookup, dp_uncondBranch = BiModeBP_uncondBranch, dp_btbUpdate = BiModeBP_btbUpdate,
     dp_update = BiModeBP_update, dp_squash = BiModeBP_squash, dp_getGHR = BiModeBP_getGHR\<rparr>"

section \<open>The tournament predictor\<close>

definition invalidPredictorIndex :: u32 where
  "invalidPredictorIndex = - 1"

record TournamentHistory =
  th_globalHistory :: u32
  th_localHistoryIdx :: u32
  th_localHistory :: u32
  th_localPredTaken :: bool
  th_globalPredTaken :: bool
  th_globalUsed :: bool

record TournamentBP =
  tb_localCtrs :: "SatCounter list"
  tb_localPredictorSize :: u32
  tb_localPredictorMask :: u32
  tb_localCtrBits :: u32
  tb_localHistoryTable :: "u32 list"
  tb_localHistoryTableSize :: u32
  tb_localHistoryBits :: u32
  tb_globalCtrs :: "SatCounter list"
  tb_globalPredictorSize :: u32
  tb_globalCtrBits :: u32
  tb_globalHistory :: "u32 list"
  tb_globalHistoryBits :: u32
  tb_globalHistoryMask :: u32
  tb_choiceHistoryMask :: u32
  tb_historyRegisterMask :: u32
  tb_choiceCtrs :: "SatCounter list"
  tb_choicePredictorSize :: u32
  tb_choiceCtrBits :: u32
  tb_localThreshold :: u32
  tb_globalThreshold :: u32
  tb_choiceThreshold :: u32
  tb_instShiftAmt :: u32

record TournamentBPParams =
  tp_numThreads :: u32
  tp_localPredictorSize :: u32
  tp_localCtrBits :: u32
  tp_localHistoryTableSize :: u32
  tp_globalPredictorSize :: u32
  tp_globalCtrBits :: u32
  tp_choicePredictorSize :: u32
  tp_choiceCtrBits :: u32
  tp_instShiftAmt :: u32

definition new_TournamentBP :: "u8 \<Rightarrow> TournamentBPParams \<Rightarrow> TournamentBP result" where
  "new_TournamentBP junk q =
     bindR (ceilLog2 (ucast (tp_localPredictorSize q))) (\<lambda>localBits.
     bindR (ceilLog2 (ucast (tp_globalPredictorSize q))) (\<lambda>globalBits.
     bindR (ceilLog2 (ucast (tp_choicePredictorSize q))) (\<lambda>choiceBits.
       let historyBits = (if globalBits > choiceBits then globalBits else choiceBits);
           globalMask = tp_globalPredictorSize q - 1; choiceMask = tp_choicePredictorSize q - 1;
           historyMask = ucast (mask_bits (int historyBits)) in
       if \<not> isPowerOf2 (ucast (tp_localPredictorSize q)) then Error Fatal
       else if \<not> isPowerOf2 (ucast (tp_globalPredictorSize q)) then Error Fatal
       else bindR (counter_table junk (tp_localPredictorSize q) (tp_localCtrBits q)) (\<lambda>localCtrs.
       if \<not> isPowerOf2 (ucast (tp_localHistoryTableSize q)) then Error Fatal
       else bindR (counter_table junk (tp_globalPredictorSize q) (tp_globalCtrBits q)) (\<lambda>globalCtrs.
       if \<not> isPowerOf2 (ucast (tp_choicePredictorSize q)) then Error Fatal
       else bindR (counter_table junk (tp_choicePredictorSize q) (tp_choiceCtrBits q)) (\<lambda>choiceCtrs.
       if globalMask > historyMask then Error Fatal
       else if choiceMask > historyMask then Error Fatal
       else
         bindR (threshold (tp_localCtrBits q)) (\<lambda>localThreshold.
         bindR (threshold (tp_globalCtrBits q)) (\<lambda>globalThreshold.
         bindR (threshold (tp_choiceCtrBits q)) (\<lambda>choiceThreshold.
           Ok \<lparr>tb_localCtrs = localCtrs, tb_localPredictorSize = tp_localPredictorSize q,
               tb_localPredictorMask = ucast (mask_bits (int localBits)), tb_localCtrBits = tp_localCtrBits q,
               tb_localHistoryTable = replicate (unat (tp_localHistoryTableSize q)) 0,
               tb_localHistoryTableSize = tp_localHistoryTableSize q, tb_localHistoryBits = of_nat localBits,
               tb_globalCtrs = globalCtrs, tb_globalPredictorSize = tp_globalPredictorSize q, tb_globalCtrBits = tp_globalCtrBits q,
               tb_globalHistory = replicate (unat (tp_numThreads q)) 0, tb_globalHistoryBits = of_nat historyBits,
               tb_globalHistoryMask = globalMask, tb_choiceHistoryMask = choiceMask, tb_historyRegisterMask = historyMask,
               tb_choiceCtrs = choiceCtrs, tb_choicePredictorSize = tp_choicePredictorSize q, tb_choiceCtrBits = tp_choiceCtrBits q,
               tb_localThreshold = localThreshold, tb_globalThreshold = globalThreshold, tb_choiceThreshold = choiceThreshold,
               tb_instShiftAmt = tp_instShiftAmt q\<rparr>)))))))))"

definition calcLocHistIdx :: "Addr \<Rightarrow> TournamentBP \<Rightarrow> u32" where
  "calcLocHistIdx branch_addr p =
     ucast (drop_bit (unat (tb_instShiftAmt p)) branch_addr AND ucast (tb_localHistoryTableSize p - 1))"

text \<open>\<^verbatim>\<open>updateGlobalHistTaken\<close> and \<^verbatim>\<open>updateGlobalHistNotTaken\<close>, and the same for the local history.\<close>

definition updateGlobalHist :: "ThreadID \<Rightarrow> bool \<Rightarrow> TournamentBP \<Rightarrow> TournamentBP result" where
  "updateGlobalHist tid taken p =
     bindR (arr_get (tb_globalHistory p) tid) (\<lambda>g.
     bindR (arr_set (tb_globalHistory p) tid ((if taken then push_bit 1 g OR 1 else push_bit 1 g) AND tb_historyRegisterMask p)) (\<lambda>r.
       Ok (p\<lparr>tb_globalHistory := r\<rparr>)))"

definition updateLocalHist :: "u32 \<Rightarrow> bool \<Rightarrow> TournamentBP \<Rightarrow> TournamentBP result" where
  "updateLocalHist local_history_idx taken p =
     bindR (arr_get (tb_localHistoryTable p) (uint local_history_idx)) (\<lambda>l.
     bindR (arr_set (tb_localHistoryTable p) (uint local_history_idx) (if taken then push_bit 1 l OR 1 else push_bit 1 l)) (\<lambda>r.
       Ok (p\<lparr>tb_localHistoryTable := r\<rparr>)))"

definition TournamentBP_btbUpdate :: "ThreadID \<Rightarrow> Addr \<Rightarrow> TournamentHistory option \<Rightarrow> TournamentBP \<Rightarrow> TournamentBP result" where
  "TournamentBP_btbUpdate tid branch_addr h p =
     (let i = calcLocHistIdx branch_addr p in
      bindR (arr_get (tb_globalHistory p) tid) (\<lambda>g.
      bindR (arr_set (tb_globalHistory p) tid (g AND (tb_historyRegisterMask p AND NOT 1))) (\<lambda>r.
      bindR (arr_get (tb_localHistoryTable p) (uint i)) (\<lambda>l.
      bindR (arr_set (tb_localHistoryTable p) (uint i) (l AND (tb_localPredictorMask p AND NOT 1))) (\<lambda>t.
        Ok (p\<lparr>tb_globalHistory := r, tb_localHistoryTable := t\<rparr>))))))"

definition TournamentBP_lookup :: "ThreadID \<Rightarrow> Addr \<Rightarrow> TournamentBP \<Rightarrow> (bool \<times> TournamentHistory option \<times> TournamentBP) result" where
  "TournamentBP_lookup tid branch_addr p =
     (let local_history_idx = calcLocHistIdx branch_addr p in
      bindR (arr_get (tb_localHistoryTable p) (uint local_history_idx)) (\<lambda>l.
      let local_predictor_idx = l AND tb_localPredictorMask p in
      bindR (arr_get (tb_localCtrs p) (uint local_predictor_idx)) (\<lambda>lc.
      bindR (arr_get (tb_globalHistory p) tid) (\<lambda>g.
      bindR (arr_get (tb_globalCtrs p) (uint (g AND tb_globalHistoryMask p))) (\<lambda>gc.
      bindR (arr_get (tb_choiceCtrs p) (uint (g AND tb_choiceHistoryMask p))) (\<lambda>cc.
        let local_prediction = (ucast (sc_read lc) > tb_localThreshold p);
            global_prediction = (tb_globalThreshold p < ucast (sc_read gc));
            choice_prediction = (tb_choiceThreshold p < ucast (sc_read cc));
            history = \<lparr>th_globalHistory = g, th_localHistoryIdx = local_history_idx, th_localHistory = local_predictor_idx,
              th_localPredTaken = local_prediction, th_globalPredTaken = global_prediction, th_globalUsed = choice_prediction\<rparr>;
            taken = (if choice_prediction then global_prediction else local_prediction) in
        bindR (assertR (local_history_idx < tb_localHistoryTableSize p) AssertFail) (\<lambda>_.
        bindR (updateGlobalHist tid taken p) (\<lambda>p.
        bindR (updateLocalHist local_history_idx taken p) (\<lambda>p. Ok (taken, Some history, p))))))))))"

definition TournamentBP_uncondBranch :: "ThreadID \<Rightarrow> Addr \<Rightarrow> TournamentBP \<Rightarrow> (TournamentHistory option \<times> TournamentBP) result" where
  "TournamentBP_uncondBranch tid pc p =
     bindR (arr_get (tb_globalHistory p) tid) (\<lambda>g.
     bindR (updateGlobalHist tid True p) (\<lambda>p.
       Ok (Some \<lparr>th_globalHistory = g, th_localHistoryIdx = invalidPredictorIndex, th_localHistory = invalidPredictorIndex,
                 th_localPredTaken = True, th_globalPredTaken = True, th_globalUsed = True\<rparr>, p)))"

text \<open>The counters that \<^verbatim>\<open>update\<close> trains when the branch commits.\<close>

definition tournament_train :: "bool \<Rightarrow> TournamentHistory \<Rightarrow> TournamentBP \<Rightarrow> TournamentBP result" where
  "tournament_train taken h p =
     (let valid = (th_localHistory h \<noteq> invalidPredictorIndex); i = th_localHistory h AND tb_localPredictorMask p in
      bindR (assertR (i < tb_localPredictorSize p) AssertFail) (\<lambda>_.
      bindR (if th_localPredTaken h \<noteq> th_globalPredTaken h \<and> valid
             then let k = th_globalHistory h AND tb_choiceHistoryMask p in
                  if th_localPredTaken h = taken then train_at k False (tb_choiceCtrs p)
                  else if th_globalPredTaken h = taken then train_at k True (tb_choiceCtrs p)
                  else Ok (tb_choiceCtrs p)
             else Ok (tb_choiceCtrs p)) (\<lambda>choice.
      bindR (train_at (th_globalHistory h AND tb_globalHistoryMask p) taken (tb_globalCtrs p)) (\<lambda>glob.
      bindR (if valid then train_at i taken (tb_localCtrs p) else Ok (tb_localCtrs p)) (\<lambda>loc.
        Ok (p\<lparr>tb_choiceCtrs := choice, tb_globalCtrs := glob, tb_localCtrs := loc\<rparr>))))))"

definition TournamentBP_update ::
  "ThreadID \<Rightarrow> Addr \<Rightarrow> bool \<Rightarrow> TournamentHistory option \<Rightarrow> bool \<Rightarrow> TournamentBP \<Rightarrow> TournamentBP result" where
  "TournamentBP_update tid branch_addr taken h squashed p =
     (case h of None \<Rightarrow> Error AssertFail
      | Some h \<Rightarrow>
          let local_history_idx = calcLocHistIdx branch_addr p in
          bindR (assertR (local_history_idx < tb_localHistoryTableSize p) AssertFail) (\<lambda>_.
            if squashed
            then bindR (arr_set (tb_globalHistory p) tid ((push_bit 1 (th_globalHistory h) OR of_bool taken) AND tb_historyRegisterMask p)) (\<lambda>r.
                 bindR (if th_localHistory h \<noteq> invalidPredictorIndex
                        then arr_set (tb_localHistoryTable p) (uint local_history_idx) (push_bit 1 (th_localHistory h) OR of_bool taken)
                        else Ok (tb_localHistoryTable p)) (\<lambda>t.
                   Ok (p\<lparr>tb_globalHistory := r, tb_localHistoryTable := t\<rparr>)))
            else tournament_train taken h p))"

definition TournamentBP_squash :: "ThreadID \<Rightarrow> TournamentHistory option \<Rightarrow> TournamentBP \<Rightarrow> TournamentBP result" where
  "TournamentBP_squash tid h p =
     (case h of None \<Rightarrow> Error NullDeref
      | Some h \<Rightarrow>
          bindR (arr_set (tb_globalHistory p) tid (th_globalHistory h)) (\<lambda>r.
          bindR (if th_localHistoryIdx h \<noteq> invalidPredictorIndex
                 then arr_set (tb_localHistoryTable p) (uint (th_localHistoryIdx h)) (th_localHistory h)
                 else Ok (tb_localHistoryTable p)) (\<lambda>t.
            Ok (p\<lparr>tb_globalHistory := r, tb_localHistoryTable := t\<rparr>))))"

definition TournamentBP_getGHR :: "ThreadID \<Rightarrow> TournamentHistory option \<Rightarrow> u32 result" where
  "TournamentBP_getGHR tid h = (case h of None \<Rightarrow> Error NullDeref | Some h \<Rightarrow> Ok (th_globalHistory h))"

definition TournamentBP_ops :: "(TournamentBP, TournamentHistory) BPredOps" where
  "TournamentBP_ops = \<lparr>dp_lookup = TournamentBP_lookup, dp_uncondBranch = TournamentBP_uncondBranch,
     dp_btbUpdate = TournamentBP_btbUpdate, dp_update = TournamentBP_update, dp_squash = TournamentBP_squash,
     dp_getGHR = TournamentBP_getGHR\<rparr>"

end
