(* ===== verification/Branch_Target.thy ===== *)
theory Branch_Target
  imports Branch_Dir
begin

text \<open>
  Where predicted branches go: the return address stack (\<^verbatim>\<open>cpu/pred/ras.cc\<close>), the branch target buffer (\<^verbatim>\<open>cpu/pred/btb.cc\<close>) and the predictor
  of indirect targets (\<^verbatim>\<open>cpu/pred/indirect.cc\<close>). The type \<open>'pc\<close> is \<^verbatim>\<open>TheISA::PCState\<close> of the instruction set the simulator is built for;
  \<open>zeroPC\<close> is the state for address 0.
\<close>

section \<open>Return address stack\<close>

record 'pc ReturnAddrStack =
  ras_addrStack :: "'pc list"
  ras_numEntries :: u32
  ras_usedEntries :: u32
  ras_tos :: u32

definition ras_reset :: "'pc \<Rightarrow> 'pc ReturnAddrStack \<Rightarrow> 'pc ReturnAddrStack" where
  "ras_reset zeroPC r = r\<lparr>ras_usedEntries := 0, ras_tos := 0, ras_addrStack := map (\<lambda>_. zeroPC) (ras_addrStack r)\<rparr>"

definition ras_init :: "'pc \<Rightarrow> u32 \<Rightarrow> 'pc ReturnAddrStack" where
  "ras_init zeroPC n =
     ras_reset zeroPC \<lparr>ras_addrStack = replicate (unat n) zeroPC, ras_numEntries = n, ras_usedEntries = 0, ras_tos = 0\<rparr>"

definition ras_top :: "'pc ReturnAddrStack \<Rightarrow> 'pc result" where
  "ras_top r = arr_get (ras_addrStack r) (uint (ras_tos r))"

definition ras_topIdx :: "'pc ReturnAddrStack \<Rightarrow> u32" where
  "ras_topIdx r = ras_tos r"

definition incrTos :: "'pc ReturnAddrStack \<Rightarrow> 'pc ReturnAddrStack" where
  "incrTos r = r\<lparr>ras_tos := if ras_tos r + 1 = ras_numEntries r then 0 else ras_tos r + 1\<rparr>"

definition decrTos :: "'pc ReturnAddrStack \<Rightarrow> 'pc ReturnAddrStack" where
  "decrTos r = r\<lparr>ras_tos := if ras_tos r = 0 then ras_numEntries r - 1 else ras_tos r - 1\<rparr>"

definition ras_push :: "'pc \<Rightarrow> 'pc ReturnAddrStack \<Rightarrow> 'pc ReturnAddrStack result" where
  "ras_push return_addr r =
     (let r = incrTos r in
      bindR (arr_set (ras_addrStack r) (uint (ras_tos r)) return_addr) (\<lambda>s.
        Ok (r\<lparr>ras_addrStack := s, ras_usedEntries := if ras_usedEntries r \<noteq> ras_numEntries r then ras_usedEntries r + 1 else ras_usedEntries r\<rparr>)))"

definition ras_pop :: "'pc ReturnAddrStack \<Rightarrow> 'pc ReturnAddrStack" where
  "ras_pop r = decrTos (if ras_usedEntries r > 0 then r\<lparr>ras_usedEntries := ras_usedEntries r - 1\<rparr> else r)"

definition ras_restore :: "u32 \<Rightarrow> 'pc \<Rightarrow> 'pc ReturnAddrStack \<Rightarrow> 'pc ReturnAddrStack result" where
  "ras_restore top_entry_idx restored r =
     bindR (arr_set (ras_addrStack r) (uint top_entry_idx) restored) (\<lambda>s. Ok (r\<lparr>ras_tos := top_entry_idx, ras_addrStack := s\<rparr>))"

definition ras_empty :: "'pc ReturnAddrStack \<Rightarrow> bool" where
  "ras_empty r \<longleftrightarrow> ras_usedEntries r = 0"

definition ras_full :: "'pc ReturnAddrStack \<Rightarrow> bool" where
  "ras_full r \<longleftrightarrow> ras_usedEntries r = ras_numEntries r"

section \<open>Branch target buffer\<close>

record 'pc BTBEntry =
  be_tag :: Addr
  be_target :: 'pc
  be_tid :: ThreadID
  be_valid :: bool

record 'pc DefaultBTB =
  btb_btb :: "'pc BTBEntry list"
  btb_numEntries :: u32
  btb_idxMask :: u32
  btb_tagBits :: u32
  btb_tagMask :: u32
  btb_instShiftAmt :: u32
  btb_tagShiftAmt :: u32
  btb_log2NumThreads :: u32

text \<open>The thread of a new entry is not initialised, which is the argument \<open>junk\<close>.\<close>

definition new_DefaultBTB :: "ThreadID \<Rightarrow> 'pc \<Rightarrow> u32 \<Rightarrow> u32 \<Rightarrow> u32 \<Rightarrow> u32 \<Rightarrow> 'pc DefaultBTB result" where
  "new_DefaultBTB junk zeroPC numEntries tagBits instShiftAmt num_threads =
     bindR (floorLog2_32 num_threads) (\<lambda>lt.
       if \<not> isPowerOf2 (ucast numEntries) then Error Fatal
       else bindR (if tagBits < 31 then Ok (push_bit (unat tagBits) (1 :: u32) - 1) else Error IntOverflow) (\<lambda>tagMask.
            bindR (floorLog2_32 numEntries) (\<lambda>le.
              Ok \<lparr>btb_btb = replicate (unat numEntries) \<lparr>be_tag = 0, be_target = zeroPC, be_tid = junk, be_valid = False\<rparr>,
                  btb_numEntries = numEntries, btb_idxMask = numEntries - 1, btb_tagBits = tagBits, btb_tagMask = tagMask,
                  btb_instShiftAmt = instShiftAmt, btb_tagShiftAmt = instShiftAmt + of_nat le, btb_log2NumThreads = of_nat lt\<rparr>)))"

definition btb_reset :: "'pc DefaultBTB \<Rightarrow> 'pc DefaultBTB" where
  "btb_reset b = b\<lparr>btb_btb := map (\<lambda>e. e\<lparr>be_valid := False\<rparr>) (btb_btb b)\<rparr>"

text \<open>The shift amounts are below 64 for the tables and shifts of a real unit; a greater one is undefined in C++ and shifts everything out here.\<close>

definition btb_getIndex :: "Addr \<Rightarrow> ThreadID \<Rightarrow> 'pc DefaultBTB \<Rightarrow> u32" where
  "btb_getIndex instPC tid b =
     ucast ((drop_bit (unat (btb_instShiftAmt b)) instPC
              XOR push_bit (unat (btb_tagShiftAmt b - btb_instShiftAmt b - btb_log2NumThreads b)) (word_of_int tid))
            AND ucast (btb_idxMask b))"

definition btb_getTag :: "Addr \<Rightarrow> 'pc DefaultBTB \<Rightarrow> Addr" where
  "btb_getTag instPC b = drop_bit (unat (btb_tagShiftAmt b)) instPC AND ucast (btb_tagMask b)"

definition btb_hit :: "Addr \<Rightarrow> ThreadID \<Rightarrow> 'pc DefaultBTB \<Rightarrow> 'pc option result" where
  "btb_hit instPC tid b =
     (let i = btb_getIndex instPC tid b in
      bindR (assertR (i < btb_numEntries b) AssertFail) (\<lambda>_.
      bindR (arr_get (btb_btb b) (uint i)) (\<lambda>e.
        Ok (if be_valid e \<and> btb_getTag instPC b = be_tag e \<and> be_tid e = tid then Some (be_target e) else None))))"

definition btb_valid :: "Addr \<Rightarrow> ThreadID \<Rightarrow> 'pc DefaultBTB \<Rightarrow> bool result" where
  "btb_valid instPC tid b = bindR (btb_hit instPC tid b) (\<lambda>t. Ok (t \<noteq> None))"

definition btb_lookup :: "'pc \<Rightarrow> Addr \<Rightarrow> ThreadID \<Rightarrow> 'pc DefaultBTB \<Rightarrow> 'pc result" where
  "btb_lookup zeroPC instPC tid b = bindR (btb_hit instPC tid b) (\<lambda>t. Ok (case t of None \<Rightarrow> zeroPC | Some target \<Rightarrow> target))"

definition btb_update :: "Addr \<Rightarrow> 'pc \<Rightarrow> ThreadID \<Rightarrow> 'pc DefaultBTB \<Rightarrow> 'pc DefaultBTB result" where
  "btb_update instPC target tid b =
     (let i = btb_getIndex instPC tid b in
      bindR (assertR (i < btb_numEntries b) AssertFail) (\<lambda>_.
      bindR (arr_set (btb_btb b) (uint i) \<lparr>be_tag = btb_getTag instPC b, be_target = target, be_tid = tid, be_valid = True\<rparr>) (\<lambda>es.
        Ok (b\<lparr>btb_btb := es\<rparr>))))"

section \<open>Indirect targets\<close>

record 'pc IPredEntry =
  ie_tag :: Addr
  ie_target :: 'pc

record HistoryEntry =
  he_pcAddr :: Addr
  he_targetAddr :: Addr
  he_seqNum :: u64

record ThreadInfo =
  ti_pathHist :: "HistoryEntry list"
  ti_headHistEntry :: u32

record 'pc IndirectPredictor =
  ip_hashGHR :: bool
  ip_hashTargets :: bool
  ip_numSets :: u32
  ip_numWays :: u32
  ip_tagBits :: u32
  ip_pathLength :: u32
  ip_instShift :: u32
  ip_targetCache :: "'pc IPredEntry list list"
  ip_threadInfo :: "ThreadInfo list"

record IndirectParams =
  ipp_hash_ghr :: bool
  ipp_hash_targets :: bool
  ipp_num_sets :: u32
  ipp_num_ways :: u32
  ipp_tag_bits :: u32
  ipp_path_len :: u32

definition new_IndirectPredictor :: "'pc \<Rightarrow> IndirectParams \<Rightarrow> u32 \<Rightarrow> u32 \<Rightarrow> 'pc IndirectPredictor result" where
  "new_IndirectPredictor zeroPC q inst_shift num_threads =
     (if \<not> isPowerOf2 (ucast (ipp_num_sets q)) then Error Panic
      else Ok \<lparr>ip_hashGHR = ipp_hash_ghr q, ip_hashTargets = ipp_hash_targets q, ip_numSets = ipp_num_sets q, ip_numWays = ipp_num_ways q,
               ip_tagBits = ipp_tag_bits q, ip_pathLength = ipp_path_len q, ip_instShift = inst_shift,
               ip_targetCache = replicate (unat (ipp_num_sets q)) (replicate (unat (ipp_num_ways q)) \<lparr>ie_tag = 0, ie_target = zeroPC\<rparr>),
               ip_threadInfo = replicate (unat num_threads) \<lparr>ti_pathHist = [], ti_headHistEntry = 0\<rparr>\<rparr>)"

text \<open>The newest targets are hashed, each shifted further than the one after it.\<close>

fun hash_path :: "u32 \<Rightarrow> u32 \<Rightarrow> nat \<Rightarrow> nat \<Rightarrow> HistoryEntry list \<Rightarrow> u64 \<Rightarrow> u64" where
  "hash_path instShift hash_shift p n [] hash = hash"
| "hash_path instShift hash_shift p n (e # es) hash =
     (if p < n
      then hash_path instShift hash_shift (Suc p) n es
             (hash XOR drop_bit (unat (instShift + of_nat p * hash_shift)) (he_targetAddr e))
      else hash)"

definition ip_getSetIndex :: "Addr \<Rightarrow> u32 \<Rightarrow> ThreadID \<Rightarrow> 'pc IndirectPredictor \<Rightarrow> Addr result" where
  "ip_getSetIndex br_addr ghr tid ip =
     bindR (arr_get (ip_threadInfo ip) tid) (\<lambda>t.
       let hash = drop_bit (unat (ip_instShift ip)) br_addr;
           hash = (if ip_hashGHR ip then hash XOR ucast ghr else hash) in
       bindR (if ip_hashTargets ip
              then if ip_pathLength ip = 0 then Error DivByZero
                   else bindR (floorLog2_32 (ip_numSets ip)) (\<lambda>l.
                     Ok (hash_path (ip_instShift ip) (of_nat l div ip_pathLength ip) 0 (unat (ip_pathLength ip)) (rev (ti_pathHist t)) hash))
              else Ok hash) (\<lambda>hash.
         Ok (hash AND ucast (ip_numSets ip - 1))))"

text \<open>\<^verbatim>\<open>(0x1<<tagBits)-1\<close> is computed in \<^verbatim>\<open>int\<close>.\<close>

definition ip_getTag :: "Addr \<Rightarrow> 'pc IndirectPredictor \<Rightarrow> Addr result" where
  "ip_getTag br_addr ip =
     (if ip_tagBits ip < 31
      then Ok (drop_bit (unat (ip_instShift ip)) br_addr AND ucast (push_bit (unat (ip_tagBits ip)) (1 :: u32) - 1))
      else Error IntOverflow)"

definition ip_lookup :: "Addr \<Rightarrow> u32 \<Rightarrow> ThreadID \<Rightarrow> 'pc IndirectPredictor \<Rightarrow> 'pc option result" where
  "ip_lookup br_addr ghr tid ip =
     bindR (ip_getSetIndex br_addr ghr tid ip) (\<lambda>set_index.
     bindR (ip_getTag br_addr ip) (\<lambda>tag.
     bindR (assertR (set_index < ucast (ip_numSets ip)) AssertFail) (\<lambda>_.
     bindR (arr_get (ip_targetCache ip) (uint set_index)) (\<lambda>iset.
       Ok (map_option ie_target (find (\<lambda>w. ie_tag w = tag) iset))))))"

definition ip_set_thread :: "ThreadID \<Rightarrow> ThreadInfo \<Rightarrow> 'pc IndirectPredictor \<Rightarrow> 'pc IndirectPredictor result" where
  "ip_set_thread tid t ip = bindR (arr_set (ip_threadInfo ip) tid t) (\<lambda>ts. Ok (ip\<lparr>ip_threadInfo := ts\<rparr>))"

definition ip_recordIndirect :: "Addr \<Rightarrow> Addr \<Rightarrow> u64 \<Rightarrow> ThreadID \<Rightarrow> 'pc IndirectPredictor \<Rightarrow> 'pc IndirectPredictor result" where
  "ip_recordIndirect br_addr tgt_addr seq_num tid ip =
     bindR (arr_get (ip_threadInfo ip) tid) (\<lambda>t.
       ip_set_thread tid (t\<lparr>ti_pathHist := ti_pathHist t @ [\<lparr>he_pcAddr = br_addr, he_targetAddr = tgt_addr, he_seqNum = seq_num\<rparr>]\<rparr>) ip)"

definition ip_commit :: "u64 \<Rightarrow> ThreadID \<Rightarrow> 'pc IndirectPredictor \<Rightarrow> 'pc IndirectPredictor result" where
  "ip_commit seq_num tid ip =
     bindR (arr_get (ip_threadInfo ip) tid) (\<lambda>t.
       if ti_pathHist t = [] then Ok ip
       else if unat (ti_headHistEntry t) < length (ti_pathHist t) \<and> he_seqNum (ti_pathHist t ! unat (ti_headHistEntry t)) \<le> seq_num
       then ip_set_thread tid (if ti_headHistEntry t \<ge> ip_pathLength ip then t\<lparr>ti_pathHist := tl (ti_pathHist t)\<rparr>
                               else t\<lparr>ti_headHistEntry := ti_headHistEntry t + 1\<rparr>) ip
       else Ok ip)"

definition ip_squash :: "u64 \<Rightarrow> ThreadID \<Rightarrow> 'pc IndirectPredictor \<Rightarrow> 'pc IndirectPredictor result" where
  "ip_squash seq_num tid ip =
     bindR (arr_get (ip_threadInfo ip) tid) (\<lambda>t.
       ip_set_thread tid (t\<lparr>ti_pathHist := takeWhile (\<lambda>e. he_seqNum e \<le> seq_num) (ti_pathHist t)\<rparr>) ip)"

fun set_first :: "('a \<Rightarrow> bool) \<Rightarrow> ('a \<Rightarrow> 'a) \<Rightarrow> 'a list \<Rightarrow> 'a list" where
  "set_first P f [] = []"
| "set_first P f (x # xs) = (if P x then f x # xs else x # set_first P f xs)"

text \<open>
  The branch is the newest of the history; its set is computed without it. \<open>draw\<close> is the value of \<^verbatim>\<open>rand()\<close>. The target of the copy
  that is pushed back is the new one, given by its address.
\<close>

definition ip_recordTarget :: "('pc \<Rightarrow> Addr) \<Rightarrow> nat \<Rightarrow> u32 \<Rightarrow> 'pc \<Rightarrow> ThreadID \<Rightarrow> 'pc IndirectPredictor \<Rightarrow> 'pc IndirectPredictor result" where
  "ip_recordTarget instAddr draw ghr target tid ip =
     bindR (arr_get (ip_threadInfo ip) tid) (\<lambda>t.
       if ti_pathHist t = [] then Error OutOfBounds
       else
         let e = last (ti_pathHist t) in
         bindR (ip_set_thread tid (t\<lparr>ti_pathHist := butlast (ti_pathHist t)\<rparr>) ip) (\<lambda>popped.
         bindR (ip_getSetIndex (he_pcAddr e) ghr tid popped) (\<lambda>set_index.
         bindR (ip_getTag (he_pcAddr e) popped) (\<lambda>tag.
         bindR (ip_set_thread tid (t\<lparr>ti_pathHist := butlast (ti_pathHist t) @ [e\<lparr>he_targetAddr := instAddr target\<rparr>]\<rparr>) popped) (\<lambda>ip.
         bindR (assertR (set_index < ucast (ip_numSets ip)) AssertFail) (\<lambda>_.
         bindR (arr_get (ip_targetCache ip) (uint set_index)) (\<lambda>iset.
         bindR (if list_ex (\<lambda>w. ie_tag w = tag) iset then Ok (set_first (\<lambda>w. ie_tag w = tag) (\<lambda>w. w\<lparr>ie_target := target\<rparr>) iset)
                else if ip_numWays ip = 0 then Error DivByZero
                else arr_set iset (int (draw mod unat (ip_numWays ip))) \<lparr>ie_tag = tag, ie_target = target\<rparr>) (\<lambda>iset'.
         bindR (arr_set (ip_targetCache ip) (uint set_index) iset') (\<lambda>cache.
           Ok (ip\<lparr>ip_targetCache := cache\<rparr>))))))))))"

end
