(* ===== verification/Branch_Contract.thy ===== *)
theory Branch_Contract
  imports Branch_Dir
begin

text \<open>
  The contract of a direction predictor as a locale, and that the local, the bi-mode and the tournament predictor keep it: on states
  that satisfy the invariant of the predictor no operation leaves an array or fails an assertion, and the history object of a branch undoes
  what the branch did to the speculative histories.
\<close>

section \<open>Arrays indexed by words\<close>

lemma arr_get_word [simp]: "unat i < length xs \<Longrightarrow> arr_get xs (uint (i :: u32)) = Ok (xs ! unat i)"
  by (metis arr_get_nat uint_nat)

lemma arr_set_word [simp]: "unat i < length xs \<Longrightarrow> arr_set xs (uint (i :: u32)) v = Ok (xs[unat i := v])"
  by (metis arr_set_nat uint_nat)

section \<open>Tables of counters\<close>

definition sc_ok :: "SatCounter \<Rightarrow> bool" where
  "sc_ok c \<longleftrightarrow> sc_counter c \<le> sc_maxVal c"

definition table_ok :: "u32 \<Rightarrow> SatCounter list \<Rightarrow> bool" where
  "table_ok n cs \<longleftrightarrow> length cs = unat n \<and> (\<forall>c\<in>set cs. sc_ok c)"

lemma train_ok: "sc_ok c \<Longrightarrow> sc_ok (sc_train taken c)"
proof -
  have "x > 0 \<Longrightarrow> x - 1 \<le> (x :: u8)" for x by (simp add: word_sub_le inc_i word_le_nat_alt word_less_nat_alt unat_sub_if')
  then show "sc_ok c \<Longrightarrow> sc_ok (sc_train taken c)"
    using order_trans by (fastforce simp: sc_ok_def sc_train_def increment_def decrement_def inc_le)
qed

lemma train_at_ok:
  assumes "table_ok n cs" "unat i < unat n"
  shows "\<exists>cs'. train_at i taken cs = Ok cs' \<and> table_ok n cs'"
proof -
  have l: "unat i < length cs" using assms by (simp add: table_ok_def)
  then have "sc_ok (sc_train taken (cs ! unat i))" using assms(1) by (auto simp: table_ok_def intro: train_ok)
  moreover have "train_at i taken cs = Ok (cs[unat i := sc_train taken (cs ! unat i)])"
    using l by (simp add: train_at_def)
  ultimately show ?thesis using assms(1) set_update_subset_insert [of cs "unat i"] by (fastforce simp: table_ok_def)
qed

lemma counter_table_ok:
  assumes "counter_table junk n nbits = Ok cs"
  shows "table_ok n cs" "\<And>c. c \<in> set cs \<Longrightarrow> sc_max_of nbits = Ok (sc_maxVal c) \<and> sc_counter c = 0"
proof -
  define I where "I i cs \<longleftrightarrow> length cs = unat n \<and> (\<forall>j<length cs. sc_counter (cs ! j) = 0 \<and> (j < i \<longrightarrow> sc_max_of nbits = Ok (sc_maxVal (cs ! j))))" for i and cs :: "SatCounter list"
  let ?f = "\<lambda>i cs. bindR (setBits nbits (cs ! i)) (\<lambda>c. Ok (cs[i := c]))" and ?z = "replicate (unat n) (new_SatCounter junk)"
  have "foldM ?f [0..<k] ?z = Ok cs \<Longrightarrow> k \<le> unat n \<Longrightarrow> I k cs" for k cs
  proof (induction k arbitrary: cs)
    case 0
    then show ?case by (auto simp: I_def new_SatCounter_def)
  next
    case (Suc k)
    then obtain ds m where d: "foldM ?f [0..<k] ?z = Ok ds" "sc_max_of nbits = Ok m" "cs = ds[k := (ds ! k)\<lparr>sc_maxVal := m\<rparr>]"
      by (auto simp: foldM_upt_Suc setBits_def bindR_Ok_iff simp del: upt_Suc)
    with Suc have "I k ds" by simp
    then show ?case using d(2,3) Suc.prems(2) by (auto simp: I_def nth_list_update less_Suc_eq)
  qed
  from this [of "unat n" cs] assms have i: "I (unat n) cs" by (simp add: counter_table_def)
  then show "\<And>c. c \<in> set cs \<Longrightarrow> sc_max_of nbits = Ok (sc_maxVal c) \<and> sc_counter c = 0"
    by (auto simp: I_def in_set_conv_nth)
  with i show "table_ok n cs" by (simp add: table_ok_def sc_ok_def I_def)
qed

section \<open>Indices\<close>

lemma and_pow2_less: "k < 32 \<Longrightarrow> n = 2 ^ k \<Longrightarrow> unat (x AND (n - 1)) < unat (n :: u32)"
proof -
  assume k: "k < 32" "n = 2 ^ k"
  then have "x AND (n - 1) = take_bit k x" by (simp add: take_bit_eq_mask mask_eq_exp_minus_1)
  then show ?thesis using k by (simp add: unsigned_take_bit_eq unat_2p_word)
qed

lemma ucast_and_pow2_less: "k < 32 \<Longrightarrow> n = 2 ^ k \<Longrightarrow> unat (ucast ((x :: u64) AND ucast (n - 1)) :: u32) < unat (n :: u32)"
proof -
  assume k: "k < 32" "n = 2 ^ k"
  have "ucast (x AND ucast (n - 1)) = (ucast x AND (n - 1) :: u32)" by (rule bit_word_eqI) (auto simp: bit_simps)
  then show ?thesis using and_pow2_less [OF k] by simp
qed

section \<open>The contract of a direction predictor\<close>

text \<open>
  \<open>cfg\<close> is the part of the state that no operation changes, \<open>spec\<close> the part that predictions change speculatively, \<open>undo\<close> what
  a history object says about it, \<open>made\<close> relates a history object to the branch it was made for, and \<open>safe\<close> holds
  of the history objects of conditional branches.
\<close>

locale direction_predictor =
  fixes P :: "('s, 'h) BPredOps" and ok :: "'s \<Rightarrow> bool" and cfg :: "'s \<Rightarrow> 'c" and threads :: "'c \<Rightarrow> nat"
    and made :: "'c \<Rightarrow> Addr \<Rightarrow> 'h option \<Rightarrow> bool" and safe :: "'h option \<Rightarrow> bool" and spec :: "'s \<Rightarrow> 'v"
    and undo :: "ThreadID \<Rightarrow> 'h option \<Rightarrow> 'v \<Rightarrow> 'v"
  assumes lookup_Ok: "ok s \<Longrightarrow> 0 \<le> tid \<Longrightarrow> tid < int (threads (cfg s)) \<Longrightarrow>
      \<exists>t h s'. dp_lookup P tid a s = Ok (t, h, s') \<and> ok s' \<and> cfg s' = cfg s \<and> made (cfg s) a h \<and> safe h \<and> undo tid h (spec s') = spec s"
    and uncond_Ok: "ok s \<Longrightarrow> 0 \<le> tid \<Longrightarrow> tid < int (threads (cfg s)) \<Longrightarrow>
      \<exists>h s'. dp_uncondBranch P tid a s = Ok (h, s') \<and> ok s' \<and> cfg s' = cfg s \<and> made (cfg s) a h \<and> undo tid h (spec s') = spec s"
    and btbUpdate_Ok: "ok s \<Longrightarrow> 0 \<le> tid \<Longrightarrow> tid < int (threads (cfg s)) \<Longrightarrow> made (cfg s) a h \<Longrightarrow>
      \<exists>s'. dp_btbUpdate P tid a h s = Ok s' \<and> ok s' \<and> cfg s' = cfg s \<and> (safe h \<longrightarrow> undo tid h (spec s') = undo tid h (spec s))"
    and train_Ok: "ok s \<Longrightarrow> 0 \<le> tid \<Longrightarrow> tid < int (threads (cfg s)) \<Longrightarrow> made (cfg s) a h \<Longrightarrow>
      \<exists>s'. dp_update P tid a taken h False s = Ok s' \<and> ok s' \<and> cfg s' = cfg s \<and> spec s' = spec s"
    and correct_Ok: "ok s \<Longrightarrow> 0 \<le> tid \<Longrightarrow> tid < int (threads (cfg s)) \<Longrightarrow> made (cfg s) a h \<Longrightarrow>
      \<exists>s'. dp_update P tid a taken h True s = Ok s' \<and> ok s' \<and> cfg s' = cfg s \<and> undo tid h (spec s') = undo tid h (spec s)"
    and squash_Ok: "ok s \<Longrightarrow> 0 \<le> tid \<Longrightarrow> tid < int (threads (cfg s)) \<Longrightarrow> made (cfg s) a h \<Longrightarrow>
      \<exists>s'. dp_squash P tid h s = Ok s' \<and> ok s' \<and> cfg s' = cfg s \<and> spec s' = undo tid h (spec s)"
    and getGHR_Ok: "made c a h \<Longrightarrow> \<exists>g. dp_getGHR P tid h = Ok g"

section \<open>The local predictor keeps the contract\<close>

definition LocalBP_ok :: "LocalBP \<Rightarrow> bool" where
  "LocalBP_ok p \<longleftrightarrow> (\<exists>k<32. lb_localPredictorSets p = 2 ^ k) \<and> lb_indexMask p = lb_localPredictorSets p - 1 \<and>
     table_ok (lb_localPredictorSets p) (lb_localCtrs p)"

lemma getLocalIndex_less: "LocalBP_ok p \<Longrightarrow> unat (getLocalIndex a p) < unat (lb_localPredictorSets p)"
  using ucast_and_pow2_less by (auto simp: LocalBP_ok_def getLocalIndex_def)

lemma LocalBP_lookup_Ok: "LocalBP_ok p \<Longrightarrow> \<exists>t. LocalBP_lookup tid a p = Ok (t, None, p)"
  using getLocalIndex_less [of p a] by (auto simp: LocalBP_lookup_def LocalBP_ok_def table_ok_def)

lemma LocalBP_train_Ok:
  assumes "LocalBP_ok p"
  shows "\<exists>p'. LocalBP_update tid a taken None False p = Ok p' \<and> LocalBP_ok p'"
proof -
  obtain cs where "train_at (getLocalIndex a p) taken (lb_localCtrs p) = Ok cs" "table_ok (lb_localPredictorSets p) cs"
    using train_at_ok [OF _ getLocalIndex_less [OF assms]] assms unfolding LocalBP_ok_def by meson
  then show ?thesis using assms by (simp add: LocalBP_update_def LocalBP_ok_def)
qed

text \<open>The local predictor has no speculative state.\<close>

interpretation local_bp: direction_predictor LocalBP_ops LocalBP_ok "\<lambda>_. n" "\<lambda>n. n" "\<lambda>_ _ h. h = None" "\<lambda>_. True" "\<lambda>_. ()" "\<lambda>_ _ _. ()"
  using LocalBP_lookup_Ok LocalBP_train_Ok
  by unfold_locales (fastforce simp: LocalBP_ops_def LocalBP_uncondBranch_def LocalBP_btbUpdate_def LocalBP_update_def LocalBP_squash_def)+

section \<open>The bi-mode predictor keeps the contract\<close>

definition BiModeBP_ok :: "BiModeBP \<Rightarrow> bool" where
  "BiModeBP_ok p \<longleftrightarrow> (\<exists>k<32. bm_choicePredictorSize p = 2 ^ k) \<and> (\<exists>k<32. bm_globalPredictorSize p = 2 ^ k) \<and>
     bm_choiceHistoryMask p = bm_choicePredictorSize p - 1 \<and> bm_globalHistoryMask p = bm_globalPredictorSize p - 1 \<and>
     table_ok (bm_choicePredictorSize p) (bm_choiceCounters p) \<and> table_ok (bm_globalPredictorSize p) (bm_takenCounters p) \<and>
     table_ok (bm_globalPredictorSize p) (bm_notTakenCounters p)"

lemma bm_idx_less:
  assumes "BiModeBP_ok p"
  shows "unat (bm_choiceIdx a p) < unat (bm_choicePredictorSize p)" "unat (bm_globalIdx a g p) < unat (bm_globalPredictorSize p)"
  using ucast_and_pow2_less assms by (auto simp: BiModeBP_ok_def bm_choiceIdx_def bm_globalIdx_def)

lemma bm_shift_Ok:
  assumes "0 \<le> tid" "tid < int (length (bm_globalHistoryReg p))"
  shows "\<exists>g. bm_updateGlobalHistReg tid taken p = Ok (p\<lparr>bm_globalHistoryReg := (bm_globalHistoryReg p)[nat tid := g]\<rparr>)"
  using assms by (auto simp: bm_updateGlobalHistReg_def arr_get_def arr_set_def Let_def)

lemma BiModeBP_ok_reg [simp]: "BiModeBP_ok (p\<lparr>bm_globalHistoryReg := r\<rparr>) = BiModeBP_ok p"
  by (simp add: BiModeBP_ok_def)

lemma BiModeBP_lookup_Ok:
  assumes "BiModeBP_ok p" "0 \<le> tid" "tid < int (length (bm_globalHistoryReg p))"
  shows "\<exists>t h g. BiModeBP_lookup tid a p = Ok (t, Some h, p\<lparr>bm_globalHistoryReg := (bm_globalHistoryReg p)[nat tid := g]\<rparr>) \<and>
    bh_globalHistoryReg h = bm_globalHistoryReg p ! nat tid"
proof -
  note i = bm_idx_less(1) [OF assms(1), of a] bm_idx_less(2) [OF assms(1), of a "bm_globalHistoryReg p ! nat tid"]
  let ?t = "bm_takenCounters p ! unat (bm_globalIdx a (bm_globalHistoryReg p ! nat tid) p)"
    and ?n = "bm_notTakenCounters p ! unat (bm_globalIdx a (bm_globalHistoryReg p ! nat tid) p)"
    and ?c = "bm_choiceCounters p ! unat (bm_choiceIdx a p)"
  let ?f = "if ucast (sc_read ?c) > bm_choiceThreshold p then ucast (sc_read ?t) > bm_takenThreshold p else ucast (sc_read ?n) > bm_notTakenThreshold p"
  obtain g where g: "bm_updateGlobalHistReg tid ?f p = Ok (p\<lparr>bm_globalHistoryReg := (bm_globalHistoryReg p)[nat tid := g]\<rparr>)"
    using bm_shift_Ok [OF assms(2,3)] by blast
  have l: "length (bm_choiceCounters p) = unat (bm_choicePredictorSize p)" "length (bm_takenCounters p) = unat (bm_globalPredictorSize p)"
    "length (bm_notTakenCounters p) = unat (bm_globalPredictorSize p)" using assms(1) by (simp_all add: BiModeBP_ok_def table_ok_def)
  show ?thesis using i i [folded word_less_nat_alt] l g assms(2,3) unfolding BiModeBP_lookup_def arr_get_def [of "bm_globalHistoryReg p"]
    by (simp add: Let_def) (rule exI, rule refl)
qed

lemma BiModeBP_train_Ok:
  assumes "BiModeBP_ok p"
  shows "\<exists>p'. BiModeBP_update tid a taken (Some h) False p = Ok p' \<and> BiModeBP_ok p' \<and> bm_globalHistoryReg p' = bm_globalHistoryReg p"
proof -
  note i = bm_idx_less(1) [OF assms, of a] bm_idx_less(2) [OF assms, of a "bh_globalHistoryReg h"]
  obtain cs ts ns where t: "train_at (bm_choiceIdx a p) taken (bm_choiceCounters p) = Ok cs" "table_ok (bm_choicePredictorSize p) cs"
    "train_at (bm_globalIdx a (bh_globalHistoryReg h) p) taken (bm_takenCounters p) = Ok ts" "table_ok (bm_globalPredictorSize p) ts"
    "train_at (bm_globalIdx a (bh_globalHistoryReg h) p) taken (bm_notTakenCounters p) = Ok ns" "table_ok (bm_globalPredictorSize p) ns"
    using train_at_ok [OF _ i(1)] train_at_ok [OF _ i(2)] assms unfolding BiModeBP_ok_def by meson
  then show ?thesis using i assms by (auto simp: BiModeBP_update_def Let_def word_less_nat_alt BiModeBP_ok_def)
qed

definition bm_undo :: "ThreadID \<Rightarrow> BiModeHistory option \<Rightarrow> u32 list \<Rightarrow> u32 list" where
  "bm_undo tid h gs = gs[nat tid := bh_globalHistoryReg (the h)]"

interpretation bi_mode: direction_predictor BiModeBP_ops BiModeBP_ok "\<lambda>p. length (bm_globalHistoryReg p)" "\<lambda>n. n" "\<lambda>_ _ h. h \<noteq> None"
  "\<lambda>_. True" bm_globalHistoryReg bm_undo
proof (unfold_locales, goal_cases)
  case (1 s tid a)
  then show ?case using BiModeBP_lookup_Ok [OF 1, of a] by (auto simp: BiModeBP_ops_def bm_undo_def)
next
  case (2 s tid a)
  then show ?case using bm_shift_Ok [of tid s True]
    by (auto simp: BiModeBP_ops_def bm_undo_def BiModeBP_uncondBranch_def arr_get_def)
next
  case (4 s tid a h taken)
  then show ?case using BiModeBP_train_Ok [of s tid a taken "the h"] by (auto simp: BiModeBP_ops_def)
qed (auto simp: BiModeBP_ops_def bm_undo_def BiModeBP_btbUpdate_def BiModeBP_update_def BiModeBP_squash_def BiModeBP_getGHR_def arr_get_def arr_set_def)

section \<open>The tournament predictor keeps the contract\<close>

definition TournamentBP_ok :: "TournamentBP \<Rightarrow> bool" where
  "TournamentBP_ok p \<longleftrightarrow> (\<exists>k<32. tb_localPredictorSize p = 2 ^ k) \<and> (\<exists>k<32. tb_localHistoryTableSize p = 2 ^ k) \<and>
     (\<exists>k<32. tb_globalPredictorSize p = 2 ^ k) \<and> (\<exists>k<32. tb_choicePredictorSize p = 2 ^ k) \<and>
     tb_localPredictorMask p = tb_localPredictorSize p - 1 \<and> tb_globalHistoryMask p = tb_globalPredictorSize p - 1 \<and>
     tb_choiceHistoryMask p = tb_choicePredictorSize p - 1 \<and> length (tb_localHistoryTable p) = unat (tb_localHistoryTableSize p) \<and>
     table_ok (tb_localPredictorSize p) (tb_localCtrs p) \<and> table_ok (tb_globalPredictorSize p) (tb_globalCtrs p) \<and>
     table_ok (tb_choicePredictorSize p) (tb_choiceCtrs p)"

lemma TournamentBP_ok_hist [simp]:
  "TournamentBP_ok (p\<lparr>tb_globalHistory := r\<rparr>) = TournamentBP_ok p"
  "length t = length (tb_localHistoryTable p) \<Longrightarrow> TournamentBP_ok (p\<lparr>tb_localHistoryTable := t\<rparr>) = TournamentBP_ok p"
  by (simp_all add: TournamentBP_ok_def)

lemma tb_idx_less:
  assumes "TournamentBP_ok p"
  shows "unat (calcLocHistIdx a p) < unat (tb_localHistoryTableSize p)" "unat (x AND tb_localPredictorMask p) < unat (tb_localPredictorSize p)"
    "unat (x AND tb_globalHistoryMask p) < unat (tb_globalPredictorSize p)" "unat (x AND tb_choiceHistoryMask p) < unat (tb_choicePredictorSize p)"
  using ucast_and_pow2_less and_pow2_less assms by (auto simp: TournamentBP_ok_def calcLocHistIdx_def)

lemma tb_lengths:
  assumes "TournamentBP_ok p"
  shows "length (tb_localHistoryTable p) = unat (tb_localHistoryTableSize p)" "length (tb_localCtrs p) = unat (tb_localPredictorSize p)"
    "length (tb_globalCtrs p) = unat (tb_globalPredictorSize p)" "length (tb_choiceCtrs p) = unat (tb_choicePredictorSize p)"
  using assms by (simp_all add: TournamentBP_ok_def table_ok_def)

text \<open>What the history objects depend on, and what of the histories matters for predictions.\<close>

definition tb_cfg :: "TournamentBP \<Rightarrow> nat \<times> u32 \<times> u32 \<times> u32 \<times> u32" where
  "tb_cfg p = (length (tb_globalHistory p), tb_localHistoryTableSize p, tb_instShiftAmt p, tb_localPredictorMask p, tb_historyRegisterMask p)"

definition tb_spec :: "TournamentBP \<Rightarrow> u32 list \<times> u32 list" where
  "tb_spec p = (tb_globalHistory p, map (\<lambda>l. l AND tb_localPredictorMask p) (tb_localHistoryTable p))"

definition tb_undo :: "ThreadID \<Rightarrow> TournamentHistory option \<Rightarrow> u32 list \<times> u32 list \<Rightarrow> u32 list \<times> u32 list" where
  "tb_undo tid h = (\<lambda>(gs, ls). (gs[nat tid := th_globalHistory (the h)],
     if th_localHistoryIdx (the h) = invalidPredictorIndex then ls else ls[unat (th_localHistoryIdx (the h)) := th_localHistory (the h)]))"

definition tb_made :: "nat \<times> u32 \<times> u32 \<times> u32 \<times> u32 \<Rightarrow> Addr \<Rightarrow> TournamentHistory option \<Rightarrow> bool" where
  "tb_made = (\<lambda>(n, tableSize, shift, localMask, _) a h. case h of None \<Rightarrow> False | Some h \<Rightarrow>
     th_localHistoryIdx h = invalidPredictorIndex \<and> th_localHistory h = invalidPredictorIndex \<or>
     th_localHistoryIdx h = ucast (drop_bit (unat shift) a AND ucast (tableSize - 1)) \<and>
       th_localHistory h AND localMask = th_localHistory h \<and> th_localHistory h \<noteq> invalidPredictorIndex)"

definition tb_safe :: "TournamentHistory option \<Rightarrow> bool" where
  "tb_safe h \<longleftrightarrow> (case h of None \<Rightarrow> False | Some h \<Rightarrow> th_localHistoryIdx h \<noteq> invalidPredictorIndex)"

lemma idx_valid: "unat (i :: u32) < unat (n :: u32) \<Longrightarrow> i \<noteq> invalidPredictorIndex"
  by (metis invalidPredictorIndex_def leD word_le_nat_alt word_order.extremum)

lemma tb_made_idx: "TournamentBP_ok p \<Longrightarrow> tb_made (tb_cfg p) a (Some h) \<Longrightarrow>
    th_localHistoryIdx h \<noteq> invalidPredictorIndex \<Longrightarrow> th_localHistoryIdx h = calcLocHistIdx a p \<and> th_localHistory h AND tb_localPredictorMask p = th_localHistory h \<and>
      th_localHistory h \<noteq> invalidPredictorIndex"
  by (auto simp: tb_made_def tb_cfg_def calcLocHistIdx_def)

lemma tb_made_invalid: "TournamentBP_ok p \<Longrightarrow> tb_made (tb_cfg p) a (Some h) \<Longrightarrow>
    th_localHistoryIdx h = invalidPredictorIndex \<Longrightarrow> th_localHistory h = invalidPredictorIndex"
  using idx_valid [OF tb_idx_less(1), of p a] by (auto simp: tb_made_def tb_cfg_def calcLocHistIdx_def)

lemma updateGlobalHist_Ok:
  assumes "0 \<le> tid" "tid < int (length (tb_globalHistory p))"
  shows "updateGlobalHist tid taken p = Ok (p\<lparr>tb_globalHistory := (tb_globalHistory p)[nat tid :=
    (push_bit 1 (tb_globalHistory p ! nat tid) OR of_bool taken) AND tb_historyRegisterMask p]\<rparr>)"
  using assms by (simp add: updateGlobalHist_def arr_get_def arr_set_def)

lemma TournamentBP_lookup_Ok:
  assumes "TournamentBP_ok p" "0 \<le> tid" "tid < int (length (tb_globalHistory p))"
  shows "\<exists>taken h. TournamentBP_lookup tid a p = Ok (taken, Some h, p\<lparr>
      tb_globalHistory := (tb_globalHistory p)[nat tid := (push_bit 1 (tb_globalHistory p ! nat tid) OR of_bool taken) AND tb_historyRegisterMask p],
      tb_localHistoryTable := (tb_localHistoryTable p)[unat (calcLocHistIdx a p) :=
        push_bit 1 (tb_localHistoryTable p ! unat (calcLocHistIdx a p)) OR of_bool taken]\<rparr>) \<and>
    th_globalHistory h = tb_globalHistory p ! nat tid \<and> th_localHistoryIdx h = calcLocHistIdx a p \<and>
    th_localHistory h = tb_localHistoryTable p ! unat (calcLocHistIdx a p) AND tb_localPredictorMask p"
proof -
  note i = tb_idx_less(1) [OF assms(1), of a] and l = tb_lengths [OF assms(1)]
  show ?thesis using assms(2,3) i i [folded word_less_nat_alt] l tb_idx_less(2-4) [OF assms(1)]
    unfolding TournamentBP_lookup_def arr_get_def [of "tb_globalHistory p"]
    by (simp add: Let_def updateGlobalHist_Ok updateLocalHist_def)
qed

lemma tournament_train_Ok:
  assumes "TournamentBP_ok p"
  shows "\<exists>cs gs ls. tournament_train taken h p = Ok (p\<lparr>tb_choiceCtrs := cs, tb_globalCtrs := gs, tb_localCtrs := ls\<rparr>) \<and>
    table_ok (tb_choicePredictorSize p) cs \<and> table_ok (tb_globalPredictorSize p) gs \<and> table_ok (tb_localPredictorSize p) ls"
proof -
  note i = tb_idx_less(2) [OF assms, of "th_localHistory h"] tb_idx_less(3,4) [OF assms, of "th_globalHistory h"]
  have t: "table_ok (tb_localPredictorSize p) (tb_localCtrs p)" "table_ok (tb_globalPredictorSize p) (tb_globalCtrs p)"
    "table_ok (tb_choicePredictorSize p) (tb_choiceCtrs p)" using assms by (simp_all add: TournamentBP_ok_def)
  obtain cs0 cs1 gs ls where u:
    "train_at (th_globalHistory h AND tb_choiceHistoryMask p) False (tb_choiceCtrs p) = Ok cs0" "table_ok (tb_choicePredictorSize p) cs0"
    "train_at (th_globalHistory h AND tb_choiceHistoryMask p) True (tb_choiceCtrs p) = Ok cs1" "table_ok (tb_choicePredictorSize p) cs1"
    "train_at (th_globalHistory h AND tb_globalHistoryMask p) taken (tb_globalCtrs p) = Ok gs" "table_ok (tb_globalPredictorSize p) gs"
    "train_at (th_localHistory h AND tb_localPredictorMask p) taken (tb_localCtrs p) = Ok ls" "table_ok (tb_localPredictorSize p) ls"
    using train_at_ok [OF t(1) i(1)] train_at_ok [OF t(2) i(2)] train_at_ok [OF t(3) i(3)] by metis
  let ?choice = "if th_localPredTaken h \<noteq> th_globalPredTaken h \<and> th_localHistory h \<noteq> invalidPredictorIndex
    then if th_localPredTaken h = taken then cs0 else if th_globalPredTaken h = taken then cs1 else tb_choiceCtrs p else tb_choiceCtrs p"
    and ?loc = "if th_localHistory h \<noteq> invalidPredictorIndex then ls else tb_localCtrs p"
  have "tournament_train taken h p = Ok (p\<lparr>tb_choiceCtrs := ?choice, tb_globalCtrs := gs, tb_localCtrs := ?loc\<rparr>)"
    using i(1) [folded word_less_nat_alt] u by (simp add: tournament_train_def Let_def)
  moreover have "table_ok (tb_choicePredictorSize p) ?choice" "table_ok (tb_localPredictorSize p) ?loc" using t(1,3) u by simp_all
  ultimately show ?thesis using u(6) by blast
qed

lemma TournamentBP_train_Ok:
  assumes "TournamentBP_ok p"
  shows "\<exists>p'. TournamentBP_update tid a taken (Some h) False p = Ok p' \<and> TournamentBP_ok p' \<and> tb_cfg p' = tb_cfg p \<and> tb_spec p' = tb_spec p"
proof -
  from tournament_train_Ok [OF assms, of taken h] obtain cs gs ls where
    t: "tournament_train taken h p = Ok (p\<lparr>tb_choiceCtrs := cs, tb_globalCtrs := gs, tb_localCtrs := ls\<rparr>)"
      "table_ok (tb_choicePredictorSize p) cs" "table_ok (tb_globalPredictorSize p) gs" "table_ok (tb_localPredictorSize p) ls" by blast
  let ?p = "p\<lparr>tb_choiceCtrs := cs, tb_globalCtrs := gs, tb_localCtrs := ls\<rparr>"
  have "TournamentBP_update tid a taken (Some h) False p = Ok ?p"
    using t(1) tb_idx_less(1) [OF assms, of a, folded word_less_nat_alt] by (simp add: TournamentBP_update_def Let_def)
  moreover have "TournamentBP_ok ?p" using t(2-4) assms by (simp add: TournamentBP_ok_def)
  ultimately show ?thesis by (simp add: tb_cfg_def tb_spec_def)
qed

lemma TournamentBP_correct_Ok:
  assumes "TournamentBP_ok p" "0 \<le> tid" "tid < int (length (tb_globalHistory p))"
  shows "TournamentBP_update tid a taken (Some h) True p = Ok (p\<lparr>
    tb_globalHistory := (tb_globalHistory p)[nat tid := (push_bit 1 (th_globalHistory h) OR of_bool taken) AND tb_historyRegisterMask p],
    tb_localHistoryTable := if th_localHistory h = invalidPredictorIndex then tb_localHistoryTable p
      else (tb_localHistoryTable p)[unat (calcLocHistIdx a p) := push_bit 1 (th_localHistory h) OR of_bool taken]\<rparr>)"
  using assms tb_idx_less(1) [OF assms(1), of a] tb_idx_less(1) [OF assms(1), of a, folded word_less_nat_alt] tb_lengths(1) [OF assms(1)]
  by (simp add: TournamentBP_update_def arr_set_def [of "tb_globalHistory p"])

lemma TournamentBP_squash_Ok:
  assumes "TournamentBP_ok p" "0 \<le> tid" "tid < int (length (tb_globalHistory p))" "tb_made (tb_cfg p) a (Some h)"
  shows "TournamentBP_squash tid (Some h) p = Ok (p\<lparr>tb_globalHistory := (tb_globalHistory p)[nat tid := th_globalHistory h],
    tb_localHistoryTable := if th_localHistoryIdx h = invalidPredictorIndex then tb_localHistoryTable p
      else (tb_localHistoryTable p)[unat (th_localHistoryIdx h) := th_localHistory h]\<rparr>)"
  using assms tb_made_idx [OF assms(1,4)] tb_idx_less(1) [OF assms(1), of a] tb_lengths(1) [OF assms(1)]
  by (auto simp: TournamentBP_squash_def arr_set_def [of "tb_globalHistory p"])

lemma TournamentBP_btbUpdate_Ok:
  assumes "TournamentBP_ok p" "0 \<le> tid" "tid < int (length (tb_globalHistory p))"
  shows "TournamentBP_btbUpdate tid a h p = Ok (p\<lparr>
    tb_globalHistory := (tb_globalHistory p)[nat tid := tb_globalHistory p ! nat tid AND (tb_historyRegisterMask p AND NOT 1)],
    tb_localHistoryTable := (tb_localHistoryTable p)[unat (calcLocHistIdx a p) :=
      tb_localHistoryTable p ! unat (calcLocHistIdx a p) AND (tb_localPredictorMask p AND NOT 1)]\<rparr>)"
  using assms tb_idx_less(1) [OF assms(1), of a] tb_lengths(1) [OF assms(1)]
  by (simp add: TournamentBP_btbUpdate_def Let_def arr_set_def [of "tb_globalHistory p"] arr_get_def [of "tb_globalHistory p"])

lemma tb_spec_update:
  "tb_spec (p\<lparr>tb_globalHistory := gs, tb_localHistoryTable := ls\<rparr>) = (gs, map (\<lambda>l. l AND tb_localPredictorMask p) ls)"
  by (simp add: tb_spec_def)

lemma tb_cfg_update: "length gs = length (tb_globalHistory p) \<Longrightarrow> tb_cfg (p\<lparr>tb_globalHistory := gs, tb_localHistoryTable := ls\<rparr>) = tb_cfg p"
  by (simp add: tb_cfg_def)

lemma TournamentBP_ok_update:
  "length ls = length (tb_localHistoryTable p) \<Longrightarrow> TournamentBP_ok (p\<lparr>tb_globalHistory := gs, tb_localHistoryTable := ls\<rparr>) = TournamentBP_ok p"
  by (simp add: TournamentBP_ok_def)

lemmas tb_updates = tb_spec_update tb_cfg_update TournamentBP_ok_update

interpretation tournament: direction_predictor TournamentBP_ops TournamentBP_ok tb_cfg fst tb_made tb_safe tb_spec tb_undo
proof (unfold_locales, goal_cases)
  case (1 s tid a)
  then have v: "tid < int (length (tb_globalHistory s))" by (simp add: tb_cfg_def)
  note i = tb_idx_less(1) [OF 1(1), of a]
  from TournamentBP_lookup_Ok [OF 1(1,2) v, of a] obtain taken h where
    l: "TournamentBP_lookup tid a s = Ok (taken, Some h, s\<lparr>
      tb_globalHistory := (tb_globalHistory s)[nat tid := (push_bit 1 (tb_globalHistory s ! nat tid) OR of_bool taken) AND tb_historyRegisterMask s],
      tb_localHistoryTable := (tb_localHistoryTable s)[unat (calcLocHistIdx a s) :=
        push_bit 1 (tb_localHistoryTable s ! unat (calcLocHistIdx a s)) OR of_bool taken]\<rparr>)" and
    h: "th_globalHistory h = tb_globalHistory s ! nat tid" "th_localHistoryIdx h = calcLocHistIdx a s"
      "th_localHistory h = tb_localHistoryTable s ! unat (calcLocHistIdx a s) AND tb_localPredictorMask s" by blast
  have n: "calcLocHistIdx a s \<noteq> invalidPredictorIndex" "th_localHistory h \<noteq> invalidPredictorIndex"
    using idx_valid [OF i] idx_valid [OF tb_idx_less(2) [OF 1(1)]] h(3) by auto
  have m: "tb_made (tb_cfg s) a (Some h)" using h n by (simp add: tb_made_def tb_cfg_def calcLocHistIdx_def and.assoc)
  have u: "tb_undo tid (Some h) (gs, map f ls) = tb_spec s" if "gs = (tb_globalHistory s)[nat tid := x]"
      "ls = (tb_localHistoryTable s)[unat (calcLocHistIdx a s) := y]" "f = (\<lambda>l. l AND tb_localPredictorMask s)" for gs ls f x y
    using that h n i tb_lengths(1) [OF 1(1)] by (simp add: tb_undo_def tb_spec_def map_update list_update_same_conv)
  show ?case using 1 l m n u h by (simp add: TournamentBP_ops_def tb_updates tb_safe_def)
next
  case (2 s tid a)
  then show ?case using updateGlobalHist_Ok [of tid s True]
    by (auto simp: TournamentBP_ops_def TournamentBP_uncondBranch_def arr_get_def tb_cfg_def tb_made_def tb_undo_def tb_spec_def)
next
  case (3 s tid a h)
  then obtain x where x: "h = Some x" by (cases h) (auto simp: tb_made_def tb_cfg_def)
  have v: "tid < int (length (tb_globalHistory s))" using 3 by (simp add: tb_cfg_def)
  have "th_localHistoryIdx x \<noteq> invalidPredictorIndex \<Longrightarrow> th_localHistoryIdx x = calcLocHistIdx a s" using tb_made_idx [of s a x] 3 x by blast
  then show ?case using TournamentBP_btbUpdate_Ok [OF 3(1,2) v, of a h] 3 x
    by (simp add: TournamentBP_ops_def tb_updates tb_safe_def) (auto simp: tb_undo_def tb_spec_def map_update)
next
  case (4 s tid a h taken)
  then show ?case using TournamentBP_train_Ok [of s tid a taken "the h"] by (cases h) (auto simp: TournamentBP_ops_def tb_made_def tb_cfg_def)
next
  case (5 s tid a h taken)
  then obtain x where x: "h = Some x" by (cases h) (auto simp: tb_made_def tb_cfg_def)
  have v: "tid < int (length (tb_globalHistory s))" using 5 by (simp add: tb_cfg_def)
  have "th_localHistoryIdx x \<noteq> invalidPredictorIndex \<Longrightarrow> th_localHistoryIdx x = calcLocHistIdx a s"
    "th_localHistoryIdx x = invalidPredictorIndex \<Longrightarrow> th_localHistory x = invalidPredictorIndex"
    using tb_made_idx [of s a x] tb_made_invalid [of s a x] 5 x by blast+
  then show ?case using TournamentBP_correct_Ok [OF 5(1,2) v, of a taken x] 5 x
    by (simp add: TournamentBP_ops_def tb_updates) (auto simp: tb_undo_def tb_spec_def map_update)
next
  case (6 s tid a h)
  then obtain x where x: "h = Some x" by (cases h) (auto simp: tb_made_def tb_cfg_def)
  have v: "tid < int (length (tb_globalHistory s))" using 6 by (simp add: tb_cfg_def)
  show ?case using TournamentBP_squash_Ok [OF 6(1,2) v, of a x] tb_made_idx [of s a x] 6 x
    by (simp add: TournamentBP_ops_def tb_updates) (auto simp: tb_undo_def tb_spec_def map_update)
next
  case (7 c a h tid)
  then show ?case by (cases h; cases c) (auto simp: TournamentBP_ops_def TournamentBP_getGHR_def tb_made_def)
qed

section \<open>New predictors\<close>

lemma pow2_u32: "isPowerOf2 (ucast (n :: u32)) \<Longrightarrow> \<exists>k<32. n = 2 ^ k"
proof -
  assume "isPowerOf2 (ucast n)"
  then obtain k where k: "k < 64" "ucast n = (2 ^ k :: u64)" by (auto simp: isPowerOf2_iff)
  have "unat n = 2 ^ k" using arg_cong [OF k(2), of unat] k(1) by (simp add: unat_2p_u64)
  moreover have "k < 32" using calculation unat_less_u32 [of n] power_less_imp_less_exp [of "2 :: nat" k 32] by simp
  ultimately show ?thesis by (intro exI [of _ k]) (simp add: word_unat_eq_iff unat_2p_word)
qed

lemma ceilLog2_pow2: "k < 64 \<Longrightarrow> ceilLog2 (2 ^ k) = Ok k"
proof (cases "k = 0")
  case False
  assume k: "k < 64"
  have n: "unat (2 ^ k - 1 :: u64) = 2 ^ k - 1" using k by (simp add: unat_sub_if' unat_2p_u64 word_le_nat_alt)
  have "(2 :: nat) \<le> 2 ^ k" using False by (cases k) auto
  then have "0 < (2 ^ k - 1 :: u64)" "(2 ^ k :: u64) \<noteq> 1" using n unat_2p_u64 [OF k] False by (auto simp: word_less_nat_alt word_unat_eq_iff)
  moreover from floorLog2_64_log [OF this(1)] obtain y where y: "floorLog2_64 (2 ^ k - 1) = Ok y" "2 ^ y \<le> unat (2 ^ k - 1 :: u64)" "unat (2 ^ k - 1 :: u64) < 2 ^ Suc y" by blast
  have "(2 :: nat) ^ y < 2 ^ k" "(2 :: nat) ^ k \<le> 2 ^ Suc y" using y(2,3) unfolding n using \<open>2 \<le> 2 ^ k\<close> by linarith+
  then have "y < k" "k \<le> Suc y" by (metis power_strict_increasing_iff one_less_numeral_iff semiring_norm(76), metis power_increasing_iff one_less_numeral_iff semiring_norm(76))
  then have "k = Suc y" by simp
  ultimately show ?thesis using y(1) by (simp add: ceilLog2_def)
qed (simp add: ceilLog2_def)

lemma ucast_mask_bits: "k < 32 \<Longrightarrow> ucast (mask_bits (int k)) = (2 ^ k - 1 :: u32)"
proof -
  assume "k < 32"
  then have "ucast (mask_bits (int k)) = (mask k :: u32)" by (simp add: mask_bits_mask) (rule bit_word_eqI, auto simp: bit_simps)
  then show ?thesis by (simp add: mask_eq_exp_minus_1)
qed

lemma new_LocalBP_ok: "new_LocalBP junk n b sh = Ok p \<Longrightarrow> LocalBP_ok p"
  using counter_table_ok(1) pow2_u32 by (auto simp: new_LocalBP_def LocalBP_ok_def bindR_Ok_iff Let_def split: if_splits)

lemma new_BiModeBP_ok: "new_BiModeBP junk nt cs cb gs gb sh = Ok p \<Longrightarrow> BiModeBP_ok p \<and> length (bm_globalHistoryReg p) = unat nt"
  using counter_table_ok(1) pow2_u32 by (auto simp: new_BiModeBP_def BiModeBP_ok_def bindR_Ok_iff split: if_splits)

lemma new_TournamentBP_ok:
  assumes "new_TournamentBP junk q = Ok p"
  shows "TournamentBP_ok p" "fst (tb_cfg p) = unat (tp_numThreads q)"
proof -
  have p: "isPowerOf2 (ucast (tp_localPredictorSize q))" "isPowerOf2 (ucast (tp_globalPredictorSize q))" "isPowerOf2 (ucast (tp_localHistoryTableSize q))" "isPowerOf2 (ucast (tp_choicePredictorSize q))"
    using assms by (auto simp: new_TournamentBP_def bindR_Ok_iff Let_def split: if_splits)
  obtain k where k: "k < 32" "tp_localPredictorSize q = 2 ^ k" using pow2_u32 [OF p(1)] by blast
  have "ucast (2 ^ k :: u32) = (2 ^ k :: u64)" using k(1) by (simp add: word_unat_eq_iff unat_2p_word)
  then have c: "ceilLog2 (ucast (tp_localPredictorSize q)) = Ok k" using k ceilLog2_pow2 [of k] by simp
  show "TournamentBP_ok p" "fst (tb_cfg p) = unat (tp_numThreads q)"
    using assms c k counter_table_ok(1) ucast_mask_bits [OF k(1)] p [THEN pow2_u32]
    by (auto simp: new_TournamentBP_def bindR_Ok_iff Let_def TournamentBP_ok_def tb_cfg_def split: if_splits)
qed
end
