(* ===== verification/Branch_Unit.thy ===== *)
theory Branch_Unit
  imports Branch_Target Branch_Contract
begin

text \<open>
  The branch prediction unit (\<^verbatim>\<open>cpu/pred/bpred_unit.cc\<close>): predictions, which act on the direction predictor, the return address stack and the
  indirect predictor before the branch is known, commits, and squashes, which take them back. The direction predictor is an argument, the
  instruction set is a record of what the unit uses of it. Probe points and the printing of the history are left out.
\<close>

section \<open>State\<close>

text \<open>What the unit asks about an instruction, and what it uses of \<^verbatim>\<open>TheISA\<close>.\<close>

record StaticInst =
  si_isUncondCtrl :: bool
  si_isReturn :: bool
  si_isCall :: bool
  si_isDirectCtrl :: bool

record 'pc TheISA =
  isa_instAddr :: "'pc \<Rightarrow> Addr"
  isa_zeroPC :: 'pc
  isa_buildRetPC :: "'pc \<Rightarrow> 'pc \<Rightarrow> 'pc"
  isa_advancePC :: "StaticInst \<Rightarrow> 'pc \<Rightarrow> 'pc"

record ('h, 'pc) PredictorHistory =
  ph_seqNum :: u64
  ph_pc :: Addr
  ph_bpHistory :: "'h option"
  ph_RASTarget :: 'pc
  ph_RASIndex :: u32
  ph_tid :: ThreadID
  ph_predTaken :: bool
  ph_usedRAS :: bool
  ph_pushedRAS :: bool
  ph_wasCall :: bool
  ph_wasReturn :: bool
  ph_wasIndirect :: bool

definition new_PredictorHistory :: "'pc \<Rightarrow> u64 \<Rightarrow> Addr \<Rightarrow> bool \<Rightarrow> 'h option \<Rightarrow> ThreadID \<Rightarrow> ('h, 'pc) PredictorHistory" where
  "new_PredictorHistory zeroPC seq_num instPC pred_taken bp_history tid =
     \<lparr>ph_seqNum = seq_num, ph_pc = instPC, ph_bpHistory = bp_history, ph_RASTarget = zeroPC, ph_RASIndex = 0, ph_tid = tid,
      ph_predTaken = pred_taken, ph_usedRAS = False, ph_pushedRAS = False, ph_wasCall = False, ph_wasReturn = False, ph_wasIndirect = False\<rparr>"

text \<open>The direction predictor is the derived part of the object. A history is a list with the newest branch first.\<close>

record ('s, 'h, 'pc) BPredUnit =
  bp_dir :: 's
  bp_numThreads :: u32
  bp_predHist :: "('h, 'pc) PredictorHistory list list"
  bp_BTB :: "'pc DefaultBTB"
  bp_RAS :: "'pc ReturnAddrStack list"
  bp_useIndirect :: bool
  bp_iPred :: "'pc IndirectPredictor"
  bp_lookups :: nat
  bp_condPredicted :: nat
  bp_condIncorrect :: nat
  bp_BTBLookups :: nat
  bp_BTBHits :: nat
  bp_usedRAS :: nat
  bp_RASIncorrect :: nat
  bp_indirectLookups :: nat
  bp_indirectHits :: nat
  bp_indirectMisses :: nat
  bp_indirectMispredicted :: nat

record BranchPredictorParams =
  bpp_numThreads :: u32
  bpp_BTBEntries :: u32
  bpp_BTBTagSize :: u32
  bpp_RASSize :: u32
  bpp_instShiftAmt :: u32
  bpp_useIndirect :: bool
  bpp_indirect :: IndirectParams

definition new_BPredUnit :: "'pc TheISA \<Rightarrow> ThreadID \<Rightarrow> 's \<Rightarrow> BranchPredictorParams \<Rightarrow> ('s, 'h, 'pc) BPredUnit result" where
  "new_BPredUnit isa junk dir q =
     bindR (new_DefaultBTB junk (isa_zeroPC isa) (bpp_BTBEntries q) (bpp_BTBTagSize q) (bpp_instShiftAmt q) (bpp_numThreads q)) (\<lambda>btb.
     bindR (new_IndirectPredictor (isa_zeroPC isa) (bpp_indirect q) (bpp_instShiftAmt q) (bpp_numThreads q)) (\<lambda>ip.
       Ok \<lparr>bp_dir = dir, bp_numThreads = bpp_numThreads q, bp_predHist = replicate (unat (bpp_numThreads q)) [], bp_BTB = btb,
           bp_RAS = replicate (unat (bpp_numThreads q)) (ras_init (isa_zeroPC isa) (bpp_RASSize q)), bp_useIndirect = bpp_useIndirect q,
           bp_iPred = ip, bp_lookups = 0, bp_condPredicted = 0, bp_condIncorrect = 0, bp_BTBLookups = 0, bp_BTBHits = 0, bp_usedRAS = 0,
           bp_RASIncorrect = 0, bp_indirectLookups = 0, bp_indirectHits = 0, bp_indirectMisses = 0, bp_indirectMispredicted = 0\<rparr>))"

definition drainSanityCheck :: "('s, 'h, 'pc) BPredUnit \<Rightarrow> unit result" where
  "drainSanityCheck u = foldM (\<lambda>ph _. assertR (ph = []) AssertFail) (bp_predHist u) ()"

section \<open>Access to the parts of a thread\<close>

definition with_RAS :: "ThreadID \<Rightarrow> ('pc ReturnAddrStack \<Rightarrow> 'pc ReturnAddrStack result) \<Rightarrow> ('s, 'h, 'pc) BPredUnit \<Rightarrow> ('s, 'h, 'pc) BPredUnit result" where
  "with_RAS tid f u =
     bindR (arr_get (bp_RAS u) tid) (\<lambda>r. bindR (f r) (\<lambda>r'. bindR (arr_set (bp_RAS u) tid r') (\<lambda>rs. Ok (u\<lparr>bp_RAS := rs\<rparr>))))"

definition set_predHist :: "ThreadID \<Rightarrow> ('h, 'pc) PredictorHistory list \<Rightarrow> ('s, 'h, 'pc) BPredUnit \<Rightarrow> ('s, 'h, 'pc) BPredUnit result" where
  "set_predHist tid ph u = bindR (arr_set (bp_predHist u) tid ph) (\<lambda>hs. Ok (u\<lparr>bp_predHist := hs\<rparr>))"

section \<open>Prediction\<close>

text \<open>The branches of \<^verbatim>\<open>predict\<close>: each gives the prediction, the target, the record and the unit.\<close>

type_synonym ('s, 'h, 'pc) prediction = "bool \<times> 'pc \<times> ('h, 'pc) PredictorHistory \<times> ('s, 'h, 'pc) BPredUnit"

definition predict_direction ::
  "('s, 'h) BPredOps \<Rightarrow> StaticInst \<Rightarrow> ThreadID \<Rightarrow> Addr \<Rightarrow> ('s, 'h, 'pc) BPredUnit \<Rightarrow> (bool \<times> 'h option \<times> ('s, 'h, 'pc) BPredUnit) result" where
  "predict_direction ops inst tid pc u =
     (if si_isUncondCtrl inst
      then bindR (dp_uncondBranch ops tid pc (bp_dir u)) (\<lambda>(h, s). Ok (True, h, u\<lparr>bp_dir := s\<rparr>))
      else bindR (dp_lookup ops tid pc (bp_dir u)) (\<lambda>(t, h, s). Ok (t, h, u\<lparr>bp_dir := s, bp_condPredicted := Suc (bp_condPredicted u)\<rparr>)))"

definition predict_return ::
  "'pc TheISA \<Rightarrow> ThreadID \<Rightarrow> 'pc \<Rightarrow> ('h, 'pc) PredictorHistory \<Rightarrow> ('s, 'h, 'pc) BPredUnit \<Rightarrow> ('s, 'h, 'pc) prediction result" where
  "predict_return isa tid pc rec u =
     bindR (arr_get (bp_RAS u) tid) (\<lambda>r.
     bindR (ras_top r) (\<lambda>rasTop.
     bindR (with_RAS tid (\<lambda>r. Ok (ras_pop r)) u) (\<lambda>u.
       Ok (True, isa_buildRetPC isa pc rasTop,
           rec\<lparr>ph_wasReturn := True, ph_usedRAS := True, ph_RASIndex := ras_topIdx r, ph_RASTarget := rasTop\<rparr>,
           u\<lparr>bp_usedRAS := Suc (bp_usedRAS u)\<rparr>))))"

text \<open>A conditional call whose target is not known takes its entry off the stack again.\<close>

definition unpush :: "StaticInst \<Rightarrow> ThreadID \<Rightarrow> ('h, 'pc) PredictorHistory \<Rightarrow> ('s, 'h, 'pc) BPredUnit \<Rightarrow>
     (('h, 'pc) PredictorHistory \<times> ('s, 'h, 'pc) BPredUnit) result" where
  "unpush inst tid rec u =
     (if si_isCall inst \<and> \<not> si_isUncondCtrl inst
      then bindR (with_RAS tid (\<lambda>r. Ok (ras_pop r)) u) (\<lambda>u. Ok (rec\<lparr>ph_pushedRAS := False\<rparr>, u)) else Ok (rec, u))"

definition predict_direct ::
  "('s, 'h) BPredOps \<Rightarrow> 'pc TheISA \<Rightarrow> StaticInst \<Rightarrow> ThreadID \<Rightarrow> 'pc \<Rightarrow> ('h, 'pc) PredictorHistory \<Rightarrow> ('s, 'h, 'pc) BPredUnit \<Rightarrow>
     ('s, 'h, 'pc) prediction result" where
  "predict_direct ops isa inst tid pc rec u =
     (let a = isa_instAddr isa pc in
      bindR (btb_valid a tid (bp_BTB u)) (\<lambda>v.
        if v then bindR (btb_lookup (isa_zeroPC isa) a tid (bp_BTB u)) (\<lambda>target. Ok (True, target, rec, u\<lparr>bp_BTBHits := Suc (bp_BTBHits u)\<rparr>))
        else bindR (if \<not> si_isCall inst \<and> \<not> si_isReturn inst
                    then bindR (dp_btbUpdate ops tid a (ph_bpHistory rec) (bp_dir u)) (\<lambda>s. Ok (rec, u\<lparr>bp_dir := s\<rparr>))
                    else unpush inst tid rec u) (\<lambda>(rec, u).
             Ok (False, isa_advancePC isa inst pc, rec, u))))"

definition predict_indirect ::
  "('s, 'h) BPredOps \<Rightarrow> 'pc TheISA \<Rightarrow> StaticInst \<Rightarrow> u64 \<Rightarrow> ThreadID \<Rightarrow> 'pc \<Rightarrow> ('h, 'pc) PredictorHistory \<Rightarrow> ('s, 'h, 'pc) BPredUnit \<Rightarrow>
     ('s, 'h, 'pc) prediction result" where
  "predict_indirect ops isa inst seqNum tid pc rec u =
     (let a = isa_instAddr isa pc; rec = rec\<lparr>ph_wasIndirect := True\<rparr>; u = u\<lparr>bp_indirectLookups := Suc (bp_indirectLookups u)\<rparr> in
      bindR (dp_getGHR ops tid (ph_bpHistory rec)) (\<lambda>ghr.
      bindR (ip_lookup a ghr tid (bp_iPred u)) (\<lambda>t.
      bindR (case t of
               Some target \<Rightarrow> Ok (True, target, rec, u\<lparr>bp_indirectHits := Suc (bp_indirectHits u)\<rparr>)
             | None \<Rightarrow>
                 bindR (unpush inst tid rec (u\<lparr>bp_indirectMisses := Suc (bp_indirectMisses u)\<rparr>)) (\<lambda>(rec, u).
                   Ok (False, isa_advancePC isa inst pc, rec, u))) (\<lambda>(taken, target, rec, u).
      bindR (ip_recordIndirect a (isa_instAddr isa target) seqNum tid (bp_iPred u)) (\<lambda>ip.
        Ok (taken, target, rec, u\<lparr>bp_iPred := ip\<rparr>))))))"

definition predict_target ::
  "('s, 'h) BPredOps \<Rightarrow> 'pc TheISA \<Rightarrow> StaticInst \<Rightarrow> u64 \<Rightarrow> ThreadID \<Rightarrow> 'pc \<Rightarrow> ('h, 'pc) PredictorHistory \<Rightarrow> ('s, 'h, 'pc) BPredUnit \<Rightarrow>
     ('s, 'h, 'pc) prediction result" where
  "predict_target ops isa inst seqNum tid pc rec u =
     bindR (if si_isCall inst
            then bindR (with_RAS tid (ras_push pc) (u\<lparr>bp_BTBLookups := Suc (bp_BTBLookups u)\<rparr>)) (\<lambda>u.
                   Ok (rec\<lparr>ph_pushedRAS := True, ph_wasCall := True\<rparr>, u))
            else Ok (rec, u\<lparr>bp_BTBLookups := Suc (bp_BTBLookups u)\<rparr>)) (\<lambda>(rec, u).
       if si_isDirectCtrl inst \<or> \<not> bp_useIndirect u then predict_direct ops isa inst tid pc rec u
       else predict_indirect ops isa inst seqNum tid pc rec u)"

definition bp_predict ::
  "('s, 'h) BPredOps \<Rightarrow> 'pc TheISA \<Rightarrow> StaticInst \<Rightarrow> u64 \<Rightarrow> 'pc \<Rightarrow> ThreadID \<Rightarrow> ('s, 'h, 'pc) BPredUnit \<Rightarrow>
     (bool \<times> 'pc \<times> ('s, 'h, 'pc) BPredUnit) result" where
  "bp_predict ops isa inst seqNum pc tid u =
     bindR (predict_direction ops inst tid (isa_instAddr isa pc) (u\<lparr>bp_lookups := Suc (bp_lookups u)\<rparr>)) (\<lambda>(taken, h, u).
       let rec = new_PredictorHistory (isa_zeroPC isa) seqNum (isa_instAddr isa pc) taken h tid in
       bindR (if \<not> taken
              then Ok (False, isa_advancePC isa inst pc, if si_isReturn inst then rec\<lparr>ph_wasReturn := True\<rparr> else rec, u)
              else if si_isReturn inst then predict_return isa tid pc rec u
              else predict_target ops isa inst seqNum tid pc rec u) (\<lambda>(taken, target, rec, u).
       bindR (arr_get (bp_predHist u) tid) (\<lambda>ph.
       bindR (set_predHist tid (rec # ph) u) (\<lambda>u. Ok (taken, target, u)))))"

section \<open>Commit\<close>

text \<open>The loop takes committed branches from the old end of the history.\<close>

fun commit_branches ::
  "('s, 'h) BPredOps \<Rightarrow> u64 \<Rightarrow> ThreadID \<Rightarrow> ('h, 'pc) PredictorHistory list \<Rightarrow> 's \<Rightarrow> (('h, 'pc) PredictorHistory list \<times> 's) result" where
  "commit_branches ops done_sn tid [] s = Ok ([], s)"
| "commit_branches ops done_sn tid (e # es) s =
     (if ph_seqNum e \<le> done_sn
      then bindR (dp_update ops tid (ph_pc e) (ph_predTaken e) (ph_bpHistory e) False s) (commit_branches ops done_sn tid es)
      else Ok (e # es, s))"

definition bp_update :: "('s, 'h) BPredOps \<Rightarrow> u64 \<Rightarrow> ThreadID \<Rightarrow> ('s, 'h, 'pc) BPredUnit \<Rightarrow> ('s, 'h, 'pc) BPredUnit result" where
  "bp_update ops done_sn tid u =
     bindR (ip_commit done_sn tid (bp_iPred u)) (\<lambda>ip.
     bindR (arr_get (bp_predHist u) tid) (\<lambda>ph.
     bindR (commit_branches ops done_sn tid (rev ph) (bp_dir u)) (\<lambda>(rest, s).
       set_predHist tid (rev rest) (u\<lparr>bp_iPred := ip, bp_dir := s\<rparr>))))"

section \<open>Squash\<close>

definition squash_RAS :: "('h, 'pc) PredictorHistory \<Rightarrow> 'pc ReturnAddrStack \<Rightarrow> 'pc ReturnAddrStack result" where
  "squash_RAS e r =
     (if ph_usedRAS e then ras_restore (ph_RASIndex e) (ph_RASTarget e) r
      else if ph_wasCall e \<and> ph_pushedRAS e then Ok (ras_pop r) else Ok r)"

fun squash_branches ::
  "('s, 'h) BPredOps \<Rightarrow> u64 \<Rightarrow> ThreadID \<Rightarrow> ('h, 'pc) PredictorHistory list \<Rightarrow> 's \<times> 'pc ReturnAddrStack \<Rightarrow>
     (('h, 'pc) PredictorHistory list \<times> 's \<times> 'pc ReturnAddrStack) result" where
  "squash_branches ops squashed_sn tid [] sr = Ok ([], sr)"
| "squash_branches ops squashed_sn tid (e # es) (s, r) =
     (if ph_seqNum e > squashed_sn
      then bindR (squash_RAS e r) (\<lambda>r. bindR (dp_squash ops tid (ph_bpHistory e) s) (\<lambda>s.
             squash_branches ops squashed_sn tid es (s, r)))
      else Ok (e # es, s, r))"

definition bp_squash :: "('s, 'h) BPredOps \<Rightarrow> u64 \<Rightarrow> ThreadID \<Rightarrow> ('s, 'h, 'pc) BPredUnit \<Rightarrow> ('s, 'h, 'pc) BPredUnit result" where
  "bp_squash ops squashed_sn tid u =
     bindR (arr_get (bp_predHist u) tid) (\<lambda>ph.
     bindR (ip_squash squashed_sn tid (bp_iPred u)) (\<lambda>ip.
     bindR (arr_get (bp_RAS u) tid) (\<lambda>r.
     bindR (squash_branches ops squashed_sn tid ph (bp_dir u, r)) (\<lambda>(rest, s, r').
     bindR (arr_set (bp_RAS u) tid r') (\<lambda>rs.
       set_predHist tid rest (u\<lparr>bp_iPred := ip, bp_dir := s, bp_RAS := rs\<rparr>))))))"

text \<open>The corrections that \<^verbatim>\<open>squash\<close> makes for the mispredicted branch itself.\<close>

definition correct_taken ::
  "'pc TheISA \<Rightarrow> nat \<Rightarrow> u32 \<Rightarrow> 'pc \<Rightarrow> ThreadID \<Rightarrow> ('h, 'pc) PredictorHistory \<Rightarrow> ('s, 'h, 'pc) BPredUnit \<Rightarrow>
     (('h, 'pc) PredictorHistory \<times> ('s, 'h, 'pc) BPredUnit) result" where
  "correct_taken isa draw ghr corrTarget tid e u =
     bindR (if ph_wasReturn e \<and> \<not> ph_usedRAS e
            then bindR (with_RAS tid (\<lambda>r. Ok (ras_pop r)) u) (\<lambda>u. Ok (e\<lparr>ph_usedRAS := True\<rparr>, u)) else Ok (e, u)) (\<lambda>(e, u).
       if ph_wasIndirect e
       then bindR (ip_recordTarget (isa_instAddr isa) draw ghr corrTarget tid (bp_iPred u)) (\<lambda>ip.
              Ok (e, u\<lparr>bp_iPred := ip, bp_indirectMispredicted := Suc (bp_indirectMispredicted u)\<rparr>))
       else bindR (btb_update (ph_pc e) corrTarget tid (bp_BTB u)) (\<lambda>b. Ok (e, u\<lparr>bp_BTB := b\<rparr>)))"

definition correct_not_taken ::
  "ThreadID \<Rightarrow> ('h, 'pc) PredictorHistory \<Rightarrow> ('s, 'h, 'pc) BPredUnit \<Rightarrow> (('h, 'pc) PredictorHistory \<times> ('s, 'h, 'pc) BPredUnit) result" where
  "correct_not_taken tid e u =
     (if ph_usedRAS e
      then bindR (with_RAS tid (ras_restore (ph_RASIndex e) (ph_RASTarget e)) u) (\<lambda>u. Ok (e\<lparr>ph_usedRAS := False\<rparr>, u))
      else if ph_wasCall e \<and> ph_pushedRAS e
      then bindR (with_RAS tid (\<lambda>r. Ok (ras_pop r)) u) (\<lambda>u. Ok (e\<lparr>ph_pushedRAS := False\<rparr>, u))
      else Ok (e, u))"

definition bp_squash_branch ::
  "('s, 'h) BPredOps \<Rightarrow> 'pc TheISA \<Rightarrow> nat \<Rightarrow> u64 \<Rightarrow> 'pc \<Rightarrow> bool \<Rightarrow> ThreadID \<Rightarrow> ('s, 'h, 'pc) BPredUnit \<Rightarrow> ('s, 'h, 'pc) BPredUnit result" where
  "bp_squash_branch ops isa draw squashed_sn corrTarget actually_taken tid u =
     bindR (bp_squash ops squashed_sn tid (u\<lparr>bp_condIncorrect := Suc (bp_condIncorrect u)\<rparr>)) (\<lambda>u.
     bindR (arr_get (bp_predHist u) tid) (\<lambda>ph.
     case ph of [] \<Rightarrow> Ok u
     | e # es \<Rightarrow>
         bindR (assertR (ph_seqNum e = squashed_sn) AssertFail) (\<lambda>_.
           let u = (if ph_usedRAS e then u\<lparr>bp_RASIncorrect := Suc (bp_RASIncorrect u)\<rparr> else u) in
         bindR (dp_getGHR ops tid (ph_bpHistory e)) (\<lambda>ghr.
         bindR (dp_update ops tid (ph_pc e) actually_taken (ph_bpHistory e) True (bp_dir u)) (\<lambda>s.
           let e = e\<lparr>ph_predTaken := actually_taken\<rparr>; u = u\<lparr>bp_dir := s\<rparr> in
         bindR (if actually_taken then correct_taken isa draw ghr corrTarget tid e u else correct_not_taken tid e u) (\<lambda>(e, u).
           set_predHist tid (e # es) u))))))"

end
