(* ===== verification/Branch_Recover.thy ===== *)
theory Branch_Recover
  imports Branch_Unit
begin

text \<open>
  Speculation can be taken back: for every direction predictor that keeps the contract, whatever branches a thread predicts, commits,
  resolves and squashes, no operation of the branch prediction unit fails, and a squash brings the speculative histories back to where they were.
\<close>

section \<open>Targets\<close>

definition ras_ok :: "'pc ReturnAddrStack \<Rightarrow> bool" where
  "ras_ok r \<longleftrightarrow> length (ras_addrStack r) = unat (ras_numEntries r) \<and> ras_tos r < ras_numEntries r"

text \<open>The top of the stack moves around a ring.\<close>

lemma unat_incrTos:
  assumes "ras_tos r < ras_numEntries r"
  shows "unat (ras_tos (incrTos r)) = Suc (unat (ras_tos r)) mod unat (ras_numEntries r)"
proof -
  have "unat (ras_tos r + 1) = Suc (unat (ras_tos r))"
    using assms unat_less_u32 [of "ras_numEntries r"] by (simp add: word_less_nat_alt unat_word_ariths)
  then show ?thesis using assms by (auto simp: incrTos_def word_less_nat_alt word_unat_eq_iff mod_less mod_Suc)
qed

lemma unat_decrTos:
  assumes "ras_tos r < ras_numEntries r"
  shows "unat (ras_tos (decrTos r)) = (unat (ras_tos r) + unat (ras_numEntries r) - 1) mod unat (ras_numEntries r)"
proof -
  have n: "ras_numEntries r \<noteq> 0" using assms by auto
  show ?thesis
  proof (cases "ras_tos r = 0")
    case True
    then show ?thesis using unat_minus_one [OF n] n by (simp add: decrTos_def unat_gt_0)
  next
    case False
    have "0 < unat (ras_tos r)" using False by (simp add: unat_gt_0)
    then have "unat (ras_tos r) + unat (ras_numEntries r) - 1 = (unat (ras_tos r) - 1) + unat (ras_numEntries r)" by linarith
    moreover have "(unat (ras_tos r) - 1) mod unat (ras_numEntries r) = unat (ras_tos r) - 1" using assms by (simp add: word_less_nat_alt)
    ultimately show ?thesis using unat_minus_one [OF False] False by (simp only: decrTos_def mod_add_self2) simp
  qed
qed

lemma ras_ring: "ras_tos r < ras_numEntries r \<Longrightarrow> 0 < unat (ras_numEntries r)"
  by (metis unat_gt_0 word_not_simps(1))

lemma ras_incr: "ras_ok r \<Longrightarrow> ras_ok (incrTos r)"
  using unat_incrTos [of r] ras_ring [of r] by (simp add: ras_ok_def word_less_nat_alt) (simp add: incrTos_def)

lemma ras_decr: "ras_ok r \<Longrightarrow> ras_ok (decrTos r)"
  using unat_decrTos [of r] ras_ring [of r] by (simp add: ras_ok_def word_less_nat_alt) (simp add: decrTos_def)

lemma ras_pop_ok: "ras_ok r \<Longrightarrow> ras_ok (ras_pop r)"
  using ras_decr [of r] ras_decr [of "r\<lparr>ras_usedEntries := ras_usedEntries r - 1\<rparr>"] by (simp add: ras_pop_def ras_ok_def)

lemma ras_push_ok:
  assumes "ras_ok r"
  shows "\<exists>r'. ras_push pc r = Ok r' \<and> ras_ok r' \<and> ras_numEntries r' = ras_numEntries r"
  using ras_incr [OF assms] by (simp add: ras_push_def Let_def ras_ok_def word_less_nat_alt) (simp add: incrTos_def)

lemma ras_restore_ok:
  assumes "ras_ok r" "i < ras_numEntries r"
  shows "\<exists>r'. ras_restore i pc r = Ok r' \<and> ras_ok r' \<and> ras_numEntries r' = ras_numEntries r"
  using assms by (simp add: ras_restore_def ras_ok_def word_less_nat_alt)

lemma ras_pop_entries [simp]: "ras_numEntries (ras_pop r) = ras_numEntries r"
  by (simp add: ras_pop_def decrTos_def)

lemma ras_top_Ok: "ras_ok r \<Longrightarrow> ras_top r = Ok (ras_addrStack r ! unat (ras_tos r))"
  by (simp add: ras_top_def ras_ok_def word_less_nat_alt)

definition btb_ok :: "'pc DefaultBTB \<Rightarrow> bool" where
  "btb_ok b \<longleftrightarrow> (\<exists>k<32. btb_numEntries b = 2 ^ k) \<and> btb_idxMask b = btb_numEntries b - 1 \<and> length (btb_btb b) = unat (btb_numEntries b)"

lemma btb_index_less: "btb_ok b \<Longrightarrow> unat (btb_getIndex a tid b) < unat (btb_numEntries b)"
  using ucast_and_pow2_less by (auto simp: btb_ok_def btb_getIndex_def)

lemma btb_hit_Ok:
  "btb_ok b \<Longrightarrow> btb_hit a tid b = Ok (let e = btb_btb b ! unat (btb_getIndex a tid b) in
     if be_valid e \<and> btb_getTag a b = be_tag e \<and> be_tid e = tid then Some (be_target e) else None)"
  using btb_index_less [of b a tid] by (simp add: btb_hit_def word_less_nat_alt Let_def btb_ok_def)

lemma btb_update_Ok:
  assumes "btb_ok b"
  shows "\<exists>b'. btb_update a t tid b = Ok b' \<and> btb_ok b'"
  using btb_index_less [OF assms, of a tid] assms by (auto simp: btb_update_def word_less_nat_alt Let_def btb_ok_def)

definition ip_ok :: "'pc IndirectPredictor \<Rightarrow> bool" where
  "ip_ok ip \<longleftrightarrow> (\<exists>k<32. ip_numSets ip = 2 ^ k) \<and> ip_pathLength ip > 0 \<and> ip_tagBits ip < 31 \<and> ip_numWays ip > 0 \<and>
     length (ip_targetCache ip) = unat (ip_numSets ip) \<and> (\<forall>s\<in>set (ip_targetCache ip). length s = unat (ip_numWays ip))"

lemma ip_ok_threads [simp]: "ip_ok (ip\<lparr>ip_threadInfo := ts\<rparr>) = ip_ok ip"
  by (simp add: ip_ok_def)

lemma ip_getSetIndex_Ok:
  assumes "ip_ok ip" "0 \<le> tid" "tid < int (length (ip_threadInfo ip))"
  shows "\<exists>i. ip_getSetIndex a g tid ip = Ok i \<and> unat i < unat (ip_numSets ip)"
proof -
  obtain k where k: "k < 32" "ip_numSets ip = 2 ^ k" using assms(1) by (auto simp: ip_ok_def)
  have "0 < ip_numSets ip" using k by (simp add: word_less_nat_alt unat_2p_word)
  then obtain l where "floorLog2_32 (ip_numSets ip) = Ok l" using floorLog2_32_msb by blast
  moreover have "unat (x AND ucast (ip_numSets ip - 1)) < unat (ip_numSets ip)" for x :: u64
  proof -
    have "x AND ucast (ip_numSets ip - 1) = take_bit k x" using k
      by (intro bit_word_eqI) (auto simp: bit_simps bit_minus_1_iff mask_eq_exp_minus_1 [symmetric])
    then show ?thesis using k by (simp add: unsigned_take_bit_eq unat_2p_word)
  qed
  ultimately show ?thesis using assms by (auto simp: ip_getSetIndex_def arr_get_def Let_def ip_ok_def)
qed

lemma ip_getTag_Ok: "ip_ok ip \<Longrightarrow> \<exists>t. ip_getTag a ip = Ok t"
  by (simp add: ip_getTag_def ip_ok_def)

lemma arr_get_word64: "unat (i :: u64) < length xs \<Longrightarrow> arr_get xs (uint i) = Ok (xs ! unat i)"
  by (metis arr_get_nat uint_nat)

lemma arr_set_word64: "unat (i :: u64) < length xs \<Longrightarrow> arr_set xs (uint i) v = Ok (xs[unat i := v])"
  by (metis arr_set_nat uint_nat)

lemma ip_lookup_Ok:
  assumes "ip_ok ip" "0 \<le> tid" "tid < int (length (ip_threadInfo ip))"
  shows "\<exists>t. ip_lookup a g tid ip = Ok t"
proof -
  obtain i t where i: "ip_getSetIndex a g tid ip = Ok i" "unat i < unat (ip_numSets ip)" "ip_getTag a ip = Ok t"
    using ip_getSetIndex_Ok [OF assms] ip_getTag_Ok [OF assms(1)] by blast
  moreover have "length (ip_targetCache ip) = unat (ip_numSets ip)" using assms(1) by (simp add: ip_ok_def)
  ultimately show ?thesis by (simp add: ip_lookup_def word_less_nat_alt arr_get_word64)
qed

text \<open>The path of a thread through indirect branches.\<close>

definition ip_path :: "ThreadID \<Rightarrow> 'pc IndirectPredictor \<Rightarrow> HistoryEntry list" where
  "ip_path tid ip = ti_pathHist (ip_threadInfo ip ! nat tid)"

lemma ip_set_thread_Ok:
  assumes "0 \<le> tid" "tid < int (length (ip_threadInfo ip))"
  shows "ip_set_thread tid t ip = Ok (ip\<lparr>ip_threadInfo := (ip_threadInfo ip)[nat tid := t]\<rparr>)"
    "ip_path tid (ip\<lparr>ip_threadInfo := (ip_threadInfo ip)[nat tid := t]\<rparr>) = ti_pathHist t"
  using assms by (simp_all add: ip_set_thread_def arr_set_def ip_path_def nat_less_iff)

definition ip_same :: "'pc IndirectPredictor \<Rightarrow> 'pc IndirectPredictor \<Rightarrow> bool" where
  "ip_same ip ip' \<longleftrightarrow> ip_ok ip' \<and> length (ip_threadInfo ip') = length (ip_threadInfo ip)"

lemma ip_recordIndirect_Ok:
  assumes "ip_ok ip" "0 \<le> tid" "tid < int (length (ip_threadInfo ip))"
  shows "\<exists>ip' x. ip_recordIndirect a t sn tid ip = Ok ip' \<and> ip_same ip ip' \<and> ip_path tid ip' = ip_path tid ip @ [x] \<and> he_seqNum x = sn"
  using assms by (simp add: ip_recordIndirect_def arr_get_def ip_set_thread_Ok ip_same_def) (simp add: ip_path_def)

lemma ip_commit_Ok:
  assumes "ip_ok ip" "0 \<le> tid" "tid < int (length (ip_threadInfo ip))"
  shows "\<exists>ip'. ip_commit sn tid ip = Ok ip' \<and> ip_same ip ip' \<and>
    (ip_path tid ip' = ip_path tid ip \<or> (\<exists>i<length (ip_path tid ip). he_seqNum (ip_path tid ip ! i) \<le> sn \<and> ip_path tid ip' = tl (ip_path tid ip)))"
  using assms by (auto simp: ip_commit_def arr_get_def ip_set_thread_Ok ip_same_def) (auto simp: ip_path_def)

lemma ip_squash_Ok:
  assumes "ip_ok ip" "0 \<le> tid" "tid < int (length (ip_threadInfo ip))"
  shows "\<exists>ip'. ip_squash sn tid ip = Ok ip' \<and> ip_same ip ip' \<and> ip_path tid ip' = takeWhile (\<lambda>e. he_seqNum e \<le> sn) (ip_path tid ip)"
  using assms by (simp add: ip_squash_def arr_get_def ip_set_thread_Ok ip_same_def) (simp add: ip_path_def)

lemma length_set_first [simp]: "length (set_first P f xs) = length xs"
  by (induction xs) auto

lemma ip_recordTarget_Ok:
  assumes "ip_ok ip" "0 \<le> tid" "tid < int (length (ip_threadInfo ip))" "ip_path tid ip \<noteq> []"
  shows "\<exists>ip' x. ip_recordTarget instAddr draw g t tid ip = Ok ip' \<and> ip_same ip ip' \<and>
    ip_path tid ip' = butlast (ip_path tid ip) @ [x] \<and> he_seqNum x = he_seqNum (last (ip_path tid ip))"
proof -
  define th where "th = ip_threadInfo ip ! nat tid"
  define e where "e = last (ti_pathHist th)"
  define q where "q = ip\<lparr>ip_threadInfo := (ip_threadInfo ip)[nat tid := th\<lparr>ti_pathHist := butlast (ti_pathHist th)\<rparr>]\<rparr>"
  define r where "r = q\<lparr>ip_threadInfo := (ip_threadInfo q)[nat tid := th\<lparr>ti_pathHist := butlast (ti_pathHist th) @ [e\<lparr>he_targetAddr := instAddr t\<rparr>]\<rparr>]\<rparr>"
  have q: "ip_ok q" "length (ip_threadInfo q) = length (ip_threadInfo ip)" using assms(1) by (simp_all add: q_def)
  have tq: "tid < int (length (ip_threadInfo q))" using assms(3) q(2) by simp
  obtain i tag where i: "ip_getSetIndex (he_pcAddr e) g tid q = Ok i" "unat i < unat (ip_numSets q)" "ip_getTag (he_pcAddr e) q = Ok tag"
    using ip_getSetIndex_Ok [OF q(1) assms(2) tq] ip_getTag_Ok [OF q(1)] by blast
  have r: "ip_ok r" "length (ip_threadInfo r) = length (ip_threadInfo ip)" "ip_numSets r = ip_numSets q" using q by (simp_all add: r_def)
  have c: "length (ip_targetCache q) = unat (ip_numSets q)" "\<forall>s\<in>set (ip_targetCache q). length s = unat (ip_numWays q)" "0 < unat (ip_numWays q)"
    using q(1) by (simp_all add: ip_ok_def word_less_nat_alt)
  let ?s = "ip_targetCache q ! unat i"
  have s: "length ?s = unat (ip_numWays q)" using c i(2) by simp
  have w: "draw mod unat (ip_numWays q) < length ?s" "ip_numWays q \<noteq> 0" using s c(3) by auto
  obtain s' where s': "(if list_ex (\<lambda>w. ie_tag w = tag) ?s then Ok (set_first (\<lambda>w. ie_tag w = tag) (\<lambda>w. w\<lparr>ie_target := t\<rparr>) ?s)
      else if ip_numWays q = 0 then Error DivByZero
      else arr_set ?s (int (draw mod unat (ip_numWays q))) \<lparr>ie_tag = tag, ie_target = t\<rparr>) = Ok s'" "length s' = unat (ip_numWays q)"
    using s w by (cases "list_ex (\<lambda>w. ie_tag w = tag) ?s") auto
  have "ip_recordTarget instAddr draw g t tid ip = Ok (r\<lparr>ip_targetCache := (ip_targetCache q)[unat i := s']\<rparr>)"
    unfolding r_def using assms(2-4) i c(1) s'(1) w ip_set_thread_Ok(1) [OF assms(2) tq]
    by (cases "list_ex (\<lambda>w. ie_tag w = tag) ?s") (simp_all add: ip_recordTarget_def arr_get_def [of "ip_threadInfo ip"] ip_set_thread_Ok(1) [OF assms(2,3)] ip_path_def
        th_def [symmetric] e_def [symmetric] q_def [symmetric] word_less_nat_alt arr_get_word64 arr_set_word64 Let_def)
  moreover have "ip_ok (r\<lparr>ip_targetCache := (ip_targetCache q)[unat i := s']\<rparr>)"
    using q(1) s'(2) set_update_subset_insert [of "ip_targetCache q" "unat i" s'] by (auto simp: ip_ok_def r_def)
  ultimately show ?thesis using r(2) assms(2,3)
    by (auto simp: ip_same_def ip_path_def r_def q_def th_def e_def nat_less_iff)
qed

section \<open>The invariant of the unit\<close>

abbreviation bp_hist :: "ThreadID \<Rightarrow> ('s, 'h, 'pc) BPredUnit \<Rightarrow> ('h, 'pc) PredictorHistory list" where
  "bp_hist tid u \<equiv> bp_predHist u ! nat tid"

abbreviation bp_stack :: "ThreadID \<Rightarrow> ('s, 'h, 'pc) BPredUnit \<Rightarrow> 'pc ReturnAddrStack" where
  "bp_stack tid u \<equiv> bp_RAS u ! nat tid"

text \<open>The parts of the unit other than the history of the thread.\<close>

definition bp_parts :: "ThreadID \<Rightarrow> ('s, 'h, 'pc) BPredUnit \<Rightarrow> bool" where
  "bp_parts tid u \<longleftrightarrow> 0 \<le> tid \<and> tid < int (length (bp_predHist u)) \<and> tid < int (length (bp_RAS u)) \<and>
     tid < int (length (ip_threadInfo (bp_iPred u))) \<and> ras_ok (bp_stack tid u) \<and> btb_ok (bp_BTB u) \<and> ip_ok (bp_iPred u)"

text \<open>Branches are in the order of their sequence numbers, and every indirect one is on the path.\<close>

definition bp_ordered :: "u32 \<Rightarrow> HistoryEntry list \<Rightarrow> ('h, 'pc) PredictorHistory list \<Rightarrow> bool" where
  "bp_ordered n path es \<longleftrightarrow> sorted_wrt (\<lambda>d e. ph_seqNum e < ph_seqNum d) es \<and> sorted_wrt (\<lambda>x y. he_seqNum x < he_seqNum y) path \<and>
     (\<forall>e\<in>set es. ph_RASIndex e < n \<and> (ph_wasIndirect e \<longrightarrow> ph_seqNum e \<in> he_seqNum ` set path))"

lemma with_RAS_Ok:
  "bp_parts tid u \<Longrightarrow> f (bp_stack tid u) = Ok r \<Longrightarrow> with_RAS tid f u = Ok (u\<lparr>bp_RAS := (bp_RAS u)[nat tid := r]\<rparr>)"
  by (simp add: bp_parts_def with_RAS_def arr_get_def arr_set_def)

lemma set_predHist_Ok:
  "bp_parts tid u \<Longrightarrow> set_predHist tid es u = Ok (u\<lparr>bp_predHist := (bp_predHist u)[nat tid := es]\<rparr>)"
  by (simp add: bp_parts_def set_predHist_def arr_set_def)

lemma get_predHist_Ok: "bp_parts tid u \<Longrightarrow> arr_get (bp_predHist u) tid = Ok (bp_hist tid u)"
  by (simp add: bp_parts_def arr_get_def)

lemma bp_parts_RAS: "bp_parts tid u \<Longrightarrow> ras_ok r \<Longrightarrow> bp_parts tid (u\<lparr>bp_RAS := (bp_RAS u)[nat tid := r]\<rparr>)"
  by (simp add: bp_parts_def nat_less_iff)

section \<open>Predictions\<close>

text \<open>What choosing a target changes: the stack, the path of indirect branches and the record of the branch.\<close>

definition target_step ::
  "ThreadID \<Rightarrow> ('h, 'pc) PredictorHistory \<Rightarrow> ('s, 'h, 'pc) BPredUnit \<Rightarrow> ('h, 'pc) PredictorHistory \<Rightarrow> ('s, 'h, 'pc) BPredUnit \<Rightarrow> bool" where
  "target_step tid d u e u' \<longleftrightarrow> bp_parts tid u' \<and> bp_predHist u' = bp_predHist u \<and>
     ras_numEntries (bp_stack tid u') = ras_numEntries (bp_stack tid u) \<and> ph_seqNum e = ph_seqNum d \<and> ph_pc e = ph_pc d \<and>
     ph_bpHistory e = ph_bpHistory d \<and> ph_RASIndex e < ras_numEntries (bp_stack tid u) \<and>
     (if ph_wasIndirect e then \<exists>x. ip_path tid (bp_iPred u') = ip_path tid (bp_iPred u) @ [x] \<and> he_seqNum x = ph_seqNum d
      else ip_path tid (bp_iPred u') = ip_path tid (bp_iPred u))"

lemma target_step_refl:
  "bp_parts tid u \<Longrightarrow> ph_RASIndex e < ras_numEntries (bp_stack tid u) \<Longrightarrow> \<not> ph_wasIndirect e \<Longrightarrow> target_step tid e u e u"
  by (simp add: target_step_def)

lemma nth_stack [simp]: "bp_parts tid u \<Longrightarrow> (bp_RAS u)[nat tid := r] ! nat tid = r"
  by (simp add: bp_parts_def nat_less_iff)

lemma predict_return_Ok:
  assumes "bp_parts tid u" "\<not> ph_wasIndirect d"
  shows "\<exists>t e u'. predict_return isa tid pc d u = Ok (True, t, e, u') \<and> target_step tid d u e u' \<and> bp_dir u' = bp_dir u"
proof -
  have r: "ras_ok (bp_stack tid u)" "arr_get (bp_RAS u) tid = Ok (bp_stack tid u)" using assms by (auto simp: bp_parts_def arr_get_def)
  then have t: "ras_topIdx (bp_stack tid u) < ras_numEntries (bp_stack tid u)" by (simp add: ras_topIdx_def ras_ok_def)
  show ?thesis using assms r(2) t ras_top_Ok [OF r(1)] ras_pop_ok [OF r(1)]
    by (auto simp: predict_return_def with_RAS_Ok [OF assms(1)] target_step_def) (simp add: bp_parts_def nat_less_iff)
qed

definition stack_step ::
  "ThreadID \<Rightarrow> ('h, 'pc) PredictorHistory \<Rightarrow> ('s, 'h, 'pc) BPredUnit \<Rightarrow> ('h, 'pc) PredictorHistory \<Rightarrow> ('s, 'h, 'pc) BPredUnit \<Rightarrow> bool" where
  "stack_step tid d u e u' \<longleftrightarrow> bp_parts tid u' \<and> bp_predHist u' = bp_predHist u \<and> bp_iPred u' = bp_iPred u \<and> bp_dir u' = bp_dir u \<and>
     bp_BTB u' = bp_BTB u \<and> bp_useIndirect u' = bp_useIndirect u \<and> ras_numEntries (bp_stack tid u') = ras_numEntries (bp_stack tid u) \<and>
     ph_seqNum e = ph_seqNum d \<and> ph_pc e = ph_pc d \<and> ph_bpHistory e = ph_bpHistory d \<and> ph_RASIndex e = ph_RASIndex d \<and>
     ph_wasIndirect e = ph_wasIndirect d"

lemma unpush_Ok:
  assumes "bp_parts tid u"
  shows "\<exists>e u'. unpush inst tid d u = Ok (e, u') \<and> stack_step tid d u e u'"
proof (cases "si_isCall inst \<and> \<not> si_isUncondCtrl inst")
  case True
  have "ras_ok (ras_pop (bp_stack tid u))" using ras_pop_ok [of "bp_stack tid u"] assms by (simp add: bp_parts_def)
  from bp_parts_RAS [OF assms this] True show ?thesis using assms by (simp add: unpush_def with_RAS_Ok [OF assms] stack_step_def)
next
  case False
  then show ?thesis using assms by (auto simp: unpush_def stack_step_def)
qed

lemma push_call_Ok:
  assumes "bp_parts tid u"
  shows "\<exists>e u'. (if si_isCall inst
      then bindR (with_RAS tid (ras_push pc) (u\<lparr>bp_BTBLookups := Suc (bp_BTBLookups u)\<rparr>)) (\<lambda>u. Ok (d\<lparr>ph_pushedRAS := True, ph_wasCall := True\<rparr>, u))
      else Ok (d, u\<lparr>bp_BTBLookups := Suc (bp_BTBLookups u)\<rparr>)) = Ok (e, u') \<and> stack_step tid d u e u'"
proof (cases "si_isCall inst")
  case True
  let ?u = "u\<lparr>bp_BTBLookups := Suc (bp_BTBLookups u)\<rparr>"
  have p: "bp_parts tid ?u" using assms by (simp add: bp_parts_def)
  obtain r where r: "ras_push pc (bp_stack tid ?u) = Ok r" "ras_ok r" "ras_numEntries r = ras_numEntries (bp_stack tid u)"
    using ras_push_ok [of "bp_stack tid ?u"] p by (auto simp: bp_parts_def)
  from bp_parts_RAS [OF p r(2)] True r(3) show ?thesis using assms by (simp add: with_RAS_Ok [where f = "ras_push pc", OF p r(1)] stack_step_def)
next
  case False
  then show ?thesis using assms by (auto simp: stack_step_def bp_parts_def)
qed

text \<open>The instruction is not an unconditional jump whose target the branch target buffer has yet to learn.\<close>

definition jump_known :: "'pc TheISA \<Rightarrow> StaticInst \<Rightarrow> 'pc \<Rightarrow> ThreadID \<Rightarrow> ('s, 'h, 'pc) BPredUnit \<Rightarrow> bool" where
  "jump_known isa inst pc tid u \<longleftrightarrow> \<not> si_isUncondCtrl inst \<or> si_isCall inst \<or> si_isReturn inst \<or>
     \<not> si_isDirectCtrl inst \<and> bp_useIndirect u \<or> btb_valid (isa_instAddr isa pc) tid (bp_BTB u) = Ok True"

definition bp_ok ::
  "('s \<Rightarrow> bool) \<Rightarrow> ('s \<Rightarrow> 'c) \<Rightarrow> ('c \<Rightarrow> nat) \<Rightarrow> ('c \<Rightarrow> Addr \<Rightarrow> 'h option \<Rightarrow> bool) \<Rightarrow> ThreadID \<Rightarrow> ('s, 'h, 'pc) BPredUnit \<Rightarrow> bool" where
  "bp_ok ok cfg threads made tid u \<longleftrightarrow> bp_parts tid u \<and> ok (bp_dir u) \<and> tid < int (threads (cfg (bp_dir u))) \<and>
     bp_ordered (ras_numEntries (bp_stack tid u)) (ip_path tid (bp_iPred u)) (bp_hist tid u) \<and>
     (\<forall>e\<in>set (bp_hist tid u). made (cfg (bp_dir u)) (ph_pc e) (ph_bpHistory e))"

lemma bp_ordered_Cons:
  assumes "bp_ordered n path es" "\<forall>e\<in>set es. ph_seqNum e < ph_seqNum d" "\<forall>x\<in>set path. he_seqNum x < ph_seqNum d" "ph_RASIndex d < n"
    "if ph_wasIndirect d then \<exists>x. path' = path @ [x] \<and> he_seqNum x = ph_seqNum d else path' = path"
  shows "bp_ordered n path' (d # es)"
  using assms by (auto simp: bp_ordered_def sorted_wrt_append split: if_splits)

lemma sorted_wrt_nth_hd: "sorted_wrt (\<lambda>x y. f x < (f y :: u64)) xs \<Longrightarrow> i < length xs \<Longrightarrow> f (hd xs) \<le> f (xs ! i)"
  by (cases xs; cases i) (auto dest: nth_mem intro: less_imp_le)

text \<open>Committing drops the old end of the history and at most the oldest branch of the path, which has committed.\<close>

lemma bp_ordered_commit:
  assumes "bp_ordered n path es" "path' = path \<or> (\<exists>i<length path. he_seqNum (path ! i) \<le> sn \<and> path' = tl path)"
  shows "bp_ordered n path' (takeWhile (\<lambda>e. sn < ph_seqNum e) es)"
proof -
  have o: "sorted_wrt (\<lambda>d e. ph_seqNum e < ph_seqNum d) es" "sorted_wrt (\<lambda>x y. he_seqNum x < he_seqNum y) path"
    "\<forall>e\<in>set es. ph_RASIndex e < n \<and> (ph_wasIndirect e \<longrightarrow> ph_seqNum e \<in> he_seqNum ` set path)" using assms(1) by (auto simp: bp_ordered_def)
  have "sorted_wrt (\<lambda>x y. he_seqNum x < he_seqNum y) path'" using assms(2) o(2) by (cases path) auto
  moreover have "ph_seqNum e \<in> he_seqNum ` set path'" if "e \<in> set es" "ph_wasIndirect e" "sn < ph_seqNum e" for e
  proof (cases "path' = path")
    case False
    then obtain i where i: "i < length path" "he_seqNum (path ! i) \<le> sn" "path' = tl path" using assms(2) by blast
    then have "he_seqNum (hd path) \<le> sn" using sorted_wrt_nth_hd [OF o(2) i(1)] by simp
    moreover have "path \<noteq> []" using i(1) by auto
    ultimately show ?thesis using o(3) that i(3) by (cases path) auto
  qed (use o(3) that in auto)
  moreover have "sorted_wrt (\<lambda>d e. ph_seqNum e < ph_seqNum d) (takeWhile (\<lambda>e. sn < ph_seqNum e) es)"
    using o(1) by (metis sorted_wrt_append takeWhile_dropWhile_id)
  ultimately show ?thesis using o(3) by (auto simp: bp_ordered_def dest: set_takeWhileD)
qed

lemma bp_ordered_squash:
  assumes "bp_ordered n path es"
  shows "bp_ordered n (takeWhile (\<lambda>x. he_seqNum x \<le> sn) path) (dropWhile (\<lambda>e. sn < ph_seqNum e) es)"
proof -
  have o: "sorted_wrt (\<lambda>d e. ph_seqNum e < ph_seqNum d) es" "sorted_wrt (\<lambda>x y. he_seqNum x < he_seqNum y) path"
    "\<forall>e\<in>set es. ph_RASIndex e < n \<and> (ph_wasIndirect e \<longrightarrow> ph_seqNum e \<in> he_seqNum ` set path)" using assms by (auto simp: bp_ordered_def)
  have s: "sorted_wrt (\<lambda>d e. ph_seqNum e < ph_seqNum d) (dropWhile (\<lambda>e. sn < ph_seqNum e) es)"
    "sorted_wrt (\<lambda>x y. he_seqNum x < he_seqNum y) (takeWhile (\<lambda>x. he_seqNum x \<le> sn) path)"
    using o(1,2) by (metis sorted_wrt_append takeWhile_dropWhile_id)+
  have d: "ph_seqNum e \<le> sn" if "e \<in> set (dropWhile (\<lambda>e. sn < ph_seqNum e) es)" for e
    using that s(1) hd_dropWhile [of "\<lambda>e. sn < ph_seqNum e" es]
    by (cases "dropWhile (\<lambda>e. sn < ph_seqNum e) es") (auto simp: not_less dest: less_imp_le order_trans)
  have t: "x \<in> set (takeWhile (\<lambda>x. he_seqNum x \<le> sn) path)" if "x \<in> set path" "he_seqNum x \<le> sn" for x
    using that o(2) by (induction path) (auto dest: less_imp_le order_trans)
  show ?thesis using o(3) s d t by (fastforce simp: bp_ordered_def dest: set_dropWhileD)
qed

lemma bp_ordered_path: "map he_seqNum path' = map he_seqNum path \<Longrightarrow> bp_ordered n path es \<Longrightarrow> bp_ordered n path' es"
proof -
  assume e: "map he_seqNum path' = map he_seqNum path"
  have "sorted_wrt (<) (map he_seqNum path') = sorted_wrt (<) (map he_seqNum path)" using e by simp
  then have "sorted_wrt (\<lambda>x y. he_seqNum x < he_seqNum y) path' = sorted_wrt (\<lambda>x y. he_seqNum x < he_seqNum y) path" by (simp only: sorted_wrt_map)
  moreover have "he_seqNum ` set path' = he_seqNum ` set path" using arg_cong [OF e, of set] by simp
  ultimately show "bp_ordered n path es \<Longrightarrow> bp_ordered n path' es" by (simp add: bp_ordered_def)
qed

lemma bp_ordered_replace:
  "bp_ordered n path (e # es) \<Longrightarrow> ph_seqNum d = ph_seqNum e \<Longrightarrow> ph_RASIndex d = ph_RASIndex e \<Longrightarrow> ph_wasIndirect d = ph_wasIndirect e \<Longrightarrow>
    bp_ordered n path (d # es)"
  by (simp add: bp_ordered_def)

text \<open>What correcting the mispredicted branch changes, besides the direction predictor.\<close>

definition correct_step ::
  "ThreadID \<Rightarrow> ('h, 'pc) PredictorHistory \<Rightarrow> ('s, 'h, 'pc) BPredUnit \<Rightarrow> ('h, 'pc) PredictorHistory \<Rightarrow> ('s, 'h, 'pc) BPredUnit \<Rightarrow> bool" where
  "correct_step tid d u e u' \<longleftrightarrow> bp_parts tid u' \<and> bp_predHist u' = bp_predHist u \<and> bp_dir u' = bp_dir u \<and>
     map he_seqNum (ip_path tid (bp_iPred u')) = map he_seqNum (ip_path tid (bp_iPred u)) \<and>
     ras_numEntries (bp_stack tid u') = ras_numEntries (bp_stack tid u) \<and>
     ph_seqNum e = ph_seqNum d \<and> ph_pc e = ph_pc d \<and> ph_bpHistory e = ph_bpHistory d \<and> ph_RASIndex e = ph_RASIndex d \<and>
     ph_wasIndirect e = ph_wasIndirect d"

lemma correct_taken_Ok:
  assumes "bp_parts tid u" "ph_wasIndirect d \<longrightarrow> ip_path tid (bp_iPred u) \<noteq> []"
  shows "\<exists>e u'. correct_taken isa draw g t tid d u = Ok (e, u') \<and> correct_step tid d u e u'"
proof -
  have "\<exists>e v. (if ph_wasReturn d \<and> \<not> ph_usedRAS d
      then bindR (with_RAS tid (\<lambda>r. Ok (ras_pop r)) u) (\<lambda>u. Ok (d\<lparr>ph_usedRAS := True\<rparr>, u)) else Ok (d, u)) = Ok (e, v) \<and> stack_step tid d u e v"
    using assms(1) bp_parts_RAS [OF assms(1) ras_pop_ok [of "bp_stack tid u"]]
    by (auto simp: with_RAS_Ok [OF assms(1)] stack_step_def bp_parts_def nat_less_iff)
  then obtain e v where e: "(if ph_wasReturn d \<and> \<not> ph_usedRAS d
      then bindR (with_RAS tid (\<lambda>r. Ok (ras_pop r)) u) (\<lambda>u. Ok (d\<lparr>ph_usedRAS := True\<rparr>, u)) else Ok (d, u)) = Ok (e, v)" "stack_step tid d u e v" by blast
  have v: "bp_parts tid v" "0 \<le> tid" "tid < int (length (ip_threadInfo (bp_iPred v)))" "ip_ok (bp_iPred v)" "btb_ok (bp_BTB v)"
    using e(2) by (auto simp: stack_step_def bp_parts_def)
  show ?thesis
  proof (cases "ph_wasIndirect e")
    case True
    then have "ip_path tid (bp_iPred v) \<noteq> []" using assms(2) e(2) by (simp add: stack_step_def)
    from ip_recordTarget_Ok [OF v(4,2,3) this, of "isa_instAddr isa" draw g t] obtain ip' x where
      i: "ip_recordTarget (isa_instAddr isa) draw g t tid (bp_iPred v) = Ok ip'" "ip_same (bp_iPred v) ip'"
        "ip_path tid ip' = butlast (ip_path tid (bp_iPred v)) @ [x]" "he_seqNum x = he_seqNum (last (ip_path tid (bp_iPred v)))" by blast
    have "map he_seqNum (ip_path tid ip') = map he_seqNum (ip_path tid (bp_iPred v))"
      using i(3,4) \<open>ip_path tid (bp_iPred v) \<noteq> []\<close> by (metis append_butlast_last_id list.simps(8,9) map_append)
    then show ?thesis unfolding correct_taken_def e(1) using True i(1,2) e(2) by (auto simp: correct_step_def stack_step_def bp_parts_def ip_same_def)
  next
    case False
    from btb_update_Ok [OF v(5), of "ph_pc e" t tid] False e(2) show ?thesis unfolding correct_taken_def e(1)
      by (auto simp: correct_step_def stack_step_def bp_parts_def)
  qed
qed

lemma correct_not_taken_Ok:
  assumes "bp_parts tid u" "ph_RASIndex d < ras_numEntries (bp_stack tid u)"
  shows "\<exists>e u'. correct_not_taken tid d u = Ok (e, u') \<and> correct_step tid d u e u'"
proof -
  have ras: "ras_ok (bp_stack tid u)" using assms(1) by (simp add: bp_parts_def)
  obtain r where r: "ras_restore (ph_RASIndex d) (ph_RASTarget d) (bp_stack tid u) = Ok r" "ras_ok r" "ras_numEntries r = ras_numEntries (bp_stack tid u)"
    using ras_restore_ok [OF ras assms(2)] by blast
  show ?thesis using assms(1) r with_RAS_Ok [where f = "ras_restore (ph_RASIndex d) (ph_RASTarget d)", OF assms(1) r(1)]
      bp_parts_RAS [OF assms(1) r(2)] bp_parts_RAS [OF assms(1) ras_pop_ok [OF ras]]
    by (auto simp: correct_not_taken_def with_RAS_Ok [OF assms(1)] correct_step_def)
qed

lemma dropWhile_at:
  assumes "sorted_wrt (\<lambda>d e. ph_seqNum e < ph_seqNum d) es" "sn \<in> ph_seqNum ` set es"
  shows "\<exists>e ds. dropWhile (\<lambda>e. sn < ph_seqNum e) es = e # ds \<and> ph_seqNum e = sn"
  using assms by (induction es) auto

section \<open>Runs\<close>

text \<open>
  What can happen to a thread while its branches after \<open>lo\<close> are speculative: a new branch is predicted, branches up to \<open>lo\<close> commit,
  a branch turns out to be mispredicted, or branches are squashed. With \<open>known\<close>, jumps are only predicted once their target is known.
\<close>

inductive bp_step :: "('s, 'h) BPredOps \<Rightarrow> 'pc TheISA \<Rightarrow> bool \<Rightarrow> ThreadID \<Rightarrow> u64 \<Rightarrow> ('s, 'h, 'pc) BPredUnit \<Rightarrow> ('s, 'h, 'pc) BPredUnit \<Rightarrow> bool"
  for ops isa known tid lo where
  Predict: "lo < sn \<Longrightarrow> \<forall>e\<in>set (bp_hist tid u). ph_seqNum e < sn \<Longrightarrow> \<forall>x\<in>set (ip_path tid (bp_iPred u)). he_seqNum x < sn \<Longrightarrow>
    known \<longrightarrow> jump_known isa inst pc tid u \<Longrightarrow> bp_predict ops isa inst sn pc tid u = Ok (b, t, u') \<Longrightarrow> bp_step ops isa known tid lo u u'"
| Commit: "sn \<le> lo \<Longrightarrow> bp_update ops sn tid u = Ok u' \<Longrightarrow> bp_step ops isa known tid lo u u'"
| Resolve: "lo < sn \<Longrightarrow> sn \<in> ph_seqNum ` set (bp_hist tid u) \<Longrightarrow> bp_squash_branch ops isa draw sn t taken tid u = Ok u' \<Longrightarrow>
    bp_step ops isa known tid lo u u'"
| Squash: "lo \<le> sn \<Longrightarrow> bp_squash ops sn tid u = Ok u' \<Longrightarrow> bp_step ops isa known tid lo u u'"

context direction_predictor
begin

lemma predict_direct_Ok:
  assumes "bp_parts tid u" "ok (bp_dir u)" "tid < int (threads (cfg (bp_dir u)))" "made (cfg (bp_dir u)) (isa_instAddr isa pc) (ph_bpHistory d)"
    "ph_RASIndex d < ras_numEntries (bp_stack tid u)" "\<not> ph_wasIndirect d"
  shows "\<exists>b t e u'. predict_direct P isa inst tid pc d u = Ok (b, t, e, u') \<and> target_step tid d u e u' \<and> ok (bp_dir u') \<and> cfg (bp_dir u') = cfg (bp_dir u) \<and>
    (safe (ph_bpHistory d) \<or> si_isCall inst \<or> si_isReturn inst \<or> btb_valid (isa_instAddr isa pc) tid (bp_BTB u) = Ok True \<longrightarrow>
      undo tid (ph_bpHistory d) (spec (bp_dir u')) = undo tid (ph_bpHistory d) (spec (bp_dir u)))"
proof -
  have tid: "0 \<le> tid" and b: "btb_ok (bp_BTB u)" using assms(1) by (simp_all add: bp_parts_def)
  obtain v where v: "btb_hit (isa_instAddr isa pc) tid (bp_BTB u) = Ok v" using btb_hit_Ok [OF b] by blast
  have st: "bp_parts tid u" "target_step tid d u d u" using assms(1,5,6) by (simp_all add: target_step_def)
  show ?thesis
  proof (cases "v = None")
    case False
    then show ?thesis using v st(2) assms(2) by (auto simp: predict_direct_def Let_def btb_valid_def btb_lookup_def target_step_def bp_parts_def)
  next
    case miss: True
    show ?thesis
    proof (cases "\<not> si_isCall inst \<and> \<not> si_isReturn inst")
      case True
      from btbUpdate_Ok [OF assms(2) tid assms(3,4)] obtain s where
        s: "dp_btbUpdate P tid (isa_instAddr isa pc) (ph_bpHistory d) (bp_dir u) = Ok s" "ok s" "cfg s = cfg (bp_dir u)"
          "safe (ph_bpHistory d) \<longrightarrow> undo tid (ph_bpHistory d) (spec s) = undo tid (ph_bpHistory d) (spec (bp_dir u))" by blast
      then show ?thesis using v miss True st(2) by (auto simp: predict_direct_def Let_def btb_valid_def target_step_def bp_parts_def)
    next
      case False
      obtain e u' where e: "unpush inst tid d u = Ok (e, u')" "stack_step tid d u e u'" using unpush_Ok [OF assms(1)] by blast
      then show ?thesis using v miss False assms(2,5,6) by (auto simp: predict_direct_def Let_def btb_valid_def target_step_def stack_step_def)
    qed
  qed
qed

lemma predict_indirect_Ok:
  assumes "bp_parts tid u" "made (cfg (bp_dir u)) (isa_instAddr isa pc) (ph_bpHistory d)"
    "ph_RASIndex d < ras_numEntries (bp_stack tid u)" "ph_seqNum d = sn"
  shows "\<exists>b t e u'. predict_indirect P isa inst sn tid pc d u = Ok (b, t, e, u') \<and> target_step tid d u e u' \<and> bp_dir u' = bp_dir u"
proof -
  have ip: "ip_ok (bp_iPred u)" "0 \<le> tid" "tid < int (length (ip_threadInfo (bp_iPred u)))" using assms(1) by (simp_all add: bp_parts_def)
  let ?d = "d\<lparr>ph_wasIndirect := True\<rparr>" and ?u = "u\<lparr>bp_indirectLookups := Suc (bp_indirectLookups u)\<rparr>"
  obtain g v where g: "dp_getGHR P tid (ph_bpHistory d) = Ok g" "ip_lookup (isa_instAddr isa pc) g tid (bp_iPred u) = Ok v"
    using getGHR_Ok [OF assms(2)] ip_lookup_Ok [OF ip] by blast
  have "\<exists>b t e u'. (case v of Some target \<Rightarrow> Ok (True, target, ?d, ?u\<lparr>bp_indirectHits := Suc (bp_indirectHits ?u)\<rparr>)
      | None \<Rightarrow> bindR (unpush inst tid ?d (?u\<lparr>bp_indirectMisses := Suc (bp_indirectMisses ?u)\<rparr>)) (\<lambda>(rec, u). Ok (False, isa_advancePC isa inst pc, rec, u))) =
      Ok (b, t, e, u') \<and> stack_step tid ?d u e u'"
  proof (cases v)
    case None
    have "bp_parts tid (?u\<lparr>bp_indirectMisses := Suc (bp_indirectMisses ?u)\<rparr>)" using assms(1) by (simp add: bp_parts_def)
    from unpush_Ok [OF this, of inst ?d] show ?thesis using None by (auto simp: stack_step_def)
  next
    case (Some t)
    then show ?thesis using assms(1) by (auto simp: bp_parts_def stack_step_def)
  qed
  then obtain b t e u' where c: "(case v of Some target \<Rightarrow> Ok (True, target, ?d, ?u\<lparr>bp_indirectHits := Suc (bp_indirectHits ?u)\<rparr>)
      | None \<Rightarrow> bindR (unpush inst tid ?d (?u\<lparr>bp_indirectMisses := Suc (bp_indirectMisses ?u)\<rparr>)) (\<lambda>(rec, u). Ok (False, isa_advancePC isa inst pc, rec, u))) =
      Ok (b, t, e, u')" "stack_step tid ?d u e u'" by blast
  obtain ip' x where i: "ip_recordIndirect (isa_instAddr isa pc) (isa_instAddr isa t) sn tid (bp_iPred u) = Ok ip'" "ip_same (bp_iPred u) ip'"
    "ip_path tid ip' = ip_path tid (bp_iPred u) @ [x]" "he_seqNum x = sn" using ip_recordIndirect_Ok [OF ip] by blast
  have "predict_indirect P isa inst sn tid pc d u = Ok (b, t, e, u'\<lparr>bp_iPred := ip'\<rparr>)"
    using g c i(1) by (simp add: predict_indirect_def Let_def stack_step_def)
  then show ?thesis using assms(3,4) c(2) i(2-4) by (auto simp: target_step_def stack_step_def bp_parts_def ip_same_def)
qed

lemma predict_Ok:
  assumes u: "bp_ok ok cfg threads made tid u" and sn: "\<forall>e\<in>set (bp_hist tid u). ph_seqNum e < sn" "\<forall>x\<in>set (ip_path tid (bp_iPred u)). he_seqNum x < sn"
  shows "\<exists>b t u' d. bp_predict P isa inst sn pc tid u = Ok (b, t, u') \<and> bp_ok ok cfg threads made tid u' \<and> bp_hist tid u' = d # bp_hist tid u \<and>
    ph_seqNum d = sn \<and> cfg (bp_dir u') = cfg (bp_dir u) \<and> (\<forall>x\<in>set (ip_path tid (bp_iPred u')). he_seqNum x \<le> sn) \<and>
    ras_numEntries (bp_stack tid u') = ras_numEntries (bp_stack tid u) \<and>
    ((\<forall>h. safe h) \<or> jump_known isa inst pc tid u \<longrightarrow> undo tid (ph_bpHistory d) (spec (bp_dir u')) = spec (bp_dir u))"
proof -
  have p: "bp_parts tid u" "ok (bp_dir u)" "tid < int (threads (cfg (bp_dir u)))" "0 \<le> tid" using u by (auto simp: bp_ok_def bp_parts_def)
  let ?u = "u\<lparr>bp_lookups := Suc (bp_lookups u)\<rparr>" and ?a = "isa_instAddr isa pc"
  have "\<exists>b h s k. predict_direction P inst tid ?a ?u = Ok (b, h, ?u\<lparr>bp_dir := s, bp_condPredicted := k\<rparr>) \<and> ok s \<and> cfg s = cfg (bp_dir u) \<and>
      made (cfg s) ?a h \<and> undo tid h (spec s) = spec (bp_dir u) \<and> (safe h \<or> b \<and> si_isUncondCtrl inst)"
  proof (cases "si_isUncondCtrl inst")
    case True
    from uncond_Ok [OF p(2,4,3), of ?a] obtain h s where "dp_uncondBranch P tid ?a (bp_dir u) = Ok (h, s)" "ok s" "cfg s = cfg (bp_dir u)"
      "made (cfg (bp_dir u)) ?a h" "undo tid h (spec s) = spec (bp_dir u)" by blast
    with True show ?thesis
      by (intro exI [of _ True] exI [of _ h] exI [of _ s] exI [of _ "bp_condPredicted u"]) (simp add: predict_direction_def)
  next
    case False
    from lookup_Ok [OF p(2,4,3), of ?a] obtain b h s where "dp_lookup P tid ?a (bp_dir u) = Ok (b, h, s)" "ok s" "cfg s = cfg (bp_dir u)"
      "made (cfg (bp_dir u)) ?a h" "safe h" "undo tid h (spec s) = spec (bp_dir u)" by blast
    with False show ?thesis
      by (intro exI [of _ b] exI [of _ h] exI [of _ s] exI [of _ "Suc (bp_condPredicted u)"]) (simp add: predict_direction_def)
  qed
  then obtain b h s k where d: "predict_direction P inst tid ?a ?u = Ok (b, h, ?u\<lparr>bp_dir := s, bp_condPredicted := k\<rparr>)" "ok s" "cfg s = cfg (bp_dir u)"
    "made (cfg s) ?a h" "undo tid h (spec s) = spec (bp_dir u)" "safe h \<or> b \<and> si_isUncondCtrl inst" by blast
  let ?u1 = "?u\<lparr>bp_dir := s, bp_condPredicted := k\<rparr>"
  define r where "r = new_PredictorHistory (isa_zeroPC isa) sn ?a b h tid"
  have r: "ph_seqNum r = sn" "ph_pc r = ?a" "ph_bpHistory r = h" "\<not> ph_wasIndirect r" "ph_RASIndex r = 0" by (simp_all add: r_def new_PredictorHistory_def)
  have n: "0 < ras_numEntries (bp_stack tid u)" using p(1) ras_ring [of "bp_stack tid u"] by (simp add: bp_parts_def ras_ok_def unat_gt_0 word_greater_zero_iff)
  have p1: "bp_parts tid ?u1" using p(1) by (simp add: bp_parts_def)
  have "\<exists>c t e v. (if \<not> b then Ok (False, isa_advancePC isa inst pc, if si_isReturn inst then r\<lparr>ph_wasReturn := True\<rparr> else r, ?u1)
      else if si_isReturn inst then predict_return isa tid pc r ?u1 else predict_target P isa inst sn tid pc r ?u1) = Ok (c, t, e, v) \<and>
      target_step tid r ?u1 e v \<and> ok (bp_dir v) \<and> cfg (bp_dir v) = cfg s \<and>
      ((\<forall>h. safe h) \<or> jump_known isa inst pc tid u \<longrightarrow> undo tid h (spec (bp_dir v)) = undo tid h (spec s))"
  proof (cases "b \<and> \<not> si_isReturn inst")
    case False
    obtain t e v where "predict_return isa tid pc r ?u1 = Ok (True, t, e, v)" "target_step tid r ?u1 e v" "bp_dir v = s"
      using predict_return_Ok [OF p1 r(4), of isa pc] by auto
    moreover have "target_step tid r ?u1 (if si_isReturn inst then r\<lparr>ph_wasReturn := True\<rparr> else r) ?u1"
      using p1 n r by (simp add: target_step_def)
    ultimately show ?thesis using False d(2) by (cases b) auto
  next
    case True
    obtain e v where e: "(if si_isCall inst
      then bindR (with_RAS tid (ras_push pc) (?u1\<lparr>bp_BTBLookups := Suc (bp_BTBLookups ?u1)\<rparr>)) (\<lambda>u. Ok (r\<lparr>ph_pushedRAS := True, ph_wasCall := True\<rparr>, u))
      else Ok (r, ?u1\<lparr>bp_BTBLookups := Suc (bp_BTBLookups ?u1)\<rparr>)) = Ok (e, v)" "stack_step tid r ?u1 e v" using push_call_Ok [OF p1] by blast
    have tr: "target_step tid e v f w \<Longrightarrow> target_step tid r ?u1 f w" for f w using e(2) r by (auto simp: target_step_def stack_step_def)
    have v: "bp_parts tid v" "ph_RASIndex e < ras_numEntries (bp_stack tid v)" "\<not> ph_wasIndirect e" "ph_seqNum e = sn" "ph_bpHistory e = h" "bp_dir v = s"
      using e(2) r n by (simp_all add: stack_step_def)
    show ?thesis
    proof (cases "si_isDirectCtrl inst \<or> \<not> bp_useIndirect v")
      case direct: True
      have "(\<forall>h. safe h) \<or> jump_known isa inst pc tid u \<longrightarrow> safe h \<or> si_isCall inst \<or> si_isReturn inst \<or> btb_valid ?a tid (bp_BTB v) = Ok True"
        using d(6) direct True e(2) by (auto simp: jump_known_def stack_step_def)
      with predict_direct_Ok [of tid v isa pc e inst] v d(2-4) p(3) tr True direct e(1) show ?thesis
        by (fastforce simp: predict_target_def)
    next
      case False
      with predict_indirect_Ok [of tid v isa pc e sn inst] v d(2-4) tr True e(1) show ?thesis by (fastforce simp: predict_target_def)
    qed
  qed
  then obtain c t e v where e: "(if \<not> b then Ok (False, isa_advancePC isa inst pc, if si_isReturn inst then r\<lparr>ph_wasReturn := True\<rparr> else r, ?u1)
      else if si_isReturn inst then predict_return isa tid pc r ?u1 else predict_target P isa inst sn tid pc r ?u1) = Ok (c, t, e, v)"
      "target_step tid r ?u1 e v" "ok (bp_dir v)" "cfg (bp_dir v) = cfg s"
      "(\<forall>h. safe h) \<or> jump_known isa inst pc tid u \<longrightarrow> undo tid h (spec (bp_dir v)) = undo tid h (spec s)" by blast
  have pv: "bp_parts tid v" using e(2) by (simp add: target_step_def)
  let ?v = "v\<lparr>bp_predHist := (bp_predHist v)[nat tid := e # bp_hist tid v]\<rparr>"
  have res: "bp_predict P isa inst sn pc tid u = Ok (c, t, ?v)"
    by (simp only: bp_predict_def d(1) bindR.simps prod.case Let_def r_def [symmetric] e(1) get_predHist_Ok [OF pv] set_predHist_Ok [OF pv])
  have hist: "bp_hist tid ?v = e # bp_hist tid u" using pv e(2) by (simp add: bp_parts_def nat_less_iff target_step_def)
  have "bp_ordered (ras_numEntries (bp_stack tid ?v)) (ip_path tid (bp_iPred ?v)) (e # bp_hist tid u)"
    using u sn e(2) r by (intro bp_ordered_Cons [where path = "ip_path tid (bp_iPred u)"]) (auto simp: bp_ok_def target_step_def)
  then have "bp_ok ok cfg threads made tid ?v" unfolding bp_ok_def hist using pv e(2-4) d(3,4) u r
    by (auto simp: bp_ok_def bp_parts_def target_step_def)
  moreover have "\<forall>x\<in>set (ip_path tid (bp_iPred ?v)). he_seqNum x \<le> sn"
    using e(2) r(1) sn(2) by (auto simp: target_step_def less_imp_le split: if_splits)
  ultimately show ?thesis using res hist e(2-5) d(3,5) r by (auto simp: target_step_def)
qed

lemma commit_branches_Ok:
  assumes "ok s" "0 \<le> tid" "tid < int (threads (cfg s))" "\<forall>e\<in>set es. made (cfg s) (ph_pc e) (ph_bpHistory e)"
  shows "\<exists>s'. commit_branches P sn tid es s = Ok (dropWhile (\<lambda>e. ph_seqNum e \<le> sn) es, s') \<and> ok s' \<and> cfg s' = cfg s \<and> spec s' = spec s"
  using assms
proof (induction es arbitrary: s)
  case (Cons e es)
  from Cons.prems train_Ok [of s tid "ph_pc e" "ph_bpHistory e" "ph_predTaken e"] obtain s1 where
    s1: "dp_update P tid (ph_pc e) (ph_predTaken e) (ph_bpHistory e) False s = Ok s1" "ok s1" "cfg s1 = cfg s" "spec s1 = spec s" by auto
  from Cons.IH [of s1] Cons.prems s1 show ?case by auto
qed simp

lemma rev_dropWhile: "sorted_wrt (\<lambda>d e. ph_seqNum e < ph_seqNum d) es \<Longrightarrow>
    rev (dropWhile (\<lambda>e. ph_seqNum e \<le> sn) (rev es)) = takeWhile (\<lambda>e. sn < ph_seqNum e) es"
proof (induction es)
  case (Cons a es)
  then have IH: "dropWhile (\<lambda>e. ph_seqNum e \<le> sn) (rev es) = rev (takeWhile (\<lambda>e. sn < ph_seqNum e) es)" by (simp add: rev_swap)
  show ?case
  proof (cases "ph_seqNum a \<le> sn")
    case True
    then have "\<forall>x\<in>set es. ph_seqNum x \<le> sn" using Cons.prems by (auto dest: less_imp_le order_trans)
    then show ?thesis using True by (simp add: dropWhile_append not_less)
  next
    case False
    then show ?thesis using IH dropWhile_eq_Nil_conv [of "\<lambda>e. ph_seqNum e \<le> sn" "rev es"] by (auto simp: dropWhile_append)
  qed
qed simp

lemma commit_Ok:
  assumes u: "bp_ok ok cfg threads made tid u"
  shows "\<exists>u'. bp_update P sn tid u = Ok u' \<and> bp_ok ok cfg threads made tid u' \<and> bp_hist tid u' = takeWhile (\<lambda>e. sn < ph_seqNum e) (bp_hist tid u) \<and>
    spec (bp_dir u') = spec (bp_dir u)"
proof -
  have p: "bp_parts tid u" "ok (bp_dir u)" "tid < int (threads (cfg (bp_dir u)))" "\<forall>e\<in>set (bp_hist tid u). made (cfg (bp_dir u)) (ph_pc e) (ph_bpHistory e)"
    and o: "bp_ordered (ras_numEntries (bp_stack tid u)) (ip_path tid (bp_iPred u)) (bp_hist tid u)" using u by (simp_all add: bp_ok_def)
  have ip: "ip_ok (bp_iPred u)" "0 \<le> tid" "tid < int (length (ip_threadInfo (bp_iPred u)))" using p(1) by (simp_all add: bp_parts_def)
  obtain ip' where i: "ip_commit sn tid (bp_iPred u) = Ok ip'" "ip_same (bp_iPred u) ip'" "ip_path tid ip' = ip_path tid (bp_iPred u) \<or>
    (\<exists>i<length (ip_path tid (bp_iPred u)). he_seqNum (ip_path tid (bp_iPred u) ! i) \<le> sn \<and> ip_path tid ip' = tl (ip_path tid (bp_iPred u)))"
    using ip_commit_Ok [OF ip] by blast
  obtain s where s: "commit_branches P sn tid (rev (bp_hist tid u)) (bp_dir u) = Ok (dropWhile (\<lambda>e. ph_seqNum e \<le> sn) (rev (bp_hist tid u)), s)" "ok s"
    "cfg s = cfg (bp_dir u)" "spec s = spec (bp_dir u)" using commit_branches_Ok [of "bp_dir u" tid "rev (bp_hist tid u)" sn] p(2-4) ip(2) by auto
  let ?es = "takeWhile (\<lambda>e. sn < ph_seqNum e) (bp_hist tid u)"
  let ?v = "u\<lparr>bp_iPred := ip', bp_dir := s\<rparr>"
  have pv: "bp_parts tid ?v" using p(1) i(2) by (simp add: bp_parts_def ip_same_def)
  have res: "bp_update P sn tid u = Ok (?v\<lparr>bp_predHist := (bp_predHist u)[nat tid := ?es]\<rparr>)"
    using i(1) s(1) rev_dropWhile [of "bp_hist tid u" sn] o set_predHist_Ok [OF pv]
    by (simp add: bp_update_def get_predHist_Ok [OF p(1)] bp_ordered_def)
  have hist: "(bp_predHist u)[nat tid := ?es] ! nat tid = ?es" using p(1) by (simp add: bp_parts_def nat_less_iff)
  have "bp_ok ok cfg threads made tid (?v\<lparr>bp_predHist := (bp_predHist u)[nat tid := ?es]\<rparr>)"
    using pv s(2,3) p(3,4) bp_ordered_commit [OF o i(3)] unfolding bp_ok_def by (auto simp: hist bp_parts_def dest: set_takeWhileD)
  then show ?thesis using res hist s(4) by simp
qed

text \<open>Squashing branches undoes their effects on the histories, the newest first.\<close>

definition undo_all :: "ThreadID \<Rightarrow> ('h, 'pc) PredictorHistory list \<Rightarrow> 'v \<Rightarrow> 'v" where
  "undo_all tid es v = fold (\<lambda>e. undo tid (ph_bpHistory e)) es v"

lemma squash_RAS_Ok:
  assumes "ras_ok r" "ph_RASIndex e < ras_numEntries r"
  shows "\<exists>r'. squash_RAS e r = Ok r' \<and> ras_ok r' \<and> ras_numEntries r' = ras_numEntries r"
  using ras_restore_ok [OF assms] ras_pop_ok [OF assms(1)] assms(1) by (auto simp: squash_RAS_def)

lemma squash_branches_Ok:
  assumes "ok s" "0 \<le> tid" "tid < int (threads (cfg s))" "ras_ok r"
    "\<forall>e\<in>set es. made (cfg s) (ph_pc e) (ph_bpHistory e) \<and> ph_RASIndex e < ras_numEntries r"
  shows "\<exists>s' r'. squash_branches P sn tid es (s, r) = Ok (dropWhile (\<lambda>e. sn < ph_seqNum e) es, s', r') \<and> ok s' \<and> cfg s' = cfg s \<and>
    spec s' = undo_all tid (takeWhile (\<lambda>e. sn < ph_seqNum e) es) (spec s) \<and> ras_ok r' \<and> ras_numEntries r' = ras_numEntries r"
  using assms
proof (induction es arbitrary: s r)
  case (Cons e es)
  from Cons.prems squash_Ok [of s tid "ph_pc e" "ph_bpHistory e"] obtain s1 where
    s1: "dp_squash P tid (ph_bpHistory e) s = Ok s1" "ok s1" "cfg s1 = cfg s" "spec s1 = undo tid (ph_bpHistory e) (spec s)" by auto
  from Cons.prems squash_RAS_Ok [of r e] obtain r1 where r1: "squash_RAS e r = Ok r1" "ras_ok r1" "ras_numEntries r1 = ras_numEntries r" by auto
  from Cons.IH [of s1 r1] Cons.prems s1 r1 show ?case by (auto simp: undo_all_def)
qed (simp add: undo_all_def)

lemma squash_unit_Ok:
  assumes u: "bp_ok ok cfg threads made tid u"
  shows "\<exists>u'. bp_squash P sn tid u = Ok u' \<and> bp_ok ok cfg threads made tid u' \<and> bp_hist tid u' = dropWhile (\<lambda>e. sn < ph_seqNum e) (bp_hist tid u) \<and>
    cfg (bp_dir u') = cfg (bp_dir u) \<and> spec (bp_dir u') = undo_all tid (takeWhile (\<lambda>e. sn < ph_seqNum e) (bp_hist tid u)) (spec (bp_dir u)) \<and>
    (\<forall>x\<in>set (ip_path tid (bp_iPred u')). he_seqNum x \<le> sn)"
proof -
  have p: "bp_parts tid u" "ok (bp_dir u)" "tid < int (threads (cfg (bp_dir u)))" "\<forall>e\<in>set (bp_hist tid u). made (cfg (bp_dir u)) (ph_pc e) (ph_bpHistory e)"
    and o: "bp_ordered (ras_numEntries (bp_stack tid u)) (ip_path tid (bp_iPred u)) (bp_hist tid u)" using u by (simp_all add: bp_ok_def)
  have ip: "ip_ok (bp_iPred u)" "0 \<le> tid" "tid < int (length (ip_threadInfo (bp_iPred u)))" using p(1) by (simp_all add: bp_parts_def)
  obtain ip' where i: "ip_squash sn tid (bp_iPred u) = Ok ip'" "ip_same (bp_iPred u) ip'"
    "ip_path tid ip' = takeWhile (\<lambda>e. he_seqNum e \<le> sn) (ip_path tid (bp_iPred u))" using ip_squash_Ok [OF ip] by blast
  let ?es = "dropWhile (\<lambda>e. sn < ph_seqNum e) (bp_hist tid u)"
  have ras: "ras_ok (bp_stack tid u)" using p(1) by (simp add: bp_parts_def)
  obtain s r where s: "squash_branches P sn tid (bp_hist tid u) (bp_dir u, bp_stack tid u) = Ok (?es, s, r)" "ok s" "cfg s = cfg (bp_dir u)"
    "spec s = undo_all tid (takeWhile (\<lambda>e. sn < ph_seqNum e) (bp_hist tid u)) (spec (bp_dir u))" "ras_ok r" "ras_numEntries r = ras_numEntries (bp_stack tid u)"
    using squash_branches_Ok [of "bp_dir u" tid "bp_stack tid u" "bp_hist tid u" sn] p(2-4) ip(2) ras o by (auto simp: bp_ordered_def)
  let ?v = "u\<lparr>bp_iPred := ip', bp_dir := s, bp_RAS := (bp_RAS u)[nat tid := r]\<rparr>"
  have pv: "bp_parts tid ?v" using p(1) i(2) s(5) by (simp add: bp_parts_def ip_same_def nat_less_iff)
  have g: "arr_get (bp_RAS u) tid = Ok (bp_stack tid u)" "arr_set (bp_RAS u) tid r = Ok ((bp_RAS u)[nat tid := r])"
    using p(1) by (simp_all add: bp_parts_def arr_get_def arr_set_def)
  have res: "bp_squash P sn tid u = Ok (?v\<lparr>bp_predHist := (bp_predHist u)[nat tid := ?es]\<rparr>)"
    using i(1) s(1) g set_predHist_Ok [OF pv] by (simp add: bp_squash_def get_predHist_Ok [OF p(1)])
  have hist: "(bp_predHist u)[nat tid := ?es] ! nat tid = ?es" using p(1) by (simp add: bp_parts_def nat_less_iff)
  have "bp_ok ok cfg threads made tid (?v\<lparr>bp_predHist := (bp_predHist u)[nat tid := ?es]\<rparr>)"
    using pv s(2,3,6) p(1,3,4) bp_ordered_squash [OF o, of sn] i(3) unfolding bp_ok_def by (auto simp: hist bp_parts_def dest: set_dropWhileD)
  then show ?thesis using res hist s(3,4) i(3) by (auto dest: set_takeWhileD)
qed

lemma resolve_Ok:
  assumes u: "bp_ok ok cfg threads made tid u" and sn: "sn \<in> ph_seqNum ` set (bp_hist tid u)" "lo < sn"
  shows "\<exists>u'. bp_squash_branch P isa draw sn t taken tid u = Ok u' \<and> bp_ok ok cfg threads made tid u' \<and>
    undo_all tid (takeWhile (\<lambda>e. lo < ph_seqNum e) (bp_hist tid u')) (spec (bp_dir u')) =
      undo_all tid (takeWhile (\<lambda>e. lo < ph_seqNum e) (bp_hist tid u)) (spec (bp_dir u)) \<and>
    map ph_seqNum (bp_hist tid u') = map ph_seqNum (dropWhile (\<lambda>e. sn < ph_seqNum e) (bp_hist tid u))"
proof -
  let ?u0 = "u\<lparr>bp_condIncorrect := Suc (bp_condIncorrect u)\<rparr>" and ?new = "takeWhile (\<lambda>e. sn < ph_seqNum e) (bp_hist tid u)"
  have u0: "bp_ok ok cfg threads made tid ?u0" using u by (simp add: bp_ok_def bp_parts_def)
  from squash_unit_Ok [OF u0, of sn] obtain v where v: "bp_squash P sn tid ?u0 = Ok v" "bp_ok ok cfg threads made tid v"
    "bp_hist tid v = dropWhile (\<lambda>e. sn < ph_seqNum e) (bp_hist tid u)" "cfg (bp_dir v) = cfg (bp_dir u)"
    "spec (bp_dir v) = undo_all tid ?new (spec (bp_dir u))" by auto
  have srt: "sorted_wrt (\<lambda>d e. ph_seqNum e < ph_seqNum d) (bp_hist tid u)" using u by (simp add: bp_ok_def bp_ordered_def)
  from dropWhile_at [OF srt sn(1)] obtain e es where e: "bp_hist tid v = e # es" "ph_seqNum e = sn" using v(3) by auto
  define w where "w = (if ph_usedRAS e then v\<lparr>bp_RASIncorrect := Suc (bp_RASIncorrect v)\<rparr> else v)"
  have p: "bp_parts tid v" "ok (bp_dir v)" "0 \<le> tid" "tid < int (threads (cfg (bp_dir v)))" "made (cfg (bp_dir v)) (ph_pc e) (ph_bpHistory e)"
    and o: "bp_ordered (ras_numEntries (bp_stack tid v)) (ip_path tid (bp_iPred v)) (e # es)" using v(2) e(1) by (auto simp: bp_ok_def bp_parts_def)
  obtain g s where s: "dp_getGHR P tid (ph_bpHistory e) = Ok g" "dp_update P tid (ph_pc e) taken (ph_bpHistory e) True (bp_dir v) = Ok s" "ok s"
    "cfg s = cfg (bp_dir v)" "undo tid (ph_bpHistory e) (spec s) = undo tid (ph_bpHistory e) (spec (bp_dir v))"
    using correct_Ok [OF p(2-5), of taken] getGHR_Ok [OF p(5)] by blast
  let ?e = "e\<lparr>ph_predTaken := taken\<rparr>" and ?w = "w\<lparr>bp_dir := s\<rparr>"
  have w: "bp_parts tid ?w" "bp_predHist ?w = bp_predHist v" "bp_dir w = bp_dir v" "bp_iPred w = bp_iPred v" "bp_RAS w = bp_RAS v"
    using p(1) by (simp_all add: w_def bp_parts_def)
  have i: "ph_RASIndex ?e < ras_numEntries (bp_stack tid ?w)" "ph_wasIndirect ?e \<longrightarrow> ip_path tid (bp_iPred ?w) \<noteq> []"
    using o w(4,5) by (auto simp: bp_ordered_def)
  obtain d x where d: "(if taken then correct_taken isa draw g t tid ?e ?w else correct_not_taken tid ?e ?w) = Ok (d, x)" "correct_step tid ?e ?w d x"
    using correct_taken_Ok [OF w(1) i(2), of isa draw g t] correct_not_taken_Ok [OF w(1) i(1)] by (cases taken) auto
  have px: "bp_parts tid x" using d(2) by (simp add: correct_step_def)
  let ?x = "x\<lparr>bp_predHist := (bp_predHist x)[nat tid := d # es]\<rparr>"
  have res: "bp_squash_branch P isa draw sn t taken tid u = Ok ?x"
    using v(1) e s(1,2) w(3) d(1) set_predHist_Ok [OF px]
    by (cases taken) (simp_all add: bp_squash_branch_def get_predHist_Ok [OF p(1)] w_def [symmetric] Let_def)
  have hist: "bp_hist tid ?x = d # es" using px by (simp add: bp_parts_def nat_less_iff)
  have "bp_ordered (ras_numEntries (bp_stack tid ?x)) (ip_path tid (bp_iPred ?x)) (d # es)"
    using bp_ordered_replace [OF bp_ordered_path [OF _ o]] d(2) w(4,5) by (simp add: correct_step_def)
  then have "bp_ok ok cfg threads made tid ?x" unfolding bp_ok_def hist
    using px d(2) s(3,4) v(2) e(1) by (auto simp: bp_ok_def bp_parts_def correct_step_def)
  moreover have "takeWhile (\<lambda>e. lo < ph_seqNum e) (bp_hist tid u) = ?new @ e # takeWhile (\<lambda>e. lo < ph_seqNum e) es"
  proof -
    have h: "bp_hist tid u = ?new @ e # es" using v(3) e(1) by (metis takeWhile_dropWhile_id)
    have "lo < ph_seqNum y" if "y \<in> set ?new" for y using set_takeWhileD [OF that] sn(2) by (metis order_less_trans)
    then have "takeWhile (\<lambda>e. lo < ph_seqNum e) (?new @ e # es) = ?new @ takeWhile (\<lambda>e. lo < ph_seqNum e) (e # es)"
      by (rule takeWhile_append2)
    then show ?thesis using h e(2) sn(2) by simp
  qed
  moreover have "ph_seqNum d = sn" "ph_bpHistory d = ph_bpHistory e" "bp_dir ?x = s" using d(2) e(2) by (simp_all add: correct_step_def)
  ultimately show ?thesis using res hist sn(2) s(5) v(3) [symmetric, unfolded e(1)] v(5) e(2) by (simp add: undo_all_def)
qed

text \<open>Every step keeps the invariant, and what a squash to \<open>lo\<close> would leave of the histories and of the branches.\<close>

definition base_spec :: "ThreadID \<Rightarrow> u64 \<Rightarrow> ('s, 'h, 'pc) BPredUnit \<Rightarrow> 'v" where
  "base_spec tid lo u = undo_all tid (takeWhile (\<lambda>e. lo < ph_seqNum e) (bp_hist tid u)) (spec (bp_dir u))"

lemma base_spec_squash:
  assumes "lo \<le> sn" "bp_hist tid u' = dropWhile (\<lambda>e. sn < ph_seqNum e) (bp_hist tid u)"
    "spec (bp_dir u') = undo_all tid (takeWhile (\<lambda>e. sn < ph_seqNum e) (bp_hist tid u)) (spec (bp_dir u))"
  shows "base_spec tid lo u' = base_spec tid lo u"
proof -
  let ?f = "\<lambda>e. lo < ph_seqNum e" and ?g = "\<lambda>e. sn < ph_seqNum e" and ?h = "bp_hist tid u"
  have "\<forall>x\<in>set (takeWhile ?g ?h). ?f x" using assms(1) by (auto dest!: set_takeWhileD intro: order_le_less_trans)
  then have "takeWhile ?f (takeWhile ?g ?h @ dropWhile ?g ?h) = takeWhile ?g ?h @ takeWhile ?f (dropWhile ?g ?h)" by (intro takeWhile_append2) blast
  then have "takeWhile ?f ?h = takeWhile ?g ?h @ takeWhile ?f (dropWhile ?g ?h)" by simp
  then show ?thesis using assms(2,3) by (simp add: base_spec_def undo_all_def)
qed

lemma takeWhile_commit: "sn \<le> (lo :: u64) \<Longrightarrow> takeWhile (\<lambda>e. lo < f e) (takeWhile (\<lambda>e. sn < f e) es) = takeWhile (\<lambda>e. lo < f e) es"
  by (induction es) (auto dest: order_le_less_trans)

lemma step_Ok:
  assumes "bp_step P isa known tid lo u u'" "bp_ok ok cfg threads made tid u"
  shows "bp_ok ok cfg threads made tid u' \<and> ((\<forall>h. safe h) \<or> known \<longrightarrow> base_spec tid lo u' = base_spec tid lo u)"
  using assms(1)
proof cases
  case (Predict sn inst pc b t)
  from predict_Ok [OF assms(2) Predict(2,3), of isa inst pc] Predict show ?thesis
    by (auto simp: base_spec_def undo_all_def)
next
  case (Commit sn)
  from commit_Ok [OF assms(2), of sn] Commit show ?thesis by (auto simp: base_spec_def takeWhile_commit)
next
  case (Resolve sn draw t taken)
  from resolve_Ok [OF assms(2) Resolve(2,1), of isa draw t taken] Resolve(3) show ?thesis by (auto simp: base_spec_def)
next
  case (Squash sn)
  from squash_unit_Ok [OF assms(2), of sn] Squash base_spec_squash [OF Squash(1)] show ?thesis by auto
qed

lemma run_Ok:
  assumes "(bp_step P isa known tid lo)\<^sup>*\<^sup>* u u'" "bp_ok ok cfg threads made tid u"
  shows "bp_ok ok cfg threads made tid u' \<and> ((\<forall>h. safe h) \<or> known \<longrightarrow> base_spec tid lo u' = base_spec tid lo u)"
  using assms(1)
proof (induction rule: rtranclp_induct)
  case (step v w)
  then show ?case using step_Ok [OF step(2)] by simp
qed (use assms(2) in simp)

text \<open>A squash takes all speculation back.\<close>

lemma run_squash:
  assumes "(bp_step P isa known tid lo)\<^sup>*\<^sup>* u u'" "bp_ok ok cfg threads made tid u" "(\<forall>h. safe h) \<or> known"
    "\<forall>e\<in>set (bp_hist tid u). ph_seqNum e \<le> lo"
  shows "\<exists>u''. bp_squash P lo tid u' = Ok u'' \<and> bp_ok ok cfg threads made tid u'' \<and> spec (bp_dir u'') = spec (bp_dir u)"
proof -
  from run_Ok [OF assms(1,2)] assms(3) have r: "bp_ok ok cfg threads made tid u'" "base_spec tid lo u' = base_spec tid lo u" by auto
  have "takeWhile (\<lambda>e. lo < ph_seqNum e) (bp_hist tid u) = []" using assms(4) by (cases "bp_hist tid u") auto
  then show ?thesis using squash_unit_Ok [OF r(1), of lo] r(2) by (auto simp: base_spec_def undo_all_def)
qed

text \<open>No operation fails in a state that a run reaches.\<close>

lemma run_progress:
  assumes "(bp_step P isa known tid lo)\<^sup>*\<^sup>* u u'" "bp_ok ok cfg threads made tid u"
  shows "\<forall>e\<in>set (bp_hist tid u'). ph_seqNum e < sn \<Longrightarrow> \<forall>x\<in>set (ip_path tid (bp_iPred u')). he_seqNum x < sn \<Longrightarrow>
      \<exists>r. bp_predict P isa inst sn pc tid u' = Ok r"
    and "\<exists>v. bp_update P sn tid u' = Ok v" and "\<exists>v. bp_squash P sn tid u' = Ok v"
    and "sn \<in> ph_seqNum ` set (bp_hist tid u') \<Longrightarrow> 0 < sn \<Longrightarrow> \<exists>v. bp_squash_branch P isa draw sn t taken tid u' = Ok v"
proof -
  from run_Ok [OF assms] have ok: "bp_ok ok cfg threads made tid u'" by simp
  show "\<forall>e\<in>set (bp_hist tid u'). ph_seqNum e < sn \<Longrightarrow> \<forall>x\<in>set (ip_path tid (bp_iPred u')). he_seqNum x < sn \<Longrightarrow>
      \<exists>r. bp_predict P isa inst sn pc tid u' = Ok r" using predict_Ok [OF ok, of sn isa inst pc] by blast
  show "\<exists>v. bp_update P sn tid u' = Ok v" "\<exists>v. bp_squash P sn tid u' = Ok v" using commit_Ok [OF ok] squash_unit_Ok [OF ok] by blast+
  show "sn \<in> ph_seqNum ` set (bp_hist tid u') \<Longrightarrow> 0 < sn \<Longrightarrow> \<exists>v. bp_squash_branch P isa draw sn t taken tid u' = Ok v"
    using resolve_Ok [OF ok, of sn 0 isa draw t taken] by blast
qed

end

end
