(* ===== verification/Branch_Stack.thy ===== *)
theory Branch_Stack
  imports Branch_Recover
begin

text \<open>
  What a squash does to the return address stack. The stack is a ring: a call that is predicted overwrites the entry above the top, which is the
  oldest one when the ring is full. Squashing the predicted branches brings the top back, with all entries but as many of the
  oldest ones as calls were predicted.
\<close>

section \<open>Entries by their distance from the top\<close>

definition ras_slot :: "'pc ReturnAddrStack \<Rightarrow> nat \<Rightarrow> 'pc" where
  "ras_slot r k = ras_addrStack r ! (if k \<le> unat (ras_tos r) then unat (ras_tos r) - k else unat (ras_tos r) + unat (ras_numEntries r) - k)"

text \<open>Two stacks that have the same top and the same newest \<open>m\<close> entries.\<close>

definition ras_agree :: "nat \<Rightarrow> 'pc ReturnAddrStack \<Rightarrow> 'pc ReturnAddrStack \<Rightarrow> bool" where
  "ras_agree m q r \<longleftrightarrow> ras_tos q = ras_tos r \<and> ras_numEntries q = ras_numEntries r \<and> (\<forall>k<m. ras_slot q k = ras_slot r k)"

lemma ras_agree_mono: "ras_agree m q r \<Longrightarrow> m' \<le> m \<Longrightarrow> ras_agree m' q r"
  by (auto simp: ras_agree_def)

lemma incr_tos_cases:
  assumes "ras_ok r"
  shows "unat (ras_tos (incrTos r)) = (if Suc (unat (ras_tos r)) = unat (ras_numEntries r) then 0 else Suc (unat (ras_tos r)))"
    "unat (ras_tos r) < unat (ras_numEntries r)"
  using unat_incrTos [of r] assms by (auto simp: ras_ok_def word_less_nat_alt mod_less)

lemma pop_tos_cases:
  assumes "ras_ok r"
  shows "unat (ras_tos (ras_pop r)) = (if unat (ras_tos r) = 0 then unat (ras_numEntries r) - 1 else unat (ras_tos r) - 1)"
    "ras_addrStack (ras_pop r) = ras_addrStack r"
proof -
  have n: "unat (ras_tos r) < unat (ras_numEntries r)" using assms by (simp add: ras_ok_def word_less_nat_alt)
  have "unat (ras_numEntries r - 1) = unat (ras_numEntries r) - 1" using n by (intro unat_minus_one) auto
  moreover have "ras_tos r \<noteq> 0 \<Longrightarrow> unat (ras_tos r - 1) = unat (ras_tos r) - 1" by (rule unat_minus_one)
  ultimately show "unat (ras_tos (ras_pop r)) = (if unat (ras_tos r) = 0 then unat (ras_numEntries r) - 1 else unat (ras_tos r) - 1)"
    by (auto simp: ras_pop_def decrTos_def unat_eq_zero)
  show "ras_addrStack (ras_pop r) = ras_addrStack r" by (simp add: ras_pop_def decrTos_def)
qed

lemma push_cases:
  assumes "ras_ok r" "ras_push pc r = Ok r1"
  shows "ras_tos r1 = ras_tos (incrTos r)" "ras_addrStack r1 = (ras_addrStack r)[unat (ras_tos (incrTos r)) := pc]" "ras_numEntries r1 = ras_numEntries r"
    "ras_ok r1"
proof -
  have i: "ras_ok (incrTos r)" using ras_incr [OF assms(1)] .
  have "ras_addrStack (incrTos r) = ras_addrStack r" "ras_numEntries (incrTos r) = ras_numEntries r" by (simp_all add: incrTos_def)
  then show "ras_tos r1 = ras_tos (incrTos r)" "ras_addrStack r1 = (ras_addrStack r)[unat (ras_tos (incrTos r)) := pc]" "ras_numEntries r1 = ras_numEntries r"
    using assms(2) i by (auto simp: ras_push_def Let_def ras_ok_def word_less_nat_alt)
  show "ras_ok r1" using ras_push_ok [OF assms(1), of pc] assms(2) by simp
qed

section \<open>Taking one branch back\<close>

lemma pop_undoes_push:
  assumes "ras_ok r" "ras_push pc r = Ok r1" "ras_ok q" "ras_agree m q r1" "m \<le> unat (ras_numEntries r)"
  shows "ras_agree (m - 1) (ras_pop q) r"
proof -
  note p = push_cases [OF assms(1,2)] and i = incr_tos_cases [OF assms(1)] and o = pop_tos_cases [OF assms(3)]
  have t: "unat (ras_tos q) = unat (ras_tos (incrTos r))" "unat (ras_numEntries q) = unat (ras_numEntries r)" using assms(4) p(1,3) by (simp_all add: ras_agree_def)
  have top: "unat (ras_tos (ras_pop q)) = unat (ras_tos r)" using o(1) t i by auto
  have len: "length (ras_addrStack r) = unat (ras_numEntries r)" using assms(1) by (simp add: ras_ok_def)
  have "ras_slot (ras_pop q) k = ras_slot r k" if k: "k < m - 1" for k
  proof -
    have "ras_slot (ras_pop q) k = ras_slot q (Suc k)" using o top t i k assms(5) by (auto simp: ras_slot_def)
    also have "\<dots> = ras_slot r1 (Suc k)" using assms(4) k by (simp add: ras_agree_def)
    also have "\<dots> = ras_slot r k" using p i k assms(5) len
      by (auto simp: ras_slot_def nth_list_update intro!: arg_cong [of _ _ "(!) (ras_addrStack r)"])
    finally show ?thesis .
  qed
  moreover have "ras_tos (ras_pop q) = ras_tos r" using top by (simp add: word_unat_eq_iff)
  ultimately show ?thesis using assms(4) p(3) by (simp add: ras_agree_def)
qed

lemma restore_undoes_pop:
  assumes "ras_ok r" "ras_ok q" "ras_agree m q (ras_pop r)" "m \<le> unat (ras_numEntries r)"
  shows "\<exists>q'. ras_restore (ras_tos r) (ras_addrStack r ! unat (ras_tos r)) q = Ok q' \<and> ras_ok q' \<and> ras_agree m q' r"
proof -
  note o = pop_tos_cases [OF assms(1)]
  have n: "unat (ras_tos r) < unat (ras_numEntries r)" "length (ras_addrStack r) = unat (ras_numEntries r)"
    using assms(1) by (simp_all add: ras_ok_def word_less_nat_alt)
  have e: "ras_numEntries q = ras_numEntries r" "ras_tos q = ras_tos (ras_pop r)" "length (ras_addrStack q) = unat (ras_numEntries r)"
    using assms(2,3) by (simp_all add: ras_agree_def ras_ok_def)
  let ?q = "q\<lparr>ras_tos := ras_tos r, ras_addrStack := (ras_addrStack q)[unat (ras_tos r) := ras_addrStack r ! unat (ras_tos r)]\<rparr>"
  have r: "ras_restore (ras_tos r) (ras_addrStack r ! unat (ras_tos r)) q = Ok ?q" using n e(3) by (simp add: ras_restore_def)
  have "ras_slot ?q k = ras_slot r k" if k: "k < m" for k
  proof (cases k)
    case 0
    then show ?thesis using n(1) e(3) by (simp add: ras_slot_def)
  next
    case (Suc j)
    have "ras_slot ?q k = ras_slot q j" using Suc k assms(4) n e o(1) by (auto simp: ras_slot_def nth_list_update)
    also have "\<dots> = ras_slot (ras_pop r) j" using assms(3) Suc k by (simp add: ras_agree_def)
    also have "\<dots> = ras_slot r k" using Suc k assms(4) n o by (auto simp: ras_slot_def)
    finally show ?thesis .
  qed
  then have "ras_agree m ?q r" using e by (simp add: ras_agree_def)
  moreover have "ras_ok ?q" using assms(1) e by (simp add: ras_ok_def)
  ultimately show ?thesis using r by blast
qed

text \<open>Squashing a record brings a stack back, whatever agrees with the stack after the branch, up to \<open>c\<close> entries.\<close>

definition ras_undoes :: "('h, 'pc) PredictorHistory \<Rightarrow> nat \<Rightarrow> 'pc ReturnAddrStack \<Rightarrow> 'pc ReturnAddrStack \<Rightarrow> bool" where
  "ras_undoes e c r1 r \<longleftrightarrow> (\<forall>m q. m \<le> unat (ras_numEntries r) \<and> ras_ok q \<and> ras_agree m q r1 \<longrightarrow>
     (\<exists>q'. squash_RAS e q = Ok q' \<and> ras_ok q' \<and> ras_agree (m - c) q' r))"

lemma ras_undoes_mono: "ras_undoes e c r1 r \<Longrightarrow> c \<le> c' \<Longrightarrow> ras_undoes e c' r1 r"
  unfolding ras_undoes_def by (meson diff_le_mono2 ras_agree_mono)

lemma undoes_nothing: "\<not> ph_usedRAS e \<Longrightarrow> \<not> ph_pushedRAS e \<Longrightarrow> ras_undoes e c r r"
  by (auto simp: ras_undoes_def squash_RAS_def intro: ras_agree_mono)

lemma undoes_return:
  "ras_ok r \<Longrightarrow> ph_usedRAS e \<Longrightarrow> ph_RASIndex e = ras_tos r \<Longrightarrow> ph_RASTarget e = ras_addrStack r ! unat (ras_tos r) \<Longrightarrow> ras_undoes e 0 (ras_pop r) r"
  using restore_undoes_pop [of r] by (auto simp: ras_undoes_def squash_RAS_def)

lemma undoes_call:
  "ras_ok r \<Longrightarrow> ras_push pc r = Ok r1 \<Longrightarrow> \<not> ph_usedRAS e \<Longrightarrow> ph_wasCall e \<Longrightarrow> ph_pushedRAS e \<Longrightarrow> ras_undoes e 1 r1 r"
  using pop_undoes_push [of r pc r1] ras_pop_ok by (auto simp: ras_undoes_def squash_RAS_def)

text \<open>A conditional call without a known target has taken its entry back, and with it the oldest one of a full ring.\<close>

lemma undoes_unpushed:
  assumes "ras_ok r" "ras_push pc r = Ok r1" "\<not> ph_usedRAS e" "\<not> ph_pushedRAS e"
  shows "ras_undoes e 1 (ras_pop r1) r"
proof -
  have "ras_agree (unat (ras_numEntries r)) r1 r1" by (simp add: ras_agree_def)
  from pop_undoes_push [OF assms(1,2) push_cases(4) [OF assms(1,2)] this] have a: "ras_agree (unat (ras_numEntries r) - 1) (ras_pop r1) r" by simp
  have "ras_agree (m - 1) q r" if "m \<le> unat (ras_numEntries r)" "ras_agree m q (ras_pop r1)" for m q
    using that a by (auto simp: ras_agree_def)
  then show ?thesis using assms(3,4) by (auto simp: ras_undoes_def squash_RAS_def)
qed

section \<open>Predictions and the stack\<close>

text \<open>Looking up a target leaves the stack alone or takes the entry of the call off again.\<close>

definition target_ras ::
  "StaticInst \<Rightarrow> ThreadID \<Rightarrow> ('h, 'pc) PredictorHistory \<Rightarrow> ('s, 'h, 'pc) BPredUnit \<Rightarrow> ('h, 'pc) PredictorHistory \<Rightarrow> ('s, 'h, 'pc) BPredUnit \<Rightarrow> bool" where
  "target_ras inst tid d u e u' \<longleftrightarrow> bp_predHist u' = bp_predHist u \<and> ph_usedRAS e = ph_usedRAS d \<and> ph_wasCall e = ph_wasCall d \<and>
     ph_seqNum e = ph_seqNum d \<and> (ph_pushedRAS e = ph_pushedRAS d \<and> bp_RAS u' = bp_RAS u \<or>
     si_isCall inst \<and> \<not> ph_pushedRAS e \<and> bp_RAS u' = (bp_RAS u)[nat tid := ras_pop (bp_stack tid u)])"

lemma unpush_ras: "bp_parts tid u \<Longrightarrow> unpush inst tid d u = Ok (e, u') \<Longrightarrow> target_ras inst tid d u e u'"
  by (auto simp: unpush_def with_RAS_Ok target_ras_def split: if_splits)

lemma predict_direct_ras:
  "bp_parts tid u \<Longrightarrow> predict_direct ops isa inst tid pc d u = Ok (b, t, e, u') \<Longrightarrow> target_ras inst tid d u e u'"
  using unpush_ras [of tid u inst d] by (auto simp: predict_direct_def Let_def bindR_Ok_iff target_ras_def split: if_splits prod.splits)

lemma predict_indirect_ras:
  assumes "bp_parts tid u" "predict_indirect ops isa inst sn tid pc d u = Ok (b, t, e, u')"
  shows "target_ras inst tid d u e u'"
proof -
  have p: "bp_parts tid (u\<lparr>bp_indirectLookups := k, bp_indirectMisses := l\<rparr>)" for k l using assms(1) by (simp add: bp_parts_def)
  show ?thesis using assms(2) unpush_ras [OF p]
    by (fastforce simp: predict_indirect_def Let_def bindR_Ok_iff target_ras_def split: option.splits prod.splits)
qed

lemma predict_target_ras:
  assumes u: "bp_parts tid u" "predict_target ops isa inst sn tid pc d u = Ok (b, t, e, u')" and d: "\<not> ph_usedRAS d" "\<not> ph_pushedRAS d"
  shows "bp_predHist u' = bp_predHist u \<and> ph_seqNum e = ph_seqNum d \<and> ras_undoes e (of_bool (si_isCall inst)) (bp_stack tid u') (bp_stack tid u)"
proof -
  have r: "ras_ok (bp_stack tid u)" "nat tid < length (bp_RAS u)" using u(1) by (auto simp: bp_parts_def nat_less_iff)
  let ?v = "u\<lparr>bp_BTBLookups := Suc (bp_BTBLookups u)\<rparr>"
  have pv: "bp_parts tid ?v" using u(1) by (simp add: bp_parts_def)
  show ?thesis
  proof (cases "si_isCall inst")
    case True
    obtain r1 where r1: "ras_push pc (bp_stack tid u) = Ok r1" using ras_push_ok [OF r(1), of pc] by blast
    let ?d = "d\<lparr>ph_pushedRAS := True, ph_wasCall := True\<rparr>" and ?w = "?v\<lparr>bp_RAS := (bp_RAS u)[nat tid := r1]\<rparr>"
    have pw: "bp_parts tid ?w" using bp_parts_RAS [OF pv push_cases(4) [OF r(1) r1]] by simp
    have "with_RAS tid (ras_push pc) ?v = Ok ?w" using with_RAS_Ok [where f = "ras_push pc", OF pv] r1 by simp
    then have "predict_direct ops isa inst tid pc ?d ?w = Ok (b, t, e, u') \<or> predict_indirect ops isa inst sn tid pc ?d ?w = Ok (b, t, e, u')"
      using u(2) True by (auto simp: predict_target_def split: if_splits)
    then have "target_ras inst tid ?d ?w e u'" using predict_direct_ras [OF pw] predict_indirect_ras [OF pw] by blast
    then show ?thesis using undoes_call [OF r(1) r1] undoes_unpushed [OF r(1) r1] d True r(2) by (auto simp: target_ras_def)
  next
    case False
    then have "predict_direct ops isa inst tid pc d ?v = Ok (b, t, e, u') \<or> predict_indirect ops isa inst sn tid pc d ?v = Ok (b, t, e, u')"
      using u(2) by (auto simp: predict_target_def split: if_splits)
    then have "target_ras inst tid d ?v e u'" using predict_direct_ras [OF pv] predict_indirect_ras [OF pv] by blast
    then show ?thesis using undoes_nothing [of e] d False by (auto simp: target_ras_def)
  qed
qed

lemma predict_ras:
  assumes u: "bp_parts tid u" "bp_predict ops isa inst sn pc tid u = Ok (b, t, u')"
  shows "\<exists>d. bp_hist tid u' = d # bp_hist tid u \<and> ph_seqNum d = sn \<and> ras_undoes d (of_bool (si_isCall inst)) (bp_stack tid u') (bp_stack tid u)"
proof -
  have r: "ras_ok (bp_stack tid u)" "arr_get (bp_RAS u) tid = Ok (bp_stack tid u)" "nat tid < length (bp_RAS u)" "nat tid < length (bp_predHist u)"
    using u(1) by (auto simp: bp_parts_def arr_get_def nat_less_iff)
  let ?a = "isa_instAddr isa pc" and ?u = "u\<lparr>bp_lookups := Suc (bp_lookups u)\<rparr>"
  obtain c h v where v: "predict_direction ops inst tid ?a ?u = Ok (c, h, v)"
    using u(2) by (cases "predict_direction ops inst tid ?a ?u") (auto simp: bp_predict_def)
  have same: "bp_predHist v = bp_predHist u" "bp_RAS v = bp_RAS u" "bp_iPred v = bp_iPred u" "bp_BTB v = bp_BTB u"
    using v by (auto simp: predict_direction_def bindR_Ok_iff split: if_splits)
  have pv: "bp_parts tid v" using u(1) same by (simp add: bp_parts_def)
  define e where "e = new_PredictorHistory (isa_zeroPC isa) sn ?a c h tid"
  have e: "ph_seqNum e = sn" "\<not> ph_usedRAS e" "\<not> ph_pushedRAS e" by (simp_all add: e_def new_PredictorHistory_def)
  obtain b' t' d w where w: "(if \<not> c then Ok (False, isa_advancePC isa inst pc, if si_isReturn inst then e\<lparr>ph_wasReturn := True\<rparr> else e, v)
      else if si_isReturn inst then predict_return isa tid pc e v else predict_target ops isa inst sn tid pc e v) = Ok (b', t', d, w)"
    and h: "bindR (arr_get (bp_predHist w) tid) (\<lambda>ph. bindR (set_predHist tid (d # ph) w) (\<lambda>u. Ok (b', t', u))) = Ok (b, t, u')"
    using u(2) by (simp only: bp_predict_def v bindR.simps prod.case Let_def e_def [symmetric] bindR_Ok_iff [of "If _ _ _"]) fast
  have "bp_predHist w = bp_predHist v \<and> ph_seqNum d = sn \<and> ras_undoes d (of_bool (si_isCall inst)) (bp_stack tid w) (bp_stack tid u)"
  proof (cases "c \<and> si_isReturn inst")
    case True
    have "ras_undoes d 0 (ras_pop (bp_stack tid u)) (bp_stack tid u)" "bp_RAS w = (bp_RAS u)[nat tid := ras_pop (bp_stack tid u)]" "bp_predHist w = bp_predHist v" "ph_seqNum d = sn"
      using w True r same e ras_top_Ok [OF r(1)] undoes_return [OF r(1), of d] with_RAS_Ok [where f = "\<lambda>r. Ok (ras_pop r)", OF pv]
      by (auto simp: predict_return_def ras_topIdx_def)
    then show ?thesis using r(3) ras_undoes_mono [of d 0 _ _ "of_bool (si_isCall inst)"] by simp
  next
    case False
    then show ?thesis using w e undoes_nothing [of d] predict_target_ras [OF pv _ e(2,3), of ops isa inst sn pc b' t' d w] same
      by (cases c) auto
  qed
  then show ?thesis using h r(4) same by (auto simp: bindR_Ok_iff arr_get_Ok_iff set_predHist_def arr_set_Ok_iff)
qed

section \<open>Squashing a sequence of predictions\<close>

definition predict_all ::
  "('s, 'h) BPredOps \<Rightarrow> 'pc TheISA \<Rightarrow> ThreadID \<Rightarrow> (StaticInst \<times> u64 \<times> 'pc) list \<Rightarrow> ('s, 'h, 'pc) BPredUnit \<Rightarrow> ('s, 'h, 'pc) BPredUnit result" where
  "predict_all ops isa tid bs u =
     foldM (\<lambda>(inst, sn, pc) u. bindR (bp_predict ops isa inst sn pc tid u) (\<lambda>(_, _, u). Ok u)) bs u"

definition calls :: "(StaticInst \<times> u64 \<times> 'pc) list \<Rightarrow> nat" where
  "calls bs = length (filter (\<lambda>(inst, _, _). si_isCall inst) bs)"

lemma squash_branches_ras:
  "squash_branches ops sn tid (ds @ es) (s, r) = Ok (es', s', r') \<Longrightarrow> \<forall>d\<in>set ds. sn < ph_seqNum d \<Longrightarrow> \<forall>e\<in>set es. ph_seqNum e \<le> sn \<Longrightarrow>
    foldM squash_RAS ds r = Ok r'"
  by (induction ds arbitrary: s r) (auto simp: bindR_Ok_iff not_less split: list.splits if_splits elim: squash_branches.elims)

context direction_predictor
begin

lemma predict_all_Ok:
  assumes "bp_ok ok cfg threads made tid u" "sorted_wrt (<) (map (\<lambda>(_, sn, _). sn) bs)"
    "\<forall>(_, sn, _)\<in>set bs. (\<forall>e\<in>set (bp_hist tid u). ph_seqNum e < sn) \<and> (\<forall>x\<in>set (ip_path tid (bp_iPred u)). he_seqNum x < sn)"
  shows "\<exists>u' ds. predict_all P isa tid bs u = Ok u' \<and> bp_ok ok cfg threads made tid u' \<and> bp_hist tid u' = ds @ bp_hist tid u \<and>
    ph_seqNum ` set ds = (\<lambda>(_, sn, _). sn) ` set bs \<and>
    (\<forall>m q. m \<le> unat (ras_numEntries (bp_stack tid u)) \<and> ras_ok q \<and> ras_agree m q (bp_stack tid u') \<longrightarrow>
      (\<exists>q'. foldM squash_RAS ds q = Ok q' \<and> ras_ok q' \<and> ras_agree (m - calls bs) q' (bp_stack tid u)))"
  using assms
proof (induction bs arbitrary: u)
  case Nil
  then show ?case by (intro exI [of _ u] exI [of _ "[]"]) (simp add: predict_all_def calls_def)
next
  case (Cons x bs)
  obtain inst sn pc where x: "x = (inst, sn, pc)" by (cases x)
  have c: "\<forall>e\<in>set (bp_hist tid u). ph_seqNum e < sn" "\<forall>x\<in>set (ip_path tid (bp_iPred u)). he_seqNum x < sn" using Cons.prems(3) x by auto
  from predict_Ok [OF Cons.prems(1) c, of isa inst pc] obtain b t v d where
    v: "bp_predict P isa inst sn pc tid u = Ok (b, t, v)" "bp_ok ok cfg threads made tid v" "bp_hist tid v = d # bp_hist tid u" "ph_seqNum d = sn"
      "\<forall>x\<in>set (ip_path tid (bp_iPred v)). he_seqNum x \<le> sn" and n: "ras_numEntries (bp_stack tid v) = ras_numEntries (bp_stack tid u)" by blast
  have pu: "bp_parts tid u" using Cons.prems(1) by (simp add: bp_ok_def)
  from predict_ras [OF pu v(1)] v(3) have un: "ras_undoes d (of_bool (si_isCall inst)) (bp_stack tid v) (bp_stack tid u)" by auto
  have later: "sn < sn'" if "(i', sn', p') \<in> set bs" for i' sn' p' using Cons.prems(2) x that by force
  have "\<forall>(_, sn', _)\<in>set bs. (\<forall>e\<in>set (bp_hist tid v). ph_seqNum e < sn') \<and> (\<forall>x\<in>set (ip_path tid (bp_iPred v)). he_seqNum x < sn')"
  proof (clarsimp, intro conjI ballI)
    fix i' sn' p' e assume s: "(i', sn', p') \<in> set bs"
    show "e \<in> set (bp_hist tid v) \<Longrightarrow> ph_seqNum e < sn'" using later [OF s] v(3,4) c(1) by (auto dest: order_less_trans)
  next
    fix i' sn' p' y assume s: "(i', sn', p') \<in> set bs"
    show "y \<in> set (ip_path tid (bp_iPred v)) \<Longrightarrow> he_seqNum y < sn'" using later [OF s] v(5) by (auto dest: order_le_less_trans)
  qed
  from Cons.IH [OF v(2) _ this] Cons.prems(2) obtain u' ds where
    r: "predict_all P isa tid bs v = Ok u'" "bp_ok ok cfg threads made tid u'" "bp_hist tid u' = ds @ bp_hist tid v"
      "ph_seqNum ` set ds = (\<lambda>(_, sn, _). sn) ` set bs" and
    q: "\<And>m q. m \<le> unat (ras_numEntries (bp_stack tid v)) \<Longrightarrow> ras_ok q \<Longrightarrow> ras_agree m q (bp_stack tid u') \<Longrightarrow>
      \<exists>q'. foldM squash_RAS ds q = Ok q' \<and> ras_ok q' \<and> ras_agree (m - calls bs) q' (bp_stack tid v)" by auto
  have "\<exists>q'. foldM squash_RAS (ds @ [d]) q = Ok q' \<and> ras_ok q' \<and> ras_agree (m - calls (x # bs)) q' (bp_stack tid u)"
    if m: "m \<le> unat (ras_numEntries (bp_stack tid u))" "ras_ok q" "ras_agree m q (bp_stack tid u')" for m q
  proof -
    from q [of m q] m n obtain q1 where q1: "foldM squash_RAS ds q = Ok q1" "ras_ok q1" "ras_agree (m - calls bs) q1 (bp_stack tid v)" by auto
    have "m - calls bs \<le> unat (ras_numEntries (bp_stack tid u))" using m(1) by simp
    with un q1(2,3) obtain q2 where "squash_RAS d q1 = Ok q2" "ras_ok q2" "ras_agree (m - calls bs - of_bool (si_isCall inst)) q2 (bp_stack tid u)"
      unfolding ras_undoes_def by blast
    then show ?thesis using q1(1) x by (auto simp: foldM_append calls_def)
  qed
  then show ?case using r v(1,3,4) x by (intro exI [of _ u'] exI [of _ "ds @ [d]"]) (auto simp: predict_all_def)
qed

lemma squash_stack:
  assumes u: "bp_ok ok cfg threads made tid u" and s: "sorted_wrt (<) (map (\<lambda>(_, sn, _). sn) bs)" "\<forall>(_, sn, _)\<in>set bs. lo < sn"
    and h: "\<forall>e\<in>set (bp_hist tid u). ph_seqNum e \<le> lo" "\<forall>x\<in>set (ip_path tid (bp_iPred u)). he_seqNum x \<le> lo"
  shows "\<exists>u' u''. predict_all P isa tid bs u = Ok u' \<and> bp_squash P lo tid u' = Ok u'' \<and>
    ras_agree (unat (ras_numEntries (bp_stack tid u)) - calls bs) (bp_stack tid u'') (bp_stack tid u)"
proof -
  have lt: "lo < sn" if "(i, sn, p) \<in> set bs" for i sn p using bspec [OF s(2) that] by simp
  have "\<forall>(_, sn, _)\<in>set bs. (\<forall>e\<in>set (bp_hist tid u). ph_seqNum e < sn) \<and> (\<forall>x\<in>set (ip_path tid (bp_iPred u)). he_seqNum x < sn)"
  proof (clarsimp, intro conjI ballI)
    fix i sn p e assume b: "(i, sn, p) \<in> set bs"
    show "e \<in> set (bp_hist tid u) \<Longrightarrow> ph_seqNum e < sn" by (rule order_le_less_trans [OF bspec [OF h(1)] lt [OF b]])
  next
    fix i sn p x assume b: "(i, sn, p) \<in> set bs"
    show "x \<in> set (ip_path tid (bp_iPred u)) \<Longrightarrow> he_seqNum x < sn" by (rule order_le_less_trans [OF bspec [OF h(2)] lt [OF b]])
  qed
  from predict_all_Ok [OF u s(1) this, of isa] obtain u' ds where
    r: "predict_all P isa tid bs u = Ok u'" "bp_ok ok cfg threads made tid u'" "bp_hist tid u' = ds @ bp_hist tid u" "ph_seqNum ` set ds = (\<lambda>(_, sn, _). sn) ` set bs" and
    q: "\<forall>m q. m \<le> unat (ras_numEntries (bp_stack tid u)) \<and> ras_ok q \<and> ras_agree m q (bp_stack tid u') \<longrightarrow>
      (\<exists>q'. foldM squash_RAS ds q = Ok q' \<and> ras_ok q' \<and> ras_agree (m - calls bs) q' (bp_stack tid u))" by (elim exE conjE) (rule that)
  from squash_unit_Ok [OF r(2), of lo] obtain u'' where sq: "bp_squash P lo tid u' = Ok u''" by blast
  have p: "bp_parts tid u'" using r(2) by (simp add: bp_ok_def)
  then have a: "arr_get (bp_RAS u') tid = Ok (bp_stack tid u')" "ras_ok (bp_stack tid u')" "nat tid < length (bp_RAS u')"
    by (auto simp: bp_parts_def arr_get_def nat_less_iff)
  obtain es s' r' where b: "squash_branches P lo tid (bp_hist tid u') (bp_dir u', bp_stack tid u') = Ok (es, s', r')" "bp_stack tid u'' = r'"
    using sq a(1,3) get_predHist_Ok [OF p] by (auto simp: bp_squash_def bindR_Ok_iff arr_set_Ok_iff set_predHist_def)
  have new: "\<forall>d\<in>set ds. lo < ph_seqNum d" using r(4) lt by fastforce
  have "foldM squash_RAS ds (bp_stack tid u') = Ok r'" using b(1) unfolding r(3) by (rule squash_branches_ras [OF _ new h(1)])
  moreover have "ras_agree (unat (ras_numEntries (bp_stack tid u))) (bp_stack tid u') (bp_stack tid u')" by (simp add: ras_agree_def)
  then obtain q' where "foldM squash_RAS ds (bp_stack tid u') = Ok q'" "ras_agree (unat (ras_numEntries (bp_stack tid u)) - calls bs) q' (bp_stack tid u)"
    using q a(2) order_refl by blast
  ultimately show ?thesis using r(1) sq b(2) by auto
qed

end

end
