(* ===== verification/Pc_State.thy ===== *)
theory Pc_State
  imports Int_Math
begin

text \<open>
  The program counter of an ARM thread: \<^verbatim>\<open>arch/generic/types.hh\<close> for the counters and the micro counters, \<^verbatim>\<open>arch/arm/types.hh\<close> for the
  execution state that travels with them: the instruction set, the state of an IT block and the size of the instruction. A checkpoint is
  the list of the values in the order in which they are written.
\<close>

section \<open>State\<close>

record PCState =
  ps_pc :: Addr
  ps_npc :: Addr
  ps_upc :: u16
  ps_nupc :: u16
  ps_flags :: u8
  ps_nextFlags :: u8
  ps_itstate :: u8
  ps_nextItstate :: u8
  ps_size :: u8
  ps_illegalExec :: bool

definition ThumbBit :: u8 where "ThumbBit = 1"
definition JazelleBit :: u8 where "JazelleBit = 2"
definition AArch64Bit :: u8 where "AArch64Bit = 4"

definition thumb :: "PCState \<Rightarrow> bool" where "thumb p \<longleftrightarrow> ps_flags p AND ThumbBit \<noteq> 0"
definition nextThumb :: "PCState \<Rightarrow> bool" where "nextThumb p \<longleftrightarrow> ps_nextFlags p AND ThumbBit \<noteq> 0"
definition jazelle :: "PCState \<Rightarrow> bool" where "jazelle p \<longleftrightarrow> ps_flags p AND JazelleBit \<noteq> 0"
definition nextJazelle :: "PCState \<Rightarrow> bool" where "nextJazelle p \<longleftrightarrow> ps_nextFlags p AND JazelleBit \<noteq> 0"
definition aarch64 :: "PCState \<Rightarrow> bool" where "aarch64 p \<longleftrightarrow> ps_flags p AND AArch64Bit \<noteq> 0"
definition nextAArch64 :: "PCState \<Rightarrow> bool" where "nextAArch64 p \<longleftrightarrow> ps_nextFlags p AND AArch64Bit \<noteq> 0"

definition put_flag :: "u8 \<Rightarrow> bool \<Rightarrow> u8 \<Rightarrow> u8" where
  "put_flag b v f = (if v then f OR b else f AND NOT b)"

definition set_thumb :: "bool \<Rightarrow> PCState \<Rightarrow> PCState" where "set_thumb v p = p\<lparr>ps_flags := put_flag ThumbBit v (ps_flags p)\<rparr>"
definition set_nextThumb :: "bool \<Rightarrow> PCState \<Rightarrow> PCState" where "set_nextThumb v p = p\<lparr>ps_nextFlags := put_flag ThumbBit v (ps_nextFlags p)\<rparr>"
definition set_jazelle :: "bool \<Rightarrow> PCState \<Rightarrow> PCState" where "set_jazelle v p = p\<lparr>ps_flags := put_flag JazelleBit v (ps_flags p)\<rparr>"
definition set_nextJazelle :: "bool \<Rightarrow> PCState \<Rightarrow> PCState" where "set_nextJazelle v p = p\<lparr>ps_nextFlags := put_flag JazelleBit v (ps_nextFlags p)\<rparr>"
definition set_aarch64 :: "bool \<Rightarrow> PCState \<Rightarrow> PCState" where "set_aarch64 v p = p\<lparr>ps_flags := put_flag AArch64Bit v (ps_flags p)\<rparr>"
definition set_nextAArch64 :: "bool \<Rightarrow> PCState \<Rightarrow> PCState" where "set_nextAArch64 v p = p\<lparr>ps_nextFlags := put_flag AArch64Bit v (ps_nextFlags p)\<rparr>"

section \<open>Counters\<close>

text \<open>\<^verbatim>\<open>SimplePCState::set\<close> and \<^verbatim>\<open>UPCState::set\<close> with instructions of four bytes, and \<^verbatim>\<open>PCState::set\<close> over them.\<close>

definition simple_set :: "Addr \<Rightarrow> PCState \<Rightarrow> PCState" where
  "simple_set val p = p\<lparr>ps_pc := val, ps_npc := val + 4\<rparr>"

definition upc_set :: "Addr \<Rightarrow> PCState \<Rightarrow> PCState" where
  "upc_set val p = (simple_set val p)\<lparr>ps_upc := 0, ps_nupc := 1\<rparr>"

definition pc_set :: "Addr \<Rightarrow> PCState \<Rightarrow> PCState" where
  "pc_set val p = (let p = upc_set val p in p\<lparr>ps_npc := val + (if thumb p then 2 else 4)\<rparr>)"

definition new_PCState :: PCState where
  "new_PCState = \<lparr>ps_pc = 0, ps_npc = 0, ps_upc = 0, ps_nupc = 0, ps_flags = 0, ps_nextFlags = 0, ps_itstate = 0, ps_nextItstate = 0,
     ps_size = 0, ps_illegalExec = False\<rparr>"

definition PCState_at :: "Addr \<Rightarrow> PCState" where
  "PCState_at val = pc_set val new_PCState"

definition instAddr :: "PCState \<Rightarrow> Addr" where "instAddr p = ps_pc p"
definition nextInstAddr :: "PCState \<Rightarrow> Addr" where "nextInstAddr p = ps_npc p"
definition microPC :: "PCState \<Rightarrow> u16" where "microPC p = ps_upc p"

definition uAdvance :: "PCState \<Rightarrow> PCState" where
  "uAdvance p = p\<lparr>ps_upc := ps_nupc p, ps_nupc := ps_nupc p + 1\<rparr>"

definition simple_advance :: "PCState \<Rightarrow> PCState" where
  "simple_advance p = p\<lparr>ps_pc := ps_npc p, ps_npc := ps_npc p + 4\<rparr>"

definition pc_branching :: "PCState \<Rightarrow> bool" where
  "pc_branching p \<longleftrightarrow> ps_pc p + ucast (ps_size p) \<noteq> ps_npc p"

text \<open>The next state of an IT block: the condition is in bits 4 to 7, the mask in bits 0 to 3.\<close>

definition advance_itstate :: "u8 \<Rightarrow> u8" where
  "advance_itstate it =
     (let cond_mask = push_bit 1 (it AND 15); thumb_cond = drop_bit 4 it;
          new_bit = drop_bit 4 cond_mask AND 1; cond_mask = cond_mask AND 15;
          thumb_cond = (if cond_mask = 0 then 0 else (thumb_cond AND NOT 1) OR new_bit)
      in push_bit 4 thumb_cond OR cond_mask)"

definition pc_advance :: "PCState \<Rightarrow> PCState" where
  "pc_advance p =
     (let p = simple_advance p; p = p\<lparr>ps_flags := ps_nextFlags p\<rparr>; p = p\<lparr>ps_npc := ps_pc p + (if thumb p then 2 else 4)\<rparr> in
      if ps_nextItstate p \<noteq> 0 then p\<lparr>ps_itstate := ps_nextItstate p, ps_nextItstate := 0\<rparr>
      else if ps_itstate p \<noteq> 0 then p\<lparr>ps_itstate := advance_itstate (ps_itstate p)\<rparr>
      else p)"

definition uEnd :: "PCState \<Rightarrow> PCState" where
  "uEnd p = (pc_advance p)\<lparr>ps_upc := 0, ps_nupc := 1\<rparr>"

section \<open>Branches\<close>

definition instPC :: "PCState \<Rightarrow> Addr" where
  "instPC p = ps_pc p + (if thumb p then 4 else 8)"

definition set_instNPC :: "Addr \<Rightarrow> PCState \<Rightarrow> PCState" where
  "set_instNPC val p =
     (if aarch64 p then p\<lparr>ps_npc := val\<rparr> else p\<lparr>ps_npc := val AND NOT (mask_bits (if nextThumb p then 1 else 2))\<rparr>)"

definition instNPC :: "PCState \<Rightarrow> Addr" where "instNPC p = ps_npc p"

definition instIWNPC :: "Addr \<Rightarrow> PCState \<Rightarrow> PCState" where
  "instIWNPC val p =
     (if thumb p \<and> jazelle p
      then p\<lparr>ps_npc := if bits_one val 0 \<noteq> 0 then val AND NOT (mask_bits 1) else val\<rparr>
      else if bits_one val 0 \<noteq> 0 then (set_nextThumb True p)\<lparr>ps_npc := val AND NOT (mask_bits 1)\<rparr>
      else if bits_one val 1 = 0 then (set_nextThumb False p)\<lparr>ps_npc := val\<rparr>
      else p\<lparr>ps_npc := val AND NOT (mask_bits 2)\<rparr>)"

definition instAIWNPC :: "Addr \<Rightarrow> PCState \<Rightarrow> PCState" where
  "instAIWNPC val p = (if \<not> thumb p \<and> \<not> jazelle p then instIWNPC val p else set_instNPC val p)"

text \<open>\<^verbatim>\<open>operator==\<close> does not compare the size of the instruction.\<close>

definition pc_eq :: "PCState \<Rightarrow> PCState \<Rightarrow> bool" where
  "pc_eq p q \<longleftrightarrow> ps_pc p = ps_pc q \<and> ps_npc p = ps_npc q \<and> ps_upc p = ps_upc q \<and> ps_nupc p = ps_nupc q \<and> ps_flags p = ps_flags q \<and>
     ps_nextFlags p = ps_nextFlags q \<and> ps_itstate p = ps_itstate q \<and> ps_nextItstate p = ps_nextItstate q \<and>
     ps_illegalExec p = ps_illegalExec q"

text \<open>\<^verbatim>\<open>buildRetPC\<close> of \<^verbatim>\<open>arch/arm/utility.hh\<close>: the instruction after the call.\<close>

definition buildRetPC :: "PCState \<Rightarrow> PCState \<Rightarrow> PCState" where
  "buildRetPC curPC callPC = uEnd callPC"

section \<open>Checkpoints\<close>

definition pc_serialize :: "PCState \<Rightarrow> u64 list" where
  "pc_serialize p = [ps_pc p, ps_npc p, ucast (ps_upc p), ucast (ps_nupc p), ucast (ps_flags p), ucast (ps_size p), ucast (ps_nextFlags p),
     ucast (ps_itstate p), ucast (ps_nextItstate p), of_bool (ps_illegalExec p)]"

definition pc_unserialize :: "u64 list \<Rightarrow> PCState option" where
  "pc_unserialize xs = (case xs of
     [pc, npc, upc, nupc, fl, sz, nfl, it, nit, ill] \<Rightarrow>
       Some \<lparr>ps_pc = pc, ps_npc = npc, ps_upc = ucast upc, ps_nupc = ucast nupc, ps_flags = ucast fl, ps_nextFlags = ucast nfl,
             ps_itstate = ucast it, ps_nextItstate = ucast nit, ps_size = ucast sz, ps_illegalExec = (ill \<noteq> 0)\<rparr>
   | _ \<Rightarrow> None)"

section \<open>Lemmas\<close>

lemma ucast_up_down [simp]: "ucast (ucast (x :: u8) :: u64) = x" "ucast (ucast (y :: u16) :: u64) = y"
  by (rule bit_word_eqI; simp add: bit_simps)+

lemma and_15: "x AND 15 = take_bit 4 (x :: u8)"
  by (simp add: take_bit_eq_mask mask_eq_exp_minus_1)

lemma take_push_take: "take_bit 4 (push_bit k (take_bit 4 x)) = take_bit 4 (push_bit k (x :: u8))"
  by (rule bit_word_eqI) (auto simp: bit_simps)

lemma take_or_push: "take_bit 4 (push_bit 4 y OR take_bit 4 x) = take_bit 4 (x :: u8)"
  by (rule bit_word_eqI) (auto simp: bit_simps)

lemma itstate_parts:
  "take_bit 4 (advance_itstate it) = take_bit 4 (push_bit 1 it)" "take_bit 4 (push_bit 1 it) = 0 \<Longrightarrow> advance_itstate it = 0"
  unfolding advance_itstate_def and_15 Let_def take_push_take take_or_push by simp_all

text \<open>The mask moves up by one bit for each instruction, and the block is over when it has moved out.\<close>

lemma it_block_length: "(advance_itstate ^^ 4) it = 0"
proof -
  have k: "take_bit 4 ((advance_itstate ^^ k) it) = take_bit 4 (push_bit k it)" for k
  proof (induction k)
    case (Suc k)
    then show ?case using itstate_parts(1) [of "(advance_itstate ^^ k) it"] take_push_take [of 1 "(advance_itstate ^^ k) it"]
        take_push_take [of 1 "push_bit k it"] push_bit_push_bit [of 1 k it] by simp
  qed simp
  have "take_bit 4 (push_bit 1 ((advance_itstate ^^ 3) it)) = take_bit 4 (push_bit 4 it)"
    using k [of 3] take_push_take [of 1 "(advance_itstate ^^ 3) it"] take_push_take [of 1 "push_bit 3 it"] push_bit_push_bit [of 1 3 it] by simp
  also have "\<dots> = 0" by (rule bit_word_eqI) (auto simp: bit_simps)
  finally have "advance_itstate ((advance_itstate ^^ 3) it) = 0" by (rule itstate_parts(2))
  then show ?thesis by (simp add: eval_nat_numeral)
qed

lemma pc_advance_itstate:
  "ps_nextItstate (pc_advance p) = 0"
  "ps_itstate (pc_advance p) = (if ps_nextItstate p \<noteq> 0 then ps_nextItstate p else if ps_itstate p \<noteq> 0 then advance_itstate (ps_itstate p) else 0)"
  by (simp_all add: pc_advance_def simple_advance_def Let_def)

lemma advance_itstate_0 [simp]: "advance_itstate 0 = 0"
  by (simp add: advance_itstate_def)

lemma iterate_itstate: "ps_nextItstate p = 0 \<Longrightarrow> ps_itstate ((pc_advance ^^ k) p) = (advance_itstate ^^ k) (ps_itstate p) \<and> ps_nextItstate ((pc_advance ^^ k) p) = 0"
  by (induction k) (auto simp: pc_advance_itstate)

section \<open>Properties\<close>

text \<open>C30: an IT block of Thumb code ends: whatever block the next instruction opens, five steps of the program counter later no instruction is
  conditional on it any more.\<close>

theorem it_block_ends: "ps_itstate ((pc_advance ^^ 5) p) = 0"
proof -
  have "(pc_advance ^^ 5) p = (pc_advance ^^ 4) (pc_advance p)" by (simp add: eval_nat_numeral)
  then show ?thesis using iterate_itstate [of "pc_advance p" 4] it_block_length by (simp add: pc_advance_itstate)
qed

text \<open>The return address that is predicted for a call is the instruction after it, with the instruction set the call
  continues in, and a checkpoint restores the whole state.\<close>

theorem return_after_call:
  "ps_pc (buildRetPC cur call) = ps_npc call \<and> ps_flags (buildRetPC cur call) = ps_nextFlags call \<and> microPC (buildRetPC cur call) = 0 \<and>
   ps_npc (buildRetPC cur call) = ps_npc call + (if nextThumb call then 2 else 4) \<and> pc_unserialize (pc_serialize call) = Some call"
proof -
  have "pc_unserialize (pc_serialize call) = Some call" by (cases call) (simp add: pc_unserialize_def pc_serialize_def)
  then show ?thesis
    by (simp add: buildRetPC_def uEnd_def pc_advance_def simple_advance_def Let_def thumb_def nextThumb_def microPC_def)
qed

end
