(* ===== verification/Branch_Correct.thy ===== *)
theory Branch_Correct
  imports Branch_Stack Pc_State
begin

text \<open>
  The branch prediction unit of an ARM core: the unit over a direction predictor that its constructor made, the states that a thread can bring it to,
  and what holds in all of them. The error paths of \<^verbatim>\<open>bpred_unit.cc\<close> and \<^verbatim>\<open>tournament.cc\<close> that lose information are stated at the end.
\<close>

section \<open>The instruction set\<close>

text \<open>\<^verbatim>\<open>advancePC\<close> of \<^verbatim>\<open>arch/arm/utility.hh\<close> calls the instruction, and an instruction that is not a micro-op advances the counter.\<close>

definition arm_isa :: "PCState TheISA" where
  "arm_isa = \<lparr>isa_instAddr = instAddr, isa_zeroPC = PCState_at 0, isa_buildRetPC = buildRetPC, isa_advancePC = (\<lambda>_. pc_advance)\<rparr>"

section \<open>New units\<close>

text \<open>Parameters under which the arithmetic of the unit is defined.\<close>

definition bpp_ok :: "BranchPredictorParams \<Rightarrow> bool" where
  "bpp_ok q \<longleftrightarrow> bpp_RASSize q > 0 \<and> ipp_path_len (bpp_indirect q) > 0 \<and> ipp_tag_bits (bpp_indirect q) < 31 \<and> ipp_num_ways (bpp_indirect q) > 0"

lemma new_DefaultBTB_ok: "new_DefaultBTB junk z n tb sh nt = Ok b \<Longrightarrow> btb_ok b"
  using pow2_u32 by (auto simp: new_DefaultBTB_def btb_ok_def bindR_Ok_iff split: if_splits)

lemma new_IndirectPredictor_ok:
  "new_IndirectPredictor z q sh nt = Ok ip \<Longrightarrow> ipp_path_len q > 0 \<Longrightarrow> ipp_tag_bits q < 31 \<Longrightarrow> ipp_num_ways q > 0 \<Longrightarrow>
    ip_ok ip \<and> ip_threadInfo ip = replicate (unat nt) \<lparr>ti_pathHist = [], ti_headHistEntry = 0\<rparr>"
  using pow2_u32 by (auto simp: new_IndirectPredictor_def ip_ok_def split: if_splits)

lemma ras_init_ok: "0 < n \<Longrightarrow> ras_ok (ras_init z n)"
  by (simp add: ras_init_def ras_reset_def ras_ok_def)

lemma new_BPredUnit_parts:
  assumes "new_BPredUnit isa junk dir q = Ok u" "bpp_ok q" "0 \<le> tid" "tid < int (unat (bpp_numThreads q))"
  shows "bp_parts tid u" "bp_hist tid u = []" "ip_path tid (bp_iPred u) = []" "bp_dir u = dir"
proof -
  obtain b ip where n: "new_DefaultBTB junk (isa_zeroPC isa) (bpp_BTBEntries q) (bpp_BTBTagSize q) (bpp_instShiftAmt q) (bpp_numThreads q) = Ok b"
    "new_IndirectPredictor (isa_zeroPC isa) (bpp_indirect q) (bpp_instShiftAmt q) (bpp_numThreads q) = Ok ip"
    and u: "bp_dir u = dir" "bp_predHist u = replicate (unat (bpp_numThreads q)) []" "bp_BTB u = b"
      "bp_RAS u = replicate (unat (bpp_numThreads q)) (ras_init (isa_zeroPC isa) (bpp_RASSize q))" "bp_iPred u = ip"
    using assms(1) by (auto simp: new_BPredUnit_def bindR_Ok_iff)
  have i: "ip_ok ip" "ip_threadInfo ip = replicate (unat (bpp_numThreads q)) \<lparr>ti_pathHist = [], ti_headHistEntry = 0\<rparr>"
    using new_IndirectPredictor_ok [OF n(2)] assms(2) by (simp_all add: bpp_ok_def)
  have t: "nat tid < unat (bpp_numThreads q)" using assms(3,4) by linarith
  show "bp_hist tid u = []" "ip_path tid (bp_iPred u) = []" "bp_dir u = dir" using t u i(2) by (simp_all add: ip_path_def)
  show "bp_parts tid u" using t u i n(1) assms(2-4) new_DefaultBTB_ok [OF n(1)] ras_init_ok [of "bpp_RASSize q" "isa_zeroPC isa"]
    by (simp add: bp_parts_def bpp_ok_def)
qed

lemma new_BPredUnit_ok:
  assumes "new_BPredUnit isa junk dir q = Ok u" "bpp_ok q" "0 \<le> tid" "tid < int (unat (bpp_numThreads q))" "ok dir"
    "unat (bpp_numThreads q) = threads (cfg dir)"
  shows "bp_ok ok cfg threads made tid u"
  unfolding bp_ok_def new_BPredUnit_parts(2-4) [OF assms(1-4)] using new_BPredUnit_parts(1) [OF assms(1-4)] assms(4-6) by (simp add: bp_ordered_def)

lemma new_local_unit:
  assumes "new_LocalBP junk n b sh = Ok dir" "new_BPredUnit isa junk' dir r = Ok u" "bpp_ok r" "0 \<le> tid" "tid < int (unat (bpp_numThreads r))"
  shows "bp_ok LocalBP_ok (\<lambda>_. unat (bpp_numThreads r)) (\<lambda>n. n) (\<lambda>_ _ h. h = None) tid u"
  by (rule new_BPredUnit_ok [OF assms(2-5)]) (auto intro: new_LocalBP_ok [OF assms(1)])

lemma new_bi_mode_unit:
  assumes "new_BiModeBP junk (bpp_numThreads r) cs cb gs gb sh = Ok dir" "new_BPredUnit isa junk' dir r = Ok u" "bpp_ok r" "0 \<le> tid"
    "tid < int (unat (bpp_numThreads r))"
  shows "bp_ok BiModeBP_ok (\<lambda>p. length (bm_globalHistoryReg p)) (\<lambda>n. n) (\<lambda>_ _ h. h \<noteq> None) tid u"
  by (rule new_BPredUnit_ok [OF assms(2-5)]) (use new_BiModeBP_ok [OF assms(1)] in auto)

lemma new_tournament_unit:
  assumes "new_TournamentBP junk q = Ok dir" "tp_numThreads q = bpp_numThreads r" "new_BPredUnit isa junk' dir r = Ok u" "bpp_ok r" "0 \<le> tid"
    "tid < int (unat (bpp_numThreads r))"
  shows "bp_ok TournamentBP_ok tb_cfg fst tb_made tid u"
  by (rule new_BPredUnit_ok [OF assms(3-6)]) (use new_TournamentBP_ok [OF assms(1)] assms(2) in auto)

section \<open>Reachable units\<close>

text \<open>Steps whose speculation starts at any branch.\<close>

definition bp_reach :: "('s, 'h) BPredOps \<Rightarrow> 'pc TheISA \<Rightarrow> ThreadID \<Rightarrow> ('s, 'h, 'pc) BPredUnit \<Rightarrow> ('s, 'h, 'pc) BPredUnit \<Rightarrow> bool" where
  "bp_reach ops isa tid = (\<lambda>u u'. \<exists>lo. bp_step ops isa False tid lo u u')\<^sup>*\<^sup>*"

text \<open>A sequence number that is newer than all branches of the thread.\<close>

definition bp_fresh :: "ThreadID \<Rightarrow> u64 \<Rightarrow> ('s, 'h, 'pc) BPredUnit \<Rightarrow> bool" where
  "bp_fresh tid sn u \<longleftrightarrow> (\<forall>e\<in>set (bp_hist tid u). ph_seqNum e < sn) \<and> (\<forall>x\<in>set (ip_path tid (bp_iPred u)). he_seqNum x < sn)"

text \<open>Every operation that the pipeline can call succeeds.\<close>

definition bp_accepts :: "('s, 'h) BPredOps \<Rightarrow> 'pc TheISA \<Rightarrow> ThreadID \<Rightarrow> ('s, 'h, 'pc) BPredUnit \<Rightarrow> bool" where
  "bp_accepts ops isa tid u \<longleftrightarrow>
     (\<forall>inst sn pc. bp_fresh tid sn u \<longrightarrow> (\<exists>r. bp_predict ops isa inst sn pc tid u = Ok r)) \<and>
     (\<forall>sn. \<exists>v. bp_update ops sn tid u = Ok v) \<and> (\<forall>sn. \<exists>v. bp_squash ops sn tid u = Ok v) \<and>
     (\<forall>sn draw t taken. 0 < sn \<and> sn \<in> ph_seqNum ` set (bp_hist tid u) \<longrightarrow> (\<exists>v. bp_squash_branch ops isa draw sn t taken tid u = Ok v))"

context direction_predictor
begin

lemma reach_Ok:
  assumes "bp_reach P isa tid u u'" "bp_ok ok cfg threads made tid u"
  shows "bp_ok ok cfg threads made tid u'"
  using assms(1) unfolding bp_reach_def
proof (induction rule: rtranclp_induct)
  case (step v w)
  then show ?case using step_Ok by blast
qed (use assms(2) in simp)

lemma reach_accepts:
  assumes "bp_reach P isa tid u u'" "bp_ok ok cfg threads made tid u"
  shows "bp_accepts P isa tid u'"
  using run_progress [OF rtranclp.rtrancl_refl reach_Ok [OF assms]] unfolding bp_accepts_def bp_fresh_def by blast

lemma reach_squash:
  assumes "bp_reach P isa tid u0 u" "bp_ok ok cfg threads made tid u0" "(bp_step P isa known tid lo)\<^sup>*\<^sup>* u u'" "(\<forall>h. safe h) \<or> known"
    "\<forall>e\<in>set (bp_hist tid u). ph_seqNum e \<le> lo"
  shows "\<exists>u''. bp_squash P lo tid u' = Ok u'' \<and> spec (bp_dir u'') = spec (bp_dir u)"
  using run_squash [OF assms(3) reach_Ok [OF assms(1,2)] assms(4,5)] by blast

end

section \<open>Concrete units\<close>

definition demo_tournament :: TournamentBPParams where
  "demo_tournament = \<lparr>tp_numThreads = 1, tp_localPredictorSize = 4, tp_localCtrBits = 2, tp_localHistoryTableSize = 2, tp_globalPredictorSize = 4,
     tp_globalCtrBits = 2, tp_choicePredictorSize = 4, tp_choiceCtrBits = 2, tp_instShiftAmt = 2\<rparr>"

definition demo_params :: BranchPredictorParams where
  "demo_params = \<lparr>bpp_numThreads = 1, bpp_BTBEntries = 4, bpp_BTBTagSize = 16, bpp_RASSize = 4, bpp_instShiftAmt = 2, bpp_useIndirect = True,
     bpp_indirect = \<lparr>ipp_hash_ghr = True, ipp_hash_targets = True, ipp_num_sets = 2, ipp_num_ways = 2, ipp_tag_bits = 16, ipp_path_len = 3\<rparr>\<rparr>"

definition demo_unit :: "(TournamentBP, TournamentHistory, PCState) BPredUnit result" where
  "demo_unit = bindR (new_TournamentBP 0 demo_tournament) (\<lambda>dir. new_BPredUnit arm_isa 0 dir demo_params)"

definition demo_bi_mode :: "(BiModeBP, BiModeHistory, PCState) BPredUnit result" where
  "demo_bi_mode = bindR (new_BiModeBP 0 1 4 2 4 2 2) (\<lambda>dir. new_BPredUnit arm_isa 0 dir demo_params)"

lemma demo_made:
  obtains dir u where "new_TournamentBP 0 demo_tournament = Ok dir" "new_BPredUnit arm_isa 0 dir demo_params = Ok u" "demo_unit = Ok u"
proof -
  have "case demo_unit of Ok _ \<Rightarrow> True | Error _ \<Rightarrow> False" by code_simp
  then show thesis by (auto simp: demo_unit_def bindR_Ok_iff split: result.splits intro: that)
qed

lemma demo_bi_mode_made:
  obtains dir u where "new_BiModeBP 0 1 4 2 4 2 2 = Ok dir" "new_BPredUnit arm_isa 0 dir demo_params = Ok u" "demo_bi_mode = Ok u"
proof -
  have "case demo_bi_mode of Ok _ \<Rightarrow> True | Error _ \<Rightarrow> False" by code_simp
  then show thesis by (auto simp: demo_bi_mode_def bindR_Ok_iff split: result.splits intro: that)
qed

lemma demo_params_ok:
  "tp_numThreads demo_tournament = bpp_numThreads demo_params" "bpp_numThreads demo_params = 1" "bpp_ok demo_params" "(0 :: int) < int (unat (bpp_numThreads demo_params))"
  by (simp_all add: bpp_ok_def demo_params_def demo_tournament_def)

abbreviation cond_branch :: StaticInst where
  "cond_branch \<equiv> \<lparr>si_isUncondCtrl = False, si_isReturn = False, si_isCall = False, si_isDirectCtrl = True\<rparr>"

abbreviation call_inst :: StaticInst where
  "call_inst \<equiv> \<lparr>si_isUncondCtrl = True, si_isReturn = False, si_isCall = True, si_isDirectCtrl = True\<rparr>"

section \<open>Speculation is taken back\<close>

text \<open>C16: in every state that a thread brings a new unit over the tournament predictor to, and whatever it then predicts, resolves and squashes
  beyond the branch \<open>lo\<close> while older branches commit, squashing back to \<open>lo\<close> succeeds and restores the global and the local histories from which
  predictions are made, provided that unconditional jumps are predicted with a known target.\<close>

theorem tournament_squash_restores:
  assumes "new_TournamentBP junk q = Ok dir" "tp_numThreads q = bpp_numThreads r" "new_BPredUnit isa junk' dir r = Ok u0" "bpp_ok r" "0 \<le> tid"
    "tid < int (unat (bpp_numThreads r))" "bp_reach TournamentBP_ops isa tid u0 u" "\<forall>e\<in>set (bp_hist tid u). ph_seqNum e \<le> lo"
    "(bp_step TournamentBP_ops isa True tid lo)\<^sup>*\<^sup>* u u'"
  shows "\<exists>u''. bp_squash TournamentBP_ops lo tid u' = Ok u'' \<and> tb_spec (bp_dir u'') = tb_spec (bp_dir u)"
  using tournament.reach_squash [OF assms(7) new_tournament_unit [OF assms(1-6)] assms(9) _ assms(8)] by blast

text \<open>The witness predicts a conditional branch and takes it back.\<close>

lemma demo_predict: "bindR demo_unit (\<lambda>u. bindR (bp_predict TournamentBP_ops arm_isa cond_branch 1 (PCState_at 64) 0 u) (\<lambda>(b, t, _). Ok (b, t))) = Ok (False, PCState_at 68)"
  by code_simp

theorem tournament_squash_restores_witness:
  "\<exists>u u' u''. demo_unit = Ok u \<and> bp_predict TournamentBP_ops arm_isa cond_branch 1 (PCState_at 64) 0 u = Ok (False, PCState_at 68, u') \<and>
     bp_squash TournamentBP_ops 0 0 u' = Ok u'' \<and> tb_spec (bp_dir u'') = tb_spec (bp_dir u)"
proof -
  obtain dir u where u: "new_TournamentBP 0 demo_tournament = Ok dir" "new_BPredUnit arm_isa 0 dir demo_params = Ok u" "demo_unit = Ok u" by (rule demo_made)
  obtain u' where p: "bp_predict TournamentBP_ops arm_isa cond_branch 1 (PCState_at 64) 0 u = Ok (False, PCState_at 68, u')"
    using demo_predict unfolding u(3) bindR.simps by (auto simp: bindR_Ok_iff)
  note d = demo_params_ok(1,3,4)
  note e = new_BPredUnit_parts(2,3) [OF u(2) d(2) order_refl d(3)]
  have "bp_step TournamentBP_ops arm_isa True 0 0 u u'" using p e by (intro bp_step.Predict [where sn = 1]) (auto simp: jump_known_def)
  then have "(bp_step TournamentBP_ops arm_isa True 0 0)\<^sup>*\<^sup>* u u'" by blast
  moreover have "bp_reach TournamentBP_ops arm_isa 0 u u" by (simp add: bp_reach_def)
  ultimately show ?thesis
    using tournament_squash_restores [OF u(1) d(1) u(2) d(2) order_refl d(3), of u 0 u'] e(1) u(3) p by auto
qed

text \<open>C17: no operation of the unit fails: over each of the three direction predictors, in every state that a thread brings a new unit to, the next
  branch can be predicted, branches can commit and be squashed, and a mispredicted branch can be corrected; no index leaves its table and no assertion fails.
  The unit's parameters are such that its arithmetic is defined: a stack and a path of some length, at least one way, and tags of less than 31 bits.\<close>

theorem unit_never_fails:
  assumes "bpp_ok r" "0 \<le> tid" "tid < int (unat (bpp_numThreads r))"
  shows "(new_LocalBP junk n b sh = Ok lo \<and> new_BPredUnit isa junk' lo r = Ok u \<and> bp_reach LocalBP_ops isa tid u u' \<longrightarrow> bp_accepts LocalBP_ops isa tid u') \<and>
    (new_BiModeBP junk (bpp_numThreads r) cs cb gs gb sh = Ok bm \<and> new_BPredUnit isa junk' bm r = Ok v \<and> bp_reach BiModeBP_ops isa tid v v' \<longrightarrow>
      bp_accepts BiModeBP_ops isa tid v') \<and>
    (new_TournamentBP junk q = Ok t \<and> tp_numThreads q = bpp_numThreads r \<and> new_BPredUnit isa junk' t r = Ok w \<and> bp_reach TournamentBP_ops isa tid w w' \<longrightarrow>
      bp_accepts TournamentBP_ops isa tid w')"
proof (intro conjI impI; elim conjE)
  assume a: "new_LocalBP junk n b sh = Ok lo" "new_BPredUnit isa junk' lo r = Ok u" "bp_reach LocalBP_ops isa tid u u'"
  show "bp_accepts LocalBP_ops isa tid u'" by (rule local_bp.reach_accepts [OF a(3) new_local_unit [OF a(1,2) assms]])
next
  assume a: "new_BiModeBP junk (bpp_numThreads r) cs cb gs gb sh = Ok bm" "new_BPredUnit isa junk' bm r = Ok v" "bp_reach BiModeBP_ops isa tid v v'"
  show "bp_accepts BiModeBP_ops isa tid v'" by (rule bi_mode.reach_accepts [OF a(3) new_bi_mode_unit [OF a(1,2) assms]])
next
  assume a: "new_TournamentBP junk q = Ok t" "tp_numThreads q = bpp_numThreads r" "new_BPredUnit isa junk' t r = Ok w" "bp_reach TournamentBP_ops isa tid w w'"
  show "bp_accepts TournamentBP_ops isa tid w'" by (rule tournament.reach_accepts [OF a(4) new_tournament_unit [OF a(1-3) assms]])
qed

theorem unit_never_fails_witness:
  "\<exists>u v. demo_unit = Ok u \<and> bp_accepts TournamentBP_ops arm_isa 0 u \<and> demo_bi_mode = Ok v \<and> bp_accepts BiModeBP_ops arm_isa 0 v"
proof -
  obtain d u where u: "new_TournamentBP 0 demo_tournament = Ok d" "new_BPredUnit arm_isa 0 d demo_params = Ok u" "demo_unit = Ok u" by (rule demo_made)
  obtain e v where v: "new_BiModeBP 0 1 4 2 4 2 2 = Ok e" "new_BPredUnit arm_isa 0 e demo_params = Ok v" "demo_bi_mode = Ok v" by (rule demo_bi_mode_made)
  have "bp_accepts BiModeBP_ops arm_isa 0 v \<and> bp_accepts TournamentBP_ops arm_isa 0 u"
    using conjunct2 [OF unit_never_fails [OF demo_params_ok(3) order_refl demo_params_ok(4), of 0 _ _ 2 _ arm_isa 0 _ _ 4 2 4 2 e v v demo_tournament d u u]]
      u v demo_params_ok(1,2) by (simp add: bp_reach_def)
  then show ?thesis using u(3) v(3) by blast
qed

text \<open>Squashing any sequence of predictions brings the return address stack back.\<close>

definition keeps_return_stack :: "('s, 'h) BPredOps \<Rightarrow> 'pc TheISA \<Rightarrow> ThreadID \<Rightarrow> ('s, 'h, 'pc) BPredUnit \<Rightarrow> bool" where
  "keeps_return_stack ops isa tid u \<longleftrightarrow>
     (\<forall>bs lo. sorted_wrt (<) (map (\<lambda>(_, sn, _). sn) bs) \<and> (\<forall>(_, sn, _)\<in>set bs. lo < sn) \<and>
        (\<forall>e\<in>set (bp_hist tid u). ph_seqNum e \<le> lo) \<and> (\<forall>x\<in>set (ip_path tid (bp_iPred u)). he_seqNum x \<le> lo) \<longrightarrow>
      (\<exists>u' u''. predict_all ops isa tid bs u = Ok u' \<and> bp_squash ops lo tid u' = Ok u'' \<and>
         ras_tos (bp_stack tid u'') = ras_tos (bp_stack tid u) \<and>
         (\<forall>k. k + calls bs < unat (ras_numEntries (bp_stack tid u)) \<longrightarrow> ras_slot (bp_stack tid u'') k = ras_slot (bp_stack tid u) k)))"

context direction_predictor
begin

lemma reach_keeps_stack:
  fixes u :: "('s, 'h, 'pc) BPredUnit"
  assumes "bp_reach P isa tid u0 u" "bp_ok ok cfg threads made tid u0"
  shows "keeps_return_stack P isa tid u"
  unfolding keeps_return_stack_def
proof (intro allI impI; elim conjE)
  fix bs :: "(StaticInst \<times> u64 \<times> 'pc) list" and lo :: u64
  assume "sorted_wrt (<) (map (\<lambda>(_, sn, _). sn) bs)" "\<forall>(_, sn, _)\<in>set bs. lo < sn"
    "\<forall>e\<in>set (bp_hist tid u). ph_seqNum e \<le> lo" "\<forall>x\<in>set (ip_path tid (bp_iPred u)). he_seqNum x \<le> lo"
  from squash_stack [OF reach_Ok [OF assms] this, of isa]
  show "\<exists>u' u''. predict_all P isa tid bs u = Ok u' \<and> bp_squash P lo tid u' = Ok u'' \<and>
         ras_tos (bp_stack tid u'') = ras_tos (bp_stack tid u) \<and>
         (\<forall>k. k + calls bs < unat (ras_numEntries (bp_stack tid u)) \<longrightarrow> ras_slot (bp_stack tid u'') k = ras_slot (bp_stack tid u) k)"
    by (auto simp: ras_agree_def)
qed

end

text \<open>C18: calls and returns on a wrong path do not lose the return addresses: over each of the three direction predictors, in every state that a thread
  brings a new unit to, any sequence of predictions with increasing sequence numbers beyond \<open>lo\<close>, no older branch being beyond it, can be made and
  squashed back to \<open>lo\<close>, which brings the return address stack back to the same top, with the same addresses in it except for as many of the oldest as
  calls were predicted.\<close>

theorem ras_restored:
  assumes "bpp_ok r" "0 \<le> tid" "tid < int (unat (bpp_numThreads r))"
  shows "(new_LocalBP junk n b sh = Ok lo \<and> new_BPredUnit isa junk' lo r = Ok u \<and> bp_reach LocalBP_ops isa tid u u' \<longrightarrow>
      keeps_return_stack LocalBP_ops isa tid u') \<and>
    (new_BiModeBP junk (bpp_numThreads r) cs cb gs gb sh = Ok bm \<and> new_BPredUnit isa junk' bm r = Ok v \<and> bp_reach BiModeBP_ops isa tid v v' \<longrightarrow>
      keeps_return_stack BiModeBP_ops isa tid v') \<and>
    (new_TournamentBP junk q = Ok t \<and> tp_numThreads q = bpp_numThreads r \<and> new_BPredUnit isa junk' t r = Ok w \<and> bp_reach TournamentBP_ops isa tid w w' \<longrightarrow>
      keeps_return_stack TournamentBP_ops isa tid w')"
proof (intro conjI impI; elim conjE)
  assume a: "new_LocalBP junk n b sh = Ok lo" "new_BPredUnit isa junk' lo r = Ok u" "bp_reach LocalBP_ops isa tid u u'"
  show "keeps_return_stack LocalBP_ops isa tid u'" by (rule local_bp.reach_keeps_stack [OF a(3) new_local_unit [OF a(1,2) assms]])
next
  assume a: "new_BiModeBP junk (bpp_numThreads r) cs cb gs gb sh = Ok bm" "new_BPredUnit isa junk' bm r = Ok v" "bp_reach BiModeBP_ops isa tid v v'"
  show "keeps_return_stack BiModeBP_ops isa tid v'" by (rule bi_mode.reach_keeps_stack [OF a(3) new_bi_mode_unit [OF a(1,2) assms]])
next
  assume a: "new_TournamentBP junk q = Ok t" "tp_numThreads q = bpp_numThreads r" "new_BPredUnit isa junk' t r = Ok w" "bp_reach TournamentBP_ops isa tid w w'"
  show "keeps_return_stack TournamentBP_ops isa tid w'" by (rule tournament.reach_keeps_stack [OF a(4) new_tournament_unit [OF a(1-3) assms]])
qed

text \<open>The witness predicts two calls and takes them back.\<close>

theorem ras_restored_witness:
  "\<exists>u v. demo_unit = Ok u \<and> demo_bi_mode = Ok v \<and>
     (\<exists>u' u''. predict_all TournamentBP_ops arm_isa 0 [(call_inst, 1, PCState_at 64), (call_inst, 2, PCState_at 128)] u = Ok u' \<and>
        bp_squash TournamentBP_ops 0 0 u' = Ok u'' \<and> ras_tos (bp_stack 0 u'') = ras_tos (bp_stack 0 u)) \<and>
     (\<exists>v' v''. predict_all BiModeBP_ops arm_isa 0 [(call_inst, 1, PCState_at 64), (call_inst, 2, PCState_at 128)] v = Ok v' \<and>
        bp_squash BiModeBP_ops 0 0 v' = Ok v'' \<and> ras_tos (bp_stack 0 v'') = ras_tos (bp_stack 0 v))"
proof -
  obtain d u where u: "new_TournamentBP 0 demo_tournament = Ok d" "new_BPredUnit arm_isa 0 d demo_params = Ok u" "demo_unit = Ok u" by (rule demo_made)
  obtain e v where v: "new_BiModeBP 0 1 4 2 4 2 2 = Ok e" "new_BPredUnit arm_isa 0 e demo_params = Ok v" "demo_bi_mode = Ok v" by (rule demo_bi_mode_made)
  have k: "keeps_return_stack BiModeBP_ops arm_isa 0 v \<and> keeps_return_stack TournamentBP_ops arm_isa 0 u"
    using conjunct2 [OF ras_restored [OF demo_params_ok(3) order_refl demo_params_ok(4), of 0 _ _ 2 _ arm_isa 0 _ _ 4 2 4 2 e v v demo_tournament d u u]]
      u v demo_params_ok(1,2) by (simp add: bp_reach_def)
  let ?bs = "[(call_inst, 1 :: u64, PCState_at 64), (call_inst, 2, PCState_at 128)]"
  have "sorted_wrt (<) (map (\<lambda>(_, sn, _). sn) ?bs) \<and> (\<forall>(_, sn, _)\<in>set ?bs. (0 :: u64) < sn)" by simp
  moreover note new_BPredUnit_parts(2,3) [OF u(2) demo_params_ok(3) order_refl demo_params_ok(4)]
    new_BPredUnit_parts(2,3) [OF v(2) demo_params_ok(3) order_refl demo_params_ok(4)]
  ultimately show ?thesis
    using conjunct1 [OF k, unfolded keeps_return_stack_def, rule_format, of ?bs 0]
      conjunct2 [OF k, unfolded keeps_return_stack_def, rule_format, of ?bs 0] u(3) v(3) by auto
qed

section \<open>Correction of mispredicted branches\<close>

lemma mask_push: "(push_bit k (x AND mask n) OR y) AND mask n = (push_bit k x OR y) AND (mask n :: u32)"
  by (rule bit_word_eqI) (auto simp: bit_simps)

text \<open>C19: when the outcome of a mispredicted branch is known and the younger branches are squashed, the tournament predictor has the histories that it would
  have had if the branch had been predicted with the outcome it turned out to have.\<close>

theorem tournament_recovery:
  assumes "TournamentBP_ok p" "0 \<le> tid" "tid < int (length (tb_globalHistory p))" "TournamentBP_lookup tid a p = Ok (b, h, p1)"
    "TournamentBP_ok p2" "tb_cfg p2 = tb_cfg p1" "tb_spec p2 = tb_spec p1"
  shows "\<exists>q r. TournamentBP_update tid a taken h True p2 = Ok q \<and>
    bindR (updateGlobalHist tid taken p) (updateLocalHist (calcLocHistIdx a p) taken) = Ok r \<and> tb_spec q = tb_spec r"
proof -
  let ?i = "unat (calcLocHistIdx a p)" and ?m = "tb_localPredictorMask p"
  from TournamentBP_lookup_Ok [OF assms(1-3), of a] obtain t g where
    l: "TournamentBP_lookup tid a p = Ok (t, Some g, p\<lparr>
      tb_globalHistory := (tb_globalHistory p)[nat tid := (push_bit 1 (tb_globalHistory p ! nat tid) OR of_bool t) AND tb_historyRegisterMask p],
      tb_localHistoryTable := (tb_localHistoryTable p)[?i := push_bit 1 (tb_localHistoryTable p ! ?i) OR of_bool t]\<rparr>)" and
    g: "th_globalHistory g = tb_globalHistory p ! nat tid" "th_localHistoryIdx g = calcLocHistIdx a p" "th_localHistory g = tb_localHistoryTable p ! ?i AND ?m" by blast
  have i: "?i < length (tb_localHistoryTable p)" using tb_idx_less(1) [OF assms(1), of a] tb_lengths(1) [OF assms(1)] by simp
  have h: "h = Some g" and p1: "tb_cfg p1 = tb_cfg p" "tb_globalHistory p1 = (tb_globalHistory p)[nat tid := (push_bit 1 (tb_globalHistory p ! nat tid) OR of_bool t) AND tb_historyRegisterMask p]"
      "tb_localHistoryTable p1 = (tb_localHistoryTable p)[?i := push_bit 1 (tb_localHistoryTable p ! ?i) OR of_bool t]" "tb_localPredictorMask p1 = ?m"
    using l assms(4) by (auto simp: tb_cfg_def)
  have c: "calcLocHistIdx a p2 = calcLocHistIdx a p" "tb_historyRegisterMask p2 = tb_historyRegisterMask p" "tb_localPredictorMask p2 = ?m"
      "length (tb_globalHistory p2) = length (tb_globalHistory p)"
    using assms(6) p1(1) by (simp_all add: tb_cfg_def calcLocHistIdx_def)
  have s: "tb_globalHistory p2 = tb_globalHistory p1" "map (\<lambda>l. l AND ?m) (tb_localHistoryTable p2) = map (\<lambda>l. l AND ?m) (tb_localHistoryTable p1)"
    using assms(7) c(3) p1(4) by (simp_all add: tb_spec_def)
  have v: "th_localHistory g \<noteq> invalidPredictorIndex" using idx_valid [OF tb_idx_less(2) [OF assms(1)]] g(3) by simp
  have t2: "tid < int (length (tb_globalHistory p2))" using assms(3) c(4) by simp
  let ?q = "p2\<lparr>tb_globalHistory := (tb_globalHistory p2)[nat tid := (push_bit 1 (th_globalHistory g) OR of_bool taken) AND tb_historyRegisterMask p],
    tb_localHistoryTable := (tb_localHistoryTable p2)[?i := push_bit 1 (th_localHistory g) OR of_bool taken]\<rparr>"
  have q: "TournamentBP_update tid a taken h True p2 = Ok ?q"
    unfolding h TournamentBP_correct_Ok [OF assms(5,2) t2] using v c by simp
  have m: "(push_bit 1 (x AND ?m) OR of_bool taken) AND ?m = (push_bit 1 x OR of_bool taken) AND ?m" for x
  proof -
    obtain k where "?m = mask k" using assms(1) by (auto simp: TournamentBP_ok_def mask_eq_exp_minus_1)
    then show ?thesis using mask_push [of 1] by simp
  qed
  have "bindR (updateGlobalHist tid taken p) (updateLocalHist (calcLocHistIdx a p) taken) =
    Ok (p\<lparr>tb_globalHistory := (tb_globalHistory p)[nat tid := (push_bit 1 (tb_globalHistory p ! nat tid) OR of_bool taken) AND tb_historyRegisterMask p],
      tb_localHistoryTable := (tb_localHistoryTable p)[?i := push_bit 1 (tb_localHistoryTable p ! ?i) OR of_bool taken]\<rparr>)"
    using updateGlobalHist_Ok [OF assms(2,3), of taken] i by (simp add: updateLocalHist_def)
  then show ?thesis using q s p1(2,3) c(3) g(1,3) m by (simp add: tb_updates map_update)
qed

theorem tournament_recovery_witness:
  "\<exists>p b h p1 q r. new_TournamentBP 0 demo_tournament = Ok p \<and> TournamentBP_lookup 0 64 p = Ok (b, h, p1) \<and> TournamentBP_update 0 64 True h True p1 = Ok q \<and>
     bindR (updateGlobalHist 0 True p) (updateLocalHist (calcLocHistIdx 64 p) True) = Ok r \<and> tb_spec q = tb_spec r"
proof -
  obtain p where p: "new_TournamentBP 0 demo_tournament = Ok p" by (rule demo_made)
  have ok: "TournamentBP_ok p" "(0 :: int) < int (length (tb_globalHistory p))"
    using new_TournamentBP_ok [OF p] by (simp_all add: tb_cfg_def demo_tournament_def)
  obtain b h p1 where l: "TournamentBP_lookup 0 64 p = Ok (b, h, p1)" "TournamentBP_ok p1"
    using tournament.lookup_Ok [OF ok(1) order_refl, of 64] ok(2) by (auto simp: tb_cfg_def TournamentBP_ops_def)
  from tournament_recovery [OF ok(1) order_refl ok(2) l(1,2) refl refl, of True] p l(1) show ?thesis by blast
qed

text \<open>The branch target buffer answers with the target it was given last for a branch of the thread, and a correction for one branch changes nothing
  for the branches in other entries.\<close>

theorem btb_roundtrip:
  assumes "btb_ok b"
  shows "\<exists>b'. btb_update a t tid b = Ok b' \<and> btb_valid a tid b' = Ok True \<and> btb_lookup z a tid b' = Ok t \<and>
    (\<forall>a2 tid2. btb_getIndex a2 tid2 b \<noteq> btb_getIndex a tid b \<longrightarrow> btb_lookup z a2 tid2 b' = btb_lookup z a2 tid2 b)"
proof -
  let ?b = "b\<lparr>btb_btb := (btb_btb b)[unat (btb_getIndex a tid b) := \<lparr>be_tag = btb_getTag a b, be_target = t, be_tid = tid, be_valid = True\<rparr>]\<rparr>"
  have i: "unat (btb_getIndex a tid b) < length (btb_btb b)" using btb_index_less [OF assms, of a tid] assms by (simp add: btb_ok_def)
  have u: "btb_update a t tid b = Ok ?b" using i assms by (simp add: btb_update_def Let_def btb_ok_def word_less_nat_alt)
  have ok: "btb_ok ?b" using assms by (simp add: btb_ok_def)
  have x: "btb_getIndex x y ?b = btb_getIndex x y b" "btb_getTag x ?b = btb_getTag x b" for x y by (simp_all add: btb_getIndex_def btb_getTag_def)
  show ?thesis using u i by (intro exI [of _ ?b]) (auto simp: btb_valid_def btb_lookup_def btb_hit_Ok [OF ok] btb_hit_Ok [OF assms] x Let_def word_unat_eq_iff)
qed

theorem btb_roundtrip_witness:
  "\<exists>b b'. new_DefaultBTB 0 (PCState_at 0) 4 16 2 1 = Ok b \<and> btb_update 64 (PCState_at 128) 0 b = Ok b' \<and>
     btb_lookup (PCState_at 0) 64 0 b' = Ok (PCState_at 128)"
proof -
  have "case new_DefaultBTB 0 (PCState_at 0) 4 16 2 1 of Ok _ \<Rightarrow> True | Error _ \<Rightarrow> False" by code_simp
  then obtain b where b: "new_DefaultBTB 0 (PCState_at 0) 4 16 2 1 = Ok b" by (auto split: result.splits)
  from btb_roundtrip [OF new_DefaultBTB_ok [OF b], of 64 "PCState_at 128" 0 "PCState_at 0"] b show ?thesis by blast
qed

section \<open>What the unit loses\<close>

text \<open>The inputs of the witnesses: a unit over the local predictor whose only counter says taken.\<close>

definition demo_local :: "(LocalBP, unit, PCState) BPredUnit result" where
  "demo_local = bindR (new_LocalBP 0 2 2 2) (\<lambda>p. bindR (LocalBP_update 0 64 True None False p) (\<lambda>p. bindR (LocalBP_update 0 64 True None False p) (\<lambda>p.
     new_BPredUnit arm_isa 0 p demo_params)))"

lemma demo_local_made:
  obtains dir u where "new_BPredUnit arm_isa 0 dir demo_params = Ok u" "demo_local = Ok u" "LocalBP_lookup 0 64 (bp_dir u) = Ok (True, None, bp_dir u)"
    "btb_valid 64 0 (bp_BTB u) = Ok False"
proof -
  have "case demo_local of Ok u \<Rightarrow> LocalBP_lookup 0 64 (bp_dir u) = Ok (True, None, bp_dir u) \<and> btb_valid 64 0 (bp_BTB u) = Ok False | Error _ \<Rightarrow> False" by code_simp
  then show thesis by (auto simp: demo_local_def bindR_Ok_iff split: result.splits intro: that)
qed

text \<open>C38: a conditional branch that the direction predictor takes but whose target is not in the branch target buffer is predicted not taken, yet its record says
  taken: if it is indeed not taken nothing corrects the record, and when the branch commits the direction predictor is trained with taken.\<close>

theorem btb_miss_trains_taken:
  assumes "bp_parts tid u" "bp_hist tid u = []" "\<not> si_isUncondCtrl inst" "\<not> si_isReturn inst" "\<not> si_isCall inst" "si_isDirectCtrl inst"
    "dp_lookup ops tid (isa_instAddr isa pc) (bp_dir u) = Ok (True, h, s)" "btb_valid (isa_instAddr isa pc) tid (bp_BTB u) = Ok False"
    "dp_btbUpdate ops tid (isa_instAddr isa pc) h s = Ok s'"
  shows "\<exists>u'. bp_predict ops isa inst sn pc tid u = Ok (False, isa_advancePC isa inst pc, u') \<and>
    commit_branches ops sn tid (bp_hist tid u') (bp_dir u') = bindR (dp_update ops tid (isa_instAddr isa pc) True h False s') (\<lambda>s. Ok ([], s))"
proof -
  define v where "v = u\<lparr>bp_lookups := Suc (bp_lookups u), bp_dir := s, bp_condPredicted := Suc (bp_condPredicted u), bp_BTBLookups := Suc (bp_BTBLookups u), bp_dir := s'\<rparr>"
  define d where "d = new_PredictorHistory (isa_zeroPC isa) sn (isa_instAddr isa pc) True h tid"
  have v: "bp_parts tid v" "bp_hist tid v = []" "bp_dir v = s'" using assms(1,2) by (simp_all add: v_def bp_parts_def)
  have "bp_predict ops isa inst sn pc tid u = Ok (False, isa_advancePC isa inst pc, v\<lparr>bp_predHist := (bp_predHist v)[nat tid := [d]]\<rparr>)"
    using assms(3-9) get_predHist_Ok [OF v(1)] set_predHist_Ok [OF v(1), of "[d]"] v(2)
    by (simp add: bp_predict_def predict_direction_def predict_target_def predict_direct_def Let_def d_def v_def) (simp add: new_PredictorHistory_def)
  then show ?thesis using v
    by (cases "dp_update ops tid (isa_instAddr isa pc) True h False s'") (simp_all add: d_def new_PredictorHistory_def bp_parts_def nat_less_iff)
qed

theorem btb_miss_trains_taken_witness:
  "\<exists>u u'. demo_local = Ok u \<and> bp_predict LocalBP_ops arm_isa cond_branch 1 (PCState_at 64) 0 u = Ok (False, PCState_at 68, u') \<and>
     commit_branches LocalBP_ops 1 0 (bp_hist 0 u') (bp_dir u') = bindR (LocalBP_update 0 64 True None False (bp_dir u)) (\<lambda>s. Ok ([], s))"
proof -
  obtain d u where u: "new_BPredUnit arm_isa 0 d demo_params = Ok u" "demo_local = Ok u" "LocalBP_lookup 0 64 (bp_dir u) = Ok (True, None, bp_dir u)"
    "btb_valid 64 0 (bp_BTB u) = Ok False" by (rule demo_local_made)
  have a: "isa_instAddr arm_isa (PCState_at 64) = 64" "isa_advancePC arm_isa cond_branch (PCState_at 64) = PCState_at 68" by code_simp+
  have o: "dp_lookup LocalBP_ops = LocalBP_lookup" "dp_btbUpdate LocalBP_ops = LocalBP_btbUpdate" "dp_update LocalBP_ops = LocalBP_update" by (simp_all add: LocalBP_ops_def)
  show ?thesis using btb_miss_trains_taken [OF new_BPredUnit_parts(1,2) [OF u(1) demo_params_ok(3) order_refl demo_params_ok(4)],
      of cond_branch LocalBP_ops arm_isa "PCState_at 64" None "bp_dir u" "bp_dir u" 1] u(2-4) unfolding a o by (auto simp: LocalBP_btbUpdate_def)
qed

text \<open>C39: a return that was predicted not taken and turns out to be taken is marked as having used the stack without recording where the top was: if it is
  squashed afterwards by an older branch, the top of the stack becomes entry 0 and the address there is overwritten by address 0, whatever the stack held.\<close>

theorem return_squash_corrupts:
  assumes "bp_parts tid u" "e = (new_PredictorHistory (isa_zeroPC isa) sn a taken h tid)\<lparr>ph_wasReturn := True\<rparr>"
  shows "\<exists>e' u' r. correct_taken isa draw g t tid e u = Ok (e', u') \<and> squash_RAS e' (bp_stack tid u') = Ok r \<and>
    ras_tos r = 0 \<and> ras_top r = Ok (isa_zeroPC isa)"
proof -
  have r: "ras_ok (bp_stack tid u)" "btb_ok (bp_BTB u)" using assms(1) by (simp_all add: bp_parts_def)
  obtain b where b: "btb_update a t tid (bp_BTB u) = Ok b" using btb_update_Ok [OF r(2)] by blast
  let ?u = "u\<lparr>bp_RAS := (bp_RAS u)[nat tid := ras_pop (bp_stack tid u)], bp_BTB := b\<rparr>" and ?e = "e\<lparr>ph_usedRAS := True\<rparr>"
  have c: "correct_taken isa draw g t tid e u = Ok (?e, ?u)"
    using b with_RAS_Ok [where f = "\<lambda>r. Ok (ras_pop r)", OF assms(1)] by (simp add: correct_taken_def assms(2) new_PredictorHistory_def)
  have p: "ras_ok (ras_pop (bp_stack tid u))" using ras_pop_ok [OF r(1)] .
  then have z: "0 < length (ras_addrStack (ras_pop (bp_stack tid u)))" using ras_ring [of "bp_stack tid u"] r(1) by (auto simp: ras_ok_def)
  have "squash_RAS ?e (bp_stack tid ?u) =
    Ok ((ras_pop (bp_stack tid u))\<lparr>ras_tos := 0, ras_addrStack := (ras_addrStack (ras_pop (bp_stack tid u)))[0 := isa_zeroPC isa]\<rparr>)"
    using assms(1) z by (simp add: squash_RAS_def assms(2) new_PredictorHistory_def ras_restore_def arr_set_def)
  then show ?thesis using c z by (auto simp: ras_top_def arr_get_def)
qed

theorem return_squash_corrupts_witness:
  "\<exists>u e u' r. demo_unit = Ok u \<and> squash_RAS e (bp_stack 0 u') = Ok r \<and> ras_top r = Ok (PCState_at 0) \<and>
     correct_taken arm_isa 0 0 (PCState_at 128) 0 ((new_PredictorHistory (PCState_at 0) 1 64 False None 0)\<lparr>ph_wasReturn := True\<rparr>) u = Ok (e, u')"
proof -
  obtain d u where u: "new_BPredUnit arm_isa 0 d demo_params = Ok u" "demo_unit = Ok u" by (rule demo_made)
  have z: "isa_zeroPC arm_isa = PCState_at 0" by (simp add: arm_isa_def)
  show ?thesis using return_squash_corrupts [OF new_BPredUnit_parts(1) [OF u(1) demo_params_ok(3) order_refl demo_params_ok(4)] refl,
      where isa = arm_isa and sn = 1 and a = 64 and taken = False and h = None and draw = 0 and g = 0 and t = "PCState_at 128"] u(2) unfolding z by blast
qed

text \<open>C40: an unconditional jump that misses in the branch target buffer clears the newest bit of the local history that its address selects, and squashing
  the jump does not bring the bit back: the condition of the recovery theorem is needed.\<close>

theorem jump_clears_history:
  assumes "TournamentBP_ok p" "0 \<le> tid" "tid < int (length (tb_globalHistory p))"
  shows "bindR (TournamentBP_uncondBranch tid a p) (\<lambda>(h, p). bindR (TournamentBP_btbUpdate tid a h p) (TournamentBP_squash tid h)) =
    Ok (p\<lparr>tb_localHistoryTable := (tb_localHistoryTable p)[unat (calcLocHistIdx a p) :=
      tb_localHistoryTable p ! unat (calcLocHistIdx a p) AND (tb_localPredictorMask p AND NOT 1)]\<rparr>)"
proof -
  obtain x where x: "updateGlobalHist tid True p = Ok (p\<lparr>tb_globalHistory := (tb_globalHistory p)[nat tid := x]\<rparr>)"
    using updateGlobalHist_Ok [OF assms(2,3)] by blast
  let ?p = "p\<lparr>tb_globalHistory := (tb_globalHistory p)[nat tid := x]\<rparr>"
  have p: "TournamentBP_ok ?p" "tid < int (length (tb_globalHistory ?p))" "calcLocHistIdx a ?p = calcLocHistIdx a p" using assms by (simp_all add: calcLocHistIdx_def)
  show ?thesis using x assms(2,3) TournamentBP_btbUpdate_Ok [OF p(1) assms(2) p(2), of a] p(3)
    by (simp add: TournamentBP_uncondBranch_def arr_get_def [of "tb_globalHistory p"] TournamentBP_squash_def arr_set_def)
qed

theorem jump_clears_history_witness:
  "\<exists>p q. new_TournamentBP 0 demo_tournament = Ok p \<and> bindR (updateLocalHist 0 True p)
     (\<lambda>p. bindR (TournamentBP_uncondBranch 0 64 p) (\<lambda>(h, p). bindR (TournamentBP_btbUpdate 0 64 h p) (TournamentBP_squash 0 h))) = Ok q \<and>
     tb_localHistoryTable q = [0, 0]"
proof -
  obtain p where p: "new_TournamentBP 0 demo_tournament = Ok p" by (rule demo_made)
  have "case new_TournamentBP 0 demo_tournament of Ok p \<Rightarrow> tb_localHistoryTable p = [0, 0] \<and> calcLocHistIdx 64 p = 0 | Error _ \<Rightarrow> False" by code_simp
  then have l: "tb_localHistoryTable p = [0, 0]" "calcLocHistIdx 64 p = 0" unfolding p by simp_all
  let ?p = "p\<lparr>tb_localHistoryTable := [1, 0]\<rparr>"
  have ok: "TournamentBP_ok ?p" "(0 :: int) < int (length (tb_globalHistory ?p))" "calcLocHistIdx 64 ?p = 0"
    using new_TournamentBP_ok [OF p] l by (simp_all add: tb_cfg_def demo_tournament_def calcLocHistIdx_def)
  have u: "updateLocalHist 0 True p = Ok ?p" using l(1) by (simp add: updateLocalHist_def arr_set_def)
  have m: "1 AND (x AND NOT 1) = (0 :: u32)" for x by (rule bit_word_eqI) (auto simp: bit_simps)
  show ?thesis using jump_clears_history [OF ok(1) order_refl ok(2), of 64] ok(3) u p m by simp
qed

end
