(* ===== verification/Chunk_Gen.thy ===== *)
theory Chunk_Gen
  imports Int_Math
begin

text \<open>
  \<^verbatim>\<open>base/chunk_generator.hh\<close>: the chunks into which an access is split so that none crosses a block of the given size. The loop
  \<^verbatim>\<open>for (gen; !gen.done(); gen.next())\<close> of its users is the list of its chunks.
\<close>

section \<open>The generator\<close>

record ChunkGenerator =
  cg_curAddr :: Addr
  cg_nextAddr :: Addr
  cg_curSize :: u32
  cg_sizeLeft :: u32
  cg_startAddr :: Addr
  cg_chunkSize :: u32

definition new_ChunkGenerator :: "Addr \<Rightarrow> u32 \<Rightarrow> u32 \<Rightarrow> ChunkGenerator result" where
  "new_ChunkGenerator startAddr totalSize chunkSize =
     bindR (assertR (chunkSize = 0 \<or> isPowerOf2 (ucast chunkSize)) AssertFail) (\<lambda>_.
       let nextAddr = (if chunkSize = 0 then startAddr + ucast totalSize
                       else let n = roundUp startAddr (ucast chunkSize) in if startAddr = n then n + ucast chunkSize else n);
           left_in_chunk = ucast (nextAddr - startAddr);
           curSize = min totalSize left_in_chunk
       in Ok \<lparr>cg_curAddr = startAddr, cg_nextAddr = nextAddr, cg_curSize = curSize, cg_sizeLeft = totalSize - curSize,
              cg_startAddr = startAddr, cg_chunkSize = chunkSize\<rparr>)"

definition cg_complete :: "ChunkGenerator \<Rightarrow> u32" where
  "cg_complete g = ucast (cg_curAddr g - cg_startAddr g)"

definition cg_done :: "ChunkGenerator \<Rightarrow> bool" where
  "cg_done g \<longleftrightarrow> cg_curSize g = 0"

definition cg_last :: "ChunkGenerator \<Rightarrow> bool" where
  "cg_last g \<longleftrightarrow> cg_sizeLeft g = 0"

definition cg_next :: "ChunkGenerator \<Rightarrow> bool \<times> ChunkGenerator" where
  "cg_next g =
     (if cg_sizeLeft g = 0 then (False, g\<lparr>cg_curSize := 0\<rparr>)
      else let n = min (cg_sizeLeft g) (cg_chunkSize g) in
        (True, g\<lparr>cg_curAddr := cg_nextAddr g, cg_curSize := n, cg_sizeLeft := cg_sizeLeft g - n, cg_nextAddr := cg_nextAddr g + ucast n\<rparr>))"

function chunks :: "ChunkGenerator \<Rightarrow> (Addr \<times> u32) list" where
  "chunks g = (if cg_done g then [] else (cg_curAddr g, cg_curSize g) # chunks (snd (cg_next g)))"
  by auto

text \<open>Every step either uses up some of what is left or ends the loop.\<close>

termination
proof (relation "measure (\<lambda>g. unat (cg_sizeLeft g) + of_bool (cg_curSize g \<noteq> 0))", simp)
  fix g assume d: "\<not> cg_done g"
  let ?n = "min (cg_sizeLeft g) (cg_chunkSize g)"
  have "unat (cg_sizeLeft g - ?n) = unat (cg_sizeLeft g) - unat ?n" by (rule unat_sub) simp
  moreover have "?n = 0 \<or> 0 < unat ?n" by (simp add: unat_gt_0)
  moreover have "unat ?n \<le> unat (cg_sizeLeft g)" by (simp add: word_le_nat_alt [symmetric])
  ultimately show "(snd (cg_next g), g) \<in> measure (\<lambda>g. unat (cg_sizeLeft g) + of_bool (cg_curSize g \<noteq> 0))"
    using d by (cases "?n = 0") (auto simp: cg_next_def cg_done_def Let_def)
qed

declare chunks.simps [simp del]

section \<open>The chunks cover the region\<close>

text \<open>The addresses of a chunk, and of a region.\<close>

definition span :: "Addr \<times> u32 \<Rightarrow> Addr list" where
  "span = (\<lambda>(a, n). map (\<lambda>i. a + of_nat i) [0..<unat n])"

text \<open>What holds of a generator while it runs.\<close>

definition cg_ok :: "ChunkGenerator \<Rightarrow> bool" where
  "cg_ok g \<longleftrightarrow> unat (cg_curSize g) + unat (cg_sizeLeft g) < 2 ^ 32 \<and> (cg_curSize g = 0 \<longrightarrow> cg_sizeLeft g = 0) \<and>
     (cg_sizeLeft g \<noteq> 0 \<longrightarrow> cg_nextAddr g = cg_curAddr g + ucast (cg_curSize g) \<and> cg_chunkSize g \<noteq> 0)"

lemma cg_next_ok:
  assumes "cg_ok g" "cg_sizeLeft g \<noteq> 0"
  shows "cg_ok (snd (cg_next g))" "cg_curAddr (snd (cg_next g)) = cg_curAddr g + ucast (cg_curSize g)"
    "unat (cg_curSize (snd (cg_next g))) + unat (cg_sizeLeft (snd (cg_next g))) = unat (cg_sizeLeft g)"
    "cg_curSize (snd (cg_next g)) = min (cg_sizeLeft g) (cg_chunkSize g)"
proof -
  let ?n = "min (cg_sizeLeft g) (cg_chunkSize g)"
  have n: "unat (cg_sizeLeft g - ?n) = unat (cg_sizeLeft g) - unat ?n" "unat ?n \<le> unat (cg_sizeLeft g)" "?n \<noteq> 0"
    using assms by (auto simp: unat_sub word_le_nat_alt [symmetric] cg_ok_def min_def)
  then show "unat (cg_curSize (snd (cg_next g))) + unat (cg_sizeLeft (snd (cg_next g))) = unat (cg_sizeLeft g)"
    using assms by (simp add: cg_next_def Let_def)
  then show "cg_ok (snd (cg_next g))" using assms n by (auto simp: cg_ok_def cg_next_def Let_def)
  show "cg_curAddr (snd (cg_next g)) = cg_curAddr g + ucast (cg_curSize g)" "cg_curSize (snd (cg_next g)) = ?n"
    using assms by (simp_all add: cg_next_def cg_ok_def Let_def)
qed

lemma chunks_done: "cg_done g \<Longrightarrow> chunks g = []" "\<not> cg_done g \<Longrightarrow> chunks g = (cg_curAddr g, cg_curSize g) # chunks (snd (cg_next g))"
  by (simp_all add: chunks.simps [of g])

lemma ucast_of_nat_unat: "(ucast (n :: u32) :: u64) = of_nat (unat n)"
  by simp

lemma region_append:
  "map (\<lambda>i. a + of_nat i) [0..<unat n + m] = map (\<lambda>i. a + of_nat i) [0..<unat n] @ map (\<lambda>i. a + ucast n + of_nat i) [0..<m]" for a :: Addr and n :: u32
proof (induction m)
  case (Suc m)
  have "a + of_nat (unat n + m) = a + ucast n + of_nat m" by (simp add: add.assoc)
  then show ?case using Suc by simp
qed simp

lemma chunks_cover:
  "cg_ok g \<Longrightarrow> concat (map span (chunks g)) = map (\<lambda>i. cg_curAddr g + of_nat i) [0..<unat (cg_curSize g) + unat (cg_sizeLeft g)]"
proof (induction g rule: chunks.induct)
  case (1 g)
  show ?case
  proof (cases "cg_done g")
    case True
    then show ?thesis using 1(2) chunks_done(1) [OF True] by (simp add: cg_done_def cg_ok_def)
  next
    case False
    let ?g = "snd (cg_next g)"
    have c: "chunks g = (cg_curAddr g, cg_curSize g) # chunks ?g" by (rule chunks_done(2) [OF False])
    show ?thesis
    proof (cases "cg_sizeLeft g = 0")
      case True
      then have "chunks ?g = []" by (intro chunks_done(1)) (simp add: cg_next_def cg_done_def)
      then show ?thesis using c True by (simp add: span_def)
    next
      case left: False
      have "concat (map span (chunks ?g)) = map (\<lambda>i. cg_curAddr g + ucast (cg_curSize g) + of_nat i) [0..<unat (cg_sizeLeft g)]"
        using 1(1) [OF False cg_next_ok(1) [OF 1(2) left]] cg_next_ok(2,3) [OF 1(2) left] by simp
      then show ?thesis unfolding c region_append by (simp add: span_def)
    qed
  qed
qed

section \<open>No chunk crosses a block\<close>

definition in_block :: "nat \<Rightarrow> Addr \<times> u32 \<Rightarrow> bool" where
  "in_block k = (\<lambda>(a, n). 0 < unat n \<and> unat a mod 2 ^ k + unat n \<le> 2 ^ k)"

definition cg_aligned :: "nat \<Rightarrow> ChunkGenerator \<Rightarrow> bool" where
  "cg_aligned k g \<longleftrightarrow> unat (cg_curAddr g) mod 2 ^ k + unat (cg_curSize g) \<le> 2 ^ k \<and> (cg_sizeLeft g \<noteq> 0 \<longrightarrow> unat (cg_nextAddr g) mod 2 ^ k = 0) \<and>
     cg_chunkSize g = 2 ^ k"

lemma pow_dvd_64: "k < 32 \<Longrightarrow> (2 :: nat) ^ k dvd 2 ^ 64"
  by (intro le_imp_power_dvd) simp

lemma unat_mod_add: "k < 32 \<Longrightarrow> unat ((a :: u64) + b) mod 2 ^ k = (unat a + unat b) mod 2 ^ k"
  using mod_mod_cancel [OF pow_dvd_64, of k "unat a + unat b"] by (simp add: unat_word_ariths)

lemma cg_next_aligned:
  assumes "cg_aligned k g" "k < 32" "cg_sizeLeft g \<noteq> 0"
  shows "cg_aligned k (snd (cg_next g))"
proof -
  let ?n = "min (cg_sizeLeft g) (cg_chunkSize g)"
  have c: "unat (cg_chunkSize g) = 2 ^ k" using assms(1,2) by (simp add: cg_aligned_def unat_2p_word)
  have n: "unat ?n \<le> 2 ^ k" using c unfolding c [symmetric] by (simp only: word_le_nat_alt [symmetric] min.cobounded2)
  have "unat (cg_nextAddr g + ucast ?n) mod 2 ^ k = 0" if l: "cg_sizeLeft g - ?n \<noteq> 0"
  proof -
    have "?n = cg_chunkSize g" using l by (simp add: min_def split: if_splits)
    then have "unat (cg_nextAddr g + ucast ?n) mod 2 ^ k = (unat (cg_nextAddr g) + 2 ^ k) mod 2 ^ k"
      using unat_mod_add [OF assms(2), of "cg_nextAddr g" "ucast ?n"] c by (simp only: unat_ucast_u32_u64)
    then show ?thesis using assms(1,3) by (simp add: cg_aligned_def)
  qed
  then show ?thesis using assms n by (simp add: cg_aligned_def cg_next_def Let_def)
qed

lemma chunks_in_block: "cg_aligned k g \<Longrightarrow> k < 32 \<Longrightarrow> \<forall>c\<in>set (chunks g). in_block k c"
proof (induction g rule: chunks.induct)
  case (1 g)
  show ?case
  proof (cases "cg_done g")
    case False
    have "\<forall>c\<in>set (chunks (snd (cg_next g))). in_block k c"
    proof (cases "cg_sizeLeft g = 0")
      case True
      then have "chunks (snd (cg_next g)) = []" by (intro chunks_done(1)) (simp add: cg_next_def cg_done_def)
      then show ?thesis by simp
    qed (rule 1(1) [OF False cg_next_aligned [OF 1(2,3)] 1(3)])
    then show ?thesis using False 1(2) chunks_done(2) [OF False] by (simp add: in_block_def cg_aligned_def cg_done_def unat_gt_0)
  qed (simp add: chunks_done(1))
qed

lemma roundUp_ahead:
  assumes "k < 32"
  shows "roundUp a (2 ^ k) - a = of_nat ((2 ^ k - unat a mod 2 ^ k) mod 2 ^ k)"
proof -
  let ?y = "a + (2 ^ k - 1)" and ?r = "unat a mod 2 ^ k"
  have "unat (2 ^ k - 1 :: u64) = 2 ^ k - 1" using assms unat_minus_one [of "2 ^ k :: u64"] by (simp add: unat_2p_u64)
  then have m: "unat ?y mod 2 ^ k = (?r + (2 ^ k - 1)) mod 2 ^ k" unfolding unat_mod_add [OF assms, of a "2 ^ k - 1"] by (simp only: mod_add_left_eq)
  have r: "?r < 2 ^ k" by simp
  have c: "(2 ^ k - 1) - unat ?y mod 2 ^ k = (2 ^ k - ?r) mod 2 ^ k"
  proof (cases "?r = 0")
    case False
    have "?r + (2 ^ k - 1) = (?r - 1) + 2 ^ k" using False r by linarith
    then have "unat ?y mod 2 ^ k = ?r - 1" unfolding m using r by (simp only: mod_add_self2) (rule mod_less, linarith)
    then show ?thesis using False r mod_less [of "2 ^ k - ?r" "2 ^ k"] by linarith
  qed (simp add: m)
  have l: "unat ?y mod 2 ^ k \<le> 2 ^ k - 1" using mod_less_divisor [of "2 ^ k" "unat ?y", OF zero_less_power [OF zero_less_numeral]] by linarith
  have k: "k < 64" using assms by simp
  have "unat ?y = unat (roundDown ?y (2 ^ k)) + unat ?y mod 2 ^ k" unfolding unat_roundDown [OF k] by (rule div_mult_mod_eq [symmetric])
  then have "of_nat (unat ?y) = (of_nat (unat (roundDown ?y (2 ^ k)) + unat ?y mod 2 ^ k) :: u64)" by (rule arg_cong)
  then have "?y = roundDown ?y (2 ^ k) + of_nat (unat ?y mod 2 ^ k)" by simp
  moreover have "roundUp a (2 ^ k) = roundDown ?y (2 ^ k)" by (simp add: roundUp_def roundDown_def Let_def)
  ultimately have "roundUp a (2 ^ k) - a = (2 ^ k - 1) - of_nat (unat ?y mod 2 ^ k)" by (simp add: algebra_simps)
  also have "\<dots> = of_nat ((2 ^ k - 1) - unat ?y mod 2 ^ k)" unfolding of_nat_diff [OF l] by (simp add: of_nat_diff)
  finally show ?thesis unfolding c .
qed

text \<open>The start of the block after an address.\<close>

definition next_block :: "nat \<Rightarrow> Addr \<Rightarrow> Addr" where
  "next_block k a = (let n = roundUp a (2 ^ k) in if a = n then n + 2 ^ k else n)"

lemma next_block_ahead:
  assumes "k < 32"
  shows "unat (next_block k a - a) = 2 ^ k - unat a mod 2 ^ k" "unat (next_block k a) mod 2 ^ k = 0"
proof -
  define l where "l = 2 ^ k - unat a mod 2 ^ k"
  have r: "unat a mod 2 ^ k < 2 ^ k" by simp
  have "(2 :: nat) ^ k < 2 ^ 64" using assms by (intro power_strict_increasing) simp_all
  then have l: "0 < l" "l < 2 ^ 64" using r unfolding l_def by linarith+
  have u: "unat (of_nat l :: u64) = l" using l(2) by (intro unat_of_nat_small) simp
  have d: "next_block k a - a = of_nat l"
  proof (cases "unat a mod 2 ^ k = 0")
    case True
    then have "roundUp a (2 ^ k) = a" "l = 2 ^ k" using roundUp_ahead [OF assms, of a] by (simp_all add: l_def)
    then show ?thesis by (simp add: next_block_def)
  next
    case False
    then have "l mod 2 ^ k = l" using r unfolding l_def by (intro mod_less) linarith
    then have "roundUp a (2 ^ k) - a = of_nat l" using roundUp_ahead [OF assms, of a] unfolding l_def [symmetric] by simp
    moreover have "(of_nat l :: u64) \<noteq> 0" using u l(1) by (metis unat_0 less_irrefl)
    ultimately show ?thesis by (auto simp: next_block_def Let_def)
  qed
  show "unat (next_block k a - a) = 2 ^ k - unat a mod 2 ^ k" using u unfolding d l_def .
  have "a + of_nat l = next_block k a" using d by (metis add.commute diff_add_cancel)
  then have "unat (next_block k a) mod 2 ^ k = (unat a + l) mod 2 ^ k" using unat_mod_add [OF assms, of a "of_nat l"] u by simp
  moreover have "unat a + l = (unat a div 2 ^ k + 1) * 2 ^ k"
    using r div_mult_mod_eq [of "unat a" "2 ^ k"] unfolding l_def distrib_right by linarith
  ultimately show "unat (next_block k a) mod 2 ^ k = 0" by simp
qed

lemma new_ChunkGenerator_Ok:
  assumes "k < 32"
  shows "\<exists>g. new_ChunkGenerator a n (2 ^ k) = Ok g \<and> cg_ok g \<and> cg_aligned k g \<and> cg_curAddr g = a \<and> unat (cg_curSize g) + unat (cg_sizeLeft g) = unat n"
proof -
  define l where "l = 2 ^ k - unat a mod 2 ^ k"
  define c :: u32 where "c = ucast (next_block k a - a)"
  have r: "unat a mod 2 ^ k < 2 ^ k" by simp
  have "(2 :: nat) ^ k < 2 ^ 32" using assms by (intro power_strict_increasing) simp_all
  then have l: "0 < l" "l + unat a mod 2 ^ k = 2 ^ k" "l < 2 ^ 32" using r unfolding l_def by linarith+
  have d: "unat (next_block k a - a) = l" unfolding l_def by (rule next_block_ahead(1) [OF assms])
  then have c: "unat c = l" using l(3) by (simp add: c_def unsigned_ucast_eq take_bit_nat_eq_self)
  have uc: "ucast c = next_block k a - a" by (simp add: word_unat_eq_iff c d)
  have u: "(ucast (2 ^ k :: u32) :: u64) = 2 ^ k" using assms by (simp add: word_unat_eq_iff unat_2p_word)
  have p: "isPowerOf2 (ucast (2 ^ k :: u32))" unfolding u isPowerOf2_iff using assms by (intro exI [of _ k]) simp
  have z: "(2 ^ k :: u32) \<noteq> 0" using assms unat_2p_word [where 'a = 32, of k] by (auto simp: word_unat_eq_iff)
  define s where "s = min n c"
  have s: "unat (n - s) = unat n - unat s" "unat s \<le> unat n" "unat s \<le> l" "s = 0 \<longrightarrow> n = 0"
    using c l(1) by (auto simp: s_def unat_sub word_le_nat_alt [symmetric] min_def unat_gt_0 split: if_splits simp flip: c)
  let ?g = "\<lparr>cg_curAddr = a, cg_nextAddr = next_block k a, cg_curSize = s, cg_sizeLeft = n - s, cg_startAddr = a, cg_chunkSize = 2 ^ k\<rparr>"
  have g: "new_ChunkGenerator a n (2 ^ k) = Ok ?g" using p z by (simp add: new_ChunkGenerator_def Let_def u next_block_def s_def c_def)
  have nx: "next_block k a = a + ucast s" if "n - s \<noteq> 0"
  proof -
    have "s = c" using that by (auto simp: s_def min_def)
    then show ?thesis using uc by simp
  qed
  have "unat s + unat (n - s) = unat n" using s(1,2) by simp
  moreover have "cg_ok ?g" using s nx z unat_less_u32 [of n] by (auto simp: cg_ok_def)
  moreover have "cg_aligned k ?g" using s(3) l(2) next_block_ahead(2) [OF assms, of a] by (simp add: cg_aligned_def)
  ultimately show ?thesis using g by (intro exI [of _ ?g]) simp
qed

text \<open>Only the first and the last chunk are shorter than a block.\<close>

lemma chunks_count: "cg_aligned k g \<Longrightarrow> cg_ok g \<Longrightarrow> k < 32 \<Longrightarrow> length (chunks g) \<le> 1 + (unat (cg_sizeLeft g) + 2 ^ k - 1) div 2 ^ k"
proof (induction g rule: chunks.induct)
  case (1 g)
  let ?g = "snd (cg_next g)" and ?l = "unat (cg_sizeLeft g)"
  show ?case
  proof (cases "cg_done g")
    case False
    note c = chunks_done(2) [OF False]
    show ?thesis
    proof (cases "cg_sizeLeft g = 0")
      case True
      then have "chunks ?g = []" by (intro chunks_done(1)) (simp add: cg_next_def cg_done_def)
      then show ?thesis using c by simp
    next
      case left: False
      have k: "unat (cg_chunkSize g) = 2 ^ k" using 1(2,4) by (simp add: cg_aligned_def unat_2p_word)
      have ih: "length (chunks ?g) \<le> 1 + (unat (cg_sizeLeft ?g) + 2 ^ k - 1) div 2 ^ k"
        by (rule 1(1) [OF False cg_next_aligned [OF 1(2,4) left] cg_next_ok(1) [OF 1(3) left] 1(4)])
      have "unat (min (cg_sizeLeft g) (cg_chunkSize g)) = min ?l (2 ^ k)" by (auto simp: min_def word_le_nat_alt k)
      then have l: "unat (cg_sizeLeft ?g) = ?l - min ?l (2 ^ k)" using cg_next_ok(3,4) [OF 1(3) left] by simp
      have "0 < ?l" using left by (simp add: unat_gt_0)
      then have "(?l + 2 ^ k - 1) div 2 ^ k = 1 + (?l - 1) div 2 ^ k" using div_add_self2 [of "2 ^ k" "?l - 1"] by simp
      moreover have "(unat (cg_sizeLeft ?g) + 2 ^ k - 1) div 2 ^ k \<le> (?l - 1) div 2 ^ k" unfolding l
        by (cases "?l \<le> 2 ^ k") (simp_all add: div_le_mono)
      ultimately show ?thesis using ih c by simp
    qed
  qed (simp add: chunks_done(1))
qed

text \<open>An access of any size from any address is split into non-empty chunks that cover exactly its addresses in order, each within one block of the given
  power of two; there are at most two more of them than whole blocks in its size.\<close>

lemma chunks_of_region:
  assumes "k < 32"
  shows "\<exists>g. new_ChunkGenerator a n (2 ^ k) = Ok g \<and> concat (map span (chunks g)) = span (a, n) \<and> (\<forall>c\<in>set (chunks g). in_block k c) \<and>
    length (chunks g) \<le> unat n div 2 ^ k + 2"
proof -
  obtain g where g: "new_ChunkGenerator a n (2 ^ k) = Ok g" "cg_ok g" "cg_aligned k g" "cg_curAddr g = a" "unat (cg_curSize g) + unat (cg_sizeLeft g) = unat n"
    using new_ChunkGenerator_Ok [OF assms] by blast
  have "(unat (cg_sizeLeft g) + 2 ^ k - 1) div 2 ^ k \<le> (unat n + 2 ^ k) div 2 ^ k" using g(5) by (intro div_le_mono) simp
  then have "length (chunks g) \<le> unat n div 2 ^ k + 2" 
    using chunks_count [OF g(3,2) assms] div_add_self2 [of "2 ^ k" "unat n"] by simp
  then show ?thesis using g chunks_cover [OF g(2)] chunks_in_block [OF g(3) assms] by (simp add: span_def)
qed

end
