(* ===== verification/Page_Table.thy ===== *)
theory Page_Table
  imports Mem_Request Int_Math
begin

text \<open>
  The page table of an emulated process: \<^verbatim>\<open>mem/page_table.hh\<close> and \<^verbatim>\<open>mem/page_table.cc\<close>. The unordered map is a partial function; the order
  in which a checkpoint writes it is an argument. Sizes of regions are 64-bit signed integers.
\<close>

section \<open>State\<close>

record PTEntry =
  pte_paddr :: Addr
  pte_flags :: u64

record EmulationPageTable =
  pt_pTable :: "Addr \<rightharpoonup> PTEntry"
  pt_pageSize :: Addr
  pt_offsetMask :: Addr

definition Clobber :: u64 where "Clobber = 1"
definition Uncacheable :: u64 where "Uncacheable = 4"
definition ReadOnly :: u64 where "ReadOnly = 8"

definition new_EmulationPageTable :: "Addr \<Rightarrow> EmulationPageTable result" where
  "new_EmulationPageTable pageSize =
     bindR (floorLog2_64 pageSize) (\<lambda>l.
     bindR (assertR (isPowerOf2 pageSize) AssertFail) (\<lambda>_.
       Ok \<lparr>pt_pTable = Map.empty, pt_pageSize = pageSize, pt_offsetMask = mask_bits (int l)\<rparr>))"

definition pageAlign :: "Addr \<Rightarrow> EmulationPageTable \<Rightarrow> Addr" where
  "pageAlign a p = a AND NOT (pt_offsetMask p)"

definition pageOffset :: "Addr \<Rightarrow> EmulationPageTable \<Rightarrow> Addr" where
  "pageOffset a p = a AND pt_offsetMask p"

section \<open>Mappings\<close>

text \<open>The loops run over the pages of a region. The constructor excludes a page size of 0.\<close>

lemma uint_positive: "w \<noteq> 0 \<Longrightarrow> 0 < uint (w :: u64)"
  by (simp add: word_neq_0_conv word_less_def)

function pt_map_loop :: "bool \<Rightarrow> u64 \<Rightarrow> Addr \<Rightarrow> Addr \<Rightarrow> int \<Rightarrow> EmulationPageTable \<Rightarrow> EmulationPageTable result" where
  "pt_map_loop clobber fl vaddr paddr sz p =
     (if sz \<le> 0 \<or> pt_pageSize p = 0 then Ok p
      else if pt_pTable p vaddr \<noteq> None \<and> \<not> clobber then Error Panic
      else pt_map_loop clobber fl (vaddr + pt_pageSize p) (paddr + pt_pageSize p) (sz - uint (pt_pageSize p))
             (p\<lparr>pt_pTable := (pt_pTable p)(vaddr \<mapsto> \<lparr>pte_paddr = paddr, pte_flags = fl\<rparr>)\<rparr>))"
  by auto

termination
  by (relation "measure (\<lambda>(_, _, _, _, sz, _). nat sz)") (auto simp: uint_positive)

definition pt_map :: "Addr \<Rightarrow> Addr \<Rightarrow> int \<Rightarrow> u64 \<Rightarrow> EmulationPageTable \<Rightarrow> EmulationPageTable result" where
  "pt_map vaddr paddr sz fl p =
     bindR (assertR (pageOffset vaddr p = 0) AssertFail) (\<lambda>_. pt_map_loop (fl AND Clobber \<noteq> 0) fl vaddr paddr sz p)"

function pt_remap_loop :: "Addr \<Rightarrow> int \<Rightarrow> Addr \<Rightarrow> EmulationPageTable \<Rightarrow> EmulationPageTable result" where
  "pt_remap_loop vaddr sz new_vaddr p =
     (if sz \<le> 0 \<or> pt_pageSize p = 0 then Ok p
      else case pt_pTable p vaddr of
        None \<Rightarrow> Error AssertFail
      | Some e \<Rightarrow>
          if pt_pTable p new_vaddr \<noteq> None then Error AssertFail
          else pt_remap_loop (vaddr + pt_pageSize p) (sz - uint (pt_pageSize p)) (new_vaddr + pt_pageSize p)
                 (p\<lparr>pt_pTable := (pt_pTable p)(new_vaddr \<mapsto> e, vaddr := None)\<rparr>))"
  by auto

termination
  by (relation "measure (\<lambda>(_, sz, _, _). nat sz)") (auto simp: uint_positive)

definition pt_remap :: "Addr \<Rightarrow> int \<Rightarrow> Addr \<Rightarrow> EmulationPageTable \<Rightarrow> EmulationPageTable result" where
  "pt_remap vaddr sz new_vaddr p =
     bindR (assertR (pageOffset vaddr p = 0) AssertFail) (\<lambda>_.
     bindR (assertR (pageOffset new_vaddr p = 0) AssertFail) (\<lambda>_. pt_remap_loop vaddr sz new_vaddr p))"

function pt_unmap_loop :: "Addr \<Rightarrow> int \<Rightarrow> EmulationPageTable \<Rightarrow> EmulationPageTable result" where
  "pt_unmap_loop vaddr sz p =
     (if sz \<le> 0 \<or> pt_pageSize p = 0 then Ok p
      else if pt_pTable p vaddr = None then Error AssertFail
      else pt_unmap_loop (vaddr + pt_pageSize p) (sz - uint (pt_pageSize p)) (p\<lparr>pt_pTable := (pt_pTable p)(vaddr := None)\<rparr>))"
  by auto

termination
  by (relation "measure (\<lambda>(_, sz, _). nat sz)") (auto simp: uint_positive)

definition pt_unmap :: "Addr \<Rightarrow> int \<Rightarrow> EmulationPageTable \<Rightarrow> EmulationPageTable result" where
  "pt_unmap vaddr sz p = bindR (assertR (pageOffset vaddr p = 0) AssertFail) (\<lambda>_. pt_unmap_loop vaddr sz p)"

function pt_isUnmapped_loop :: "Addr \<Rightarrow> int \<Rightarrow> int \<Rightarrow> EmulationPageTable \<Rightarrow> bool" where
  "pt_isUnmapped_loop vaddr offset sz p =
     (if offset \<ge> sz \<or> pt_pageSize p = 0 then True
      else if pt_pTable p (vaddr + word_of_int offset) \<noteq> None then False
      else pt_isUnmapped_loop vaddr (offset + uint (pt_pageSize p)) sz p)"
  by auto

termination
  by (relation "measure (\<lambda>(_, offset, sz, _). nat (sz - offset))") (auto simp: uint_positive)

definition pt_isUnmapped :: "Addr \<Rightarrow> int \<Rightarrow> EmulationPageTable \<Rightarrow> bool result" where
  "pt_isUnmapped vaddr sz p = bindR (assertR (pageOffset vaddr p = 0) AssertFail) (\<lambda>_. Ok (pt_isUnmapped_loop vaddr 0 sz p))"

declare pt_map_loop.simps [simp del] pt_remap_loop.simps [simp del] pt_unmap_loop.simps [simp del] pt_isUnmapped_loop.simps [simp del]

section \<open>Translation\<close>

definition pt_lookup :: "Addr \<Rightarrow> EmulationPageTable \<Rightarrow> PTEntry option" where
  "pt_lookup vaddr p = pt_pTable p (pageAlign vaddr p)"

definition pt_translate :: "Addr \<Rightarrow> EmulationPageTable \<Rightarrow> Addr option" where
  "pt_translate vaddr p = (case pt_lookup vaddr p of None \<Rightarrow> None | Some e \<Rightarrow> Some (pageOffset vaddr p + pte_paddr e))"

datatype PTFault = NoFault | GenericPageTableFault Addr

definition pt_translate_req :: "Request \<Rightarrow> EmulationPageTable \<Rightarrow> (PTFault \<times> Request) result" where
  "pt_translate_req req p =
     bindR (req_getVaddr req) (\<lambda>vaddr. bindR (req_getSize req) (\<lambda>sz.
     bindR (assertR (pageAlign (vaddr + ucast sz - 1) p = pageAlign vaddr p) AssertFail) (\<lambda>_.
       case pt_translate vaddr p of
         None \<Rightarrow> Ok (GenericPageTableFault vaddr, req)
       | Some paddr \<Rightarrow>
           if (paddr AND (pt_pageSize p - 1)) + ucast sz > pt_pageSize p then Error Panic
           else Ok (NoFault, setPaddr paddr req))))"

definition pt_getMappings :: "Addr list \<Rightarrow> EmulationPageTable \<Rightarrow> (Addr \<times> Addr) list" where
  "pt_getMappings order p = map (\<lambda>v. (v, pte_paddr (the (pt_pTable p v)))) order"

section \<open>Checkpoints\<close>

text \<open>\<open>order\<close> lists the mapped addresses in the order of the unordered map.\<close>

definition pt_serialize :: "Addr list \<Rightarrow> EmulationPageTable \<Rightarrow> nat \<times> (Addr \<times> Addr \<times> u64) list" where
  "pt_serialize order p = (length order, map (\<lambda>v. (v, pte_paddr (the (pt_pTable p v)), pte_flags (the (pt_pTable p v)))) order)"

text \<open>\<^verbatim>\<open>emplace\<close> leaves an address that is already mapped alone.\<close>

definition pt_unserialize :: "nat \<times> (Addr \<times> Addr \<times> u64) list \<Rightarrow> EmulationPageTable \<Rightarrow> EmulationPageTable" where
  "pt_unserialize cp p =
     fold (\<lambda>(vaddr, paddr, fl) p. if pt_pTable p vaddr = None then p\<lparr>pt_pTable := (pt_pTable p)(vaddr \<mapsto> \<lparr>pte_paddr = paddr, pte_flags = fl\<rparr>)\<rparr> else p)
       (take (fst cp) (snd cp)) p"

section \<open>Invariant\<close>

definition pt_ok :: "nat \<Rightarrow> EmulationPageTable \<Rightarrow> bool" where
  "pt_ok k p \<longleftrightarrow> k < 63 \<and> pt_pageSize p = 2 ^ k \<and> pt_offsetMask p = mask k"

lemma new_EmulationPageTable_ok: "k < 63 \<Longrightarrow> \<exists>p. new_EmulationPageTable (2 ^ k) = Ok p \<and> pt_ok k p \<and> pt_pTable p = Map.empty"
proof -
  assume k: "k < 63"
  have "0 < (2 ^ k :: u64)" using k by (simp add: word_less_nat_alt unat_2p_u64)
  then obtain l where l: "floorLog2_64 (2 ^ k) = Ok l" "2 ^ l \<le> unat (2 ^ k :: u64)" "unat (2 ^ k :: u64) < 2 ^ Suc l" using floorLog2_64_log by blast
  then have "(2 :: nat) ^ l \<le> 2 ^ k" "(2 :: nat) ^ k < 2 ^ Suc l" using k by (simp_all add: unat_2p_u64)
  then have "l = k" by (metis le_antisym less_Suc_eq_le power_increasing_iff power_strict_increasing_iff one_less_numeral_iff semiring_norm(76))
  moreover have "isPowerOf2 (2 ^ k)" unfolding isPowerOf2_iff using k by (intro exI [of _ k]) simp
  ultimately show ?thesis using l(1) k by (simp add: new_EmulationPageTable_def pt_ok_def mask_bits_mask)
qed

lemma page_update [simp]: "pageAlign a (p\<lparr>pt_pTable := t\<rparr>) = pageAlign a p" "pageOffset a (p\<lparr>pt_pTable := t\<rparr>) = pageOffset a p" "pt_ok k (p\<lparr>pt_pTable := t\<rparr>) = pt_ok k p"
  by (simp_all add: pageAlign_def pageOffset_def pt_ok_def)

lemma pageAlign_roundDown: "pt_ok k p \<Longrightarrow> pageAlign a p = roundDown a (2 ^ k)"
  by (simp add: pageAlign_def roundDown_def pt_ok_def mask_eq_exp_minus_1 Let_def)

lemma unat_pageOffset: "pt_ok k p \<Longrightarrow> unat (pageOffset a p) = unat a mod 2 ^ k"
  unfolding pageOffset_def pt_ok_def by (simp only: take_bit_eq_mask [symmetric] unsigned_take_bit_eq) (simp add: take_bit_eq_mod)

lemma page_split: "pageAlign a p + pageOffset a p = a"
  proof -
  have "pageAlign a p + pageOffset a p = pageAlign a p OR pageOffset a p"
    by (rule disjunctive_add_eq_or) (rule bit_word_eqI, simp add: pageAlign_def pageOffset_def bit_simps)
  also have "\<dots> = a" by (rule bit_word_eqI) (auto simp: pageAlign_def pageOffset_def bit_simps)
  finally show ?thesis .
qed

text \<open>Addresses of one page.\<close>

lemma same_page:
  assumes "pt_ok k p" "unat a mod 2 ^ k + i < 2 ^ k"
  shows "pageAlign (a + of_nat i) p = pageAlign a p" "pageOffset (a + of_nat i) p = pageOffset a p + of_nat i"
proof -
  have k: "k < 63" using assms(1) by (simp add: pt_ok_def)
  have "(2 :: nat) ^ k dvd 2 ^ 64" using k by (intro le_imp_power_dvd) simp
  then obtain q where q: "(2 :: nat) ^ 64 = 2 ^ k * q" by (rule dvdE)
  have u: "unat (a + of_nat i) = unat a + i"
  proof -
    have "unat a div 2 ^ k < q" using unat_less_u64 [of a] unfolding q by (simp add: less_mult_imp_div_less mult.commute)
    then have "(unat a div 2 ^ k + 1) * 2 ^ k \<le> 2 ^ 64" unfolding q by (metis Suc_eq_plus1 Suc_leI mult.commute mult_le_mono2)
    then have l: "unat a + i < 2 ^ 64" using assms(2) div_mult_mod_eq [of "unat a" "2 ^ k"] unfolding distrib_right by linarith
    then show ?thesis using unat_of_nat_small [where 'a = 64, of i] by (simp add: unat_word_ariths)
  qed
  have d: "(unat a + i) div 2 ^ k = unat a div 2 ^ k" "(unat a + i) mod 2 ^ k = unat a mod 2 ^ k + i"
  proof -
    have "unat a + i = unat a div 2 ^ k * 2 ^ k + (unat a mod 2 ^ k + i)" using div_mult_mod_eq [of "unat a" "2 ^ k"] by linarith
    then show "(unat a + i) div 2 ^ k = unat a div 2 ^ k" "(unat a + i) mod 2 ^ k = unat a mod 2 ^ k + i" using assms(2) by (simp_all only: div_mult_self3 mod_mult_self3) simp_all
  qed
  have "unat (pageAlign (a + of_nat i) p) = unat (pageAlign a p)"
    using k d(1) u by (simp only: pageAlign_roundDown [OF assms(1)] unat_roundDown)
  then show e: "pageAlign (a + of_nat i) p = pageAlign a p" by (simp only: word_unat_eq_iff)
  have "pageAlign a p + pageOffset (a + of_nat i) p = pageAlign a p + (pageOffset a p + of_nat i)"
    using page_split [of "a + of_nat i" p] unfolding e add.assoc [symmetric] page_split [of a p] .
  then show "pageOffset (a + of_nat i) p = pageOffset a p + of_nat i" by (rule add_left_imp_eq)
qed

lemma translate_page:
  assumes "pt_ok k p" "pt_translate a p = Some pa" "unat a mod 2 ^ k + i < 2 ^ k"
  shows "pt_translate (a + of_nat i) p = Some (pa + of_nat i)"
  using assms(2) same_page [OF assms(1,3)] by (auto simp: pt_translate_def pt_lookup_def split: option.splits)

section \<open>Mapping a region\<close>

text \<open>The table after the pages of a region have been entered.\<close>

fun map_pages :: "Addr \<Rightarrow> u64 \<Rightarrow> Addr \<Rightarrow> Addr \<Rightarrow> nat \<Rightarrow> (Addr \<rightharpoonup> PTEntry) \<Rightarrow> (Addr \<rightharpoonup> PTEntry)" where
  "map_pages ps fl v pa 0 t = t"
| "map_pages ps fl v pa (Suc n) t = map_pages ps fl (v + ps) (pa + ps) n (t(v \<mapsto> \<lparr>pte_paddr = pa, pte_flags = fl\<rparr>))"

definition pages_of :: "nat \<Rightarrow> int \<Rightarrow> nat" where
  "pages_of k sz = nat ((sz + 2 ^ k - 1) div 2 ^ k)"

lemma pages_of_step: "0 < sz \<Longrightarrow> pages_of k sz = Suc (pages_of k (sz - 2 ^ k))" "sz \<le> 0 \<Longrightarrow> pages_of k sz = 0"
proof -
  assume "0 < sz"
  have "(sz + 2 ^ k - 1) div 2 ^ k = (sz - 2 ^ k + 2 ^ k - 1) div 2 ^ k + 1"
    using div_add_self2 [of "2 ^ k" "sz - 2 ^ k + 2 ^ k - 1"] by (simp add: algebra_simps)
  moreover have "0 \<le> (sz - 2 ^ k + 2 ^ k - 1) div 2 ^ k" using \<open>0 < sz\<close> by (intro pos_imp_zdiv_nonneg_iff [THEN iffD2]) auto
  ultimately show "pages_of k sz = Suc (pages_of k (sz - 2 ^ k))" by (simp add: pages_of_def)
next
  assume "sz \<le> 0"
  then have "sz + 2 ^ k - 1 < 2 ^ k" by simp
  then have "(sz + 2 ^ k - 1) div 2 ^ k \<le> (2 ^ k - 1) div 2 ^ k" by (intro zdiv_mono1) simp_all
  then show "pages_of k sz = 0" by (simp add: pages_of_def)
qed

lemma map_loop_pages:
  "pt_ok k p \<Longrightarrow> clobber \<or> (\<forall>i<pages_of k sz. pt_pTable p (v + of_nat i * 2 ^ k) = None \<and> (\<forall>j<i. of_nat j * 2 ^ k \<noteq> (of_nat i * 2 ^ k :: u64))) \<Longrightarrow>
    pt_map_loop clobber fl v pa sz p = Ok (p\<lparr>pt_pTable := map_pages (2 ^ k) fl v pa (pages_of k sz) (pt_pTable p)\<rparr>)"
proof (induction clobber fl v pa sz p rule: pt_map_loop.induct)
  case (1 clobber fl v pa sz p)
  show ?case
  proof (cases "sz \<le> 0")
    case False
    have ps: "pt_pageSize p = 2 ^ k" "uint (pt_pageSize p) = 2 ^ k" "pt_pageSize p \<noteq> 0"
      using 1(2) by (auto simp: pt_ok_def word_unat_eq_iff unat_2p_u64 uint_nat)
    have n: "pages_of k sz = Suc (pages_of k (sz - 2 ^ k))" using False by (intro pages_of_step(1)) simp
    let ?p = "p\<lparr>pt_pTable := (pt_pTable p)(v \<mapsto> \<lparr>pte_paddr = pa, pte_flags = fl\<rparr>)\<rparr>"
    have c: "\<not> (pt_pTable p v \<noteq> None \<and> \<not> clobber)" using 1(3) n by auto
    have "clobber \<or> (\<forall>i<pages_of k (sz - 2 ^ k). pt_pTable ?p (v + 2 ^ k + of_nat i * 2 ^ k) = None \<and> (\<forall>j<i. of_nat j * 2 ^ k \<noteq> (of_nat i * 2 ^ k :: u64)))"
    proof (cases clobber)
      case f: False
      show ?thesis
      proof (intro disjI2 allI impI)
        fix i assume i: "i < pages_of k (sz - 2 ^ k)"
        then have s: "pt_pTable p (v + of_nat (Suc i) * 2 ^ k) = None" "\<forall>j<Suc i. of_nat j * 2 ^ k \<noteq> (of_nat (Suc i) * 2 ^ k :: u64)"
          using 1(3) f n Suc_less_eq by auto
        have e: "v + 2 ^ k + of_nat i * 2 ^ k = v + of_nat (Suc i) * 2 ^ k" by (simp add: algebra_simps)
        have "of_nat (Suc i) * 2 ^ k \<noteq> (0 :: u64)" using s(2) [rule_format, of 0] by simp
        then have "v + of_nat (Suc i) * 2 ^ k \<noteq> v" by simp
        moreover have "\<forall>j<i. of_nat j * 2 ^ k \<noteq> (of_nat i * 2 ^ k :: u64)" using 1(3) f n i less_SucI by auto
        ultimately show "pt_pTable ?p (v + 2 ^ k + of_nat i * 2 ^ k) = None \<and> (\<forall>j<i. of_nat j * 2 ^ k \<noteq> (of_nat i * 2 ^ k :: u64))"
          unfolding e using s(1) by simp
      qed
    qed simp
    moreover have "pt_ok k ?p" using 1(2) by (simp add: pt_ok_def)
    ultimately have "pt_map_loop clobber fl (v + 2 ^ k) (pa + 2 ^ k) (sz - 2 ^ k) ?p =
        Ok (?p\<lparr>pt_pTable := map_pages (2 ^ k) fl (v + 2 ^ k) (pa + 2 ^ k) (pages_of k (sz - 2 ^ k)) (pt_pTable ?p)\<rparr>)"
      using 1(1) [OF _ c] False ps unfolding ps(1,2) by (simp del: fun_upd_apply)
    then show ?thesis using False ps c n by (subst pt_map_loop.simps) (simp del: fun_upd_apply)
  qed (simp add: pt_map_loop.simps [of clobber] pages_of_step(2))
qed

lemma map_pages_entry:
  assumes "n \<le> 2 ^ (64 - k)" "k < 63"
  shows "map_pages (2 ^ k) fl v pa n t a =
    (if \<exists>i<n. a = v + of_nat i * 2 ^ k then Some \<lparr>pte_paddr = pa + (a - v), pte_flags = fl\<rparr> else t a)"
  using assms(1)
proof (induction n arbitrary: v pa t)
  case (Suc n)
  have IH: "map_pages (2 ^ k) fl (v + 2 ^ k) (pa + 2 ^ k) n t' a =
      (if \<exists>i<n. a = v + 2 ^ k + of_nat i * 2 ^ k then Some \<lparr>pte_paddr = pa + 2 ^ k + (a - (v + 2 ^ k)), pte_flags = fl\<rparr> else t' a)" for t'
    using Suc by simp
  have e: "v + 2 ^ k + of_nat i * 2 ^ k = v + of_nat (Suc i) * 2 ^ k" for i by (simp add: algebra_simps)
  have d: "pa + 2 ^ k + (a - (v + 2 ^ k)) = pa + (a - v)" by simp
  have "(\<exists>i<Suc n. a = v + of_nat i * 2 ^ k) \<longleftrightarrow> a = v \<or> (\<exists>i<n. a = v + of_nat (Suc i) * 2 ^ k)"
    unfolding ex_simps Ex_less_Suc2 by simp
  then show ?case unfolding map_pages.simps IH e d by (cases "a = v") auto
qed simp

lemma pages_distinct:
  assumes "k < 63" "n \<le> 2 ^ (64 - k)" "i < n" "j < n" "of_nat j * 2 ^ k = (of_nat i * 2 ^ k :: u64)"
  shows "i = j"
proof -
  have "unat (of_nat m * 2 ^ k :: u64) = m * 2 ^ k" if "m < n" for m
  proof -
    have "m * 2 ^ k < 2 ^ (64 - k) * 2 ^ k" using that assms(2) by simp
    also have "\<dots> = 2 ^ 64" using assms(1) by (simp flip: power_add)
    finally have "unat (of_nat (m * 2 ^ k) :: u64) = m * 2 ^ k" by (intro unat_of_nat_small) simp
    then show ?thesis by simp
  qed
  then have "i * 2 ^ k = j * (2 ^ k :: nat)" using assms(3-5) by metis
  then show ?thesis by simp
qed

lemma map_loop_panic:
  "pt_ok k p \<Longrightarrow> \<exists>i<pages_of k sz. pt_pTable p (v + of_nat i * 2 ^ k) \<noteq> None \<Longrightarrow> pt_map_loop False fl v pa sz p = Error Panic"
proof (induction "pages_of k sz" arbitrary: v pa sz p)
  case (Suc n)
  have sz: "0 < sz" using Suc(2) pages_of_step(2) [of sz k] by fastforce
  have n: "pages_of k sz = Suc (pages_of k (sz - 2 ^ k))" by (rule pages_of_step(1) [OF sz])
  have ps: "pt_pageSize p = 2 ^ k" "uint (2 ^ k :: u64) = 2 ^ k" "(2 ^ k :: u64) \<noteq> 0"
    using Suc(3) by (auto simp: pt_ok_def word_unat_eq_iff unat_2p_u64 uint_nat)
  let ?p = "p\<lparr>pt_pTable := (pt_pTable p)(v \<mapsto> \<lparr>pte_paddr = pa, pte_flags = fl\<rparr>)\<rparr>"
  show ?case
  proof (cases "pt_pTable p v = None")
    case True
    then obtain i where i: "i < pages_of k (sz - 2 ^ k)" "pt_pTable p (v + of_nat (Suc i) * 2 ^ k) \<noteq> None"
      using Suc(4) n by (auto simp: less_Suc_eq_0_disj)
    have e: "v + of_nat (Suc i) * 2 ^ k = v + 2 ^ k + of_nat i * 2 ^ k" by (simp add: algebra_simps)
    have "pt_pTable ?p (v + 2 ^ k + of_nat i * 2 ^ k) \<noteq> None" using i(2) unfolding e by (simp add: add.assoc)
    then have "\<exists>i<pages_of k (sz - 2 ^ k). pt_pTable ?p (v + 2 ^ k + of_nat i * 2 ^ k) \<noteq> None" using i(1) by blast
    moreover have "n = pages_of k (sz - 2 ^ k)" "pt_ok k ?p" using Suc(2,3) n by (simp_all add: pt_ok_def)
    ultimately have "pt_map_loop False fl (v + 2 ^ k) (pa + 2 ^ k) (sz - 2 ^ k) ?p = Error Panic" using Suc(1) by blast
    then show ?thesis using True sz ps by (subst pt_map_loop.simps) (simp del: fun_upd_apply)
  qed (use sz ps in \<open>simp add: pt_map_loop.simps [of False]\<close>)
qed simp

section \<open>Properties\<close>

text \<open>C20: mapping a region of any size makes every address of its pages translate to the address at the same distance in the physical region, and leaves
  all other translations as they were; without the clobber flag it fails exactly when a page of the region is mapped already.\<close>

theorem map_translates:
  assumes "pt_ok k p" "pageOffset v p = 0" "pages_of k sz \<le> 2 ^ (64 - k)"
  shows "(fl AND Clobber = 0 \<and> (\<exists>i<pages_of k sz. pt_pTable p (v + of_nat i * 2 ^ k) \<noteq> None) \<longrightarrow> pt_map v pa sz fl p = Error Panic) \<and>
    (fl AND Clobber \<noteq> 0 \<or> (\<forall>i<pages_of k sz. pt_pTable p (v + of_nat i * 2 ^ k) = None) \<longrightarrow>
      (\<exists>p'. pt_map v pa sz fl p = Ok p' \<and> pt_ok k p' \<and>
        (\<forall>a. pt_translate a p' = (if \<exists>i<pages_of k sz. pageAlign a p = v + of_nat i * 2 ^ k then Some (pa + (a - v)) else pt_translate a p))))"
proof (intro conjI impI)
  assume "fl AND Clobber = 0 \<and> (\<exists>i<pages_of k sz. pt_pTable p (v + of_nat i * 2 ^ k) \<noteq> None)"
  then show "pt_map v pa sz fl p = Error Panic" using map_loop_panic [OF assms(1), of sz v fl pa] assms(2) by (simp add: pt_map_def)
next
  assume c: "fl AND Clobber \<noteq> 0 \<or> (\<forall>i<pages_of k sz. pt_pTable p (v + of_nat i * 2 ^ k) = None)"
  have k: "k < 63" using assms(1) by (simp add: pt_ok_def)
  let ?t = "map_pages (2 ^ k) fl v pa (pages_of k sz) (pt_pTable p)" and ?c = "fl AND Clobber \<noteq> 0"
  have "?c \<or> (\<forall>i<pages_of k sz. pt_pTable p (v + of_nat i * 2 ^ k) = None \<and> (\<forall>j<i. of_nat j * 2 ^ k \<noteq> (of_nat i * 2 ^ k :: u64)))"
  proof (cases ?c)
    case False
    have "of_nat j * 2 ^ k \<noteq> (of_nat i * 2 ^ k :: u64)" if "i < pages_of k sz" "j < i" for i j
      using pages_distinct [OF k assms(3) that(1), of j] that by auto
    then show ?thesis using c False by blast
  qed simp
  from map_loop_pages [OF assms(1) this, of fl pa] have m: "pt_map v pa sz fl p = Ok (p\<lparr>pt_pTable := ?t\<rparr>)" using assms(2) by (simp add: pt_map_def)
  have o: "pageOffset a p + (pa + (pageAlign a p - v)) = pa + (a - v)" for a
  proof -
    have "pageOffset a p + (pa + (pageAlign a p - v)) = pa + ((pageAlign a p + pageOffset a p) - v)" by simp
    then show ?thesis unfolding page_split .
  qed
  have "pt_translate a (p\<lparr>pt_pTable := ?t\<rparr>) = (if \<exists>i<pages_of k sz. pageAlign a p = v + of_nat i * 2 ^ k then Some (pa + (a - v)) else pt_translate a p)" for a
    unfolding pt_translate_def pt_lookup_def page_update using map_pages_entry [OF assms(3) k, of fl v pa "pt_pTable p" "pageAlign a p"] o [of a]
    by (cases "\<exists>i<pages_of k sz. pageAlign a p = v + of_nat i * 2 ^ k") auto
  then show "\<exists>p'. pt_map v pa sz fl p = Ok p' \<and> pt_ok k p' \<and>
        (\<forall>a. pt_translate a p' = (if \<exists>i<pages_of k sz. pageAlign a p = v + of_nat i * 2 ^ k then Some (pa + (a - v)) else pt_translate a p))"
    using m assms(1) by (intro exI [of _ "p\<lparr>pt_pTable := ?t\<rparr>"]) (simp add: pt_ok_def)
qed

theorem map_translates_witness:
  "\<exists>p p'. new_EmulationPageTable (2 ^ 12) = Ok p \<and> pt_map 0x10000 0x3000 5000 0 p = Ok p' \<and> pt_translate 0x11004 p' = Some 0x4004"
proof -
  obtain p where p: "new_EmulationPageTable (2 ^ 12) = Ok p" "pt_ok 12 p" "pt_pTable p = Map.empty" using new_EmulationPageTable_ok [of 12] by auto
  have n: "pages_of 12 5000 = 2" by (simp add: pages_of_def)
  have o: "pageOffset 0x10000 p = 0" "pageAlign 0x11004 p = 0x10000 + of_nat 1 * 2 ^ 12" using p(2) by (simp_all add: pageOffset_def pageAlign_def pt_ok_def mask_eq_exp_minus_1)
  from map_translates [OF p(2) o(1), where sz = 5000 and fl = 0 and pa = "0x3000"] obtain p' where p': "pt_map 0x10000 0x3000 5000 0 p = Ok p'"
    "pt_translate 0x11004 p' = (if \<exists>i<2. pageAlign 0x11004 p = 0x10000 + of_nat i * 2 ^ 12 then Some (0x3000 + (0x11004 - 0x10000)) else pt_translate 0x11004 p)"
    using p(3) n by auto
  have "\<exists>i<2. pageAlign 0x11004 p = 0x10000 + of_nat i * 2 ^ 12" using o(2) by (intro exI [of _ 1]) simp
  then show ?thesis using p(1) p' by simp
qed

end
