(* ===== verification/Port_Proxy.thy ===== *)
theory Port_Proxy
  imports Base_Cache Chunk_Gen Page_Table
begin

text \<open>
  How the simulator itself reads and writes the memory of a process: the proxy that splits an access into functional packets
  (\<^verbatim>\<open>mem/port_proxy.cc\<close>), the proxy that translates virtual addresses page by page (\<^verbatim>\<open>mem/se_translating_port_proxy.cc\<close>), and what it uses of a
  process and of the system to allocate pages (\<^verbatim>\<open>sim/process.cc\<close>, \<^verbatim>\<open>sim/system.cc\<close>, \<^verbatim>\<open>arch/arm/isa_traits.hh\<close>). The port is an argument: a
  function that serves a functional packet in a memory. A buffer that a pointer walks through is a list.
\<close>

section \<open>The physical proxy\<close>

type_synonym 'm functional = "Packet \<Rightarrow> 'm \<Rightarrow> (Packet \<times> 'm) result"

record 'm PortProxy =
  pp_port :: "'m functional"
  pp_cacheLineSize :: u32

text \<open>One packet of a blob, sent through the port at time \<open>now\<close>; \<open>ident\<close> is the address of its request.\<close>

definition send_chunk ::
  "u64 \<Rightarrow> Tick \<Rightarrow> 'm PortProxy \<Rightarrow> Command \<Rightarrow> u64 \<Rightarrow> Addr \<Rightarrow> u32 \<Rightarrow> u8 list \<Rightarrow> 'm \<Rightarrow> (Packet \<times> 'm) result" where
  "send_chunk ident now pp c flags a n buf m =
     bindR (new_Packet ident (Request_phys a n flags funcMasterId now) c) (\<lambda>pkt.
     bindR (dataStatic buf pkt) (\<lambda>pkt. pp_port pp pkt m))"

text \<open>The packet of a read writes into the caller's buffer, from which it takes its place.\<close>

fun read_chunks :: "u64 \<Rightarrow> Tick \<Rightarrow> 'm PortProxy \<Rightarrow> u64 \<Rightarrow> (Addr \<times> u32) list \<Rightarrow> u8 list \<Rightarrow> 'm \<Rightarrow> (u8 list \<times> 'm) result" where
  "read_chunks ident now pp flags [] p m = Ok (p, m)"
| "read_chunks ident now pp flags ((a, n) # cs) p m =
     bindR (send_chunk ident now pp ReadReq flags a n (take (unat n) p) m) (\<lambda>(pkt, m).
       case pk_data pkt of None \<Rightarrow> Error NullDeref
       | Some d \<Rightarrow> bindR (read_chunks ident now pp flags cs (drop (unat n) p) m) (\<lambda>(rest, m). Ok (d @ rest, m)))"

definition readBlobPhys :: "u64 \<Rightarrow> Tick \<Rightarrow> 'm PortProxy \<Rightarrow> Addr \<Rightarrow> u64 \<Rightarrow> u8 list \<Rightarrow> u32 \<Rightarrow> 'm \<Rightarrow> (u8 list \<times> 'm) result" where
  "readBlobPhys ident now pp addr flags p sz m =
     bindR (new_ChunkGenerator addr sz (pp_cacheLineSize pp)) (\<lambda>g. read_chunks ident now pp flags (chunks g) p m)"

fun write_chunks :: "u64 \<Rightarrow> Tick \<Rightarrow> 'm PortProxy \<Rightarrow> u64 \<Rightarrow> (Addr \<times> u32) list \<Rightarrow> u8 list \<Rightarrow> 'm \<Rightarrow> 'm result" where
  "write_chunks ident now pp flags [] p m = Ok m"
| "write_chunks ident now pp flags ((a, n) # cs) p m =
     bindR (send_chunk ident now pp WriteReq flags a n (take (unat n) p) m) (\<lambda>(_, m).
       write_chunks ident now pp flags cs (drop (unat n) p) m)"

definition writeBlobPhys :: "u64 \<Rightarrow> Tick \<Rightarrow> 'm PortProxy \<Rightarrow> Addr \<Rightarrow> u64 \<Rightarrow> u8 list \<Rightarrow> u32 \<Rightarrow> 'm \<Rightarrow> 'm result" where
  "writeBlobPhys ident now pp addr flags p sz m =
     bindR (new_ChunkGenerator addr sz (pp_cacheLineSize pp)) (\<lambda>g. write_chunks ident now pp flags (chunks g) p m)"

definition memsetBlobPhys :: "u64 \<Rightarrow> Tick \<Rightarrow> 'm PortProxy \<Rightarrow> Addr \<Rightarrow> u64 \<Rightarrow> u8 \<Rightarrow> u32 \<Rightarrow> 'm \<Rightarrow> 'm result" where
  "memsetBlobPhys ident now pp addr flags v sz m = writeBlobPhys ident now pp addr flags (replicate (unat sz) v) sz m"

text \<open>The accesses of \<^verbatim>\<open>PortProxy\<close> and of \<^verbatim>\<open>SecurePortProxy\<close>.\<close>

definition pp_readBlob :: "u64 \<Rightarrow> Tick \<Rightarrow> 'm PortProxy \<Rightarrow> Addr \<Rightarrow> u8 list \<Rightarrow> u32 \<Rightarrow> 'm \<Rightarrow> (u8 list \<times> 'm) result" where
  "pp_readBlob ident now pp addr p sz m = readBlobPhys ident now pp addr 0 p sz m"

definition pp_writeBlob :: "u64 \<Rightarrow> Tick \<Rightarrow> 'm PortProxy \<Rightarrow> Addr \<Rightarrow> u8 list \<Rightarrow> u32 \<Rightarrow> 'm \<Rightarrow> 'm result" where
  "pp_writeBlob ident now pp addr p sz m = writeBlobPhys ident now pp addr 0 p sz m"

definition pp_memsetBlob :: "u64 \<Rightarrow> Tick \<Rightarrow> 'm PortProxy \<Rightarrow> Addr \<Rightarrow> u8 \<Rightarrow> u32 \<Rightarrow> 'm \<Rightarrow> 'm result" where
  "pp_memsetBlob ident now pp addr v sz m = memsetBlobPhys ident now pp addr 0 v sz m"

definition spp_readBlob :: "u64 \<Rightarrow> Tick \<Rightarrow> 'm PortProxy \<Rightarrow> Addr \<Rightarrow> u8 list \<Rightarrow> u32 \<Rightarrow> 'm \<Rightarrow> (u8 list \<times> 'm) result" where
  "spp_readBlob ident now pp addr p sz m = readBlobPhys ident now pp addr SECURE p sz m"

definition spp_writeBlob :: "u64 \<Rightarrow> Tick \<Rightarrow> 'm PortProxy \<Rightarrow> Addr \<Rightarrow> u8 list \<Rightarrow> u32 \<Rightarrow> 'm \<Rightarrow> 'm result" where
  "spp_writeBlob ident now pp addr p sz m = writeBlobPhys ident now pp addr SECURE p sz m"

definition spp_memsetBlob :: "u64 \<Rightarrow> Tick \<Rightarrow> 'm PortProxy \<Rightarrow> Addr \<Rightarrow> u8 \<Rightarrow> u32 \<Rightarrow> 'm \<Rightarrow> 'm result" where
  "spp_memsetBlob ident now pp addr v sz m = memsetBlobPhys ident now pp addr SECURE v sz m"

section \<open>Pages of a process\<close>

definition PageShift :: nat where "PageShift = 12"
definition PageBytes :: u64 where "PageBytes = push_bit PageShift 1"

record MemState =
  ms_stackBase :: Addr
  ms_maxStackSize :: Addr
  ms_stackMin :: Addr

record System =
  sys_pagePtr :: Addr
  sys_totalSize :: u64

record Process =
  pr_pTable :: EmulationPageTable
  pr_memState :: MemState

text \<open>What an access of the emulated process can change.\<close>

record 'm World =
  w_mem :: 'm
  w_process :: Process
  w_system :: System

definition allocPhysPages :: "int \<Rightarrow> System \<Rightarrow> (Addr \<times> System) result" where
  "allocPhysPages npages s =
     (let return_addr = push_bit PageShift (sys_pagePtr s); pagePtr = sys_pagePtr s + word_of_int npages;
          next_return_addr = push_bit PageShift pagePtr;
          (return_addr, pagePtr) = (if range_contains (AddrRange_plain 0xffff0000 0xffffffff) next_return_addr
                                    then (0xffffffff, drop_bit PageShift 0xffffffff) else (return_addr, pagePtr))
      in if push_bit PageShift pagePtr > sys_totalSize s then Error Fatal else Ok (return_addr, s\<lparr>sys_pagePtr := pagePtr\<rparr>))"

text \<open>The number of pages is computed in 64 bits and stored in an \<^verbatim>\<open>int\<close>.\<close>

definition allocateMem :: "Addr \<Rightarrow> int \<Rightarrow> bool \<Rightarrow> 'm World \<Rightarrow> 'm World result" where
  "allocateMem vaddr sz clobber w =
     (let x = sz + uint PageBytes - 1; npages = sint (word_of_int (sgn x * (\<bar>x\<bar> div uint PageBytes)) :: u32) in
      bindR (allocPhysPages npages (w_system w)) (\<lambda>(paddr, s).
      bindR (pt_map vaddr paddr sz (if clobber then Clobber else 0) (pr_pTable (w_process w))) (\<lambda>p.
        Ok (w\<lparr>w_system := s, w_process := (w_process w)\<lparr>pr_pTable := p\<rparr>\<rparr>))))"

text \<open>The loop that lets the stack grow, with fuel: \<open>None\<close> when it is used up.\<close>

fun grow_stack :: "nat \<Rightarrow> Addr \<Rightarrow> Addr \<Rightarrow> Addr \<Rightarrow> Addr \<Rightarrow> 'm World \<Rightarrow> (Addr \<times> 'm World) option result" where
  "grow_stack fuel vaddr stack_base max_stack_size stack_min w =
     (if \<not> vaddr < stack_min then Ok (Some (stack_min, w))
      else case fuel of 0 \<Rightarrow> Ok None
      | Suc f \<Rightarrow>
          let stack_min = stack_min - PageBytes in
          if stack_base - stack_min > max_stack_size then Error Fatal
          else bindR (allocateMem stack_min (uint PageBytes) False w) (grow_stack f vaddr stack_base max_stack_size stack_min))"

declare grow_stack.simps [simp del]

definition fixupStackFault :: "nat \<Rightarrow> Addr \<Rightarrow> 'm World \<Rightarrow> (bool \<times> 'm World) option result" where
  "fixupStackFault fuel vaddr w =
     (let ms = pr_memState (w_process w) in
      if vaddr \<ge> ms_stackMin ms \<and> vaddr < ms_stackBase ms
      then bindR (allocateMem (roundDown vaddr PageBytes) (uint PageBytes) False w) (\<lambda>w. Ok (Some (True, w)))
      else if vaddr < ms_stackMin ms \<and> vaddr \<ge> ms_stackBase ms - ms_maxStackSize ms
      then bindR (grow_stack fuel vaddr (ms_stackBase ms) (ms_maxStackSize ms) (ms_stackMin ms) w) (\<lambda>r.
             case r of None \<Rightarrow> Ok None
             | Some (stack_min, w) \<Rightarrow>
                 Ok (Some (True, w\<lparr>w_process := (w_process w)\<lparr>pr_memState := (pr_memState (w_process w))\<lparr>ms_stackMin := stack_min\<rparr>\<rparr>\<rparr>)))
      else Ok (Some (False, w)))"

section \<open>The translating proxy\<close>

datatype AllocType = Always | Never | NextPage

definition w_translate :: "Addr \<Rightarrow> 'm World \<Rightarrow> Addr option" where
  "w_translate vaddr w = pt_translate vaddr (pr_pTable (w_process w))"

text \<open>The results of the accesses say whether they succeeded. \<open>None\<close> is a loop that ran out of fuel.\<close>

fun se_read_chunks :: "u64 \<Rightarrow> Tick \<Rightarrow> 'm PortProxy \<Rightarrow> (Addr \<times> u32) list \<Rightarrow> u8 list \<Rightarrow> 'm World \<Rightarrow> (bool \<times> u8 list \<times> 'm World) result" where
  "se_read_chunks ident now pp [] p w = Ok (True, p, w)"
| "se_read_chunks ident now pp ((a, n) # cs) p w =
     (case w_translate a w of None \<Rightarrow> Ok (False, p, w)
      | Some paddr \<Rightarrow>
          bindR (readBlobPhys ident now pp paddr 0 (take (unat n) p) n (w_mem w)) (\<lambda>(d, m).
          bindR (se_read_chunks ident now pp cs (drop (unat n) p) (w\<lparr>w_mem := m\<rparr>)) (\<lambda>(b, rest, w). Ok (b, d @ rest, w))))"

text \<open>
  The size, an \<^verbatim>\<open>int\<close> in the code, is the unsigned value that the chunk generator makes of it, and the number of bytes done before
  a chunk is the part of the buffer already used: a negative size has no buffer and is outside the model, here and in \<open>tryWriteBlob\<close>.
\<close>

definition tryReadBlob :: "u64 \<Rightarrow> Tick \<Rightarrow> 'm PortProxy \<Rightarrow> Addr \<Rightarrow> u8 list \<Rightarrow> u32 \<Rightarrow> 'm World \<Rightarrow> (bool \<times> u8 list \<times> 'm World) result" where
  "tryReadBlob ident now pp addr p sz w =
     bindR (new_ChunkGenerator addr sz (ucast PageBytes)) (\<lambda>g. se_read_chunks ident now pp (chunks g) p w)"

definition se_readBlob :: "u64 \<Rightarrow> Tick \<Rightarrow> 'm PortProxy \<Rightarrow> Addr \<Rightarrow> u8 list \<Rightarrow> u32 \<Rightarrow> 'm World \<Rightarrow> (u8 list \<times> 'm World) result" where
  "se_readBlob ident now pp addr p sz w = bindR (tryReadBlob ident now pp addr p sz w) (\<lambda>(b, d, w). if b then Ok (d, w) else Error Fatal)"

text \<open>The page of a write is allocated when it is missing, as the proxy was told; the second translation is not checked.\<close>

definition write_page :: "nat \<Rightarrow> AllocType \<Rightarrow> Addr \<Rightarrow> 'm World \<Rightarrow> (Addr option \<times> 'm World) option result" where
  "write_page fuel alloc a w =
     (case w_translate a w of Some paddr \<Rightarrow> Ok (Some (Some paddr, w))
      | None \<Rightarrow>
          bindR (case alloc of
                   Always \<Rightarrow> bindR (allocateMem (roundDown a PageBytes) (uint PageBytes) False w) (\<lambda>w. Ok (Some (True, w)))
                 | NextPage \<Rightarrow> bindR (fixupStackFault fuel a w) (\<lambda>r.
                     case r of None \<Rightarrow> Ok None | Some (b, w) \<Rightarrow> if b then Ok (Some (True, w)) else Error Panic)
                 | Never \<Rightarrow> Ok (Some (False, w))) (\<lambda>r.
            case r of None \<Rightarrow> Ok None
            | Some (b, w) \<Rightarrow>
                if b then (case w_translate a w of None \<Rightarrow> Error OutOfBounds | Some paddr \<Rightarrow> Ok (Some (Some paddr, w)))
                else Ok (Some (None, w))))"

fun se_write_chunks ::
  "nat \<Rightarrow> AllocType \<Rightarrow> u64 \<Rightarrow> Tick \<Rightarrow> 'm PortProxy \<Rightarrow> (Addr \<times> u32) list \<Rightarrow> u8 list \<Rightarrow> 'm World \<Rightarrow> (bool \<times> 'm World) option result" where
  "se_write_chunks fuel alloc ident now pp [] p w = Ok (Some (True, w))"
| "se_write_chunks fuel alloc ident now pp ((a, n) # cs) p w =
     bindR (write_page fuel alloc a w) (\<lambda>r.
       case r of None \<Rightarrow> Ok None
       | Some (None, w) \<Rightarrow> Ok (Some (False, w))
       | Some (Some paddr, w) \<Rightarrow>
           bindR (writeBlobPhys ident now pp paddr 0 (take (unat n) p) n (w_mem w)) (\<lambda>m.
             se_write_chunks fuel alloc ident now pp cs (drop (unat n) p) (w\<lparr>w_mem := m\<rparr>)))"

definition tryWriteBlob ::
  "nat \<Rightarrow> AllocType \<Rightarrow> u64 \<Rightarrow> Tick \<Rightarrow> 'm PortProxy \<Rightarrow> Addr \<Rightarrow> u8 list \<Rightarrow> u32 \<Rightarrow> 'm World \<Rightarrow> (bool \<times> 'm World) option result" where
  "tryWriteBlob fuel alloc ident now pp addr p sz w =
     bindR (new_ChunkGenerator addr sz (ucast PageBytes)) (\<lambda>g. se_write_chunks fuel alloc ident now pp (chunks g) p w)"

definition se_writeBlob ::
  "nat \<Rightarrow> AllocType \<Rightarrow> u64 \<Rightarrow> Tick \<Rightarrow> 'm PortProxy \<Rightarrow> Addr \<Rightarrow> u8 list \<Rightarrow> u32 \<Rightarrow> 'm World \<Rightarrow> 'm World option result" where
  "se_writeBlob fuel alloc ident now pp addr p sz w =
     bindR (tryWriteBlob fuel alloc ident now pp addr p sz w) (\<lambda>r.
       case r of None \<Rightarrow> Ok None | Some (b, w) \<Rightarrow> if b then Ok (Some w) else Error Fatal)"

text \<open>Filling memory only allocates when the proxy always does.\<close>

fun se_memset_chunks :: "AllocType \<Rightarrow> u64 \<Rightarrow> Tick \<Rightarrow> 'm PortProxy \<Rightarrow> (Addr \<times> u32) list \<Rightarrow> u8 \<Rightarrow> 'm World \<Rightarrow> (bool \<times> 'm World) result" where
  "se_memset_chunks alloc ident now pp [] v w = Ok (True, w)"
| "se_memset_chunks alloc ident now pp ((a, n) # cs) v w =
     bindR (case w_translate a w of Some paddr \<Rightarrow> Ok (Some paddr, w)
            | None \<Rightarrow>
                if alloc = Always
                then bindR (allocateMem (roundDown a PageBytes) (uint PageBytes) False w) (\<lambda>w.
                       case w_translate a w of None \<Rightarrow> Error OutOfBounds | Some paddr \<Rightarrow> Ok (Some paddr, w))
                else Ok (None, w)) (\<lambda>(r, w).
       case r of None \<Rightarrow> Ok (False, w)
       | Some paddr \<Rightarrow>
           bindR (memsetBlobPhys ident now pp paddr 0 v n (w_mem w)) (\<lambda>m. se_memset_chunks alloc ident now pp cs v (w\<lparr>w_mem := m\<rparr>)))"

definition tryMemsetBlob :: "AllocType \<Rightarrow> u64 \<Rightarrow> Tick \<Rightarrow> 'm PortProxy \<Rightarrow> Addr \<Rightarrow> u8 \<Rightarrow> u32 \<Rightarrow> 'm World \<Rightarrow> (bool \<times> 'm World) result" where
  "tryMemsetBlob alloc ident now pp addr v sz w =
     bindR (new_ChunkGenerator addr sz (ucast PageBytes)) (\<lambda>g. se_memset_chunks alloc ident now pp (chunks g) v w)"

definition se_memsetBlob :: "AllocType \<Rightarrow> u64 \<Rightarrow> Tick \<Rightarrow> 'm PortProxy \<Rightarrow> Addr \<Rightarrow> u8 \<Rightarrow> u32 \<Rightarrow> 'm World \<Rightarrow> 'm World result" where
  "se_memsetBlob alloc ident now pp addr v sz w = bindR (tryMemsetBlob alloc ident now pp addr v sz w) (\<lambda>(b, w). if b then Ok w else Error Fatal)"

text \<open>Strings are written and read byte by byte; the argument of a write is the characters with the terminating zero, and what is after them is
  outside of the buffer.\<close>

fun tryWriteString :: "u64 \<Rightarrow> Tick \<Rightarrow> 'm PortProxy \<Rightarrow> Addr \<Rightarrow> u8 list \<Rightarrow> 'm World \<Rightarrow> (bool \<times> 'm World) result" where
  "tryWriteString ident now pp vaddr [] w = Error OutOfBounds"
| "tryWriteString ident now pp vaddr (c # str) w =
     (case w_translate vaddr w of None \<Rightarrow> Ok (False, w)
      | Some paddr \<Rightarrow>
          bindR (pp_writeBlob ident now pp paddr [c] 1 (w_mem w)) (\<lambda>m.
            if c = 0 then Ok (True, w\<lparr>w_mem := m\<rparr>) else tryWriteString ident now pp (vaddr + 1) str (w\<lparr>w_mem := m\<rparr>)))"

text \<open>The loop of a read may not end; it has fuel.\<close>

fun tryReadString :: "nat \<Rightarrow> u64 \<Rightarrow> Tick \<Rightarrow> 'm PortProxy \<Rightarrow> u8 list \<Rightarrow> Addr \<Rightarrow> 'm World \<Rightarrow> (bool \<times> u8 list \<times> 'm World) option result" where
  "tryReadString 0 ident now pp str vaddr w = Ok None"
| "tryReadString (Suc fuel) ident now pp str vaddr w =
     (case w_translate vaddr w of None \<Rightarrow> Ok (Some (False, str, w))
      | Some paddr \<Rightarrow>
          bindR (pp_readBlob ident now pp paddr [0] 1 (w_mem w)) (\<lambda>(d, m).
            if hd d = 0 then Ok (Some (True, str, w\<lparr>w_mem := m\<rparr>))
            else tryReadString fuel ident now pp (str @ [hd d]) (vaddr + 1) (w\<lparr>w_mem := m\<rparr>)))"

definition se_writeString :: "u64 \<Rightarrow> Tick \<Rightarrow> 'm PortProxy \<Rightarrow> Addr \<Rightarrow> u8 list \<Rightarrow> 'm World \<Rightarrow> 'm World result" where
  "se_writeString ident now pp addr str w = bindR (tryWriteString ident now pp addr str w) (\<lambda>(b, w). if b then Ok w else Error Fatal)"

definition se_readString :: "nat \<Rightarrow> u64 \<Rightarrow> Tick \<Rightarrow> 'm PortProxy \<Rightarrow> Addr \<Rightarrow> 'm World \<Rightarrow> (u8 list \<times> 'm World) option result" where
  "se_readString fuel ident now pp addr w =
     bindR (tryReadString fuel ident now pp [] addr w) (\<lambda>r.
       case r of None \<Rightarrow> Ok None | Some (b, str, w) \<Rightarrow> if b then Ok (Some (str, w)) else Error Fatal)"

end
