(* ===== verification/Page_Alloc.thy ===== *)
theory Page_Alloc
  imports Port_Proxy
begin

text \<open>
  The pages of a process: every page of its table has a frame of its own below the next free one, an allocation gives a page the next frame and leaves the
  other pages alone, and a fault on the stack below its lowest page maps every page down to the faulting address.
\<close>

section \<open>Translated addresses\<close>

definition tr :: "'m World \<Rightarrow> Addr \<Rightarrow> Addr" where
  "tr w x = the (w_translate x w)"

abbreviation w_table :: "'m World \<Rightarrow> EmulationPageTable" where
  "w_table w \<equiv> pr_pTable (w_process w)"

lemma tr_mem [simp]: "w_translate x (w\<lparr>w_mem := m\<rparr>) = w_translate x w" "tr (w\<lparr>w_mem := m\<rparr>) = tr w"
  by (simp_all add: w_translate_def tr_def fun_eq_iff)

lemma tr_span:
  assumes "pt_ok 12 (w_table w)" "w_translate a w \<noteq> None" "in_block 12 (a, n)"
  shows "map (tr w) (span (a, n)) = span (tr w a, n)" "\<forall>x\<in>set (span (a, n)). w_translate x w \<noteq> None"
proof -
  obtain pa where pa: "w_translate a w = Some pa" using assms(2) by auto
  have "w_translate (a + of_nat i) w = Some (pa + of_nat i)" if "i < unat n" for i
    using translate_page [OF assms(1), of a pa i] pa that assms(3) by (simp add: w_translate_def in_block_def)
  then show "map (tr w) (span (a, n)) = span (tr w a, n)" "\<forall>x\<in>set (span (a, n)). w_translate x w \<noteq> None"
    using pa by (simp_all add: span_def tr_def)
qed

lemma PageBytes_32: "ucast PageBytes = (2 ^ 12 :: u32)" "PageBytes = 2 ^ 12"
  by (simp_all add: PageBytes_def PageShift_def push_bit_eq_mult)

section \<open>Allocation\<close>

text \<open>The frames that the table of the process uses are below the next free page, and no two pages share one. The physical memory ends below the region
  of the pseudo instructions.\<close>

definition frames_ok :: "'m World \<Rightarrow> bool" where
  "frames_ok w \<longleftrightarrow> pt_ok 12 (w_table w) \<and> sys_totalSize (w_system w) < 0xffff0000 \<and> unat (sys_pagePtr (w_system w)) * 4096 \<le> unat (sys_totalSize (w_system w)) \<and>
     (\<forall>v e. pt_pTable (w_table w) v = Some e \<longrightarrow> (\<exists>f<unat (sys_pagePtr (w_system w)). pte_paddr e = of_nat (f * 4096))) \<and>
     (\<forall>v v' e e'. pt_pTable (w_table w) v = Some e \<and> pt_pTable (w_table w) v' = Some e' \<and> pte_paddr e = pte_paddr e' \<longrightarrow> v = v')"

lemma translate_frame:
  assumes "frames_ok w" "w_translate x w = Some pa"
  obtains e f where "pt_pTable (w_table w) (pageAlign x (w_table w)) = Some e" "f < unat (sys_pagePtr (w_system w))" "pte_paddr e = of_nat (f * 4096)"
    "unat pa = f * 4096 + unat x mod 4096" "unat pa < unat (sys_totalSize (w_system w))"
proof -
  have k: "pt_ok 12 (w_table w)" "sys_totalSize (w_system w) < 0xffff0000" "unat (sys_pagePtr (w_system w)) * 4096 \<le> unat (sys_totalSize (w_system w))"
    using assms(1) by (simp_all add: frames_ok_def)
  obtain e where e: "pt_pTable (w_table w) (pageAlign x (w_table w)) = Some e" "pa = pageOffset x (w_table w) + pte_paddr e"
    using assms(2) by (auto simp: w_translate_def pt_translate_def pt_lookup_def split: option.splits)
  then obtain f where f: "f < unat (sys_pagePtr (w_system w))" "pte_paddr e = of_nat (f * 4096)" using assms(1) unfolding frames_ok_def by blast
  have "f * 4096 + 4096 \<le> unat (sys_pagePtr (w_system w)) * 4096" using f(1) by simp
  then have l: "f * 4096 + 4096 \<le> unat (sys_totalSize (w_system w))" using k(3) by linarith
  have "unat (sys_totalSize (w_system w)) < 0xffff0000" using k(2) by (simp add: word_less_nat_alt)
  then have s: "f * 4096 + 4096 < 2 ^ 64" using l by simp
  have o: "unat (pageOffset x (w_table w)) = unat x mod 4096" using unat_pageOffset [OF k(1), of x] by simp
  have m: "unat x mod 4096 < 4096" by simp
  have "unat (of_nat (f * 4096) :: u64) = f * 4096" using s by (intro unat_of_nat_small) simp
  then have "unat pa = f * 4096 + unat x mod 4096" unfolding e(2) f(2) unat_word_ariths o using s m by simp
  then show thesis using that [OF e(1) f] l m by simp
qed

text \<open>No two virtual addresses share a byte.\<close>

lemma translate_inj:
  assumes "frames_ok w" "w_translate x w = Some pa" "w_translate y w = Some pa"
  shows "x = y"
proof -
  have k: "pt_ok 12 (w_table w)" using assms(1) by (simp add: frames_ok_def)
  obtain e f where x: "pt_pTable (w_table w) (pageAlign x (w_table w)) = Some e" "pte_paddr e = of_nat (f * 4096)" "unat pa = f * 4096 + unat x mod 4096"
    using translate_frame [OF assms(1,2)] .
  obtain e' f' where y: "pt_pTable (w_table w) (pageAlign y (w_table w)) = Some e'" "pte_paddr e' = of_nat (f' * 4096)" "unat pa = f' * 4096 + unat y mod 4096"
    using translate_frame [OF assms(1,3)] .
  have "(f * 4096 + unat x mod 4096) div 4096 = f" "(f' * 4096 + unat y mod 4096) div 4096 = f'" by simp_all
  then have "f = f'" using x(3) y(3) by metis
  then have f: "f = f'" "unat x mod 4096 = unat y mod 4096" using x(3) y(3) by simp_all
  then have "pageAlign x (w_table w) = pageAlign y (w_table w)" using assms(1) x(1,2) y(1,2) unfolding frames_ok_def by metis
  moreover have "unat (pageOffset x (w_table w)) = unat (pageOffset y (w_table w))" using f(2) unat_pageOffset [OF k] by simp
  then have "pageOffset x (w_table w) = pageOffset y (w_table w)" by (simp only: word_unat_eq_iff)
  ultimately show ?thesis using page_split [of x "w_table w"] page_split [of y "w_table w"] by metis
qed

lemma one_page: "pages_of 12 (uint PageBytes) = 1" "uint PageBytes = 4096"
  by (simp_all add: PageBytes_32 pages_of_def)

lemma map_one_page:
  assumes "pt_ok 12 p" "pageOffset v p = 0" "pt_pTable p v = None"
  shows "pt_map v pa (uint PageBytes) 0 p = Ok (p\<lparr>pt_pTable := (pt_pTable p)(v \<mapsto> \<lparr>pte_paddr = pa, pte_flags = 0\<rparr>)\<rparr>)"
  using map_loop_pages [OF assms(1), of False "uint PageBytes" v 0 pa] assms(2,3) unfolding one_page(1) by (simp add: pt_map_def)

lemma alloc_one_page:
  assumes "sys_totalSize s < 0xffff0000" "unat (sys_pagePtr s) * 4096 \<le> unat (sys_totalSize s)"
  shows "allocPhysPages 1 s =
      (if unat (sys_pagePtr s) * 4096 + 4096 \<le> unat (sys_totalSize s) then Ok (of_nat (unat (sys_pagePtr s) * 4096), s\<lparr>sys_pagePtr := sys_pagePtr s + 1\<rparr>) else Error Fatal)"
    and "unat (sys_pagePtr s + 1) = unat (sys_pagePtr s) + 1"
proof -
  define q where "q = unat (sys_pagePtr s)"
  have t: "unat (sys_totalSize s) < 0xffff0000" using assms(1) by (simp add: word_less_nat_alt)
  have q: "q * 4096 < 0xffff0000" using assms(2) t q_def by linarith
  have p: "sys_pagePtr s = of_nat q" by (simp add: q_def)
  show "unat (sys_pagePtr s + 1) = unat (sys_pagePtr s) + 1" using q by (simp add: q_def unat_word_ariths)
  have sh: "push_bit 12 (sys_pagePtr s) = of_nat (q * 4096)" "push_bit 12 (sys_pagePtr s + 1) = of_nat ((q + 1) * 4096)"
    using p by (simp_all add: push_bit_eq_mult algebra_simps)
  have n: "unat (of_nat ((q + 1) * 4096) :: u64) = (q + 1) * 4096" using q by (intro unat_of_nat_small) simp
  then have le: "(of_nat ((q + 1) * 4096) > sys_totalSize s) = (\<not> q * 4096 + 4096 \<le> unat (sys_totalSize s))" by (simp add: word_less_nat_alt not_le add.commute)
  show "allocPhysPages 1 s =
      (if unat (sys_pagePtr s) * 4096 + 4096 \<le> unat (sys_totalSize s) then Ok (of_nat (unat (sys_pagePtr s) * 4096), s\<lparr>sys_pagePtr := sys_pagePtr s + 1\<rparr>) else Error Fatal)"
  proof (cases "range_contains (AddrRange_plain 0xffff0000 0xffffffff) (of_nat ((q + 1) * 4096))")
    case True
    then have "(0xffff0000 :: u64) \<le> of_nat ((q + 1) * 4096)" by (simp add: range_contains_def AddrRange_plain_def interleaved_def Let_def split: if_splits)
    then have "0xffff0000 \<le> q * 4096 + 4096" using n by (simp add: word_le_nat_alt)
    moreover have "(0xfffff000 :: u64) > sys_totalSize s" using t by (simp add: word_less_nat_alt)
    ultimately show ?thesis using True sh t by (simp add: allocPhysPages_def PageShift_def Let_def q_def)
  next
    case False
    then show ?thesis using sh le by (simp add: allocPhysPages_def PageShift_def Let_def q_def)
  qed
qed

text \<open>The world in which a page has the next free frame.\<close>

definition add_page :: "Addr \<Rightarrow> 'm World \<Rightarrow> 'm World" where
  "add_page v w = w\<lparr>w_system := (w_system w)\<lparr>sys_pagePtr := sys_pagePtr (w_system w) + 1\<rparr>, w_process := (w_process w)\<lparr>pr_pTable := (w_table w)\<lparr>pt_pTable :=
     (pt_pTable (w_table w))(v \<mapsto> \<lparr>pte_paddr = of_nat (unat (sys_pagePtr (w_system w)) * 4096), pte_flags = 0\<rparr>)\<rparr>\<rparr>\<rparr>"

lemma add_page_simps [simp]:
  "sys_pagePtr (w_system (add_page v w)) = sys_pagePtr (w_system w) + 1" "sys_totalSize (w_system (add_page v w)) = sys_totalSize (w_system w)"
  "pt_ok k (w_table (add_page v w)) = pt_ok k (w_table w)" "w_mem (add_page v w) = w_mem w"
  "pt_pTable (w_table (add_page v w)) = (pt_pTable (w_table w))(v \<mapsto> \<lparr>pte_paddr = of_nat (unat (sys_pagePtr (w_system w)) * 4096), pte_flags = 0\<rparr>)"
  "pageAlign x (w_table (add_page v w)) = pageAlign x (w_table w)" "pageOffset x (w_table (add_page v w)) = pageOffset x (w_table w)"
  by (simp_all add: add_page_def)

lemma frames_ok_entry: "frames_ok w \<Longrightarrow> pt_pTable (w_table w) v = Some e \<Longrightarrow> \<exists>g<unat (sys_pagePtr (w_system w)). pte_paddr e = of_nat (g * 4096)"
  unfolding frames_ok_def by blast

lemma frames_ok_unique:
  "frames_ok w \<Longrightarrow> pt_pTable (w_table w) v = Some e \<Longrightarrow> pt_pTable (w_table w) v' = Some e' \<Longrightarrow> pte_paddr e = pte_paddr e' \<Longrightarrow> v = v'"
  unfolding frames_ok_def by blast

lemma frames_ok_fresh:
  assumes "frames_ok w" "pt_pTable (w_table w) v = Some e"
  shows "pte_paddr e \<noteq> of_nat (unat (sys_pagePtr (w_system w)) * 4096)"
proof -
  have k: "unat (sys_pagePtr (w_system w)) * 4096 < 2 ^ 64"
    using assms(1) unat_less_u64 [of "sys_totalSize (w_system w)"] by (simp add: frames_ok_def)
  obtain g where g: "g < unat (sys_pagePtr (w_system w))" "pte_paddr e = of_nat (g * 4096)" using frames_ok_entry [OF assms] by blast
  have "unat (of_nat (unat (sys_pagePtr (w_system w)) * 4096) :: u64) = unat (sys_pagePtr (w_system w)) * 4096" using k by (intro unat_of_nat_small) simp
  moreover have "unat (of_nat (g * 4096) :: u64) = g * 4096" using g(1) k by (intro unat_of_nat_small) simp
  ultimately show ?thesis using g by (auto dest: arg_cong [of _ _ unat])
qed

lemma add_page_ok:
  assumes "frames_ok w" "unat (sys_pagePtr (w_system w) + 1) = unat (sys_pagePtr (w_system w)) + 1"
    "unat (sys_pagePtr (w_system w)) * 4096 + 4096 \<le> unat (sys_totalSize (w_system w))"
  shows "frames_ok (add_page v w)"
proof (unfold frames_ok_def, intro conjI allI impI)
  let ?w = "add_page v w" and ?s = "w_system w"
  show "pt_ok 12 (w_table ?w)" "sys_totalSize (w_system ?w) < 0xffff0000" using assms(1) by (simp_all add: frames_ok_def)
  show "unat (sys_pagePtr (w_system ?w)) * 4096 \<le> unat (sys_totalSize (w_system ?w))" using assms(2,3) by simp
  fix v' e assume e: "pt_pTable (w_table ?w) v' = Some e"
  have "\<exists>g<unat (sys_pagePtr ?s) + 1. pte_paddr e = of_nat (g * 4096)"
  proof (cases "v' = v")
    case True
    then have "pte_paddr e = of_nat (unat (sys_pagePtr ?s) * 4096)" using e by auto
    then show ?thesis by (intro exI [of _ "unat (sys_pagePtr ?s)"]) simp
  next
    case False
    then obtain g where "g < unat (sys_pagePtr ?s)" "pte_paddr e = of_nat (g * 4096)" using e frames_ok_entry [OF assms(1), of v' e] by auto
    then show ?thesis by (intro exI [of _ g]) simp
  qed
  then show "\<exists>g<unat (sys_pagePtr (w_system ?w)). pte_paddr e = of_nat (g * 4096)" using assms(2) by simp
next
  fix v' v'' e e' assume "pt_pTable (w_table (add_page v w)) v' = Some e \<and> pt_pTable (w_table (add_page v w)) v'' = Some e' \<and> pte_paddr e = pte_paddr e'"
  then show "v' = v''"
    using frames_ok_unique [OF assms(1), of v' e v'' e'] frames_ok_fresh [OF assms(1), of v' e] frames_ok_fresh [OF assms(1), of v'' e'] by (auto split: if_splits)
qed

text \<open>One world after another in which the process has more pages.\<close>

definition extends :: "'m World \<Rightarrow> 'm World \<Rightarrow> bool" where
  "extends w w' \<longleftrightarrow> frames_ok w' \<and> sys_totalSize (w_system w') = sys_totalSize (w_system w) \<and>
     (\<forall>x. w_translate x w \<noteq> None \<longrightarrow> w_translate x w' = w_translate x w)"

lemma extends_refl: "frames_ok w \<Longrightarrow> extends w w"
  by (simp add: extends_def)

lemma extends_trans: "extends w w' \<Longrightarrow> extends w' w'' \<Longrightarrow> extends w w''"
  by (simp add: extends_def)

lemma extends_mem [simp]: "frames_ok (w\<lparr>w_mem := m\<rparr>) = frames_ok w" "extends (w\<lparr>w_mem := m\<rparr>) w' = extends w w'" "extends w (w'\<lparr>w_mem := m\<rparr>) = extends w w'"
  by (simp_all add: extends_def frames_ok_def)

text \<open>The number of free frames.\<close>

definition frames_left :: "'m World \<Rightarrow> nat" where
  "frames_left w = unat (sys_totalSize (w_system w)) div 4096 - unat (sys_pagePtr (w_system w))"

lemma allocate_page:
  assumes "frames_ok w" "w_translate a w = None"
  shows "frames_left w = 0 \<Longrightarrow> allocateMem (roundDown a PageBytes) (uint PageBytes) False w = Error Fatal"
    and "0 < frames_left w \<Longrightarrow> \<exists>w'. allocateMem (roundDown a PageBytes) (uint PageBytes) False w = Ok w' \<and> extends w w' \<and> w_mem w' = w_mem w \<and>
      w_translate a w' \<noteq> None \<and> frames_left w' = frames_left w - 1 \<and> pr_memState (w_process w') = pr_memState (w_process w) \<and>
      (\<forall>x. if roundDown x PageBytes = roundDown a PageBytes then w_translate x w' \<noteq> None else w_translate x w' = w_translate x w)"
proof -
  let ?p = "w_table w" and ?s = "w_system w" and ?v = "roundDown a PageBytes"
  have k: "pt_ok 12 ?p" "sys_totalSize ?s < 0xffff0000" "unat (sys_pagePtr ?s) * 4096 \<le> unat (sys_totalSize ?s)"
    using assms(1) by (simp_all add: frames_ok_def)
  have v: "?v = pageAlign a ?p" using pageAlign_roundDown [OF k(1)] by (simp add: PageBytes_32)
  then have o: "pageOffset ?v ?p = 0" by (simp add: pageAlign_def pageOffset_def) (rule bit_word_eqI, simp add: bit_simps)
  have n: "pt_pTable ?p ?v = None" using assms(2) v by (simp add: w_translate_def pt_translate_def pt_lookup_def split: option.splits)
  note al = alloc_one_page [OF k(2,3)]
  have le: "(0 < frames_left w) = (unat (sys_pagePtr ?s) * 4096 + 4096 \<le> unat (sys_totalSize ?s))"
    using less_eq_div_iff_mult_less_eq [of 4096 "Suc (unat (sys_pagePtr ?s))" "unat (sys_totalSize ?s)"] by (auto simp: frames_left_def)
  show "allocateMem ?v (uint PageBytes) False w = Error Fatal" if "frames_left w = 0"
    using al(1) that le by (simp add: allocateMem_def one_page(2))
  assume room: "0 < frames_left w"
  have r: "allocateMem ?v (uint PageBytes) False w = Ok (add_page ?v w)"
    using al(1) room le map_one_page [OF k(1) o n, of "of_nat (unat (sys_pagePtr ?s) * 4096)"] by (simp add: allocateMem_def add_page_def one_page(2))
  have "w_translate x w \<noteq> None \<longrightarrow> w_translate x (add_page ?v w) = w_translate x w" for x
    using n by (auto simp: w_translate_def pt_translate_def pt_lookup_def split: option.splits)
  then have "extends w (add_page ?v w)" using add_page_ok [OF assms(1) al(2)] room le by (simp add: extends_def)
  moreover have "w_translate a (add_page ?v w) \<noteq> None" using v by (simp add: w_translate_def pt_translate_def pt_lookup_def)
  moreover have "roundDown x PageBytes = pageAlign x ?p" for x using pageAlign_roundDown [OF k(1)] by (simp add: PageBytes_32)
  then have "if roundDown x PageBytes = ?v then w_translate x (add_page ?v w) \<noteq> None else w_translate x (add_page ?v w) = w_translate x w" for x
    by (auto simp: w_translate_def pt_translate_def pt_lookup_def split: option.splits)
  moreover have "pr_memState (w_process (add_page ?v w)) = pr_memState (w_process w)" by (simp add: add_page_def)
  moreover have "frames_left (add_page ?v w) = frames_left w - 1" using al(2) by (simp add: frames_left_def)
  ultimately show "\<exists>w'. allocateMem ?v (uint PageBytes) False w = Ok w' \<and> extends w w' \<and> w_mem w' = w_mem w \<and> w_translate a w' \<noteq> None \<and>
      frames_left w' = frames_left w - 1 \<and> pr_memState (w_process w') = pr_memState (w_process w) \<and>
      (\<forall>x. if roundDown x PageBytes = ?v then w_translate x w' \<noteq> None else w_translate x w' = w_translate x w)"
    using r add_page_simps(4) [of ?v w] by (intro exI [of _ "add_page ?v w"]) blast
qed

section \<open>The stack\<close>

lemma unat_roundDown_page: "unat (roundDown a PageBytes) = unat a div 4096 * 4096"
  using unat_roundDown [of 12 a] by (simp add: PageBytes_32)

lemma roundDown_page_eq: "roundDown a PageBytes = roundDown b PageBytes \<longleftrightarrow> unat a div 4096 = unat b div 4096"
  using unat_roundDown_page [of a] unat_roundDown_page [of b] by (auto simp: word_unat_eq_iff)

lemma pages_to:
  assumes "4096 dvd (s :: nat)" "v < s"
  shows "Suc ((s - 4096 - v + 4095) div 4096) = (s - v + 4095) div 4096" "4096 \<le> s" "s - 4096 \<le> v \<Longrightarrow> v div 4096 * 4096 = s - 4096"
proof -
  obtain j where j: "s = 4096 * j" using assms(1) by (rule dvdE)
  then obtain i where i: "j = Suc i" using assms(2) by (cases j) auto
  show "4096 \<le> s" using j i by simp
  show "Suc ((s - 4096 - v + 4095) div 4096) = (s - v + 4095) div 4096"
  proof (cases "v \<le> s - 4096")
    case True
    then have "s - v + 4095 = (s - 4096 - v + 4095) + 4096" using \<open>4096 \<le> s\<close> by simp
    then show ?thesis by (simp only: div_add_self2)
  next
    case False
    then have "s - v + 4095 = (s - v - 1) + 4096" "s - v - 1 < 4096" "s - 4096 - v = 0" using assms(2) by auto
    then show ?thesis by (simp only: div_add_self2) simp
  qed
  show "v div 4096 * 4096 = s - 4096" if "s - 4096 \<le> v"
  proof -
    have "v = (v - 4096 * i) + 4096 * i" "v - 4096 * i < 4096" using that assms(2) j i by auto
    then have "v div 4096 = i" by (metis div_mult_self2 div_less add_0 zero_neq_numeral add.commute)
    then show ?thesis using j i by simp
  qed
qed

text \<open>The page below an aligned address.\<close>

lemma page_below:
  assumes "4096 dvd unat mn" "v < mn"
  shows "unat (mn - PageBytes) = unat mn - 4096" "mn - PageBytes < mn" "4096 dvd unat (mn - PageBytes)"
    "roundDown (mn - PageBytes) PageBytes = mn - PageBytes" "roundDown x PageBytes = mn - PageBytes \<longleftrightarrow> mn - PageBytes \<le> x \<and> x < mn"
proof -
  let ?s = "unat mn" and ?m = "mn - PageBytes"
  have v: "unat v < ?s" using assms(2) by (simp add: word_less_nat_alt)
  note pg = pages_to [OF assms(1) v]
  show um: "unat ?m = ?s - 4096" using pg(2) by (simp add: unat_sub word_le_nat_alt PageBytes_32)
  then show "?m < mn" using pg(2) by (simp add: word_less_nat_alt)
  show al: "4096 dvd unat ?m" unfolding um using assms(1) by simp
  show "roundDown ?m PageBytes = ?m" using al unat_roundDown_page [of ?m] by (simp add: word_unat_eq_iff)
  have "roundDown x PageBytes = ?m \<longleftrightarrow> unat x div 4096 * 4096 = ?s - 4096" using unat_roundDown_page [of x] um by (auto simp: word_unat_eq_iff)
  also have "\<dots> \<longleftrightarrow> ?s - 4096 \<le> unat x \<and> unat x < ?s" using pages_to(3) [OF assms(1), of "unat x"] pg(2) by auto
  finally show "roundDown x PageBytes = ?m \<longleftrightarrow> ?m \<le> x \<and> x < mn" by (simp add: word_le_nat_alt word_less_nat_alt um)
qed

text \<open>Every page from the faulting address up to the lowest one of the stack is mapped, and nothing else changes.\<close>

lemma grow_stack_Ok:
  assumes "unat mx \<le> unat base" "4096 dvd unat mx" "4096 dvd unat base" "unat base - unat mx \<le> unat v"
  shows "frames_ok w \<Longrightarrow> 4096 dvd unat mn \<Longrightarrow> mn \<le> base \<Longrightarrow> k = (unat mn - unat v + 4095) div 4096 \<Longrightarrow> k \<le> frames_left w \<Longrightarrow> k \<le> fuel \<Longrightarrow>
    \<forall>x. unat base - unat mx \<le> unat x \<and> x < mn \<longrightarrow> w_translate x w = None \<Longrightarrow>
    \<exists>mn' w'. grow_stack fuel v base mx mn w = Ok (Some (mn', w')) \<and> extends w w' \<and> w_mem w' = w_mem w \<and> pr_memState (w_process w') = pr_memState (w_process w) \<and>
      (if v < mn then mn' = roundDown v PageBytes else mn' = mn) \<and>
      (\<forall>x. if mn' \<le> x \<and> x < mn then w_translate x w' \<noteq> None else w_translate x w' = w_translate x w)"
proof (induction k arbitrary: fuel mn w)
  case 0
  then have "\<not> v < mn" by (simp add: word_less_nat_alt)
  then show ?case using extends_refl [OF 0(1)] by (auto simp: grow_stack.simps)
next
  case (Suc k)
  let ?s = "unat mn" and ?m = "mn - PageBytes"
  have lt: "v < mn" using Suc.prems(4) by (cases "v < mn") (simp_all add: word_less_nat_alt)
  then have ltn: "unat v < ?s" by (simp add: word_less_nat_alt)
  note pg = pages_to [OF Suc.prems(2) ltn]
  note pb = page_below [OF Suc.prems(2) lt]
  note um = pb(1) and mlt = pb(2) and al = pb(3) and rd = pb(4) and page = pb(5)
  have lo: "unat base - unat mx \<le> unat ?m"
  proof -
    have "4096 dvd unat base - unat mx" using assms(2,3) by simp
    then obtain i where i: "unat base - unat mx = 4096 * i" by (rule dvdE)
    obtain j where j: "?s = 4096 * j" using Suc.prems(2) by (rule dvdE)
    have "4096 * i < 4096 * j" using i j assms(4) ltn by linarith
    then show ?thesis unfolding um i j by simp
  qed
  have mb: "?m \<le> base" "unat mn \<le> unat base" using Suc.prems(3) mlt by (simp_all add: word_le_nat_alt word_less_nat_alt)
  then have "unat (base - ?m) = unat base - unat ?m" by (simp add: unat_sub)
  then have grow: "\<not> base - ?m > mx" using lo assms(1) by (simp add: word_less_nat_alt)
  have none: "w_translate ?m w = None" using Suc.prems(7) lo mlt by blast
  obtain w1 where w1: "allocateMem ?m (uint PageBytes) False w = Ok w1" "extends w w1" "w_mem w1 = w_mem w" "frames_left w1 = frames_left w - 1"
      "pr_memState (w_process w1) = pr_memState (w_process w)" "\<forall>x. if ?m \<le> x \<and> x < mn then w_translate x w1 \<noteq> None else w_translate x w1 = w_translate x w"
    using allocate_page(2) [OF Suc.prems(1) none] Suc.prems(5) unfolding rd page by auto
  obtain f where f: "fuel = Suc f" "k \<le> f" using Suc.prems(6) by (cases fuel) auto
  have "\<forall>x. unat base - unat mx \<le> unat x \<and> x < ?m \<longrightarrow> w_translate x w1 = None" using w1(6) Suc.prems(7) mlt by (metis less_trans leD)
  moreover have "k = (unat ?m - unat v + 4095) div 4096" using Suc.prems(4) pg(1) um by simp
  moreover have "frames_ok w1" "k \<le> frames_left w1" using w1(2,4) Suc.prems(5) by (simp_all add: extends_def)
  ultimately obtain mn' w' where w': "grow_stack f v base mx ?m w1 = Ok (Some (mn', w'))" "extends w1 w'" "w_mem w' = w_mem w1"
      "pr_memState (w_process w') = pr_memState (w_process w1)" "if v < ?m then mn' = roundDown v PageBytes else mn' = ?m"
      "\<forall>x. if mn' \<le> x \<and> x < ?m then w_translate x w' \<noteq> None else w_translate x w' = w_translate x w1"
    using Suc.IH [OF _ al mb(1) _ _ f(2)] by blast
  have "mn' = roundDown v PageBytes" using w'(5) page [of v] lt by (auto split: if_splits)
  moreover have "mn' \<le> ?m" using w'(5) unat_roundDown_page [of v] by (auto split: if_splits simp: word_le_nat_alt word_less_nat_alt)
  then have "if mn' \<le> x \<and> x < mn then w_translate x w' \<noteq> None else w_translate x w' = w_translate x w" for x
    using w'(6) [rule_format, of x] w1(6) [rule_format, of x] mlt less_trans [of x ?m mn] order_trans [of mn' ?m x] by (cases "x < ?m") (auto simp: not_less)
  moreover have "grow_stack fuel v base mx mn w = Ok (Some (mn', w'))"
    using grow_stack.simps [of fuel v base mx mn w] lt f(1) grow w1(1) w'(1) by (simp add: Let_def)
  ultimately show ?case using lt w'(3,4) w1(3,5) extends_trans [OF w1(2) w'(2)] by (intro exI [of _ mn'] exI [of _ w']) simp
qed

text \<open>A fault below the lowest page of the stack.\<close>

lemma fixupStackFault_grow:
  assumes "frames_ok w" and ms: "pr_memState (w_process w) = \<lparr>ms_stackBase = base, ms_maxStackSize = mx, ms_stackMin = mn\<rparr>"
    and "unat mx \<le> unat base" "4096 dvd unat mx" "4096 dvd unat base" "4096 dvd unat mn" "mn \<le> base"
    and "base - mx \<le> v" "v < mn" "(unat mn - unat v + 4095) div 4096 \<le> frames_left w" "(unat mn - unat v + 4095) div 4096 \<le> fuel"
    and "\<forall>x. base - mx \<le> x \<and> x < mn \<longrightarrow> w_translate x w = None"
  shows "\<exists>w'. fixupStackFault fuel v w = Ok (Some (True, w')) \<and> extends w w' \<and> w_mem w' = w_mem w \<and>
    pr_memState (w_process w') = \<lparr>ms_stackBase = base, ms_maxStackSize = mx, ms_stackMin = roundDown v PageBytes\<rparr> \<and>
    (\<forall>x. if roundDown v PageBytes \<le> x \<and> x < mn then w_translate x w' \<noteq> None else w_translate x w' = w_translate x w)"
proof -
  have b: "unat (base - mx) = unat base - unat mx" using assms(3) by (simp add: unat_sub word_le_nat_alt)
  have v: "unat base - unat mx \<le> unat v" using assms(8) b by (simp add: word_le_nat_alt)
  have n: "\<forall>x. unat base - unat mx \<le> unat x \<and> x < mn \<longrightarrow> w_translate x w = None" using assms(12) b by (simp add: word_le_nat_alt)
  obtain w' where w': "grow_stack fuel v base mx mn w = Ok (Some (roundDown v PageBytes, w'))" "extends w w'" "w_mem w' = w_mem w"
      "pr_memState (w_process w') = pr_memState (w_process w)"
      "\<forall>x. if roundDown v PageBytes \<le> x \<and> x < mn then w_translate x w' \<noteq> None else w_translate x w' = w_translate x w"
    using grow_stack_Ok [OF assms(3-5) v assms(1,6,7) refl assms(10,11) n] assms(9) by auto
  let ?w = "w'\<lparr>w_process := (w_process w')\<lparr>pr_memState := (pr_memState (w_process w'))\<lparr>ms_stackMin := roundDown v PageBytes\<rparr>\<rparr>\<rparr>"
  have t: "w_translate x ?w = w_translate x w'" for x by (simp add: w_translate_def)
  have "frames_ok ?w = frames_ok w'" by (simp add: frames_ok_def)
  then have "extends w ?w" using w'(2) by (simp add: extends_def t)
  moreover have "fixupStackFault fuel v w = Ok (Some (True, ?w))" using assms(8,9) ms w'(1) by (auto simp: fixupStackFault_def Let_def not_le)
  ultimately show ?thesis using w' ms t by (intro exI [of _ ?w]) simp
qed

end
