(* ===== verification/Proxy_Correct.thy ===== *)
theory Proxy_Correct
  imports Page_Alloc
begin

text \<open>
  What the proxies promise. The contract of a port for functional packets is a locale; inside of it an access of any size reads and writes
  exactly the bytes at its addresses, physical or translated. The simple memory provides the contract.
\<close>

section \<open>Functional packets\<close>

definition func_packet :: "Command \<Rightarrow> Addr \<Rightarrow> u8 list \<Rightarrow> Packet \<Rightarrow> bool" where
  "func_packet c a d pkt \<longleftrightarrow> pk_cmd pkt = c \<and> pkt_isSet pkt VALID_ADDR \<and> pkt_isSet pkt VALID_SIZE \<and> pkt_isSet pkt (STATIC_DATA OR DYNAMIC_DATA) \<and>
     \<not> pkt_cacheResponding pkt \<and> pk_addr pkt = a \<and> unat (pk_size pkt) = length d \<and> pk_data pkt = Some d \<and> d \<noteq> []"

lemma send_chunk_packet:
  assumes "length buf = unat n" "0 < unat n"
  shows "\<exists>pkt. func_packet c a buf pkt \<and> send_chunk ident now pp c flags a n buf m = pp_port pp pkt m"
proof -
  let ?r = "Request_phys a n flags funcMasterId now"
  have r: "req_hasPaddr ?r" "req_hasSize ?r" "req_getPaddr ?r = Ok a" "req_getSize ?r = Ok n"
    by (simp_all add: Request_phys_def setPhys_def req_hasPaddr_def req_hasSize_def req_getPaddr_def req_getSize_def req_private_def flags_isSet_def
        flags_set_def flags_clear_def req_private_defs empty_Request_def)
  let ?p = "pkt_set VALID_SIZE ((pkt_set VALID_ADDR ((blank_Packet ident ?r c)\<lparr>pk_addr := a, pk_isSecure := req_isSecure ?r\<rparr>))\<lparr>pk_size := n\<rparr>)"
  have p: "new_Packet ident ?r c = Ok ?p" using r by (simp add: new_Packet_def)
  have d: "dataStatic buf ?p = Ok (pkt_set STATIC_DATA (?p\<lparr>pk_data := Some buf\<rparr>))"
    by (simp add: dataStatic_def pkt_isSet_def flags_isSet_def pkt_set_def flags_set_def blank_Packet_def pkt_flag_defs)
  have "func_packet c a buf (pkt_set STATIC_DATA (?p\<lparr>pk_data := Some buf\<rparr>))"
    using assms by (auto simp: func_packet_def pkt_isSet_def flags_isSet_def pkt_set_def flags_set_def blank_Packet_def pkt_flag_defs pkt_cacheResponding_def)
  then show ?thesis using p d by (auto simp: send_chunk_def)
qed

section \<open>Writing bytes at addresses\<close>

definition poke :: "Addr list \<Rightarrow> u8 list \<Rightarrow> (Addr \<Rightarrow> u8) \<Rightarrow> Addr \<Rightarrow> u8" where
  "poke xs bs f = fold (\<lambda>(x, b) f. f(x := b)) (zip xs bs) f"

lemma poke_append: "length xs = length bs \<Longrightarrow> poke (xs @ ys) (bs @ cs) f = poke ys cs (poke xs bs f)"
  by (simp add: poke_def)

lemma poke_other: "x \<notin> set xs \<Longrightarrow> poke xs bs f x = f x"
proof (induction xs arbitrary: bs f)
  case (Cons y ys)
  then show ?case by (cases bs) (simp_all add: poke_def)
qed (simp add: poke_def)

lemma poke_nth: "distinct xs \<Longrightarrow> length xs = length bs \<Longrightarrow> map (poke xs bs f) xs = bs"
proof (induction xs arbitrary: bs f)
  case (Cons y ys)
  then obtain b cs where b: "bs = b # cs" "length ys = length cs" by (cases bs) auto
  have "poke (y # ys) bs f = poke ys cs (f(y := b))" by (simp add: b(1) poke_def)
  then show ?case using Cons b poke_other [of y ys cs "f(y := b)"] by simp
qed (simp add: poke_def)

lemma length_span [simp]: "length (span (a, n)) = unat n"
  by (simp add: span_def)

text \<open>The addresses from one on, which may wrap around.\<close>

definition addrs :: "Addr \<Rightarrow> nat \<Rightarrow> Addr list" where
  "addrs a n = map (\<lambda>i. a + of_nat i) [0..<n]"

lemma addrs_Suc: "addrs a (Suc n) = a # addrs (a + 1) n"
  unfolding addrs_def upt_conv_Cons [OF zero_less_Suc] by (simp add: map_Suc_upt [symmetric] comp_def add.assoc del: upt_Suc)

lemma distinct_addrs:
  assumes "n \<le> 2 ^ 64"
  shows "distinct (addrs a n)"
proof -
  have "inj_on (\<lambda>i. a + of_nat i :: u64) {0..<n}"
  proof (rule inj_onI)
    fix i j assume "i \<in> {0..<n}" "j \<in> {0..<n}" "a + of_nat i = a + (of_nat j :: u64)"
    then have "unat (of_nat i :: u64) = unat (of_nat j :: u64)" "i < 2 ^ 64" "j < 2 ^ 64" using assms by auto
    then show "i = j" using unat_of_nat_small [where 'a = 64] by simp
  qed
  then show ?thesis by (simp add: addrs_def distinct_map)
qed

lemma span_addrs: "span (a, n) = addrs a (unat n)"
  by (simp add: span_def addrs_def)

lemma distinct_span: "distinct (span (a, n))"
  using unat_less_u32 [of n] by (simp add: span_addrs distinct_addrs)

text \<open>A chunk within a block does not wrap around.\<close>

lemma in_block_no_wrap:
  assumes "in_block k (a, n)" "k < 32"
  shows "0 < unat n" "unat a + unat n \<le> 2 ^ 64"
proof -
  show "0 < unat n" using assms(1) by (simp add: in_block_def)
  obtain q where q: "(2 :: nat) ^ 64 = 2 ^ k * q" using pow_dvd_64 [OF assms(2)] by (rule dvdE)
  have "unat a div 2 ^ k < q" using unat_less_u64 [of a] unfolding q by (simp add: less_mult_imp_div_less mult.commute)
  then have "(unat a div 2 ^ k + 1) * 2 ^ k \<le> 2 ^ 64" unfolding q by (metis Suc_eq_plus1 Suc_leI mult.commute mult_le_mono2)
  then show "unat a + unat n \<le> 2 ^ 64"
    using assms(1) div_mult_mod_eq [of "unat a" "2 ^ k"] unfolding distrib_right in_block_def by simp
qed

section \<open>The contract of a port\<close>

locale functional_port =
  fixes send :: "'m functional" and ok :: "'m \<Rightarrow> bool" and inside :: "'m \<Rightarrow> Addr \<Rightarrow> bool" and byte :: "'m \<Rightarrow> Addr \<Rightarrow> u8"
  assumes send_read: "ok m \<Longrightarrow> func_packet ReadReq a d pkt \<Longrightarrow> length d = unat n \<Longrightarrow> unat a + unat n \<le> 2 ^ 64 \<Longrightarrow> \<forall>x\<in>set (span (a, n)). inside m x \<Longrightarrow>
      \<exists>pkt'. send pkt m = Ok (pkt', m) \<and> pk_data pkt' = Some (map (byte m) (span (a, n)))"
    and send_write: "ok m \<Longrightarrow> func_packet WriteReq a d pkt \<Longrightarrow> length d = unat n \<Longrightarrow> unat a + unat n \<le> 2 ^ 64 \<Longrightarrow> \<forall>x\<in>set (span (a, n)). inside m x \<Longrightarrow>
      \<exists>pkt' m'. send pkt m = Ok (pkt', m') \<and> ok m' \<and> inside m' = inside m \<and> byte m' = poke (span (a, n)) d (byte m)"
begin

text \<open>Chunks that do not wrap around.\<close>

lemma read_chunks_Ok:
  assumes "pp_port pp = send" "ok m" "\<forall>(a, n)\<in>set cs. 0 < unat n \<and> unat a + unat n \<le> 2 ^ 64" "\<forall>x\<in>set (concat (map span cs)). inside m x"
    "length p = length (concat (map span cs))"
  shows "read_chunks ident now pp flags cs p m = Ok (map (byte m) (concat (map span cs)), m)"
  using assms(3-5)
proof (induction cs arbitrary: p)
  case (Cons c cs)
  obtain a n where c: "c = (a, n)" by (cases c)
  have n: "0 < unat n" "unat a + unat n \<le> 2 ^ 64" "\<forall>x\<in>set (span (a, n)). inside m x" using Cons.prems(1,2) c by auto
  have l: "length (take (unat n) p) = unat n" using Cons.prems(3) c by simp
  obtain pkt where pkt: "func_packet ReadReq a (take (unat n) p) pkt" "send_chunk ident now pp ReadReq flags a n (take (unat n) p) m = send pkt m"
    using send_chunk_packet [OF l n(1), of ReadReq a ident now pp flags m] assms(1) by auto
  obtain pkt' where r: "send pkt m = Ok (pkt', m)" "pk_data pkt' = Some (map (byte m) (span (a, n)))"
    using send_read [OF assms(2) pkt(1) l n(2,3)] by blast
  have "read_chunks ident now pp flags cs (drop (unat n) p) m = Ok (map (byte m) (concat (map span cs)), m)"
    using Cons.prems c by (intro Cons.IH) auto
  then show ?case using c pkt(2) r by simp
qed simp

lemma write_chunks_Ok:
  assumes "pp_port pp = send" "ok m" "\<forall>(a, n)\<in>set cs. 0 < unat n \<and> unat a + unat n \<le> 2 ^ 64" "\<forall>x\<in>set (concat (map span cs)). inside m x"
    "length p = length (concat (map span cs))"
  shows "\<exists>m'. write_chunks ident now pp flags cs p m = Ok m' \<and> ok m' \<and> inside m' = inside m \<and> byte m' = poke (concat (map span cs)) p (byte m)"
  using assms(2-5)
proof (induction cs arbitrary: p m)
  case (Cons c cs)
  obtain a n where c: "c = (a, n)" by (cases c)
  have n: "0 < unat n" "unat a + unat n \<le> 2 ^ 64" "\<forall>x\<in>set (span (a, n)). inside m x" using Cons.prems(2,3) c by auto
  have l: "length (take (unat n) p) = unat n" using Cons.prems(4) c by simp
  obtain pkt where pkt: "func_packet WriteReq a (take (unat n) p) pkt" "send_chunk ident now pp WriteReq flags a n (take (unat n) p) m = send pkt m"
    using send_chunk_packet [OF l n(1), of WriteReq a ident now pp flags m] assms(1) by auto
  obtain pkt' m1 where r: "send pkt m = Ok (pkt', m1)" "ok m1" "inside m1 = inside m" "byte m1 = poke (span (a, n)) (take (unat n) p) (byte m)"
    using send_write [OF Cons.prems(1) pkt(1) l n(2,3)] by blast
  obtain m' where m': "write_chunks ident now pp flags cs (drop (unat n) p) m1 = Ok m'" "ok m'" "inside m' = inside m1"
      "byte m' = poke (concat (map span cs)) (drop (unat n) p) (byte m1)"
    using Cons.IH [OF r(2), of "drop (unat n) p"] Cons.prems c r(3) by auto
  have "poke (concat (map span (c # cs))) p (byte m) = byte m'"
    using poke_append [of "span (a, n)" "take (unat n) p" "concat (map span cs)" "drop (unat n) p" "byte m"] l c r(4) m'(4) by simp
  then show ?case using c pkt(2) r m' by simp
qed (simp add: poke_def)

lemma blob_chunks:
  assumes "pp_cacheLineSize pp = 2 ^ l" "l < 32"
  obtains g where "new_ChunkGenerator a n (pp_cacheLineSize pp) = Ok g" "concat (map span (chunks g)) = span (a, n)"
    "\<forall>(a, n)\<in>set (chunks g). 0 < unat n \<and> unat a + unat n \<le> 2 ^ 64"
proof -
  obtain g where g: "new_ChunkGenerator a n (2 ^ l) = Ok g" "concat (map span (chunks g)) = span (a, n)" "\<forall>c\<in>set (chunks g). in_block l c"
    using chunks_of_region [OF assms(2)] by blast
  then show thesis using assms that [of g] in_block_no_wrap [OF _ assms(2)] by fastforce
qed

lemma readBlobPhys_Ok:
  assumes "pp_port pp = send" "pp_cacheLineSize pp = 2 ^ l" "l < 32" "ok m" "\<forall>x\<in>set (span (a, n)). inside m x" "length p = unat n"
  shows "readBlobPhys ident now pp a flags p n m = Ok (map (byte m) (span (a, n)), m)"
proof -
  obtain g where g: "new_ChunkGenerator a n (pp_cacheLineSize pp) = Ok g" "concat (map span (chunks g)) = span (a, n)"
    "\<forall>(a, n)\<in>set (chunks g). 0 < unat n \<and> unat a + unat n \<le> 2 ^ 64" using blob_chunks [OF assms(2,3)] .
  then show ?thesis using read_chunks_Ok [OF assms(1,4) g(3), of p ident now flags] assms(5,6) by (simp add: readBlobPhys_def)
qed

lemma writeBlobPhys_Ok:
  assumes "pp_port pp = send" "pp_cacheLineSize pp = 2 ^ l" "l < 32" "ok m" "\<forall>x\<in>set (span (a, n)). inside m x" "length p = unat n"
  shows "\<exists>m'. writeBlobPhys ident now pp a flags p n m = Ok m' \<and> ok m' \<and> inside m' = inside m \<and> byte m' = poke (span (a, n)) p (byte m)"
proof -
  obtain g where g: "new_ChunkGenerator a n (pp_cacheLineSize pp) = Ok g" "concat (map span (chunks g)) = span (a, n)"
    "\<forall>(a, n)\<in>set (chunks g). 0 < unat n \<and> unat a + unat n \<le> 2 ^ 64" using blob_chunks [OF assms(2,3)] .
  then show ?thesis using write_chunks_Ok [OF assms(1,4) g(3), of p ident now flags] assms(5,6) by (simp add: writeBlobPhys_def)
qed

text \<open>Reading translated addresses.\<close>

lemma se_read_chunks_Ok:
  assumes "pp_port pp = send" "pp_cacheLineSize pp = 2 ^ l" "l < 32" "ok (w_mem w)" "pt_ok 12 (w_table w)" "\<forall>c\<in>set cs. in_block 12 c"
    "\<forall>x\<in>set (concat (map span cs)). w_translate x w \<noteq> None \<and> inside (w_mem w) (tr w x)" "length p = length (concat (map span cs))"
  shows "se_read_chunks ident now pp cs p w = Ok (True, map (\<lambda>x. byte (w_mem w) (tr w x)) (concat (map span cs)), w)"
  using assms(6-8)
proof (induction cs arbitrary: p)
  case (Cons c cs)
  obtain a n where c: "c = (a, n)" by (cases c)
  have b: "in_block 12 (a, n)" using Cons.prems(1) c by simp
  then have "a \<in> set (span (a, n))" by (force simp: span_def in_block_def)
  then have a: "w_translate a w = Some (tr w a)" using Cons.prems(2) c by (auto simp: tr_def)
  have sp: "map (tr w) (span (a, n)) = span (tr w a, n)" using tr_span(1) [OF assms(5) _ b] a by simp
  have "\<forall>x\<in>set (span (tr w a, n)). inside (w_mem w) x" using Cons.prems(2) c unfolding sp [symmetric] by auto
  then have "readBlobPhys ident now pp (tr w a) 0 (take (unat n) p) n (w_mem w) = Ok (map (byte (w_mem w)) (span (tr w a, n)), w_mem w)"
    using readBlobPhys_Ok [OF assms(1-4)] Cons.prems(3) c by simp
  moreover have "se_read_chunks ident now pp cs (drop (unat n) p) w = Ok (True, map (\<lambda>x. byte (w_mem w) (tr w x)) (concat (map span cs)), w)"
    using Cons.prems c by (intro Cons.IH) auto
  moreover have "map (byte (w_mem w)) (span (tr w a, n)) = map (\<lambda>x. byte (w_mem w) (tr w x)) (span (a, n))" unfolding sp [symmetric] by simp
  ultimately show ?case using c a by simp
qed simp

lemma tryReadBlob_Ok:
  assumes "pp_port pp = send" "pp_cacheLineSize pp = 2 ^ l" "l < 32" "ok (w_mem w)" "pt_ok 12 (w_table w)"
    "\<forall>x\<in>set (span (a, n)). w_translate x w \<noteq> None \<and> inside (w_mem w) (tr w x)" "length p = unat n"
  shows "tryReadBlob ident now pp a p n w = Ok (True, map (\<lambda>x. byte (w_mem w) (tr w x)) (span (a, n)), w)"
proof -
  obtain g where g: "new_ChunkGenerator a n (2 ^ 12) = Ok g" "concat (map span (chunks g)) = span (a, n)" "\<forall>c\<in>set (chunks g). in_block 12 c"
    using chunks_of_region [of 12 a n] by auto
  then show ?thesis using se_read_chunks_Ok [OF assms(1-5) g(3), of p ident now] assms(6,7) by (simp add: tryReadBlob_def PageBytes_32)
qed

text \<open>Writing translated addresses, with pages allocated as they are needed.\<close>

definition covered :: "'m World \<Rightarrow> bool" where
  "covered w \<longleftrightarrow> ok (w_mem w) \<and> frames_ok w \<and> (\<forall>x. unat x < unat (sys_totalSize (w_system w)) \<longrightarrow> inside (w_mem w) x)"

lemma write_page_Always:
  assumes "frames_ok w" "0 < frames_left w"
  shows "\<exists>w'. write_page fuel Always a w = Ok (Some (Some (tr w' a), w')) \<and> extends w w' \<and> w_mem w' = w_mem w \<and> w_translate a w' \<noteq> None \<and>
    frames_left w \<le> frames_left w' + 1"
proof (cases "w_translate a w")
  case None
  obtain w' where "allocateMem (roundDown a PageBytes) (uint PageBytes) False w = Ok w'" "extends w w'" "w_mem w' = w_mem w" "w_translate a w' \<noteq> None"
      "frames_left w' = frames_left w - 1" using allocate_page(2) [OF assms(1) None assms(2)] by blast
  then show ?thesis using None by (auto simp: write_page_def tr_def)
next
  case (Some pa)
  then show ?thesis using extends_refl [OF assms(1)] by (auto simp: write_page_def tr_def)
qed

lemma covered_inside:
  assumes "covered w" "w_translate x w \<noteq> None"
  shows "inside (w_mem w) (tr w x)"
proof -
  obtain pa where pa: "w_translate x w = Some pa" using assms(2) by auto
  have "unat pa < unat (sys_totalSize (w_system w))" using assms(1) translate_frame [OF _ pa] unfolding covered_def by metis
  then show ?thesis using assms(1) pa by (simp add: covered_def tr_def)
qed

lemma se_write_chunks_Ok:
  assumes "pp_port pp = send" "pp_cacheLineSize pp = 2 ^ l" "l < 32" "covered w" "\<forall>c\<in>set cs. in_block 12 c" "length cs \<le> frames_left w"
    "length p = length (concat (map span cs))"
  shows "\<exists>w'. se_write_chunks fuel Always ident now pp cs p w = Ok (Some (True, w')) \<and> extends w w' \<and> covered w' \<and>
    (\<forall>x\<in>set (concat (map span cs)). w_translate x w' \<noteq> None) \<and> byte (w_mem w') = poke (map (tr w') (concat (map span cs))) p (byte (w_mem w))"
  using assms(4-7)
proof (induction cs arbitrary: p w)
  case Nil
  then show ?case using extends_refl [of w] by (simp add: poke_def covered_def)
next
  case (Cons c cs)
  obtain a n where c: "c = (a, n)" by (cases c)
  have b: "in_block 12 (a, n)" using Cons.prems(2) c by simp
  have cv: "ok (w_mem w)" "frames_ok w" using Cons.prems(1) by (simp_all add: covered_def)
  obtain w1 where w1: "write_page fuel Always a w = Ok (Some (Some (tr w1 a), w1))" "extends w w1" "w_mem w1 = w_mem w" "w_translate a w1 \<noteq> None"
      "frames_left w \<le> frames_left w1 + 1" using write_page_Always [OF cv(2), of fuel a] Cons.prems(3) by auto
  have c1: "covered w1" "frames_ok w1" using Cons.prems(1) w1(2,3) by (simp_all add: covered_def extends_def)
  have sp: "map (tr w1) (span (a, n)) = span (tr w1 a, n)" "\<forall>x\<in>set (span (a, n)). w_translate x w1 \<noteq> None"
    using tr_span [OF _ w1(4) b] c1(2) by (simp_all add: frames_ok_def)
  have ins: "\<forall>x\<in>set (span (tr w1 a, n)). inside (w_mem w1) x" using covered_inside [OF c1(1)] sp(2) unfolding sp(1) [symmetric] by auto
  have l: "length (take (unat n) p) = unat n" using Cons.prems(4) c by simp
  obtain m' where m': "writeBlobPhys ident now pp (tr w1 a) 0 (take (unat n) p) n (w_mem w1) = Ok m'" "ok m'" "inside m' = inside (w_mem w1)"
      "byte m' = poke (span (tr w1 a, n)) (take (unat n) p) (byte (w_mem w1))"
    using writeBlobPhys_Ok [OF assms(1-3) _ ins l, of ident now 0] cv(1) w1(3) by auto
  let ?w = "w1\<lparr>w_mem := m'\<rparr>"
  have c2: "covered ?w" "frames_left ?w = frames_left w1" using c1 m'(2,3) by (simp_all add: covered_def frames_left_def)
  obtain w' where w': "se_write_chunks fuel Always ident now pp cs (drop (unat n) p) ?w = Ok (Some (True, w'))" "extends ?w w'" "covered w'"
      "\<forall>x\<in>set (concat (map span cs)). w_translate x w' \<noteq> None" "byte (w_mem w') = poke (map (tr w') (concat (map span cs))) (drop (unat n) p) (byte m')"
    using Cons.IH [OF c2(1), of "drop (unat n) p"] Cons.prems(2-4) c c2(2) w1(5) by auto
  have ext: "w_translate x w' = w_translate x w1" if "x \<in> set (span (a, n))" for x using that sp(2) w'(2) by (simp add: extends_def)
  then have "map (tr w') (span (a, n)) = span (tr w1 a, n)" unfolding sp(1) [symmetric] by (simp add: tr_def)
  then have "byte (w_mem w') = poke (map (tr w') (concat (map span (c # cs)))) p (byte (w_mem w))"
    using poke_append [of "span (tr w1 a, n)" "take (unat n) p" "map (tr w') (concat (map span cs))" "drop (unat n) p" "byte (w_mem w)"] l c m'(4) w'(5) w1(3) by simp
  moreover have "\<forall>x\<in>set (concat (map span (c # cs))). w_translate x w' \<noteq> None" using c w'(4) ext sp(2) by auto
  moreover have "extends w w'" using extends_trans [OF w1(2)] w'(2) by simp
  ultimately show ?case using w1(1) m'(1) w'(1,3) c by simp
qed

text \<open>A write of a region for which there are enough frames.\<close>

lemma tryWriteBlob_Ok:
  assumes "pp_port pp = send" "pp_cacheLineSize pp = 2 ^ l" "l < 32" "covered w" "unat n div 4096 + 2 \<le> frames_left w" "length p = unat n"
  shows "\<exists>w'. tryWriteBlob fuel Always ident now pp a p n w = Ok (Some (True, w')) \<and> extends w w' \<and> covered w' \<and>
    (\<forall>x\<in>set (span (a, n)). w_translate x w' \<noteq> None) \<and> byte (w_mem w') = poke (map (tr w') (span (a, n))) p (byte (w_mem w))"
proof -
  obtain g where g: "new_ChunkGenerator a n (2 ^ 12) = Ok g" "concat (map span (chunks g)) = span (a, n)" "\<forall>c\<in>set (chunks g). in_block 12 c"
      "length (chunks g) \<le> unat n div 2 ^ 12 + 2"
    using chunks_of_region [of 12 a n] by auto
  then show ?thesis using se_write_chunks_Ok [OF assms(1-4) g(3), of p fuel ident now] assms(5,6) by (simp add: tryWriteBlob_def PageBytes_32)
qed

text \<open>What was written is read back, and every other byte of the process is as it was.\<close>

lemma write_read:
  assumes "pp_port pp = send" "pp_cacheLineSize pp = 2 ^ l" "l < 32" "covered w" "unat n div 4096 + 2 \<le> frames_left w" "length p = unat n"
  shows "\<exists>w'. tryWriteBlob fuel Always ident now pp a p n w = Ok (Some (True, w')) \<and> covered w' \<and>
    (\<forall>q. length q = unat n \<longrightarrow> tryReadBlob ident' now' pp a q n w' = Ok (True, p, w')) \<and>
    (\<forall>x. x \<notin> set (span (a, n)) \<longrightarrow> w_translate x w \<noteq> None \<longrightarrow> w_translate x w' = w_translate x w \<and> byte (w_mem w') (tr w' x) = byte (w_mem w) (tr w x))"
proof -
  obtain w' where w': "tryWriteBlob fuel Always ident now pp a p n w = Ok (Some (True, w'))" "extends w w'" "covered w'"
      "\<forall>x\<in>set (span (a, n)). w_translate x w' \<noteq> None" "byte (w_mem w') = poke (map (tr w') (span (a, n))) p (byte (w_mem w))"
    using tryWriteBlob_Ok [OF assms] by blast
  have f: "frames_ok w'" "ok (w_mem w')" "pt_ok 12 (w_table w')" using w'(3) by (simp_all add: covered_def frames_ok_def)
  have inj: "x = y" if "w_translate x w' \<noteq> None" "w_translate y w' \<noteq> None" "tr w' x = tr w' y" for x y
    using translate_inj [OF f(1), of x "tr w' x" y] that by (auto simp: tr_def)
  then have "distinct (map (tr w') (span (a, n)))" using w'(4) distinct_span by (auto simp: distinct_map inj_on_def)
  then have "map (byte (w_mem w')) (map (tr w') (span (a, n))) = p" unfolding w'(5) using assms(6) by (intro poke_nth) simp_all
  then have p: "map (\<lambda>x. byte (w_mem w') (tr w' x)) (span (a, n)) = p" by (simp add: comp_def)
  have "tryReadBlob ident' now' pp a q n w' = Ok (True, p, w')" if "length q = unat n" for q
    using tryReadBlob_Ok [OF assms(1-3) f(2,3), of a n q ident' now'] w'(4) covered_inside [OF w'(3)] that p by simp
  moreover have "w_translate x w' = w_translate x w \<and> byte (w_mem w') (tr w' x) = byte (w_mem w) (tr w x)"
    if x: "x \<notin> set (span (a, n))" "w_translate x w \<noteq> None" for x
  proof -
    have t: "w_translate x w' = w_translate x w" using w'(2) x(2) by (simp add: extends_def)
    then have "tr w' x \<notin> set (map (tr w') (span (a, n)))" using inj [of x] w'(4) x by (auto simp: image_iff) metis
    then have "byte (w_mem w') (tr w' x) = byte (w_mem w) (tr w' x)" unfolding w'(5) by (rule poke_other)
    then show ?thesis using t by (simp add: tr_def)
  qed
  ultimately show ?thesis using w'(1,3) by blast
qed

text \<open>Strings, byte by byte.\<close>

lemma one_byte: "span (x, 1) = [x]" "unat (1 :: u32) = 1"
  by (simp_all add: span_def)

lemma tryWriteString_Ok:
  assumes "pp_port pp = send" "pp_cacheLineSize pp = 2 ^ l" "l < 32" "0 \<notin> set str"
  shows "covered w \<Longrightarrow> \<forall>x\<in>set (addrs v (Suc (length str))). w_translate x w \<noteq> None \<Longrightarrow>
    \<exists>m. tryWriteString ident now pp v (str @ [0]) w = Ok (True, w\<lparr>w_mem := m\<rparr>) \<and> covered (w\<lparr>w_mem := m\<rparr>) \<and>
      byte m = poke (map (tr w) (addrs v (Suc (length str)))) (str @ [0]) (byte (w_mem w))"
  using assms(4)
proof (induction str arbitrary: v w)
  case Nil
  then obtain pa where pa: "w_translate v w = Some pa" by (auto simp: addrs_def)
  have "inside (w_mem w) pa" using covered_inside [OF Nil(1), of v] pa by (simp add: tr_def)
  then obtain m where "writeBlobPhys ident now pp pa 0 [0] 1 (w_mem w) = Ok m" "ok m" "inside m = inside (w_mem w)" "byte m = poke [pa] [0] (byte (w_mem w))"
    using writeBlobPhys_Ok [OF assms(1-3), of "w_mem w" pa 1 "[0]" ident now 0] Nil(1) by (auto simp: one_byte covered_def)
  then show ?case using pa Nil(1) by (auto simp: pp_writeBlob_def covered_def addrs_def tr_def)
next
  case (Cons c str)
  obtain pa where pa: "w_translate v w = Some pa" using Cons.prems(2) by (auto simp: addrs_Suc)
  have "inside (w_mem w) pa" using covered_inside [OF Cons.prems(1), of v] pa by (simp add: tr_def)
  then obtain m where m: "writeBlobPhys ident now pp pa 0 [c] 1 (w_mem w) = Ok m" "ok m" "inside m = inside (w_mem w)" "byte m = poke [pa] [c] (byte (w_mem w))"
    using writeBlobPhys_Ok [OF assms(1-3), of "w_mem w" pa 1 "[c]" ident now 0] Cons.prems(1) by (auto simp: one_byte covered_def)
  have cv: "covered (w\<lparr>w_mem := m\<rparr>)" using Cons.prems(1) m(2,3) by (simp add: covered_def)
  have "\<forall>x\<in>set (addrs (v + 1) (Suc (length str))). w_translate x (w\<lparr>w_mem := m\<rparr>) \<noteq> None" "0 \<notin> set str" "c \<noteq> 0"
    using Cons.prems(2,3) by (auto simp: addrs_Suc [of v "Suc (length str)"])
  with Cons.IH [OF cv] obtain m' where m': "tryWriteString ident now pp (v + 1) (str @ [0]) (w\<lparr>w_mem := m\<rparr>) = Ok (True, w\<lparr>w_mem := m'\<rparr>)" "covered (w\<lparr>w_mem := m'\<rparr>)"
      "byte m' = poke (map (tr w) (addrs (v + 1) (Suc (length str)))) (str @ [0]) (byte m)" by auto
  have "byte m' = poke (map (tr w) (addrs v (Suc (length (c # str))))) ((c # str) @ [0]) (byte (w_mem w))"
    using poke_append [of "[pa]" "[c]" "map (tr w) (addrs (v + 1) (Suc (length str)))" "str @ [0]" "byte (w_mem w)"] m(4) m'(3) pa
    by (simp add: addrs_Suc [of v "Suc (length str)"] tr_def)
  then show ?case using pa m(1) m' \<open>c \<noteq> 0\<close> by (auto simp: pp_writeBlob_def)
qed

lemma tryReadString_Ok:
  assumes "pp_port pp = send" "pp_cacheLineSize pp = 2 ^ l" "l < 32" "covered w"
  shows "\<forall>x\<in>set (addrs v (Suc (length str))). w_translate x w \<noteq> None \<Longrightarrow> 0 \<notin> set str \<Longrightarrow> map (\<lambda>x. byte (w_mem w) (tr w x)) (addrs v (Suc (length str))) = str @ [0] \<Longrightarrow>
    length str < fuel \<Longrightarrow> tryReadString fuel ident now pp acc v w = Ok (Some (True, acc @ str, w))"
proof (induction str arbitrary: v acc fuel)
  case Nil
  then obtain pa f where pa: "w_translate v w = Some pa" "fuel = Suc f" by (cases fuel) (auto simp: addrs_def)
  have "inside (w_mem w) pa" using covered_inside [OF assms(4), of v] pa by (simp add: tr_def)
  then have "readBlobPhys ident now pp pa 0 [0] 1 (w_mem w) = Ok ([byte (w_mem w) pa], w_mem w)"
    using readBlobPhys_Ok [OF assms(1-3), of "w_mem w" pa 1 "[0]" ident now 0] assms(4) by (auto simp: one_byte covered_def)
  moreover have "byte (w_mem w) pa = 0" using Nil(3) pa by (simp add: addrs_def tr_def)
  ultimately show ?case using pa by (simp add: pp_readBlob_def)
next
  case (Cons c str)
  obtain pa f where pa: "w_translate v w = Some pa" "fuel = Suc f" "length str < f" using Cons.prems(1,4) by (cases fuel) (auto simp: addrs_Suc)
  have "inside (w_mem w) pa" using covered_inside [OF assms(4), of v] pa by (simp add: tr_def)
  then have "readBlobPhys ident now pp pa 0 [0] 1 (w_mem w) = Ok ([byte (w_mem w) pa], w_mem w)"
    using readBlobPhys_Ok [OF assms(1-3), of "w_mem w" pa 1 "[0]" ident now 0] assms(4) by (auto simp: one_byte covered_def)
  moreover have "byte (w_mem w) pa = c" "c \<noteq> 0" using Cons.prems(2,3) pa by (auto simp: addrs_Suc [of v "Suc (length str)"] tr_def)
  moreover have "tryReadString f ident now pp (acc @ [c]) (v + 1) w = Ok (Some (True, (acc @ [c]) @ str, w))"
    using Cons.prems(1-3) pa(3) by (intro Cons.IH) (auto simp: addrs_Suc [of v "Suc (length str)"])
  ultimately show ?case using pa by (simp add: pp_readBlob_def)
qed

lemma string_roundtrip:
  assumes "pp_port pp = send" "pp_cacheLineSize pp = 2 ^ l" "l < 32" "covered w" "0 \<notin> set str" "length str < 2 ^ 64 - 1"
    "\<forall>x\<in>set (addrs v (Suc (length str))). w_translate x w \<noteq> None" "length str < fuel"
  shows "\<exists>w'. tryWriteString ident now pp v (str @ [0]) w = Ok (True, w') \<and> covered w' \<and> tryReadString fuel ident' now' pp acc v w' = Ok (Some (True, acc @ str, w'))"
proof -
  obtain m where m: "tryWriteString ident now pp v (str @ [0]) w = Ok (True, w\<lparr>w_mem := m\<rparr>)" "covered (w\<lparr>w_mem := m\<rparr>)"
      "byte m = poke (map (tr w) (addrs v (Suc (length str)))) (str @ [0]) (byte (w_mem w))"
    using tryWriteString_Ok [OF assms(1-3,5,4,7)] by blast
  have "inj_on (tr w) (set (addrs v (Suc (length str))))"
  proof (rule inj_onI)
    fix x y assume "x \<in> set (addrs v (Suc (length str)))" "y \<in> set (addrs v (Suc (length str)))" "tr w x = tr w y"
    moreover have "w_translate z w = Some (tr w z)" if "z \<in> set (addrs v (Suc (length str)))" for z using that assms(7) by (auto simp: tr_def)
    ultimately have "w_translate x w = Some (tr w x)" "w_translate y w = Some (tr w x)" by simp_all
    then show "x = y" using translate_inj [of w x "tr w x" y] assms(4) unfolding covered_def by blast
  qed
  then have "distinct (map (tr w) (addrs v (Suc (length str))))" using assms(6) by (simp add: distinct_map distinct_addrs)
  then have "map (byte m) (map (tr w) (addrs v (Suc (length str)))) = str @ [0]" unfolding m(3) by (intro poke_nth) (simp_all add: addrs_def)
  then have "map (\<lambda>x. byte (w_mem (w\<lparr>w_mem := m\<rparr>)) (tr (w\<lparr>w_mem := m\<rparr>) x)) (addrs v (Suc (length str))) = str @ [0]" by (simp add: comp_def)
  then show ?thesis using m(1,2) tryReadString_Ok [OF assms(1-3) m(2) _ assms(5) _ assms(8), of v ident' now' acc] assms(7) by simp
qed

end

section \<open>The simple memory serves functional packets\<close>

definition am_inside :: "AbstractMemory \<Rightarrow> Addr \<Rightarrow> bool" where
  "am_inside am x \<longleftrightarrow> rg_start (am_range am) \<le> x \<and> x \<le> rg_end (am_range am)"

definition am_byte :: "AbstractMemory \<Rightarrow> Addr \<Rightarrow> u8" where
  "am_byte am x = (if am_inside am x then mem_byte am (unat x) else 0)"

lemma span_unat:
  assumes "unat a + unat n \<le> 2 ^ 64"
  shows "map unat (span (a, n)) = [unat a..<unat a + unat n]"
proof -
  have "unat (a + of_nat i) = unat a + i" if "i < unat n" for i
  proof -
    have "unat (of_nat i :: u64) = i" using that assms by (intro unat_of_nat_small) simp
    then show ?thesis using that assms by (simp add: unat_word_ariths)
  qed
  then show ?thesis by (intro nth_equalityI) (simp_all add: span_def)
qed

lemma func_in_memory:
  assumes "mem_ok am" "func_packet c a d pkt" "length d = unat n" "unat a + unat n \<le> 2 ^ 64" "\<forall>x\<in>set (span (a, n)). am_inside am x"
  shows "in_memory am pkt" "pk_size pkt = n"
proof -
  have "d \<noteq> []" using assms(2) by (simp add: func_packet_def)
  then have d: "0 < unat n" "unat (pk_size pkt) = unat n" "pk_addr pkt = a"
    using assms(2,3) length_greater_0_conv [of d] by (simp_all add: func_packet_def)
  then show n: "pk_size pkt = n" by (simp only: word_unat_eq_iff)
  have i: "unat (rg_start (am_range am)) \<le> y" "y \<le> unat (rg_end (am_range am))" if y: "y \<in> {unat a..<unat a + unat n}" for y
  proof -
    have "y \<in> set (map unat (span (a, n)))" unfolding span_unat [OF assms(4)] using y by simp
    then obtain x where "x \<in> set (span (a, n))" "y = unat x" by auto
    then show "unat (rg_start (am_range am)) \<le> y" "y \<le> unat (rg_end (am_range am))" using assms(5) by (simp_all add: am_inside_def word_le_nat_alt)
  qed
  have "unat (rg_start (am_range am)) \<le> unat a" "unat a + unat n - 1 \<le> unat (rg_end (am_range am))"
    using i(1) [of "unat a"] i(2) [of "unat a + unat n - 1"] d(1) by auto
  then show "in_memory am pkt" using assms(2,3) d(1,2) n by (auto simp: func_packet_def in_memory_def pk_first_def word_less_nat_alt)
qed

text \<open>The range that a functional access checks is the one of an access.\<close>

lemma func_range:
  assumes "mem_ok am" "in_memory am pkt"
  shows "isSubset (AddrRange_plain (pk_addr pkt) (pk_addr pkt + ucast (pk_size pkt) - 1)) (am_range am) = Ok True"
proof -
  have "pk_size pkt \<noteq> 0" using assms(2) by (auto simp: in_memory_def)
  then have "unat (ucast (pk_size pkt - 1) :: u64) = unat (ucast (pk_size pkt) - 1 :: u64)"
    using unat_minus_one [of "pk_size pkt"] unat_minus_one [of "ucast (pk_size pkt) :: u64"] by (simp add: word_unat_eq_iff)
  then have "(ucast (pk_size pkt - 1) :: u64) = ucast (pk_size pkt) - 1" by (simp only: word_unat_eq_iff)
  then have "pk_addr pkt + ucast (pk_size pkt) - 1 = pk_addr pkt + ucast (pk_size pkt - 1)" by simp
  then show ?thesis using in_memory_range(1) [OF assms] by (simp only:)
qed

lemma am_functional_read:
  assumes "mem_ok am" "func_packet ReadReq a d pkt" "length d = unat n" "unat a + unat n \<le> 2 ^ 64" "\<forall>x\<in>set (span (a, n)). am_inside am x"
  shows "\<exists>pkt'. functionalAccess pkt am = Ok (pkt', am) \<and> pk_data pkt' = Some (map (am_byte am) (span (a, n)))"
proof -
  note m = func_in_memory [OF assms]
  let ?h = "hostAddr am a" and ?n = "unat n"
  have a: "pk_addr pkt = a" "pk_cmd pkt = ReadReq" "pk_data pkt = Some d" using assms(2) by (simp_all add: func_packet_def)
  obtain buf where buf: "am_pmem am = Some buf" using assms(1) by (auto simp: mem_ok_def)
  note r = in_memory_range(2,3) [OF assms(1) m(1), unfolded a(1)]
  have le: "?h + ?n \<le> length buf" using r(2) buf m(2) by simp
  have "mem_to_packet am ?h pkt = Ok (pkt\<lparr>pk_data := Some (take ?n (drop ?h buf))\<rparr>)"
    using a(3) assms(3) m buf le by (simp add: mem_to_packet_def pkt_getPtr_def pkt_getSize_def in_memory_def memcpy_def overwrite_def)
  moreover have "take ?n (drop ?h buf) = map (mem_byte am) (map unat (span (a, n)))"
    unfolding span_unat [OF assms(4)] using le m r(1) a(1) buf by (intro nth_equalityI) (simp_all add: mem_byte_def in_memory_def pk_first_def add.commute)
  then have "take ?n (drop ?h buf) = map (am_byte am) (span (a, n))" using assms(5) by (simp add: am_byte_def)
  ultimately show ?thesis using func_range [OF assms(1) m(1)] m(1) a
    by (simp add: functionalAccess_def pkt_getAddr_def pkt_getSize_def in_memory_def cmd_defs makeResponse_def pkt_clear_def)
qed

lemma am_functional_write:
  assumes "mem_ok am" "func_packet WriteReq a d pkt" "length d = unat n" "unat a + unat n \<le> 2 ^ 64" "\<forall>x\<in>set (span (a, n)). am_inside am x"
  shows "\<exists>pkt' am'. functionalAccess pkt am = Ok (pkt', am') \<and> mem_ok am' \<and> am_inside am' = am_inside am \<and> am_byte am' = poke (span (a, n)) d (am_byte am)"
proof -
  note m = func_in_memory [OF assms]
  let ?h = "hostAddr am a" and ?n = "unat n" and ?s = "unat (rg_start (am_range am))"
  have a: "pk_addr pkt = a" "pk_cmd pkt = WriteReq" "pk_data pkt = Some d" using assms(2) by (simp_all add: func_packet_def)
  obtain buf where buf: "am_pmem am = Some buf" "length buf = unat (rg_end (am_range am)) - ?s + 1" using assms(1) by (auto simp: mem_ok_def unat_sub)
  note r = in_memory_range(2,3) [OF assms(1) m(1), unfolded a(1)]
  have le: "?h + ?n \<le> length buf" using r(2) buf m(2) by simp
  have h: "?h = unat a - ?s" "?s \<le> unat a" using r(1) a(1) m(1) by (simp_all add: pk_first_def in_memory_def)
  let ?b = "overwrite ?h d buf"
  let ?m = "am\<lparr>am_pmem := Some ?b\<rparr>"
  have p: "packet_to_mem pkt ?h am = Ok ?m"
    using a(3) assms(3) m buf le by (simp add: packet_to_mem_def pkt_getPtr_def pkt_getSize_def in_memory_def memcpy_def)
  have ok: "mem_ok ?m" "am_inside ?m = am_inside am" using assms(1,3) buf(1) le by (auto simp: mem_ok_def am_inside_def fun_eq_iff)
  have byte: "mem_byte ?m (unat x) = (if unat a \<le> unat x \<and> unat x < unat a + ?n then d ! (unat x - unat a) else mem_byte am (unat x))" if x: "am_inside am x" for x
  proof -
    have i: "?s \<le> unat x" "unat x - ?s < length buf" using x buf(2) by (auto simp: am_inside_def word_le_nat_alt)
    have "?b ! (unat x - ?s) = (if ?h \<le> unat x - ?s \<and> unat x - ?s < ?h + ?n then d ! (unat x - ?s - ?h) else buf ! (unat x - ?s))"
      using nth_overwrite [of ?h d buf "unat x - ?s"] le assms(3) i(2) by simp
    moreover have "?h \<le> unat x - ?s \<and> unat x - ?s < ?h + ?n \<longleftrightarrow> unat a \<le> unat x \<and> unat x < unat a + ?n" "unat x - ?s - ?h = unat x - unat a"
      using h i(1) by auto
    ultimately show ?thesis using buf(1) by (simp add: mem_byte_def)
  qed
  have "am_byte ?m x = poke (span (a, n)) d (am_byte am) x" for x
  proof (cases "x \<in> set (span (a, n))")
    case True
    then obtain i where i: "i < ?n" "x = span (a, n) ! i" by (auto simp: in_set_conv_nth)
    have "unat x = map unat (span (a, n)) ! i" using i by simp
    then have u: "unat x = unat a + i" unfolding span_unat [OF assms(4)] using i(1) by simp
    have "map (poke (span (a, n)) d (am_byte am)) (span (a, n)) ! i = d ! i" using poke_nth [OF distinct_span, of a n d "am_byte am"] assms(3) by simp
    then have "poke (span (a, n)) d (am_byte am) x = d ! i" using i by simp
    then show ?thesis using byte [of x] True assms(5) ok(2) u i(1) by (simp add: am_byte_def)
  next
    case False
    have "\<not> (unat a \<le> unat x \<and> unat x < unat a + ?n)"
    proof
      assume "unat a \<le> unat x \<and> unat x < unat a + ?n"
      then have "unat x \<in> set (map unat (span (a, n)))" unfolding span_unat [OF assms(4)] by simp
      then show False using False by (auto simp: word_unat_eq_iff [symmetric])
    qed
    then show ?thesis using poke_other [OF False] byte [of x] ok(2) by (auto simp: am_byte_def)
  qed
  then have "am_byte ?m = poke (span (a, n)) d (am_byte am)" by (rule ext)
  moreover have "\<exists>pkt'. functionalAccess pkt am = Ok (pkt', ?m)" using p func_range [OF assms(1) m(1)] m(1) a
    by (simp add: functionalAccess_def pkt_getAddr_def pkt_getSize_def in_memory_def cmd_defs makeResponse_def pkt_clear_def)
  ultimately show ?thesis using ok by blast
qed

interpretation fm: functional_port functionalAccess mem_ok am_inside am_byte
  by unfold_locales (rule am_functional_read, assumption+, rule am_functional_write)

section \<open>Properties\<close>

text \<open>A process whose frames are all inside of the memory.\<close>

definition world_ok :: "AbstractMemory World \<Rightarrow> bool" where
  "world_ok w \<longleftrightarrow> mem_ok (w_mem w) \<and> frames_ok w \<and> (\<forall>x. unat x < unat (sys_totalSize (w_system w)) \<longrightarrow> am_inside (w_mem w) x)"

lemma covered_world_ok: "fm.covered = world_ok"
  by (simp add: fun_eq_iff fm.covered_def world_ok_def)

text \<open>C14: the simulator writes a block of any size that the code's \<^verbatim>\<open>int\<close> holds at any virtual address of a process while physical frames are left for it: pages that are missing are
  allocated on the way, and the write succeeds. A read of the same addresses then returns exactly what was written, and every other byte that the process
  could see before still has its physical address and its value: pages never share a frame.\<close>

theorem se_write_read:
  assumes "pp_port pp = functionalAccess" "pp_cacheLineSize pp = 2 ^ l" "l < 32" "world_ok w" "unat n div 4096 + 2 \<le> frames_left w" "length p = unat n"
  shows "\<exists>w'. tryWriteBlob fuel Always ident now pp a p n w = Ok (Some (True, w')) \<and> world_ok w' \<and>
    (\<forall>q. length q = unat n \<longrightarrow> tryReadBlob ident' now' pp a q n w' = Ok (True, p, w')) \<and>
    (\<forall>x. x \<notin> set (span (a, n)) \<longrightarrow> w_translate x w \<noteq> None \<longrightarrow>
      w_translate x w' = w_translate x w \<and> am_byte (w_mem w') (tr w' x) = am_byte (w_mem w) (tr w x))"
  using fm.write_read [OF assms(1-3) _ assms(5,6)] assms(4) unfolding covered_world_ok by blast

text \<open>C21: a string of characters other than zero that is written at mapped addresses is read back as it was, from any address, across pages: the write puts a zero
  after it, and the read, which has no bound of its own, ends there.\<close>

theorem se_string_roundtrip:
  assumes "pp_port pp = functionalAccess" "pp_cacheLineSize pp = 2 ^ l" "l < 32" "world_ok w" "0 \<notin> set str" "length str < 2 ^ 64 - 1"
    "\<forall>x\<in>set (addrs v (Suc (length str))). w_translate x w \<noteq> None" "length str < fuel"
  shows "\<exists>w'. se_writeString ident now pp v (str @ [0]) w = Ok w' \<and> world_ok w' \<and> se_readString fuel ident' now' pp v w' = Ok (Some (str, w'))"
  using fm.string_roundtrip [OF assms(1-3) _ assms(5-8), of ident now ident' now' "[]"] assms(4) unfolding covered_world_ok
  by (auto simp: se_writeString_def se_readString_def)

text \<open>A small process for the witnesses: four frames and no pages.\<close>

definition small_world :: "AbstractMemory World" where
  "small_world = \<lparr>w_mem = setBackingStore (Some (replicate 16384 0)) (new_AbstractMemory (AddrRange_plain 0 16383)),
     w_process = \<lparr>pr_pTable = \<lparr>pt_pTable = Map.empty, pt_pageSize = 2 ^ 12, pt_offsetMask = mask 12\<rparr>,
                  pr_memState = \<lparr>ms_stackBase = 0x80000, ms_maxStackSize = 0x8000, ms_stackMin = 0x7e000\<rparr>\<rparr>,
     w_system = \<lparr>sys_pagePtr = 0, sys_totalSize = 16384\<rparr>\<rparr>"

lemma small_world_frames: "frames_ok small_world" "frames_left small_world = 4" "w_translate x small_world = None"
  by (simp_all add: small_world_def frames_ok_def frames_left_def pt_ok_def w_translate_def pt_translate_def pt_lookup_def)

lemma small_world_ok: "world_ok small_world"
proof -
  have "am_inside (w_mem small_world) x" if "unat x < 16384" for x
    using that by (simp add: small_world_def am_inside_def setBackingStore_def new_AbstractMemory_def AddrRange_plain_def word_le_nat_alt)
  moreover have "mem_ok (w_mem small_world)"
    by (simp add: small_world_def mem_ok_def setBackingStore_def new_AbstractMemory_def AddrRange_plain_def interleaved_def)
  ultimately show ?thesis using small_world_frames(1) by (simp add: world_ok_def) (simp add: small_world_def)
qed

theorem se_write_read_witness:
  "\<exists>w'. tryWriteBlob 0 Always 0 0 \<lparr>pp_port = functionalAccess, pp_cacheLineSize = 2 ^ 6\<rparr> 0x12fff [1, 2, 3] 3 small_world = Ok (Some (True, w')) \<and>
     tryReadBlob 1 5 \<lparr>pp_port = functionalAccess, pp_cacheLineSize = 2 ^ 6\<rparr> 0x12fff [0, 0, 0] 3 w' = Ok (True, [1, 2, 3], w')"
  using se_write_read [of "\<lparr>pp_port = functionalAccess, pp_cacheLineSize = 2 ^ 6\<rparr>" 6 small_world 3 "[1, 2, 3]" 0 0 0 "0x12fff" 1 5] small_world_ok small_world_frames(2)
  by auto

text \<open>The string is written into a page that a first write allocates.\<close>

theorem se_string_roundtrip_witness:
  "\<exists>w w'. w_translate 0x12000 w \<noteq> None \<and> se_writeString 0 0 \<lparr>pp_port = functionalAccess, pp_cacheLineSize = 2 ^ 6\<rparr> 0x12000 [104, 105, 0] w = Ok w' \<and>
     se_readString 3 1 5 \<lparr>pp_port = functionalAccess, pp_cacheLineSize = 2 ^ 6\<rparr> 0x12000 w' = Ok (Some ([104, 105], w'))"
proof -
  let ?pp = "\<lparr>pp_port = functionalAccess, pp_cacheLineSize = 2 ^ 6\<rparr> :: AbstractMemory PortProxy"
  obtain w where w: "world_ok w" "\<forall>x\<in>set (span (0x12000, 3)). w_translate x w \<noteq> None"
    using fm.tryWriteBlob_Ok [of ?pp 6 small_world 3 "[0, 0, 0]" 0 0 0 "0x12000"] small_world_ok small_world_frames(2) unfolding covered_world_ok by auto
  moreover have "span (0x12000, 3) = addrs 0x12000 (Suc (length [104, 105 :: u8]))" by (simp add: span_def addrs_def upt_rec)
  ultimately have "\<forall>x\<in>set (addrs 0x12000 (Suc (length [104, 105 :: u8]))). w_translate x w \<noteq> None" by simp
  moreover have "w_translate 0x12000 w \<noteq> None" using w(2) by (simp add: span_def upt_rec)
  ultimately show ?thesis using se_string_roundtrip [of ?pp 6 w "[104, 105]" "0x12000" 3 0 0 1 5] w(1) by (intro exI [where P = "\<lambda>w. \<exists>w'. Q w w'" and x = w for Q]) auto
qed

text \<open>C15: a fault below the lowest page of the stack, not further down than its greatest size, is repaired, when the base of the stack, its greatest size and
  its lowest address are multiples of the page size, the region from the lowest address down to the base less the greatest size has no page mapped, and there are
  free frames for the pages from the faulting address up to the lowest one (otherwise the allocation aborts the simulator): the loop ends after as many rounds as there are such
  pages, all of them are mapped, the lowest address is now the page of the faulting one, and no other address and no byte of the memory changes.\<close>

theorem stack_grows_to_fault:
  assumes "frames_ok w" and "pr_memState (w_process w) = \<lparr>ms_stackBase = base, ms_maxStackSize = mx, ms_stackMin = mn\<rparr>"
    and "unat mx \<le> unat base" "4096 dvd unat mx" "4096 dvd unat base" "4096 dvd unat mn" "mn \<le> base"
    and "base - mx \<le> v" "v < mn" "(unat mn - unat v + 4095) div 4096 \<le> frames_left w" "(unat mn - unat v + 4095) div 4096 \<le> fuel"
    and "\<forall>x. base - mx \<le> x \<and> x < mn \<longrightarrow> w_translate x w = None"
  shows "\<exists>w'. fixupStackFault fuel v w = Ok (Some (True, w')) \<and> frames_ok w' \<and> w_mem w' = w_mem w \<and>
    pr_memState (w_process w') = \<lparr>ms_stackBase = base, ms_maxStackSize = mx, ms_stackMin = roundDown v PageBytes\<rparr> \<and>
    (\<forall>x. if roundDown v PageBytes \<le> x \<and> x < mn then w_translate x w' \<noteq> None else w_translate x w' = w_translate x w)"
  using fixupStackFault_grow [OF assms] unfolding extends_def by blast

theorem stack_grows_to_fault_witness:
  "\<exists>w'. fixupStackFault 3 0x7b123 small_world = Ok (Some (True, w')) \<and> w_translate 0x7c000 w' \<noteq> None \<and> w_translate 0x7a000 w' = None"
proof -
  have rd: "roundDown 0x7b123 PageBytes = 0x7b000" by (simp add: roundDown_def PageBytes_def PageShift_def Let_def)
  have ms: "pr_memState (w_process small_world) = \<lparr>ms_stackBase = 0x80000, ms_maxStackSize = 0x8000, ms_stackMin = 0x7e000\<rparr>"
    by (simp add: small_world_def)
  from stack_grows_to_fault [OF small_world_frames(1) ms, of "0x7b123" 3] obtain w' where w': "fixupStackFault 3 0x7b123 small_world = Ok (Some (True, w'))"
      "\<forall>x. if 0x7b000 \<le> x \<and> x < 0x7e000 then w_translate x w' \<noteq> None else w_translate x w' = w_translate x small_world"
    unfolding rd using small_world_frames(2,3) by auto
  show ?thesis using w'(1) w'(2) [rule_format, of "0x7c000"] w'(2) [rule_format, of "0x7a000"] small_world_frames(3) by auto
qed

end
